(* ===== verification/Prelude.thy ===== *)
theory Prelude
  imports Main "HOL-Library.Word"
begin

unbundle bit_operations_syntax

text \<open>
  Shared vocabulary of the development: the C integer types as words, the
  collections of rewrite rules the component theories fill, and the generic
  facts on words, bytes and lists that several components use.

  A C object of type \<^verbatim>\<open>uintN_t\<close> or \<^verbatim>\<open>intN_t\<close> is an \<^verbatim>\<open>N word\<close>; the signed
  reading is \<^verbatim>\<open>sint\<close>. A pointer to read-only bytes together with its length is
  the list of those bytes.
\<close>

section \<open>Machine integers\<close>

type_synonym u8 = "8 word"
type_synonym u16 = "16 word"
type_synonym u32 = "32 word"
type_synonym u64 = "64 word"
type_synonym i8 = "8 word"
type_synonym i16 = "16 word"
type_synonym i32 = "32 word"
type_synonym i64 = "64 word"
type_synonym bytes = "u8 list"

abbreviation (input) SIZE_MAX :: u64 where
  "SIZE_MAX \<equiv> 0xFFFFFFFFFFFFFFFF"

section \<open>Rule collections\<close>

named_theorems byte_simps \<open>byte-level reading and writing of words\<close>
named_theorems reader_simps \<open>cursor operations expressed on the unread suffix\<close>
named_theorems sink_simps \<open>append operations expressed on the written contents\<close>

section \<open>Words\<close>

lemma unat_drop_bit_word: "unat (drop_bit n w) = unat w div 2 ^ n"
  for w :: "'a::len word"
  by (subst unat_drop_bit_eq) (simp add: drop_bit_eq_div)

lemma unat_drop_bit_less:
  fixes w :: "'a::len word"
  assumes "0 < n" "0 < unat w"
  shows "unat (drop_bit n w) < unat w"
proof -
  have "1 < (2::nat) ^ n"
    using assms(1) by (rule one_less_power [OF one_less_numeral_iff [THEN iffD2], rotated]) simp
  then show ?thesis
    using assms(2) by (simp add: unat_drop_bit_word)
qed

lemma word_split_low:
  "w = (w AND mask n) OR push_bit n (drop_bit n w)"
  for w :: "'a::len word"
  by (rule bit_word_eqI) (auto simp add: bit_simps, metis le_add_diff_inverse linorder_not_less)

lemma push_bit_split_low:
  "push_bit s w = push_bit s (w AND mask n) OR push_bit (s + n) (drop_bit n w)"
  for w :: "'a::len word"
proof (rule bit_word_eqI)
  fix i
  have "n + (i - (s + n)) = i - s" if "s + n \<le> i"
    using that by simp
  then show "bit (push_bit s w) i \<longleftrightarrow>
      bit (push_bit s (w AND mask n) OR push_bit (s + n) (drop_bit n w)) i"
    by (cases "s + n \<le> i") (auto simp add: bit_simps)
qed

lemma drop_bit_eq_0_if_small:
  fixes w :: "'a::len word"
  assumes "unat w < 2 ^ n"
  shows "drop_bit n w = 0"
  using assms by (simp add: unat_eq_0 [symmetric] unat_drop_bit_word)

lemma take_bit_unat_self:
  fixes w :: "'a::len word"
  assumes "unat w < 2 ^ n"
  shows "take_bit n w = w"
proof -
  have "unat (take_bit n w) = unat w"
    using assms by (subst unsigned_take_bit_eq) (simp add: take_bit_nat_eq_self)
  then show ?thesis by (rule unsigned_word_eqI)
qed

lemma and_mask_unat_self:
  fixes w :: "'a::len word"
  assumes "unat w < 2 ^ n"
  shows "w AND mask n = w"
  using take_bit_unat_self [OF assms] by (simp add: take_bit_eq_mask)

lemma unat_and_mask: "unat (w AND mask n) = unat w mod 2 ^ n"
  for w :: "'a::len word"
  unfolding take_bit_eq_mask [symmetric] unsigned_take_bit_eq by (simp add: take_bit_eq_mod)

lemma and_mask_length: "LENGTH('a) \<le> n \<Longrightarrow> w AND mask n = w"
  for w :: "'a::len word"
  unfolding take_bit_eq_mask [symmetric] by (rule take_bit_word_eq_self)

lemma not_bit_if_small:
  fixes w :: "'a::len word"
  assumes "unat w < 2 ^ n" "n \<le> i"
  shows "\<not> bit w i"
  using take_bit_unat_self [OF assms(1)] assms(2) by (metis bit_take_bit_iff leD)

lemma unat_ucast_small:
  fixes w :: "'a::len word"
  assumes "unat w < 2 ^ LENGTH('b::len)"
  shows "unat (ucast w :: 'b word) = unat w"
  using assms by (simp add: unsigned_ucast_eq take_bit_nat_eq_self)

lemma unat_ucast_up:
  fixes w :: "'a::len word"
  assumes "LENGTH('a) \<le> LENGTH('b::len)"
  shows "unat (ucast w :: 'b word) = unat w"
proof (rule unat_ucast_small)
  have "unat w < 2 ^ LENGTH('a)"
    by (rule unsigned_less)
  also have "\<dots> \<le> 2 ^ LENGTH('b)"
    using assms by (intro power_increasing) simp_all
  finally show "unat w < 2 ^ LENGTH('b)" .
qed

lemma unat_i32_as_size: "unat (ucast w :: u64) = unat w" "unat w < 2 ^ 63"
  for w :: i32
proof -
  show "unat (ucast w :: u64) = unat w"
    by (rule unat_ucast_up) simp
  have "unat w < 2 ^ LENGTH(32)"
    by (rule unsigned_less)
  then show "unat w < 2 ^ 63"
    by simp
qed

lemma sint_of_nat_small:
  assumes "n < 2 ^ (LENGTH('a::len) - 1)"
  shows "sint (word_of_nat n :: 'a word) = int n"
proof -
  have "int n < 2 ^ (LENGTH('a) - 1)"
    using assms by (metis of_nat_less_iff of_nat_numeral of_nat_power)
  moreover have "- (2 ^ (LENGTH('a) - 1)) \<le> int n"
    by (rule order_trans [of _ 0]) simp_all
  ultimately have "signed_take_bit (LENGTH('a) - 1) (int n) = int n"
    by (intro signed_take_bit_int_eq_self)
  then show ?thesis
    by (simp add: signed_of_nat)
qed

lemma scast_of_nat_small:
  assumes "n < 2 ^ (LENGTH('a::len) - 1)"
  shows "(scast (word_of_nat n :: 'a word) :: 'b::len word) = word_of_nat n"
  using sint_of_nat_small [OF assms] by (simp add: scast_eq)

section \<open>Lists\<close>

lemma length_drop_Suc:
  assumes "n < length xs"
  shows "drop n xs = xs ! n # drop (Suc n) xs"
  using assms by (simp add: Cons_nth_drop_Suc)

lemma take_append_exact [simp]: "length xs = n \<Longrightarrow> take n (xs @ ys) = xs"
  by simp

lemma drop_append_exact [simp]: "length xs = n \<Longrightarrow> drop n (xs @ ys) = ys"
  by simp

lemma take_drop_prefix:
  assumes "drop p xs = ys @ zs"
  shows "take (length ys) (drop p xs) = ys" "drop (p + length ys) xs = zs"
proof -
  show "take (length ys) (drop p xs) = ys"
    using assms by simp
  have "drop (length ys) (drop p xs) = zs"
    using assms by simp
  then show "drop (p + length ys) xs = zs"
    by (simp add: add.commute)
qed

section \<open>Casts\<close>

lemma ucast_scast_up:
  fixes w :: "'a::len word"
  assumes "LENGTH('a) \<le> LENGTH('b)"
  shows "ucast (scast w :: 'b::len word) = w"
proof (rule bit_word_eqI)
  fix n assume n: "n < LENGTH('a)"
  then have "min (LENGTH('a) - 1) n = n" by simp
  with n assms show "bit (ucast (scast w :: 'b word) :: 'a word) n \<longleftrightarrow> bit w n"
    by (simp add: bit_simps)
qed

lemma ucast_of_nat_small:
  assumes "n < 2 ^ LENGTH('a)" "LENGTH('b) \<le> LENGTH('a)" "n < 2 ^ LENGTH('b)"
  shows "(ucast (word_of_nat n :: 'a::len word) :: 'b::len word) = word_of_nat n"
  by (rule word_unat_eq_iff [THEN iffD2])
    (use assms in \<open>simp add: unat_ucast_small unat_of_nat\<close>)

text \<open>Whole bytes of a bit string.\<close>

lemma div8_iff: "i div 8 = k \<longleftrightarrow> 8 * k \<le> i \<and> i < 8 * k + 8" for i k :: nat
  by linarith

lemma ceil8_step: "0 < n \<Longrightarrow> (n + 7) div 8 = Suc ((n - 8 + 7) div 8)" for n :: nat
  by (cases "8 \<le> n") (auto simp: le_div_geq)

end
