(* ===== verification/Status.thy ===== *)
theory Status
  imports Prelude
begin

text \<open>
  \<^verbatim>\<open>carquet/error.h\<close>: the status codes every fallible function of the library
  returns, and the allocator wrappers of \<^verbatim>\<open>core/allocator.c\<close> as the components
  see them. An allocator is a parameter of the operations that allocate: which
  requests it grants, and the indeterminate bytes a fresh block holds.
\<close>

section \<open>Status codes\<close>

datatype carquet_status =
    CARQUET_OK
  | CARQUET_ERROR_INVALID_ARGUMENT
  | CARQUET_ERROR_OUT_OF_MEMORY
  | CARQUET_ERROR_NOT_IMPLEMENTED
  | CARQUET_ERROR_INTERNAL
  | CARQUET_ERROR_FILE_NOT_FOUND
  | CARQUET_ERROR_FILE_OPEN
  | CARQUET_ERROR_FILE_READ
  | CARQUET_ERROR_FILE_WRITE
  | CARQUET_ERROR_FILE_SEEK
  | CARQUET_ERROR_FILE_TRUNCATED
  | CARQUET_ERROR_INVALID_MAGIC
  | CARQUET_ERROR_INVALID_FOOTER
  | CARQUET_ERROR_INVALID_SCHEMA
  | CARQUET_ERROR_INVALID_METADATA
  | CARQUET_ERROR_INVALID_PAGE
  | CARQUET_ERROR_INVALID_ENCODING
  | CARQUET_ERROR_VERSION_NOT_SUPPORTED
  | CARQUET_ERROR_THRIFT_DECODE
  | CARQUET_ERROR_THRIFT_ENCODE
  | CARQUET_ERROR_THRIFT_INVALID_TYPE
  | CARQUET_ERROR_THRIFT_TRUNCATED
  | CARQUET_ERROR_DECODE
  | CARQUET_ERROR_ENCODE
  | CARQUET_ERROR_DICTIONARY_NOT_FOUND
  | CARQUET_ERROR_INVALID_RLE
  | CARQUET_ERROR_INVALID_DELTA
  | CARQUET_ERROR_COMPRESSION
  | CARQUET_ERROR_DECOMPRESSION
  | CARQUET_ERROR_UNSUPPORTED_CODEC
  | CARQUET_ERROR_INVALID_COMPRESSED_DATA
  | CARQUET_ERROR_TYPE_MISMATCH
  | CARQUET_ERROR_COLUMN_NOT_FOUND
  | CARQUET_ERROR_ROW_GROUP_NOT_FOUND
  | CARQUET_ERROR_END_OF_DATA
  | CARQUET_ERROR_CHECKSUM
  | CARQUET_ERROR_CRC_MISMATCH
  | CARQUET_ERROR_INVALID_STATE
  | CARQUET_ERROR_ALREADY_CLOSED
  | CARQUET_ERROR_NOT_OPEN
  | CARQUET_ERROR_PAGE_INDEX_REQUIRED

text \<open>A call that may fail: the status or the result.\<close>

type_synonym 'a outcome = "carquet_status + 'a"

text \<open>
  The sticky error state of the thrift coders: the first error stays, a later one
  is dropped.
\<close>

definition first_error :: "carquet_status \<Rightarrow> carquet_status \<Rightarrow> carquet_status" where
  "first_error old new = (if old = CARQUET_OK then new else old)"

lemma first_error_OK [simp]: "first_error CARQUET_OK s = s"
  by (simp add: first_error_def)

lemma first_error_not_OK [simp]: "s \<noteq> CARQUET_OK \<Longrightarrow> first_error s t = s"
  by (simp add: first_error_def)

lemma first_error_eq_OK [simp]:
  "first_error s t = CARQUET_OK \<longleftrightarrow> s = CARQUET_OK \<and> t = CARQUET_OK"
  by (simp add: first_error_def)

section \<open>Allocation\<close>

record allocator =
  alloc_grants :: "u64 \<Rightarrow> bool"
  alloc_fresh :: "nat \<Rightarrow> u8"

text \<open>
  A block of memory maps an offset to the byte there. \<^verbatim>\<open>realloc\<close> keeps the bytes
  of the old block (\<open>old_size\<close> of them) and leaves the rest indeterminate.
\<close>

type_synonym block = "nat \<Rightarrow> u8"

definition carquet_mem_realloc ::
    "allocator \<Rightarrow> block option \<Rightarrow> u64 \<Rightarrow> u64 \<Rightarrow> block option" where
  "carquet_mem_realloc al old old_size new_size =
     (if alloc_grants al new_size
      then Some (\<lambda>i. case old of
                        None \<Rightarrow> alloc_fresh al i
                      | Some f \<Rightarrow> if i < unat old_size then f i else alloc_fresh al i)
      else None)"

section \<open>Memory accesses\<close>

text \<open>
  The result of code that dereferences pointers the model keeps track of. An access
  outside an object, or to an object that is gone, is undefined behaviour in C and
  the value \<open>Invalid_Access\<close> here, so that a theorem saying that an operation is
  \<open>Done\<close> also says that its accesses are valid.
\<close>

datatype 'a access = Invalid_Access | Done 'a

primrec and_then :: "'a access \<Rightarrow> ('a \<Rightarrow> 'b access) \<Rightarrow> 'b access" where
  "and_then Invalid_Access k = Invalid_Access"
| "and_then (Done x) k = k x"

lemma and_then_cong [fundef_cong]:
  "a = b \<Longrightarrow> (\<And>x. b = Done x \<Longrightarrow> f x = g x) \<Longrightarrow> and_then a f = and_then b g"
  by (cases b) simp_all

lemma and_then_Done [simp]:
  "and_then a k = Done y \<longleftrightarrow> (\<exists>x. a = Done x \<and> k x = Done y)"
  by (cases a) simp_all

end
