(* ===== verification/Endian.thy ===== *)
theory Endian
  imports Prelude
begin

text \<open>
  \<^verbatim>\<open>core/endian.h\<close>: little-endian loads and stores, the LEB128
  varints and the zigzag mapping. A load takes the bytes its pointer argument
  points to; a store gives the bytes it writes at its pointer argument. Floating
  point values are carried as their bit patterns, which is what the code's
  \<^verbatim>\<open>memcpy\<close> between \<^verbatim>\<open>float\<close>/\<^verbatim>\<open>double\<close> and integers does.

  The header chooses at compile time between a \<^verbatim>\<open>memcpy\<close> (on a little-endian
  host) and a portable byte-by-byte expression. The first is \<open>le_load\<close> and
  \<open>le_store\<close>, the object representation on such a host; the second is the body
  of each definition. The theory shows that both agree.
\<close>

section \<open>Definitions\<close>

subsection \<open>Object representation on a little-endian host\<close>

primrec le_load :: "bytes \<Rightarrow> 'a::len word" where
  "le_load [] = 0"
| "le_load (b # bs) = ucast b OR push_bit 8 (le_load bs)"

primrec le_store :: "nat \<Rightarrow> 'a::len word \<Rightarrow> bytes" where
  "le_store 0 v = []"
| "le_store (Suc n) v = ucast v # le_store n (drop_bit 8 v)"

subsection \<open>Loads and stores\<close>

definition carquet_read_u16_le :: "bytes \<Rightarrow> u16" where
  "carquet_read_u16_le p = ucast (p ! 0) OR push_bit 8 (ucast (p ! 1))"

definition carquet_read_u32_le :: "bytes \<Rightarrow> u32" where
  "carquet_read_u32_le p =
     ucast (p ! 0) OR push_bit 8 (ucast (p ! 1)) OR
     push_bit 16 (ucast (p ! 2)) OR push_bit 24 (ucast (p ! 3))"

definition carquet_read_u64_le :: "bytes \<Rightarrow> u64" where
  "carquet_read_u64_le p =
     ucast (p ! 0) OR push_bit 8 (ucast (p ! 1)) OR
     push_bit 16 (ucast (p ! 2)) OR push_bit 24 (ucast (p ! 3)) OR
     push_bit 32 (ucast (p ! 4)) OR push_bit 40 (ucast (p ! 5)) OR
     push_bit 48 (ucast (p ! 6)) OR push_bit 56 (ucast (p ! 7))"

definition carquet_read_i16_le :: "bytes \<Rightarrow> i16" where
  "carquet_read_i16_le p = carquet_read_u16_le p"

definition carquet_read_i32_le :: "bytes \<Rightarrow> i32" where
  "carquet_read_i32_le p = carquet_read_u32_le p"

definition carquet_read_i64_le :: "bytes \<Rightarrow> i64" where
  "carquet_read_i64_le p = carquet_read_u64_le p"

definition carquet_read_f32_le :: "bytes \<Rightarrow> u32" where
  "carquet_read_f32_le p = carquet_read_u32_le p"

definition carquet_read_f64_le :: "bytes \<Rightarrow> u64" where
  "carquet_read_f64_le p = carquet_read_u64_le p"

definition carquet_write_u16_le :: "u16 \<Rightarrow> bytes" where
  "carquet_write_u16_le v = [ucast v, ucast (drop_bit 8 v)]"

definition carquet_write_u32_le :: "u32 \<Rightarrow> bytes" where
  "carquet_write_u32_le v =
     [ucast v, ucast (drop_bit 8 v), ucast (drop_bit 16 v), ucast (drop_bit 24 v)]"

definition carquet_write_u64_le :: "u64 \<Rightarrow> bytes" where
  "carquet_write_u64_le v =
     [ucast v, ucast (drop_bit 8 v), ucast (drop_bit 16 v), ucast (drop_bit 24 v),
      ucast (drop_bit 32 v), ucast (drop_bit 40 v), ucast (drop_bit 48 v),
      ucast (drop_bit 56 v)]"

definition carquet_write_i16_le :: "i16 \<Rightarrow> bytes" where
  "carquet_write_i16_le v = carquet_write_u16_le v"

definition carquet_write_i32_le :: "i32 \<Rightarrow> bytes" where
  "carquet_write_i32_le v = carquet_write_u32_le v"

definition carquet_write_i64_le :: "i64 \<Rightarrow> bytes" where
  "carquet_write_i64_le v = carquet_write_u64_le v"

definition carquet_write_f32_le :: "u32 \<Rightarrow> bytes" where
  "carquet_write_f32_le bits = carquet_write_u32_le bits"

definition carquet_write_f64_le :: "u64 \<Rightarrow> bytes" where
  "carquet_write_f64_le bits = carquet_write_u64_le bits"

subsection \<open>Varints\<close>

text \<open>
  The loop \<^verbatim>\<open>while (v >= 0x80)\<close> that every varint writer of the library contains,
  at the width of its operand, and the bounded loop every reader contains: at
  most \<open>k\<close> bytes, the shift growing by seven. \<open>None\<close> is the exit without a
  terminating byte (input exhausted, or \<open>k\<close> continuation bytes read).
\<close>

function varint_bytes :: "'a::len word \<Rightarrow> bytes" where
  "varint_bytes v =
     (if 0x80 \<le> unat v
      then (ucast (v AND 0x7F) OR 0x80) # varint_bytes (drop_bit 7 v)
      else [ucast v])"
  by pat_completeness auto
termination
  by (relation "measure unat") (auto intro: unat_drop_bit_less)

declare varint_bytes.simps [simp del]

fun varint_scan :: "nat \<Rightarrow> nat \<Rightarrow> 'a::len word \<Rightarrow> bytes \<Rightarrow> ('a word \<times> bytes) option" where
  "varint_scan 0 shift result bs = None"
| "varint_scan (Suc k) shift result [] = None"
| "varint_scan (Suc k) shift result (b # bs) =
     (let result' = result OR push_bit shift (ucast (b AND 0x7F)) in
      if b AND 0x80 = 0 then Some (result', bs)
      else varint_scan k (shift + 7) result' bs)"

definition carquet_encode_varint32 :: "u32 \<Rightarrow> bytes" where
  "carquet_encode_varint32 v = varint_bytes v"

definition carquet_encode_varint64 :: "u64 \<Rightarrow> bytes" where
  "carquet_encode_varint64 v = varint_bytes v"

text \<open>The C functions return the number of bytes read, or -1; \<open>None\<close> is the -1.\<close>

definition carquet_decode_varint32 :: "bytes \<Rightarrow> (u32 \<times> nat) option" where
  "carquet_decode_varint32 p =
     (case varint_scan 5 0 0 p of
        None \<Rightarrow> None
      | Some (v, rest) \<Rightarrow> Some (v, length p - length rest))"

definition carquet_decode_varint64 :: "bytes \<Rightarrow> (u64 \<times> nat) option" where
  "carquet_decode_varint64 p =
     (case varint_scan 10 0 0 p of
        None \<Rightarrow> None
      | Some (v, rest) \<Rightarrow> Some (v, length p - length rest))"

subsection \<open>Zigzag\<close>

definition carquet_zigzag_encode32 :: "i32 \<Rightarrow> u32" where
  "carquet_zigzag_encode32 v = push_bit 1 v XOR signed_drop_bit 31 v"

definition carquet_zigzag_encode64 :: "i64 \<Rightarrow> u64" where
  "carquet_zigzag_encode64 v = push_bit 1 v XOR signed_drop_bit 63 v"

definition carquet_zigzag_decode32 :: "u32 \<Rightarrow> i32" where
  "carquet_zigzag_decode32 v = drop_bit 1 v XOR - (v AND 1)"

definition carquet_zigzag_decode64 :: "u64 \<Rightarrow> i64" where
  "carquet_zigzag_decode64 v = drop_bit 1 v XOR - (v AND 1)"

section \<open>Loads and stores agree with the object representation\<close>

lemma length_le_store [simp]: "length (le_store n v) = n"
  by (induction n arbitrary: v) simp_all

lemma bit_le_load_iff:
  "bit (le_load bs :: 'a::len word) i \<longleftrightarrow>
     i < LENGTH('a) \<and> i < 8 * length bs \<and> bit (bs ! (i div 8)) (i mod 8)"
proof (induction bs arbitrary: i)
  case (Cons b bs)
  show ?case
  proof (cases "i < 8")
    case True
    then show ?thesis by (auto simp: bit_simps)
  next
    case False
    then obtain j where "i = 8 + j"
      by (metis le_add_diff_inverse not_le)
    moreover have "(8 + j) div 8 = Suc (j div 8)"
      by simp
    ultimately show ?thesis
      using False by (auto simp: bit_simps Cons.IH dest: bit_imp_le_length)
  qed
qed simp

lemma nth_le_store: "i < n \<Longrightarrow> le_store n v ! i = ucast (drop_bit (8 * i) v)"
proof (induction n arbitrary: v i)
  case (Suc n)
  then show ?case
    by (cases i) (simp_all add: algebra_simps)
qed simp

lemma le_load_le_store [byte_simps]:
  "(le_load (le_store n v) :: 'a::len word) = v AND mask (8 * n)"
proof (rule bit_word_eqI)
  fix i assume "i < LENGTH('a)"
  then show "bit (le_load (le_store n v) :: 'a word) i \<longleftrightarrow> bit (v AND mask (8 * n)) i"
    by (auto simp: bit_le_load_iff nth_le_store bit_simps less_mult_imp_div_less)
qed

lemma le_store_le_load [byte_simps]:
  assumes "8 * length bs \<le> LENGTH('a::len)"
  shows "le_store (length bs) (le_load bs :: 'a word) = bs"
proof (rule nth_equalityI)
  fix i assume "i < length (le_store (length bs) (le_load bs :: 'a word))"
  then have i: "i < length bs" by simp
  show "le_store (length bs) (le_load bs :: 'a word) ! i = bs ! i"
  proof (rule bit_word_eqI)
    fix j assume "j < LENGTH(8)"
    then show "bit (le_store (length bs) (le_load bs :: 'a word) ! i) j \<longleftrightarrow> bit (bs ! i) j"
      using i assms by (auto simp: nth_le_store bit_simps bit_le_load_iff)
  qed
qed simp

lemma write_le_store:
  "carquet_write_u16_le v16 = le_store 2 v16"
  "carquet_write_u32_le v32 = le_store 4 v32"
  "carquet_write_u64_le v64 = le_store 8 v64"
  by (simp_all add: carquet_write_u16_le_def carquet_write_u32_le_def carquet_write_u64_le_def
      eval_nat_numeral)

lemma read_le_load:
  "2 \<le> length p \<Longrightarrow> carquet_read_u16_le p = le_load (take 2 p)"
  "4 \<le> length p \<Longrightarrow> carquet_read_u32_le p = le_load (take 4 p)"
  "8 \<le> length p \<Longrightarrow> carquet_read_u64_le p = le_load (take 8 p)"
  by (auto simp: carquet_read_u16_le_def carquet_read_u32_le_def carquet_read_u64_le_def
      eval_nat_numeral Suc_le_length_iff push_bit_or ac_simps)

text \<open>Reading back what was stored, whatever follows it in memory.\<close>

lemma read_write_le [byte_simps]:
  "carquet_read_u16_le (carquet_write_u16_le v16 @ r) = v16"
  "carquet_read_u32_le (carquet_write_u32_le v32 @ r) = v32"
  "carquet_read_u64_le (carquet_write_u64_le v64 @ r) = v64"
  by (simp_all add: write_le_store read_le_load le_load_le_store and_mask_length)

lemma write_read_le [byte_simps]:
  "2 \<le> length p \<Longrightarrow> carquet_write_u16_le (carquet_read_u16_le p) = take 2 p"
  "4 \<le> length p \<Longrightarrow> carquet_write_u32_le (carquet_read_u32_le p) = take 4 p"
  "8 \<le> length p \<Longrightarrow> carquet_write_u64_le (carquet_read_u64_le p) = take 8 p"
proof -
  have *: "le_store n (le_load (take n p) :: 'a::len word) = take n p"
    if "n \<le> length p" "8 * n \<le> LENGTH('a)" for n
    using le_store_le_load [of "take n p", where 'a = 'a] that by (simp add: min_absorb2)
  show "2 \<le> length p \<Longrightarrow> carquet_write_u16_le (carquet_read_u16_le p) = take 2 p"
    and "4 \<le> length p \<Longrightarrow> carquet_write_u32_le (carquet_read_u32_le p) = take 4 p"
    and "8 \<le> length p \<Longrightarrow> carquet_write_u64_le (carquet_read_u64_le p) = take 8 p"
    by (simp_all add: write_le_store read_le_load *)
qed

lemma length_write_le [simp]:
  "length (carquet_write_u16_le v16) = 2"
  "length (carquet_write_u32_le v32) = 4"
  "length (carquet_write_u64_le v64) = 8"
  by (simp_all add: write_le_store)

section \<open>Varints\<close>

lemma mask_7: "(0x7F :: 'a::len word) = mask 7"
  by (simp add: mask_eq_exp_minus_1)

lemma bit_0x80: "bit (0x80 :: u8) i \<longleftrightarrow> i = 7"
  using bit_exp_iff [of 7 i, where 'a = u8] by auto

lemma varint_cont_byte:
  fixes v :: "'a::len word"
  shows "(ucast (v AND 0x7F) OR 0x80 :: u8) AND 0x80 \<noteq> 0"
proof -
  have "bit ((ucast (v AND 0x7F) OR 0x80 :: u8) AND 0x80) 7"
    by (simp add: bit_or_iff bit_and_iff bit_0x80)
  then show ?thesis
    by (metis bit_0_eq bot_apply bot_bool_def)
qed

lemma varint_cont_payload:
  fixes v :: "'a::len word"
  assumes "8 \<le> LENGTH('a)"
  shows "(ucast ((ucast (v AND 0x7F) OR 0x80 :: u8) AND 0x7F) :: 'a word) = v AND 0x7F"
proof (rule bit_word_eqI)
  fix i assume "i < LENGTH('a)"
  then have m: "bit (0x7F :: u8) i \<longleftrightarrow> i < 7" "bit (0x7F :: 'a word) i \<longleftrightarrow> i < 7"
    unfolding mask_7 using assms by (auto simp: bit_mask_iff)
  show "bit (ucast ((ucast (v AND 0x7F) OR 0x80 :: u8) AND 0x7F) :: 'a word) i \<longleftrightarrow>
      bit (v AND 0x7F) i"
    using \<open>i < _\<close> by (auto simp only: bit_ucast_iff bit_or_iff bit_and_iff m bit_0x80) auto
qed

lemma varint_last_byte:
  fixes v :: "'a::len word"
  assumes "unat v < 0x80"
  shows "(ucast v :: u8) AND 0x80 = 0" and "ucast v AND 0x7F = (ucast v :: u8)"
proof -
  have small: "unat (ucast v :: u8) < 2 ^ 7"
    using assms by (subst unat_ucast_small) simp_all
  then have "\<not> bit (ucast v :: u8) 7"
    by (rule not_bit_if_small) simp
  then show "(ucast v :: u8) AND 0x80 = 0"
    by (intro bit_word_eqI) (simp only: bit_and_iff bit_0x80 bit_0_eq bot_apply bot_bool_def, blast)
  show "ucast v AND 0x7F = (ucast v :: u8)"
    unfolding mask_7 by (rule and_mask_unat_self) (rule small)
qed

lemma varint_last_payload:
  fixes v :: "'a::len word"
  assumes "8 \<le> LENGTH('a)" "unat v < 0x80"
  shows "(ucast (ucast v :: u8) :: 'a word) = v"
proof -
  have "unat (ucast v :: u8) = unat v"
    using assms(2) by (intro unat_ucast_small) simp
  moreover have "unat (ucast (ucast v :: u8) :: 'a word) = unat (ucast v :: u8)"
    using calculation by (intro unat_ucast_small) simp
  ultimately show ?thesis
    by (metis unsigned_word_eqI)
qed

lemma varint_scan_bytes:
  fixes v acc :: "'a::len word"
  assumes "8 \<le> LENGTH('a)" "0 < k" "unat v < 2 ^ (7 * k)"
  shows "varint_scan k shift acc (varint_bytes v @ r) = Some (acc OR push_bit shift v, r)"
  using assms(2,3)
proof (induction v arbitrary: k shift acc rule: varint_bytes.induct)
  case (1 v)
  obtain k' where k: "k = Suc k'"
    using "1.prems" by (cases k) auto
  show ?case
  proof (cases "0x80 \<le> unat v")
    case True
    have "unat (drop_bit 7 v) < 2 ^ (7 * k')"
      using "1.prems" k by (simp add: unat_drop_bit_word less_mult_imp_div_less power_add mult.commute)
    moreover from this have "0 < k'"
      using True by (cases k') (auto simp: unat_drop_bit_word)
    moreover have "(acc OR push_bit shift (v AND 0x7F)) OR push_bit (shift + 7) (drop_bit 7 v) =
        acc OR push_bit shift v"
      unfolding mask_7 or.assoc push_bit_split_low [of shift v 7, symmetric] ..
    ultimately show ?thesis
      using 1(1) [OF True, of k' "shift + 7" "acc OR push_bit shift (v AND 0x7F)"] True
      by (simp add: varint_bytes.simps [of v] k Let_def varint_cont_byte
          varint_cont_payload [OF assms(1)])
  next
    case False
    then show ?thesis
      by (simp add: varint_bytes.simps [of v] k Let_def varint_last_byte
          varint_last_payload [OF assms(1)])
  qed
qed

lemma varint_scan_zero [byte_simps]:
  fixes v :: "'a::len word"
  assumes "8 \<le> LENGTH('a)" "LENGTH('a) \<le> 7 * k"
  shows "varint_scan k 0 0 (varint_bytes v @ r) = Some (v, r)"
proof -
  have "unat v < 2 ^ LENGTH('a)"
    by simp
  also have "\<dots> \<le> 2 ^ (7 * k)"
    using assms(2) by (intro power_increasing) simp_all
  finally show ?thesis
    using varint_scan_bytes [of k v 0 0 r] assms by (cases k) simp_all
qed

lemma length_varint_bytes:
  fixes v :: "'a::len word"
  assumes "0 < k" "unat v < 2 ^ (7 * k)"
  shows "0 < length (varint_bytes v) \<and> length (varint_bytes v) \<le> k"
  using assms
proof (induction v arbitrary: k rule: varint_bytes.induct)
  case (1 v)
  then obtain k' where k: "k = Suc k'"
    by (cases k) auto
  show ?case
  proof (cases "0x80 \<le> unat v")
    case True
    have small: "unat (drop_bit 7 v) < 2 ^ (7 * k')"
      using "1.prems" k by (simp add: unat_drop_bit_word less_mult_imp_div_less power_add mult.commute)
    then have "0 < k'"
      using True by (cases k') (auto simp: unat_drop_bit_word)
    with 1(1) [OF True] small True show ?thesis
      by (simp add: varint_bytes.simps [of v] k)
  next
    case False
    then show ?thesis by (simp add: varint_bytes.simps [of v] k)
  qed
qed

lemma varint_bytes_not_Nil [simp]: "varint_bytes v \<noteq> []"
  by (subst varint_bytes.simps) simp

text \<open>A scan consumes a non-empty prefix of at most \<open>k\<close> bytes.\<close>

lemma varint_scan_suffix:
  "varint_scan k shift acc bs = Some (v, r) \<Longrightarrow>
     \<exists>n. 0 < n \<and> n \<le> k \<and> n \<le> length bs \<and> r = drop n bs"
proof (induction k shift acc bs rule: varint_scan.induct)
  case (3 k shift result b bs)
  show ?case
  proof (cases "b AND 0x80 = 0")
    case True
    with 3 show ?thesis by (auto simp: Let_def intro: exI [of _ 1])
  next
    case False
    with 3 obtain n where "0 < n" "n \<le> k" "n \<le> length bs" "r = drop n bs"
      by (auto simp: Let_def)
    then show ?thesis
      by (intro exI [of _ "Suc n"]) simp
  qed
qed simp_all

lemma varint_scan_length_less:
  "varint_scan k shift acc bs = Some (v, r) \<Longrightarrow> length r < length bs"
  by (drule varint_scan_suffix) auto

section \<open>Zigzag\<close>

lemma bit_push1: "bit (push_bit 1 w) i \<longleftrightarrow> 0 < i \<and> i < LENGTH('a) \<and> bit w (i - 1)"
  for w :: "'a::len word"
  unfolding bit_push_bit_iff possible_bit_word by auto
lemma neg_low_bit: "- (w AND 1) = (if bit w 0 then - 1 else 0)" for w :: "'a::len word"
  by (simp add: and_one_eq mod_2_eq_odd bit_0)
lemma sign_fill: 
  fixes w :: "'a::len word"
  assumes "Suc n = LENGTH('a)"
  shows "signed_drop_bit n w = (if bit w n then - 1 else 0)" 
proof (rule bit_word_eqI)
  fix i assume i: "i < LENGTH('a)"
  have "LENGTH('a) - n = 1" "LENGTH('a) - 1 = n" using assms by simp_all
  then show "bit (signed_drop_bit n w) i \<longleftrightarrow> bit (if bit w n then - 1 else 0 :: 'a word) i"
    using i by (cases i) (auto simp: bit_signed_drop_bit_iff)
qed
lemmas zigzag_bits = bit_xor_iff bit_drop_bit_eq bit_push1 bit_minus_1_iff bit_0_eq bot_apply bot_bool_def
  possible_bit_word if_distrib [of "\<lambda>w. bit w _"] o_apply
lemma zigzag_dec_enc_generic:
  fixes w :: "'a::len word"
  assumes n: "Suc n = LENGTH('a)" 
  shows "drop_bit 1 (push_bit 1 w XOR signed_drop_bit n w) XOR - ((push_bit 1 w XOR signed_drop_bit n w) AND 1) = w"
proof (rule bit_word_eqI)
  fix i assume "i < LENGTH('a)"
  then show "bit (drop_bit 1 (push_bit 1 w XOR signed_drop_bit n w) XOR - ((push_bit 1 w XOR signed_drop_bit n w) AND 1)) i = bit w i"
    unfolding neg_low_bit sign_fill [OF n] zigzag_bits
    using n by (cases "i = n") auto
qed
lemma zigzag_enc_dec_generic:
  fixes w :: "'a::len word"
  assumes n: "Suc n = LENGTH('a)" 
  shows "push_bit 1 (drop_bit 1 w XOR - (w AND 1)) XOR signed_drop_bit n (drop_bit 1 w XOR - (w AND 1)) = w"
proof (rule bit_word_eqI)
  fix i assume "i < LENGTH('a)"
  moreover have "\<not> bit w (1 + n)" using n by (auto dest: bit_imp_le_length)
  ultimately show "bit (push_bit 1 (drop_bit 1 w XOR - (w AND 1)) XOR signed_drop_bit n (drop_bit 1 w XOR - (w AND 1))) i = bit w i"
    unfolding sign_fill [OF n] neg_low_bit zigzag_bits
    using n by (cases i) auto
qed
lemma zigzag_value_generic:
  fixes w :: "'a::len word"
  assumes n: "LENGTH('a) = Suc n" 
  shows "uint (push_bit 1 w XOR signed_drop_bit n w) = (if sint w < 0 then - 2 * sint w - 1 else 2 * sint w)"
proof -
  have s: "sint w < 0 \<longleftrightarrow> bit w n" 
    using bit_last_iff [of w] by (simp add: n)
  have lo: "sint w < 2 ^ n" "- (2 ^ n) \<le> sint w"
    using sint_lt [of w] sint_ge [of w] by (simp_all add: n)
  have p: "push_bit 1 w = word_of_int (2 * sint w)" by (simp add: push_bit_eq_mult)
  show ?thesis
  proof (cases "bit w n")
    case True
    have x: "push_bit 1 w XOR - 1 = NOT (push_bit 1 w)" by (rule bit_word_eqI) (auto simp only: bit_xor_iff bit_not_iff bit_minus_1_iff possible_bit_word)
    have y: "NOT (push_bit 1 w) = word_of_int (- 2 * sint w - 1)"
      unfolding p by (simp add: not_eq_complement)
    have "uint (push_bit 1 w XOR signed_drop_bit n w) = take_bit LENGTH('a) (- 2 * sint w - 1)"
      unfolding sign_fill [OF n [symmetric]] if_P [OF True] x y uint_word_of_int_eq ..
    also have "\<dots> = - 2 * sint w - 1"
      using lo s True by (intro take_bit_int_eq_self) (simp_all add: n)
    finally show ?thesis using s True by simp
  next
    case False
    have "uint (push_bit 1 w XOR signed_drop_bit n w) = take_bit LENGTH('a) (2 * sint w)"
      unfolding sign_fill [OF n [symmetric]] if_not_P [OF False] p xor.right_neutral
        uint_word_of_int_eq ..
    also have "\<dots> = 2 * sint w"
      using lo s False by (intro take_bit_int_eq_self) (simp_all add: n)
    finally show ?thesis using s False by simp
  qed
qed

lemmas zigzag_defs = carquet_zigzag_encode32_def carquet_zigzag_decode32_def
  carquet_zigzag_encode64_def carquet_zigzag_decode64_def

lemma zigzag_decode_encode [byte_simps]:
  "carquet_zigzag_decode32 (carquet_zigzag_encode32 v32) = v32"
  "carquet_zigzag_decode64 (carquet_zigzag_encode64 v64) = v64"
  unfolding zigzag_defs by (rule zigzag_dec_enc_generic, simp)+

lemma zigzag_encode_decode [byte_simps]:
  "carquet_zigzag_encode32 (carquet_zigzag_decode32 w32) = w32"
  "carquet_zigzag_encode64 (carquet_zigzag_decode64 w64) = w64"
  unfolding zigzag_defs by (rule zigzag_enc_dec_generic, simp)+

section \<open>Properties\<close>

text \<open>
  Fixed-width little-endian values round trip in both directions: reading what a
  store wrote gives the value back whatever follows it, and storing what a load read
  rewrites exactly the bytes that were there.
\<close>

theorem le_roundtrip:
  assumes "length p = 2" "length q = 4" "length s = 8"
  shows "carquet_read_u16_le (carquet_write_u16_le v16 @ r) = v16 \<and>
    carquet_read_u32_le (carquet_write_u32_le v32 @ r) = v32 \<and>
    carquet_read_u64_le (carquet_write_u64_le v64 @ r) = v64 \<and>
    carquet_write_u16_le (carquet_read_u16_le p) = p \<and>
    carquet_write_u32_le (carquet_read_u32_le q) = q \<and>
    carquet_write_u64_le (carquet_read_u64_le s) = s"
  using assms by (simp add: read_write_le write_read_le)

theorem le_roundtrip_witness:
  "carquet_read_u32_le (carquet_write_u32_le 0xDEADBEEF @ [7]) = 0xDEADBEEF \<and>
   carquet_write_u32_le (carquet_read_u32_le [1, 2, 3, 4]) = [1, 2, 3, 4] \<and>
   carquet_write_u64_le (carquet_read_u64_le [1, 2, 3, 4, 5, 6, 7, 8]) = [1, 2, 3, 4, 5, 6, 7, 8]"
  using le_roundtrip [of "[1, 2]" "[1, 2, 3, 4]" "[1, 2, 3, 4, 5, 6, 7, 8]" _ "[7]" "0xDEADBEEF"] by simp

text \<open>
  Varints round trip and stay within the buffers the callers reserve for them: a
  32-bit value takes 1 to 5 bytes and a 64-bit value 1 to 10, and decoding, whatever
  bytes follow, returns the value and the number of bytes of its encoding.
\<close>

theorem varint_roundtrip:
  "carquet_decode_varint32 (carquet_encode_varint32 v @ r) = Some (v, length (carquet_encode_varint32 v)) \<and>
   length (carquet_encode_varint32 v) \<in> {1..5} \<and>
   carquet_decode_varint64 (carquet_encode_varint64 w @ r) = Some (w, length (carquet_encode_varint64 w)) \<and>
   length (carquet_encode_varint64 w) \<in> {1..10}"
proof -
  have "unat v < 2 ^ LENGTH(32)" "unat w < 2 ^ LENGTH(64)" by (rule unsigned_less)+
  then have "unat v < 2 ^ (7 * 5)" "unat w < 2 ^ (7 * 10)" by simp_all
  from length_varint_bytes [OF _ this(1)] length_varint_bytes [OF _ this(2)] show ?thesis
    by (simp add: carquet_decode_varint32_def carquet_encode_varint32_def carquet_decode_varint64_def
        carquet_encode_varint64_def varint_scan_zero Suc_le_eq)
qed

text \<open>
  The zigzag code is the intended bijection: a non-negative \<open>n\<close> becomes \<open>2 n\<close> and a
  negative one \<open>- 2 n - 1\<close>, with no overflow at either end of the range, and the
  decoder inverts it in both directions.
\<close>

theorem zigzag_bijection:
  "uint (carquet_zigzag_encode64 v) = (if sint v < 0 then - 2 * sint v - 1 else 2 * sint v) \<and>
   uint (carquet_zigzag_encode32 x) = (if sint x < 0 then - 2 * sint x - 1 else 2 * sint x) \<and>
   carquet_zigzag_decode64 (carquet_zigzag_encode64 v) = v \<and>
   carquet_zigzag_encode64 (carquet_zigzag_decode64 w) = w \<and>
   carquet_zigzag_decode32 (carquet_zigzag_encode32 x) = x \<and>
   carquet_zigzag_encode32 (carquet_zigzag_decode32 y) = y"
proof -
  have "uint (carquet_zigzag_encode64 v) = (if sint v < 0 then - 2 * sint v - 1 else 2 * sint v)"
    unfolding zigzag_defs by (rule zigzag_value_generic) simp
  moreover have "uint (carquet_zigzag_encode32 x) = (if sint x < 0 then - 2 * sint x - 1 else 2 * sint x)"
    unfolding zigzag_defs by (rule zigzag_value_generic) simp
  ultimately show ?thesis
    by (simp only: zigzag_decode_encode zigzag_encode_decode)
qed

end
