(* ===== verification/Buffer.thy ===== *)
theory Buffer
  imports Status Endian
begin

text \<open>
  \<^verbatim>\<open>core/buffer.h\<close> and \<^verbatim>\<open>core/buffer.c\<close>: the growable output buffer and the
  bounds-checked read cursor. Every encoder of the library writes through the
  first, every thrift decoder reads through the second.

  Sizes are \<^verbatim>\<open>size_t\<close> values, that is 64-bit words, with the wrap-around the
  code has. An operation returns the buffer it leaves behind and its status; a
  read returns the status on failure, since a failing read leaves its cursor
  alone. The \<^verbatim>\<open>assert\<close>s on NULL arguments are met by construction: a buffer is
  a value here.
\<close>

section \<open>The growable buffer\<close>

record carquet_buffer =
  buf_data :: "block option"
  buf_size :: u64
  buf_capacity :: u64
  buf_owns_data :: bool

abbreviation (input) CARQUET_BUFFER_DEFAULT_CAPACITY :: u64 where
  "CARQUET_BUFFER_DEFAULT_CAPACITY \<equiv> 4096"

definition next_power_of_two :: "u64 \<Rightarrow> u64" where
  "next_power_of_two n =
     (if n = 0 then 1
      else let n1 = n - 1;
               n2 = n1 OR drop_bit 1 n1;
               n3 = n2 OR drop_bit 2 n2;
               n4 = n3 OR drop_bit 4 n3;
               n5 = n4 OR drop_bit 8 n4;
               n6 = n5 OR drop_bit 16 n5;
               n7 = n6 OR drop_bit 32 n6
           in n7 + 1)"

definition add_overflows_size :: "u64 \<Rightarrow> u64 \<Rightarrow> u64 option" where
  "add_overflows_size a b = (if SIZE_MAX - b < a then None else Some (a + b))"

definition ensure_capacity ::
    "allocator \<Rightarrow> carquet_buffer \<Rightarrow> u64 \<Rightarrow> carquet_buffer \<times> carquet_status" where
  "ensure_capacity al buf needed =
     (if needed \<le> buf_capacity buf then (buf, CARQUET_OK)
      else if \<not> buf_owns_data buf \<and> buf_data buf \<noteq> None
      then (buf, CARQUET_ERROR_OUT_OF_MEMORY)
      else
        let c1 = next_power_of_two needed;
            c2 = (if c1 < needed then needed else c1);
            c3 = (if c2 < CARQUET_BUFFER_DEFAULT_CAPACITY
                  then CARQUET_BUFFER_DEFAULT_CAPACITY else c2)
        in case carquet_mem_realloc al (buf_data buf) (buf_capacity buf) c3 of
             None \<Rightarrow> (buf, CARQUET_ERROR_OUT_OF_MEMORY)
           | Some new_data \<Rightarrow>
               (buf\<lparr>buf_data := Some new_data, buf_capacity := c3, buf_owns_data := True\<rparr>,
                CARQUET_OK))"

definition carquet_buffer_init :: carquet_buffer where
  "carquet_buffer_init =
     \<lparr>buf_data = None, buf_size = 0, buf_capacity = 0, buf_owns_data = True\<rparr>"

definition carquet_buffer_reserve ::
    "allocator \<Rightarrow> carquet_buffer \<Rightarrow> u64 \<Rightarrow> carquet_buffer \<times> carquet_status" where
  "carquet_buffer_reserve al buf cap = ensure_capacity al buf cap"

definition carquet_buffer_init_capacity ::
    "allocator \<Rightarrow> u64 \<Rightarrow> carquet_buffer \<times> carquet_status" where
  "carquet_buffer_init_capacity al cap =
     (if 0 < cap then carquet_buffer_reserve al carquet_buffer_init cap
      else (carquet_buffer_init, CARQUET_OK))"

text \<open>A wrapped buffer borrows the caller's bytes.\<close>

definition carquet_buffer_init_wrap :: "block option \<Rightarrow> u64 \<Rightarrow> carquet_buffer" where
  "carquet_buffer_init_wrap data sz =
     \<lparr>buf_data = data, buf_size = sz, buf_capacity = sz, buf_owns_data = False\<rparr>"

text \<open>\<^verbatim>\<open>memcpy\<close> and \<^verbatim>\<open>memset\<close> into a block at an offset.\<close>

definition block_write :: "block \<Rightarrow> nat \<Rightarrow> bytes \<Rightarrow> block" where
  "block_write f off bs =
     (\<lambda>i. if off \<le> i \<and> i < off + length bs then bs ! (i - off) else f i)"

definition block_fill :: "block \<Rightarrow> nat \<Rightarrow> u8 \<Rightarrow> nat \<Rightarrow> block" where
  "block_fill f off v n = (\<lambda>i. if off \<le> i \<and> i < off + n then v else f i)"

definition carquet_buffer_init_copy ::
    "allocator \<Rightarrow> bytes \<Rightarrow> carquet_buffer \<times> carquet_status" where
  "carquet_buffer_init_copy al src =
     (let sz = word_of_nat (length src);
          (buf, status) = carquet_buffer_init_capacity al sz
      in if status \<noteq> CARQUET_OK then (buf, status)
         else if 0 < sz
         then (buf\<lparr>buf_data := map_option (\<lambda>f. block_write f 0 src) (buf_data buf),
                   buf_size := sz\<rparr>, CARQUET_OK)
         else (buf, CARQUET_OK))"

definition carquet_buffer_destroy :: "carquet_buffer \<Rightarrow> carquet_buffer" where
  "carquet_buffer_destroy buf = carquet_buffer_init"

definition carquet_buffer_clear :: "carquet_buffer \<Rightarrow> carquet_buffer" where
  "carquet_buffer_clear buf = buf\<lparr>buf_size := 0\<rparr>"

definition carquet_buffer_resize ::
    "allocator \<Rightarrow> carquet_buffer \<Rightarrow> u64 \<Rightarrow> carquet_buffer \<times> carquet_status" where
  "carquet_buffer_resize al buf sz =
     (let (b, status) = ensure_capacity al buf sz
      in if status \<noteq> CARQUET_OK then (b, status)
         else
           let b1 = (if buf_size b < sz
                     then b\<lparr>buf_data := map_option
                              (\<lambda>f. block_fill f (unat (buf_size b)) 0 (unat (sz - buf_size b)))
                              (buf_data b)\<rparr>
                     else b)
           in (b1\<lparr>buf_size := sz\<rparr>, CARQUET_OK))"

definition carquet_buffer_shrink_to_fit ::
    "allocator \<Rightarrow> carquet_buffer \<Rightarrow> carquet_buffer \<times> carquet_status" where
  "carquet_buffer_shrink_to_fit al buf =
     (if buf_size buf = 0
      then (buf\<lparr>buf_data := None, buf_capacity := 0\<rparr>, CARQUET_OK)
      else if buf_size buf < buf_capacity buf
      then (case carquet_mem_realloc al (buf_data buf) (buf_capacity buf) (buf_size buf) of
              None \<Rightarrow> (buf, CARQUET_OK)
            | Some new_data \<Rightarrow>
                (buf\<lparr>buf_data := Some new_data, buf_capacity := buf_size buf\<rparr>, CARQUET_OK))
      else (buf, CARQUET_OK))"

subsection \<open>Append operations\<close>

definition carquet_buffer_append ::
    "allocator \<Rightarrow> carquet_buffer \<Rightarrow> bytes \<Rightarrow> carquet_buffer \<times> carquet_status" where
  "carquet_buffer_append al buf src =
     (let sz = word_of_nat (length src) in
      if sz = 0 then (buf, CARQUET_OK)
      else case add_overflows_size (buf_size buf) sz of
             None \<Rightarrow> (buf, CARQUET_ERROR_OUT_OF_MEMORY)
           | Some needed \<Rightarrow>
               let (b, status) = ensure_capacity al buf needed
               in if status \<noteq> CARQUET_OK then (b, status)
                  else (b\<lparr>buf_data := map_option
                            (\<lambda>f. block_write f (unat (buf_size b)) src) (buf_data b),
                          buf_size := buf_size b + sz\<rparr>, CARQUET_OK))"

definition carquet_buffer_append_byte ::
    "allocator \<Rightarrow> carquet_buffer \<Rightarrow> u8 \<Rightarrow> carquet_buffer \<times> carquet_status" where
  "carquet_buffer_append_byte al buf byte = carquet_buffer_append al buf [byte]"

definition carquet_buffer_append_fill ::
    "allocator \<Rightarrow> carquet_buffer \<Rightarrow> u8 \<Rightarrow> u64 \<Rightarrow> carquet_buffer \<times> carquet_status" where
  "carquet_buffer_append_fill al buf v cnt =
     (if cnt = 0 then (buf, CARQUET_OK)
      else case add_overflows_size (buf_size buf) cnt of
             None \<Rightarrow> (buf, CARQUET_ERROR_OUT_OF_MEMORY)
           | Some needed \<Rightarrow>
               let (b, status) = ensure_capacity al buf needed
               in if status \<noteq> CARQUET_OK then (b, status)
                  else (b\<lparr>buf_data := map_option
                            (\<lambda>f. block_fill f (unat (buf_size b)) v (unat cnt)) (buf_data b),
                          buf_size := buf_size b + cnt\<rparr>, CARQUET_OK))"

definition carquet_buffer_append_u16_le ::
    "allocator \<Rightarrow> carquet_buffer \<Rightarrow> u16 \<Rightarrow> carquet_buffer \<times> carquet_status" where
  "carquet_buffer_append_u16_le al buf v = carquet_buffer_append al buf (carquet_write_u16_le v)"

definition carquet_buffer_append_u32_le ::
    "allocator \<Rightarrow> carquet_buffer \<Rightarrow> u32 \<Rightarrow> carquet_buffer \<times> carquet_status" where
  "carquet_buffer_append_u32_le al buf v = carquet_buffer_append al buf (carquet_write_u32_le v)"

definition carquet_buffer_append_u64_le ::
    "allocator \<Rightarrow> carquet_buffer \<Rightarrow> u64 \<Rightarrow> carquet_buffer \<times> carquet_status" where
  "carquet_buffer_append_u64_le al buf v = carquet_buffer_append al buf (carquet_write_u64_le v)"

definition carquet_buffer_append_f32_le ::
    "allocator \<Rightarrow> carquet_buffer \<Rightarrow> u32 \<Rightarrow> carquet_buffer \<times> carquet_status" where
  "carquet_buffer_append_f32_le al buf v = carquet_buffer_append al buf (carquet_write_f32_le v)"

definition carquet_buffer_append_f64_le ::
    "allocator \<Rightarrow> carquet_buffer \<Rightarrow> u64 \<Rightarrow> carquet_buffer \<times> carquet_status" where
  "carquet_buffer_append_f64_le al buf v = carquet_buffer_append al buf (carquet_write_f64_le v)"

text \<open>\<open>advance\<close> returns the offset of the region it reserved, \<open>None\<close> for NULL.\<close>

definition carquet_buffer_advance ::
    "allocator \<Rightarrow> carquet_buffer \<Rightarrow> u64 \<Rightarrow> carquet_buffer \<times> u64 option" where
  "carquet_buffer_advance al buf sz =
     (if sz = 0 then (buf, None)
      else case add_overflows_size (buf_size buf) sz of
             None \<Rightarrow> (buf, None)
           | Some needed \<Rightarrow>
               let (b, status) = ensure_capacity al buf needed
               in if status \<noteq> CARQUET_OK then (b, None)
                  else (b\<lparr>buf_size := buf_size b + sz\<rparr>, Some (buf_size b)))"

definition carquet_buffer_detach :: "carquet_buffer \<Rightarrow> carquet_buffer \<times> block option \<times> u64" where
  "carquet_buffer_detach buf = (carquet_buffer_init, buf_data buf, buf_size buf)"

definition carquet_buffer_swap ::
    "carquet_buffer \<Rightarrow> carquet_buffer \<Rightarrow> carquet_buffer \<times> carquet_buffer" where
  "carquet_buffer_swap a b = (b, a)"

section \<open>The read cursor\<close>

record carquet_buffer_reader =
  rd_data :: bytes
  rd_size :: u64
  rd_pos :: u64

definition carquet_buffer_reader_init_data :: "bytes \<Rightarrow> carquet_buffer_reader" where
  "carquet_buffer_reader_init_data data =
     \<lparr>rd_data = data, rd_size = word_of_nat (length data), rd_pos = 0\<rparr>"

definition carquet_buffer_reader_init :: "carquet_buffer option \<Rightarrow> carquet_buffer_reader" where
  "carquet_buffer_reader_init buf =
     (case buf of
        None \<Rightarrow> \<lparr>rd_data = [], rd_size = 0, rd_pos = 0\<rparr>
      | Some b \<Rightarrow> \<lparr>rd_data = (case buf_data b of None \<Rightarrow> [] | Some f \<Rightarrow> map f [0..<unat (buf_size b)]),
                   rd_size = buf_size b, rd_pos = 0\<rparr>)"

definition carquet_buffer_reader_remaining :: "carquet_buffer_reader \<Rightarrow> u64" where
  "carquet_buffer_reader_remaining r = rd_size r - rd_pos r"

definition carquet_buffer_reader_has :: "carquet_buffer_reader \<Rightarrow> u64 \<Rightarrow> bool" where
  "carquet_buffer_reader_has r n \<longleftrightarrow> rd_pos r + n \<le> rd_size r"

definition carquet_buffer_reader_peek :: "carquet_buffer_reader \<Rightarrow> bytes" where
  "carquet_buffer_reader_peek r = drop (unat (rd_pos r)) (rd_data r)"

definition carquet_buffer_reader_read ::
    "carquet_buffer_reader \<Rightarrow> u64 \<Rightarrow> carquet_status + carquet_buffer_reader \<times> bytes" where
  "carquet_buffer_reader_read r n =
     (if \<not> carquet_buffer_reader_has r n then Inl CARQUET_ERROR_FILE_TRUNCATED
      else Inr (r\<lparr>rd_pos := rd_pos r + n\<rparr>, take (unat n) (carquet_buffer_reader_peek r)))"

definition carquet_buffer_reader_skip ::
    "carquet_buffer_reader \<Rightarrow> u64 \<Rightarrow> carquet_status + carquet_buffer_reader" where
  "carquet_buffer_reader_skip r n =
     (if \<not> carquet_buffer_reader_has r n then Inl CARQUET_ERROR_FILE_TRUNCATED
      else Inr (r\<lparr>rd_pos := rd_pos r + n\<rparr>))"

definition carquet_buffer_reader_read_byte ::
    "carquet_buffer_reader \<Rightarrow> carquet_status + carquet_buffer_reader \<times> u8" where
  "carquet_buffer_reader_read_byte r =
     (if \<not> carquet_buffer_reader_has r 1 then Inl CARQUET_ERROR_FILE_TRUNCATED
      else Inr (r\<lparr>rd_pos := rd_pos r + 1\<rparr>, rd_data r ! unat (rd_pos r)))"

definition carquet_buffer_reader_read_u16_le ::
    "carquet_buffer_reader \<Rightarrow> carquet_status + carquet_buffer_reader \<times> u16" where
  "carquet_buffer_reader_read_u16_le r =
     (if \<not> carquet_buffer_reader_has r 2 then Inl CARQUET_ERROR_FILE_TRUNCATED
      else Inr (r\<lparr>rd_pos := rd_pos r + 2\<rparr>,
                carquet_read_u16_le (carquet_buffer_reader_peek r)))"

definition carquet_buffer_reader_read_u32_le ::
    "carquet_buffer_reader \<Rightarrow> carquet_status + carquet_buffer_reader \<times> u32" where
  "carquet_buffer_reader_read_u32_le r =
     (if \<not> carquet_buffer_reader_has r 4 then Inl CARQUET_ERROR_FILE_TRUNCATED
      else Inr (r\<lparr>rd_pos := rd_pos r + 4\<rparr>,
                carquet_read_u32_le (carquet_buffer_reader_peek r)))"

definition carquet_buffer_reader_read_u64_le ::
    "carquet_buffer_reader \<Rightarrow> carquet_status + carquet_buffer_reader \<times> u64" where
  "carquet_buffer_reader_read_u64_le r =
     (if \<not> carquet_buffer_reader_has r 8 then Inl CARQUET_ERROR_FILE_TRUNCATED
      else Inr (r\<lparr>rd_pos := rd_pos r + 8\<rparr>,
                carquet_read_u64_le (carquet_buffer_reader_peek r)))"

definition carquet_buffer_reader_read_f32_le ::
    "carquet_buffer_reader \<Rightarrow> carquet_status + carquet_buffer_reader \<times> u32" where
  "carquet_buffer_reader_read_f32_le r =
     (if \<not> carquet_buffer_reader_has r 4 then Inl CARQUET_ERROR_FILE_TRUNCATED
      else Inr (r\<lparr>rd_pos := rd_pos r + 4\<rparr>,
                carquet_read_f32_le (carquet_buffer_reader_peek r)))"

definition carquet_buffer_reader_read_f64_le ::
    "carquet_buffer_reader \<Rightarrow> carquet_status + carquet_buffer_reader \<times> u64" where
  "carquet_buffer_reader_read_f64_le r =
     (if \<not> carquet_buffer_reader_has r 8 then Inl CARQUET_ERROR_FILE_TRUNCATED
      else Inr (r\<lparr>rd_pos := rd_pos r + 8\<rparr>,
                carquet_read_f64_le (carquet_buffer_reader_peek r)))"

section \<open>Invariant and abstraction of the buffer\<close>

definition buffer_wf :: "carquet_buffer \<Rightarrow> bool" where
  "buffer_wf b \<longleftrightarrow> buf_size b \<le> buf_capacity b \<and> (buf_data b = None \<longrightarrow> buf_capacity b = 0)"

definition buffer_contents :: "carquet_buffer \<Rightarrow> bytes" where
  "buffer_contents b =
     (case buf_data b of None \<Rightarrow> [] | Some f \<Rightarrow> map f [0..<unat (buf_size b)])"

lemma length_buffer_contents:
  "buffer_wf b \<Longrightarrow> length (buffer_contents b) = unat (buf_size b)"
  by (auto simp: buffer_wf_def buffer_contents_def split: option.splits)

lemma buffer_wf_init [simp]: "buffer_wf carquet_buffer_init"
  and buffer_contents_init [simp]: "buffer_contents carquet_buffer_init = []"
  by (simp_all add: buffer_wf_def buffer_contents_def carquet_buffer_init_def)

lemma ensure_capacity_cases:
  assumes "buffer_wf b" "ensure_capacity al b needed = (b', st)"
  shows "st = CARQUET_OK \<and> needed \<le> buf_capacity b' \<or>
         st = CARQUET_ERROR_OUT_OF_MEMORY \<and> b' = b"
  using assms
  by (auto simp: ensure_capacity_def Let_def split: if_splits option.splits)

lemma ensure_capacity_preserves:
  assumes "buffer_wf b" "ensure_capacity al b needed = (b', st)"
  shows "buffer_wf b'" "buf_size b' = buf_size b" "buffer_contents b' = buffer_contents b"
proof -
  show s: "buf_size b' = buf_size b"
    using assms by (auto simp: ensure_capacity_def Let_def split: if_splits option.splits)
  have keep: "buf_data b' = buf_data b \<and> buf_capacity b' = buf_capacity b \<or>
      buf_capacity b \<le> buf_capacity b' \<and>
      (\<exists>f. buf_data b' = Some f \<and> (\<forall>g i. buf_data b = Some g \<longrightarrow> i < unat (buf_capacity b) \<longrightarrow> f i = g i))"
    using assms
    by (auto simp: ensure_capacity_def carquet_mem_realloc_def Let_def split: if_splits option.splits)
  from keep s assms(1) show "buffer_wf b'"
    by (auto simp: buffer_wf_def)
  from keep s assms(1) show "buffer_contents b' = buffer_contents b"
    by (auto simp: buffer_contents_def buffer_wf_def word_le_nat_alt split: option.splits)
qed

lemma add_overflows_size_Some:
  "add_overflows_size a b = Some c \<longleftrightarrow> unat a + unat b < 2 ^ 64 \<and> c = a + b"
proof -
  have "SIZE_MAX - b < a \<longleftrightarrow> 2 ^ 64 \<le> unat a + unat b"
  proof -
    have "unat b < 2 ^ LENGTH(64)"
      by (rule unsigned_less)
    then have "unat (SIZE_MAX - b) = 2 ^ 64 - 1 - unat b"
      by (simp add: unat_sub_if' )
    with \<open>unat b < _\<close> show ?thesis
      by (simp add: word_less_nat_alt) arith
  qed
  then show ?thesis
    by (auto simp: add_overflows_size_def)
qed

lemma buffer_contents_write:
  assumes "buf_data b = Some f" "unat (buf_size b) + length bs < 2 ^ 64"
  shows "buffer_contents (b\<lparr>buf_data := Some (block_write f (unat (buf_size b)) bs),
            buf_size := buf_size b + word_of_nat (length bs)\<rparr>) = buffer_contents b @ bs"
proof -
  have "unat (buf_size b + word_of_nat (length bs)) = unat (buf_size b) + length bs"
    using assms(2) by (simp add: unat_word_ariths take_bit_eq_mod unat_of_nat)
  then show ?thesis
    using assms by (intro nth_equalityI) (auto simp: buffer_contents_def block_write_def nth_append)
qed

lemma carquet_buffer_append_refines:
  assumes wf: "buffer_wf b" and len: "length bs < 2 ^ 64"
    and app: "carquet_buffer_append al b bs = (b', st)"
  shows "buffer_wf b' \<and>
    (st = CARQUET_OK \<and> buffer_contents b' = buffer_contents b @ bs \<or>
     st = CARQUET_ERROR_OUT_OF_MEMORY \<and> buffer_contents b' = buffer_contents b)"
proof (cases "bs = []")
  case True
  with app wf show ?thesis by (auto simp: carquet_buffer_append_def)
next
  case False
  let ?sz = "word_of_nat (length bs) :: u64"
  have sz: "?sz \<noteq> 0" "unat ?sz = length bs"
    using len False by (simp_all add: unat_of_nat flip: unat_eq_0)
  show ?thesis
  proof (cases "add_overflows_size (buf_size b) ?sz")
    case None
    with app wf sz show ?thesis by (auto simp: carquet_buffer_append_def Let_def)
  next
    case (Some needed)
    then have n: "needed = buf_size b + ?sz" "unat (buf_size b) + length bs < 2 ^ 64"
      by (simp_all add: add_overflows_size_Some sz)
    obtain b1 st1 where e: "ensure_capacity al b needed = (b1, st1)" by fastforce
    note p = ensure_capacity_preserves [OF wf e] and c = ensure_capacity_cases [OF wf e]
    show ?thesis
    proof (cases "st1 = CARQUET_OK")
      case True
      have un: "unat needed = unat (buf_size b) + length bs"
        using n by (simp add: unat_word_ariths sz)
      with True c False have "buf_capacity b1 \<noteq> 0"
        by (auto simp: word_le_nat_alt)
      then obtain f where f: "buf_data b1 = Some f"
        using p(1) by (auto simp: buffer_wf_def)
      have "b' = b1\<lparr>buf_data := Some (block_write f (unat (buf_size b1)) bs),
          buf_size := buf_size b1 + ?sz\<rparr>" "st = CARQUET_OK"
        using app sz Some e True f by (auto simp: carquet_buffer_append_def Let_def)
      then show ?thesis
        using buffer_contents_write [OF f, of bs] p n c True by (auto simp: buffer_wf_def)
    next
      case False
      then show ?thesis
        using app sz Some e c p by (auto simp: carquet_buffer_append_def Let_def)
    qed
  qed
qed

lemma carquet_buffer_append_owns:
  "buf_owns_data b \<Longrightarrow> buf_owns_data (fst (carquet_buffer_append al b bs))"
  by (auto simp: carquet_buffer_append_def ensure_capacity_def Let_def split: option.split)

lemma carquet_buffer_append_succeeds:
  assumes "buffer_wf b" "buf_owns_data b" "\<forall>n. alloc_grants al n"
    and fits: "unat (buf_size b) + length bs < 2 ^ 64"
  shows "snd (carquet_buffer_append al b bs) = CARQUET_OK"
proof -
  have "add_overflows_size (buf_size b) (word_of_nat (length bs)) =
      Some (buf_size b + word_of_nat (length bs))"
    using fits by (simp add: add_overflows_size_Some unat_of_nat)
  then show ?thesis
    using assms(1-3)
    by (auto simp: carquet_buffer_append_def ensure_capacity_def Let_def carquet_mem_realloc_def)
qed

section \<open>Interfaces\<close>

text \<open>
  What an encoder needs of its output: an append either adds exactly the given
  bytes at the end or reports a failure and leaves what was written alone.
\<close>

locale byte_sink =
  fixes append :: "'s \<Rightarrow> bytes \<Rightarrow> 's \<times> carquet_status"
    and contents :: "'s \<Rightarrow> bytes"
    and invar :: "'s \<Rightarrow> bool"
  assumes append_invar: "invar s \<Longrightarrow> length bs < 2 ^ 64 \<Longrightarrow> append s bs = (s', st) \<Longrightarrow> invar s'"
    and append_ok: "invar s \<Longrightarrow> length bs < 2 ^ 64 \<Longrightarrow> append s bs = (s', CARQUET_OK) \<Longrightarrow>
      contents s' = contents s @ bs"
    and append_failed: "invar s \<Longrightarrow> length bs < 2 ^ 64 \<Longrightarrow> append s bs = (s', st) \<Longrightarrow>
      st \<noteq> CARQUET_OK \<Longrightarrow> contents s' = contents s"
begin

text \<open>Writing pieces one after the other, stopping at the first failure.\<close>

fun append_all :: "'s \<Rightarrow> bytes list \<Rightarrow> 's \<times> carquet_status" where
  "append_all s [] = (s, CARQUET_OK)"
| "append_all s (p # ps) =
     (case append s p of (s', st) \<Rightarrow>
        if st = CARQUET_OK then append_all s' ps else (s', st))"

lemma append_all_invar:
  assumes "invar s" "\<forall>p \<in> set ps. length p < 2 ^ 64" "append_all s ps = (s', st)"
  shows "invar s'"
  using assms
proof (induction ps arbitrary: s)
  case (Cons p ps)
  obtain s1 st1 where a: "append s p = (s1, st1)" by fastforce
  with Cons append_invar [OF _ _ a] show ?case
    by (cases "st1 = CARQUET_OK") (auto split: if_splits)
qed simp

text \<open>What reaches the sink is always a prefix of the pieces, all of them on success.\<close>

lemma append_all_contents:
  assumes "invar s" "\<forall>p \<in> set ps. length p < 2 ^ 64" "append_all s ps = (s', st)"
  shows "\<exists>n \<le> length ps. contents s' = contents s @ concat (take n ps) \<and>
    (st = CARQUET_OK \<longrightarrow> n = length ps)"
  using assms
proof (induction ps arbitrary: s)
  case (Cons p ps)
  obtain s1 st1 where a: "append s p = (s1, st1)" by fastforce
  have inv: "invar s1"
    using append_invar [OF _ _ a] Cons.prems by simp
  show ?case
  proof (cases "st1 = CARQUET_OK")
    case True
    then have "append_all s1 ps = (s', st)" "contents s1 = contents s @ p"
      using Cons.prems a append_ok [of s p s1] by simp_all
    then obtain n where "n \<le> length ps" "contents s' = contents s @ p @ concat (take n ps)"
        "st = CARQUET_OK \<longrightarrow> n = length ps"
      using Cons.IH [OF inv] Cons.prems by auto
    then show ?thesis
      by (intro exI [of _ "Suc n"]) simp
  next
    case False
    then show ?thesis
      using Cons.prems a append_failed [OF _ _ a] by (intro exI [of _ 0]) auto
  qed
qed simp

end

interpretation buffer_sink: byte_sink "carquet_buffer_append al" buffer_contents buffer_wf
  for al
proof
  fix s s' bs st
  assume *: "buffer_wf s" "length bs < 2 ^ 64" "carquet_buffer_append al s bs = (s', st)"
  note r = carquet_buffer_append_refines [OF *]
  show "buffer_wf s'" using r by simp
  show "st \<noteq> CARQUET_OK \<Longrightarrow> buffer_contents s' = buffer_contents s" using r by auto
next
  fix s s' bs
  assume *: "buffer_wf s" "length bs < 2 ^ 64" "carquet_buffer_append al s bs = (s', CARQUET_OK)"
  show "buffer_contents s' = buffer_contents s @ bs"
    using carquet_buffer_append_refines [OF *] by auto
qed

section \<open>The read cursor on the unread suffix\<close>

definition reader_wf :: "carquet_buffer_reader \<Rightarrow> bool" where
  "reader_wf r \<longleftrightarrow> length (rd_data r) < 2 ^ 63 \<and> rd_size r = word_of_nat (length (rd_data r)) \<and>
     rd_pos r \<le> rd_size r"

definition reader_rest :: "carquet_buffer_reader \<Rightarrow> bytes" where
  "reader_rest r = drop (unat (rd_pos r)) (rd_data r)"

lemma reader_wf_init [simp]:
  "length data < 2 ^ 63 \<Longrightarrow> reader_wf (carquet_buffer_reader_init_data data)"
  and reader_rest_init [simp]: "reader_rest (carquet_buffer_reader_init_data data) = data"
  by (simp_all add: reader_wf_def reader_rest_def carquet_buffer_reader_init_data_def)

lemma reader_pos_bound:
  assumes "reader_wf r"
  shows "unat (rd_size r) = length (rd_data r)" "unat (rd_pos r) \<le> length (rd_data r)"
    "length (reader_rest r) = length (rd_data r) - unat (rd_pos r)"
    "length (reader_rest r) < 2 ^ 63"
  using assms by (auto simp: reader_wf_def reader_rest_def unat_of_nat word_le_nat_alt)

lemma reader_remaining [reader_simps]:
  "reader_wf r \<Longrightarrow> unat (carquet_buffer_reader_remaining r) = length (reader_rest r)"
  using reader_pos_bound [of r]
  by (simp add: carquet_buffer_reader_remaining_def unat_sub_if')

lemma reader_has_iff [reader_simps]:
  assumes "reader_wf r" "unat n < 2 ^ 63"
  shows "carquet_buffer_reader_has r n \<longleftrightarrow> unat n \<le> length (reader_rest r)"
proof -
  have "unat (rd_pos r + n) = unat (rd_pos r) + unat n"
    using reader_pos_bound [OF assms(1)] assms by (simp add: unat_word_ariths reader_wf_def)
  then show ?thesis
    using reader_pos_bound [OF assms(1)]
    by (auto simp: carquet_buffer_reader_has_def word_le_nat_alt)
qed

lemma reader_advance:
  assumes "reader_wf r" "unat n \<le> length (reader_rest r)"
  shows "reader_wf (r\<lparr>rd_pos := rd_pos r + n\<rparr>)"
    and "reader_rest (r\<lparr>rd_pos := rd_pos r + n\<rparr>) = drop (unat n) (reader_rest r)"
proof -
  have "unat (rd_pos r + n) = unat (rd_pos r) + unat n"
    using reader_pos_bound [OF assms(1)] assms by (simp add: unat_word_ariths reader_wf_def)
  then show "reader_wf (r\<lparr>rd_pos := rd_pos r + n\<rparr>)"
    and "reader_rest (r\<lparr>rd_pos := rd_pos r + n\<rparr>) = drop (unat n) (reader_rest r)"
    using reader_pos_bound [OF assms(1)] assms
    by (auto simp: reader_wf_def reader_rest_def word_le_nat_alt add.commute)
qed

text \<open>
  What a decoder needs of its input: a bounds test that is exact for requests
  below \<open>2\<^sup>6\<^sup>3\<close> bytes, and a skip and a byte read that succeed exactly when it holds.
\<close>

locale byte_source =
  fixes has :: "'r \<Rightarrow> u64 \<Rightarrow> bool"
    and skip :: "'r \<Rightarrow> u64 \<Rightarrow> carquet_status + 'r"
    and read_byte :: "'r \<Rightarrow> carquet_status + 'r \<times> u8"
    and rest :: "'r \<Rightarrow> bytes"
    and invar :: "'r \<Rightarrow> bool"
  assumes has_iff: "invar r \<Longrightarrow> unat n < 2 ^ 63 \<Longrightarrow> has r n \<longleftrightarrow> unat n \<le> length (rest r)"
    and skip_ok: "invar r \<Longrightarrow> unat n \<le> length (rest r) \<Longrightarrow>
      \<exists>r'. skip r n = Inr r' \<and> invar r' \<and> rest r' = drop (unat n) (rest r)"
    and skip_short: "invar r \<Longrightarrow> unat n < 2 ^ 63 \<Longrightarrow> length (rest r) < unat n \<Longrightarrow>
      skip r n = Inl CARQUET_ERROR_FILE_TRUNCATED"
    and read_byte_ok: "invar r \<Longrightarrow> rest r = b # bs \<Longrightarrow>
      \<exists>r'. read_byte r = Inr (r', b) \<and> invar r' \<and> rest r' = bs"
    and read_byte_short: "invar r \<Longrightarrow> rest r = [] \<Longrightarrow>
      read_byte r = Inl CARQUET_ERROR_FILE_TRUNCATED"
begin

lemma has_one: "invar r \<Longrightarrow> has r 1 \<longleftrightarrow> rest r \<noteq> []"
  using has_iff [of r 1] by (cases "rest r") auto

lemma skip_invar: "invar r \<Longrightarrow> unat n < 2 ^ 63 \<Longrightarrow> skip r n = Inr r' \<Longrightarrow> invar r'"
  using skip_ok [of r n] skip_short [of r n] by (cases "unat n \<le> length (rest r)") auto

text \<open>A byte read is a one-byte skip that also delivers the byte.\<close>

lemma read_byte_skip:
  assumes "invar r" "read_byte r = Inr (r', b)"
  shows "\<exists>r''. skip r 1 = Inr r'' \<and> rest r'' = rest r' \<and> invar r'"
  using assms read_byte_short [OF assms(1)] read_byte_ok [OF assms(1)] skip_ok [OF assms(1), of 1]
  by (cases "rest r") auto

text \<open>Reading bytes until \<open>n\<close> have been read or the input ends.\<close>

fun read_bytes :: "nat \<Rightarrow> 'r \<Rightarrow> carquet_status + 'r \<times> bytes" where
  "read_bytes 0 r = Inr (r, [])"
| "read_bytes (Suc n) r =
     (case read_byte r of
        Inl e \<Rightarrow> Inl e
      | Inr (r', b) \<Rightarrow>
          (case read_bytes n r' of
             Inl e \<Rightarrow> Inl e
           | Inr (r'', bs) \<Rightarrow> Inr (r'', b # bs)))"

lemma read_bytes_ok:
  "invar r \<Longrightarrow> n \<le> length (rest r) \<Longrightarrow>
     \<exists>r'. read_bytes n r = Inr (r', take n (rest r)) \<and> invar r' \<and> rest r' = drop n (rest r)"
proof (induction n arbitrary: r)
  case (Suc n)
  then obtain b bs where c: "rest r = b # bs"
    by (cases "rest r") auto
  with Suc.prems read_byte_ok obtain r1
    where "read_byte r = Inr (r1, b)" "invar r1" "rest r1 = bs"
    by blast
  with Suc.IH [of r1] Suc.prems c show ?case
    by auto
qed simp

end

interpretation cursor: byte_source carquet_buffer_reader_has carquet_buffer_reader_skip
  carquet_buffer_reader_read_byte reader_rest reader_wf
proof
  fix r :: carquet_buffer_reader and n :: u64
  assume r: "reader_wf r" and n: "unat n < 2 ^ 63"
  show "carquet_buffer_reader_has r n \<longleftrightarrow> unat n \<le> length (reader_rest r)"
    by (rule reader_has_iff [OF r n])
  show "length (reader_rest r) < unat n \<Longrightarrow>
      carquet_buffer_reader_skip r n = Inl CARQUET_ERROR_FILE_TRUNCATED"
    using reader_has_iff [OF r n] by (simp add: carquet_buffer_reader_skip_def)
next
  fix r :: carquet_buffer_reader and n :: u64
  assume r: "reader_wf r" and n: "unat n \<le> length (reader_rest r)"
  then show "\<exists>r'. carquet_buffer_reader_skip r n = Inr r' \<and> reader_wf r' \<and>
      reader_rest r' = drop (unat n) (reader_rest r)"
    using reader_has_iff [OF r, of n] reader_advance [OF r n] reader_pos_bound(4) [OF r]
    by (auto simp: carquet_buffer_reader_skip_def)
next
  fix r :: carquet_buffer_reader and b bs
  assume r: "reader_wf r" and c: "reader_rest r = b # bs"
  then have "carquet_buffer_reader_has r 1" "rd_data r ! unat (rd_pos r) = b"
    using reader_has_iff [OF r, of 1] reader_pos_bound [OF r]
    by (auto simp: reader_rest_def nth_via_drop)
  then show "\<exists>r'. carquet_buffer_reader_read_byte r = Inr (r', b) \<and> reader_wf r' \<and> reader_rest r' = bs"
    using reader_advance [OF r, of 1] c by (auto simp: carquet_buffer_reader_read_byte_def)
next
  fix r
  assume "reader_wf r" "reader_rest r = []"
  then show "carquet_buffer_reader_read_byte r = Inl CARQUET_ERROR_FILE_TRUNCATED"
    using reader_has_iff [of r 1] by (simp add: carquet_buffer_reader_read_byte_def)
qed


section \<open>Growth policy\<close>

lemma smear_step:
  fixes x n :: "'a::len word"
  assumes "\<And>i. bit x i \<longleftrightarrow> (\<exists>j<m. bit n (i + j))"
  shows "bit (x OR drop_bit m x) i \<longleftrightarrow> (\<exists>j<m + m. bit n (i + j))"
proof
  assume "bit (x OR drop_bit m x) i"
  then consider j where "j < m" "bit n (i + j)" | j where "j < m" "bit n (m + i + j)"
    by (auto simp: bit_simps assms)
  then show "\<exists>j<m + m. bit n (i + j)"
  proof cases
    case (2 j)
    then have "m + j < m + m \<and> bit n (i + (m + j))"
      by (simp add: ac_simps)
    then show ?thesis by blast
  qed (use trans_less_add1 in blast)
next
  assume "\<exists>j<m + m. bit n (i + j)"
  then obtain j where j: "j < m + m" "bit n (i + j)" by blast
  show "bit (x OR drop_bit m x) i"
  proof (cases "j < m")
    case True
    with j show ?thesis by (auto simp: bit_simps assms)
  next
    case False
    then have "m + i + (j - m) = i + j" "j - m < m"
      using j by simp_all
    with j have "bit x (m + i)"
      by (metis assms)
    then show ?thesis by (simp add: bit_simps)
  qed
qed

lemma highest_bit:
  fixes m :: "'a::len word"
  assumes "m \<noteq> 0"
  obtains h where "h < LENGTH('a)" "\<And>i. (\<exists>k\<ge>i. bit m k) \<longleftrightarrow> i \<le> h"
    "2 ^ h \<le> unat m" "unat m < 2 ^ Suc h"
proof -
  let ?S = "{k. bit m k}"
  have fin: "finite ?S"
    by (rule finite_subset [of _ "{..<LENGTH('a)}"]) (auto dest: bit_imp_le_length)
  have ne: "?S \<noteq> {}"
    using assms by (auto simp: bit_eq_iff)
  define h where "h = Max ?S"
  have bh: "bit m h" and le: "bit m k \<Longrightarrow> k \<le> h" for k
    using Max_in [OF fin ne] Max_ge [OF fin] by (simp_all add: h_def)
  have "take_bit (Suc h) m = m"
    by (rule bit_word_eqI) (use le in \<open>auto simp: bit_take_bit_iff less_Suc_eq_le\<close>)
  then have "unat m = take_bit (Suc h) (unat m)"
    by (metis unsigned_take_bit_eq)
  then have up: "unat m < 2 ^ Suc h"
    by (metis take_bit_nat_less_exp)
  have "bit (unat m) h"
    using bh by (simp add: bit_unsigned_iff)
  then have "odd (unat m div 2 ^ h)"
    by (rule bit_iff_odd [THEN iffD1])
  then have "2 ^ h \<le> unat m"
    by (intro leI notI) simp
  with that [of h] bh le up show thesis
    by (meson bit_imp_le_length order.trans)
qed

lemma next_power_of_two_smear:
  assumes "n \<noteq> 0"
  shows "\<exists>w. next_power_of_two n = w + 1 \<and> (\<forall>i. bit w i \<longleftrightarrow> (\<exists>k\<ge>i. bit (n - 1) k))"
proof -
  define n1 where "n1 = n - 1"
  define n2 where "n2 = n1 OR drop_bit 1 n1"
  define n3 where "n3 = n2 OR drop_bit 2 n2"
  define n4 where "n4 = n3 OR drop_bit 4 n3"
  define n5 where "n5 = n4 OR drop_bit 8 n4"
  define n6 where "n6 = n5 OR drop_bit 16 n5"
  define n7 where "n7 = n6 OR drop_bit 32 n6"
  have 1: "bit n1 i \<longleftrightarrow> (\<exists>j<1. bit n1 (i + j))" for i by simp
  have 2: "bit n2 i \<longleftrightarrow> (\<exists>j<2. bit n1 (i + j))" for i
    unfolding n2_def using smear_step [of n1 1 n1, OF 1] by (simp add: numeral_2_eq_2)
  have 3: "bit n3 i \<longleftrightarrow> (\<exists>j<4. bit n1 (i + j))" for i
    unfolding n3_def using smear_step [of n2 2 n1, OF 2] by simp
  have 4: "bit n4 i \<longleftrightarrow> (\<exists>j<8. bit n1 (i + j))" for i
    unfolding n4_def using smear_step [of n3 4 n1, OF 3] by simp
  have 5: "bit n5 i \<longleftrightarrow> (\<exists>j<16. bit n1 (i + j))" for i
    unfolding n5_def using smear_step [of n4 8 n1, OF 4] by simp
  have 6: "bit n6 i \<longleftrightarrow> (\<exists>j<32. bit n1 (i + j))" for i
    unfolding n6_def using smear_step [of n5 16 n1, OF 5] by simp
  have 7: "bit n7 i \<longleftrightarrow> (\<exists>j<64. bit n1 (i + j))" for i
    unfolding n7_def using smear_step [of n6 32 n1, OF 6] by simp
  have "(\<exists>j<64. bit n1 (i + j)) \<longleftrightarrow> (\<exists>k\<ge>i. bit n1 k)" for i
  proof
    assume "\<exists>k\<ge>i. bit n1 k"
    then obtain k where "i \<le> k" "bit n1 k" by blast
    then have "k - i < 64 \<and> bit n1 (i + (k - i))"
      using bit_imp_le_length [of n1 k] by simp
    then show "\<exists>j<64. bit n1 (i + j)" by blast
  qed (use le_add1 in blast)
  then show ?thesis
    unfolding next_power_of_two_def
    using assms 7 by (auto simp: Let_def n1_def n2_def n3_def n4_def n5_def n6_def n7_def)
qed

lemma next_power_of_two_value:
  assumes "1 < unat n"
  shows "\<exists>h < 64. 2 ^ h < unat n \<and> unat n \<le> 2 ^ Suc h \<and>
    unat (next_power_of_two n) = (if h = 63 then 0 else 2 ^ Suc h)"
proof -
  have n1: "unat (n - 1) = unat n - 1" and ne: "n - 1 \<noteq> 0" "n \<noteq> 0"
    using assms by (auto simp: unat_sub_if' word_le_nat_alt)
  obtain h where h: "h < 64" "\<And>i. (\<exists>k\<ge>i. bit (n - 1) k) \<longleftrightarrow> i \<le> h"
      "2 ^ h \<le> unat (n - 1)" "unat (n - 1) < 2 ^ Suc h"
    by (rule highest_bit [OF ne(1)]) simp
  obtain w where w: "next_power_of_two n = w + 1" "\<And>i. bit w i \<longleftrightarrow> (\<exists>k\<ge>i. bit (n - 1) k)"
    using next_power_of_two_smear [OF ne(2)] by blast
  have "w = mask (Suc h)"
    by (rule bit_word_eqI) (use h(1) in \<open>auto simp: w(2) h(2) bit_mask_iff\<close>)
  then have "next_power_of_two n = 2 ^ Suc h"
    using w(1) by (simp add: mask_eq_exp_minus_1)
  moreover have "unat (2 ^ Suc h :: u64) = (if h = 63 then 0 else 2 ^ Suc h)"
  proof (cases "h = 63")
    case False
    then have "(2 ^ Suc h :: nat) < 2 ^ 64"
      using h(1) by (intro power_strict_increasing) simp_all
    then have "unat (word_of_nat (2 ^ Suc h) :: u64) = 2 ^ Suc h"
      by (simp only: unat_of_nat) simp
    with False show ?thesis by simp
  qed simp
  ultimately show ?thesis
    using h n1 assms by (intro exI [of _ h]) auto
qed

section \<open>A buffer that cannot grow\<close>

text \<open>
  A full buffer whose growth is refused, by the allocator or because it borrows its
  bytes: every append leaves it as it is.
\<close>

definition stuck_buffer :: "allocator \<Rightarrow> carquet_buffer \<Rightarrow> bool" where
  "stuck_buffer al buf \<longleftrightarrow> buf_size buf = buf_capacity buf \<and>
     (\<forall>needed. buf_capacity buf < needed \<longrightarrow> snd (ensure_capacity al buf needed) \<noteq> CARQUET_OK)"

lemma ensure_capacity_refused: "ensure_capacity al buf needed = (b, st) \<Longrightarrow> st \<noteq> CARQUET_OK \<Longrightarrow> b = buf"
  unfolding ensure_capacity_def Let_def by (simp split: if_split_asm option.split_asm)

lemma stuck_append:
  assumes "stuck_buffer al buf"
  shows "fst (carquet_buffer_append al buf bs) = buf"
proof -
  let ?sz = "word_of_nat (length bs) :: u64"
  have "buf_capacity buf < needed" if "?sz \<noteq> 0" "add_overflows_size (buf_size buf) ?sz = Some needed" for needed
  proof -
    have n: "unat (buf_size buf) + unat ?sz < 2 ^ 64" "needed = buf_size buf + ?sz" "0 < unat ?sz"
      using that unat_eq_0 [of ?sz] by (auto simp: add_overflows_size_Some simp del: unat_eq_0)
    then have "unat needed = unat (buf_size buf) + unat ?sz"
      by (simp add: unat_word_ariths)
    then show ?thesis
      using assms n(3) by (simp add: stuck_buffer_def word_less_nat_alt)
  qed
  then show ?thesis
    using assms
    by (auto simp: carquet_buffer_append_def stuck_buffer_def Let_def dest: ensure_capacity_refused
        split: option.splits prod.splits)
qed

lemma stuck_refusing: "\<forall>n. \<not> alloc_grants al n \<Longrightarrow> buf_size buf = buf_capacity buf \<Longrightarrow> stuck_buffer al buf"
  by (auto simp: stuck_buffer_def ensure_capacity_def carquet_mem_realloc_def Let_def)

section \<open>Properties\<close>

text \<open>C40: Appending to a well-formed buffer either adds exactly the given bytes after
  what was written and reports success, or reports out-of-memory and leaves what was
  written unchanged; both leave the buffer well-formed (written size within the
  allocated capacity). This holds for every allocator, also one that refuses.\<close>

theorem buffer_append_exact_or_unchanged:
  assumes "buffer_wf b" "length bs < 2 ^ 64" "carquet_buffer_append al b bs = (b', st)"
  shows "buffer_wf b' \<and>
    (st = CARQUET_OK \<and> buffer_contents b' = buffer_contents b @ bs \<or>
     st = CARQUET_ERROR_OUT_OF_MEMORY \<and> buffer_contents b' = buffer_contents b)"
  using assms by (rule carquet_buffer_append_refines)

text \<open>An allocator that grants every request, and one that grants none.\<close>

definition generous :: allocator where
  "generous = \<lparr>alloc_grants = (\<lambda>_. True), alloc_fresh = (\<lambda>_. 0xAA)\<rparr>"

definition refusing :: allocator where
  "refusing = \<lparr>alloc_grants = (\<lambda>_. False), alloc_fresh = (\<lambda>_. 0xAA)\<rparr>"

theorem buffer_append_exact_or_unchanged_witness:
  "buffer_contents (fst (carquet_buffer_append generous carquet_buffer_init [1, 2, 3])) = [1, 2, 3] \<and>
   buffer_wf (fst (carquet_buffer_append generous carquet_buffer_init [1, 2, 3]))"
proof -
  have "snd (carquet_buffer_append generous carquet_buffer_init [1, 2, 3]) = CARQUET_OK"
    by (rule carquet_buffer_append_succeeds)
      (simp_all add: generous_def carquet_buffer_init_def buffer_wf_def)
  then show ?thesis
    using buffer_append_exact_or_unchanged [of carquet_buffer_init "[1, 2, 3]" generous
        "fst (carquet_buffer_append generous carquet_buffer_init [1, 2, 3])" CARQUET_OK]
    by (simp add: prod_eq_iff)
qed

text \<open>The growth policy: for a request between 2 and \<open>2\<^sup>6\<^sup>3\<close> bytes the bit-smearing
  computation yields the least power of two that is at least the request; beyond
  \<open>2\<^sup>6\<^sup>3\<close> it wraps to 0, the case the caller's comparison with the request covers.\<close>

theorem next_power_of_two_least:
  assumes "1 < unat n"
  shows "if unat n \<le> 2 ^ 63
    then (\<exists>k. unat (next_power_of_two n) = 2 ^ k \<and> unat n \<le> 2 ^ k \<and> 2 ^ k < 2 * unat n)
    else next_power_of_two n = 0"
proof -
  obtain h where h: "h < 64" "2 ^ h < unat n" "unat n \<le> 2 ^ Suc h"
      "unat (next_power_of_two n) = (if h = 63 then 0 else 2 ^ Suc h)"
    using next_power_of_two_value [OF assms] by blast
  show ?thesis
  proof (cases "h = 63")
    case True
    with h show ?thesis by (simp add: unat_eq_0)
  next
    case False
    then have "2 ^ Suc h \<le> (2::nat) ^ 63"
      using h(1) by (intro power_increasing) simp_all
    with h False show ?thesis
      by (auto intro!: exI [of _ "Suc h"])
  qed
qed

theorem next_power_of_two_least_witness:
  "\<exists>k. unat (next_power_of_two 5000) = 2 ^ k \<and> 5000 \<le> (2::nat) ^ k \<and> 2 ^ k < (10000::nat)"
  using next_power_of_two_least [of 5000] by simp

end
