(* ===== verification/Thrift_Encode.thy ===== *)
theory Thrift_Encode
  imports Buffer
begin

text \<open>
  \<^verbatim>\<open>thrift/thrift_encode.h\<close> and \<^verbatim>\<open>thrift/thrift_encode.c\<close>: the Thrift compact
  protocol encoder that writes all Parquet metadata. The encoder owns no memory;
  it appends to a \<^verbatim>\<open>carquet_buffer_t\<close> and remembers, per open struct, the last
  field id it wrote. Errors are sticky.
\<close>

section \<open>Wire types\<close>

type_synonym thrift_type = u8

abbreviation (input) THRIFT_TYPE_STOP :: thrift_type where "THRIFT_TYPE_STOP \<equiv> 0"
abbreviation (input) THRIFT_TYPE_TRUE :: thrift_type where "THRIFT_TYPE_TRUE \<equiv> 1"
abbreviation (input) THRIFT_TYPE_FALSE :: thrift_type where "THRIFT_TYPE_FALSE \<equiv> 2"
abbreviation (input) THRIFT_TYPE_BYTE :: thrift_type where "THRIFT_TYPE_BYTE \<equiv> 3"
abbreviation (input) THRIFT_TYPE_I16 :: thrift_type where "THRIFT_TYPE_I16 \<equiv> 4"
abbreviation (input) THRIFT_TYPE_I32 :: thrift_type where "THRIFT_TYPE_I32 \<equiv> 5"
abbreviation (input) THRIFT_TYPE_I64 :: thrift_type where "THRIFT_TYPE_I64 \<equiv> 6"
abbreviation (input) THRIFT_TYPE_DOUBLE :: thrift_type where "THRIFT_TYPE_DOUBLE \<equiv> 7"
abbreviation (input) THRIFT_TYPE_BINARY :: thrift_type where "THRIFT_TYPE_BINARY \<equiv> 8"
abbreviation (input) THRIFT_TYPE_LIST :: thrift_type where "THRIFT_TYPE_LIST \<equiv> 9"
abbreviation (input) THRIFT_TYPE_SET :: thrift_type where "THRIFT_TYPE_SET \<equiv> 10"
abbreviation (input) THRIFT_TYPE_MAP :: thrift_type where "THRIFT_TYPE_MAP \<equiv> 11"
abbreviation (input) THRIFT_TYPE_STRUCT :: thrift_type where "THRIFT_TYPE_STRUCT \<equiv> 12"
abbreviation (input) THRIFT_TYPE_UUID :: thrift_type where "THRIFT_TYPE_UUID \<equiv> 13"

abbreviation (input) THRIFT_ENCODER_MAX_NESTING :: nat where
  "THRIFT_ENCODER_MAX_NESTING \<equiv> 32"

section \<open>The encoder\<close>

record thrift_encoder =
  enc_buffer :: carquet_buffer
  enc_last_field_id :: "i16 list"
  enc_nesting_level :: nat
  enc_status :: carquet_status

definition enc_set_error :: "thrift_encoder \<Rightarrow> carquet_status \<Rightarrow> thrift_encoder" where
  "enc_set_error enc st =
     (if enc_status enc = CARQUET_OK then enc\<lparr>enc_status := st\<rparr> else enc)"

definition thrift_encoder_init :: "carquet_buffer \<Rightarrow> thrift_encoder" where
  "thrift_encoder_init buf =
     \<lparr>enc_buffer = buf, enc_last_field_id = replicate THRIFT_ENCODER_MAX_NESTING 0,
      enc_nesting_level = 0, enc_status = CARQUET_OK\<rparr>"

text \<open>The pattern of every primitive writer: append, and record a failure as out-of-memory.\<close>

definition enc_append :: "allocator \<Rightarrow> thrift_encoder \<Rightarrow> bytes \<Rightarrow> thrift_encoder" where
  "enc_append al enc src =
     (case carquet_buffer_append al (enc_buffer enc) src of
        (b, st) \<Rightarrow>
          if st \<noteq> CARQUET_OK
          then enc_set_error (enc\<lparr>enc_buffer := b\<rparr>) CARQUET_ERROR_OUT_OF_MEMORY
          else enc\<lparr>enc_buffer := b\<rparr>)"

definition thrift_write_varint :: "allocator \<Rightarrow> thrift_encoder \<Rightarrow> u64 \<Rightarrow> thrift_encoder" where
  "thrift_write_varint al enc v = enc_append al enc (varint_bytes v)"

definition thrift_write_zigzag :: "allocator \<Rightarrow> thrift_encoder \<Rightarrow> i64 \<Rightarrow> thrift_encoder" where
  "thrift_write_zigzag al enc v = thrift_write_varint al enc (carquet_zigzag_encode64 v)"

definition thrift_write_byte :: "allocator \<Rightarrow> thrift_encoder \<Rightarrow> i8 \<Rightarrow> thrift_encoder" where
  "thrift_write_byte al enc v = enc_append al enc [v]"

text \<open>The narrower signed writers widen their argument with sign extension.\<close>

definition thrift_write_i16 :: "allocator \<Rightarrow> thrift_encoder \<Rightarrow> i16 \<Rightarrow> thrift_encoder" where
  "thrift_write_i16 al enc v = thrift_write_zigzag al enc (scast v)"

definition thrift_write_i32 :: "allocator \<Rightarrow> thrift_encoder \<Rightarrow> i32 \<Rightarrow> thrift_encoder" where
  "thrift_write_i32 al enc v = thrift_write_zigzag al enc (scast v)"

definition thrift_write_i64 :: "allocator \<Rightarrow> thrift_encoder \<Rightarrow> i64 \<Rightarrow> thrift_encoder" where
  "thrift_write_i64 al enc v = thrift_write_zigzag al enc v"

definition thrift_write_double :: "allocator \<Rightarrow> thrift_encoder \<Rightarrow> u64 \<Rightarrow> thrift_encoder" where
  "thrift_write_double al enc v = enc_append al enc (carquet_write_f64_le v)"

definition thrift_write_bool :: "allocator \<Rightarrow> thrift_encoder \<Rightarrow> bool \<Rightarrow> thrift_encoder" where
  "thrift_write_bool al enc v = thrift_write_byte al enc (if v then 1 else 0)"

text \<open>\<open>None\<close> is a NULL data pointer; \<open>len\<close> is the signed length argument.\<close>

definition thrift_write_binary ::
    "allocator \<Rightarrow> thrift_encoder \<Rightarrow> bytes option \<Rightarrow> i32 \<Rightarrow> thrift_encoder" where
  "thrift_write_binary al enc data len =
     (let enc1 = thrift_write_varint al enc (scast len) in
      case data of
        None \<Rightarrow> enc1
      | Some d \<Rightarrow> if 0 < sint len then enc_append al enc1 (take (unat len) d) else enc1)"

text \<open>\<open>strlen\<close> is narrowed to \<^verbatim>\<open>int32_t\<close>; the string is given without its terminator.\<close>

definition thrift_write_string ::
    "allocator \<Rightarrow> thrift_encoder \<Rightarrow> bytes option \<Rightarrow> thrift_encoder" where
  "thrift_write_string al enc str =
     (case str of
        None \<Rightarrow> thrift_write_binary al enc None 0
      | Some s \<Rightarrow> thrift_write_binary al enc (Some s) (word_of_nat (length s)))"

definition thrift_write_uuid :: "allocator \<Rightarrow> thrift_encoder \<Rightarrow> bytes \<Rightarrow> thrift_encoder" where
  "thrift_write_uuid al enc uuid = enc_append al enc (take 16 uuid)"

subsection \<open>Structs\<close>

definition thrift_write_struct_begin :: "thrift_encoder \<Rightarrow> thrift_encoder" where
  "thrift_write_struct_begin enc =
     (if THRIFT_ENCODER_MAX_NESTING \<le> enc_nesting_level enc
      then enc_set_error enc CARQUET_ERROR_THRIFT_ENCODE
      else enc\<lparr>enc_last_field_id := (enc_last_field_id enc)[enc_nesting_level enc := 0],
               enc_nesting_level := Suc (enc_nesting_level enc)\<rparr>)"

definition thrift_write_field_stop :: "allocator \<Rightarrow> thrift_encoder \<Rightarrow> thrift_encoder" where
  "thrift_write_field_stop al enc = thrift_write_byte al enc 0"

definition thrift_write_struct_end :: "allocator \<Rightarrow> thrift_encoder \<Rightarrow> thrift_encoder" where
  "thrift_write_struct_end al enc =
     (let enc1 = thrift_write_field_stop al enc in
      if 0 < enc_nesting_level enc1
      then enc1\<lparr>enc_nesting_level := enc_nesting_level enc1 - 1\<rparr> else enc1)"

definition enc_last_id :: "thrift_encoder \<Rightarrow> i16" where
  "enc_last_id enc =
     (if 0 < enc_nesting_level enc
      then enc_last_field_id enc ! (enc_nesting_level enc - 1) else 0)"

definition enc_set_last_id :: "thrift_encoder \<Rightarrow> i16 \<Rightarrow> thrift_encoder" where
  "enc_set_last_id enc fid =
     (if 0 < enc_nesting_level enc
      then enc\<lparr>enc_last_field_id :=
             (enc_last_field_id enc)[enc_nesting_level enc - 1 := fid]\<rparr>
      else enc)"

definition thrift_write_field_header ::
    "allocator \<Rightarrow> thrift_encoder \<Rightarrow> thrift_type \<Rightarrow> i16 \<Rightarrow> thrift_encoder" where
  "thrift_write_field_header al enc ty field_id =
     (let delta = field_id - enc_last_id enc;
          enc1 = (if 0 < sint delta \<and> sint delta \<le> 15
                  then thrift_write_byte al enc
                         (push_bit 4 (ucast (delta AND 0x0F)) OR (ty AND 0x0F))
                  else thrift_write_i16 al (thrift_write_byte al enc (ty AND 0x0F)) field_id)
      in enc_set_last_id enc1 field_id)"

subsection \<open>The field macros\<close>

definition THRIFT_WRITE_FIELD_BYTE :: "allocator \<Rightarrow> thrift_encoder \<Rightarrow> i16 \<Rightarrow> i8 \<Rightarrow> thrift_encoder" where
  "THRIFT_WRITE_FIELD_BYTE al enc fid v =
     thrift_write_byte al (thrift_write_field_header al enc 3 fid) v"

definition THRIFT_WRITE_FIELD_I16 :: "allocator \<Rightarrow> thrift_encoder \<Rightarrow> i16 \<Rightarrow> i16 \<Rightarrow> thrift_encoder" where
  "THRIFT_WRITE_FIELD_I16 al enc fid v =
     thrift_write_i16 al (thrift_write_field_header al enc 4 fid) v"

definition THRIFT_WRITE_FIELD_I32 :: "allocator \<Rightarrow> thrift_encoder \<Rightarrow> i16 \<Rightarrow> i32 \<Rightarrow> thrift_encoder" where
  "THRIFT_WRITE_FIELD_I32 al enc fid v =
     thrift_write_i32 al (thrift_write_field_header al enc 5 fid) v"

definition THRIFT_WRITE_FIELD_I64 :: "allocator \<Rightarrow> thrift_encoder \<Rightarrow> i16 \<Rightarrow> i64 \<Rightarrow> thrift_encoder" where
  "THRIFT_WRITE_FIELD_I64 al enc fid v =
     thrift_write_i64 al (thrift_write_field_header al enc 6 fid) v"

definition THRIFT_WRITE_FIELD_DOUBLE :: "allocator \<Rightarrow> thrift_encoder \<Rightarrow> i16 \<Rightarrow> u64 \<Rightarrow> thrift_encoder" where
  "THRIFT_WRITE_FIELD_DOUBLE al enc fid v =
     thrift_write_double al (thrift_write_field_header al enc 7 fid) v"

definition THRIFT_WRITE_FIELD_BOOL :: "allocator \<Rightarrow> thrift_encoder \<Rightarrow> i16 \<Rightarrow> bool \<Rightarrow> thrift_encoder" where
  "THRIFT_WRITE_FIELD_BOOL al enc fid v =
     thrift_write_field_header al enc (if v then 1 else 2) fid"

definition THRIFT_WRITE_FIELD_STRING ::
    "allocator \<Rightarrow> thrift_encoder \<Rightarrow> i16 \<Rightarrow> bytes option \<Rightarrow> thrift_encoder" where
  "THRIFT_WRITE_FIELD_STRING al enc fid v =
     thrift_write_string al (thrift_write_field_header al enc 8 fid) v"

definition THRIFT_WRITE_FIELD_BINARY ::
    "allocator \<Rightarrow> thrift_encoder \<Rightarrow> i16 \<Rightarrow> bytes option \<Rightarrow> i32 \<Rightarrow> thrift_encoder" where
  "THRIFT_WRITE_FIELD_BINARY al enc fid data len =
     thrift_write_binary al (thrift_write_field_header al enc 8 fid) data len"

subsection \<open>Containers\<close>

definition thrift_write_list_begin ::
    "allocator \<Rightarrow> thrift_encoder \<Rightarrow> thrift_type \<Rightarrow> i32 \<Rightarrow> thrift_encoder" where
  "thrift_write_list_begin al enc elem_type count =
     (if sint count < 15
      then thrift_write_byte al enc
             (push_bit 4 (ucast (count AND 0x0F)) OR (elem_type AND 0x0F))
      else thrift_write_varint al
             (thrift_write_byte al enc (push_bit 4 0x0F OR (elem_type AND 0x0F)))
             (scast count))"

definition thrift_write_set_begin ::
    "allocator \<Rightarrow> thrift_encoder \<Rightarrow> thrift_type \<Rightarrow> i32 \<Rightarrow> thrift_encoder" where
  "thrift_write_set_begin al enc elem_type count =
     thrift_write_list_begin al enc elem_type count"

definition thrift_write_map_begin ::
    "allocator \<Rightarrow> thrift_encoder \<Rightarrow> thrift_type \<Rightarrow> thrift_type \<Rightarrow> i32 \<Rightarrow> thrift_encoder" where
  "thrift_write_map_begin al enc key_type value_type count =
     (if count = 0 then thrift_write_byte al enc 0
      else thrift_write_byte al (thrift_write_varint al enc (scast count))
             (push_bit 4 (key_type AND 0x0F) OR (value_type AND 0x0F)))"

section \<open>What a writer adds\<close>

text \<open>
  \<open>enc_adds al enc enc' bs\<close>: going from \<open>enc\<close> to \<open>enc'\<close> keeps the encoder
  well-formed and, if \<open>enc'\<close> carries no error, added exactly \<open>bs\<close> to the output.
  When the allocator grants every request, the output buffer is not borrowed and
  the total size fits \<^verbatim>\<open>size_t\<close>, no error is recorded.
\<close>

definition enc_wf :: "thrift_encoder \<Rightarrow> bool" where
  "enc_wf enc \<longleftrightarrow> buffer_wf (enc_buffer enc) \<and>
     length (enc_last_field_id enc) = THRIFT_ENCODER_MAX_NESTING \<and>
     enc_nesting_level enc \<le> THRIFT_ENCODER_MAX_NESTING"

definition enc_output :: "thrift_encoder \<Rightarrow> bytes" where
  "enc_output enc = buffer_contents (enc_buffer enc)"

definition enc_good :: "thrift_encoder \<Rightarrow> bool" where
  "enc_good enc \<longleftrightarrow> enc_status enc = CARQUET_OK \<and> buf_owns_data (enc_buffer enc)"

definition enc_adds :: "allocator \<Rightarrow> thrift_encoder \<Rightarrow> thrift_encoder \<Rightarrow> bytes \<Rightarrow> bool" where
  "enc_adds al enc enc' bs \<longleftrightarrow>
     (enc_wf enc \<longrightarrow> enc_wf enc') \<and>
     (enc_wf enc \<longrightarrow> enc_status enc' = CARQUET_OK \<longrightarrow>
        enc_status enc = CARQUET_OK \<and> enc_output enc' = enc_output enc @ bs) \<and>
     (enc_wf enc \<longrightarrow> enc_good enc \<longrightarrow> (\<forall>n. alloc_grants al n) \<longrightarrow>
        length (enc_output enc) + length bs < 2 ^ 64 \<longrightarrow> enc_good enc')"

lemma enc_wf_init: "buffer_wf b \<Longrightarrow> enc_wf (thrift_encoder_init b)"
  by (simp add: enc_wf_def thrift_encoder_init_def)

lemma enc_adds_trans [trans]:
  assumes 1: "enc_adds al a b xs" and 2: "enc_adds al b c ys"
  shows "enc_adds al a c (xs @ ys)"
proof -
  have "enc_good c" if "enc_wf a" "enc_good a" "\<forall>n. alloc_grants al n"
    "length (enc_output a) + length (xs @ ys) < 2 ^ 64"
  proof -
    have b: "enc_good b" "enc_wf b"
      using 1 that unfolding enc_adds_def by simp_all
    then have "enc_output b = enc_output a @ xs"
      using 1 that(1) unfolding enc_adds_def enc_good_def by blast
    with b that 2 show ?thesis
      unfolding enc_adds_def by simp
  qed
  then show ?thesis
    using 1 2 unfolding enc_adds_def by simp
qed

lemma enc_adds_refl: "enc_adds al a a []"
  by (simp add: enc_adds_def)

lemma enc_append_adds:
  assumes "length bs < 2 ^ 64"
  shows "enc_adds al enc (enc_append al enc bs) bs"
proof -
  obtain b st where a: "carquet_buffer_append al (enc_buffer enc) bs = (b, st)"
    by fastforce
  have live: "enc_good (enc_append al enc bs)" if "enc_wf enc" "enc_good enc" "\<forall>n. alloc_grants al n"
    "length (enc_output enc) + length bs < 2 ^ 64"
    using carquet_buffer_append_succeeds [of "enc_buffer enc" al bs]
      carquet_buffer_append_owns [of "enc_buffer enc" al bs] that a
    by (auto simp: enc_good_def enc_wf_def enc_append_def enc_output_def length_buffer_contents)
  then show ?thesis
    using carquet_buffer_append_refines [OF _ assms a] a
    by (auto simp: enc_adds_def enc_append_def enc_wf_def enc_output_def enc_set_error_def)
qed

lemma enc_append_frame [simp]:
  "enc_nesting_level (enc_append al enc bs) = enc_nesting_level enc"
  "enc_last_field_id (enc_append al enc bs) = enc_last_field_id enc"
  by (simp_all add: enc_append_def enc_set_error_def split: prod.split)

named_theorems enc_adds_rules \<open>what each primitive writer adds\<close>

lemma length_varint_bytes_64: "length (varint_bytes (v :: u64)) < 2 ^ 64"
proof -
  have "unat v < 2 ^ LENGTH(64)"
    by (rule unsigned_less)
  then have "unat v < 2 ^ (7 * 10)"
    by simp
  then show ?thesis
    using length_varint_bytes [of 10 v] by simp
qed

lemma write_varint_adds [enc_adds_rules]:
  "enc_adds al enc (thrift_write_varint al enc v) (varint_bytes v)"
  unfolding thrift_write_varint_def by (rule enc_append_adds [OF length_varint_bytes_64])

lemma write_byte_adds [enc_adds_rules]: "enc_adds al enc (thrift_write_byte al enc v) [v]"
  unfolding thrift_write_byte_def by (rule enc_append_adds) simp

lemma write_zigzag_adds [enc_adds_rules]:
  "enc_adds al enc (thrift_write_zigzag al enc v) (varint_bytes (carquet_zigzag_encode64 v))"
  unfolding thrift_write_zigzag_def by (rule write_varint_adds)

lemma write_int_adds [enc_adds_rules]:
  "enc_adds al enc (thrift_write_i16 al enc v16) (varint_bytes (carquet_zigzag_encode64 (scast v16)))"
  "enc_adds al enc (thrift_write_i32 al enc v32) (varint_bytes (carquet_zigzag_encode64 (scast v32)))"
  "enc_adds al enc (thrift_write_i64 al enc v64) (varint_bytes (carquet_zigzag_encode64 v64))"
  unfolding thrift_write_i16_def thrift_write_i32_def thrift_write_i64_def
  by (rule write_zigzag_adds)+

lemma write_double_adds [enc_adds_rules]:
  "enc_adds al enc (thrift_write_double al enc v) (carquet_write_u64_le v)"
  unfolding thrift_write_double_def carquet_write_f64_le_def by (rule enc_append_adds) simp

lemma write_bool_adds [enc_adds_rules]:
  "enc_adds al enc (thrift_write_bool al enc v) [if v then 1 else 0]"
  unfolding thrift_write_bool_def by (rule write_byte_adds)

lemma write_binary_adds [enc_adds_rules]:
  assumes "length d < 2 ^ 31"
  shows "enc_adds al enc (thrift_write_binary al enc (Some d) (word_of_nat (length d)))
    (varint_bytes (word_of_nat (length d) :: u64) @ d)"
proof -
  let ?len = "word_of_nat (length d) :: i32"
  have u: "unat ?len = length d"
    using assms by (simp add: unat_of_nat)
  have s: "sint ?len = int (length d)"
    using assms by (intro sint_of_nat_small) simp
  have sc: "(scast ?len :: u64) = word_of_nat (length d)"
    using assms by (intro scast_of_nat_small) simp
  show ?thesis
  proof (cases "d = []")
    case True
    then show ?thesis
      using write_varint_adds [of al enc 0] by (simp add: thrift_write_binary_def)
  next
    case False
    then show ?thesis
      using enc_adds_trans [OF write_varint_adds [of al enc "word_of_nat (length d)"]
          enc_append_adds [of d al]] assms
      by (simp add: thrift_write_binary_def Let_def u s sc)
  qed
qed

lemma writer_frame [simp]:
  "enc_nesting_level (thrift_write_varint al enc v) = enc_nesting_level enc"
  "enc_last_field_id (thrift_write_varint al enc v) = enc_last_field_id enc"
  "enc_nesting_level (thrift_write_byte al enc b) = enc_nesting_level enc"
  "enc_last_field_id (thrift_write_byte al enc b) = enc_last_field_id enc"
  "enc_nesting_level (thrift_write_zigzag al enc w) = enc_nesting_level enc"
  "enc_last_field_id (thrift_write_zigzag al enc w) = enc_last_field_id enc"
  "enc_nesting_level (thrift_write_i16 al enc x) = enc_nesting_level enc"
  "enc_last_field_id (thrift_write_i16 al enc x) = enc_last_field_id enc"
  "enc_nesting_level (thrift_write_i32 al enc y) = enc_nesting_level enc"
  "enc_last_field_id (thrift_write_i32 al enc y) = enc_last_field_id enc"
  "enc_nesting_level (thrift_write_i64 al enc w) = enc_nesting_level enc"
  "enc_last_field_id (thrift_write_i64 al enc w) = enc_last_field_id enc"
  "enc_nesting_level (thrift_write_double al enc v) = enc_nesting_level enc"
  "enc_last_field_id (thrift_write_double al enc v) = enc_last_field_id enc"
  "enc_nesting_level (thrift_write_binary al enc data len) = enc_nesting_level enc"
  "enc_last_field_id (thrift_write_binary al enc data len) = enc_last_field_id enc"
  by (simp_all add: thrift_write_varint_def thrift_write_byte_def thrift_write_zigzag_def
      thrift_write_i16_def thrift_write_i32_def thrift_write_i64_def thrift_write_double_def
      thrift_write_binary_def Let_def split: option.split)

subsection \<open>Field headers\<close>

definition field_header_bytes :: "i16 \<Rightarrow> thrift_type \<Rightarrow> i16 \<Rightarrow> bytes" where
  "field_header_bytes last_id ty fid =
     (let delta = fid - last_id in
      if 0 < sint delta \<and> sint delta \<le> 15
      then [push_bit 4 (ucast (delta AND 0x0F)) OR (ty AND 0x0F)]
      else (ty AND 0x0F) # varint_bytes (carquet_zigzag_encode64 (scast fid)))"

lemma enc_set_last_id_adds: "enc_adds al enc (enc_set_last_id enc fid) []"
  by (auto simp: enc_adds_def enc_good_def enc_set_last_id_def enc_wf_def enc_output_def)

lemma write_field_header_adds [enc_adds_rules]:
  "enc_adds al enc (thrift_write_field_header al enc ty fid)
     (field_header_bytes (enc_last_id enc) ty fid)"
proof -
  have long: "enc_adds al enc (thrift_write_i16 al (thrift_write_byte al enc b) fid)
      (b # varint_bytes (carquet_zigzag_encode64 (scast fid)))" for b
    using enc_adds_trans [OF write_byte_adds write_int_adds(1)] by simp
  show ?thesis
    unfolding thrift_write_field_header_def field_header_bytes_def Let_def
    using enc_adds_trans [OF write_byte_adds enc_set_last_id_adds]
      enc_adds_trans [OF long enc_set_last_id_adds]
    by simp
qed

lemma write_field_header_last_id:
  assumes "enc_wf enc" "0 < enc_nesting_level enc"
  shows "enc_last_id (thrift_write_field_header al enc ty fid) = fid"
    and "enc_nesting_level (thrift_write_field_header al enc ty fid) = enc_nesting_level enc"
  using assms
  by (auto simp: thrift_write_field_header_def enc_last_id_def enc_set_last_id_def enc_wf_def Let_def)

lemma struct_begin_adds:
  "enc_nesting_level enc < THRIFT_ENCODER_MAX_NESTING \<Longrightarrow>
     enc_adds al enc (thrift_write_struct_begin enc) []"
  by (auto simp: enc_adds_def enc_good_def thrift_write_struct_begin_def enc_wf_def enc_output_def enc_set_error_def)

lemma struct_end_adds: "enc_adds al enc (thrift_write_struct_end al enc) [0]"
proof -
  have "enc_adds al enc' (if 0 < enc_nesting_level enc'
      then enc'\<lparr>enc_nesting_level := enc_nesting_level enc' - 1\<rparr> else enc') []" for enc'
    by (auto simp: enc_adds_def enc_good_def enc_wf_def enc_output_def)
  from enc_adds_trans [OF write_byte_adds this] show ?thesis
    by (simp add: thrift_write_struct_end_def thrift_write_field_stop_def Let_def)
qed

end
