(* ===== verification/Thrift_Decode.thy ===== *)
theory Thrift_Decode
  imports Thrift_Encode "HOL-Library.Sublist"
begin

text \<open>
  \<^verbatim>\<open>thrift/thrift_decode.h\<close> and \<^verbatim>\<open>thrift/thrift_decode.c\<close>: the Thrift compact
  protocol decoder that parses all Parquet metadata, that is, untrusted input.
  The decoder is a read cursor, the stack of last field ids, the boolean that a
  field header may carry and a sticky status. The diagnostic text that
  accompanies an error is not part of the model.
\<close>

abbreviation (input) THRIFT_MAX_NESTING :: nat where
  "THRIFT_MAX_NESTING \<equiv> 32"

record thrift_decoder =
  dec_reader :: carquet_buffer_reader
  dec_last_field_id :: "i16 list"
  dec_nesting_level :: nat
  dec_bool_pending :: bool
  dec_bool_value :: bool
  dec_status :: carquet_status

section \<open>Operations\<close>

definition dec_set_error :: "thrift_decoder \<Rightarrow> carquet_status \<Rightarrow> thrift_decoder" where
  "dec_set_error dec st =
     (if dec_status dec = CARQUET_OK then dec\<lparr>dec_status := st\<rparr> else dec)"

definition has_bytes :: "thrift_decoder \<Rightarrow> u64 \<Rightarrow> bool" where
  "has_bytes dec n = carquet_buffer_reader_has (dec_reader dec) n"

definition read_byte_raw :: "thrift_decoder \<Rightarrow> thrift_decoder \<times> u8" where
  "read_byte_raw dec =
     (if \<not> has_bytes dec 1
      then (dec_set_error dec CARQUET_ERROR_THRIFT_TRUNCATED, 0)
      else case carquet_buffer_reader_read_byte (dec_reader dec) of
             Inl e \<Rightarrow> (dec, 0)
           | Inr (r, b) \<Rightarrow> (dec\<lparr>dec_reader := r\<rparr>, b))"

definition thrift_decoder_init_reader :: "carquet_buffer_reader \<Rightarrow> thrift_decoder" where
  "thrift_decoder_init_reader r =
     \<lparr>dec_reader = r, dec_last_field_id = replicate THRIFT_MAX_NESTING 0,
      dec_nesting_level = 0, dec_bool_pending = False, dec_bool_value = False,
      dec_status = CARQUET_OK\<rparr>"

definition thrift_decoder_init :: "bytes \<Rightarrow> thrift_decoder" where
  "thrift_decoder_init data = thrift_decoder_init_reader (carquet_buffer_reader_init_data data)"

text \<open>A skip whose failure the caller ignores: the cursor stays where it is.\<close>

definition dec_skip :: "thrift_decoder \<Rightarrow> u64 \<Rightarrow> thrift_decoder" where
  "dec_skip dec n =
     (case carquet_buffer_reader_skip (dec_reader dec) n of
        Inl e \<Rightarrow> dec
      | Inr r \<Rightarrow> dec\<lparr>dec_reader := r\<rparr>)"

subsection \<open>Varints and scalars\<close>

function varint_loop :: "thrift_decoder \<Rightarrow> nat \<Rightarrow> u64 \<Rightarrow> thrift_decoder \<times> u64" where
  "varint_loop dec shift result =
     (if shift < 64
      then if \<not> has_bytes dec 1
           then (dec_set_error dec CARQUET_ERROR_THRIFT_TRUNCATED, 0)
           else let (dec', byte) = read_byte_raw dec;
                    result' = result OR push_bit shift (ucast (byte AND 0x7F))
                in if byte AND 0x80 = 0 then (dec', result')
                   else varint_loop dec' (shift + 7) result'
      else (dec_set_error dec CARQUET_ERROR_THRIFT_DECODE, 0))"
  by pat_completeness auto
termination
  by (relation "measure (\<lambda>(dec, shift, result). 64 - shift)") auto

declare varint_loop.simps [simp del]

definition thrift_read_varint :: "thrift_decoder \<Rightarrow> thrift_decoder \<times> u64" where
  "thrift_read_varint dec = varint_loop dec 0 0"

definition thrift_read_zigzag :: "thrift_decoder \<Rightarrow> thrift_decoder \<times> i64" where
  "thrift_read_zigzag dec =
     (let (dec', n) = thrift_read_varint dec in (dec', carquet_zigzag_decode64 n))"

definition thrift_read_byte :: "thrift_decoder \<Rightarrow> thrift_decoder \<times> i8" where
  "thrift_read_byte dec = read_byte_raw dec"

definition thrift_read_i16 :: "thrift_decoder \<Rightarrow> thrift_decoder \<times> i16" where
  "thrift_read_i16 dec = (let (dec', v) = thrift_read_zigzag dec in (dec', ucast v))"

definition thrift_read_i32 :: "thrift_decoder \<Rightarrow> thrift_decoder \<times> i32" where
  "thrift_read_i32 dec = (let (dec', v) = thrift_read_zigzag dec in (dec', ucast v))"

definition thrift_read_i64 :: "thrift_decoder \<Rightarrow> thrift_decoder \<times> i64" where
  "thrift_read_i64 dec = thrift_read_zigzag dec"

definition thrift_read_double :: "thrift_decoder \<Rightarrow> thrift_decoder \<times> u64" where
  "thrift_read_double dec =
     (if \<not> has_bytes dec 8
      then (dec_set_error dec CARQUET_ERROR_THRIFT_TRUNCATED, 0)
      else (dec_skip dec 8, carquet_read_f64_le (carquet_buffer_reader_peek (dec_reader dec))))"

definition thrift_read_bool :: "thrift_decoder \<Rightarrow> thrift_decoder \<times> bool" where
  "thrift_read_bool dec =
     (if dec_bool_pending dec then (dec\<lparr>dec_bool_pending := False\<rparr>, dec_bool_value dec)
      else let (dec', b) = read_byte_raw dec in (dec', b = 1))"

text \<open>\<open>None\<close> is a NULL result. The length read is narrowed to \<^verbatim>\<open>int32_t\<close>.\<close>

definition thrift_read_binary :: "thrift_decoder \<Rightarrow> thrift_decoder \<times> bytes option \<times> i32" where
  "thrift_read_binary dec =
     (let (dec1, n) = thrift_read_varint dec; len = (ucast n :: i32) in
      if sint len < 0
      then (dec_set_error dec1 CARQUET_ERROR_THRIFT_DECODE, None, 0)
      else if \<not> has_bytes dec1 (ucast len)
      then (dec_set_error dec1 CARQUET_ERROR_THRIFT_TRUNCATED, None, 0)
      else (dec_skip dec1 (ucast len),
            Some (take (unat len) (carquet_buffer_reader_peek (dec_reader dec1))), len))"

text \<open>The string is returned without the terminator the code adds.\<close>

definition thrift_read_string_alloc ::
    "allocator \<Rightarrow> thrift_decoder \<Rightarrow> thrift_decoder \<times> bytes option" where
  "thrift_read_string_alloc al dec =
     (case thrift_read_binary dec of
        (dec1, None, len) \<Rightarrow>
          if len = 0 \<and> dec_status dec1 = CARQUET_OK
          then (dec1, if alloc_grants al 1 then Some [] else None)
          else (dec1, None)
      | (dec1, Some d, len) \<Rightarrow>
          if alloc_grants al (ucast len + 1) then (dec1, Some d)
          else (dec_set_error dec1 CARQUET_ERROR_OUT_OF_MEMORY, None))"

definition thrift_read_uuid :: "thrift_decoder \<Rightarrow> thrift_decoder \<times> bytes" where
  "thrift_read_uuid dec =
     (if \<not> has_bytes dec 16
      then (dec_set_error dec CARQUET_ERROR_THRIFT_TRUNCATED, replicate 16 0)
      else case carquet_buffer_reader_read (dec_reader dec) 16 of
             Inl e \<Rightarrow> (dec, replicate 16 0)
           | Inr (r, u) \<Rightarrow> (dec\<lparr>dec_reader := r\<rparr>, u))"

subsection \<open>Structs\<close>

definition thrift_read_struct_begin :: "thrift_decoder \<Rightarrow> thrift_decoder" where
  "thrift_read_struct_begin dec =
     (if THRIFT_MAX_NESTING \<le> dec_nesting_level dec
      then dec_set_error dec CARQUET_ERROR_THRIFT_DECODE
      else dec\<lparr>dec_last_field_id := (dec_last_field_id dec)[dec_nesting_level dec := 0],
               dec_nesting_level := Suc (dec_nesting_level dec)\<rparr>)"

definition thrift_read_struct_end :: "thrift_decoder \<Rightarrow> thrift_decoder" where
  "thrift_read_struct_end dec =
     (if 0 < dec_nesting_level dec
      then dec\<lparr>dec_nesting_level := dec_nesting_level dec - 1\<rparr> else dec)"

definition dec_last_id :: "thrift_decoder \<Rightarrow> i16" where
  "dec_last_id dec =
     (if 0 < dec_nesting_level dec
      then dec_last_field_id dec ! (dec_nesting_level dec - 1) else 0)"

definition dec_set_last_id :: "thrift_decoder \<Rightarrow> i16 \<Rightarrow> thrift_decoder" where
  "dec_set_last_id dec fid =
     (if 0 < dec_nesting_level dec
      then dec\<lparr>dec_last_field_id :=
             (dec_last_field_id dec)[dec_nesting_level dec - 1 := fid]\<rparr>
      else dec)"

text \<open>
  \<open>None\<close> is the \<^verbatim>\<open>false\<close> return (the STOP field, or an error already recorded);
  otherwise the wire type and the field id.
\<close>

definition thrift_read_field_begin ::
    "thrift_decoder \<Rightarrow> thrift_decoder \<times> (thrift_type \<times> i16) option" where
  "thrift_read_field_begin dec =
     (if dec_status dec \<noteq> CARQUET_OK then (dec, None)
      else
        let (dec1, header) = read_byte_raw dec in
        if header = 0 then (dec1, None)
        else
          let ty = header AND 0x0F;
              delta = (ucast (drop_bit 4 header AND 0x0F) :: i16);
              prev = dec_last_id dec1;
              (dec2, fid) = (if delta = 0 then thrift_read_i16 dec1 else (dec1, prev + delta));
              dec3 = dec_set_last_id dec2 fid;
              dec4 = (if ty = THRIFT_TYPE_TRUE
                      then dec3\<lparr>dec_bool_pending := True, dec_bool_value := True\<rparr>
                      else if ty = THRIFT_TYPE_FALSE
                      then dec3\<lparr>dec_bool_pending := True, dec_bool_value := False\<rparr>
                      else dec3)
          in (dec4, Some (ty, fid)))"

subsection \<open>Containers\<close>

definition thrift_read_list_begin ::
    "thrift_decoder \<Rightarrow> thrift_decoder \<times> thrift_type \<times> i32" where
  "thrift_read_list_begin dec =
     (let (dec1, header) = read_byte_raw dec;
          elem_type = header AND 0x0F;
          size_and_type = (ucast (drop_bit 4 header AND 0x0F) :: i32);
          (dec2, count) = (if size_and_type = 0x0F
                           then let (d, n) = thrift_read_varint dec1 in (d, ucast n)
                           else (dec1, size_and_type))
      in if sint count < 0
         then (dec_set_error dec2 CARQUET_ERROR_THRIFT_DECODE, elem_type, 0)
         else if carquet_buffer_reader_remaining (dec_reader dec2) < ucast count
         then (dec_set_error dec2 CARQUET_ERROR_THRIFT_DECODE, elem_type, 0)
         else (dec2, elem_type, count))"

definition thrift_read_set_begin ::
    "thrift_decoder \<Rightarrow> thrift_decoder \<times> thrift_type \<times> i32" where
  "thrift_read_set_begin dec = thrift_read_list_begin dec"

definition thrift_read_map_begin ::
    "thrift_decoder \<Rightarrow> thrift_decoder \<times> thrift_type \<times> thrift_type \<times> i32" where
  "thrift_read_map_begin dec =
     (let (dec1, n) = thrift_read_varint dec; count = (ucast n :: i32) in
      if sint count < 0
      then (dec_set_error dec1 CARQUET_ERROR_THRIFT_DECODE, THRIFT_TYPE_STOP, THRIFT_TYPE_STOP, 0)
      else if count = 0 then (dec1, THRIFT_TYPE_STOP, THRIFT_TYPE_STOP, 0)
      else if carquet_buffer_reader_remaining (dec_reader dec1) < ucast count
      then (dec_set_error dec1 CARQUET_ERROR_THRIFT_DECODE, THRIFT_TYPE_STOP, THRIFT_TYPE_STOP, 0)
      else let (dec2, types) = read_byte_raw dec1
           in (dec2, drop_bit 4 types AND 0x0F, types AND 0x0F, count))"

subsection \<open>Skipping values\<close>

text \<open>
  The recursion of \<^verbatim>\<open>thrift_skip\<close> is as deep as the input nests. \<open>n\<close> bounds that
  depth; running out of it is \<open>None\<close>. \<open>skip_elems\<close> is the counted loop over the
  elements of a list, set or map, \<open>skip_fields\<close> the loop over the fields of a
  struct, at most \<open>k\<close> of them.
\<close>

fun skip_elems ::
    "nat \<Rightarrow> (thrift_decoder \<Rightarrow> thrift_decoder option) \<Rightarrow> thrift_decoder \<Rightarrow> thrift_decoder option" where
  "skip_elems 0 body dec = Some dec"
| "skip_elems (Suc k) body dec =
     (if dec_status dec \<noteq> CARQUET_OK then Some dec
      else case body dec of None \<Rightarrow> None | Some dec' \<Rightarrow> skip_elems k body dec')"

fun skip_fields ::
    "nat \<Rightarrow> (thrift_decoder \<Rightarrow> thrift_type \<Rightarrow> thrift_decoder option) \<Rightarrow>
     thrift_decoder \<Rightarrow> thrift_decoder option" where
  "skip_fields 0 body dec = None"
| "skip_fields (Suc k) body dec =
     (case thrift_read_field_begin dec of
        (dec', None) \<Rightarrow> Some dec'
      | (dec', Some (ty, fid)) \<Rightarrow>
          (case body dec' ty of None \<Rightarrow> None | Some dec'' \<Rightarrow> skip_fields k body dec''))"

definition dec_remaining :: "thrift_decoder \<Rightarrow> nat" where
  "dec_remaining dec = unat (carquet_buffer_reader_remaining (dec_reader dec))"

fun thrift_skip_depth :: "nat \<Rightarrow> thrift_decoder \<Rightarrow> thrift_type \<Rightarrow> thrift_decoder option" where
  "thrift_skip_depth 0 dec ty = None"
| "thrift_skip_depth (Suc n) dec ty =
     (if dec_status dec \<noteq> CARQUET_OK then Some dec
      else if ty = THRIFT_TYPE_STOP then Some (dec_set_error dec CARQUET_ERROR_THRIFT_DECODE)
      else if ty = THRIFT_TYPE_TRUE \<or> ty = THRIFT_TYPE_FALSE
      then Some (dec\<lparr>dec_bool_pending := False\<rparr>)
      else if ty = THRIFT_TYPE_BYTE then Some (dec_skip dec 1)
      else if ty = THRIFT_TYPE_I16 \<or> ty = THRIFT_TYPE_I32 \<or> ty = THRIFT_TYPE_I64
      then Some (fst (thrift_read_varint dec))
      else if ty = THRIFT_TYPE_DOUBLE then Some (dec_skip dec 8)
      else if ty = THRIFT_TYPE_BINARY then Some (fst (thrift_read_binary dec))
      else if ty = THRIFT_TYPE_LIST \<or> ty = THRIFT_TYPE_SET
      then (case thrift_read_list_begin dec of
              (dec1, elem_type, count) \<Rightarrow>
                skip_elems (unat count) (\<lambda>d. thrift_skip_depth n d elem_type) dec1)
      else if ty = THRIFT_TYPE_MAP
      then (case thrift_read_map_begin dec of
              (dec1, key_type, value_type, count) \<Rightarrow>
                skip_elems (unat count)
                  (\<lambda>d. case thrift_skip_depth n d key_type of
                         None \<Rightarrow> None
                       | Some d' \<Rightarrow> thrift_skip_depth n d' value_type) dec1)
      else if ty = THRIFT_TYPE_STRUCT
      then (let dec1 = thrift_read_struct_begin dec in
            map_option thrift_read_struct_end
              (skip_fields (Suc (dec_remaining dec1)) (\<lambda>d t. thrift_skip_depth n d t) dec1))
      else if ty = THRIFT_TYPE_UUID then Some (dec_skip dec 16)
      else Some (dec_set_error dec CARQUET_ERROR_THRIFT_INVALID_TYPE))"

text \<open>The depth that is always enough: one more than the bytes that remain.\<close>

definition thrift_skip :: "thrift_decoder \<Rightarrow> thrift_type \<Rightarrow> thrift_decoder option" where
  "thrift_skip dec ty = thrift_skip_depth (Suc (dec_remaining dec)) dec ty"

definition thrift_skip_field :: "thrift_decoder \<Rightarrow> thrift_type \<Rightarrow> thrift_decoder option" where
  "thrift_skip_field dec ty = thrift_skip dec ty"

section \<open>Invariant and abstraction\<close>

definition dec_wf :: "thrift_decoder \<Rightarrow> bool" where
  "dec_wf dec \<longleftrightarrow> reader_wf (dec_reader dec) \<and>
     length (dec_last_field_id dec) = THRIFT_MAX_NESTING \<and>
     dec_nesting_level dec \<le> THRIFT_MAX_NESTING"

definition dec_rest :: "thrift_decoder \<Rightarrow> bytes" where
  "dec_rest dec = reader_rest (dec_reader dec)"

text \<open>
  What every operation of the decoder guarantees: it keeps the invariant, only
  moves the cursor forward within the input, and never hides an error recorded
  before it.
\<close>

definition dec_step :: "thrift_decoder \<Rightarrow> thrift_decoder \<Rightarrow> bool" where
  "dec_step d d' \<longleftrightarrow> (dec_wf d \<longrightarrow>
     dec_wf d' \<and> suffix (dec_rest d') (dec_rest d) \<and>
     (dec_status d \<noteq> CARQUET_OK \<longrightarrow> dec_status d' = dec_status d))"

text \<open>The part of the state that scalar reads leave alone.\<close>

definition dec_frame :: "thrift_decoder \<Rightarrow> thrift_decoder \<Rightarrow> bool" where
  "dec_frame d d' \<longleftrightarrow> dec_last_field_id d' = dec_last_field_id d \<and>
     dec_nesting_level d' = dec_nesting_level d"

named_theorems dec_steps \<open>operations that satisfy the step contract\<close>
named_theorems dec_frames \<open>operations that leave the field-id stack alone\<close>

lemma dec_step_refl [intro]: "dec_step d d"
  by (simp add: dec_step_def)

lemma dec_step_trans [trans]: "dec_step a b \<Longrightarrow> dec_step b c \<Longrightarrow> dec_step a c"
  by (auto simp: dec_step_def intro: suffix_order.trans)

lemma dec_frame_refl [intro]: "dec_frame d d"
  by (simp add: dec_frame_def)

lemma dec_frame_trans [trans]: "dec_frame a b \<Longrightarrow> dec_frame b c \<Longrightarrow> dec_frame a c"
  by (simp add: dec_frame_def)

lemma dec_step_error_stays:
  "dec_step d d' \<Longrightarrow> dec_wf d \<Longrightarrow> dec_status d' = CARQUET_OK \<Longrightarrow> dec_status d = CARQUET_OK"
  by (auto simp: dec_step_def)

lemma dec_step_wf: "dec_step d d' \<Longrightarrow> dec_wf d \<Longrightarrow> dec_wf d'"
  by (simp add: dec_step_def)

lemma dec_step_rest_le: "dec_step d d' \<Longrightarrow> dec_wf d \<Longrightarrow> length (dec_rest d') \<le> length (dec_rest d)"
  by (auto simp: dec_step_def suffix_length_le)

lemma dec_remaining_rest: "dec_wf d \<Longrightarrow> dec_remaining d = length (dec_rest d)"
  by (simp add: dec_remaining_def dec_rest_def dec_wf_def reader_remaining)

lemma dec_wf_init: "length data < 2 ^ 63 \<Longrightarrow> dec_wf (thrift_decoder_init data)"
  and dec_rest_init [simp]: "dec_rest (thrift_decoder_init data) = data"
  and dec_status_init [simp]: "dec_status (thrift_decoder_init data) = CARQUET_OK"
  by (simp_all add: dec_wf_def dec_rest_def thrift_decoder_init_def thrift_decoder_init_reader_def)

lemma dec_set_error_step [dec_steps]: "dec_step d (dec_set_error d st)"
  and dec_set_error_frame [dec_frames]: "dec_frame d (dec_set_error d st)"
  by (auto simp: dec_step_def dec_frame_def dec_set_error_def dec_wf_def dec_rest_def)

lemma dec_set_error_simps [simp]:
  "dec_rest (dec_set_error d st) = dec_rest d"
  "dec_wf (dec_set_error d st) = dec_wf d"
  "dec_reader (dec_set_error d st) = dec_reader d"
  "dec_status (dec_set_error d st) = first_error (dec_status d) st"
  by (auto simp: dec_set_error_def dec_rest_def dec_wf_def first_error_def)

lemma has_bytes_iff:
  "dec_wf d \<Longrightarrow> unat n < 2 ^ 63 \<Longrightarrow> has_bytes d n \<longleftrightarrow> unat n \<le> length (dec_rest d)"
  by (simp add: has_bytes_def dec_wf_def dec_rest_def cursor.has_iff)

lemma has_bytes_1: "dec_wf d \<Longrightarrow> has_bytes d 1 \<longleftrightarrow> dec_rest d \<noteq> []"
  by (simp add: has_bytes_def dec_wf_def dec_rest_def cursor.has_one)

lemma read_byte_raw_Nil:
  "dec_wf d \<Longrightarrow> dec_rest d = [] \<Longrightarrow>
     read_byte_raw d = (dec_set_error d CARQUET_ERROR_THRIFT_TRUNCATED, 0)"
  by (simp add: read_byte_raw_def has_bytes_1)

lemma read_byte_raw_Cons:
  assumes "dec_wf d" "dec_rest d = b # bs"
  shows "\<exists>r. read_byte_raw d = (d\<lparr>dec_reader := r\<rparr>, b) \<and> dec_wf (d\<lparr>dec_reader := r\<rparr>) \<and>
    dec_rest (d\<lparr>dec_reader := r\<rparr>) = bs"
  using cursor.read_byte_ok [of "dec_reader d" b bs] assms has_bytes_1 [OF assms(1)]
  by (auto simp: read_byte_raw_def dec_rest_def dec_wf_def)

lemma read_byte_raw_step [dec_steps]: "read_byte_raw d = (d', b) \<Longrightarrow> dec_step d d'"
  unfolding dec_step_def
proof
  assume r: "read_byte_raw d = (d', b)" and wf: "dec_wf d"
  show "dec_wf d' \<and> suffix (dec_rest d') (dec_rest d) \<and>
      (dec_status d \<noteq> CARQUET_OK \<longrightarrow> dec_status d' = dec_status d)"
  proof (cases "dec_rest d")
    case Nil
    with r wf show ?thesis by (auto simp: read_byte_raw_Nil)
  next
    case (Cons c cs)
    with r read_byte_raw_Cons [OF wf Cons] show ?thesis
      by (auto simp: suffix_ConsI)
  qed
qed

lemma read_byte_raw_frame [dec_frames]: "read_byte_raw d = (d', b) \<Longrightarrow> dec_frame d d'"
  by (auto simp: read_byte_raw_def dec_frame_def dec_set_error_def split: if_splits sum.splits)

lemma dec_skip_ok:
  assumes "dec_wf d" "unat n \<le> length (dec_rest d)"
  shows "dec_wf (dec_skip d n)" "dec_rest (dec_skip d n) = drop (unat n) (dec_rest d)"
    "dec_status (dec_skip d n) = dec_status d"
  using cursor.skip_ok [of "dec_reader d" n] assms
  by (auto simp: dec_skip_def dec_wf_def dec_rest_def)

lemma dec_skip_step [dec_steps]:
  assumes "unat n < 2 ^ 63"
  shows "dec_step d (dec_skip d n)"
proof (cases "unat n \<le> length (dec_rest d)")
  case True
  then show ?thesis
    using dec_skip_ok [of d n] by (auto simp: dec_step_def suffix_drop)
next
  case False
  have "dec_wf d \<Longrightarrow> dec_skip d n = d"
    using cursor.skip_short [of "dec_reader d" n] assms False
    by (auto simp: dec_skip_def dec_wf_def dec_rest_def)
  then show ?thesis by (auto simp: dec_step_def)
qed

lemma dec_skip_frame [dec_frames]: "dec_frame d (dec_skip d n)"
  by (auto simp: dec_skip_def dec_frame_def split: sum.splits)

subsection \<open>Varints\<close>

lemma varint_loop_byte:
  assumes "shift < 64" "has_bytes d 1" "read_byte_raw d = (d1, b)"
  shows "varint_loop d shift acc =
    (if b AND 0x80 = 0 then (d1, acc OR push_bit shift (ucast (b AND 0x7F)))
     else varint_loop d1 (shift + 7) (acc OR push_bit shift (ucast (b AND 0x7F))))"
  unfolding varint_loop.simps [of d] Let_def assms(3) prod.case using assms(1,2) by presburger

lemma varint_loop_step_frame:
  "varint_loop d shift acc = (d', v) \<Longrightarrow> dec_step d d' \<and> dec_frame d d'"
proof (induction d shift acc rule: varint_loop.induct)
  case (1 d shift acc)
  show ?case
  proof (cases "shift < 64 \<and> has_bytes d 1")
    case False
    with "1.prems" show ?thesis
      by (auto simp: varint_loop.simps [of d] split: if_splits intro: dec_steps dec_frames)
  next
    case True
    obtain d1 b where r: "read_byte_raw d = (d1, b)" by fastforce
    note s = read_byte_raw_step [OF r] read_byte_raw_frame [OF r]
    show ?thesis
    proof (cases "b AND 0x80 = 0")
      case True
      with "1.prems" s varint_loop_byte [OF _ _ r] \<open>shift < 64 \<and> _\<close> show ?thesis
        by auto
    next
      case False
      then have "varint_loop d1 (shift + 7) (acc OR push_bit shift (ucast (b AND 0x7F))) = (d', v)"
        using "1.prems" varint_loop_byte [OF _ _ r, of shift acc] \<open>shift < 64 \<and> _\<close> by presburger
      then have "dec_step d1 d' \<and> dec_frame d1 d'"
        using \<open>shift < 64 \<and> _\<close> by (intro "1.IH" [OF _ _ r [symmetric] refl refl False]) blast+
      with s show ?thesis
        by (auto intro: dec_step_trans dec_frame_trans)
    qed
  qed
qed

text \<open>The loop is the pure scan over the unread bytes.\<close>

lemma varint_loop_scan:
  assumes "dec_wf d" "shift + 7 * k = 70"
    and "varint_scan k shift acc (dec_rest d) = Some (v, r)"
  shows "\<exists>d'. varint_loop d shift acc = (d', v) \<and> dec_wf d' \<and> dec_rest d' = r \<and>
    dec_status d' = dec_status d"
  using assms
proof (induction k arbitrary: d shift acc)
  case (Suc k)
  from Suc.prems(3) obtain b bs where c: "dec_rest d = b # bs"
    by (cases "dec_rest d") auto
  obtain rd where r: "read_byte_raw d = (d\<lparr>dec_reader := rd\<rparr>, b)"
      "dec_wf (d\<lparr>dec_reader := rd\<rparr>)" "dec_rest (d\<lparr>dec_reader := rd\<rparr>) = bs"
    using read_byte_raw_Cons [OF Suc.prems(1) c] by blast
  have g: "shift < 64" "has_bytes d 1"
    using Suc.prems c by (simp_all add: has_bytes_1)
  show ?case
  proof (cases "b AND 0x80 = 0")
    case True
    with Suc.prems c varint_loop_byte [OF g r(1), of acc] r show ?thesis
      by (auto simp: Let_def)
  next
    case False
    let ?acc = "acc OR push_bit shift (ucast (b AND 0x7F))"
    from False Suc.prems c r
    have "varint_scan k (shift + 7) ?acc (dec_rest (d\<lparr>dec_reader := rd\<rparr>)) = Some (v, r)"
      by (simp add: Let_def)
    moreover have "shift + 7 + 7 * k = 70"
      using Suc.prems(2) by simp
    ultimately have "\<exists>d'. varint_loop (d\<lparr>dec_reader := rd\<rparr>) (shift + 7) ?acc = (d', v) \<and>
        dec_wf d' \<and> dec_rest d' = r \<and> dec_status d' = dec_status (d\<lparr>dec_reader := rd\<rparr>)"
      by (intro Suc.IH [OF r(2)])
    with False varint_loop_byte [OF g r(1), of acc] show ?thesis
      by simp
  qed
qed simp

lemma read_varint_step [dec_steps]: "thrift_read_varint d = (d', v) \<Longrightarrow> dec_step d d'"
  and read_varint_frame [dec_frames]: "thrift_read_varint d = (d', v) \<Longrightarrow> dec_frame d d'"
  using varint_loop_step_frame by (auto simp: thrift_read_varint_def)

lemma read_varint_scan:
  assumes "dec_wf d" "varint_scan 10 0 0 (dec_rest d) = Some (v, r)"
  shows "\<exists>d'. thrift_read_varint d = (d', v) \<and> dec_wf d' \<and> dec_rest d' = r \<and>
    dec_status d' = dec_status d"
  using varint_loop_scan [of d 0 10 0 v r] assms by (simp add: thrift_read_varint_def)

lemma read_varint_bytes:
  assumes "dec_wf d" "dec_rest d = varint_bytes (v :: u64) @ r"
  shows "\<exists>d'. thrift_read_varint d = (d', v) \<and> dec_wf d' \<and> dec_rest d' = r \<and>
    dec_status d' = dec_status d"
  using assms by (intro read_varint_scan) (simp_all add: varint_scan_zero)

text \<open>Reading a varint consumes at least one byte or records an error.\<close>

lemma read_varint_progress:
  assumes "dec_wf d" "dec_status d = CARQUET_OK" "thrift_read_varint d = (d', v)"
  shows "length (dec_rest d') < length (dec_rest d) \<or> dec_status d' \<noteq> CARQUET_OK \<and> v = 0"
proof (cases "dec_rest d")
  case Nil
  then show ?thesis
    using assms by (auto simp: thrift_read_varint_def varint_loop.simps [of d] has_bytes_1)
next
  case (Cons b bs)
  obtain rd where r: "read_byte_raw d = (d\<lparr>dec_reader := rd\<rparr>, b)"
      "dec_wf (d\<lparr>dec_reader := rd\<rparr>)" "dec_rest (d\<lparr>dec_reader := rd\<rparr>) = bs"
    using read_byte_raw_Cons [OF assms(1) Cons] by blast
  have "dec_step (d\<lparr>dec_reader := rd\<rparr>) d'"
    using assms(1,3) Cons r varint_loop_step_frame
    by (auto simp: thrift_read_varint_def varint_loop.simps [of d] has_bytes_1 Let_def split: if_splits)
  then show ?thesis
    using dec_step_rest_le r Cons by fastforce
qed

subsection \<open>Scalars, structs and containers keep the contract\<close>

lemma read_zigzag_step [dec_steps]: "thrift_read_zigzag d = (d', v) \<Longrightarrow> dec_step d d'"
  and read_zigzag_frame [dec_frames]: "thrift_read_zigzag d = (d', v) \<Longrightarrow> dec_frame d d'"
  by (auto simp: thrift_read_zigzag_def Let_def split: prod.splits intro: dec_steps dec_frames)

lemma read_i16_step [dec_steps]: "thrift_read_i16 d = (d', v) \<Longrightarrow> dec_step d d'"
  and read_i16_frame [dec_frames]: "thrift_read_i16 d = (d', v) \<Longrightarrow> dec_frame d d'"
  by (auto simp: thrift_read_i16_def Let_def split: prod.splits intro: dec_steps dec_frames)

lemma read_binary_step [dec_steps]: "thrift_read_binary d = (d', x) \<Longrightarrow> dec_step d d'"
proof -
  assume a: "thrift_read_binary d = (d', x)"
  obtain d1 n where v: "thrift_read_varint d = (d1, n)" by fastforce
  have "dec_step d1 (dec_skip d1 (ucast (ucast n :: i32)))"
    by (rule dec_skip_step) (simp only: unat_i32_as_size)
  with a v read_varint_step [OF v] show "dec_step d d'"
    by (auto simp: thrift_read_binary_def Let_def split: if_splits
        intro: dec_step_trans dec_steps)
qed

lemma read_binary_frame [dec_frames]: "thrift_read_binary d = (d', x) \<Longrightarrow> dec_frame d d'"
proof -
  assume a: "thrift_read_binary d = (d', x)"
  obtain d1 n where v: "thrift_read_varint d = (d1, n)" by fastforce
  from a v read_varint_frame [OF v] show "dec_frame d d'"
    by (auto simp: thrift_read_binary_def Let_def split: if_splits
        intro: dec_frame_trans dec_frames)
qed

lemma read_list_begin_step_frame:
  assumes "thrift_read_list_begin d = (d', et, c)"
  shows "dec_step d d' \<and> dec_frame d d'"
proof -
  obtain d1 h where b: "read_byte_raw d = (d1, h)" by fastforce
  obtain d2 n where v: "thrift_read_varint d1 = (d2, n)" by fastforce
  note 1 = read_byte_raw_step [OF b] read_byte_raw_frame [OF b]
    and 2 = read_varint_step [OF v] read_varint_frame [OF v]
  show ?thesis
    using assms b v 1 dec_step_trans [OF 1(1) 2(1)] dec_frame_trans [OF 1(2) 2(2)]
    by (auto simp: thrift_read_list_begin_def Let_def split: if_splits
        intro: dec_step_trans dec_frame_trans dec_steps dec_frames)
qed

lemma read_map_begin_step_frame:
  assumes "thrift_read_map_begin d = (d', kt, vt, c)"
  shows "dec_step d d' \<and> dec_frame d d'"
proof -
  obtain d1 n where v: "thrift_read_varint d = (d1, n)" by fastforce
  obtain d2 h where b: "read_byte_raw d1 = (d2, h)" by fastforce
  note 1 = read_varint_step [OF v] read_varint_frame [OF v]
    and 2 = read_byte_raw_step [OF b] read_byte_raw_frame [OF b]
  show ?thesis
    using assms b v 1 dec_step_trans [OF 1(1) 2(1)] dec_frame_trans [OF 1(2) 2(2)]
    by (auto simp: thrift_read_map_begin_def Let_def split: if_splits
        intro: dec_step_trans dec_frame_trans dec_steps dec_frames)
qed

lemma dec_set_last_id_step [dec_steps]: "dec_step d (dec_set_last_id d fid)"
  by (auto simp: dec_step_def dec_set_last_id_def dec_wf_def dec_rest_def)

lemma bool_flags_step [dec_steps]:
  "dec_step d (d\<lparr>dec_bool_pending := p\<rparr>)"
  "dec_step d (d\<lparr>dec_bool_pending := p, dec_bool_value := v\<rparr>)"
  by (auto simp: dec_step_def dec_wf_def dec_rest_def)

lemma struct_begin_step [dec_steps]: "dec_step d (thrift_read_struct_begin d)"
  by (auto simp: dec_step_def thrift_read_struct_begin_def dec_wf_def dec_rest_def dec_set_error_def)

lemma struct_end_step [dec_steps]: "dec_step d (thrift_read_struct_end d)"
  by (auto simp: dec_step_def thrift_read_struct_end_def dec_wf_def dec_rest_def)

lemma read_field_begin_step [dec_steps]:
  assumes "thrift_read_field_begin d = (d', res)"
  shows "dec_step d d'"
proof -
  obtain d1 h where b: "read_byte_raw d = (d1, h)" by fastforce
  obtain d2 f where i: "thrift_read_i16 d1 = (d2, f)" by fastforce
  note 1 = read_byte_raw_step [OF b] and 2 = dec_step_trans [OF read_byte_raw_step [OF b] read_i16_step [OF i]]
  have bools: "dec_step e ((dec_set_last_id e fid)\<lparr>dec_bool_pending := True, dec_bool_value := v\<rparr>)"
    for e fid v
    by (rule dec_step_trans [OF dec_set_last_id_step bool_flags_step(2)])
  show ?thesis
    using assms b i 1 dec_step_trans [OF 1 bools] dec_step_trans [OF 2 bools]
      dec_step_trans [OF 1 dec_set_last_id_step] dec_step_trans [OF 2 dec_set_last_id_step]
    by (auto simp: thrift_read_field_begin_def Let_def split: if_splits)
qed

end
