(* ===== verification/Thrift_Wire.thy ===== *)
theory Thrift_Wire
  imports Thrift_Decode
begin

text \<open>
  The wire format both sides of the Thrift component share: the decoder's readers,
  run on the bytes the encoder's writers produce, return what was written and
  consume exactly those bytes. Each lemma here is one primitive of
  \<^verbatim>\<open>thrift_decode.c\<close> against the byte format of one primitive of
  \<^verbatim>\<open>thrift_encode.c\<close>; skipping and struct round trips are built from them.
\<close>

section \<open>Nibbles\<close>

lemma low_nibble_join:
  "(push_bit 4 a OR (ty AND 0x0F)) AND 0x0F = ty AND (0x0F :: u8)"
  "drop_bit 4 (push_bit 4 (a AND 0x0F) OR (ty AND 0x0F)) AND 0x0F = a AND (0x0F :: u8)"
proof -
  have m: "(0x0F :: u8) = mask 4" by (simp add: mask_eq_exp_minus_1)
  show "(push_bit 4 a OR (ty AND 0x0F)) AND 0x0F = ty AND (0x0F :: u8)"
    unfolding m by (rule bit_word_eqI) (auto simp: bit_simps)
  show "drop_bit 4 (push_bit 4 (a AND 0x0F) OR (ty AND 0x0F)) AND 0x0F = a AND (0x0F :: u8)"
    unfolding m by (rule bit_word_eqI) (auto simp: bit_simps)
qed

lemma read_i16_bytes:
  assumes "dec_wf d" "dec_rest d = varint_bytes (carquet_zigzag_encode64 (scast v)) @ r"
  shows "\<exists>d'. thrift_read_i16 d = (d', v) \<and> dec_wf d' \<and> dec_rest d' = r \<and>
    dec_status d' = dec_status d"
  using read_varint_bytes [OF assms]
  by (auto simp: thrift_read_i16_def thrift_read_zigzag_def zigzag_decode_encode ucast_scast_up)

lemma read_i32_bytes:
  assumes "dec_wf d" "dec_rest d = varint_bytes (carquet_zigzag_encode64 (scast v)) @ r"
  shows "\<exists>d'. thrift_read_i32 d = (d', v) \<and> dec_wf d' \<and> dec_rest d' = r \<and>
    dec_status d' = dec_status d"
  using read_varint_bytes [OF assms]
  by (auto simp: thrift_read_i32_def thrift_read_zigzag_def zigzag_decode_encode ucast_scast_up)

lemma read_i64_bytes:
  assumes "dec_wf d" "dec_rest d = varint_bytes (carquet_zigzag_encode64 v) @ r"
  shows "\<exists>d'. thrift_read_i64 d = (d', v) \<and> dec_wf d' \<and> dec_rest d' = r \<and>
    dec_status d' = dec_status d"
  using read_varint_bytes [OF assms]
  by (auto simp: thrift_read_i64_def thrift_read_zigzag_def zigzag_decode_encode)

lemma read_binary_bytes:
  assumes wf: "dec_wf d" and rest: "dec_rest d = varint_bytes (word_of_nat (length x) :: u64) @ x @ r"
    and small: "length x < 2 ^ 31"
  shows "\<exists>d'. thrift_read_binary d = (d', Some x, word_of_nat (length x)) \<and> dec_wf d' \<and>
    dec_rest d' = r \<and> dec_status d' = dec_status d"
proof -
  let ?n = "word_of_nat (length x) :: u64" and ?len = "word_of_nat (length x) :: i32"
  obtain d1 where v: "thrift_read_varint d = (d1, ?n)" "dec_wf d1" "dec_rest d1 = x @ r"
      "dec_status d1 = dec_status d"
    using read_varint_bytes [OF wf rest] by blast
  have c: "(ucast ?n :: i32) = ?len" "(ucast ?len :: u64) = ?n"
    using small by (auto simp: word_unat_eq_iff unat_ucast_small unat_ucast_up unat_of_nat)
  have u: "unat ?n = length x" "unat ?len = length x"
    using small by (simp_all add: unat_of_nat)
  have s: "sint ?len = int (length x)"
    using small by (intro sint_of_nat_small) simp
  have h: "has_bytes d1 ?n" using has_bytes_iff [OF v(2), of ?n] v(3) u small by simp
  have p: "carquet_buffer_reader_peek (dec_reader d1) = x @ r"
    using v by (simp add: dec_rest_def dec_wf_def reader_rest_def carquet_buffer_reader_peek_def)
  show ?thesis
    using v dec_skip_ok [OF v(2), of ?n] by (simp add: thrift_read_binary_def c u s h p)
qed

definition list_header_bytes :: "thrift_type \<Rightarrow> nat \<Rightarrow> bytes" where
  "list_header_bytes et n =
     (if n < 15 then [push_bit 4 (word_of_nat n) OR (et AND 0x0F)]
      else (push_bit 4 0x0F OR (et AND 0x0F)) # varint_bytes (word_of_nat n :: u64))"

lemma nibble_of_nat: "n \<le> 15 \<Longrightarrow> word_of_nat n AND (0x0F :: u8) = word_of_nat n"
  and nibble_of_nat_32: "n \<le> 15 \<Longrightarrow> (ucast (word_of_nat n :: u8) :: i32) = word_of_nat n"
proof -
  assume n: "n \<le> 15"
  have m: "(0x0F :: u8) = mask 4" by (simp add: mask_eq_exp_minus_1)
  show "word_of_nat n AND (0x0F :: u8) = word_of_nat n"
    unfolding m using n by (intro and_mask_unat_self) (simp add: unat_of_nat)
  show "(ucast (word_of_nat n :: u8) :: i32) = word_of_nat n"
    using n by (simp add: word_unat_eq_iff unat_ucast_up unat_of_nat)
qed

lemma read_list_begin_bytes:
  assumes wf: "dec_wf d" and rest: "dec_rest d = list_header_bytes et n @ r"
    and n: "n < 2 ^ 31" "n \<le> length r"
  shows "\<exists>d'. thrift_read_list_begin d = (d', et AND 0x0F, word_of_nat n) \<and> dec_wf d' \<and>
    dec_rest d' = r \<and> dec_status d' = dec_status d"
proof -
  define b where "b = push_bit 4 (word_of_nat (min n 15)) OR (et AND (0x0F :: u8))"
  define bs where "bs = (if n < 15 then [] else varint_bytes (word_of_nat n :: u64)) @ r"
  have "dec_rest d = b # bs"
    using rest by (simp add: list_header_bytes_def b_def bs_def min_def)
  then obtain rd where b1: "read_byte_raw d = (d\<lparr>dec_reader := rd\<rparr>, b)"
      "dec_wf (d\<lparr>dec_reader := rd\<rparr>)" "dec_rest (d\<lparr>dec_reader := rd\<rparr>) = bs"
    using read_byte_raw_Cons [OF wf] by blast
  let ?d = "d\<lparr>dec_reader := rd\<rparr>"
  have nib: "b AND 0x0F = et AND 0x0F" "drop_bit 4 b AND 0x0F = word_of_nat (min n 15)"
    using low_nibble_join [of "word_of_nat (min n 15)" et] by (simp_all add: b_def nibble_of_nat)
  have s: "sint (word_of_nat n :: i32) = int n"
    using n by (intro sint_of_nat_small) simp
  have fits: "\<not> carquet_buffer_reader_remaining (dec_reader e) < ucast (word_of_nat n :: i32)"
    if "dec_wf e" "dec_rest e = r" for e
  proof -
    have "unat (carquet_buffer_reader_remaining (dec_reader e)) = length r"
      using that by (simp add: reader_remaining dec_wf_def dec_rest_def)
    then show ?thesis using n by (simp add: word_less_nat_alt unat_ucast_up unat_of_nat)
  qed
  show ?thesis
  proof (cases "n < 15")
    case True
    then have "(word_of_nat n :: i32) \<noteq> 0x0F"
      using n by (simp add: word_unat_eq_iff unat_of_nat)
    with True b1 nib s fits [of ?d] show ?thesis
      by (simp add: thrift_read_list_begin_def Let_def min_def nibble_of_nat_32 bs_def)
  next
    case False
    then obtain d2 where d2: "thrift_read_varint ?d = (d2, word_of_nat n)" "dec_wf d2"
        "dec_rest d2 = r" "dec_status d2 = dec_status ?d"
      using read_varint_bytes [OF b1(2), of "word_of_nat n" r] b1(3) by (auto simp: bs_def)
    have "(ucast (word_of_nat n :: u64) :: i32) = word_of_nat n"
      using n by (intro ucast_of_nat_small) simp_all
    with False b1 nib s fits [of d2] d2 show ?thesis
      by (simp add: thrift_read_list_begin_def Let_def min_def)
  qed
qed

lemma read_map_begin_bytes:
  assumes wf: "dec_wf d" and rest: "dec_rest d = varint_bytes (word_of_nat n :: u64) @
      (push_bit 4 (kt AND 0x0F) OR (vt AND 0x0F)) # r"
    and n: "0 < n" "n < 2 ^ 31" "n \<le> length r"
  shows "\<exists>d'. thrift_read_map_begin d = (d', kt AND 0x0F, vt AND 0x0F, word_of_nat n) \<and> dec_wf d' \<and>
    dec_rest d' = r \<and> dec_status d' = dec_status d"
proof -
  define b where "b = push_bit 4 (kt AND 0x0F) OR (vt AND (0x0F :: u8))"
  have nib: "b AND 0x0F = vt AND 0x0F" "drop_bit 4 b AND 0x0F = kt AND 0x0F"
    unfolding b_def by (rule low_nibble_join)+
  obtain d1 where d1: "thrift_read_varint d = (d1, word_of_nat n)" "dec_wf d1"
      "dec_rest d1 = b # r" "dec_status d1 = dec_status d"
    using read_varint_bytes [OF wf rest [folded b_def]] by blast
  obtain rd where b1: "read_byte_raw d1 = (d1\<lparr>dec_reader := rd\<rparr>, b)"
      "dec_wf (d1\<lparr>dec_reader := rd\<rparr>)" "dec_rest (d1\<lparr>dec_reader := rd\<rparr>) = r"
    using read_byte_raw_Cons [OF d1(2,3)] by blast
  have c: "(ucast (word_of_nat n :: u64) :: i32) = word_of_nat n"
    using n by (intro ucast_of_nat_small) simp_all
  have s: "sint (word_of_nat n :: i32) = int n"
    using n by (intro sint_of_nat_small) simp
  have z: "(word_of_nat n :: i32) \<noteq> 0"
    using n by (simp add: word_unat_eq_iff unat_of_nat)
  have "unat (carquet_buffer_reader_remaining (dec_reader d1)) = Suc (length r)"
    using d1 by (simp add: reader_remaining dec_wf_def dec_rest_def)
  then have "\<not> carquet_buffer_reader_remaining (dec_reader d1) < ucast (word_of_nat n :: i32)"
    using n by (simp add: word_less_nat_alt unat_ucast_up unat_of_nat)
  with d1 b1 c s z nib show ?thesis
    by (simp add: thrift_read_map_begin_def)
qed

lemma small_delta:
  fixes delta :: i16
  assumes "0 < sint delta" "sint delta \<le> 15"
  obtains k where "delta = word_of_nat k" "0 < k" "k \<le> 15"
proof -
  have "delta = word_of_int (sint delta)" by simp
  also have "\<dots> = word_of_nat (nat (sint delta))"
    using assms(1) by (metis int_nat_eq less_le of_int_of_nat_eq)
  finally show thesis
    using that [of "nat (sint delta)"] assms by simp
qed

lemma field_header_short:
  assumes "0 < k" "k \<le> 15" "ty AND 0x0F = ty"
  defines "h \<equiv> push_bit 4 (ucast ((word_of_nat k :: i16) AND 0x0F)) OR (ty AND 0x0F) :: u8"
  shows "h AND 0x0F = ty" "(ucast (drop_bit 4 h AND 0x0F) :: i16) = word_of_nat k" "h \<noteq> 0"
proof -
  have c: "(ucast ((word_of_nat k :: i16) AND 0x0F) :: u8) = word_of_nat k AND 0x0F"
  proof -
    have m: "(0x0F :: i16) = mask 4" by (simp add: mask_eq_exp_minus_1)
    have "(word_of_nat k :: i16) AND 0x0F = word_of_nat k"
      unfolding m using assms(2) by (intro and_mask_unat_self) (simp add: unat_of_nat)
    moreover have "(ucast (word_of_nat k :: i16) :: u8) = word_of_nat k"
      using assms(2) by (intro ucast_of_nat_small) simp_all
    ultimately show ?thesis
      using nibble_of_nat [OF assms(2)] by simp
  qed
  show "h AND 0x0F = ty"
    unfolding h_def low_nibble_join using assms(3) .
  have d: "drop_bit 4 h AND 0x0F = word_of_nat k"
    unfolding h_def c low_nibble_join using nibble_of_nat [OF assms(2)] .
  show "(ucast (drop_bit 4 h AND 0x0F) :: i16) = word_of_nat k"
    unfolding d using assms(2) by (simp add: word_unat_eq_iff unat_ucast_up unat_of_nat)
  have "word_of_nat k \<noteq> (0 :: u8)"
    using assms(1,2) by (simp add: word_unat_eq_iff unat_of_nat)
  with d show "h \<noteq> 0" by auto
qed

text \<open>The decoder after a field header: the id recorded, a boolean pending.\<close>

definition dec_entered :: "thrift_decoder \<Rightarrow> thrift_type \<Rightarrow> i16 \<Rightarrow> thrift_decoder" where
  "dec_entered e ty fid =
     (let e' = dec_set_last_id e fid in
      if ty = THRIFT_TYPE_TRUE then e'\<lparr>dec_bool_pending := True, dec_bool_value := True\<rparr>
      else if ty = THRIFT_TYPE_FALSE then e'\<lparr>dec_bool_pending := True, dec_bool_value := False\<rparr>
      else e')"

lemma dec_entered_simps [simp]:
  "dec_wf (dec_entered e ty fid) = dec_wf e"
  "dec_rest (dec_entered e ty fid) = dec_rest e"
  "dec_status (dec_entered e ty fid) = dec_status e"
  "dec_nesting_level (dec_entered e ty fid) = dec_nesting_level e"
  "dec_reader (dec_entered e ty fid) = dec_reader e"
  "take (dec_nesting_level e - 1) (dec_last_field_id (dec_entered e ty fid)) =
     take (dec_nesting_level e - 1) (dec_last_field_id e)"
  by (simp_all add: dec_entered_def dec_set_last_id_def dec_wf_def dec_rest_def Let_def)

lemma dec_entered_last_id:
  "dec_wf e \<Longrightarrow> 0 < dec_nesting_level e \<Longrightarrow> dec_last_id (dec_entered e ty fid) = fid"
  by (auto simp: dec_entered_def dec_set_last_id_def dec_last_id_def dec_wf_def Let_def)

lemma read_field_begin_bytes:
  assumes wf: "dec_wf d" "dec_status d = CARQUET_OK" "0 < dec_nesting_level d"
    and rest: "dec_rest d = field_header_bytes (dec_last_id d) ty fid @ r"
    and ty: "ty AND 0x0F = ty" "ty \<noteq> 0"
  shows "\<exists>e. thrift_read_field_begin d = (dec_entered e ty fid, Some (ty, fid)) \<and> dec_wf e \<and>
    dec_rest e = r \<and> dec_status e = CARQUET_OK \<and> dec_frame d e"
proof (cases "0 < sint (fid - dec_last_id d) \<and> sint (fid - dec_last_id d) \<le> 15")
  case True
  then obtain k where k: "fid - dec_last_id d = word_of_nat k" "0 < k" "k \<le> 15"
    using small_delta by metis
  define h where "h = push_bit 4 (ucast ((word_of_nat k :: i16) AND 0x0F)) OR (ty AND 0x0F :: u8)"
  note h = field_header_short [OF k(2,3) ty(1), folded h_def]
  have "dec_rest d = h # r"
    using rest True k(1) by (simp add: field_header_bytes_def h_def)
  then obtain rd where b1: "read_byte_raw d = (d\<lparr>dec_reader := rd\<rparr>, h)"
      "dec_wf (d\<lparr>dec_reader := rd\<rparr>)" "dec_rest (d\<lparr>dec_reader := rd\<rparr>) = r"
    using read_byte_raw_Cons [OF wf(1)] by blast
  have nz: "(word_of_nat k :: i16) \<noteq> 0"
    using k by (simp add: word_unat_eq_iff unat_of_nat)
  have fid: "dec_last_id d + word_of_nat k = fid"
    unfolding k(1) [symmetric] by simp
  have l: "dec_last_id (d\<lparr>dec_reader := rd\<rparr>) = dec_last_id d"
    by (simp add: dec_last_id_def)
  have "dec_frame d (d\<lparr>dec_reader := rd\<rparr>)" by (simp add: dec_frame_def)
  with wf b1 h nz fid l show ?thesis
    by (intro exI [of _ "d\<lparr>dec_reader := rd\<rparr>"]) (simp add: thrift_read_field_begin_def dec_entered_def Let_def)
next
  case False
  then have "dec_rest d = ty # varint_bytes (carquet_zigzag_encode64 (scast fid)) @ r"
    using rest ty by (simp only: field_header_bytes_def Let_def if_False append_Cons)
  then obtain rd where b1: "read_byte_raw d = (d\<lparr>dec_reader := rd\<rparr>, ty)"
      "dec_wf (d\<lparr>dec_reader := rd\<rparr>)"
      "dec_rest (d\<lparr>dec_reader := rd\<rparr>) = varint_bytes (carquet_zigzag_encode64 (scast fid)) @ r"
    using read_byte_raw_Cons [OF wf(1)] by blast
  obtain e where e: "thrift_read_i16 (d\<lparr>dec_reader := rd\<rparr>) = (e, fid)" "dec_wf e" "dec_rest e = r"
      "dec_status e = dec_status d"
    using read_i16_bytes [OF b1(2,3)] by auto
  have f: "dec_frame d e"
    using read_i16_frame [OF e(1)] by (simp add: dec_frame_def)
  have z: "drop_bit 4 ty AND 0x0F = 0"
  proof -
    have m: "(0x0F :: u8) = mask 4" by (simp add: mask_eq_exp_minus_1)
    have "drop_bit 4 (ty AND 0x0F) AND 0x0F = 0"
      unfolding m by (rule bit_word_eqI) (auto simp: bit_simps)
    then show ?thesis unfolding ty(1) .
  qed
  show ?thesis
    using wf b1 e f z ty by (intro exI [of _ e]) (simp add: thrift_read_field_begin_def dec_entered_def Let_def)
qed

end
