(* ===== verification/Thrift_Skip.thy ===== *)
theory Thrift_Skip
  imports Thrift_Wire
begin

text \<open>
  \<^verbatim>\<open>thrift_skip\<close> is how every metadata parser ignores fields it does not know. On any
  input it returns, never leaves the input and never clears a recorded error; on
  a well-formed value it consumes exactly that value, whatever its nesting. The
  last section shows the one kind of value for which it does not: a list of
  booleans.
\<close>

section \<open>Skipping: safety and termination\<close>

lemma skip_elems_step:
  assumes "\<And>d d'. body d = Some d' \<Longrightarrow> dec_step d d'"
  shows "skip_elems k body d = Some d' \<Longrightarrow> dec_step d d'"
proof (induction k arbitrary: d)
  case (Suc k)
  then show ?case
    by (auto split: if_splits option.splits intro: dec_step_trans [OF assms])
qed auto

lemma skip_fields_step:
  assumes "\<And>d d' ty. body d ty = Some d' \<Longrightarrow> dec_step d d'"
  shows "skip_fields k body d = Some d' \<Longrightarrow> dec_step d d'"
proof (induction k arbitrary: d)
  case (Suc k)
  obtain d1 res where f: "thrift_read_field_begin d = (d1, res)" by fastforce
  note s = read_field_begin_step [OF f]
  show ?case
  proof (cases res)
    case None
    with Suc.prems f s show ?thesis by simp
  next
    case (Some p)
    then obtain d2 where "body d1 (fst p) = Some d2" "skip_fields k body d2 = Some d'"
      using Suc.prems f by (cases p) (auto split: option.splits)
    then show ?thesis
      using Suc.IH assms s by (blast intro: dec_step_trans)
  qed
qed simp

lemma thrift_skip_depth_step: "thrift_skip_depth n d ty = Some d' \<Longrightarrow> dec_step d d'"
proof (induction n arbitrary: d d' ty)
  case (Suc n)
  have small: "unat (1 :: u64) < 2 ^ 63" "unat (8 :: u64) < 2 ^ 63" "unat (16 :: u64) < 2 ^ 63"
    by simp_all
  have elems: "skip_elems k (\<lambda>e. thrift_skip_depth n e et) e = Some e' \<Longrightarrow> dec_step e e'" for k et e e'
    by (rule skip_elems_step) (rule Suc.IH)
  have pairs: "skip_elems k (\<lambda>e. case thrift_skip_depth n e kt of None \<Rightarrow> None
      | Some x \<Rightarrow> thrift_skip_depth n x vt) e = Some e' \<Longrightarrow> dec_step e e'" for k kt vt e e'
    by (rule skip_elems_step) (auto split: option.splits intro: dec_step_trans Suc.IH)
  have fields: "skip_fields k (thrift_skip_depth n) e = Some e' \<Longrightarrow> dec_step e e'" for k e e'
    by (rule skip_fields_step) (rule Suc.IH)
  have structs: "skip_fields k (thrift_skip_depth n) (thrift_read_struct_begin e) = Some z \<Longrightarrow>
      dec_step e (thrift_read_struct_end z)" for k e z
    by (rule dec_step_trans [OF struct_begin_step dec_step_trans [OF fields struct_end_step]])
  obtain dv v where v: "thrift_read_varint d = (dv, v)" by fastforce
  obtain db x where b: "thrift_read_binary d = (db, x)" by (metis surj_pair)
  obtain dl et c where l: "thrift_read_list_begin d = (dl, et, c)" by (metis prod_cases3)
  obtain dm kt vt c' where m: "thrift_read_map_begin d = (dm, kt, vt, c')" by (metis prod_cases4)
  note steps = read_varint_step [OF v] read_binary_step [OF b]
    read_list_begin_step_frame [OF l] read_map_begin_step_frame [OF m]
    dec_skip_step [OF small(1), of d] dec_skip_step [OF small(2), of d] dec_skip_step [OF small(3), of d]
    dec_set_error_step [of d] bool_flags_step(1) [of d]
  show ?case
    using Suc.prems steps
    by (auto simp: v b l m Let_def simp del: skip_fields.simps skip_elems.simps split: if_splits
        intro: dec_step_trans elems pairs structs)
qed simp

subsection \<open>Termination\<close>

lemma read_list_begin_progress:
  assumes "dec_wf d" "thrift_read_list_begin d = (d', et, c)"
  shows "c = 0 \<or> length (dec_rest d') < length (dec_rest d)"
proof (cases "dec_rest d")
  case Nil
  then show ?thesis
    using assms by (auto simp: thrift_read_list_begin_def read_byte_raw_Nil Let_def split: if_splits)
next
  case (Cons b bs)
  obtain rd where r: "read_byte_raw d = (d\<lparr>dec_reader := rd\<rparr>, b)"
      "dec_wf (d\<lparr>dec_reader := rd\<rparr>)" "dec_rest (d\<lparr>dec_reader := rd\<rparr>) = bs"
    using read_byte_raw_Cons [OF assms(1) Cons] by blast
  obtain d2 n where v: "thrift_read_varint (d\<lparr>dec_reader := rd\<rparr>) = (d2, n)" by fastforce
  have "length (dec_rest d2) \<le> length bs"
    using dec_step_rest_le [OF read_varint_step [OF v] r(2)] r(3) by simp
  then have "length (dec_rest d') \<le> length bs"
    using assms(2) r v by (auto simp: thrift_read_list_begin_def Let_def split: if_splits)
  then show ?thesis using Cons by simp
qed

lemma read_map_begin_progress:
  assumes "dec_wf d" "dec_status d = CARQUET_OK" "thrift_read_map_begin d = (d', kt, vt, c)"
  shows "c = 0 \<or> length (dec_rest d') < length (dec_rest d)"
proof -
  obtain d1 n where v: "thrift_read_varint d = (d1, n)" by fastforce
  obtain d2 h where b: "read_byte_raw d1 = (d2, h)" by fastforce
  have "length (dec_rest d2) \<le> length (dec_rest d1)"
    using dec_step_rest_le [OF read_byte_raw_step [OF b]] dec_step_wf [OF read_varint_step [OF v]]
      assms(1) by simp
  then show ?thesis
    using read_varint_progress [OF assms(1,2) v] assms(3) v b
    by (auto simp: thrift_read_map_begin_def Let_def split: if_splits)
qed

lemma read_field_begin_progress:
  assumes "dec_wf d" "thrift_read_field_begin d = (d', Some p)"
  shows "length (dec_rest d') < length (dec_rest d)"
proof (cases "dec_rest d")
  case Nil
  then show ?thesis
    using assms by (auto simp: thrift_read_field_begin_def read_byte_raw_Nil Let_def split: if_splits)
next
  case (Cons b bs)
  obtain rd where r: "read_byte_raw d = (d\<lparr>dec_reader := rd\<rparr>, b)"
      "dec_wf (d\<lparr>dec_reader := rd\<rparr>)" "dec_rest (d\<lparr>dec_reader := rd\<rparr>) = bs"
    using read_byte_raw_Cons [OF assms(1) Cons] by blast
  obtain d2 f where v: "thrift_read_i16 (d\<lparr>dec_reader := rd\<rparr>) = (d2, f)" by fastforce
  have "length (dec_rest d2) \<le> length bs"
    using dec_step_rest_le [OF read_i16_step [OF v] r(2)] r(3) by simp
  moreover have "dec_rest (dec_set_last_id e fid) = dec_rest e"
    "dec_rest (e\<lparr>dec_bool_pending := x, dec_bool_value := y\<rparr>) = dec_rest e" for e fid x y
    by (simp_all add: dec_set_last_id_def dec_rest_def)
  ultimately have "length (dec_rest d') \<le> length bs"
    using assms(2) r v by (auto simp: thrift_read_field_begin_def Let_def split: if_splits)
  then show ?thesis using Cons by simp
qed

lemma skip_elems_total:
  assumes step: "\<And>d d'. body d = Some d' \<Longrightarrow> dec_step d d'"
    and total: "\<And>d. dec_wf d \<Longrightarrow> length (dec_rest d) < m \<Longrightarrow> body d \<noteq> None"
  shows "dec_wf d \<Longrightarrow> k = 0 \<or> length (dec_rest d) < m \<Longrightarrow> skip_elems k body d \<noteq> None"
proof (induction k arbitrary: d)
  case (Suc k)
  show ?case
  proof (cases "body d")
    case None
    with Suc.prems total [of d] show ?thesis by simp
  next
    case (Some d')
    then have "dec_wf d'" "length (dec_rest d') < m"
      using step dec_step_wf dec_step_rest_le Suc.prems by fastforce+
    with Some Suc.IH [of d'] show ?thesis by simp
  qed
qed simp

lemma skip_fields_total:
  assumes step: "\<And>d d' ty. body d ty = Some d' \<Longrightarrow> dec_step d d'"
    and total: "\<And>d ty. dec_wf d \<Longrightarrow> length (dec_rest d) < m \<Longrightarrow> body d ty \<noteq> None"
  shows "dec_wf d \<Longrightarrow> length (dec_rest d) \<le> m \<Longrightarrow> length (dec_rest d) < k \<Longrightarrow>
    skip_fields k body d \<noteq> None"
proof (induction k arbitrary: d)
  case (Suc k)
  obtain d1 res where f: "thrift_read_field_begin d = (d1, res)" by fastforce
  have wf1: "dec_wf d1"
    using dec_step_wf [OF read_field_begin_step [OF f]] Suc.prems by simp
  show ?case
  proof (cases res)
    case None
    with f show ?thesis by simp
  next
    case (Some p)
    have less: "length (dec_rest d1) < length (dec_rest d)"
      using read_field_begin_progress [of d d1 p] Suc.prems f Some by simp
    then obtain d2 where d2: "body d1 (fst p) = Some d2"
      using total [OF wf1, of "fst p"] Suc.prems by fastforce
    with step wf1 have "dec_wf d2" "length (dec_rest d2) \<le> length (dec_rest d1)"
      using dec_step_wf dec_step_rest_le by blast+
    with Suc.IH [of d2] less Suc.prems d2 f Some show ?thesis
      by (cases p) simp
  qed
qed simp

lemma thrift_skip_depth_total:
  "dec_wf d \<Longrightarrow> length (dec_rest d) < n \<Longrightarrow> thrift_skip_depth n d ty \<noteq> None"
proof (induction n arbitrary: d ty)
  case (Suc n)
  show ?case
  proof (cases "dec_status d = CARQUET_OK")
    case True
    obtain dl et c where l: "thrift_read_list_begin d = (dl, et, c)" by (metis prod_cases3)
    obtain dm kt vt c' where m: "thrift_read_map_begin d = (dm, kt, vt, c')" by (metis prod_cases4)
    have wfl: "dec_wf dl" and wfm: "dec_wf dm"
      using read_list_begin_step_frame [OF l] read_map_begin_step_frame [OF m] Suc.prems dec_step_wf
      by blast+
    have lists: "skip_elems (unat c) (\<lambda>e. thrift_skip_depth n e et) dl \<noteq> None"
    proof (rule skip_elems_total [where m = n])
      show "unat c = 0 \<or> length (dec_rest dl) < n"
        using read_list_begin_progress [OF Suc.prems(1) l] Suc.prems(2) by auto
    qed (use wfl Suc.IH thrift_skip_depth_step in auto)
    have maps: "skip_elems (unat c') (\<lambda>e. case thrift_skip_depth n e kt of None \<Rightarrow> None
        | Some x \<Rightarrow> thrift_skip_depth n x vt) dm \<noteq> None"
    proof (rule skip_elems_total [where m = n])
      show "unat c' = 0 \<or> length (dec_rest dm) < n"
        using read_map_begin_progress [OF Suc.prems(1) True m] Suc.prems(2) by auto
      fix e assume e: "dec_wf e" "length (dec_rest e) < n"
      then obtain x where x: "thrift_skip_depth n e kt = Some x"
        using Suc.IH by blast
      then have "dec_wf x" "length (dec_rest x) < n"
        using thrift_skip_depth_step [OF x] dec_step_wf dec_step_rest_le e by fastforce+
      with x Suc.IH show "(case thrift_skip_depth n e kt of None \<Rightarrow> None
        | Some x \<Rightarrow> thrift_skip_depth n x vt) \<noteq> None" by simp
    qed (use wfm in \<open>auto split: option.splits intro: dec_step_trans thrift_skip_depth_step\<close>)
    let ?s = "thrift_read_struct_begin d"
    have wfs: "dec_wf ?s" "length (dec_rest ?s) \<le> length (dec_rest d)"
      using struct_begin_step Suc.prems(1) dec_step_wf dec_step_rest_le by blast+
    have structs: "skip_fields (Suc (dec_remaining ?s)) (thrift_skip_depth n) ?s \<noteq> None"
      using wfs Suc.prems
      by (intro skip_fields_total [where m = n])
        (auto simp: dec_remaining_rest intro: thrift_skip_depth_step dest: Suc.IH)
    show ?thesis
      using lists maps structs by (auto simp: l m Let_def)
  qed simp
qed simp

section \<open>Wire values\<close>

datatype tvalue =
    TVBool bool
  | TVByte i8
  | TVI16 i16
  | TVI32 i32
  | TVI64 i64
  | TVDouble u64
  | TVBinary bytes
  | TVList thrift_type tvalues
  | TVSet thrift_type tvalues
  | TVMap thrift_type thrift_type tpairs
  | TVStruct tfields
  | TVUuid bytes
and tvalues = VNil | VCons tvalue tvalues
and tpairs = PNil | PCons tvalue tvalue tpairs
and tfields = FNil | FCons i16 tvalue tfields

primrec tv_type :: "tvalue \<Rightarrow> thrift_type" where
  "tv_type (TVBool b) = (if b then THRIFT_TYPE_TRUE else THRIFT_TYPE_FALSE)"
| "tv_type (TVByte b) = THRIFT_TYPE_BYTE"
| "tv_type (TVI16 v) = THRIFT_TYPE_I16"
| "tv_type (TVI32 v) = THRIFT_TYPE_I32"
| "tv_type (TVI64 v) = THRIFT_TYPE_I64"
| "tv_type (TVDouble v) = THRIFT_TYPE_DOUBLE"
| "tv_type (TVBinary d) = THRIFT_TYPE_BINARY"
| "tv_type (TVList et vs) = THRIFT_TYPE_LIST"
| "tv_type (TVSet et vs) = THRIFT_TYPE_SET"
| "tv_type (TVMap kt vt kvs) = THRIFT_TYPE_MAP"
| "tv_type (TVStruct fs) = THRIFT_TYPE_STRUCT"
| "tv_type (TVUuid u) = THRIFT_TYPE_UUID"

fun tvs_length :: "tvalues \<Rightarrow> nat" where
  "tvs_length VNil = 0"
| "tvs_length (VCons v vs) = Suc (tvs_length vs)"

fun tps_length :: "tpairs \<Rightarrow> nat" where
  "tps_length PNil = 0"
| "tps_length (PCons k v kvs) = Suc (tps_length kvs)"

primrec tv_bytes :: "tvalue \<Rightarrow> bytes"
  and tvs_bytes :: "tvalues \<Rightarrow> bytes"
  and tps_bytes :: "tpairs \<Rightarrow> bytes"
  and tfs_bytes :: "tfields \<Rightarrow> i16 \<Rightarrow> bytes" where
  "tv_bytes (TVBool b) = []"
| "tv_bytes (TVByte b) = [b]"
| "tv_bytes (TVI16 v) = varint_bytes (carquet_zigzag_encode64 (scast v))"
| "tv_bytes (TVI32 v) = varint_bytes (carquet_zigzag_encode64 (scast v))"
| "tv_bytes (TVI64 v) = varint_bytes (carquet_zigzag_encode64 v)"
| "tv_bytes (TVDouble v) = carquet_write_u64_le v"
| "tv_bytes (TVBinary d) = varint_bytes (word_of_nat (length d) :: u64) @ d"
| "tv_bytes (TVList et vs) = list_header_bytes et (tvs_length vs) @ tvs_bytes vs"
| "tv_bytes (TVSet et vs) = list_header_bytes et (tvs_length vs) @ tvs_bytes vs"
| "tv_bytes (TVMap kt vt kvs) =
     (if kvs = PNil then [0]
      else varint_bytes (word_of_nat (tps_length kvs) :: u64) @
           (push_bit 4 (kt AND 0x0F) OR (vt AND 0x0F)) # tps_bytes kvs)"
| "tv_bytes (TVStruct fs) = tfs_bytes fs 0"
| "tv_bytes (TVUuid u) = u"
| "tvs_bytes VNil = []"
| "tvs_bytes (VCons v vs) = tv_bytes v @ tvs_bytes vs"
| "tps_bytes PNil = []"
| "tps_bytes (PCons k v kvs) = tv_bytes k @ tv_bytes v @ tps_bytes kvs"
| "tfs_bytes FNil last_id = [0]"
| "tfs_bytes (FCons fid v fs) last_id =
     field_header_bytes last_id (tv_type v) fid @ tv_bytes v @ tfs_bytes fs fid"

definition is_tvbool :: "tvalue \<Rightarrow> bool" where
  "is_tvbool v = (case v of TVBool b \<Rightarrow> True | _ \<Rightarrow> False)"

text \<open>\<open>tv_ok v n\<close>: lengths fit, containers are homogeneous and hold no booleans, and
  structs nest at most \<open>n\<close> deep.\<close>

primrec tv_ok :: "tvalue \<Rightarrow> nat \<Rightarrow> bool"
  and tvs_ok :: "tvalues \<Rightarrow> thrift_type \<Rightarrow> nat \<Rightarrow> bool"
  and tps_ok :: "tpairs \<Rightarrow> thrift_type \<Rightarrow> thrift_type \<Rightarrow> nat \<Rightarrow> bool"
  and tfs_ok :: "tfields \<Rightarrow> nat \<Rightarrow> bool" where
  "tv_ok (TVBool b) n = True"
| "tv_ok (TVByte b) n = True"
| "tv_ok (TVI16 v) n = True"
| "tv_ok (TVI32 v) n = True"
| "tv_ok (TVI64 v) n = True"
| "tv_ok (TVDouble v) n = True"
| "tv_ok (TVBinary d) n = (length d < 2 ^ 31)"
| "tv_ok (TVList et vs) n = (tvs_length vs < 2 ^ 31 \<and> tvs_ok vs et n)"
| "tv_ok (TVSet et vs) n = (tvs_length vs < 2 ^ 31 \<and> tvs_ok vs et n)"
| "tv_ok (TVMap kt vt kvs) n = (tps_length kvs < 2 ^ 31 \<and> tps_ok kvs kt vt n)"
| "tv_ok (TVStruct fs) n = (0 < n \<and> tfs_ok fs (n - 1))"
| "tv_ok (TVUuid u) n = (length u = 16)"
| "tvs_ok VNil et n = True"
| "tvs_ok (VCons v vs) et n =
     (\<not> is_tvbool v \<and> tv_type v = et \<and> tv_ok v n \<and> tvs_ok vs et n)"
| "tps_ok PNil kt vt n = True"
| "tps_ok (PCons k v kvs) kt vt n =
     (\<not> is_tvbool k \<and> tv_type k = kt \<and> tv_ok k n \<and>
      \<not> is_tvbool v \<and> tv_type v = vt \<and> tv_ok v n \<and> tps_ok kvs kt vt n)"
| "tfs_ok FNil n = True"
| "tfs_ok (FCons fid v fs) n = (tv_ok v n \<and> tfs_ok fs n)"

lemma tv_type_nibble: "tv_type v AND 0x0F = tv_type v" "tv_type v \<noteq> 0"
  by (cases v; simp)+

lemma tv_bytes_not_Nil: "\<not> is_tvbool v \<Longrightarrow> tv_ok v n \<Longrightarrow> tv_bytes v \<noteq> []"
proof (cases v)
  case (TVStruct fs)
  then show ?thesis
    by (cases fs) (auto simp: field_header_bytes_def Let_def)
qed (auto simp: is_tvbool_def list_header_bytes_def varint_bytes_not_Nil carquet_write_u64_le_def)

lemma tvs_length_le: "tvs_ok vs et n \<Longrightarrow> tvs_length vs \<le> length (tvs_bytes vs)"
proof (induction vs rule: tvs_length.induct)
  case (2 v vs)
  then have "tv_bytes v \<noteq> []" using tv_bytes_not_Nil [of v n] by simp
  then obtain b bs where "tv_bytes v = b # bs" by (cases "tv_bytes v") auto
  with 2 show ?case by simp
qed simp_all

lemma tps_length_le: "tps_ok kvs kt vt n \<Longrightarrow> tps_length kvs \<le> length (tps_bytes kvs)"
proof (induction kvs rule: tps_length.induct)
  case (2 k v kvs)
  then have "tv_bytes v \<noteq> []" using tv_bytes_not_Nil [of v n] by simp
  then obtain b bs where "tv_bytes v = b # bs" by (cases "tv_bytes v") auto
  with 2 show ?case by simp
qed simp_all

text \<open>What skipping keeps: the open structs and their last field ids.\<close>

definition dec_keeps :: "thrift_decoder \<Rightarrow> thrift_decoder \<Rightarrow> bool" where
  "dec_keeps d d' \<longleftrightarrow> dec_nesting_level d' = dec_nesting_level d \<and>
     take (dec_nesting_level d) (dec_last_field_id d') = take (dec_nesting_level d) (dec_last_field_id d)"

definition skipped :: "thrift_decoder \<Rightarrow> bytes \<Rightarrow> thrift_decoder \<Rightarrow> bool" where
  "skipped d r d' \<longleftrightarrow> dec_wf d' \<and> dec_status d' = CARQUET_OK \<and> dec_rest d' = r \<and> dec_keeps d d'"

lemma dec_keeps_frame: "dec_frame d d' \<Longrightarrow> dec_keeps d d'"
  by (simp add: dec_frame_def dec_keeps_def)

lemma dec_keeps_last_id: "dec_keeps a b \<Longrightarrow> dec_last_id b = dec_last_id a"
proof -
  assume k: "dec_keeps a b"
  let ?l = "dec_nesting_level a"
  have "dec_last_field_id b ! (?l - 1) = dec_last_field_id a ! (?l - 1)" if "0 < ?l"
  proof -
    have "dec_last_field_id b ! (?l - 1) = take ?l (dec_last_field_id b) ! (?l - 1)"
      using that by simp
    also have "\<dots> = take ?l (dec_last_field_id a) ! (?l - 1)"
      using k by (simp only: dec_keeps_def)
    finally show ?thesis using that by simp
  qed
  with k show ?thesis
    by (auto simp: dec_last_id_def dec_keeps_def)
qed

lemma dec_keeps_trans: "dec_keeps a b \<Longrightarrow> dec_keeps b c \<Longrightarrow> dec_keeps a c"
  by (simp add: dec_keeps_def)

lemma skipped_trans: "dec_keeps a b \<Longrightarrow> skipped b r c \<Longrightarrow> skipped a r c"
  by (auto simp: skipped_def intro: dec_keeps_trans)
lemma skip_varint_exact:
  assumes "dec_wf d" "dec_status d = CARQUET_OK" "dec_rest d = varint_bytes (v :: u64) @ r"
  shows "skipped d r (fst (thrift_read_varint d))"
proof -
  obtain d' where d': "thrift_read_varint d = (d', v)" "dec_wf d'" "dec_rest d' = r"
      "dec_status d' = dec_status d"
    using read_varint_bytes [OF assms(1,3)] by blast
  with read_varint_frame [OF d'(1)] assms(2) show ?thesis
    by (simp add: skipped_def dec_keeps_frame)
qed

lemma skip_binary_exact:
  assumes "dec_wf d" "dec_status d = CARQUET_OK" "length x < 2 ^ 31"
    "dec_rest d = varint_bytes (word_of_nat (length x) :: u64) @ x @ r"
  shows "skipped d r (fst (thrift_read_binary d))"
proof -
  obtain d' where d': "thrift_read_binary d = (d', Some x, word_of_nat (length x))" "dec_wf d'"
      "dec_rest d' = r" "dec_status d' = dec_status d"
    using read_binary_bytes [OF assms(1,4,3)] by blast
  with read_binary_frame [OF d'(1)] assms(2) show ?thesis
    by (simp add: skipped_def dec_keeps_frame)
qed

lemma skip_bytes_exact:
  assumes "dec_wf d" "dec_status d = CARQUET_OK" "dec_rest d = x @ r" "unat n = length x"
  shows "skipped d r (dec_skip d n)"
  using dec_skip_ok [OF assms(1), of n] assms
  by (simp add: skipped_def dec_keeps_frame dec_skip_frame)

definition tv_scalar :: "tvalue \<Rightarrow> bool" where
  "tv_scalar v = (case v of TVList _ _ \<Rightarrow> False | TVSet _ _ \<Rightarrow> False | TVMap _ _ _ \<Rightarrow> False
     | TVStruct _ \<Rightarrow> False | _ \<Rightarrow> True)"

lemma skip_scalar_exact:
  assumes "dec_wf d" "dec_status d = CARQUET_OK" "dec_rest d = tv_bytes v @ r" "tv_ok v m"
    "tv_scalar v" "thrift_skip_depth n' d (tv_type v) = Some d'"
  shows "skipped d r d'"
proof -
  obtain n where n: "n' = Suc n" using assms(6) by (cases n') auto
  show ?thesis
  proof (cases v)
  case (TVBool b)
  with assms n show ?thesis
    by (cases b) (auto simp: skipped_def dec_keeps_def dec_wf_def dec_rest_def)
next
  case (TVByte b)
  with assms n skip_bytes_exact [of d "[b]" r 1] show ?thesis by simp
next
  case (TVDouble x)
  with assms n skip_bytes_exact [of d "carquet_write_u64_le x" r 8] show ?thesis by simp
next
  case (TVUuid u)
  with assms n skip_bytes_exact [of d u r 16] show ?thesis by simp
next
  case (TVBinary x)
  with assms n skip_binary_exact [of d x r] show ?thesis by simp
next
  case (TVI16 x)
  with assms n skip_varint_exact [of d _ r] show ?thesis by simp
next
  case (TVI32 x)
  with assms n skip_varint_exact [of d _ r] show ?thesis by simp
next
  case (TVI64 x)
  with assms n skip_varint_exact [of d _ r] show ?thesis by simp
  qed (use assms in \<open>simp_all add: tv_scalar_def\<close>)
qed

definition fields_skipped :: "thrift_decoder \<Rightarrow> bytes \<Rightarrow> thrift_decoder \<Rightarrow> bool" where
  "fields_skipped d r d' \<longleftrightarrow> dec_wf d' \<and> dec_status d' = CARQUET_OK \<and> dec_rest d' = r \<and>
     dec_nesting_level d' = dec_nesting_level d \<and>
     take (dec_nesting_level d - 1) (dec_last_field_id d') =
       take (dec_nesting_level d - 1) (dec_last_field_id d)"

lemma skip_list_exact:
  assumes d: "dec_wf d" "dec_status d = CARQUET_OK" "dec_rest d = list_header_bytes et (tvs_length vs) @ tvs_bytes vs @ r"
    and ok: "tvs_length vs < 2 ^ 31" "tvs_ok vs et m" 
    and et: "vs \<noteq> VNil \<Longrightarrow> et AND 0x0F = et"
    and elems: "\<And>d d'. dec_wf d \<Longrightarrow> dec_status d = CARQUET_OK \<Longrightarrow> dec_rest d = tvs_bytes vs @ r \<Longrightarrow>
      dec_nesting_level d = nl \<Longrightarrow>
      skip_elems (tvs_length vs) (\<lambda>e. thrift_skip_depth n e et) d = Some d' \<Longrightarrow> skipped d r d'"
    and nl: "dec_nesting_level d = nl"
    and ty: "ty = THRIFT_TYPE_LIST \<or> ty = THRIFT_TYPE_SET"
    and s: "thrift_skip_depth (Suc n) d ty = Some d'"
  shows "skipped d r d'"
proof -
  have le: "tvs_length vs \<le> length (tvs_bytes vs @ r)"
    using tvs_length_le [OF ok(2)] by simp
  obtain d1 where d1: "thrift_read_list_begin d = (d1, et AND 0x0F, word_of_nat (tvs_length vs))"
      "dec_wf d1" "dec_rest d1 = tvs_bytes vs @ r" "dec_status d1 = dec_status d"
    using read_list_begin_bytes [OF d(1,3) ok(1) le] by blast
  have u: "unat (word_of_nat (tvs_length vs) :: i32) = tvs_length vs"
    using ok by (simp add: unat_of_nat)
  have f: "dec_frame d d1"
    using read_list_begin_step_frame [OF d1(1)] by blast
  have "skip_elems (tvs_length vs) (\<lambda>e. thrift_skip_depth n e et) d1 = Some d'"
    using s ty d(2) d1(1) et u by (cases "vs = VNil") auto
  then have "skipped d1 r d'"
    using d1 d(2) f nl by (intro elems) (auto simp: dec_frame_def)
  then show ?thesis
    using dec_keeps_frame [OF f] skipped_trans by blast
qed

lemma skip_map_exact:
  assumes d: "dec_wf d" "dec_status d = CARQUET_OK" "dec_rest d = tv_bytes (TVMap kt vt kvs) @ r"
    and ok: "tps_length kvs < 2 ^ 31" "tps_ok kvs kt vt m" 
    and t: "kvs \<noteq> PNil \<Longrightarrow> kt AND 0x0F = kt \<and> vt AND 0x0F = vt"
    and elems: "\<And>d d'. dec_wf d \<Longrightarrow> dec_status d = CARQUET_OK \<Longrightarrow> dec_rest d = tps_bytes kvs @ r \<Longrightarrow>
      dec_nesting_level d = nl \<Longrightarrow>
      skip_elems (tps_length kvs) (\<lambda>e. case thrift_skip_depth n e kt of None \<Rightarrow> None
        | Some x \<Rightarrow> thrift_skip_depth n x vt) d = Some d' \<Longrightarrow> skipped d r d'"
    and nl: "dec_nesting_level d = nl"
    and s: "thrift_skip_depth (Suc n) d THRIFT_TYPE_MAP = Some d'"
  shows "skipped d r d'"
proof (cases "kvs = PNil")
  case True
  have z: "varint_bytes (0 :: u64) = [0]" by code_simp
  obtain d1 where d1: "thrift_read_varint d = (d1, 0)" "dec_wf d1" "dec_rest d1 = r"
      "dec_status d1 = dec_status d"
    using read_varint_bytes [OF d(1), of 0 r] d(3) True z by auto
  with s d(2) have "d' = d1" by (auto simp: thrift_read_map_begin_def)
  with d1 d(2) read_varint_frame [OF d1(1)] show ?thesis
    by (simp add: skipped_def dec_keeps_frame)
next
  case False
  have le: "tps_length kvs \<le> length (tps_bytes kvs @ r)"
    using tps_length_le [OF ok(2)] by simp
  have pos: "0 < tps_length kvs" using False by (cases kvs) auto
  have rest: "dec_rest d = varint_bytes (word_of_nat (tps_length kvs) :: u64) @
      (push_bit 4 (kt AND 0x0F) OR (vt AND 0x0F)) # (tps_bytes kvs @ r)"
    using d(3) False by simp
  obtain d1 where d1: "thrift_read_map_begin d = (d1, kt AND 0x0F, vt AND 0x0F, word_of_nat (tps_length kvs))"
      "dec_wf d1" "dec_rest d1 = tps_bytes kvs @ r" "dec_status d1 = dec_status d"
    using read_map_begin_bytes [OF d(1) rest pos ok(1) le] by blast
  have u: "unat (word_of_nat (tps_length kvs) :: i32) = tps_length kvs"
    using ok by (simp add: unat_of_nat)
  have f: "dec_frame d d1"
    using read_map_begin_step_frame [OF d1(1)] by blast
  have "skip_elems (tps_length kvs) (\<lambda>e. case thrift_skip_depth n e kt of None \<Rightarrow> None
      | Some x \<Rightarrow> thrift_skip_depth n x vt) d1 = Some d'"
    using s d(2) d1(1) t [OF False] u by auto
  then have "skipped d1 r d'"
    using d1 d(2) f nl by (intro elems) (auto simp: dec_frame_def)
  then show ?thesis
    using dec_keeps_frame [OF f] skipped_trans by blast
qed

lemma skip_struct_exact:
  assumes d: "dec_wf d" "dec_status d = CARQUET_OK" "dec_rest d = tfs_bytes fs 0 @ r"
    and nl: "dec_nesting_level d < THRIFT_MAX_NESTING"
    and fields: "\<And>k d0 d'. dec_wf d0 \<Longrightarrow> dec_status d0 = CARQUET_OK \<Longrightarrow>
      dec_rest d0 = tfs_bytes fs (dec_last_id d0) @ r \<Longrightarrow> dec_nesting_level d0 = Suc (dec_nesting_level d) \<Longrightarrow>
      skip_fields k (thrift_skip_depth n) d0 = Some d' \<Longrightarrow> fields_skipped d0 r d'"
    and s: "thrift_skip_depth (Suc n) d THRIFT_TYPE_STRUCT = Some d'"
  shows "skipped d r d'"
proof -
  let ?d = "thrift_read_struct_begin d"
  have b: "dec_wf ?d" "dec_status ?d = CARQUET_OK" "dec_rest ?d = tfs_bytes fs 0 @ r"
      "dec_nesting_level ?d = Suc (dec_nesting_level d)" "dec_last_id ?d = 0"
      "take (dec_nesting_level d) (dec_last_field_id ?d) = take (dec_nesting_level d) (dec_last_field_id d)"
    using d nl by (auto simp: thrift_read_struct_begin_def dec_wf_def dec_rest_def dec_last_id_def)
  obtain k d1 where d1: "skip_fields k (thrift_skip_depth n) ?d = Some d1" "d' = thrift_read_struct_end d1"
    using s d(2) by (auto simp: Let_def simp del: skip_fields.simps)
  have "fields_skipped ?d r d1"
    using b d1 by (intro fields) auto
  then show ?thesis
    using b d1(2) by (auto simp: fields_skipped_def skipped_def dec_keeps_def thrift_read_struct_end_def
        dec_wf_def dec_rest_def)
qed

lemma skip_fields_Nil_exact:
  assumes "dec_wf d" "dec_status d = CARQUET_OK" "dec_rest d = 0 # r"
    "skip_fields k body d = Some d'"
  shows "fields_skipped d r d'"
proof -
  obtain rd where b1: "read_byte_raw d = (d\<lparr>dec_reader := rd\<rparr>, 0)"
      "dec_wf (d\<lparr>dec_reader := rd\<rparr>)" "dec_rest (d\<lparr>dec_reader := rd\<rparr>) = r"
    using read_byte_raw_Cons [OF assms(1,3)] by blast
  from assms(2,4) b1 show ?thesis
    by (cases k) (auto simp: thrift_read_field_begin_def fields_skipped_def)
qed

lemma skip_fields_Cons_exact:
  assumes d: "dec_wf d" "dec_status d = CARQUET_OK" "0 < dec_nesting_level d"
      "dec_rest d = field_header_bytes (dec_last_id d) (tv_type v) fid @ r0"
    and head: "\<And>d0 d'. dec_wf d0 \<Longrightarrow> dec_status d0 = CARQUET_OK \<Longrightarrow> dec_rest d0 = r0 \<Longrightarrow>
      dec_nesting_level d0 = dec_nesting_level d \<Longrightarrow> body d0 (tv_type v) = Some d' \<Longrightarrow> skipped d0 r1 d'"
    and tail: "\<And>k d0 d'. dec_wf d0 \<Longrightarrow> dec_status d0 = CARQUET_OK \<Longrightarrow> dec_rest d0 = r1 \<Longrightarrow>
      dec_last_id d0 = fid \<Longrightarrow> dec_nesting_level d0 = dec_nesting_level d \<Longrightarrow>
      skip_fields k body d0 = Some d' \<Longrightarrow> fields_skipped d0 r d'"
    and s: "skip_fields k body d = Some d'"
  shows "fields_skipped d r d'"
proof -
  obtain e where e: "thrift_read_field_begin d = (dec_entered e (tv_type v) fid, Some (tv_type v, fid))"
      "dec_wf e" "dec_rest e = r0" "dec_status e = CARQUET_OK" "dec_frame d e"
    using read_field_begin_bytes [OF d tv_type_nibble] by blast
  let ?e = "dec_entered e (tv_type v) fid"
  obtain k' d1 where k': "body ?e (tv_type v) = Some d1" "skip_fields k' body d1 = Some d'"
    using s e(1) by (cases k) (auto split: option.splits)
  have nl: "dec_nesting_level e = dec_nesting_level d"
    using e(5) by (simp add: dec_frame_def)
  have sk: "skipped ?e r1 d1"
    using e nl k' by (intro head) auto
  then have "dec_last_id d1 = dec_last_id ?e"
    by (simp add: skipped_def dec_keeps_last_id)
  then have "dec_last_id d1 = fid"
    using dec_entered_last_id [OF e(2)] nl d(3) by simp
  then have fs: "fields_skipped d1 r d'"
    using sk nl k' by (intro tail) (auto simp: skipped_def dec_keeps_def)
  have "take (dec_nesting_level d - 1) (dec_last_field_id d1) = take (dec_nesting_level d - 1) (dec_last_field_id d)"
  proof -
    have "take (dec_nesting_level d - 1) (take (dec_nesting_level d) (dec_last_field_id d1))
        = take (dec_nesting_level d - 1) (take (dec_nesting_level d) (dec_last_field_id ?e))"
      using sk nl by (simp add: skipped_def dec_keeps_def)
    then have "take (dec_nesting_level d - 1) (dec_last_field_id d1) = take (dec_nesting_level d - 1) (dec_last_field_id ?e)"
      by (simp add: min_def)
    also have "\<dots> = take (dec_nesting_level d - 1) (dec_last_field_id e)"
      using dec_entered_simps(6) [of e] nl by simp
    finally show ?thesis using e(5) by (simp add: dec_frame_def)
  qed
  then show ?thesis
    using fs sk nl by (simp add: fields_skipped_def skipped_def dec_keeps_def)
qed

lemma skip_exact:
  "dec_wf d \<Longrightarrow> dec_status d = CARQUET_OK \<Longrightarrow> dec_rest d = tv_bytes v @ r \<Longrightarrow> tv_ok v m \<Longrightarrow>
     dec_nesting_level d + m \<le> THRIFT_MAX_NESTING \<Longrightarrow>
     thrift_skip_depth n d (tv_type v) = Some d' \<Longrightarrow> skipped d r d'"
  "dec_wf d \<Longrightarrow> dec_status d = CARQUET_OK \<Longrightarrow> dec_rest d = tvs_bytes vs @ r \<Longrightarrow> tvs_ok vs et m \<Longrightarrow>
     dec_nesting_level d + m \<le> THRIFT_MAX_NESTING \<Longrightarrow>
     skip_elems (tvs_length vs) (\<lambda>e. thrift_skip_depth n e et) d = Some d' \<Longrightarrow> skipped d r d'"
  "dec_wf d \<Longrightarrow> dec_status d = CARQUET_OK \<Longrightarrow> dec_rest d = tps_bytes kvs @ r \<Longrightarrow> tps_ok kvs kt vt m \<Longrightarrow>
     dec_nesting_level d + m \<le> THRIFT_MAX_NESTING \<Longrightarrow>
     skip_elems (tps_length kvs) (\<lambda>e. case thrift_skip_depth n e kt of None \<Rightarrow> None
        | Some x \<Rightarrow> thrift_skip_depth n x vt) d = Some d' \<Longrightarrow> skipped d r d'"
  "dec_wf d \<Longrightarrow> dec_status d = CARQUET_OK \<Longrightarrow> 0 < dec_nesting_level d \<Longrightarrow>
     dec_rest d = tfs_bytes fs (dec_last_id d) @ r \<Longrightarrow> tfs_ok fs m \<Longrightarrow>
     dec_nesting_level d + m \<le> THRIFT_MAX_NESTING \<Longrightarrow>
     skip_fields k (thrift_skip_depth n) d = Some d' \<Longrightarrow> fields_skipped d r d'"
proof (induction v and vs and kvs and fs arbitrary: d d' r m n and d d' r et m n
    and d d' r kt vt m n and d d' r m n k)
  case (TVList et vs)
  then obtain n' where n: "n = Suc n'" by (cases n) auto
  have et: "vs \<noteq> VNil \<Longrightarrow> et AND 0x0F = et"
    using TVList.prems(4) tv_type_nibble(1) by (cases vs) auto
  show ?case
    using TVList n et by (intro skip_list_exact [of d et vs r m "dec_nesting_level d" n' 9 d']) auto
next
  case (TVSet et vs)
  then obtain n' where n: "n = Suc n'" by (cases n) auto
  have et: "vs \<noteq> VNil \<Longrightarrow> et AND 0x0F = et"
    using TVSet.prems(4) tv_type_nibble(1) by (cases vs) auto
  show ?case
    using TVSet n et by (intro skip_list_exact [of d et vs r m "dec_nesting_level d" n' 10 d']) auto
next
  case (TVMap kt vt kvs)
  then obtain n' where n: "n = Suc n'" by (cases n) auto
  have "kvs \<noteq> PNil \<Longrightarrow> kt AND 0x0F = kt \<and> vt AND 0x0F = vt"
    using TVMap.prems(4) tv_type_nibble(1) by (cases kvs) auto
  with TVMap n show ?case
    by (intro skip_map_exact [of d kt vt kvs r m "dec_nesting_level d" n' d']) auto
next
  case (TVStruct fs)
  then obtain n' where n: "n = Suc n'" by (cases n) auto
  show ?case
    using TVStruct n by (intro skip_struct_exact [of d fs r n' d']) auto
next
  case (VCons v vs)
  then obtain e where e: "thrift_skip_depth n d et = Some e"
      "skip_elems (tvs_length vs) (\<lambda>e. thrift_skip_depth n e et) e = Some d'"
    by (auto split: option.splits)
  have "skipped d (tvs_bytes vs @ r) e"
    using VCons.prems e by (intro VCons.IH(1) [of d "tvs_bytes vs @ r" m n e]) auto
  moreover have "skipped e r d'" if "skipped d (tvs_bytes vs @ r) e"
    using that VCons.prems e
    by (intro VCons.IH(2) [of e r et m n d']) (auto simp: skipped_def dec_keeps_def)
  ultimately show ?case
    by (auto simp: skipped_def intro: dec_keeps_trans)
next
  case (FCons fid v fs)
  have rest: "dec_rest d = field_header_bytes (dec_last_id d) (tv_type v) fid @
      tv_bytes v @ tfs_bytes fs fid @ r"
    using FCons.prems(4) by simp
  have ok: "tv_ok v m" "tfs_ok fs m" using FCons.prems(5) by simp_all
  show ?case
  proof (rule skip_fields_Cons_exact [OF FCons.prems(1-3) rest _ _ FCons.prems(7)])
    fix d0 d'
    assume "dec_wf d0" "dec_status d0 = CARQUET_OK" "dec_rest d0 = tv_bytes v @ tfs_bytes fs fid @ r"
      "dec_nesting_level d0 = dec_nesting_level d" "thrift_skip_depth n d0 (tv_type v) = Some d'"
    then show "skipped d0 (tfs_bytes fs fid @ r) d'"
      using FCons.IH(1) ok(1) FCons.prems(6) by metis
  next
    fix k d0 d'
    assume "dec_wf d0" "dec_status d0 = CARQUET_OK" "dec_rest d0 = tfs_bytes fs fid @ r"
      "dec_last_id d0 = fid" "dec_nesting_level d0 = dec_nesting_level d"
      "skip_fields k (thrift_skip_depth n) d0 = Some d'"
    then show "fields_skipped d0 r d'"
      using FCons.IH(2) ok(2) FCons.prems(3,6) by metis
  qed
next
  case (PCons k v kvs)
  then obtain e1 e2 where e: "thrift_skip_depth n d kt = Some e1" "thrift_skip_depth n e1 vt = Some e2"
      "skip_elems (tps_length kvs) (\<lambda>e. case thrift_skip_depth n e kt of None \<Rightarrow> None
        | Some x \<Rightarrow> thrift_skip_depth n x vt) e2 = Some d'"
    by (auto split: option.splits)
  have 1: "skipped d (tv_bytes v @ tps_bytes kvs @ r) e1"
    using PCons.prems e by (intro PCons.IH(1) [of d _ m n e1]) auto
  have 2: "skipped e1 (tps_bytes kvs @ r) e2"
    using 1 PCons.prems e
    by (intro PCons.IH(2) [of e1 _ m n e2]) (auto simp: skipped_def dec_keeps_def)
  have 3: "skipped e2 r d'"
    using 1 2 PCons.prems e
    by (intro PCons.IH(3) [of e2 r kt vt m n d']) (auto simp: skipped_def dec_keeps_def)
  show ?case
    using 1 2 3 by (auto simp: skipped_def intro: dec_keeps_trans)
next
  case FNil
  then show ?case by (auto intro: skip_fields_Nil_exact)
next
  case VNil then show ?case by (auto simp: skipped_def dec_keeps_def)
next
  case PNil then show ?case by (auto simp: skipped_def dec_keeps_def)
qed (rule skip_scalar_exact, assumption, assumption, assumption, assumption,
    simp add: tv_scalar_def, assumption)+

lemma thrift_skip_error: "dec_status dec \<noteq> CARQUET_OK \<Longrightarrow> thrift_skip dec ty = Some dec"
  by (simp add: thrift_skip_def)

section \<open>Properties\<close>

text \<open>
  C15: skipping terminates and is memory safe on every input: for every well-formed
  decoder and every type byte, \<^verbatim>\<open>thrift_skip\<close> returns, the cursor only moves
  forward inside the input, and if an error was already recorded nothing changes.
\<close>

theorem thrift_skip_total_safe:
  assumes "dec_wf dec"
  shows "\<exists>dec'. thrift_skip dec ty = Some dec' \<and> dec_wf dec' \<and>
    suffix (dec_rest dec') (dec_rest dec) \<and>
    (dec_status dec \<noteq> CARQUET_OK \<longrightarrow> dec' = dec)"
proof -
  obtain dec' where s: "thrift_skip dec ty = Some dec'"
    using thrift_skip_depth_total [OF assms, of "Suc (dec_remaining dec)" ty] dec_remaining_rest [OF assms]
    by (auto simp: thrift_skip_def)
  then show ?thesis
    using thrift_skip_depth_step [OF s [unfolded thrift_skip_def]] assms
      thrift_skip_error [of dec ty] by (auto simp: dec_step_def)
qed

theorem thrift_skip_total_safe_witness:
  "\<exists>dec'. thrift_skip (thrift_decoder_init [0x15, 10, 0x29]) THRIFT_TYPE_STRUCT = Some dec' \<and> dec_wf dec' \<and>
    suffix (dec_rest dec') [0x15, 10, 0x29]"
  using thrift_skip_total_safe [OF dec_wf_init [of "[0x15, 10, 0x29]"], of THRIFT_TYPE_STRUCT] by auto

text \<open>
  C16: skipping a well-formed value consumes exactly that value. Positioned on the
  encoding of a value (scalars, strings, lists, sets and maps of any depth, structs
  nested at most 32 deep), \<^verbatim>\<open>thrift_skip\<close> leaves the cursor on the byte after it, reports no
  error and restores the struct nesting and the last field id of the enclosing
  struct. Containers of booleans are excluded; see the next property.
\<close>

theorem thrift_skip_exact:
  assumes "dec_wf dec" "dec_status dec = CARQUET_OK" "dec_rest dec = tv_bytes v @ r" "tv_ok v m"
    "dec_nesting_level dec + m \<le> THRIFT_MAX_NESTING"
  shows "\<exists>dec'. thrift_skip dec (tv_type v) = Some dec' \<and> dec_wf dec' \<and> dec_status dec' = CARQUET_OK \<and>
    dec_rest dec' = r \<and> dec_nesting_level dec' = dec_nesting_level dec \<and> dec_last_id dec' = dec_last_id dec"
proof -
  obtain dec' where s: "thrift_skip dec (tv_type v) = Some dec'"
    using thrift_skip_depth_total [OF assms(1), of "Suc (dec_remaining dec)"] dec_remaining_rest [OF assms(1)]
    by (auto simp: thrift_skip_def)
  then have "skipped dec r dec'"
    using skip_exact(1) [OF assms] unfolding thrift_skip_def by blast
  with s show ?thesis
    by (auto simp: skipped_def dec_keeps_last_id) (simp add: dec_keeps_def)
qed

theorem thrift_skip_exact_witness:
  "\<exists>dec'. thrift_skip (thrift_decoder_init [0x15, 10, 0x29, 0x18, 1, 65, 0, 99]) THRIFT_TYPE_STRUCT = Some dec' \<and>
    dec_status dec' = CARQUET_OK \<and> dec_rest dec' = [99]"
proof -
  let ?v = "TVStruct (FCons 1 (TVI32 5) (FCons 3 (TVList 8 (VCons (TVBinary [65]) VNil)) FNil))"
  have b: "tv_bytes ?v = [0x15, 10, 0x29, 0x18, 1, 65, 0]" by code_simp
  have ok: "tv_ok ?v 1" by (simp add: is_tvbool_def)
  have n: "dec_nesting_level (thrift_decoder_init xs) = 0" for xs
    by (simp add: thrift_decoder_init_def thrift_decoder_init_reader_def)
  show ?thesis
    using thrift_skip_exact [of "thrift_decoder_init [0x15, 10, 0x29, 0x18, 1, 65, 0, 99]" ?v "[99]" 1]
    unfolding b using ok by (auto simp: dec_wf_init n)
qed

text \<open>
  C39: skipping a list of booleans goes out of step. In the compact protocol each
  element of such a list is one byte, but \<^verbatim>\<open>thrift_skip\<close> treats an element of type
  TRUE as the value of a field header and consumes nothing: all element bytes stay
  unread, and no error is recorded.
\<close>

theorem thrift_skip_bool_list_desync:
  assumes "dec_wf dec" "dec_status dec = CARQUET_OK"
    "dec_rest dec = list_header_bytes THRIFT_TYPE_TRUE (length elems) @ elems @ r"
    "length elems < 2 ^ 31"
  shows "\<exists>dec'. thrift_skip dec THRIFT_TYPE_LIST = Some dec' \<and> dec_status dec' = CARQUET_OK \<and>
    dec_rest dec' = elems @ r"
proof -
  have loop: "\<exists>e'. skip_elems k (\<lambda>e. thrift_skip_depth (Suc n) e THRIFT_TYPE_TRUE) e = Some e' \<and>
      dec_status e' = CARQUET_OK \<and> dec_rest e' = dec_rest e" if "dec_status e = CARQUET_OK" for k n e
    using that
  proof (induction k arbitrary: e)
    case (Suc k)
    then show ?case
      using Suc.IH [of "e\<lparr>dec_bool_pending := False\<rparr>"] by (simp add: dec_rest_def)
  qed simp
  obtain d1 where d1: "thrift_read_list_begin dec = (d1, 1, word_of_nat (length elems))"
      "dec_rest d1 = elems @ r" "dec_status d1 = CARQUET_OK"
    using read_list_begin_bytes [OF assms(1,3,4)] assms(2) by auto
  obtain k where k: "dec_remaining dec = Suc k"
    using dec_remaining_rest [OF assms(1)] assms(3)
    by (cases "dec_remaining dec") (auto simp: list_header_bytes_def split: if_splits)
  show ?thesis
    using loop [OF d1(3), of "unat (word_of_nat (length elems) :: i32)" k] d1 assms(2)
    by (auto simp: thrift_skip_def k simp del: skip_elems.simps)
qed

theorem thrift_skip_bool_list_desync_witness:
  "\<exists>dec'. thrift_skip (thrift_decoder_init [0x21, 1, 2, 99]) THRIFT_TYPE_LIST = Some dec' \<and>
    dec_rest dec' = [1, 2, 99]"
proof -
  have h: "list_header_bytes THRIFT_TYPE_TRUE (Suc (Suc 0)) = [0x21]" by code_simp
  show ?thesis
    using thrift_skip_bool_list_desync [of "thrift_decoder_init [0x21, 1, 2, 99]" "[1, 2]" "[99]"] h
      dec_wf_init [of "[0x21, 1, 2, 99]"] by auto
qed

end
