(* ===== verification/Thrift_Roundtrip.thy ===== *)
theory Thrift_Roundtrip
  imports Thrift_Skip
begin

text \<open>
  The encoder and the decoder together: \<open>write_struct\<close> writes a list of fields with
  the field macros of \<^verbatim>\<open>thrift_encode.h\<close> as every writer in \<^verbatim>\<open>parquet_types.c\<close> does, and
  \<open>read_struct\<close> runs the field loop with which every parser there reads a struct.
  The round trip goes through the wire format \<open>tv_bytes\<close>.
\<close>

section \<open>A struct of scalar fields\<close>

datatype tscalar = SBool bool | SByte i8 | SI16 i16 | SI32 i32 | SI64 i64 | SDouble u64 | SBinary bytes

fun write_field :: "allocator \<Rightarrow> thrift_encoder \<Rightarrow> i16 \<Rightarrow> tscalar \<Rightarrow> thrift_encoder" where
  "write_field al enc fid (SBool v) = THRIFT_WRITE_FIELD_BOOL al enc fid v"
| "write_field al enc fid (SByte v) = THRIFT_WRITE_FIELD_BYTE al enc fid v"
| "write_field al enc fid (SI16 v) = THRIFT_WRITE_FIELD_I16 al enc fid v"
| "write_field al enc fid (SI32 v) = THRIFT_WRITE_FIELD_I32 al enc fid v"
| "write_field al enc fid (SI64 v) = THRIFT_WRITE_FIELD_I64 al enc fid v"
| "write_field al enc fid (SDouble v) = THRIFT_WRITE_FIELD_DOUBLE al enc fid v"
| "write_field al enc fid (SBinary v) =
     THRIFT_WRITE_FIELD_BINARY al enc fid (Some v) (word_of_nat (length v))"

fun write_fields :: "allocator \<Rightarrow> thrift_encoder \<Rightarrow> (i16 \<times> tscalar) list \<Rightarrow> thrift_encoder" where
  "write_fields al enc [] = enc"
| "write_fields al enc ((fid, v) # fs) = write_fields al (write_field al enc fid v) fs"

definition write_struct :: "allocator \<Rightarrow> thrift_encoder \<Rightarrow> (i16 \<times> tscalar) list \<Rightarrow> thrift_encoder" where
  "write_struct al enc fs =
     thrift_write_struct_end al (write_fields al (thrift_write_struct_begin enc) fs)"

definition read_value :: "thrift_decoder \<Rightarrow> thrift_type \<Rightarrow> thrift_decoder \<times> tscalar option" where
  "read_value dec ty =
     (if ty = THRIFT_TYPE_TRUE \<or> ty = THRIFT_TYPE_FALSE
      then map_prod id (Some \<circ> SBool) (thrift_read_bool dec)
      else if ty = THRIFT_TYPE_BYTE then map_prod id (Some \<circ> SByte) (thrift_read_byte dec)
      else if ty = THRIFT_TYPE_I16 then map_prod id (Some \<circ> SI16) (thrift_read_i16 dec)
      else if ty = THRIFT_TYPE_I32 then map_prod id (Some \<circ> SI32) (thrift_read_i32 dec)
      else if ty = THRIFT_TYPE_I64 then map_prod id (Some \<circ> SI64) (thrift_read_i64 dec)
      else if ty = THRIFT_TYPE_DOUBLE then map_prod id (Some \<circ> SDouble) (thrift_read_double dec)
      else if ty = THRIFT_TYPE_BINARY
      then map_prod id (\<lambda>(d, n). map_option SBinary d) (thrift_read_binary dec)
      else (dec, None))"

fun read_fields :: "nat \<Rightarrow> thrift_decoder \<Rightarrow> thrift_decoder \<times> (i16 \<times> tscalar) list" where
  "read_fields 0 dec = (dec, [])"
| "read_fields (Suc k) dec =
     (case thrift_read_field_begin dec of
        (dec1, None) \<Rightarrow> (dec1, [])
      | (dec1, Some (ty, fid)) \<Rightarrow>
          (case read_value dec1 ty of
             (dec2, None) \<Rightarrow> (dec2, [])
           | (dec2, Some v) \<Rightarrow> map_prod id (Cons (fid, v)) (read_fields k dec2)))"

definition read_struct :: "thrift_decoder \<Rightarrow> thrift_decoder \<times> (i16 \<times> tscalar) list" where
  "read_struct dec =
     map_prod thrift_read_struct_end id
       (read_fields (Suc (dec_remaining dec)) (thrift_read_struct_begin dec))"

fun sc_value :: "tscalar \<Rightarrow> tvalue" where
  "sc_value (SBool b) = TVBool b"
| "sc_value (SByte b) = TVByte b"
| "sc_value (SI16 v) = TVI16 v"
| "sc_value (SI32 v) = TVI32 v"
| "sc_value (SI64 v) = TVI64 v"
| "sc_value (SDouble v) = TVDouble v"
| "sc_value (SBinary d) = TVBinary d"

definition sc_ok :: "tscalar \<Rightarrow> bool" where
  "sc_ok v = (case v of SBinary d \<Rightarrow> length d < 2 ^ 31 | _ \<Rightarrow> True)"

fun fields_value :: "(i16 \<times> tscalar) list \<Rightarrow> tfields" where
  "fields_value [] = FNil"
| "fields_value ((fid, v) # fs) = FCons fid (sc_value v) (fields_value fs)"

lemma field_header_then:
  assumes "enc_adds al (thrift_write_field_header al enc ty fid) enc' bs"
  shows "enc_adds al enc enc' (field_header_bytes (enc_last_id enc) ty fid @ bs)"
  by (rule enc_adds_trans [OF write_field_header_adds assms])

lemma write_field_adds:
  assumes "sc_ok v"
  shows "enc_adds al enc (write_field al enc fid v)
    (field_header_bytes (enc_last_id enc) (tv_type (sc_value v)) fid @ tv_bytes (sc_value v))"
proof (cases v)
  case (SBool b)
  then show ?thesis
    using write_field_header_adds [of al enc "if b then 1 else 2" fid] by (simp add: THRIFT_WRITE_FIELD_BOOL_def)
next
  case (SBinary d)
  then have "length d < 2 ^ 31" using assms by (simp add: sc_ok_def)
  from field_header_then [OF write_binary_adds [OF this]] SBinary show ?thesis
    by (simp add: THRIFT_WRITE_FIELD_BINARY_def)
qed (simp_all add: THRIFT_WRITE_FIELD_BYTE_def THRIFT_WRITE_FIELD_I16_def THRIFT_WRITE_FIELD_I32_def
    THRIFT_WRITE_FIELD_I64_def THRIFT_WRITE_FIELD_DOUBLE_def field_header_then [OF write_byte_adds]
    field_header_then [OF write_int_adds(1)] field_header_then [OF write_int_adds(2)]
    field_header_then [OF write_int_adds(3)] field_header_then [OF write_double_adds])

lemma write_field_last_id:
  assumes "enc_wf enc" "0 < enc_nesting_level enc"
  shows "enc_last_id (write_field al enc fid v) = fid"
    "enc_nesting_level (write_field al enc fid v) = enc_nesting_level enc"
proof -
  have *: "enc_last_id e' = enc_last_id e" if "enc_nesting_level e' = enc_nesting_level e"
    "enc_last_field_id e' = enc_last_field_id e" for e e'
    using that by (simp add: enc_last_id_def)
  show "enc_last_id (write_field al enc fid v) = fid"
    by (cases v; simp add: THRIFT_WRITE_FIELD_BYTE_def THRIFT_WRITE_FIELD_I16_def THRIFT_WRITE_FIELD_I32_def
      THRIFT_WRITE_FIELD_I64_def THRIFT_WRITE_FIELD_DOUBLE_def THRIFT_WRITE_FIELD_BOOL_def
      THRIFT_WRITE_FIELD_BINARY_def write_field_header_last_id [OF assms]
      * [of _ "thrift_write_field_header al enc _ fid"])
  show "enc_nesting_level (write_field al enc fid v) = enc_nesting_level enc"
    by (cases v; simp add: THRIFT_WRITE_FIELD_BYTE_def THRIFT_WRITE_FIELD_I16_def THRIFT_WRITE_FIELD_I32_def
      THRIFT_WRITE_FIELD_I64_def THRIFT_WRITE_FIELD_DOUBLE_def THRIFT_WRITE_FIELD_BOOL_def
      THRIFT_WRITE_FIELD_BINARY_def write_field_header_last_id [OF assms])
qed

lemma write_fields_adds:
  "enc_wf enc \<Longrightarrow> 0 < enc_nesting_level enc \<Longrightarrow> \<forall>(fid, v) \<in> set fs. sc_ok v \<Longrightarrow>
   enc_adds al enc (thrift_write_struct_end al (write_fields al enc fs)) (tfs_bytes (fields_value fs) (enc_last_id enc))"
proof (induction fs arbitrary: enc)
  case Nil
  then show ?case by (simp add: struct_end_adds)
next
  case (Cons f fs)
  obtain fid v where f: "f = (fid, v)" by fastforce
  let ?e = "write_field al enc fid v"
  have ok: "sc_ok v" using Cons.prems f by simp
  note a = write_field_adds [OF ok, of al enc fid] and l = write_field_last_id [OF Cons.prems(1,2), of al fid v]
  have wf: "enc_wf ?e" using a Cons.prems(1) unfolding enc_adds_def by blast
  have "enc_adds al ?e (thrift_write_struct_end al (write_fields al ?e fs)) (tfs_bytes (fields_value fs) fid)"
    using Cons.IH [OF wf] Cons.prems l by simp
  from enc_adds_trans [OF a this] show ?case by (simp add: f)
qed

lemma write_struct_adds:
  assumes "enc_wf enc" "enc_nesting_level enc < THRIFT_ENCODER_MAX_NESTING" "\<forall>(fid, v) \<in> set fs. sc_ok v"
  shows "enc_adds al enc (write_struct al enc fs) (tv_bytes (TVStruct (fields_value fs)))"
proof -
  let ?e = "thrift_write_struct_begin enc"
  have "enc_wf ?e" "0 < enc_nesting_level ?e" "enc_last_id ?e = 0"
    using assms by (auto simp: thrift_write_struct_begin_def enc_wf_def enc_last_id_def)
  from enc_adds_trans [OF struct_begin_adds [OF assms(2)] write_fields_adds [OF this(1,2) assms(3)]] this(3)
  show ?thesis by (simp add: write_struct_def)
qed

lemma read_double_bytes:
  assumes "dec_wf d" "dec_rest d = carquet_write_u64_le v @ r"
  shows "\<exists>d'. thrift_read_double d = (d', v) \<and> dec_wf d' \<and> dec_rest d' = r \<and> dec_status d' = dec_status d"
proof -
  have "carquet_buffer_reader_peek (dec_reader d) = carquet_write_u64_le v @ r"
    using assms by (simp add: dec_rest_def reader_rest_def carquet_buffer_reader_peek_def)
  then have "carquet_read_f64_le (carquet_buffer_reader_peek (dec_reader d)) = v"
    by (simp add: carquet_read_f64_le_def read_write_le)
  moreover have "has_bytes d 8"
    using has_bytes_iff [OF assms(1), of 8] assms(2) by simp
  ultimately show ?thesis
    using dec_skip_ok [OF assms(1), of 8] assms(2) by (simp add: thrift_read_double_def)
qed

lemma read_i32_frame [dec_frames]: "thrift_read_i32 d = (d', v) \<Longrightarrow> dec_frame d d'"
  and read_i64_frame [dec_frames]: "thrift_read_i64 d = (d', w) \<Longrightarrow> dec_frame d d'"
  by (auto simp: thrift_read_i32_def thrift_read_i64_def Let_def split: prod.splits intro: read_zigzag_frame)

lemma read_double_frame [dec_frames]: "thrift_read_double d = (d', v) \<Longrightarrow> dec_frame d d'"
  by (auto simp: thrift_read_double_def split: if_splits intro: dec_frames)

lemma read_value_bytes:
  assumes d: "dec_wf d" "dec_rest d = tv_bytes (sc_value v) @ r" "sc_ok v"
    and b: "\<And>b. v = SBool b \<Longrightarrow> dec_bool_pending d \<and> dec_bool_value d = b"
  shows "\<exists>d'. read_value d (tv_type (sc_value v)) = (d', Some v) \<and> dec_wf d' \<and> dec_rest d' = r \<and>
    dec_status d' = dec_status d \<and> dec_frame d d'"
proof (cases v)
  case (SBool x)
  with d b show ?thesis
    by (cases x) (auto simp: read_value_def thrift_read_bool_def dec_wf_def dec_rest_def dec_frame_def)
next
  case (SByte x)
  with d read_byte_raw_Cons [of d x r] show ?thesis
    by (auto simp: read_value_def thrift_read_byte_def dec_frame_def)
next
  case (SI16 x)
  with d obtain d' where "thrift_read_i16 d = (d', x)" "dec_wf d'" "dec_rest d' = r" "dec_status d' = dec_status d"
    using read_i16_bytes [of d x r] by auto
  with SI16 read_i16_frame [of d] show ?thesis by (simp add: read_value_def)
next
  case (SI32 x)
  with d obtain d' where "thrift_read_i32 d = (d', x)" "dec_wf d'" "dec_rest d' = r" "dec_status d' = dec_status d"
    using read_i32_bytes [of d x r] by auto
  with SI32 read_i32_frame [of d] show ?thesis by (simp add: read_value_def)
next
  case (SI64 x)
  with d obtain d' where "thrift_read_i64 d = (d', x)" "dec_wf d'" "dec_rest d' = r" "dec_status d' = dec_status d"
    using read_i64_bytes [of d x r] by auto
  with SI64 read_i64_frame [of d] show ?thesis by (simp add: read_value_def)
next
  case (SDouble x)
  with d obtain d' where "thrift_read_double d = (d', x)" "dec_wf d'" "dec_rest d' = r" "dec_status d' = dec_status d"
    using read_double_bytes [of d x r] by auto
  with SDouble read_double_frame [of d] show ?thesis by (simp add: read_value_def)
next
  case (SBinary x)
  with d obtain d' where "thrift_read_binary d = (d', Some x, word_of_nat (length x))" "dec_wf d'"
      "dec_rest d' = r" "dec_status d' = dec_status d"
    using read_binary_bytes [of d x r] by (auto simp: sc_ok_def)
  with SBinary read_binary_frame [of d] show ?thesis by (simp add: read_value_def)
qed

lemma dec_entered_bool:
  "v = SBool b \<Longrightarrow> dec_bool_pending (dec_entered e (tv_type (sc_value v)) fid) \<and>
     dec_bool_value (dec_entered e (tv_type (sc_value v)) fid) = b"
  by (cases b) (simp_all add: dec_entered_def Let_def)

lemma read_fields_bytes:
  "dec_wf d \<Longrightarrow> dec_status d = CARQUET_OK \<Longrightarrow> 0 < dec_nesting_level d \<Longrightarrow>
   dec_rest d = tfs_bytes (fields_value fs) (dec_last_id d) @ r \<Longrightarrow>
   \<forall>(fid, v) \<in> set fs. sc_ok v \<Longrightarrow> length fs < k \<Longrightarrow>
   \<exists>d'. read_fields k d = (d', fs) \<and> fields_skipped d r d'"
proof (induction fs arbitrary: d k)
  case Nil
  then obtain rd where "read_byte_raw d = (d\<lparr>dec_reader := rd\<rparr>, 0)"
      "dec_wf (d\<lparr>dec_reader := rd\<rparr>)" "dec_rest (d\<lparr>dec_reader := rd\<rparr>) = r"
    using read_byte_raw_Cons [of d 0 r] by auto
  with Nil show ?case
    by (cases k) (auto simp: thrift_read_field_begin_def fields_skipped_def)
next
  case (Cons f fs)
  obtain fid v where f: "f = (fid, v)" by fastforce
  obtain k' where k: "k = Suc k'" "length fs < k'" using Cons.prems(6) by (cases k) auto
  let ?t = "tv_type (sc_value v)" and ?r = "tfs_bytes (fields_value fs) fid @ r"
  obtain e where e: "thrift_read_field_begin d = (dec_entered e ?t fid, Some (?t, fid))" "dec_wf e"
      "dec_rest e = tv_bytes (sc_value v) @ ?r" "dec_status e = CARQUET_OK" "dec_frame d e"
    using read_field_begin_bytes [OF Cons.prems(1-3) _ tv_type_nibble, of "sc_value v" fid] Cons.prems(4) f
    by auto
  let ?e = "dec_entered e ?t fid"
  have nl: "dec_nesting_level e = dec_nesting_level d" using e(5) by (simp add: dec_frame_def)
  obtain d2 where d2: "read_value ?e ?t = (d2, Some v)" "dec_wf d2" "dec_rest d2 = ?r"
      "dec_status d2 = CARQUET_OK" "dec_frame ?e d2"
    using read_value_bytes [of ?e v ?r] dec_entered_bool [of v _ e fid] e Cons.prems(5) f by auto
  have l2: "dec_nesting_level d2 = dec_nesting_level d" "dec_last_id d2 = fid"
    using d2(5) nl dec_keeps_last_id [OF dec_keeps_frame [OF d2(5)]]
      dec_entered_last_id [OF e(2), of ?t fid] Cons.prems(3) by (simp_all add: dec_frame_def)
  then obtain d' where d': "read_fields k' d2 = (d', fs)" "fields_skipped d2 r d'"
    using Cons.IH [of d2 k'] d2 Cons.prems(3,5) k(2) by auto
  have "take (dec_nesting_level d - 1) (dec_last_field_id d2) =
      take (dec_nesting_level d - 1) (dec_last_field_id d)"
    using dec_entered_simps(6) [of e ?t fid] nl d2(5) e(5) by (simp add: dec_frame_def)
  then have "fields_skipped d r d'"
    using d'(2) l2 by (simp add: fields_skipped_def)
  then show ?case using e d2 d' k f by simp
qed

lemma fields_value_length: "length fs \<le> length (tfs_bytes (fields_value fs) l)"
proof (induction fs arbitrary: l)
  case (Cons f fs)
  obtain fid v where f: "f = (fid, v)" by fastforce
  obtain b bs where "field_header_bytes l (tv_type (sc_value v)) fid = b # bs"
    by (cases "field_header_bytes l (tv_type (sc_value v)) fid")
      (auto simp: field_header_bytes_def Let_def split: if_splits)
  with Cons.IH [of fid] f show ?case by simp
qed simp

lemma read_struct_bytes:
  assumes d: "dec_wf d" "dec_status d = CARQUET_OK" "dec_nesting_level d < THRIFT_MAX_NESTING"
    and rest: "dec_rest d = tv_bytes (TVStruct (fields_value fs)) @ r" "\<forall>(fid, v) \<in> set fs. sc_ok v"
  shows "\<exists>d'. read_struct d = (d', fs) \<and> skipped d r d'"
proof -
  let ?d = "thrift_read_struct_begin d"
  have b: "dec_wf ?d" "dec_status ?d = CARQUET_OK" "dec_rest ?d = dec_rest d"
      "dec_nesting_level ?d = Suc (dec_nesting_level d)" "dec_last_id ?d = 0"
      "take (dec_nesting_level d) (dec_last_field_id ?d) = take (dec_nesting_level d) (dec_last_field_id d)"
    using d by (auto simp: thrift_read_struct_begin_def dec_wf_def dec_rest_def dec_last_id_def)
  have "length fs < Suc (dec_remaining d)"
    using dec_remaining_rest [OF d(1)] rest(1) fields_value_length [of fs 0] by simp
  then obtain d' where d': "read_fields (Suc (dec_remaining d)) ?d = (d', fs)" "fields_skipped ?d r d'"
    using read_fields_bytes [OF b(1,2), of fs r "Suc (dec_remaining d)"] b rest
    by (auto simp del: read_fields.simps)
  then have "skipped d r (thrift_read_struct_end d')"
    using b by (auto simp: fields_skipped_def skipped_def dec_keeps_def thrift_read_struct_end_def
        dec_wf_def dec_rest_def)
  with d' show ?thesis by (simp add: read_struct_def)
qed

lemma encoder_init_ready:
  assumes "buffer_wf buf" "buffer_contents buf = []"
  shows "enc_wf (thrift_encoder_init buf)" "enc_output (thrift_encoder_init buf) = []"
    "enc_nesting_level (thrift_encoder_init buf) < THRIFT_ENCODER_MAX_NESTING"
  using assms enc_wf_init by (simp_all add: enc_output_def thrift_encoder_init_def)

section \<open>Properties\<close>

text \<open>
  C14: a struct written with the field macros is read back field by field. For any
  list of scalar and binary fields, with any ids in any order, that is written
  between \<^verbatim>\<open>thrift_write_struct_begin\<close> and \<^verbatim>\<open>thrift_write_struct_end\<close> into an empty
  buffer without an error, the decoder's field loop returns exactly those ids and
  values and stops on the byte after the struct.
\<close>

theorem thrift_struct_roundtrip:
  assumes "buffer_wf buf" "buffer_contents buf = []" "\<forall>(fid, v) \<in> set fs. sc_ok v"
    and "write_struct al (thrift_encoder_init buf) fs = enc" "enc_status enc = CARQUET_OK"
    and "length (enc_output enc @ r) < 2 ^ 63"
  shows "\<exists>dec'. read_struct (thrift_decoder_init (enc_output enc @ r)) = (dec', fs) \<and>
    dec_status dec' = CARQUET_OK \<and> dec_rest dec' = r"
proof -
  note init = encoder_init_ready [OF assms(1,2)]
  have out: "enc_output enc = tv_bytes (TVStruct (fields_value fs))"
    using write_struct_adds [OF init(1,3) assms(3), of al] init assms(4,5) by (simp add: enc_adds_def)
  have "dec_nesting_level (thrift_decoder_init (enc_output enc @ r)) = 0"
    by (simp add: thrift_decoder_init_def thrift_decoder_init_reader_def)
  then show ?thesis
    using read_struct_bytes [OF dec_wf_init [OF assms(6)], of fs r] assms(3) out
    by (auto simp: skipped_def)
qed

theorem thrift_struct_roundtrip_witness:
  "\<exists>dec'. read_struct (thrift_decoder_init
      (enc_output (write_struct generous (thrift_encoder_init carquet_buffer_init)
         [(1, SI32 5), (40, SBool True), (3, SBinary [65])]) @ [99])) =
      (dec', [(1, SI32 5), (40, SBool True), (3, SBinary [65])]) \<and> dec_rest dec' = [99]"
proof -
  let ?fs = "[(1, SI32 5), (40, SBool True), (3, SBinary [65])]"
  let ?enc = "write_struct generous (thrift_encoder_init carquet_buffer_init) ?fs"
  have ok: "\<forall>(fid, v) \<in> set ?fs. sc_ok v" by (simp add: sc_ok_def)
  have b: "tv_bytes (TVStruct (fields_value ?fs)) = [21, 10, 1, 80, 8, 6, 1, 65, 0]" by code_simp
  note init = encoder_init_ready [OF buffer_wf_init buffer_contents_init]
  note adds = write_struct_adds [OF init(1,3) ok, of generous, unfolded b]
  have good: "enc_good ?enc"
    using adds init by (simp add: enc_adds_def enc_good_def generous_def
        thrift_encoder_init_def carquet_buffer_init_def)
  then have s: "enc_status ?enc = CARQUET_OK" and out: "length (enc_output ?enc @ [99]) < 2 ^ 63"
    using adds init by (simp_all add: enc_adds_def enc_good_def)
  show ?thesis
    using thrift_struct_roundtrip [OF buffer_wf_init buffer_contents_init ok refl s out] by blast
qed

text \<open>
  The encoder reports an error only when it must. If the allocator grants every
  request, the output buffer is the encoder's own and the encoding fits \<^verbatim>\<open>size_t\<close>,
  writing a struct of scalar fields below the nesting limit records no error and
  appends exactly the encoding of the struct to what the buffer held.
\<close>

theorem thrift_write_struct_succeeds:
  assumes "enc_wf enc" "enc_good enc" "enc_nesting_level enc < THRIFT_ENCODER_MAX_NESTING"
    and "\<forall>(fid, v) \<in> set fs. sc_ok v" "\<forall>n. alloc_grants al n"
    and "length (enc_output enc) + length (tv_bytes (TVStruct (fields_value fs))) < 2 ^ 64"
  shows "enc_status (write_struct al enc fs) = CARQUET_OK \<and>
    enc_output (write_struct al enc fs) = enc_output enc @ tv_bytes (TVStruct (fields_value fs))"
  using write_struct_adds [OF assms(1,3,4), of al] assms(1,2,5,6)
  by (simp add: enc_adds_def enc_good_def)

theorem thrift_write_struct_succeeds_witness:
  "enc_output (write_struct generous (thrift_encoder_init carquet_buffer_init) [(2, SI64 (- 1))]) = [38, 1, 0]"
proof -
  have b: "tv_bytes (TVStruct (fields_value [(2, SI64 (- 1))])) = [38, 1, 0]" by code_simp
  have s: "sc_ok (SI64 (- 1))" by (simp add: sc_ok_def)
  show ?thesis
    using thrift_write_struct_succeeds [of "thrift_encoder_init carquet_buffer_init" "[(2, SI64 (- 1))]" generous]
      encoder_init_ready [OF buffer_wf_init buffer_contents_init] s
    unfolding b by (simp add: enc_good_def generous_def thrift_encoder_init_def carquet_buffer_init_def)
qed

end
