(* ===== verification/Bitpack.thy ===== *)
theory Bitpack
  imports Status Endian
begin

text \<open>
  \<^verbatim>\<open>core/bitpack.h\<close> and \<^verbatim>\<open>core/bitpack.c\<close>: packing values of a fixed bit width, least
  significant bit first, in groups of 8, and the legacy
  most-significant-bit-first levels. The bit-stream reader and writer that
  \<^verbatim>\<open>bitpack.h\<close> also declares are not modelled.

  A bit width is a natural number; the callers pass 0 to 32. The SIMD kernels that
  \<^verbatim>\<open>simd/dispatch.c\<close> may install per width are a parameter, the two tables of
  \<open>bitunpack_dispatch\<close>; the contract that \<^verbatim>\<open>dispatch.c\<close> documents for them is the
  locale \<open>unpack_kernels\<close>. The tables are empty in a scalar build, which is the build
  \<^verbatim>\<open>Makevars\<close> selects everywhere but on ARM.
\<close>

section \<open>Definitions\<close>

subsection \<open>Partial little-endian loads\<close>

definition read_le16 :: "bytes \<Rightarrow> u16" where
  "read_le16 p = ucast (p ! 0) OR push_bit 8 (ucast (p ! 1))"

definition read_le32 :: "bytes \<Rightarrow> u32" where
  "read_le32 p =
     ucast (p ! 0) OR push_bit 8 (ucast (p ! 1)) OR
     push_bit 16 (ucast (p ! 2)) OR push_bit 24 (ucast (p ! 3))"

definition read_le24 :: "bytes \<Rightarrow> u32" where
  "read_le24 p = ucast (p ! 0) OR push_bit 8 (ucast (p ! 1)) OR push_bit 16 (ucast (p ! 2))"

definition read_le40 :: "bytes \<Rightarrow> u64" where
  "read_le40 p =
     ucast (p ! 0) OR push_bit 8 (ucast (p ! 1)) OR
     push_bit 16 (ucast (p ! 2)) OR push_bit 24 (ucast (p ! 3)) OR
     push_bit 32 (ucast (p ! 4))"

definition read_le48 :: "bytes \<Rightarrow> u64" where
  "read_le48 p =
     ucast (p ! 0) OR push_bit 8 (ucast (p ! 1)) OR
     push_bit 16 (ucast (p ! 2)) OR push_bit 24 (ucast (p ! 3)) OR
     push_bit 32 (ucast (p ! 4)) OR push_bit 40 (ucast (p ! 5))"

definition read_le56 :: "bytes \<Rightarrow> u64" where
  "read_le56 p =
     ucast (p ! 0) OR push_bit 8 (ucast (p ! 1)) OR
     push_bit 16 (ucast (p ! 2)) OR push_bit 24 (ucast (p ! 3)) OR
     push_bit 32 (ucast (p ! 4)) OR push_bit 40 (ucast (p ! 5)) OR
     push_bit 48 (ucast (p ! 6))"

subsection \<open>Unpacking eight values\<close>

definition carquet_bitunpack8_1bit :: "bytes \<Rightarrow> u32 list" where
  "carquet_bitunpack8_1bit p =
     (let byte = p ! 0 in
      [ucast (drop_bit 0 byte AND 1), ucast (drop_bit 1 byte AND 1),
       ucast (drop_bit 2 byte AND 1), ucast (drop_bit 3 byte AND 1),
       ucast (drop_bit 4 byte AND 1), ucast (drop_bit 5 byte AND 1),
       ucast (drop_bit 6 byte AND 1), ucast (drop_bit 7 byte AND 1)])"

definition carquet_bitunpack8_2bit :: "bytes \<Rightarrow> u32 list" where
  "carquet_bitunpack8_2bit p =
     (let v = read_le16 p in
      [ucast (drop_bit 0 v AND 0x3), ucast (drop_bit 2 v AND 0x3),
       ucast (drop_bit 4 v AND 0x3), ucast (drop_bit 6 v AND 0x3),
       ucast (drop_bit 8 v AND 0x3), ucast (drop_bit 10 v AND 0x3),
       ucast (drop_bit 12 v AND 0x3), ucast (drop_bit 14 v AND 0x3)])"

definition carquet_bitunpack8_3bit :: "bytes \<Rightarrow> u32 list" where
  "carquet_bitunpack8_3bit p =
     (let v = read_le24 p in
      [drop_bit 0 v AND 0x7, drop_bit 3 v AND 0x7, drop_bit 6 v AND 0x7, drop_bit 9 v AND 0x7,
       drop_bit 12 v AND 0x7, drop_bit 15 v AND 0x7, drop_bit 18 v AND 0x7, drop_bit 21 v AND 0x7])"

definition carquet_bitunpack8_4bit :: "bytes \<Rightarrow> u32 list" where
  "carquet_bitunpack8_4bit p =
     (let v = read_le32 p in
      [drop_bit 0 v AND 0xF, drop_bit 4 v AND 0xF, drop_bit 8 v AND 0xF, drop_bit 12 v AND 0xF,
       drop_bit 16 v AND 0xF, drop_bit 20 v AND 0xF, drop_bit 24 v AND 0xF, drop_bit 28 v AND 0xF])"

definition carquet_bitunpack8_5bit :: "bytes \<Rightarrow> u32 list" where
  "carquet_bitunpack8_5bit p =
     (let v = read_le40 p in
      [ucast (drop_bit 0 v AND 0x1F), ucast (drop_bit 5 v AND 0x1F),
       ucast (drop_bit 10 v AND 0x1F), ucast (drop_bit 15 v AND 0x1F),
       ucast (drop_bit 20 v AND 0x1F), ucast (drop_bit 25 v AND 0x1F),
       ucast (drop_bit 30 v AND 0x1F), ucast (drop_bit 35 v AND 0x1F)])"

definition carquet_bitunpack8_6bit :: "bytes \<Rightarrow> u32 list" where
  "carquet_bitunpack8_6bit p =
     (let v = read_le48 p in
      [ucast (drop_bit 0 v AND 0x3F), ucast (drop_bit 6 v AND 0x3F),
       ucast (drop_bit 12 v AND 0x3F), ucast (drop_bit 18 v AND 0x3F),
       ucast (drop_bit 24 v AND 0x3F), ucast (drop_bit 30 v AND 0x3F),
       ucast (drop_bit 36 v AND 0x3F), ucast (drop_bit 42 v AND 0x3F)])"

definition carquet_bitunpack8_7bit :: "bytes \<Rightarrow> u32 list" where
  "carquet_bitunpack8_7bit p =
     (let v = read_le56 p in
      [ucast (drop_bit 0 v AND 0x7F), ucast (drop_bit 7 v AND 0x7F),
       ucast (drop_bit 14 v AND 0x7F), ucast (drop_bit 21 v AND 0x7F),
       ucast (drop_bit 28 v AND 0x7F), ucast (drop_bit 35 v AND 0x7F),
       ucast (drop_bit 42 v AND 0x7F), ucast (drop_bit 49 v AND 0x7F)])"

definition carquet_bitunpack8_8bit :: "bytes \<Rightarrow> u32 list" where
  "carquet_bitunpack8_8bit p =
     [ucast (p ! 0), ucast (p ! 1), ucast (p ! 2), ucast (p ! 3),
      ucast (p ! 4), ucast (p ! 5), ucast (p ! 6), ucast (p ! 7)]"

text \<open>
  The general case: a 64-bit accumulator of \<open>bits_held\<close> unconsumed bits, refilled a
  byte at a time.
\<close>

function refill_accumulator :: "bytes \<Rightarrow> nat \<Rightarrow> u64 \<times> nat \<times> nat \<Rightarrow> u64 \<times> nat \<times> nat" where
  "refill_accumulator input bit_width (accumulator, bits_held, byte_pos) =
     (if bits_held < bit_width
      then refill_accumulator input bit_width
             (accumulator OR push_bit bits_held (ucast (input ! byte_pos)),
              bits_held + 8, byte_pos + 1)
      else (accumulator, bits_held, byte_pos))"
  by pat_completeness auto
termination
  by (relation "measure (\<lambda>(input, bit_width, acc, held, pos). bit_width - held)") auto

declare refill_accumulator.simps [simp del]

primrec unpack_loop :: "nat \<Rightarrow> bytes \<Rightarrow> nat \<Rightarrow> u64 \<times> nat \<times> nat \<Rightarrow> u32 list" where
  "unpack_loop 0 input bit_width st = []"
| "unpack_loop (Suc n) input bit_width st =
     (let m = ucast (push_bit bit_width (1 :: u64) - 1) :: u32;
          (acc, held, pos) = refill_accumulator input bit_width st
      in ucast (acc AND ucast m) #
         unpack_loop n input bit_width (drop_bit bit_width acc, held - bit_width, pos))"

text \<open>
  A kernel is given the input and fills an output array; the array is a function of
  the index, of which the caller uses the first 8, or the first \<open>wvals\<close>.
\<close>

type_synonym unpack_fn = "bytes \<Rightarrow> nat \<Rightarrow> u32"

record bitunpack_dispatch =
  bitunpack8_u32 :: "nat \<Rightarrow> unpack_fn option"
  bitunpack_wide :: "nat \<Rightarrow> (nat \<times> unpack_fn) option"

definition carquet_dispatch_get_bitunpack8_fn ::
    "bitunpack_dispatch \<Rightarrow> nat \<Rightarrow> unpack_fn option" where
  "carquet_dispatch_get_bitunpack8_fn ds bit_width =
     (if 32 < bit_width then None else bitunpack8_u32 ds bit_width)"

definition carquet_dispatch_get_bitunpack_wide ::
    "bitunpack_dispatch \<Rightarrow> nat \<Rightarrow> (nat \<times> unpack_fn) option" where
  "carquet_dispatch_get_bitunpack_wide ds bit_width =
     (if bit_width < 1 \<or> 32 < bit_width then None else bitunpack_wide ds bit_width)"

definition scalar_dispatch :: bitunpack_dispatch where
  "scalar_dispatch = \<lparr>bitunpack8_u32 = (\<lambda>_. None), bitunpack_wide = (\<lambda>_. None)\<rparr>"

definition carquet_bitunpack8_32 :: "bitunpack_dispatch \<Rightarrow> bytes \<Rightarrow> nat \<Rightarrow> u32 list" where
  "carquet_bitunpack8_32 ds input bit_width =
     (if bit_width = 0 then replicate 8 0
      else case carquet_dispatch_get_bitunpack8_fn ds bit_width of
             Some simd_fn \<Rightarrow> map (simd_fn input) [0..<8]
           | None \<Rightarrow>
               if bit_width = 1 then carquet_bitunpack8_1bit input
               else if bit_width = 2 then carquet_bitunpack8_2bit input
               else if bit_width = 3 then carquet_bitunpack8_3bit input
               else if bit_width = 4 then carquet_bitunpack8_4bit input
               else if bit_width = 5 then carquet_bitunpack8_5bit input
               else if bit_width = 6 then carquet_bitunpack8_6bit input
               else if bit_width = 7 then carquet_bitunpack8_7bit input
               else if bit_width = 8 then carquet_bitunpack8_8bit input
               else unpack_loop 8 input bit_width (0, 0, 0))"

definition carquet_get_bitunpack8_fn ::
    "bitunpack_dispatch \<Rightarrow> nat \<Rightarrow> (bytes \<Rightarrow> u32 list) option" where
  "carquet_get_bitunpack8_fn ds bit_width =
     (if bit_width < 1 \<or> 8 < bit_width then None
      else case carquet_dispatch_get_bitunpack8_fn ds bit_width of
             Some simd_fn \<Rightarrow> Some (\<lambda>input. map (simd_fn input) [0..<8])
           | None \<Rightarrow>
               Some ([carquet_bitunpack8_1bit, carquet_bitunpack8_2bit, carquet_bitunpack8_3bit,
                      carquet_bitunpack8_4bit, carquet_bitunpack8_5bit, carquet_bitunpack8_6bit,
                      carquet_bitunpack8_7bit, carquet_bitunpack8_8bit] ! (bit_width - 1)))"

lemma length_unpack_loop [simp]: "length (unpack_loop n input w st) = n"
  by (induction n arbitrary: st) (simp_all add: Let_def split: prod.split)

lemma length_bitunpack8_32 [simp]: "length (carquet_bitunpack8_32 ds input w) = 8"
  by (simp add: carquet_bitunpack8_32_def carquet_bitunpack8_1bit_def carquet_bitunpack8_2bit_def
      carquet_bitunpack8_3bit_def carquet_bitunpack8_4bit_def carquet_bitunpack8_5bit_def
      carquet_bitunpack8_6bit_def carquet_bitunpack8_7bit_def carquet_bitunpack8_8bit_def Let_def
      split: option.split)

subsection \<open>Unpacking any number of values\<close>

definition carquet_packed_size :: "nat \<Rightarrow> nat \<Rightarrow> nat" where
  "carquet_packed_size count bit_width = (count * bit_width + 7) div 8"

text \<open>
  The three loops of \<^verbatim>\<open>carquet_bitunpack_32\<close>: wide kernels, groups of 8, and a tail
  unpacked from a zero-padded copy. Each returns the values and the input bytes consumed.
\<close>

function unpack_wide_loop ::
    "nat \<Rightarrow> unpack_fn \<Rightarrow> nat \<Rightarrow> bytes \<Rightarrow> nat \<Rightarrow> u32 list \<times> nat \<times> nat" where
  "unpack_wide_loop wvals wide_fn wbytes input count =
     (if 0 < wvals \<and> wvals \<le> count
      then let (vs, consumed, rest) =
                 unpack_wide_loop wvals wide_fn wbytes (drop wbytes input) (count - wvals)
           in (map (wide_fn input) [0..<wvals] @ vs, wbytes + consumed, rest)
      else ([], 0, count))"
  by pat_completeness auto
termination
  by (relation "measure (\<lambda>(wvals, wide_fn, wbytes, input, count). count)") auto

function unpack_group_loop ::
    "bitunpack_dispatch \<Rightarrow> nat \<Rightarrow> bytes \<Rightarrow> nat \<Rightarrow> u32 list \<times> nat" where
  "unpack_group_loop ds bit_width input count =
     (if 8 \<le> count
      then let (vs, consumed) =
                 unpack_group_loop ds bit_width (drop bit_width input) (count - 8)
           in (carquet_bitunpack8_32 ds input bit_width @ vs, bit_width + consumed)
      else if 0 < count
      then let tail_bytes = carquet_packed_size count bit_width;
               padded = take 32 (take tail_bytes input @ replicate 32 0)
           in (take count (carquet_bitunpack8_32 ds padded bit_width), tail_bytes)
      else ([], 0))"
  by pat_completeness auto
termination
  by (relation "measure (\<lambda>(ds, bit_width, input, count). count)") auto

declare unpack_wide_loop.simps [simp del] unpack_group_loop.simps [simp del]

definition carquet_bitunpack_32 ::
    "bitunpack_dispatch \<Rightarrow> bytes \<Rightarrow> nat \<Rightarrow> nat \<Rightarrow> u32 list \<times> nat" where
  "carquet_bitunpack_32 ds input count bit_width =
     (if bit_width = 0 then (replicate count 0, 0)
      else
        let (vs, consumed, rest) =
              (case carquet_dispatch_get_bitunpack_wide ds bit_width of
                 None \<Rightarrow> ([], 0, count)
               | Some (wvals, wide_fn) \<Rightarrow>
                   unpack_wide_loop wvals wide_fn (carquet_packed_size wvals bit_width) input count);
            (vs', consumed') = unpack_group_loop ds bit_width (drop consumed input) rest
        in (vs @ vs', consumed + consumed'))"

subsection \<open>Packing\<close>

text \<open>\<open>or_at out i x\<close> is \<^verbatim>\<open>output[i] |= x\<close>.\<close>

definition or_at :: "bytes \<Rightarrow> nat \<Rightarrow> u8 \<Rightarrow> bytes" where
  "or_at out i x = out[i := out ! i OR x]"

function pack_bytes_loop :: "nat \<Rightarrow> u32 \<Rightarrow> nat \<Rightarrow> nat \<Rightarrow> bytes \<Rightarrow> bytes" where
  "pack_bytes_loop bit_width val bits_written byte_pos out =
     (if bits_written < bit_width
      then pack_bytes_loop bit_width (drop_bit 8 val) (bits_written + 8) (byte_pos + 1)
             (or_at out byte_pos (ucast val))
      else out)"
  by pat_completeness auto
termination
  by (relation "measure (\<lambda>(bit_width, val, bits_written, byte_pos, out). bit_width - bits_written)") auto

declare pack_bytes_loop.simps [simp del]

definition pack_value :: "nat \<Rightarrow> nat \<Rightarrow> u32 \<Rightarrow> bytes \<Rightarrow> bytes" where
  "pack_value bit_width bit_pos v out =
     (let m = ucast (push_bit bit_width (1 :: u64) - 1) :: u32;
          val = v AND m;
          byte_pos = bit_pos div 8;
          bit_offset = bit_pos mod 8;
          out1 = or_at out byte_pos (ucast (push_bit bit_offset val));
          bits_written = 8 - bit_offset
      in if bits_written < bit_width
         then pack_bytes_loop bit_width (drop_bit bits_written val) bits_written (byte_pos + 1) out1
         else out1)"

primrec pack_loop :: "nat \<Rightarrow> nat \<Rightarrow> u32 list \<Rightarrow> bytes \<Rightarrow> bytes" where
  "pack_loop bit_width bit_pos [] out = out"
| "pack_loop bit_width bit_pos (v # vs) out =
     pack_loop bit_width (bit_pos + bit_width) vs (pack_value bit_width bit_pos v out)"

definition carquet_bitpack8_32 :: "u32 list \<Rightarrow> nat \<Rightarrow> bytes" where
  "carquet_bitpack8_32 values bit_width =
     (if bit_width = 0 then []
      else if bit_width = 8 then map ucast (take 8 values)
      else pack_loop bit_width 0 (take 8 values) (replicate bit_width 0))"

text \<open>
  The bytes written to \<^verbatim>\<open>output\<close> and the returned count. A tail of fewer than 8 values
  is packed as a zero-padded group of 8: all \<open>bit_width\<close> bytes of that group are
  written, of which only the packed size counts.
\<close>

function carquet_bitpack_32 :: "u32 list \<Rightarrow> nat \<Rightarrow> bytes \<times> nat" where
  "carquet_bitpack_32 values bit_width =
     (if bit_width = 0 \<or> values = [] then ([], 0)
      else if 8 \<le> length values
      then let (out, n) = carquet_bitpack_32 (drop 8 values) bit_width
           in (carquet_bitpack8_32 values bit_width @ out, bit_width + n)
      else (carquet_bitpack8_32 (values @ replicate (8 - length values) 0) bit_width,
            carquet_packed_size (length values) bit_width))"
  by pat_completeness auto
termination
  by (relation "measure (\<lambda>(values, bit_width). length values)") auto

declare carquet_bitpack_32.simps [simp del]

subsection \<open>Bit widths\<close>

text \<open>The portable branch of \<^verbatim>\<open>carquet_clz32\<close> and \<^verbatim>\<open>carquet_clz64\<close>.\<close>

definition clz_step :: "nat \<Rightarrow> 'a::len word \<Rightarrow> nat \<times> 'a word \<Rightarrow> nat \<times> 'a word" where
  "clz_step s limit st = (case st of (n, v) \<Rightarrow> if v \<le> limit then (n + s, push_bit s v) else (n, v))"

definition carquet_clz32 :: "u32 \<Rightarrow> nat" where
  "carquet_clz32 v =
     (if v = 0 then 32
      else let st = clz_step 2 0x3FFFFFFF (clz_step 4 0x0FFFFFFF
                      (clz_step 8 0x00FFFFFF (clz_step 16 0x0000FFFF (0, v))))
           in if snd st \<le> 0x7FFFFFFF then fst st + 1 else fst st)"

definition carquet_clz64 :: "u64 \<Rightarrow> nat" where
  "carquet_clz64 v =
     (if v = 0 then 64
      else let st = clz_step 2 0x3FFFFFFFFFFFFFFF (clz_step 4 0x0FFFFFFFFFFFFFFF
                      (clz_step 8 0x00FFFFFFFFFFFFFF (clz_step 16 0x0000FFFFFFFFFFFF
                        (clz_step 32 0x00000000FFFFFFFF (0, v)))))
           in if snd st \<le> 0x7FFFFFFFFFFFFFFF then fst st + 1 else fst st)"

definition carquet_bit_width32 :: "u32 \<Rightarrow> nat" where
  "carquet_bit_width32 v = (if v = 0 then 0 else 32 - carquet_clz32 v)"

definition carquet_bit_width64 :: "u64 \<Rightarrow> nat" where
  "carquet_bit_width64 v = (if v = 0 then 0 else 64 - carquet_clz64 v)"

subsection \<open>Legacy levels\<close>

primrec msb_value :: "nat \<Rightarrow> bytes \<Rightarrow> nat \<Rightarrow> u32 \<Rightarrow> u32" where
  "msb_value 0 data bitpos v = v"
| "msb_value (Suc b) data bitpos v =
     msb_value b data (bitpos + 1)
       (push_bit 1 v OR ucast (drop_bit (7 - bitpos mod 8) (data ! (bitpos div 8)) AND 1))"

text \<open>\<open>None\<close> is the -1 return; otherwise the levels and the bytes consumed.\<close>

definition carquet_decode_bitpacked_levels ::
    "bytes \<Rightarrow> int \<Rightarrow> int \<Rightarrow> (i16 list \<times> nat) option" where
  "carquet_decode_bitpacked_levels data bit_width count =
     (if count < 0 then None
      else if bit_width = 0 then Some (replicate (nat count) 0, 0)
      else if bit_width < 0 \<or> 16 < bit_width then None
      else let w = nat bit_width; n = nat count; needed = (n * w + 7) div 8 in
           if length data < needed then None
           else Some (map (\<lambda>i. ucast (msb_value w data (i * w) 0)) [0..<n], needed))"

section \<open>The packed format\<close>

text \<open>Bit \<open>i\<close> of a packed stream, and value \<open>j\<close> of width \<open>w\<close> in it.\<close>

definition packed_bit :: "bytes \<Rightarrow> nat \<Rightarrow> bool" where
  "packed_bit bs i \<longleftrightarrow> i < 8 * length bs \<and> bit (bs ! (i div 8)) (i mod 8)"

definition packed_value :: "nat \<Rightarrow> bytes \<Rightarrow> nat \<Rightarrow> u32" where
  "packed_value w bs j = horner_sum of_bool 2 (map (\<lambda>k. packed_bit bs (j * w + k)) [0..<w])"

definition packed_values :: "nat \<Rightarrow> bytes \<Rightarrow> nat \<Rightarrow> u32 list" where
  "packed_values w bs n = map (packed_value w bs) [0..<n]"

lemma bit_packed_value:
  "bit (packed_value w bs j) k \<longleftrightarrow> k < 32 \<and> k < w \<and> packed_bit bs (j * w + k)"
  by (auto simp: packed_value_def bit_horner_sum_bit_word_iff)

lemma length_packed_values [simp]: "length (packed_values w bs n) = n"
  by (simp add: packed_values_def)

lemma packed_bit_le_load:
  "bit (le_load bs :: 'a::len word) i \<longleftrightarrow> i < LENGTH('a) \<and> packed_bit bs i"
  by (simp add: bit_le_load_iff packed_bit_def)

lemma packed_bit_take: "packed_bit (take n bs) i \<longleftrightarrow> i < 8 * n \<and> packed_bit bs i"
  by (auto simp: packed_bit_def)

lemma packed_bit_drop: "packed_bit (drop n bs) i \<longleftrightarrow> packed_bit bs (8 * n + i)"
proof -
  have "(8 * n + i) div 8 = n + i div 8" "(8 * n + i) mod 8 = i mod 8" by simp_all
  then show ?thesis by (auto simp: packed_bit_def)
qed

lemma packed_bit_append_zeros: "packed_bit (bs @ replicate n 0) i \<longleftrightarrow> packed_bit bs i"
  by (auto simp: packed_bit_def nth_append)

section \<open>Eight values at a time\<close>

lemma kernel_value:
  fixes v :: "'a::len word"
  assumes v: "v = le_load (take w p)" and len: "8 * w \<le> LENGTH('a)" "j < 8"
  shows "(ucast (drop_bit (j * w) v AND mask w) :: u32) = packed_value w p j"
proof (rule bit_word_eqI)
  fix k assume k: "k < LENGTH(32)"
  have "j * w + k < 8 * w" if "k < w"
  proof -
    have "j * w + k < Suc j * w" using that by simp
    also have "\<dots> \<le> 8 * w" using len(2) by (intro mult_le_mono1) simp
    finally show ?thesis .
  qed
  then show "bit (ucast (drop_bit (j * w) v AND mask w) :: u32) k \<longleftrightarrow> bit (packed_value w p j) k"
    using k len(1) by (auto simp: v bit_simps packed_bit_le_load packed_bit_take bit_packed_value ac_simps)
qed

lemma kernel_values:
  fixes v :: "'a::len word"
  assumes "v = le_load (take w p)" "8 * w \<le> LENGTH('a)"
  shows "map (\<lambda>j. ucast (drop_bit (j * w) v AND mask w)) [0..<8] = packed_values w p 8"
  using kernel_value [OF assms] by (simp add: packed_values_def)

lemma read_le_loads:
  "2 \<le> length p \<Longrightarrow> read_le16 p = le_load (take 2 p)"
  "3 \<le> length p \<Longrightarrow> read_le24 p = le_load (take 3 p)"
  "4 \<le> length p \<Longrightarrow> read_le32 p = le_load (take 4 p)"
  "5 \<le> length p \<Longrightarrow> read_le40 p = le_load (take 5 p)"
  "6 \<le> length p \<Longrightarrow> read_le48 p = le_load (take 6 p)"
  "7 \<le> length p \<Longrightarrow> read_le56 p = le_load (take 7 p)"
  by (auto simp: read_le16_def read_le24_def read_le32_def read_le40_def read_le48_def read_le56_def
      eval_nat_numeral Suc_le_length_iff push_bit_or ac_simps)

lemma upt_8: "[0..<8] = [0, 1, 2, 3, 4, 5, 6, 7 :: nat]"
  by (simp add: upt_rec)

lemma kernel_list:
  fixes v m :: "'a::len word"
  assumes "v = le_load (take w p)" "8 * w \<le> LENGTH('a)" "m = mask w"
  shows "[ucast (drop_bit 0 v AND m), ucast (drop_bit w v AND m), ucast (drop_bit (2 * w) v AND m),
      ucast (drop_bit (3 * w) v AND m), ucast (drop_bit (4 * w) v AND m), ucast (drop_bit (5 * w) v AND m),
      ucast (drop_bit (6 * w) v AND m), ucast (drop_bit (7 * w) v AND m)] = packed_values w p 8"
  using kernel_value [OF assms(1,2)] kernel_value [OF assms(1,2), of 0] kernel_value [OF assms(1,2), of 1]
  by (simp add: packed_values_def upt_8 assms(3))

lemma bitunpack8_kernels:
  "1 \<le> length p \<Longrightarrow> carquet_bitunpack8_1bit p = packed_values 1 p 8"
  "2 \<le> length p \<Longrightarrow> carquet_bitunpack8_2bit p = packed_values 2 p 8"
  "3 \<le> length p \<Longrightarrow> carquet_bitunpack8_3bit p = packed_values 3 p 8"
  "4 \<le> length p \<Longrightarrow> carquet_bitunpack8_4bit p = packed_values 4 p 8"
  "5 \<le> length p \<Longrightarrow> carquet_bitunpack8_5bit p = packed_values 5 p 8"
  "6 \<le> length p \<Longrightarrow> carquet_bitunpack8_6bit p = packed_values 6 p 8"
  "7 \<le> length p \<Longrightarrow> carquet_bitunpack8_7bit p = packed_values 7 p 8"
proof -
  show "carquet_bitunpack8_1bit p = packed_values 1 p 8" if "1 \<le> length p"
  proof -
    have "p ! 0 = le_load (take 1 p)" using that by (cases p) simp_all
    from kernel_list [OF this, of 1] show ?thesis
      by (simp add: carquet_bitunpack8_1bit_def Let_def)
  qed
  show "2 \<le> length p \<Longrightarrow> carquet_bitunpack8_2bit p = packed_values 2 p 8"
    using kernel_list [OF read_le_loads(1), where m = "3"]
    by (simp add: carquet_bitunpack8_2bit_def Let_def mask_eq_exp_minus_1)
  show "3 \<le> length p \<Longrightarrow> carquet_bitunpack8_3bit p = packed_values 3 p 8"
    using kernel_list [OF read_le_loads(2), where m = "7"]
    by (simp add: carquet_bitunpack8_3bit_def Let_def mask_eq_exp_minus_1)
  show "4 \<le> length p \<Longrightarrow> carquet_bitunpack8_4bit p = packed_values 4 p 8"
    using kernel_list [OF read_le_loads(3), where m = "0xF"]
    by (simp add: carquet_bitunpack8_4bit_def Let_def mask_eq_exp_minus_1)
  show "5 \<le> length p \<Longrightarrow> carquet_bitunpack8_5bit p = packed_values 5 p 8"
    using kernel_list [OF read_le_loads(4), where m = "0x1F"]
    by (simp add: carquet_bitunpack8_5bit_def Let_def mask_eq_exp_minus_1)
  show "6 \<le> length p \<Longrightarrow> carquet_bitunpack8_6bit p = packed_values 6 p 8"
    using kernel_list [OF read_le_loads(5), where m = "0x3F"]
    by (simp add: carquet_bitunpack8_6bit_def Let_def mask_eq_exp_minus_1)
  show "7 \<le> length p \<Longrightarrow> carquet_bitunpack8_7bit p = packed_values 7 p 8"
    using kernel_list [OF read_le_loads(6), where m = "0x7F"]
    by (simp add: carquet_bitunpack8_7bit_def Let_def mask_eq_exp_minus_1)
qed

lemma bitunpack8_8bit_spec:
  assumes "8 \<le> length p"
  shows "carquet_bitunpack8_8bit p = packed_values 8 p 8"
proof -
  have "ucast (p ! j) = packed_value 8 p j" if "j < 8" for j
  proof (rule bit_word_eqI)
    fix k assume "k < LENGTH(32)"
    show "bit (ucast (p ! j) :: u32) k \<longleftrightarrow> bit (packed_value 8 p j) k"
    proof (cases "k < 8")
      case True
      then have "(j * 8 + k) div 8 = j" "(j * 8 + k) mod 8 = k" by simp_all
      with True that assms show ?thesis
        by (simp add: bit_simps bit_packed_value packed_bit_def)
    qed (auto simp: bit_simps bit_packed_value dest: bit_imp_le_length)
  qed
  then show ?thesis
    by (simp add: carquet_bitunpack8_8bit_def packed_values_def upt_8)
qed

subsection \<open>The accumulator loop\<close>

text \<open>
  The accumulator holds exactly the \<open>held\<close> bits of the stream that follow the
  \<open>done\<close> bits already delivered.
\<close>

definition acc_inv :: "bytes \<Rightarrow> nat \<Rightarrow> nat \<Rightarrow> u64 \<times> nat \<times> nat \<Rightarrow> bool" where
  "acc_inv p w done st \<longleftrightarrow> (case st of (acc, held, pos) \<Rightarrow>
     done + held = 8 * pos \<and> held < w + 8 \<and>
     (\<forall>i. bit acc i \<longleftrightarrow> i < held \<and> packed_bit p (done + i)))"

lemma refill_accumulator_inv:
  assumes "acc_inv p w done st" "w \<le> 32" "done + w \<le> 8 * length p"
  shows "acc_inv p w done (refill_accumulator p w st) \<and> w \<le> fst (snd (refill_accumulator p w st))"
  using assms
proof (induction p w st rule: refill_accumulator.induct)
  case (1 p w acc held pos)
  have inv: "done + held = 8 * pos" "held < w + 8"
      "\<And>i. bit acc i \<longleftrightarrow> i < held \<and> packed_bit p (done + i)"
    using "1.prems"(1) by (auto simp: acc_inv_def)
  show ?case
  proof (cases "held < w")
    case False
    with "1.prems" show ?thesis by (simp add: refill_accumulator.simps)
  next
    case True
    have pos: "pos < length p" using inv(1) True "1.prems"(3) by linarith
    have h: "held < 32" using True "1.prems"(2) by simp
    have "bit (acc OR push_bit held (ucast (p ! pos))) i \<longleftrightarrow> i < held + 8 \<and> packed_bit p (done + i)" for i
    proof (cases "i < held")
      case True
      then show ?thesis by (simp add: bit_or_iff inv(3) bit_push_bit_iff)
    next
      case False
      then obtain j where j: "i = held + j" using le_add_diff_inverse not_le by metis
      have s: "done + i = 8 * pos + j" using inv(1) j by simp
      have b: "bit (acc OR push_bit held (ucast (p ! pos))) i \<longleftrightarrow> held + j < 64 \<and> bit (p ! pos) j"
        by (auto simp: bit_or_iff inv(3) bit_push_bit_iff j bit_ucast_iff)
      show ?thesis
      proof (cases "j < 8")
        case True
        then have "(8 * pos + j) div 8 = pos" "(8 * pos + j) mod 8 = j" by simp_all
        then show ?thesis
          unfolding b s using True pos h j by (auto simp: packed_bit_def)
      next
        case False
        then have "\<not> bit (p ! pos) j" by (auto dest: bit_imp_le_length)
        then show ?thesis unfolding b using False j by simp
      qed
    qed
    then have "acc_inv p w done (acc OR push_bit held (ucast (p ! pos)), held + 8, pos + 1)"
      using inv True by (simp add: acc_inv_def)
    from "1.IH" [OF True this "1.prems"(2,3)] True show ?thesis
      by (subst (1 2) refill_accumulator.simps) simp
  qed
qed

lemma width_mask:
  assumes "w \<le> 32"
  shows "bit (ucast (push_bit w (1 :: u64) - 1) :: u32) i \<longleftrightarrow> i < 32 \<and> i < w"
proof -
  have "push_bit w (1 :: u64) - 1 = mask w" by (simp add: mask_eq_exp_minus_1 push_bit_eq_mult)
  then show ?thesis by (simp only:) (auto simp: bit_simps)
qed

lemma unpack_loop_spec:
  assumes "w \<le> 32" "acc_inv p w (j * w) st" "(j + n) * w \<le> 8 * length p"
  shows "unpack_loop n p w st = map (packed_value w p) [j..<j + n]"
  using assms(2,3)
proof (induction n arbitrary: j st)
  case (Suc n)
  obtain acc held pos where r: "refill_accumulator p w st = (acc, held, pos)" by (metis prod_cases3)
  have "j * w + w \<le> 8 * length p"
    using Suc.prems(2) by (simp add: algebra_simps)
  then have inv: "j * w + held = 8 * pos" "held < w + 8" "w \<le> held"
      "\<And>i. bit acc i \<longleftrightarrow> i < held \<and> packed_bit p (j * w + i)"
    using refill_accumulator_inv [OF Suc.prems(1) assms(1)] r by (auto simp: acc_inv_def)
  define m where "m = (ucast (push_bit w (1 :: u64) - 1) :: u32)"
  have "ucast (acc AND ucast m) = packed_value w p j"
  proof (rule bit_word_eqI)
    fix k assume "k < LENGTH(32)"
    moreover have "bit m k \<longleftrightarrow> k < 32 \<and> k < w"
      unfolding m_def by (rule width_mask [OF assms(1)])
    ultimately show "bit (ucast (acc AND ucast m) :: u32) k \<longleftrightarrow> bit (packed_value w p j) k"
      using inv(3) by (auto simp: bit_ucast_iff bit_and_iff inv(4) bit_packed_value)
  qed
  moreover have "acc_inv p w (Suc j * w) (drop_bit w acc, held - w, pos)"
    using inv(1-3) by (auto simp: acc_inv_def bit_drop_bit_eq inv(4) ac_simps)
  moreover have "(Suc j + n) * w \<le> 8 * length p"
    using Suc.prems(2) by simp
  moreover have "[j..<j + Suc n] = j # [Suc j..<Suc j + n]"
    by (simp add: upt_rec)
  ultimately show ?case
    using Suc.IH [of "Suc j"] r by (simp add: Let_def m_def)
qed simp

section \<open>The kernels' contract\<close>

text \<open>
  What \<^verbatim>\<open>simd/dispatch.c\<close> documents of the tables: an 8-value kernel unpacks one group,
  a wide kernel is identical to that many scalar group unpacks.
\<close>

locale unpack_kernels =
  fixes ds :: bitunpack_dispatch
  assumes kernel8: "\<lbrakk>bitunpack8_u32 ds w = Some f; 1 \<le> w; w \<le> 32; w \<le> length p\<rbrakk> \<Longrightarrow>
      map (f p) [0..<8] = packed_values w p 8"
    and wide_size: "\<lbrakk>bitunpack_wide ds w = Some (n, f); 1 \<le> w; w \<le> 32\<rbrakk> \<Longrightarrow> 0 < n \<and> 8 dvd n"
    and wide: "\<lbrakk>bitunpack_wide ds w = Some (n, f); 1 \<le> w; w \<le> 32; n * w \<le> 8 * length p\<rbrakk> \<Longrightarrow>
      map (f p) [0..<n] = packed_values w p n"

lemma packed_values_0 [simp]: "packed_values w p 0 = []"
  by (simp add: packed_values_def)

lemma packed_values_width0: "packed_values 0 p n = replicate n 0"
  by (rule nth_equalityI) (simp_all add: packed_values_def packed_value_def)

lemma take_packed_values: "m \<le> n \<Longrightarrow> take m (packed_values w p n) = packed_values w p m"
  by (simp add: packed_values_def take_map)

lemma packed_value_cong:
  assumes "\<And>i. i < w \<Longrightarrow> packed_bit p (j * w + i) \<longleftrightarrow> packed_bit q (k * w + i)"
  shows "packed_value w p j = packed_value w q k"
  unfolding packed_value_def using assms by (auto intro!: arg_cong [where f = "horner_sum of_bool 2"])

lemma packed_values_split:
  assumes "8 dvd m"
  shows "packed_values w p (m + n) = packed_values w p m @ packed_values w (drop (m * w div 8) p) n"
proof -
  have "8 * (m * w div 8) = m * w" using assms by simp
  then have "packed_value w p (m + j) = packed_value w (drop (m * w div 8) p) j" for j
    by (intro packed_value_cong) (simp add: packed_bit_drop algebra_simps)
  then have "map (packed_value w p) [m..<m + n] = map (packed_value w (drop (m * w div 8) p)) [0..<n]"
    by (intro nth_equalityI) simp_all
  then show ?thesis
    by (simp add: packed_values_def upt_add_eq_append [of 0 m n])
qed

lemma packed_size_split:
  "8 dvd m \<Longrightarrow> carquet_packed_size (m + n) w = m * w div 8 + carquet_packed_size n w"
  by (auto simp: carquet_packed_size_def algebra_simps elim!: dvdE)

lemma packed_size_bound: "n * w \<le> 8 * carquet_packed_size n w"
  unfolding carquet_packed_size_def by linarith

context unpack_kernels
begin

lemma bitunpack8_32_spec:
  assumes "w \<le> 32" "w \<le> length p"
  shows "carquet_bitunpack8_32 ds p w = packed_values w p 8"
proof (cases "carquet_dispatch_get_bitunpack8_fn ds w")
  case (Some f)
  then show ?thesis
    using kernel8 [of w f p] assms packed_values_width0 [of p 8]
    by (auto simp: carquet_bitunpack8_32_def carquet_dispatch_get_bitunpack8_fn_def split: if_splits)
next
  case None
  have "unpack_loop 8 p w (0, 0, 0) = packed_values w p 8"
    using unpack_loop_spec [of w p 0 "(0, 0, 0)" 8] assms
    by (simp add: acc_inv_def packed_values_def)
  then show ?thesis
    using assms(2) by (simp add: carquet_bitunpack8_32_def None packed_values_width0
        bitunpack8_kernels [simplified] bitunpack8_8bit_spec)
qed

lemma unpack_tail_spec:
  assumes "w \<le> 32" "n < 8" "carquet_packed_size n w \<le> length p"
  defines "padded \<equiv> take 32 (take (carquet_packed_size n w) p @ replicate 32 0)"
  shows "take n (carquet_bitunpack8_32 ds padded w) = packed_values w p n"
proof -
  have "n * w \<le> 7 * 32" using assms(1,2) by (intro mult_le_mono) simp_all
  then have t: "carquet_packed_size n w \<le> 32" by (simp add: carquet_packed_size_def)
  then have len: "length padded = 32" using assms(3) by (simp add: padded_def)
  have "packed_bit padded i \<longleftrightarrow> packed_bit p i" if "i < n * w" for i
    using that packed_size_bound [of n w] t
    by (auto simp: padded_def packed_bit_take packed_bit_append_zeros)
  moreover have "j * w + i < n * w" if "j < n" "i < w" for i j
  proof -
    have "j * w + i < Suc j * w" using that by simp
    also have "\<dots> \<le> n * w" using that by (intro mult_le_mono1) simp
    finally show ?thesis .
  qed
  ultimately have "packed_value w padded j = packed_value w p j" if "j < n" for j
    using that by (intro packed_value_cong) simp
  then have "packed_values w padded n = packed_values w p n"
    by (simp add: packed_values_def)
  moreover have "carquet_bitunpack8_32 ds padded w = packed_values w padded 8"
    using bitunpack8_32_spec assms(1) len by simp
  ultimately show ?thesis
    using assms(2) by (simp add: take_packed_values)
qed

lemma unpack_group_loop_spec:
  "w \<le> 32 \<Longrightarrow> carquet_packed_size n w \<le> length p \<Longrightarrow>
   unpack_group_loop ds w p n = (packed_values w p n, carquet_packed_size n w)"
proof (induction n arbitrary: p rule: less_induct)
  case (less n)
  consider "8 \<le> n" | "0 < n" "n < 8" | "n = 0" by linarith
  then show ?case
  proof cases
    case 1
    then obtain m where n: "n = 8 + m" using le_Suc_ex by blast
    have size: "carquet_packed_size n w = w + carquet_packed_size m w"
      using packed_size_split [of 8 m w] n by simp
    with less.prems have len: "w \<le> length p" "carquet_packed_size m w \<le> length (drop w p)" by simp_all
    show ?thesis
      using less.IH [of m "drop w p"] less.prems(1) len bitunpack8_32_spec [of w p]
        packed_values_split [of 8 w p m] size n
      by (subst unpack_group_loop.simps) simp
  next
    case 2
    with unpack_tail_spec [of w n p] less.prems show ?thesis
      by (subst unpack_group_loop.simps) (simp add: Let_def)
  next
    case 3
    then show ?thesis
      by (subst unpack_group_loop.simps) (simp add: carquet_packed_size_def)
  qed
qed

lemma unpack_wide_loop_spec:
  assumes "bitunpack_wide ds w = Some (m, f)" "1 \<le> w" "w \<le> 32"
  shows "n * w \<le> 8 * length p \<Longrightarrow>
    \<exists>k. 8 dvd k \<and> k \<le> n \<and>
      unpack_wide_loop m f (carquet_packed_size m w) p n = (packed_values w p k, k * w div 8, n - k)"
proof (induction n arbitrary: p rule: less_induct)
  case (less n)
  have m: "0 < m" "8 dvd m" using wide_size [OF assms] by auto
  show ?case
  proof (cases "m \<le> n")
    case False
    then show ?thesis
      by (intro exI [of _ 0]) (subst unpack_wide_loop.simps, simp)
  next
    case True
    then obtain n' where n: "n = m + n'" using le_Suc_ex by blast
    have size: "carquet_packed_size m w = m * w div 8" and e: "8 * (m * w div 8) = m * w"
      using packed_size_split [of m 0 w] m(2) by (simp_all add: carquet_packed_size_def)
    have len: "m * w \<le> 8 * length p" "n' * w \<le> 8 * length (drop (m * w div 8) p)"
      using less.prems e by (auto simp: n algebra_simps)
    obtain k where k: "8 dvd k" "k \<le> n'" "unpack_wide_loop m f (carquet_packed_size m w)
        (drop (m * w div 8) p) n' = (packed_values w (drop (m * w div 8) p) k, k * w div 8, n' - k)"
      using less.IH [of n' "drop (m * w div 8) p"] len(2) m(1) n by auto
    have "unpack_wide_loop m f (carquet_packed_size m w) p n =
        (packed_values w p (m + k), (m + k) * w div 8, n - (m + k))"
      using k m True n wide [OF assms len(1)] packed_values_split [OF m(2), of w p k]
      by (subst unpack_wide_loop.simps) (auto simp: size algebra_simps elim!: dvdE)
    then show ?thesis
      using k m n by (intro exI [of _ "m + k"]) simp
  qed
qed

theorem bitunpack_32_spec:
  assumes "w \<le> 32" "carquet_packed_size n w \<le> length p"
  shows "carquet_bitunpack_32 ds p n w = (packed_values w p n, carquet_packed_size n w)"
proof (cases "w = 0")
  case True
  then show ?thesis
    by (simp add: carquet_bitunpack_32_def packed_values_width0 carquet_packed_size_def)
next
  case w: False
  show ?thesis
  proof (cases "carquet_dispatch_get_bitunpack_wide ds w")
    case None
    then show ?thesis
      using unpack_group_loop_spec [OF assms] w by (simp add: carquet_bitunpack_32_def)
  next
    case (Some mf)
    then obtain m f where f: "bitunpack_wide ds w = Some (m, f)" and mf: "mf = (m, f)"
      by (cases mf) (auto simp: carquet_dispatch_get_bitunpack_wide_def split: if_splits)
    have "n * w \<le> 8 * length p"
      using packed_size_bound [of n w] assms(2) by linarith
    then obtain k where k: "8 dvd k" "k \<le> n" "unpack_wide_loop m f (carquet_packed_size m w) p n =
        (packed_values w p k, k * w div 8, n - k)"
      using unpack_wide_loop_spec [OF f] w assms(1) by (metis One_nat_def Suc_leI neq0_conv)
    have size: "carquet_packed_size n w = k * w div 8 + carquet_packed_size (n - k) w"
      using packed_size_split [OF k(1), of "n - k" w] k(2) by simp
    then show ?thesis
      using w Some mf k packed_values_split [OF k(1), of w p "n - k"] assms
        unpack_group_loop_spec [of w "n - k" "drop (k * w div 8) p"]
      by (simp add: carquet_bitunpack_32_def)
  qed
qed

end

interpretation scalar: unpack_kernels scalar_dispatch
  by unfold_locales (simp_all add: scalar_dispatch_def)

section \<open>Packing\<close>

lemma length_or_at [simp]: "length (or_at out k x) = length out"
  by (simp add: or_at_def)

lemma packed_bit_or_at:
  assumes "k < length out"
  shows "packed_bit (or_at out k x) i \<longleftrightarrow> packed_bit out i \<or> i div 8 = k \<and> bit x (i mod 8)"
  using assms by (auto simp: packed_bit_def or_at_def bit_or_iff nth_list_update)

lemma pack_bytes_loop_spec:
  assumes "\<And>j. bit val j \<Longrightarrow> j < w - b" "8 * k + (w - b) \<le> 8 * length out"
  shows "length (pack_bytes_loop w val b k out) = length out \<and>
    (packed_bit (pack_bytes_loop w val b k out) i \<longleftrightarrow>
       packed_bit out i \<or> 8 * k \<le> i \<and> bit val (i - 8 * k))"
  using assms
proof (induction w val b k out rule: pack_bytes_loop.induct)
  case (1 w val b k out)
  show ?case
  proof (cases "b < w")
    case False
    then have "\<not> bit val j" for j using "1.prems"(1) [of j] by auto
    with False show ?thesis by (simp add: pack_bytes_loop.simps)
  next
    case True
    then have k: "k < length out" using "1.prems"(2) by simp
    let ?out = "or_at out k (ucast val)"
    have len: "8 * (k + 1) + (w - (b + 8)) \<le> 8 * length ?out"
      using "1.prems"(2) True k by simp
    have dr: "bit (drop_bit 8 val) j \<Longrightarrow> j < w - (b + 8)" for j
      using "1.prems"(1) [of "8 + j"] by (simp add: bit_drop_bit_eq)
    note IH = "1.IH" [OF True dr len]
    have "packed_bit (pack_bytes_loop w (drop_bit 8 val) (b + 8) (k + 1) ?out) i \<longleftrightarrow>
        packed_bit out i \<or> 8 * k \<le> i \<and> bit val (i - 8 * k)"
    proof (cases "i div 8 = k")
      case True
      then have "i = 8 * k + i mod 8" using mult_div_mod_eq [of 8 i] by simp
      then have i: "8 * k \<le> i" "i - 8 * k = i mod 8" "\<not> 8 * (k + 1) \<le> i" "i mod 8 < 8" by auto
      then show ?thesis
        using IH True by (auto simp: packed_bit_or_at [OF k] bit_ucast_iff)
    next
      case False
      have "8 * k \<le> i \<longleftrightarrow> 8 * (k + 1) \<le> i" using False by (auto simp: div8_iff)
      then show ?thesis
        using IH False by (auto simp: packed_bit_or_at [OF k] bit_drop_bit_eq)
    qed
    then show ?thesis
      using IH True by (simp add: pack_bytes_loop.simps [of w val b])
  qed
qed

lemma pack_value_spec:
  assumes "0 < w" "w \<le> 32" "bp + w \<le> 8 * length out"
  shows "length (pack_value w bp v out) = length out \<and>
    (packed_bit (pack_value w bp v out) i \<longleftrightarrow>
       packed_bit out i \<or> bp \<le> i \<and> i < bp + w \<and> bit v (i - bp))"
proof -
  define k off where "k = bp div 8" and "off = bp mod 8"
  have bp: "bp = 8 * k + off" "off < 8" by (simp_all add: k_def off_def)
  define val where "val = v AND (ucast (push_bit w (1 :: u64) - 1) :: u32)"
  have val: "bit val j \<longleftrightarrow> j < w \<and> bit v j" for j
    using width_mask [OF assms(2), of j] by (auto simp: val_def bit_and_iff dest: bit_imp_le_length)
  have k: "k < length out" using assms bp by linarith
  define out1 where "out1 = or_at out k (ucast (push_bit off val))"
  have out1: "length out1 = length out" "packed_bit out1 i \<longleftrightarrow>
      packed_bit out i \<or> i div 8 = k \<and> off \<le> i mod 8 \<and> bit val (i mod 8 - off)"
    by (auto simp: out1_def packed_bit_or_at [OF k] bit_ucast_iff bit_push_bit_iff)
  have first: "i div 8 = k \<and> off \<le> i mod 8 \<and> bit val (i mod 8 - off) \<longleftrightarrow>
      i div 8 = k \<and> bp \<le> i \<and> bit val (i - bp)"
  proof (cases "i div 8 = k")
    case True
    then have "i = 8 * k + i mod 8" using mult_div_mod_eq [of 8 i] by simp
    then have "i - bp = i mod 8 - off" "bp \<le> i \<longleftrightarrow> off \<le> i mod 8" using bp by auto
    then show ?thesis by simp
  qed simp
  note div8 = div8_iff [of i k]
  show ?thesis
  proof (cases "8 - off < w")
    case False
    then have "pack_value w bp v out = out1"
      by (simp add: pack_value_def out1_def val_def k_def off_def Let_def)
    moreover have "i div 8 = k \<and> bp \<le> i \<and> bit val (i - bp) \<longleftrightarrow> bp \<le> i \<and> i < bp + w \<and> bit v (i - bp)"
      unfolding div8 val using False bp by auto
    ultimately show ?thesis using out1 first by simp
  next
    case True
    let ?val = "drop_bit (8 - off) val"
    have p: "pack_value w bp v out = pack_bytes_loop w ?val (8 - off) (k + 1) out1"
      using True by (simp add: pack_value_def out1_def val_def k_def off_def Let_def)
    have dr: "bit ?val j \<Longrightarrow> j < w - (8 - off)" for j
      using val [of "8 - off + j"] by (auto simp: bit_drop_bit_eq less_diff_conv ac_simps)
    have len: "8 * (k + 1) + (w - (8 - off)) \<le> 8 * length out1"
      using assms(3) bp True out1(1) by simp
    have l: "length (pack_bytes_loop w ?val (8 - off) (k + 1) out1) = length out1 \<and>
        (packed_bit (pack_bytes_loop w ?val (8 - off) (k + 1) out1) i \<longleftrightarrow>
           packed_bit out1 i \<or> 8 * (k + 1) \<le> i \<and> bit ?val (i - 8 * (k + 1)))"
      by (rule pack_bytes_loop_spec [OF dr len])
    have f1: "8 * (k + 1) \<le> i \<and> bit ?val (i - 8 * (k + 1)) \<longleftrightarrow> 8 * (k + 1) \<le> i \<and> bit val (i - bp)"
    proof -
      have "8 * (k + 1) \<le> i \<Longrightarrow> 8 - off + (i - 8 * (k + 1)) = i - bp" using bp by simp
      then show ?thesis by (auto simp: bit_drop_bit_eq)
    qed
    have f2: "i div 8 = k \<and> bp \<le> i \<or> 8 * (k + 1) \<le> i \<longleftrightarrow> bp \<le> i"
      unfolding div8 using bp by auto
    have f3: "bp \<le> i \<and> bit val (i - bp) \<longleftrightarrow> bp \<le> i \<and> i < bp + w \<and> bit v (i - bp)"
      unfolding val by auto
    have "packed_bit (pack_value w bp v out) i \<longleftrightarrow>
        packed_bit out i \<or> (i div 8 = k \<and> bp \<le> i \<or> 8 * (k + 1) \<le> i) \<and> bit val (i - bp)"
      unfolding p using l out1(2) first f1 by argo
    then show ?thesis
      using l out1(1) f2 f3 unfolding p by argo
  qed
qed

lemma pack_loop_spec:
  assumes "0 < w" "w \<le> 32"
  shows "bp + length vs * w \<le> 8 * length out \<Longrightarrow>
    length (pack_loop w bp vs out) = length out \<and>
    (packed_bit (pack_loop w bp vs out) i \<longleftrightarrow> packed_bit out i \<or>
       bp \<le> i \<and> i < bp + length vs * w \<and> bit (vs ! ((i - bp) div w)) ((i - bp) mod w))"
proof (induction vs arbitrary: bp out)
  case (Cons v vs)
  let ?out = "pack_value w bp v out"
  have 1: "length ?out = length out" "packed_bit ?out i \<longleftrightarrow>
      packed_bit out i \<or> bp \<le> i \<and> i < bp + w \<and> bit v (i - bp)"
    using pack_value_spec [OF assms, of bp out v i] Cons.prems by simp_all
  have 2: "length (pack_loop w (bp + w) vs ?out) = length ?out"
    "packed_bit (pack_loop w (bp + w) vs ?out) i \<longleftrightarrow> packed_bit ?out i \<or>
       bp + w \<le> i \<and> i < bp + w + length vs * w \<and>
       bit (vs ! ((i - (bp + w)) div w)) ((i - (bp + w)) mod w)"
    using Cons.IH [of "bp + w" ?out] Cons.prems 1(1) by simp_all
  show ?case
  proof (cases "bp + w \<le> i")
    case True
    then obtain d where d: "i = bp + w + d" using le_Suc_ex by blast
    have "(w + d) div w = Suc (d div w)" "(w + d) mod w = d mod w" using assms(1) by (simp_all add: div_add_self1)
    then show ?thesis using 1 2 d by (auto simp: add.assoc)
  next
    case False
    then have "bp \<le> i \<Longrightarrow> (i - bp) div w = 0 \<and> (i - bp) mod w = i - bp" by auto
    then show ?thesis using 1 2 False assms(1) by auto
  qed
qed auto

text \<open>The packed group: \<open>w\<close> bytes whose bit \<open>i\<close> is bit \<open>i mod w\<close> of value \<open>i div w\<close>.\<close>

lemma bitpack8_32_spec:
  assumes "w \<le> 32" "8 \<le> length vs"
  shows "length (carquet_bitpack8_32 vs w) = w \<and>
    (packed_bit (carquet_bitpack8_32 vs w) i \<longleftrightarrow> i < 8 * w \<and> bit (vs ! (i div w)) (i mod w))"
proof -
  consider "w = 0" | "w = 8" | "0 < w" "w \<noteq> 8" by blast
  then show ?thesis
  proof cases
    case 1
    then show ?thesis by (simp add: carquet_bitpack8_32_def packed_bit_def)
  next
    case 2
    have "i mod 8 < 8" by simp
    then show ?thesis
      using 2 assms(2) by (auto simp: carquet_bitpack8_32_def packed_bit_def bit_ucast_iff)
  next
    case 3
    have "\<not> packed_bit (replicate w 0) i" by (auto simp: packed_bit_def)
    moreover have "i < 8 * w \<Longrightarrow> i div w < 8" by (simp add: less_mult_imp_div_less)
    ultimately show ?thesis
      using 3 pack_loop_spec [OF 3(1) assms(1), of 0 "take 8 vs" "replicate w 0" i] assms(2)
      by (auto simp: carquet_bitpack8_32_def)
  qed
qed

lemma mult_add_div: "0 < (w::nat) \<Longrightarrow> k < w \<Longrightarrow> (j * w + k) div w = j \<and> (j * w + k) mod w = k"
  by (simp add: mult.commute)

lemma packed_values_bitpack8:
  assumes "w \<le> 32" "8 \<le> length vs" "n \<le> 8"
  shows "packed_values w (carquet_bitpack8_32 vs w) n = map (\<lambda>v. v AND mask w) (take n vs)"
proof (rule nth_equalityI)
  fix j assume "j < length (packed_values w (carquet_bitpack8_32 vs w) n)"
  then have j: "j < n" by simp
  have "packed_value w (carquet_bitpack8_32 vs w) j = vs ! j AND mask w"
  proof (rule bit_word_eqI)
    fix k assume k: "k < LENGTH(32)"
    have "j * w + k < 8 * w" if "k < w"
    proof -
      have "j * w + k < Suc j * w" using that by simp
      also have "\<dots> \<le> 8 * w" using j assms(3) by (intro mult_le_mono1) simp
      finally show ?thesis .
    qed
    then show "bit (packed_value w (carquet_bitpack8_32 vs w) j) k \<longleftrightarrow> bit (vs ! j AND mask w) k"
      using k bitpack8_32_spec [OF assms(1,2), of "j * w + k"] mult_add_div [of w k j]
      by (auto simp: bit_packed_value bit_and_iff bit_mask_iff)
  qed
  then show "packed_values w (carquet_bitpack8_32 vs w) n ! j =
      map (\<lambda>v. v AND mask w) (take n vs) ! j"
    using j assms(2,3) by (simp add: packed_values_def)
qed (use assms in simp)

lemma packed_values_prefix:
  assumes "\<And>i. i < n * w \<Longrightarrow> packed_bit p i \<longleftrightarrow> packed_bit q i"
  shows "packed_values w p n = packed_values w q n"
proof -
  have "j * w + i < n * w" if "j < n" "i < w" for i j
  proof -
    have "j * w + i < Suc j * w" using that by simp
    also have "\<dots> \<le> n * w" using that by (intro mult_le_mono1) simp
    finally show ?thesis .
  qed
  then have "packed_value w p j = packed_value w q j" if "j < n" for j
    using that assms by (intro packed_value_cong) simp
  then show ?thesis by (simp add: packed_values_def)
qed

lemma packed_bit_append: "i < 8 * length a \<Longrightarrow> packed_bit (a @ b) i \<longleftrightarrow> packed_bit a i"
  by (auto simp: packed_bit_def nth_append)

lemma packed_values_take_append:
  assumes "n * w \<le> 8 * m" "m \<le> length p"
  shows "packed_values w (take m p @ r) n = packed_values w p n"
  using assms by (intro packed_values_prefix) (auto simp: packed_bit_append packed_bit_take)

lemma bitpack_32_spec:
  assumes "w \<le> 32" "carquet_bitpack_32 vs w = (out, n)"
  shows "n = carquet_packed_size (length vs) w \<and> n \<le> length out \<and>
    packed_values w out (length vs) = map (\<lambda>v. v AND mask w) vs"
  using assms
proof (induction vs w arbitrary: out n rule: carquet_bitpack_32.induct)
  case (1 vs w)
  consider "w = 0" | "vs = []" | "w \<noteq> 0" "8 \<le> length vs" | "w \<noteq> 0" "vs \<noteq> []" "length vs < 8"
    by linarith
  then show ?case
  proof cases
    case 1
    with "1.prems" show ?thesis
      by (auto simp: carquet_bitpack_32.simps carquet_packed_size_def packed_values_width0
          map_replicate_const)
  next
    case 2
    with "1.prems" show ?thesis
      by (auto simp: carquet_bitpack_32.simps carquet_packed_size_def)
  next
    case 3
    have ne: "vs \<noteq> []" using 3 by auto
    obtain out' n' where r: "carquet_bitpack_32 (drop 8 vs) w = (out', n')" by fastforce
    have o: "out = carquet_bitpack8_32 vs w @ out'" "n = w + n'"
      using "1.prems"(2) 3 ne r by (auto simp: carquet_bitpack_32.simps [of vs])
    have IH: "n' = carquet_packed_size (length vs - 8) w" "n' \<le> length out'"
        "packed_values w out' (length vs - 8) = map (\<lambda>v. v AND mask w) (drop 8 vs)"
      using "1.IH" [OF _ _ "1.prems"(1) r] 3 ne by auto
    have len: "length (carquet_bitpack8_32 vs w) = w"
      using bitpack8_32_spec [OF "1.prems"(1) 3(2)] by simp
    have n: "length vs = 8 + (length vs - 8)" using 3 by simp
    have "packed_values w out (length vs) =
        packed_values w out 8 @ packed_values w (drop w out) (length vs - 8)"
      using packed_values_split [of 8 w out "length vs - 8"] n by simp
    also have "packed_values w out 8 = packed_values w (carquet_bitpack8_32 vs w) 8"
      using packed_values_take_append [of 8 w w "carquet_bitpack8_32 vs w" out'] len o by simp
    finally show ?thesis
      using IH o len packed_values_bitpack8 [OF "1.prems"(1) 3(2), of 8] packed_size_split [of 8 "length vs - 8" w] n
      by (simp flip: map_append)
  next
    case 4
    let ?p = "vs @ replicate (8 - length vs) 0"
    have "length vs * w \<le> 8 * w" using 4 by (intro mult_le_mono1) simp
    then have "carquet_packed_size (length vs) w \<le> w" unfolding carquet_packed_size_def by linarith
    then show ?thesis
      using "1.prems" 4 packed_values_bitpack8 [OF "1.prems"(1), of ?p "length vs"]
        bitpack8_32_spec [OF "1.prems"(1), of ?p]
      by (auto simp: carquet_bitpack_32.simps [of vs])
  qed
qed

section \<open>Properties of packing\<close>

text \<open>
  C4: bit packing round trips. For every width up to 32, unpacking the counted bytes
  that \<^verbatim>\<open>carquet_bitpack_32\<close> produces, whatever follows them, returns the low
  \<open>bit_width\<close> bits of every value and consumes exactly those bytes, with any set of
  SIMD kernels that satisfies the documented contract.
\<close>

theorem bitpack_roundtrip:
  assumes "unpack_kernels ds" "w \<le> 32" "carquet_bitpack_32 vs w = (out, n)"
  shows "carquet_bitunpack_32 ds (take n out @ r) (length vs) w = (map (\<lambda>v. v AND mask w) vs, n)"
proof -
  note s = bitpack_32_spec [OF assms(2,3)]
  have "packed_values w (take n out @ r) (length vs) = packed_values w out (length vs)"
    using s packed_size_bound [of "length vs" w] by (intro packed_values_take_append) auto
  then show ?thesis
    using unpack_kernels.bitunpack_32_spec [OF assms(1,2), of "length vs" "take n out @ r"] s by simp
qed

theorem bitpack_roundtrip_witness:
  "carquet_bitunpack_32 scalar_dispatch ([0xD1, 0x58] @ [7]) 5 3 = ([1, 2, 3, 4, 5], 2)"
proof -
  have p: "carquet_bitpack_32 [1, 2, 3, 4, 5] 3 = ([0xD1, 0x58, 0], 2)" by code_simp
  show ?thesis
    using bitpack_roundtrip [OF scalar.unpack_kernels_axioms _ p, of "[7]"]
    by (simp add: mask_eq_exp_minus_1 eval_nat_numeral)
qed

text \<open>
  The specialised kernels are the general algorithm. For every width from 1 to 8
  the unrolled shift-and-mask kernel returns what the accumulator loop of the general
  case returns on the same bytes.
\<close>

theorem bitunpack8_kernels_equivalent:
  assumes "w \<in> {1..8}" "w \<le> length p"
  shows "carquet_bitunpack8_32 scalar_dispatch p w = unpack_loop 8 p w (0, 0, 0)"
proof -
  have "unpack_loop 8 p w (0, 0, 0) = packed_values w p 8"
    using unpack_loop_spec [of w p 0 "(0, 0, 0)" 8] assms by (simp add: acc_inv_def packed_values_def)
  then show ?thesis using scalar.bitunpack8_32_spec [of w p] assms by simp
qed

theorem bitunpack8_kernels_equivalent_witness:
  "carquet_bitunpack8_32 scalar_dispatch [0x88, 0xC6, 0xFA] 3 = unpack_loop 8 [0x88, 0xC6, 0xFA] 3 (0, 0, 0)"
  by (rule bitunpack8_kernels_equivalent) simp_all

section \<open>Bit widths and legacy levels\<close>

lemma clz_step_inv:
  fixes v :: "'a::len word"
  assumes st: "clz_step s limit (n, v) = (n', v')" and lim: "unat limit = 2 ^ (LENGTH('a) - s) - 1"
    and s: "2 * s \<le> LENGTH('a)" and v: "unat v = u * 2 ^ n" "2 ^ (LENGTH('a) - 2 * s) \<le> unat v"
  shows "unat v' = u * 2 ^ n' \<and> 2 ^ (LENGTH('a) - s) \<le> unat v'"
proof (cases "unat v < 2 ^ (LENGTH('a) - s)")
  case True
  have p: "(2::nat) ^ (LENGTH('a) - s) * 2 ^ s = 2 ^ LENGTH('a)"
    "(2::nat) ^ (LENGTH('a) - 2 * s) * 2 ^ s = 2 ^ (LENGTH('a) - s)"
    using s by (simp_all flip: power_add)
  have "unat v * 2 ^ s < 2 ^ LENGTH('a)"
    using True p(1) by (metis mult_less_mono1 zero_less_numeral zero_less_power)
  then have "unat (push_bit s v) = unat v * 2 ^ s"
    by (subst unsigned_push_bit_eq) (simp add: take_bit_eq_mod push_bit_eq_mult)
  moreover have "2 ^ (LENGTH('a) - s) \<le> unat v * 2 ^ s"
    using mult_le_mono1 [OF v(2), of "2 ^ s"] p(2) by simp
  moreover have "v \<le> limit" using True lim by (simp add: word_le_nat_alt)
  ultimately show ?thesis
    using st v(1) by (auto simp: clz_step_def power_add)
next
  case False
  then have "\<not> v \<le> limit" using lim by (simp add: word_le_nat_alt not_le)
      (metis One_nat_def Suc_pred linorder_not_less not_less_eq zero_less_numeral zero_less_power)
  with st v(1) False show ?thesis by (simp add: clz_step_def)
qed

lemma carquet_clz32_bounds:
  assumes "v \<noteq> 0"
  shows "2 ^ 31 \<le> unat v * 2 ^ carquet_clz32 v \<and> unat v * 2 ^ carquet_clz32 v < 2 ^ 32"
proof -
  obtain n1 v1 where 1: "clz_step 16 0x0000FFFF (0, v) = (n1, v1)" by fastforce
  obtain n2 v2 where 2: "clz_step 8 0x00FFFFFF (n1, v1) = (n2, v2)" by fastforce
  obtain n3 v3 where 3: "clz_step 4 0x0FFFFFFF (n2, v2) = (n3, v3)" by fastforce
  obtain n4 v4 where 4: "clz_step 2 0x3FFFFFFF (n3, v3) = (n4, v4)" by fastforce
  have pos: "1 \<le> unat v" using assms by (simp add: Suc_le_eq unat_gt_0)
  have s1: "unat v1 = unat v * 2 ^ n1" "2 ^ 16 \<le> unat v1"
    using clz_step_inv [OF 1, of "unat v"] pos by simp_all
  have s2: "unat v2 = unat v * 2 ^ n2" "2 ^ 24 \<le> unat v2"
    using clz_step_inv [OF 2, of "unat v"] s1 by simp_all
  have s3: "unat v3 = unat v * 2 ^ n3" "2 ^ 28 \<le> unat v3"
    using clz_step_inv [OF 3, of "unat v"] s2 by simp_all
  have s4: "unat v4 = unat v * 2 ^ n4" "2 ^ 30 \<le> unat v4"
    using clz_step_inv [OF 4, of "unat v"] s3 by simp_all
  have c: "carquet_clz32 v = (if unat v4 < 2 ^ 31 then n4 + 1 else n4)"
    using assms by (simp add: carquet_clz32_def 1 2 3 4 word_le_nat_alt)
  have "unat v4 < 2 ^ LENGTH(32)" by (rule unsigned_less)
  then show ?thesis
    unfolding c using s4 by (auto simp: power_add)
qed

lemma carquet_clz64_bounds:
  assumes "v \<noteq> 0"
  shows "2 ^ 63 \<le> unat v * 2 ^ carquet_clz64 v \<and> unat v * 2 ^ carquet_clz64 v < 2 ^ 64"
proof -
  obtain n0 v0 where 0: "clz_step 32 0x00000000FFFFFFFF (0, v) = (n0, v0)" by fastforce
  obtain n1 v1 where 1: "clz_step 16 0x0000FFFFFFFFFFFF (n0, v0) = (n1, v1)" by fastforce
  obtain n2 v2 where 2: "clz_step 8 0x00FFFFFFFFFFFFFF (n1, v1) = (n2, v2)" by fastforce
  obtain n3 v3 where 3: "clz_step 4 0x0FFFFFFFFFFFFFFF (n2, v2) = (n3, v3)" by fastforce
  obtain n4 v4 where 4: "clz_step 2 0x3FFFFFFFFFFFFFFF (n3, v3) = (n4, v4)" by fastforce
  have pos: "1 \<le> unat v" using assms by (simp add: Suc_le_eq unat_gt_0)
  have s0: "unat v0 = unat v * 2 ^ n0" "2 ^ 32 \<le> unat v0"
    using clz_step_inv [OF 0, of "unat v"] pos by simp_all
  have s1: "unat v1 = unat v * 2 ^ n1" "2 ^ 48 \<le> unat v1"
    using clz_step_inv [OF 1, of "unat v"] s0 by simp_all
  have s2: "unat v2 = unat v * 2 ^ n2" "2 ^ 56 \<le> unat v2"
    using clz_step_inv [OF 2, of "unat v"] s1 by simp_all
  have s3: "unat v3 = unat v * 2 ^ n3" "2 ^ 60 \<le> unat v3"
    using clz_step_inv [OF 3, of "unat v"] s2 by simp_all
  have s4: "unat v4 = unat v * 2 ^ n4" "2 ^ 62 \<le> unat v4"
    using clz_step_inv [OF 4, of "unat v"] s3 by simp_all
  have c: "carquet_clz64 v = (if unat v4 < 2 ^ 63 then n4 + 1 else n4)"
    using assms by (simp add: carquet_clz64_def 0 1 2 3 4 word_le_nat_alt)
  have "unat v4 < 2 ^ LENGTH(64)" by (rule unsigned_less)
  then show ?thesis
    unfolding c using s4 by (auto simp: power_add)
qed

lemma scaled_width:
  assumes "0 < u" "2 ^ (L - 1) \<le> u * 2 ^ n" "u * 2 ^ n < (2::nat) ^ L"
  shows "2 ^ (L - n - 1) \<le> u \<and> u < 2 ^ (L - n) \<and> n < L"
proof -
  have "2 ^ n \<le> u * 2 ^ n" using assms(1) by simp
  then have "(2::nat) ^ n < 2 ^ L" using assms(3) by linarith
  then have n: "n < L" by simp
  have "u * 2 ^ n < 2 ^ (L - n) * 2 ^ n" using assms(3) n by (simp flip: power_add)
  then have 1: "u < 2 ^ (L - n)" by simp
  have "L - 1 = (L - n - 1) + n" using n by simp
  then have "2 ^ (L - n - 1) * 2 ^ n \<le> u * 2 ^ n" using assms(2) by (metis power_add)
  then show ?thesis using 1 n by simp
qed

text \<open>
  The bit width is the position of the highest set bit: \<open>v\<close> fits in
  \<^verbatim>\<open>carquet_bit_width32(v)\<close> bits and in no fewer, and likewise for 64 bits. This is the
  width the encoders pack with.
\<close>

theorem bit_width_minimal:
  "unat v < 2 ^ carquet_bit_width32 v \<and> (v \<noteq> 0 \<longrightarrow> 2 ^ (carquet_bit_width32 v - 1) \<le> unat v) \<and>
   unat w < 2 ^ carquet_bit_width64 w \<and> (w \<noteq> 0 \<longrightarrow> 2 ^ (carquet_bit_width64 w - 1) \<le> unat w)"
proof -
  have "unat v < 2 ^ carquet_bit_width32 v \<and> (v \<noteq> 0 \<longrightarrow> 2 ^ (carquet_bit_width32 v - 1) \<le> unat v)"
    using scaled_width [of "unat v" 32 "carquet_clz32 v"] carquet_clz32_bounds [of v]
    by (cases "v = 0") (auto simp: carquet_bit_width32_def unat_gt_0)
  moreover have "unat w < 2 ^ carquet_bit_width64 w \<and> (w \<noteq> 0 \<longrightarrow> 2 ^ (carquet_bit_width64 w - 1) \<le> unat w)"
    using scaled_width [of "unat w" 64 "carquet_clz64 w"] carquet_clz64_bounds [of w]
    by (cases "w = 0") (auto simp: carquet_bit_width64_def unat_gt_0)
  ultimately show ?thesis by blast
qed

theorem bit_width_minimal_witness:
  "carquet_bit_width32 9 = 4 \<and> unat (9 :: u32) < 2 ^ 4 \<and> 2 ^ (4 - 1) \<le> unat (9 :: u32)"
proof -
  have e: "carquet_bit_width32 9 = 4" by code_simp
  show ?thesis using bit_width_minimal [of 9 1] e by simp
qed

definition msb_bit :: "bytes \<Rightarrow> nat \<Rightarrow> bool" where
  "msb_bit data i \<longleftrightarrow> bit (data ! (i div 8)) (7 - i mod 8)"

lemma bit_msb_value:
  "bit (msb_value w data pos v) k \<longleftrightarrow> k < 32 \<and>
     (if k < w then msb_bit data (pos + (w - 1 - k)) else bit v (k - w))"
proof (induction w arbitrary: pos v)
  case (Suc w)
  let ?v = "push_bit 1 v OR ucast (drop_bit (7 - pos mod 8) (data ! (pos div 8)) AND 1)"
  have one: "bit (ucast (drop_bit (7 - pos mod 8) (data ! (pos div 8)) AND 1) :: u32) i \<longleftrightarrow>
      i = 0 \<and> msb_bit data pos" for i
    by (auto simp: bit_simps bit_1_iff msb_bit_def)
  have vb: "bit ?v i \<longleftrightarrow> i < 32 \<and> (if i = 0 then msb_bit data pos else bit v (i - 1))" for i
    unfolding bit_or_iff one bit_push1 by auto
  note step = msb_value.simps(2) [of w data pos v] Suc.IH [of "pos + 1" ?v]
  consider "k < w" | "k = w" | "w < k" by linarith
  then show ?case
  proof cases
    case 1
    then have "pos + 1 + (w - 1 - k) = pos + (Suc w - 1 - k)" by simp
    with 1 show ?thesis unfolding step by simp
  next
    case 2
    then show ?thesis unfolding step vb by simp
  next
    case 3
    then have "k - w \<noteq> 0" "k - w - 1 = k - Suc w" "k < 32 \<Longrightarrow> k - w < 32" by auto
    with 3 show ?thesis unfolding step vb by auto
  qed
qed (auto dest: bit_imp_le_length)

text \<open>
  The legacy BIT_PACKED levels are read most significant bit first. On success
  every level has exactly the bits at positions \<open>i * bit_width\<close> onwards of the stream in
  that order, the bytes consumed are the rounded-up total, and a stream that is too
  short is refused.
\<close>

theorem bitpacked_levels_spec:
  assumes "0 \<le> count" "0 < bw" "bw \<le> 16"
  shows "carquet_decode_bitpacked_levels data bw count =
      (if length data < (nat count * nat bw + 7) div 8 then None
       else Some (map (\<lambda>i. ucast (msb_value (nat bw) data (i * nat bw) 0)) [0..<nat count],
                  (nat count * nat bw + 7) div 8)) \<and>
    (\<forall>i k. bit (ucast (msb_value (nat bw) data (i * nat bw) 0) :: i16) k \<longleftrightarrow>
       k < nat bw \<and> msb_bit data (i * nat bw + (nat bw - 1 - k)))"
  using assms by (auto simp: carquet_decode_bitpacked_levels_def Let_def bit_ucast_iff bit_msb_value)

theorem bitpacked_levels_spec_witness:
  "carquet_decode_bitpacked_levels [0x05, 0x39, 0x77] 3 8 = Some ([0, 1, 2, 3, 4, 5, 6, 7], 3)"
proof -
  have "map (\<lambda>i. ucast (msb_value 3 [0x05, 0x39, 0x77] (i * 3) 0)) [0..<8] = [0, 1, 2, 3, 4, 5, 6, 7 :: i16]"
    by code_simp
  then show ?thesis
    using bitpacked_levels_spec [of 8 3 "[0x05, 0x39, 0x77]"] by simp
qed

end
