(* ===== verification/Rle_Decode.thy ===== *)
theory Rle_Decode
  imports Bitpack
begin

text \<open>
  The decoder half of \<^verbatim>\<open>encoding/rle.c\<close>: the RLE/bit-packing hybrid in which levels and
  dictionary indices are stored. Positions and counts are natural numbers: the code
  keeps \<^verbatim>\<open>pos <= size\<close> and an object is smaller than \<open>2\<^sup>6\<^sup>3\<close> bytes, so its \<^verbatim>\<open>size_t\<close> and
  \<^verbatim>\<open>int64_t\<close> sums do not wrap; a negative count behaves as 0.
\<close>

section \<open>Definitions\<close>

record carquet_rle_decoder =
  rle_data :: bytes
  rle_pos :: nat
  rle_bit_width :: nat
  rle_value_mask :: u32
  rle_in_run :: bool
  run_remaining :: nat
  rle_value :: u32
  bitpack_buffer :: "u32 list"
  bitpack_pos :: nat
  bitpack_count :: nat
  rle_status :: carquet_status

definition rle_read_varint :: "bytes \<Rightarrow> nat \<Rightarrow> (u32 \<times> nat) option" where
  "rle_read_varint data pos =
     (case varint_scan 5 0 0 (drop pos data) of
        None \<Rightarrow> None
      | Some (v, rest) \<Rightarrow> Some (v, length data - length rest))"

text \<open>The loop that assembles the repeated value, least significant byte first.\<close>

primrec rle_read_value :: "nat \<Rightarrow> bytes \<Rightarrow> nat \<Rightarrow> nat \<Rightarrow> u32 \<Rightarrow> u32" where
  "rle_read_value 0 data pos i v = v"
| "rle_read_value (Suc n) data pos i v =
     rle_read_value n data (pos + 1) (i + 1) (v OR push_bit (i * 8) (ucast (data ! pos)))"

lemma rle_read_varint_progress:
  "rle_read_varint data pos = Some (v, pos') \<Longrightarrow> pos < pos' \<and> pos' \<le> length data"
  unfolding rle_read_varint_def
  by (auto split: option.splits dest!: varint_scan_suffix)

function start_new_run :: "carquet_rle_decoder \<Rightarrow> carquet_rle_decoder \<times> bool" where
  "start_new_run dec =
     (if length (rle_data dec) \<le> rle_pos dec then (dec, False)
      else case rle_read_varint (rle_data dec) (rle_pos dec) of
             None \<Rightarrow> (dec\<lparr>rle_status := CARQUET_ERROR_INVALID_RLE\<rparr>, False)
           | Some (header, pos) \<Rightarrow>
               if header AND 1 = 0
               then let dec1 = dec\<lparr>rle_pos := pos, rle_in_run := True,
                                   run_remaining := unat (drop_bit 1 header)\<rparr>
                    in if run_remaining dec1 = 0 then start_new_run dec1
                       else let value_bytes = (rle_bit_width dec + 7) div 8 in
                            if length (rle_data dec) < pos + value_bytes
                            then (dec1\<lparr>rle_status := CARQUET_ERROR_INVALID_RLE\<rparr>, False)
                            else (dec1\<lparr>rle_pos := pos + value_bytes,
                                       rle_value := rle_read_value value_bytes (rle_data dec) pos 0 0
                                                    AND rle_value_mask dec\<rparr>, True)
               else let dec1 = dec\<lparr>rle_pos := pos, rle_in_run := False,
                                   run_remaining := unat (drop_bit 1 header) * 8\<rparr>
                    in if run_remaining dec1 = 0 then start_new_run dec1
                       else (dec1\<lparr>bitpack_pos := 0, bitpack_count := 0\<rparr>, True))"
  by pat_completeness auto
termination
  by (relation "measure (\<lambda>dec. length (rle_data dec) - rle_pos dec)")
    (auto dest!: rle_read_varint_progress)

declare start_new_run.simps [simp del]

definition fill_bitpack_buffer ::
    "bitunpack_dispatch \<Rightarrow> carquet_rle_decoder \<Rightarrow> carquet_rle_decoder \<times> bool" where
  "fill_bitpack_buffer ds dec =
     (if run_remaining dec = 0 then (dec, False)
      else if length (rle_data dec) < rle_pos dec + rle_bit_width dec
      then (dec\<lparr>rle_status := CARQUET_ERROR_INVALID_RLE\<rparr>, False)
      else (dec\<lparr>bitpack_buffer :=
                  carquet_bitunpack8_32 ds (drop (rle_pos dec) (rle_data dec)) (rle_bit_width dec),
                rle_pos := rle_pos dec + rle_bit_width dec,
                bitpack_pos := 0, bitpack_count := 8\<rparr>, True))"

definition carquet_rle_decoder_init :: "bytes \<Rightarrow> int \<Rightarrow> carquet_rle_decoder" where
  "carquet_rle_decoder_init data bit_width =
     (let bad = bit_width < 0 \<or> 32 < bit_width in
      \<lparr>rle_data = data, rle_pos = 0,
       rle_bit_width = (if bad then 0 else nat bit_width),
       rle_value_mask =
         (if bad then 0 else if 32 \<le> bit_width then NOT 0 else push_bit (nat bit_width) 1 - 1),
       rle_in_run = False, run_remaining = 0, rle_value = 0, bitpack_buffer = replicate 8 0,
       bitpack_pos = 0, bitpack_count = 0,
       rle_status = (if bad then CARQUET_ERROR_INVALID_RLE else CARQUET_OK)\<rparr>)"

definition carquet_rle_decoder_has_next :: "carquet_rle_decoder \<Rightarrow> bool" where
  "carquet_rle_decoder_has_next dec =
     (if rle_status dec \<noteq> CARQUET_OK then False
      else if 0 < run_remaining dec then True
      else rle_pos dec < length (rle_data dec))"

text \<open>Start a new run when the current one is exhausted; \<open>False\<close> when there is none.\<close>

definition ensure_run :: "carquet_rle_decoder \<Rightarrow> carquet_rle_decoder \<times> bool" where
  "ensure_run dec = (if run_remaining dec = 0 then start_new_run dec else (dec, True))"

definition carquet_rle_decoder_get ::
    "bitunpack_dispatch \<Rightarrow> carquet_rle_decoder \<Rightarrow> carquet_rle_decoder \<times> u32" where
  "carquet_rle_decoder_get ds dec =
     (if rle_status dec \<noteq> CARQUET_OK then (dec, 0)
      else case ensure_run dec of
             (dec1, False) \<Rightarrow> (dec1, 0)
           | (dec1, True) \<Rightarrow>
               if rle_in_run dec1
               then (dec1\<lparr>run_remaining := run_remaining dec1 - 1\<rparr>, rle_value dec1)
               else case (if bitpack_count dec1 \<le> bitpack_pos dec1
                          then fill_bitpack_buffer ds dec1 else (dec1, True)) of
                      (dec2, False) \<Rightarrow> (dec2, 0)
                    | (dec2, True) \<Rightarrow>
                        (dec2\<lparr>bitpack_pos := bitpack_pos dec2 + 1,
                              run_remaining := run_remaining dec2 - 1\<rparr>,
                         bitpack_buffer dec2 ! bitpack_pos dec2))"

text \<open>The three inner loops of \<^verbatim>\<open>carquet_rle_decoder_get_batch\<close>; \<open>want\<close> is \<^verbatim>\<open>count - read\<close>.\<close>

primrec drain_staging :: "nat \<Rightarrow> carquet_rle_decoder \<Rightarrow> carquet_rle_decoder \<times> u32 list" where
  "drain_staging 0 dec = (dec, [])"
| "drain_staging (Suc want) dec =
     (if bitpack_pos dec < bitpack_count dec \<and> 0 < run_remaining dec
      then let (dec', vs) = drain_staging want
                 (dec\<lparr>bitpack_pos := bitpack_pos dec + 1, run_remaining := run_remaining dec - 1\<rparr>)
           in (dec', bitpack_buffer dec ! bitpack_pos dec # vs)
      else (dec, []))"

function unpack_whole_groups ::
    "bitunpack_dispatch \<Rightarrow> carquet_rle_decoder \<Rightarrow> nat \<Rightarrow> carquet_rle_decoder \<times> u32 list" where
  "unpack_whole_groups ds dec want =
     (if 8 \<le> want \<and> 8 \<le> run_remaining dec
      then if length (rle_data dec) < rle_pos dec + rle_bit_width dec
           then (dec\<lparr>rle_status := CARQUET_ERROR_INVALID_RLE\<rparr>, [])
           else let input = drop (rle_pos dec) (rle_data dec);
                    unpack8 = (if 0 < rle_bit_width dec
                               then carquet_dispatch_get_bitunpack8_fn ds (rle_bit_width dec)
                               else None);
                    group = (case unpack8 of
                               Some f \<Rightarrow> map (f input) [0..<8]
                             | None \<Rightarrow> carquet_bitunpack8_32 ds input (rle_bit_width dec));
                    (dec', vs) = unpack_whole_groups ds
                      (dec\<lparr>rle_pos := rle_pos dec + rle_bit_width dec,
                           run_remaining := run_remaining dec - 8\<rparr>) (want - 8)
                in (dec', group @ vs)
      else (dec, []))"
  by pat_completeness auto
termination
  by (relation "measure (\<lambda>(ds, dec, want). want)") auto

declare unpack_whole_groups.simps [simp del]

lemma drain_staging_progress:
  assumes "drain_staging want dec = (dec', vs)" "0 < want"
    "bitpack_pos dec < bitpack_count dec" "0 < run_remaining dec"
  shows "0 < length vs"
  using assms by (cases want) (auto simp: Let_def split: prod.splits)

lemma fill_bitpack_buffer_True:
  "fill_bitpack_buffer ds dec = (dec', True) \<Longrightarrow>
     bitpack_pos dec' < bitpack_count dec' \<and> run_remaining dec' = run_remaining dec"
  by (auto simp: fill_bitpack_buffer_def split: if_splits)

lemma staging_progress:
  assumes "(if bitpack_count dec \<le> bitpack_pos dec then fill_bitpack_buffer ds dec else (dec, True)) =
      (dec1, True)" "0 < run_remaining dec" "drain_staging want dec1 = (dec2, vs)" "0 < want"
  shows "0 < length vs"
proof -
  have "bitpack_pos dec1 < bitpack_count dec1 \<and> 0 < run_remaining dec1"
    using assms(1,2) fill_bitpack_buffer_True [of ds dec dec1] by (auto split: if_splits)
  then show ?thesis using drain_staging_progress assms(3,4) by blast
qed

function unpack_through_staging ::
    "bitunpack_dispatch \<Rightarrow> carquet_rle_decoder \<Rightarrow> nat \<Rightarrow> carquet_rle_decoder \<times> u32 list" where
  "unpack_through_staging ds dec want =
     (if 0 < want \<and> 0 < run_remaining dec
      then case (if bitpack_count dec \<le> bitpack_pos dec
                 then fill_bitpack_buffer ds dec else (dec, True)) of
             (dec1, False) \<Rightarrow> (dec1, [])
           | (dec1, True) \<Rightarrow>
               let (dec2, vs) = drain_staging want dec1;
                   (dec3, vs') = unpack_through_staging ds dec2 (want - length vs)
               in (dec3, vs @ vs')
      else (dec, []))"
  by pat_completeness auto
termination
proof (relation "measure (\<lambda>(ds, dec, want). want)", simp)
  fix ds dec want dec1 ok xa and dec2 :: carquet_rle_decoder and vs :: "u32 list"
  assume a: "0 < want \<and> 0 < run_remaining dec"
    "(dec1, ok) = (if bitpack_count dec \<le> bitpack_pos dec then fill_bitpack_buffer ds dec else (dec, True))"
    "ok = True" "xa = drain_staging want dec1" "(dec2, vs) = xa"
  then have "0 < length vs"
    using staging_progress [of dec ds dec1 want dec2 vs] by simp
  then show "((ds, dec2, want - length vs), ds, dec, want) \<in> measure (\<lambda>(ds, dec, want). want)"
    using a by simp
qed

declare unpack_through_staging.simps [simp del]

definition bitpacked_batch ::
    "bitunpack_dispatch \<Rightarrow> carquet_rle_decoder \<Rightarrow> nat \<Rightarrow> carquet_rle_decoder \<times> u32 list" where
  "bitpacked_batch ds dec want =
     (let (dec1, vs1) = drain_staging want dec;
          (dec2, vs2) = unpack_whole_groups ds dec1 (want - length vs1);
          (dec3, vs3) = unpack_through_staging ds dec2 (want - length vs1 - length vs2)
      in (dec3, vs1 @ vs2 @ vs3))"

definition rle_fill :: "carquet_rle_decoder \<Rightarrow> nat \<Rightarrow> carquet_rle_decoder \<times> u32 list" where
  "rle_fill dec want =
     (let to_fill = (if run_remaining dec < want then run_remaining dec else want)
      in (dec\<lparr>run_remaining := run_remaining dec - to_fill\<rparr>, replicate to_fill (rle_value dec)))"

definition run_batch ::
    "bitunpack_dispatch \<Rightarrow> carquet_rle_decoder \<Rightarrow> nat \<Rightarrow> carquet_rle_decoder \<times> u32 list" where
  "run_batch ds dec want =
     (if rle_in_run dec then rle_fill dec want else bitpacked_batch ds dec want)"

text \<open>The outcomes of one header, with the state each leaves.\<close>

definition rle_begin :: "carquet_rle_decoder \<Rightarrow> u32 \<Rightarrow> nat \<Rightarrow> carquet_rle_decoder" where
  "rle_begin dec header pos =
     dec\<lparr>rle_pos := pos, rle_in_run := True, run_remaining := unat (drop_bit 1 header)\<rparr>"

definition packed_begin :: "carquet_rle_decoder \<Rightarrow> u32 \<Rightarrow> nat \<Rightarrow> carquet_rle_decoder" where
  "packed_begin dec header pos =
     dec\<lparr>rle_pos := pos, rle_in_run := False, run_remaining := unat (drop_bit 1 header) * 8\<rparr>"

lemma start_new_run_cases:
  obtains (finished) "length (rle_data dec) \<le> rle_pos dec" "start_new_run dec = (dec, False)"
  | (bad) "rle_pos dec < length (rle_data dec)" "rle_read_varint (rle_data dec) (rle_pos dec) = None"
      "start_new_run dec = (dec\<lparr>rle_status := CARQUET_ERROR_INVALID_RLE\<rparr>, False)"
  | (empty_rle) header pos where "rle_pos dec < length (rle_data dec)"
      "rle_read_varint (rle_data dec) (rle_pos dec) = Some (header, pos)"
      "header AND 1 = 0" "unat (drop_bit 1 header) = 0"
      "start_new_run dec = start_new_run (rle_begin dec header pos)"
  | (short) header pos where "rle_pos dec < length (rle_data dec)"
      "rle_read_varint (rle_data dec) (rle_pos dec) = Some (header, pos)"
      "header AND 1 = 0" "unat (drop_bit 1 header) \<noteq> 0"
      "length (rle_data dec) < pos + (rle_bit_width dec + 7) div 8"
      "start_new_run dec = ((rle_begin dec header pos)\<lparr>rle_status := CARQUET_ERROR_INVALID_RLE\<rparr>, False)"
  | (rle) header pos where "rle_pos dec < length (rle_data dec)"
      "rle_read_varint (rle_data dec) (rle_pos dec) = Some (header, pos)"
      "header AND 1 = 0" "unat (drop_bit 1 header) \<noteq> 0"
      "pos + (rle_bit_width dec + 7) div 8 \<le> length (rle_data dec)"
      "start_new_run dec = ((rle_begin dec header pos)\<lparr>rle_pos := pos + (rle_bit_width dec + 7) div 8,
         rle_value := rle_read_value ((rle_bit_width dec + 7) div 8) (rle_data dec) pos 0 0
           AND rle_value_mask dec\<rparr>, True)"
  | (empty_packed) header pos where "rle_pos dec < length (rle_data dec)"
      "rle_read_varint (rle_data dec) (rle_pos dec) = Some (header, pos)"
      "header AND 1 \<noteq> 0" "unat (drop_bit 1 header) = 0"
      "start_new_run dec = start_new_run (packed_begin dec header pos)"
  | (packed) header pos where "rle_pos dec < length (rle_data dec)"
      "rle_read_varint (rle_data dec) (rle_pos dec) = Some (header, pos)"
      "header AND 1 \<noteq> 0" "unat (drop_bit 1 header) \<noteq> 0"
      "start_new_run dec = ((packed_begin dec header pos)\<lparr>bitpack_pos := 0, bitpack_count := 0\<rparr>, True)"
proof (cases "length (rle_data dec) \<le> rle_pos dec")
  case True
  then show ?thesis by (intro finished) (simp_all add: start_new_run.simps [of dec])
next
  case False
  then have p: "rle_pos dec < length (rle_data dec)" by simp
  show ?thesis
  proof (cases "rle_read_varint (rle_data dec) (rle_pos dec)")
    case None
    with p show ?thesis by (intro bad) (simp_all add: start_new_run.simps [of dec])
  next
    case (Some hp)
    then obtain header pos where h: "rle_read_varint (rle_data dec) (rle_pos dec) = Some (header, pos)"
      by (cases hp) auto
    show ?thesis
    proof (cases "header AND 1 = 0"; cases "unat (drop_bit 1 header) = 0")
      assume "header AND 1 = 0" "unat (drop_bit 1 header) = 0"
      with p h show ?thesis
        by (intro empty_rle [of header pos]) (simp_all add: start_new_run.simps [of dec] rle_begin_def Let_def)
    next
      assume a: "header AND 1 = 0" "unat (drop_bit 1 header) \<noteq> 0"
      show ?thesis
      proof (cases "length (rle_data dec) < pos + (rle_bit_width dec + 7) div 8")
        case True
        with a p h show ?thesis
          by (intro short [of header pos]) (simp_all add: start_new_run.simps [of dec] rle_begin_def Let_def)
      next
        case False
        with a p h show ?thesis
          by (intro rle [of header pos]) (simp_all add: start_new_run.simps [of dec] rle_begin_def Let_def)
      qed
    next
      assume "header AND 1 \<noteq> 0" "unat (drop_bit 1 header) = 0"
      with p h show ?thesis
        by (intro empty_packed [of header pos]) (simp_all add: start_new_run.simps [of dec] packed_begin_def Let_def)
    next
      assume "header AND 1 \<noteq> 0" "unat (drop_bit 1 header) \<noteq> 0"
      with p h show ?thesis
        by (intro packed [of header pos]) (simp_all add: start_new_run.simps [of dec] packed_begin_def Let_def)
    qed
  qed
qed

text \<open>Induction over the headers a call reads: empty runs recurse, everything else ends it.\<close>

lemma start_new_run_induct:
  assumes "\<And>dec. (\<And>header pos. rle_pos dec < length (rle_data dec) \<Longrightarrow>
      rle_read_varint (rle_data dec) (rle_pos dec) = Some (header, pos) \<Longrightarrow>
      P (rle_begin dec header pos) \<and> P (packed_begin dec header pos)) \<Longrightarrow> P dec"
  shows "P dec"
proof (induction "length (rle_data dec) - rle_pos dec" arbitrary: dec rule: less_induct)
  case less
  show ?case
  proof (rule assms)
    fix header pos
    assume a: "rle_pos dec < length (rle_data dec)"
      "rle_read_varint (rle_data dec) (rle_pos dec) = Some (header, pos)"
    then have "length (rle_data dec) - pos < length (rle_data dec) - rle_pos dec"
      using rle_read_varint_progress [OF a(2)] a(1) by linarith
    then show "P (rle_begin dec header pos) \<and> P (packed_begin dec header pos)"
      by (auto intro!: less simp: rle_begin_def packed_begin_def)
  qed
qed

lemma begin_fields [simp]:
  "rle_status (rle_begin dec h p) = rle_status dec" "rle_status (packed_begin dec h p) = rle_status dec"
  "rle_data (rle_begin dec h p) = rle_data dec" "rle_data (packed_begin dec h p) = rle_data dec"
  "rle_pos (rle_begin dec h p) = p" "rle_pos (packed_begin dec h p) = p"
  "rle_bit_width (rle_begin dec h p) = rle_bit_width dec"
  "rle_bit_width (packed_begin dec h p) = rle_bit_width dec"
  "rle_value_mask (rle_begin dec h p) = rle_value_mask dec"
  "rle_value_mask (packed_begin dec h p) = rle_value_mask dec"
  "run_remaining (rle_begin dec h p) = unat (drop_bit 1 h)"
  "run_remaining (packed_begin dec h p) = unat (drop_bit 1 h) * 8"
  "rle_in_run (rle_begin dec h p)" "\<not> rle_in_run (packed_begin dec h p)"
  by (simp_all add: rle_begin_def packed_begin_def)

lemma start_new_run_True:
  "start_new_run dec = (dec', True) \<Longrightarrow> 0 < run_remaining dec' \<and> rle_status dec' = rle_status dec \<and>
     (rle_in_run dec' \<or> bitpack_pos dec' = 0 \<and> bitpack_count dec' = 0)"
proof (induction dec rule: start_new_run_induct)
  case (1 dec)
  show ?case
    by (rule start_new_run_cases [of dec]) (use "1.IH" "1.prems" in auto)
qed

lemma ensure_run_True:
  "ensure_run dec = (dec', True) \<Longrightarrow> 0 < run_remaining dec' \<and> rle_status dec' = rle_status dec"
  using start_new_run_True by (auto simp: ensure_run_def split: if_splits)

lemma unpack_through_staging_progress:
  assumes "unpack_through_staging ds dec want = (dec', vs)" "0 < want" "0 < run_remaining dec"
  shows "vs \<noteq> [] \<or> rle_status dec' \<noteq> CARQUET_OK"
proof -
  obtain dec1 ok where f: "(if bitpack_count dec \<le> bitpack_pos dec then fill_bitpack_buffer ds dec
      else (dec, True)) = (dec1, ok)" by fastforce
  obtain dec2 vs2 where d: "drain_staging want dec1 = (dec2, vs2)" by fastforce
  show ?thesis
  proof (cases ok)
    case True
    then have "0 < length vs2" using staging_progress [of dec ds dec1 want dec2 vs2] assms d f by simp
    with True f d assms show ?thesis
      by (subst (asm) unpack_through_staging.simps) (auto split: prod.splits)
  next
    case False
    then have "rle_status dec1 \<noteq> CARQUET_OK"
      using f assms(3) by (auto simp: fill_bitpack_buffer_def split: if_splits)
    with False f assms show ?thesis
      by (subst (asm) unpack_through_staging.simps) (auto split: prod.splits)
  qed
qed

lemma drain_staging_keeps:
  "drain_staging want dec = (dec', vs) \<Longrightarrow>
     length vs \<le> want \<and> run_remaining dec = length vs + run_remaining dec' \<and>
     rle_status dec' = rle_status dec"
  by (induction want arbitrary: dec dec' vs)
    (auto simp: Let_def split: if_splits prod.splits, fastforce+)


lemma unpack_whole_groups_keeps:
  "unpack_whole_groups ds dec want = (dec', vs) \<Longrightarrow>
     length vs \<le> want \<and> run_remaining dec = length vs + run_remaining dec'"
proof (induction ds dec want arbitrary: dec' vs rule: unpack_whole_groups.induct)
  case (1 ds dec want)
  show ?case
  proof (cases "8 \<le> want \<and> 8 \<le> run_remaining dec \<and> rle_pos dec + rle_bit_width dec \<le> length (rle_data dec)")
    case False
    with "1.prems" show ?thesis
      by (subst (asm) unpack_whole_groups.simps) (auto split: if_splits)
  next
    case True
    let ?dec = "dec\<lparr>rle_pos := rle_pos dec + rle_bit_width dec, run_remaining := run_remaining dec - 8\<rparr>"
    obtain d2 vs2 where r: "unpack_whole_groups ds ?dec (want - 8) = (d2, vs2)" by fastforce
    have "dec' = d2 \<and> length vs = 8 + length vs2"
      using "1.prems" True r
      by (subst (asm) unpack_whole_groups.simps) (auto simp: Let_def split: option.split)
    with "1.IH" [OF _ _ refl refl refl r] True show ?thesis by auto
  qed
qed

lemma bitpacked_batch_progress:
  assumes "bitpacked_batch ds dec want = (dec', vs)" "0 < want" "0 < run_remaining dec"
    "rle_status dec = CARQUET_OK"
  shows "vs \<noteq> [] \<or> rle_status dec' \<noteq> CARQUET_OK"
proof -
  obtain dec1 vs1 where 1: "drain_staging want dec = (dec1, vs1)" by fastforce
  obtain dec2 vs2 where 2: "unpack_whole_groups ds dec1 (want - length vs1) = (dec2, vs2)" by fastforce
  obtain dec3 vs3 where 3: "unpack_through_staging ds dec2 (want - length vs1 - length vs2) = (dec3, vs3)"
    by fastforce
  have r: "dec' = dec3" "vs = vs1 @ vs2 @ vs3"
    using assms(1) 1 2 3 by (simp_all add: bitpacked_batch_def)
  show ?thesis
  proof (cases "vs1 = [] \<and> vs2 = []")
    case False
    with r show ?thesis by auto
  next
    case True
    have k: "run_remaining dec1 = run_remaining dec" "rle_status dec1 = rle_status dec"
      using drain_staging_keeps [OF 1] True by auto
    have "run_remaining dec2 = run_remaining dec1"
      using unpack_whole_groups_keeps [OF 2] True by simp
    then show ?thesis
      using unpack_through_staging_progress [OF 3] True k assms(2,3) r by simp
  qed
qed

lemma run_batch_progress:
  assumes "run_batch ds dec want = (dec', vs)" "0 < want" "0 < run_remaining dec"
    "rle_status dec = CARQUET_OK"
  shows "vs \<noteq> [] \<or> rle_status dec' \<noteq> CARQUET_OK"
  using assms bitpacked_batch_progress [of ds dec want dec' vs]
  by (auto simp: run_batch_def rle_fill_def Let_def split: if_splits)

function carquet_rle_decoder_get_batch ::
    "bitunpack_dispatch \<Rightarrow> carquet_rle_decoder \<Rightarrow> nat \<Rightarrow> carquet_rle_decoder \<times> u32 list" where
  "carquet_rle_decoder_get_batch ds dec want =
     (if 0 < want \<and> carquet_rle_decoder_has_next dec
      then case ensure_run dec of
             (dec1, False) \<Rightarrow> (dec1, [])
           | (dec1, True) \<Rightarrow>
               let (dec2, vs) = run_batch ds dec1 want;
                   (dec3, vs') = carquet_rle_decoder_get_batch ds dec2 (want - length vs)
               in (dec3, vs @ vs')
      else (dec, []))"
  by pat_completeness auto
termination
proof (relation "measure (\<lambda>(ds, dec, want). want + (if rle_status dec = CARQUET_OK then 1 else 0))", simp)
  fix ds dec want dec1 ok xa and dec2 :: carquet_rle_decoder and vs :: "u32 list"
  assume a: "0 < want \<and> carquet_rle_decoder_has_next dec" "(dec1, ok) = ensure_run dec" "ok = True"
    "xa = run_batch ds dec1 want" "(dec2, vs) = xa"
  have ok: "rle_status dec = CARQUET_OK"
    using a(1) by (auto simp: carquet_rle_decoder_has_next_def split: if_splits)
  have "vs \<noteq> [] \<or> rle_status dec2 \<noteq> CARQUET_OK"
    using run_batch_progress [of ds dec1 want dec2 vs] ensure_run_True [of dec dec1] ok a by simp
  then show "((ds, dec2, want - length vs), ds, dec, want) \<in>
      measure (\<lambda>(ds, dec, want). want + (if rle_status dec = CARQUET_OK then 1 else 0))"
    using a(1) ok by (cases vs) auto
qed

declare carquet_rle_decoder_get_batch.simps [simp del]

text \<open>Skipping inside a bit-packed run; the result is the number of values skipped.\<close>

definition skip_staged :: "carquet_rle_decoder \<Rightarrow> nat \<Rightarrow> nat" where
  "skip_staged dec to_skip =
     (let c1 = bitpack_count dec - bitpack_pos dec;
          c2 = (if to_skip < c1 then to_skip else c1)
      in if run_remaining dec < c2 then run_remaining dec else c2)"

lemma skip_staged_progress:
  assumes "(if bitpack_count dec \<le> bitpack_pos dec then fill_bitpack_buffer ds dec else (dec, True)) =
      (dec1, True)" "0 < run_remaining dec" "0 < to_skip"
  shows "0 < skip_staged dec1 to_skip"
proof -
  have "bitpack_pos dec1 < bitpack_count dec1 \<and> 0 < run_remaining dec1"
    using assms fill_bitpack_buffer_True [of ds dec dec1] by (auto split: if_splits)
  then show ?thesis using assms(3) by (simp add: skip_staged_def Let_def)
qed

function skip_bitpacked ::
    "bitunpack_dispatch \<Rightarrow> carquet_rle_decoder \<Rightarrow> nat \<Rightarrow> carquet_rle_decoder \<times> nat" where
  "skip_bitpacked ds dec to_skip =
     (if 0 < to_skip \<and> 0 < run_remaining dec
      then case (if bitpack_count dec \<le> bitpack_pos dec
                 then fill_bitpack_buffer ds dec else (dec, True)) of
             (dec1, False) \<Rightarrow> (dec1, 0)
           | (dec1, True) \<Rightarrow>
               let can_skip = skip_staged dec1 to_skip;
                   (dec2, n) = skip_bitpacked ds
                     (dec1\<lparr>bitpack_pos := bitpack_pos dec1 + can_skip,
                           run_remaining := run_remaining dec1 - can_skip\<rparr>) (to_skip - can_skip)
               in (dec2, can_skip + n)
      else (dec, 0))"
  by pat_completeness auto
termination
proof (relation "measure (\<lambda>(ds, dec, to_skip). to_skip)", simp)
  fix ds dec to_skip dec1 ok can_skip
  assume a: "0 < to_skip \<and> 0 < run_remaining dec" "(dec1, ok) =
      (if bitpack_count dec \<le> bitpack_pos dec then fill_bitpack_buffer ds dec else (dec, True))"
    "ok = True" "can_skip = skip_staged dec1 to_skip"
  then have "0 < can_skip" using skip_staged_progress [of dec ds dec1 to_skip] by simp
  then show "((ds, dec1\<lparr>bitpack_pos := bitpack_pos dec1 + can_skip,
      run_remaining := run_remaining dec1 - can_skip\<rparr>, to_skip - can_skip), ds, dec, to_skip) \<in>
      measure (\<lambda>(ds, dec, to_skip). to_skip)"
    using a(1) by simp
qed

declare skip_bitpacked.simps [simp del]

definition run_skip ::
    "bitunpack_dispatch \<Rightarrow> carquet_rle_decoder \<Rightarrow> nat \<Rightarrow> carquet_rle_decoder \<times> nat" where
  "run_skip ds dec want =
     (let to_skip = (if run_remaining dec < want then run_remaining dec else want) in
      if rle_in_run dec then (dec\<lparr>run_remaining := run_remaining dec - to_skip\<rparr>, to_skip)
      else skip_bitpacked ds dec to_skip)"

lemma skip_bitpacked_progress:
  assumes "skip_bitpacked ds dec want = (dec', n)" "0 < want" "0 < run_remaining dec"
  shows "0 < n \<or> rle_status dec' \<noteq> CARQUET_OK"
proof -
  obtain dec1 ok where f: "(if bitpack_count dec \<le> bitpack_pos dec then fill_bitpack_buffer ds dec
      else (dec, True)) = (dec1, ok)" by fastforce
  show ?thesis
  proof (cases ok)
    case True
    then have "0 < skip_staged dec1 want" using skip_staged_progress [of dec ds dec1 want] assms f by simp
    with True f assms show ?thesis
      by (subst (asm) skip_bitpacked.simps) (auto simp: Let_def split: prod.splits)
  next
    case False
    then have "rle_status dec1 \<noteq> CARQUET_OK"
      using f assms(3) by (auto simp: fill_bitpack_buffer_def split: if_splits)
    with False f assms show ?thesis
      by (subst (asm) skip_bitpacked.simps) (auto split: prod.splits)
  qed
qed

lemma run_skip_progress:
  assumes "run_skip ds dec want = (dec', n)" "0 < want" "0 < run_remaining dec"
  shows "0 < n \<or> rle_status dec' \<noteq> CARQUET_OK"
  using assms skip_bitpacked_progress [of ds dec "min want (run_remaining dec)" dec' n]
  by (auto simp: run_skip_def Let_def min_def split: if_splits)

function carquet_rle_decoder_skip ::
    "bitunpack_dispatch \<Rightarrow> carquet_rle_decoder \<Rightarrow> nat \<Rightarrow> carquet_rle_decoder \<times> nat" where
  "carquet_rle_decoder_skip ds dec want =
     (if 0 < want \<and> carquet_rle_decoder_has_next dec
      then case ensure_run dec of
             (dec1, False) \<Rightarrow> (dec1, 0)
           | (dec1, True) \<Rightarrow>
               let (dec2, n) = run_skip ds dec1 want;
                   (dec3, m) = carquet_rle_decoder_skip ds dec2 (want - n)
               in (dec3, n + m)
      else (dec, 0))"
  by pat_completeness auto
termination
proof (relation "measure (\<lambda>(ds, dec, want). want + (if rle_status dec = CARQUET_OK then 1 else 0))", simp)
  fix ds dec want dec1 ok xa and dec2 :: carquet_rle_decoder and n :: nat
  assume a: "0 < want \<and> carquet_rle_decoder_has_next dec" "(dec1, ok) = ensure_run dec" "ok = True"
    "xa = run_skip ds dec1 want" "(dec2, n) = xa"
  have ok: "rle_status dec = CARQUET_OK"
    using a(1) by (auto simp: carquet_rle_decoder_has_next_def split: if_splits)
  have "0 < n \<or> rle_status dec2 \<noteq> CARQUET_OK"
    using run_skip_progress [of ds dec1 want dec2 n] ensure_run_True [of dec dec1] a by simp
  then show "((ds, dec2, want - n), ds, dec, want) \<in>
      measure (\<lambda>(ds, dec, want). want + (if rle_status dec = CARQUET_OK then 1 else 0))"
    using a(1) ok by auto
qed

declare carquet_rle_decoder_skip.simps [simp del]

definition carquet_rle_decode_all :: "bitunpack_dispatch \<Rightarrow> bytes \<Rightarrow> int \<Rightarrow> nat \<Rightarrow> u32 list" where
  "carquet_rle_decode_all ds input bit_width max_values =
     snd (carquet_rle_decoder_get_batch ds (carquet_rle_decoder_init input bit_width) max_values)"

section \<open>The format\<close>

text \<open>
  The values an RLE/bit-packed stream of width \<open>w\<close> stands for, up to the first error:
  each header is followed by a repeated value or by groups of \<open>w\<close> bytes; a run that
  the data cut short contributes its complete groups and ends the stream.
\<close>

definition groups_values :: "nat \<Rightarrow> bytes \<Rightarrow> nat \<Rightarrow> u32 list" where
  "groups_values w bs g = packed_values w bs (8 * g)"

definition rle_word :: "nat \<Rightarrow> bytes \<Rightarrow> u32" where
  "rle_word w bs = le_load (take ((w + 7) div 8) bs) AND mask w"

function rle_stream :: "nat \<Rightarrow> bytes \<Rightarrow> u32 list" where
  "rle_stream w bs =
     (case varint_scan 5 0 0 bs of
        None \<Rightarrow> []
      | Some (header :: u32, rest) \<Rightarrow>
          let n = unat (drop_bit 1 header) in
          if header AND 1 = 0
          then if n = 0 then rle_stream w rest
               else if length rest < (w + 7) div 8 then []
               else replicate n (rle_word w rest) @ rle_stream w (drop ((w + 7) div 8) rest)
          else if n * w \<le> length rest
               then groups_values w rest n @ rle_stream w (drop (n * w) rest)
               else groups_values w rest (length rest div w))"
  by pat_completeness auto
termination
  by (relation "measure (\<lambda>(w, bs). length bs)") (auto dest!: varint_scan_length_less)

declare rle_stream.simps [simp del]

definition packed_tail :: "nat \<Rightarrow> nat \<Rightarrow> bytes \<Rightarrow> u32 list" where
  "packed_tail w g bs =
     (if g * w \<le> length bs then groups_values w bs g @ rle_stream w (drop (g * w) bs)
      else groups_values w bs (length bs div w))"

lemma groups_values_0 [simp]: "groups_values w bs 0 = []"
  by (simp add: groups_values_def)

lemma groups_values_Suc: "groups_values w bs (Suc g) = packed_values w bs 8 @ groups_values w (drop w bs) g"
  using packed_values_split [of 8 w bs "8 * g"] by (simp add: groups_values_def)

lemma packed_tail_0 [simp]: "packed_tail w 0 bs = rle_stream w bs"
  by (simp add: packed_tail_def)

lemma packed_tail_Suc:
  assumes "w \<le> length bs"
  shows "packed_tail w (Suc g) bs = packed_values w bs 8 @ packed_tail w g (drop w bs)"
proof (cases "w + g * w \<le> length bs")
  case True
  then show ?thesis
    using assms by (auto simp: packed_tail_def groups_values_Suc ac_simps)
next
  case False
  then have w: "0 < w" using assms by (cases w) auto
  have "length bs div w = Suc ((length bs - w) div w)"
    using assms w by (simp add: le_div_geq)
  then show ?thesis
    using False assms by (auto simp: packed_tail_def groups_values_Suc)
qed

lemma packed_tail_short: "length bs < w \<Longrightarrow> packed_tail w (Suc g) bs = []"
  by (simp add: packed_tail_def)

lemma rle_stream_Nil [simp]: "rle_stream w [] = []"
  by (subst rle_stream.simps) (simp add: numeral_eq_Suc)

lemma rle_stream_header:
  assumes "varint_scan 5 0 0 bs = Some (header :: u32, rest)"
  shows "rle_stream w bs =
    (let n = unat (drop_bit 1 header) in
     if header AND 1 = 0
     then if n = 0 then rle_stream w rest
          else if length rest < (w + 7) div 8 then []
          else replicate n (rle_word w rest) @ rle_stream w (drop ((w + 7) div 8) rest)
     else packed_tail w n rest)"
  by (subst rle_stream.simps) (simp add: assms packed_tail_def Let_def)

lemma rle_stream_bad: "varint_scan 5 0 0 bs = (None :: (u32 \<times> bytes) option) \<Longrightarrow> rle_stream w bs = []"
  by (subst rle_stream.simps) simp

lemma rle_read_varint_scan:
  "rle_read_varint data p = None \<longleftrightarrow> varint_scan 5 0 0 (drop p data) = (None :: (u32 \<times> bytes) option)"
  "rle_read_varint data p = Some (h, pos) \<Longrightarrow> varint_scan 5 0 0 (drop p data) = Some (h, drop pos data)"
proof -
  show "rle_read_varint data p = None \<longleftrightarrow> varint_scan 5 0 0 (drop p data) = (None :: (u32 \<times> bytes) option)"
    by (simp add: rle_read_varint_def split: option.split)
  assume a: "rle_read_varint data p = Some (h, pos)"
  then obtain rest where r: "varint_scan 5 0 0 (drop p data) = Some (h, rest)" "pos = length data - length rest"
    by (auto simp: rle_read_varint_def split: option.splits)
  then obtain n where "n \<le> length (drop p data)" "rest = drop n (drop p data)"
    using varint_scan_suffix by blast
  with r show "varint_scan 5 0 0 (drop p data) = Some (h, drop pos data)"
    by (cases "p \<le> length data") (auto simp: add.commute)
qed

lemma rle_read_value_load:
  "pos + n \<le> length data \<Longrightarrow>
   rle_read_value n data pos i v = v OR push_bit (i * 8) (le_load (take n (drop pos data)))"
proof (induction n arbitrary: pos i v)
  case (Suc n)
  have "drop pos data = data ! pos # drop (pos + 1) data"
    using Suc.prems by (simp add: Cons_nth_drop_Suc)
  then have "le_load (take (Suc n) (drop pos data)) =
      (ucast (data ! pos) OR push_bit 8 (le_load (take n (drop (pos + 1) data))) :: u32)" by simp
  moreover have "push_bit (i * 8) (push_bit 8 x) = (push_bit ((i + 1) * 8) x :: u32)" for x
    by (simp add: push_bit_push_bit algebra_simps)
  ultimately show ?case
    using Suc.IH [of "pos + 1" "i + 1"] Suc.prems by (simp add: push_bit_or or.assoc)
qed simp

section \<open>Abstraction\<close>

definition staged :: "carquet_rle_decoder \<Rightarrow> u32 list" where
  "staged dec = drop (bitpack_pos dec) (take (bitpack_count dec) (bitpack_buffer dec))"

abbreviation rle_rest :: "carquet_rle_decoder \<Rightarrow> bytes" where
  "rle_rest dec \<equiv> drop (rle_pos dec) (rle_data dec)"

definition rle_pending :: "carquet_rle_decoder \<Rightarrow> u32 list" where
  "rle_pending dec =
     (if rle_status dec \<noteq> CARQUET_OK then []
      else if run_remaining dec = 0 then rle_stream (rle_bit_width dec) (rle_rest dec)
      else if rle_in_run dec
      then replicate (run_remaining dec) (rle_value dec) @ rle_stream (rle_bit_width dec) (rle_rest dec)
      else staged dec @ packed_tail (rle_bit_width dec)
             ((run_remaining dec - length (staged dec)) div 8) (rle_rest dec))"

definition rle_inv :: "carquet_rle_decoder \<Rightarrow> bool" where
  "rle_inv dec \<longleftrightarrow> rle_pos dec \<le> length (rle_data dec) \<and> rle_bit_width dec \<le> 32 \<and>
     rle_value_mask dec = mask (rle_bit_width dec) \<and>
     length (bitpack_buffer dec) = 8 \<and> bitpack_count dec \<le> 8 \<and> bitpack_pos dec \<le> bitpack_count dec \<and>
     (rle_status dec = CARQUET_OK \<longrightarrow>
        (if rle_in_run dec then bitpack_pos dec = bitpack_count dec
         else \<exists>g. run_remaining dec = (bitpack_count dec - bitpack_pos dec) + 8 * g))"

definition yields :: "carquet_rle_decoder \<Rightarrow> u32 list \<Rightarrow> carquet_rle_decoder \<Rightarrow> bool" where
  "yields dec vs dec' \<longleftrightarrow> rle_inv dec' \<and> rle_pending dec = vs @ rle_pending dec'"

lemma yields_trans: "yields a xs b \<Longrightarrow> yields b ys c \<Longrightarrow> yields a (xs @ ys) c"
  by (simp add: yields_def)

lemma length_staged: "rle_inv dec \<Longrightarrow> length (staged dec) = bitpack_count dec - bitpack_pos dec"
  by (auto simp: rle_inv_def staged_def)

lemma rle_inv_idle:
  "rle_inv dec \<Longrightarrow> rle_status dec = CARQUET_OK \<Longrightarrow> run_remaining dec = 0 \<Longrightarrow>
     bitpack_pos dec = bitpack_count dec"
  by (auto simp: rle_inv_def split: if_splits)

lemma rle_inv_packedI:
  assumes "rle_inv dec" "rle_data dec' = rle_data dec" "rle_bit_width dec' = rle_bit_width dec"
    "rle_value_mask dec' = rle_value_mask dec" "bitpack_buffer dec' = bitpack_buffer dec"
    "bitpack_count dec' = bitpack_count dec" "rle_pos dec' \<le> length (rle_data dec)"
    "bitpack_pos dec' \<le> bitpack_count dec" "\<not> rle_in_run dec'"
    "run_remaining dec' = (bitpack_count dec' - bitpack_pos dec') + 8 * g"
  shows "rle_inv dec'"
proof -
  have "\<exists>g. run_remaining dec' = (bitpack_count dec' - bitpack_pos dec') + 8 * g"
    using assms(10) by blast
  with assms(1-9) show ?thesis
    unfolding rle_inv_def by simp
qed

lemma rle_inv_init: "rle_inv (carquet_rle_decoder_init data bw)"
proof -
  have "NOT 0 = (mask 32 :: u32)" by (rule bit_word_eqI) (simp add: bit_simps)
  moreover have "bw = 32" if "32 \<le> bw" "\<not> 32 < bw" for bw :: int using that by simp
  ultimately show ?thesis
    by (auto simp: rle_inv_def carquet_rle_decoder_init_def Let_def mask_eq_exp_minus_1 push_bit_eq_mult)
qed

lemma rle_pending_init:
  "0 \<le> bw \<Longrightarrow> bw \<le> 32 \<Longrightarrow> rle_pending (carquet_rle_decoder_init data bw) = rle_stream (nat bw) data"
  by (simp add: rle_pending_def carquet_rle_decoder_init_def Let_def)

lemma start_new_run_pending:
  "rle_inv dec \<Longrightarrow> rle_status dec = CARQUET_OK \<Longrightarrow> run_remaining dec = 0 \<Longrightarrow>
   start_new_run dec = (dec', ok) \<Longrightarrow> yields dec [] dec' \<and> (\<not> ok \<longrightarrow> rle_pending dec' = [])"
proof (induction dec rule: start_new_run_induct)
  case (1 dec)
  have p0: "rle_pending dec = rle_stream (rle_bit_width dec) (rle_rest dec)"
    using "1.prems" by (simp add: rle_pending_def)
  show ?case
  proof (rule start_new_run_cases [of dec])
    assume "length (rle_data dec) \<le> rle_pos dec" "start_new_run dec = (dec, False)"
    with "1.prems" p0 show ?thesis by (simp add: yields_def)
  next
    assume "rle_read_varint (rle_data dec) (rle_pos dec) = None"
      "start_new_run dec = (dec\<lparr>rle_status := CARQUET_ERROR_INVALID_RLE\<rparr>, False)"
    with "1.prems" p0 show ?thesis
      by (auto simp: yields_def rle_inv_def rle_pending_def rle_read_varint_scan rle_stream_bad)
  next
    fix header pos
    assume a: "rle_pos dec < length (rle_data dec)"
      "rle_read_varint (rle_data dec) (rle_pos dec) = Some (header, pos)"
      "header AND 1 = 0" "unat (drop_bit 1 header) = 0"
      "start_new_run dec = start_new_run (rle_begin dec header pos)"
    have "rle_inv (rle_begin dec header pos)"
      using "1.prems"(1) rle_read_varint_progress [OF a(2)] rle_inv_idle [OF "1.prems"(1-3)]
      by (simp add: rle_inv_def rle_begin_def)
    moreover have "rle_pending (rle_begin dec header pos) = rle_pending dec"
      unfolding p0 rle_stream_header [OF rle_read_varint_scan(2) [OF a(2)]]
      using a "1.prems" by (simp add: rle_pending_def)
    ultimately show ?thesis
      using "1.IH" [OF a(1,2)] a "1.prems" by (auto simp: yields_def)
  next
    fix header pos
    assume a: "rle_pos dec < length (rle_data dec)"
      "rle_read_varint (rle_data dec) (rle_pos dec) = Some (header, pos)"
      "header AND 1 \<noteq> 0" "unat (drop_bit 1 header) = 0"
      "start_new_run dec = start_new_run (packed_begin dec header pos)"
    have "rle_inv (packed_begin dec header pos)"
      using "1.prems"(1) rle_read_varint_progress [OF a(2)] rle_inv_idle [OF "1.prems"(1-3)] a(4)
      by (simp add: rle_inv_def packed_begin_def)
    moreover have "rle_pending (packed_begin dec header pos) = rle_pending dec"
      unfolding p0 rle_stream_header [OF rle_read_varint_scan(2) [OF a(2)]]
      using a "1.prems" by (simp add: rle_pending_def)
    ultimately show ?thesis
      using "1.IH" [OF a(1,2)] a "1.prems" by (auto simp: yields_def)
  next
    fix header pos
    assume a: "rle_pos dec < length (rle_data dec)"
      "rle_read_varint (rle_data dec) (rle_pos dec) = Some (header, pos)"
      "header AND 1 = 0" "unat (drop_bit 1 header) \<noteq> 0"
      "length (rle_data dec) < pos + (rle_bit_width dec + 7) div 8"
      "start_new_run dec = ((rle_begin dec header pos)\<lparr>rle_status := CARQUET_ERROR_INVALID_RLE\<rparr>, False)"
    have "rle_stream (rle_bit_width dec) (rle_rest dec) = []"
      unfolding rle_stream_header [OF rle_read_varint_scan(2) [OF a(2)]]
      using a rle_read_varint_progress [OF a(2)] by (auto simp: less_diff_conv2)
    then show ?thesis
      using a "1.prems" p0 rle_read_varint_progress [OF a(2)]
      by (auto simp: yields_def rle_inv_def rle_pending_def rle_begin_def)
  next
    fix header pos
    assume a: "rle_pos dec < length (rle_data dec)"
      "rle_read_varint (rle_data dec) (rle_pos dec) = Some (header, pos)"
      "header AND 1 = 0" "unat (drop_bit 1 header) \<noteq> 0"
      "pos + (rle_bit_width dec + 7) div 8 \<le> length (rle_data dec)"
      "start_new_run dec = ((rle_begin dec header pos)\<lparr>rle_pos := pos + (rle_bit_width dec + 7) div 8,
         rle_value := rle_read_value ((rle_bit_width dec + 7) div 8) (rle_data dec) pos 0 0
           AND rle_value_mask dec\<rparr>, True)"
    have v: "rle_read_value ((rle_bit_width dec + 7) div 8) (rle_data dec) pos 0 0 AND rle_value_mask dec
        = rle_word (rle_bit_width dec) (drop pos (rle_data dec))"
      using "1.prems"(1) a(5) by (simp add: rle_read_value_load rle_word_def rle_inv_def)
    have "rle_pending dec = replicate (unat (drop_bit 1 header)) (rle_word (rle_bit_width dec) (drop pos (rle_data dec)))
        @ rle_stream (rle_bit_width dec) (drop (pos + (rle_bit_width dec + 7) div 8) (rle_data dec))"
      unfolding p0 rle_stream_header [OF rle_read_varint_scan(2) [OF a(2)]] using a
      by (simp add: add.commute)
    then show ?thesis
      using a "1.prems" rle_inv_idle [OF "1.prems"(1-3)] unfolding v
      by (auto simp: yields_def rle_inv_def rle_pending_def rle_begin_def)
  next
    fix header pos
    assume a: "rle_pos dec < length (rle_data dec)"
      "rle_read_varint (rle_data dec) (rle_pos dec) = Some (header, pos)"
      "header AND 1 \<noteq> 0" "unat (drop_bit 1 header) \<noteq> 0"
      "start_new_run dec = ((packed_begin dec header pos)\<lparr>bitpack_pos := 0, bitpack_count := 0\<rparr>, True)"
    have "rle_pending dec = packed_tail (rle_bit_width dec) (unat (drop_bit 1 header)) (drop pos (rle_data dec))"
      unfolding p0 rle_stream_header [OF rle_read_varint_scan(2) [OF a(2)]] using a by simp
    then show ?thesis
      using a "1.prems" rle_read_varint_progress [OF a(2)]
      by (auto simp: yields_def rle_inv_def rle_pending_def packed_begin_def staged_def)
  qed
qed

lemma ensure_run_pending:
  assumes "rle_inv dec" "rle_status dec = CARQUET_OK" "ensure_run dec = (dec', ok)"
  shows "yields dec [] dec' \<and> (\<not> ok \<longrightarrow> rle_pending dec' = [])"
  using assms start_new_run_pending [of dec dec' ok]
  by (auto simp: ensure_run_def yields_def split: if_splits)

lemma pending_packed:
  assumes "rle_inv dec" "rle_status dec = CARQUET_OK" "\<not> rle_in_run dec"
  shows "\<exists>g. run_remaining dec = length (staged dec) + 8 * g \<and>
    rle_pending dec = staged dec @ packed_tail (rle_bit_width dec) g (rle_rest dec)"
proof -
  obtain g where g: "run_remaining dec = length (staged dec) + 8 * g"
    using assms by (auto simp: rle_inv_def length_staged [OF assms(1)])
  then have "run_remaining dec = 0 \<Longrightarrow> staged dec = [] \<and> g = 0" by simp
  then show ?thesis
    using g assms by (intro exI [of _ g]) (auto simp: rle_pending_def)
qed

lemma packed_pending:
  assumes "rle_inv dec" "rle_status dec = CARQUET_OK" "\<not> rle_in_run dec"
    "run_remaining dec = length (staged dec) + 8 * g"
  shows "rle_pending dec = staged dec @ packed_tail (rle_bit_width dec) g (rle_rest dec)"
  using pending_packed [OF assms(1-3)] assms(4) by auto

lemma fill_bitpack_buffer_pending:
  assumes k: "unpack_kernels ds"
    and d: "rle_inv dec" "rle_status dec = CARQUET_OK" "\<not> rle_in_run dec" "0 < run_remaining dec"
      "bitpack_count dec \<le> bitpack_pos dec"
    and f: "fill_bitpack_buffer ds dec = (dec', ok)"
  shows "yields dec [] dec' \<and> (ok \<longrightarrow> rle_status dec' = CARQUET_OK \<and> \<not> rle_in_run dec') \<and>
    (\<not> ok \<longrightarrow> rle_status dec' \<noteq> CARQUET_OK)"
proof -
  have st: "staged dec = []" using length_staged [OF d(1)] d(5) by simp
  obtain g where g: "run_remaining dec = 8 * g" and
      p: "rle_pending dec = packed_tail (rle_bit_width dec) g (rle_rest dec)"
    using pending_packed [OF d(1-3)] st by auto
  then obtain g' where g': "g = Suc g'" using d(4) by (cases g) auto
  show ?thesis
  proof (cases "rle_pos dec + rle_bit_width dec \<le> length (rle_data dec)")
    case False
    with f d(1,4) have "dec' = dec\<lparr>rle_status := CARQUET_ERROR_INVALID_RLE\<rparr>" "\<not> ok"
      by (auto simp: fill_bitpack_buffer_def)
    moreover have "packed_tail (rle_bit_width dec) g (rle_rest dec) = []"
      unfolding g' using False d(1) by (intro packed_tail_short) (auto simp: rle_inv_def)
    ultimately show ?thesis
      using p d(1) by (simp add: yields_def rle_inv_def rle_pending_def)
  next
    case True
    then have w: "rle_bit_width dec \<le> length (rle_rest dec)" "rle_bit_width dec \<le> 32"
      using d(1) by (auto simp: rle_inv_def)
    have dec': "dec' = dec\<lparr>bitpack_buffer := packed_values (rle_bit_width dec) (rle_rest dec) 8,
        rle_pos := rle_pos dec + rle_bit_width dec, bitpack_pos := 0, bitpack_count := 8\<rparr>" "ok"
      using f d(4) True unpack_kernels.bitunpack8_32_spec [OF k w(2,1)]
      by (auto simp: fill_bitpack_buffer_def)
    have inv: "rle_inv dec'"
      using d True g g' unfolding dec' by (auto simp: rle_inv_def)
    have "rle_pending dec' = packed_values (rle_bit_width dec) (rle_rest dec) 8 @
        packed_tail (rle_bit_width dec) g' (drop (rle_bit_width dec) (rle_rest dec))"
      using packed_pending [OF inv, of g'] d dec' g g' by (simp add: staged_def add.commute)
    with p inv dec' d packed_tail_Suc [OF w(1), of g'] g' show ?thesis
      by (simp add: yields_def)
  qed
qed

lemma drain_staging_pending:
  "rle_inv dec \<Longrightarrow> rle_status dec = CARQUET_OK \<Longrightarrow> \<not> rle_in_run dec \<Longrightarrow>
   drain_staging want dec = (dec', vs) \<Longrightarrow>
   yields dec vs dec' \<and> rle_status dec' = CARQUET_OK \<and> \<not> rle_in_run dec' \<and> length vs \<le> want \<and>
   (length vs < want \<longrightarrow> run_remaining dec' = 0 \<or> bitpack_count dec' \<le> bitpack_pos dec')"
proof (induction want arbitrary: dec vs)
  case 0
  then show ?case by (simp add: yields_def)
next
  case (Suc want)
  show ?case
  proof (cases "bitpack_pos dec < bitpack_count dec \<and> 0 < run_remaining dec")
    case False
    with Suc.prems show ?thesis by (auto simp: yields_def)
  next
    case True
    let ?dec = "dec\<lparr>bitpack_pos := bitpack_pos dec + 1, run_remaining := run_remaining dec - 1\<rparr>"
    obtain vs' where r: "drain_staging want ?dec = (dec', vs')"
        and vs: "vs = bitpack_buffer dec ! bitpack_pos dec # vs'"
      using Suc.prems(4) True by (auto simp: Let_def split: prod.splits)
    have st: "staged dec = bitpack_buffer dec ! bitpack_pos dec # staged ?dec"
      using Cons_nth_drop_Suc [of "bitpack_pos dec" "take (bitpack_count dec) (bitpack_buffer dec)"]
        True Suc.prems(1) by (simp add: staged_def rle_inv_def)
    obtain g where g: "run_remaining dec = length (staged dec) + 8 * g"
        and p: "rle_pending dec = staged dec @ packed_tail (rle_bit_width dec) g (rle_rest dec)"
      using pending_packed [OF Suc.prems(1-3)] by blast
    have rr: "run_remaining dec - 1 = (bitpack_count dec - (bitpack_pos dec + 1)) + 8 * g"
      using g length_staged [OF Suc.prems(1)] True by linarith
    have pos: "rle_pos dec \<le> length (rle_data dec)" using Suc.prems(1) unfolding rle_inv_def by blast
    have inv: "rle_inv ?dec"
      by (rule rle_inv_packedI [OF Suc.prems(1), of ?dec g])
        (use Suc.prems(3) True rr pos in simp_all)
    have len: "run_remaining ?dec = length (staged ?dec) + 8 * g"
      using rr length_staged [OF inv] by simp
    have "rle_pending ?dec = staged ?dec @ packed_tail (rle_bit_width ?dec) g (rle_rest ?dec)"
      by (rule packed_pending [OF inv _ _ len]) (use Suc.prems(2,3) in simp_all)
    with p st have 1: "yields dec [bitpack_buffer dec ! bitpack_pos dec] ?dec"
      using inv by (simp add: yields_def)
    have 2: "yields ?dec vs' dec' \<and> rle_status dec' = CARQUET_OK \<and> \<not> rle_in_run dec' \<and> length vs' \<le> want \<and>
        (length vs' < want \<longrightarrow> run_remaining dec' = 0 \<or> bitpack_count dec' \<le> bitpack_pos dec')"
    proof (rule Suc.IH [OF inv _ _ r])
      show "rle_status ?dec = CARQUET_OK" using Suc.prems(2) by simp
      show "\<not> rle_in_run ?dec" using Suc.prems(3) by simp
    qed
    then have "yields dec vs dec'"
      using yields_trans [OF 1, of vs' dec'] vs by simp
    with 2 vs show ?thesis by simp
  qed
qed

lemma unpack_whole_groups_pending:
  assumes k: "unpack_kernels ds"
  shows "rle_inv dec \<Longrightarrow> rle_status dec = CARQUET_OK \<Longrightarrow> \<not> rle_in_run dec \<Longrightarrow>
    (8 \<le> want \<Longrightarrow> 8 \<le> run_remaining dec \<Longrightarrow> bitpack_count dec \<le> bitpack_pos dec) \<Longrightarrow>
    unpack_whole_groups ds dec want = (dec', vs) \<Longrightarrow>
    yields dec vs dec' \<and> \<not> rle_in_run dec' \<and> length vs \<le> want \<and>
    (rle_status dec' \<noteq> CARQUET_OK \<longrightarrow> bitpack_count dec' \<le> bitpack_pos dec' \<and>
       length (rle_data dec') < rle_pos dec' + rle_bit_width dec')"
proof (induction want arbitrary: dec vs rule: less_induct)
  case (less want)
  note d = less.prems(1-3)
  show ?case
  proof (cases "8 \<le> want \<and> 8 \<le> run_remaining dec")
    case False
    with less.prems show ?thesis
      by (subst (asm) unpack_whole_groups.simps) (auto simp: yields_def)
  next
    case True
    with less.prems(4) have e: "bitpack_count dec \<le> bitpack_pos dec" by blast
    have st: "staged dec = []" using length_staged [OF d(1)] e by simp
    obtain g where g: "run_remaining dec = 8 * g" and
        p: "rle_pending dec = packed_tail (rle_bit_width dec) g (rle_rest dec)"
      using pending_packed [OF d] st by auto
    then obtain g' where g': "g = Suc g'" using True by (cases g) auto
    have inv: "rle_pos dec \<le> length (rle_data dec)" "rle_bit_width dec \<le> 32" "bitpack_pos dec = bitpack_count dec"
      using d(1) e unfolding rle_inv_def by auto
    show ?thesis
    proof (cases "rle_pos dec + rle_bit_width dec \<le> length (rle_data dec)")
      case False
      then have "packed_tail (rle_bit_width dec) g (rle_rest dec) = []"
        unfolding g' using inv by (intro packed_tail_short) auto
      moreover have "dec' = dec\<lparr>rle_status := CARQUET_ERROR_INVALID_RLE\<rparr>" "vs = []"
        using less.prems(5) True False by (subst (asm) unpack_whole_groups.simps, simp)+
      ultimately show ?thesis
        using d p e False by (simp add: yields_def rle_inv_def rle_pending_def)
    next
      case fits: True
      let ?dec = "dec\<lparr>rle_pos := rle_pos dec + rle_bit_width dec, run_remaining := run_remaining dec - 8\<rparr>"
      let ?group = "packed_values (rle_bit_width dec) (rle_rest dec) 8"
      have w: "rle_bit_width dec \<le> length (rle_rest dec)" using fits by auto
      obtain vs' where r: "unpack_whole_groups ds ?dec (want - 8) = (dec', vs')" and vs: "vs = ?group @ vs'"
      proof -
        have "map (f (rle_rest dec)) [0..<8] = ?group"
          if "carquet_dispatch_get_bitunpack8_fn ds (rle_bit_width dec) = Some f" "0 < rle_bit_width dec" for f
          using unpack_kernels.kernel8 [OF k, of "rle_bit_width dec" f "rle_rest dec"] that w inv(2)
          by (auto simp: carquet_dispatch_get_bitunpack8_fn_def split: if_splits)
        then have group: "(case if 0 < rle_bit_width dec
              then carquet_dispatch_get_bitunpack8_fn ds (rle_bit_width dec) else None of
            None \<Rightarrow> carquet_bitunpack8_32 ds (rle_rest dec) (rle_bit_width dec)
          | Some f \<Rightarrow> map (f (rle_rest dec)) [0..<8]) = ?group"
          using unpack_kernels.bitunpack8_32_spec [OF k inv(2) w] by (auto split: option.split)
        obtain d2 vs2 where r: "unpack_whole_groups ds ?dec (want - 8) = (d2, vs2)" by fastforce
        have "unpack_whole_groups ds dec want = (d2, ?group @ vs2)"
          using True fits r group by (simp add: unpack_whole_groups.simps [of ds dec want] Let_def)
        then show thesis using that r less.prems(5) by simp
      qed
      have "run_remaining ?dec = (bitpack_count ?dec - bitpack_pos ?dec) + 8 * g'"
        using g g' e by simp
      then have i: "rle_inv ?dec"
        by (intro rle_inv_packedI [OF d(1), of ?dec g']) (use fits inv d(3) in simp_all)
      have "rle_pending ?dec = packed_tail (rle_bit_width dec) g' (drop (rle_bit_width dec) (rle_rest dec))"
        using packed_pending [OF i, of g'] d g g' st by (simp add: staged_def add.commute)
      then have "yields dec ?group ?dec"
        using i p g' packed_tail_Suc [OF w] by (simp add: yields_def)
      moreover have "yields ?dec vs' dec' \<and> \<not> rle_in_run dec' \<and> length vs' \<le> want - 8 \<and>
          (rle_status dec' \<noteq> CARQUET_OK \<longrightarrow> bitpack_count dec' \<le> bitpack_pos dec' \<and>
             length (rle_data dec') < rle_pos dec' + rle_bit_width dec')"
        using True by (intro less.IH [OF _ i _ _ _ r]) (use d e in auto)
      ultimately show ?thesis
        using yields_trans True unfolding vs by fastforce
    qed
  qed
qed

lemma unpack_through_staging_pending:
  assumes k: "unpack_kernels ds"
  shows "rle_inv dec \<Longrightarrow> rle_status dec = CARQUET_OK \<Longrightarrow> \<not> rle_in_run dec \<Longrightarrow>
    unpack_through_staging ds dec want = (dec', vs) \<Longrightarrow>
    yields dec vs dec' \<and> length vs \<le> want"
proof (induction want arbitrary: dec vs rule: less_induct)
  case (less want)
  note d = less.prems(1-3)
  show ?case
  proof (cases "0 < want \<and> 0 < run_remaining dec")
    case False
    with less.prems show ?thesis
      by (subst (asm) unpack_through_staging.simps) (auto simp: yields_def)
  next
    case True
    obtain dec1 ok where f: "(if bitpack_count dec \<le> bitpack_pos dec then fill_bitpack_buffer ds dec
        else (dec, True)) = (dec1, ok)" by fastforce
    have 1: "yields dec [] dec1" "ok \<longrightarrow> rle_status dec1 = CARQUET_OK \<and> \<not> rle_in_run dec1"
      "\<not> ok \<longrightarrow> rle_status dec1 \<noteq> CARQUET_OK"
      using f d True fill_bitpack_buffer_pending [OF k d] by (auto simp: yields_def split: if_splits)
    show ?thesis
    proof (cases ok)
      case False
      with less.prems(4) True f have "dec' = dec1 \<and> vs = []"
        by (subst (asm) unpack_through_staging.simps) auto
      with 1 show ?thesis by simp
    next
      case ok: True
      obtain dec2 vs2 where dr: "drain_staging want dec1 = (dec2, vs2)" by fastforce
      obtain dec3 vs3 where r: "unpack_through_staging ds dec2 (want - length vs2) = (dec3, vs3)" by fastforce
      have e: "dec' = dec3" "vs = vs2 @ vs3"
        using less.prems(4) True f ok dr r
        by (simp_all add: unpack_through_staging.simps [of ds dec want] Let_def)
      have i1: "rle_inv dec1" using 1(1) by (simp add: yields_def)
      have 2: "yields dec1 vs2 dec2" "rle_status dec2 = CARQUET_OK" "\<not> rle_in_run dec2" "length vs2 \<le> want"
        using drain_staging_pending [OF i1 _ _ dr] 1(2) ok by blast+
      have "0 < length vs2" using staging_progress [of dec ds dec1 want dec2 vs2] True f ok dr by simp
      then have "want - length vs2 < want" using True by linarith
      moreover have "rle_inv dec2" using 2(1) by (simp add: yields_def)
      ultimately have "yields dec2 vs3 dec3 \<and> length vs3 \<le> want - length vs2"
        using less.IH [of "want - length vs2" dec2 vs3] 2(2,3) r e(1) by simp
      with 2(4) yields_trans [OF 1(1) yields_trans [OF 2(1)]] e show ?thesis by fastforce
    qed
  qed
qed

lemma run_batch_pending:
  assumes k: "unpack_kernels ds"
    and d: "rle_inv dec" "rle_status dec = CARQUET_OK" "0 < run_remaining dec"
    and r: "run_batch ds dec want = (dec', vs)"
  shows "yields dec vs dec' \<and> length vs \<le> want"
proof (cases "rle_in_run dec")
  case True
  define n where "n = min want (run_remaining dec)"
  have e: "dec' = dec\<lparr>run_remaining := run_remaining dec - n\<rparr>" "vs = replicate n (rle_value dec)"
    using r True by (auto simp: run_batch_def rle_fill_def n_def min_def Let_def split: if_splits)
  have "replicate (run_remaining dec) (rle_value dec) =
      replicate n (rle_value dec) @ replicate (run_remaining dec - n) (rle_value dec)"
    unfolding replicate_add [symmetric] by (simp add: n_def)
  then show ?thesis
    using d True e by (auto simp: yields_def rle_inv_def rle_pending_def n_def)
next
  case False
  obtain dec1 vs1 where 1: "drain_staging want dec = (dec1, vs1)" by fastforce
  obtain dec2 vs2 where 2: "unpack_whole_groups ds dec1 (want - length vs1) = (dec2, vs2)" by fastforce
  obtain dec3 vs3 where 3: "unpack_through_staging ds dec2 (want - length vs1 - length vs2) = (dec3, vs3)"
    by fastforce
  have r': "dec' = dec3" "vs = vs1 @ vs2 @ vs3"
    using r False 1 2 3 by (simp_all add: run_batch_def bitpacked_batch_def)
  have y1: "yields dec vs1 dec1" "rle_status dec1 = CARQUET_OK" "\<not> rle_in_run dec1" "length vs1 \<le> want"
    "length vs1 < want \<longrightarrow> run_remaining dec1 = 0 \<or> bitpack_count dec1 \<le> bitpack_pos dec1"
    using drain_staging_pending [OF d(1,2) False 1] by blast+
  have i1: "rle_inv dec1" using y1 by (simp add: yields_def)
  have y2: "yields dec1 vs2 dec2" "\<not> rle_in_run dec2" "length vs2 \<le> want - length vs1"
    using unpack_whole_groups_pending [OF k i1 y1(2,3) _ 2] y1(5) by auto
  have i2: "rle_inv dec2" using y2 by (simp add: yields_def)
  have y3: "yields dec2 vs3 dec3 \<and> length vs3 \<le> want - length vs1 - length vs2"
  proof (cases "rle_status dec2 = CARQUET_OK")
    case True
    then show ?thesis using unpack_through_staging_pending [OF k i2 _ y2(2) 3] by blast
  next
    case e: False
    then have "bitpack_count dec2 \<le> bitpack_pos dec2 \<and>
        length (rle_data dec2) < rle_pos dec2 + rle_bit_width dec2"
      using unpack_whole_groups_pending [OF k i1 y1(2,3) _ 2] y1(5) by auto
    then have "vs3 = [] \<and> (dec3 = dec2 \<or> dec3 = dec2\<lparr>rle_status := CARQUET_ERROR_INVALID_RLE\<rparr>)"
      using 3 by (subst (asm) unpack_through_staging.simps)
        (auto simp: fill_bitpack_buffer_def split: if_splits)
    with e i2 show ?thesis by (auto simp: yields_def rle_inv_def rle_pending_def)
  qed
  show ?thesis
    using yields_trans [OF y1(1) yields_trans [OF y2(1)]] y1(4) y2(3) y3 r' by auto
qed

lemma has_next_False_pending: "\<not> carquet_rle_decoder_has_next dec \<Longrightarrow> rle_pending dec = []"
  by (auto simp: carquet_rle_decoder_has_next_def rle_pending_def split: if_splits)

lemma get_batch_pending:
  assumes k: "unpack_kernels ds"
  shows "rle_inv dec \<Longrightarrow> carquet_rle_decoder_get_batch ds dec want = (dec', vs) \<Longrightarrow>
    yields dec vs dec' \<and> length vs \<le> want \<and> (length vs < want \<longrightarrow> rle_pending dec' = [])"
proof (induction "want + (if rle_status dec = CARQUET_OK then 1 else 0 :: nat)" arbitrary: dec want vs rule: less_induct)
  case less
  show ?case
  proof (cases "0 < want \<and> carquet_rle_decoder_has_next dec")
    case False
    with less.prems have "dec' = dec" "vs = []"
      by (subst (asm) carquet_rle_decoder_get_batch.simps, simp)+
    with False less.prems(1) has_next_False_pending show ?thesis by (auto simp: yields_def)
  next
    case True
    then have ok: "rle_status dec = CARQUET_OK"
      by (auto simp: carquet_rle_decoder_has_next_def split: if_splits)
    obtain dec1 b where e: "ensure_run dec = (dec1, b)" by fastforce
    note y1 = ensure_run_pending [OF less.prems(1) ok e]
    show ?thesis
    proof (cases b)
      case False
      with less.prems(2) True e have "dec' = dec1" "vs = []"
        by (subst (asm) carquet_rle_decoder_get_batch.simps, simp)+
      with y1 False show ?thesis by simp
    next
      case b: True
      obtain dec2 vs2 where r: "run_batch ds dec1 want = (dec2, vs2)" by fastforce
      obtain dec3 vs3 where g: "carquet_rle_decoder_get_batch ds dec2 (want - length vs2) = (dec3, vs3)"
        by fastforce
      have d: "dec' = dec3" "vs = vs2 @ vs3"
        using less.prems(2) True e b r g
        by (simp_all add: carquet_rle_decoder_get_batch.simps [of ds dec want])
      have d1: "0 < run_remaining dec1" "rle_status dec1 = CARQUET_OK" "rle_inv dec1"
        using ensure_run_True [of dec dec1] e b ok y1 by (auto simp: yields_def)
      have y2: "yields dec1 vs2 dec2" "length vs2 \<le> want"
        using run_batch_pending [OF k d1(3,2,1) r] by blast+
      have "vs2 \<noteq> [] \<or> rle_status dec2 \<noteq> CARQUET_OK"
        using run_batch_progress [OF r _ d1(1,2)] True by blast
      then have "want - length vs2 + (if rle_status dec2 = CARQUET_OK then 1 else 0) <
          want + (if rle_status dec = CARQUET_OK then 1 else 0)"
        using ok True by (cases vs2) auto
      moreover have "rle_inv dec2" using y2(1) by (simp add: yields_def)
      ultimately have "yields dec2 vs3 dec3 \<and> length vs3 \<le> want - length vs2 \<and>
          (length vs3 < want - length vs2 \<longrightarrow> rle_pending dec3 = [])"
        using less.hyps [of "want - length vs2" dec2 vs3] g d by simp
      with y1 y2 d yields_trans [of dec "[]" dec1 "vs2 @ vs3" dec3] yields_trans [OF y2(1), of vs3 dec3]
      show ?thesis by auto
    qed
  qed
qed

lemma get_pending:
  assumes k: "unpack_kernels ds" and d: "rle_inv dec"
    and g: "carquet_rle_decoder_get ds dec = (dec', v)"
  shows "rle_pending dec = [] \<and> v = 0 \<and> rle_pending dec' = [] \<or> yields dec [v] dec'"
proof (cases "rle_status dec = CARQUET_OK")
  case False
  with g show ?thesis by (auto simp: carquet_rle_decoder_get_def rle_pending_def)
next
  case ok: True
  obtain dec1 b where e: "ensure_run dec = (dec1, b)" by fastforce
  note y1 = ensure_run_pending [OF d ok e]
  show ?thesis
  proof (cases b)
    case False
    with g ok e y1 show ?thesis by (auto simp: carquet_rle_decoder_get_def yields_def)
  next
    case b: True
    have d1: "0 < run_remaining dec1" "rle_status dec1 = CARQUET_OK" "rle_inv dec1"
      using ensure_run_True [of dec dec1] e b ok y1 by (auto simp: yields_def)
    show ?thesis
    proof (cases "rle_in_run dec1")
      case True
      then have dec': "dec' = dec1\<lparr>run_remaining := run_remaining dec1 - 1\<rparr>" "v = rle_value dec1"
        using g ok e b by (simp_all add: carquet_rle_decoder_get_def)
      obtain m where m: "run_remaining dec1 = Suc m" using d1(1) gr0_implies_Suc by blast
      have "yields dec1 [v] dec'"
        using dec' True d1 m by (auto simp: yields_def rle_inv_def rle_pending_def)
      with y1 show ?thesis by (simp add: yields_def)
    next
      case np: False
      obtain dec2 ok2 where f: "(if bitpack_count dec1 \<le> bitpack_pos dec1 then fill_bitpack_buffer ds dec1
          else (dec1, True)) = (dec2, ok2)" by fastforce
      have y2: "yields dec1 [] dec2" "ok2 \<longrightarrow> rle_status dec2 = CARQUET_OK \<and> \<not> rle_in_run dec2"
        "\<not> ok2 \<longrightarrow> rle_status dec2 \<noteq> CARQUET_OK"
        using f d1 np fill_bitpack_buffer_pending [OF k d1(3,2) np d1(1)]
        by (auto simp: yields_def split: if_splits)
      show ?thesis
      proof (cases ok2)
        case False
        then have "dec' = dec2 \<and> v = 0" using g ok e b np f by (simp add: carquet_rle_decoder_get_def)
        moreover have "rle_pending dec2 = []" using y2(3) False by (simp add: rle_pending_def)
        ultimately show ?thesis using y1 y2(1) by (simp add: yields_def)
      next
        case ok2: True
        have p: "bitpack_pos dec2 < bitpack_count dec2 \<and> 0 < run_remaining dec2"
          using f ok2 d1(1) fill_bitpack_buffer_True [of ds dec1 dec2] by (auto split: if_splits)
        have dr: "drain_staging (Suc 0) dec2 = (dec', [v])"
          using g ok e b np f ok2 p by (simp add: carquet_rle_decoder_get_def)
        have "rle_inv dec2" using y2(1) by (simp add: yields_def)
        then have "yields dec2 [v] dec'"
          using drain_staging_pending [OF _ _ _ dr] y2(2) ok2 by blast
        with y1 y2(1) show ?thesis by (simp add: yields_def)
      qed
    qed
  qed
qed

lemma skip_staged_drain:
  "drain_staging want dec = (dec', vs) \<Longrightarrow> length vs = skip_staged dec want \<and>
     dec' = dec\<lparr>bitpack_pos := bitpack_pos dec + length vs, run_remaining := run_remaining dec - length vs\<rparr>"
proof (induction want arbitrary: dec dec' vs)
  case 0
  then show ?case by (simp add: skip_staged_def)
next
  case (Suc want)
  show ?case
  proof (cases "bitpack_pos dec < bitpack_count dec \<and> 0 < run_remaining dec")
    case False
    with Suc.prems show ?thesis by (auto simp: skip_staged_def Let_def)
  next
    case True
    let ?dec = "dec\<lparr>bitpack_pos := bitpack_pos dec + 1, run_remaining := run_remaining dec - 1\<rparr>"
    obtain d2 vs' where r: "drain_staging want ?dec = (d2, vs')" by fastforce
    then have e: "dec' = d2" "vs = bitpack_buffer dec ! bitpack_pos dec # vs'"
      using Suc.prems True by (auto simp: Let_def)
    have "length vs' = skip_staged ?dec want" using Suc.IH [OF r] by blast
    moreover have "skip_staged dec (Suc want) = Suc (skip_staged ?dec want)"
      using True by (auto simp: skip_staged_def Let_def)
    ultimately show ?thesis
      using Suc.IH [OF r] e by simp
  qed
qed

lemma skip_bitpacked_pending:
  assumes k: "unpack_kernels ds"
  shows "rle_inv dec \<Longrightarrow> rle_status dec = CARQUET_OK \<Longrightarrow> \<not> rle_in_run dec \<Longrightarrow>
    skip_bitpacked ds dec want = (dec', n) \<Longrightarrow>
    \<exists>vs. length vs = n \<and> n \<le> want \<and> yields dec vs dec'"
proof (induction want arbitrary: dec n rule: less_induct)
  case (less want)
  note d = less.prems(1-3)
  show ?case
  proof (cases "0 < want \<and> 0 < run_remaining dec")
    case False
    with less.prems show ?thesis
      by (subst (asm) skip_bitpacked.simps) (auto simp: yields_def)
  next
    case True
    obtain dec1 ok where f: "(if bitpack_count dec \<le> bitpack_pos dec then fill_bitpack_buffer ds dec
        else (dec, True)) = (dec1, ok)" by fastforce
    have 1: "yields dec [] dec1" "ok \<longrightarrow> rle_status dec1 = CARQUET_OK \<and> \<not> rle_in_run dec1"
      using f d True fill_bitpack_buffer_pending [OF k d] by (auto simp: yields_def split: if_splits)
    show ?thesis
    proof (cases ok)
      case False
      with less.prems(4) True f have "dec' = dec1 \<and> n = 0"
        by (subst (asm) skip_bitpacked.simps) auto
      with 1 show ?thesis by auto
    next
      case ok: True
      obtain dec2 vs2 where dr: "drain_staging want dec1 = (dec2, vs2)" by fastforce
      note sd = skip_staged_drain [OF dr]
      obtain dec3 m where r: "skip_bitpacked ds dec2 (want - length vs2) = (dec3, m)" by fastforce
      have e: "dec' = dec3" "n = length vs2 + m"
        using less.prems(4) True f ok sd r by (simp_all add: skip_bitpacked.simps [of ds dec want] Let_def)
      have i1: "rle_inv dec1" using 1(1) by (simp add: yields_def)
      have 2: "yields dec1 vs2 dec2" "rle_status dec2 = CARQUET_OK" "\<not> rle_in_run dec2" "length vs2 \<le> want"
        using drain_staging_pending [OF i1 _ _ dr] 1(2) ok by blast+
      have "0 < length vs2" using staging_progress [of dec ds dec1 want dec2 vs2] True f ok dr by simp
      then have "want - length vs2 < want" using True by linarith
      moreover have "rle_inv dec2" using 2(1) by (simp add: yields_def)
      ultimately obtain vs3 where "length vs3 = m" "m \<le> want - length vs2" "yields dec2 vs3 dec3"
        using less.IH [of "want - length vs2" dec2 m] 2(2,3) r e(1) by auto
      with 2(4) yields_trans [OF 1(1) yields_trans [OF 2(1)]] e show ?thesis
        by (intro exI [of _ "vs2 @ vs3"]) auto
    qed
  qed
qed

lemma run_skip_pending:
  assumes k: "unpack_kernels ds"
    and d: "rle_inv dec" "rle_status dec = CARQUET_OK" "0 < run_remaining dec"
    and r: "run_skip ds dec want = (dec', n)"
  shows "\<exists>vs. length vs = n \<and> n \<le> want \<and> yields dec vs dec'"
proof (cases "rle_in_run dec")
  case True
  then have "run_batch ds dec want = (dec', replicate n (rle_value dec))"
    using r by (auto simp: run_batch_def rle_fill_def run_skip_def Let_def)
  then show ?thesis
    using run_batch_pending [OF k d] by (intro exI [of _ "replicate n (rle_value dec)"]) fastforce
next
  case False
  then show ?thesis
    using r skip_bitpacked_pending [OF k d(1,2) False, of "min want (run_remaining dec)" dec' n]
    by (fastforce simp: run_skip_def Let_def min_def split: if_splits)
qed

lemma skip_pending:
  assumes k: "unpack_kernels ds"
  shows "rle_inv dec \<Longrightarrow> carquet_rle_decoder_skip ds dec want = (dec', n) \<Longrightarrow>
    \<exists>vs. length vs = n \<and> n \<le> want \<and> yields dec vs dec' \<and> (n < want \<longrightarrow> rle_pending dec' = [])"
proof (induction "want + (if rle_status dec = CARQUET_OK then 1 else 0 :: nat)" arbitrary: dec want n rule: less_induct)
  case less
  show ?case
  proof (cases "0 < want \<and> carquet_rle_decoder_has_next dec")
    case False
    with less.prems have "dec' = dec" "n = 0"
      by (subst (asm) carquet_rle_decoder_skip.simps, simp)+
    with False less.prems(1) has_next_False_pending show ?thesis by (auto simp: yields_def)
  next
    case True
    then have ok: "rle_status dec = CARQUET_OK"
      by (auto simp: carquet_rle_decoder_has_next_def split: if_splits)
    obtain dec1 b where e: "ensure_run dec = (dec1, b)" by fastforce
    note y1 = ensure_run_pending [OF less.prems(1) ok e]
    show ?thesis
    proof (cases b)
      case False
      with less.prems(2) True e have "dec' = dec1" "n = 0"
        by (subst (asm) carquet_rle_decoder_skip.simps, simp)+
      with y1 False show ?thesis by auto
    next
      case b: True
      obtain dec2 n2 where r: "run_skip ds dec1 want = (dec2, n2)" by fastforce
      obtain dec3 n3 where g: "carquet_rle_decoder_skip ds dec2 (want - n2) = (dec3, n3)" by fastforce
      have d: "dec' = dec3" "n = n2 + n3"
        using less.prems(2) True e b r g
        by (simp_all add: carquet_rle_decoder_skip.simps [of ds dec want])
      have d1: "0 < run_remaining dec1" "rle_status dec1 = CARQUET_OK" "rle_inv dec1"
        using ensure_run_True [of dec dec1] e b ok y1 by (auto simp: yields_def)
      obtain vs2 where y2: "yields dec1 vs2 dec2" "length vs2 = n2" "n2 \<le> want"
        using run_skip_pending [OF k d1(3,2,1) r] by blast
      have "0 < n2 \<or> rle_status dec2 \<noteq> CARQUET_OK"
        using run_skip_progress [OF r _ d1(1)] True by blast
      then have "want - n2 + (if rle_status dec2 = CARQUET_OK then 1 else 0) <
          want + (if rle_status dec = CARQUET_OK then 1 else 0)"
        using ok True by auto
      moreover have "rle_inv dec2" using y2(1) by (simp add: yields_def)
      ultimately obtain vs3 where "length vs3 = n3" "n3 \<le> want - n2" "yields dec2 vs3 dec3"
          "n3 < want - n2 \<longrightarrow> rle_pending dec3 = []"
        using less.hyps [of "want - n2" dec2 n3] g d by auto
      with y1 y2 d yields_trans [of dec "[]" dec1 "vs2 @ vs3" dec3] yields_trans [OF y2(1), of vs3 dec3]
      show ?thesis by (intro exI [of _ "vs2 @ vs3"]) auto
    qed
  qed
qed

section \<open>Properties\<close>

lemma rle_decode_all_stream:
  assumes "unpack_kernels ds" "0 \<le> bw" "bw \<le> 32"
  shows "carquet_rle_decode_all ds input bw n = take n (rle_stream (nat bw) input)"
proof -
  obtain dec' vs where g: "carquet_rle_decoder_get_batch ds (carquet_rle_decoder_init input bw) n = (dec', vs)"
    by fastforce
  have "rle_stream (nat bw) input = vs @ rle_pending dec'" "length vs \<le> n"
    "length vs < n \<longrightarrow> rle_pending dec' = []"
    using get_batch_pending [OF assms(1) rle_inv_init g] rle_pending_init [OF assms(2,3)]
    by (auto simp: yields_def)
  then show ?thesis
    using g by (cases "length vs = n") (auto simp: carquet_rle_decode_all_def)
qed

text \<open>
  C2: batch decoding is the format. For any input bytes, well-formed or not, and any
  width from 0 to 32, \<^verbatim>\<open>carquet_rle_decode_all\<close> returns the first \<open>max_values\<close> values of
  the stream the format assigns to the bytes, no more and no fewer, whichever of the
  staging buffer, the whole-group path and the SIMD kernels produced them.
\<close>

theorem rle_decode_all_is_format:
  assumes "unpack_kernels ds" "0 \<le> bw" "bw \<le> 32"
  shows "carquet_rle_decode_all ds input bw n = take n (rle_stream (nat bw) input)"
  using assms by (rule rle_decode_all_stream)

theorem rle_decode_all_is_format_witness:
  "carquet_rle_decode_all scalar_dispatch [3, 0x88, 0xC6, 0xFA, 4, 5, 9] 3 20 =
     take 20 (rle_stream 3 [3, 0x88, 0xC6, 0xFA, 4, 5, 9])"
  using rle_decode_all_is_format [OF scalar.unpack_kernels_axioms, of 3 "[3, 0x88, 0xC6, 0xFA, 4, 5, 9]" 20]
  by simp

text \<open>
  Skipping and reading commute with the stream. From any reachable decoder state,
  \<^verbatim>\<open>carquet_rle_decoder_skip\<close> followed by \<^verbatim>\<open>carquet_rle_decoder_get_batch\<close> returns the
  values after the skipped ones, and a single \<^verbatim>\<open>carquet_rle_decoder_get\<close> returns the first
  value of the stream (0 when it has none).
\<close>

theorem rle_skip_then_read:
  assumes "unpack_kernels ds" "rle_inv dec"
    and "carquet_rle_decoder_skip ds dec n = (dec1, k)"
    and "carquet_rle_decoder_get_batch ds dec1 m = (dec2, vs)"
    and "carquet_rle_decoder_get ds dec = (dec3, v)"
  shows "k = min n (length (rle_pending dec)) \<and> vs = take m (drop n (rle_pending dec)) \<and>
    v = (if rle_pending dec = [] then 0 else hd (rle_pending dec)) \<and>
    rle_pending dec3 = tl (rle_pending dec)"
proof -
  obtain us where s: "length us = k" "k \<le> n" "yields dec us dec1" "k < n \<longrightarrow> rle_pending dec1 = []"
    using skip_pending [OF assms(1-3)] by blast
  have i: "rle_inv dec1" using s(3) by (simp add: yields_def)
  have g: "yields dec1 vs dec2" "length vs \<le> m" "length vs < m \<longrightarrow> rle_pending dec2 = []"
    using get_batch_pending [OF assms(1) i assms(4)] by auto
  have 1: "k = min n (length (rle_pending dec)) \<and> vs = take m (drop n (rle_pending dec))"
    using s g by (cases "k < n"; cases "length vs < m") (auto simp: yields_def)
  have "v = (if rle_pending dec = [] then 0 else hd (rle_pending dec)) \<and>
      rle_pending dec3 = tl (rle_pending dec)"
    using get_pending [OF assms(1,2,5)] by (auto simp: yields_def)
  with 1 show ?thesis by simp
qed

theorem rle_skip_then_read_witness:
  "snd (carquet_rle_decoder_get_batch scalar_dispatch (fst (carquet_rle_decoder_skip scalar_dispatch
      (carquet_rle_decoder_init [3, 0x88, 0xC6, 0xFA] 3) 2)) 3) =
    take 3 (drop 2 (rle_stream 3 [3, 0x88, 0xC6, 0xFA]))"
proof -
  let ?d = "carquet_rle_decoder_init [3, 0x88, 0xC6, 0xFA] 3"
  obtain d1 k where 1: "carquet_rle_decoder_skip scalar_dispatch ?d 2 = (d1, k)" by fastforce
  obtain d2 vs where 2: "carquet_rle_decoder_get_batch scalar_dispatch d1 3 = (d2, vs)" by fastforce
  obtain d3 v where 3: "carquet_rle_decoder_get scalar_dispatch ?d = (d3, v)" by fastforce
  show ?thesis
    using rle_skip_then_read [OF scalar.unpack_kernels_axioms rle_inv_init 1 2 3]
      rle_pending_init [of 3 "[3, 0x88, 0xC6, 0xFA]"] 1 2 by simp
qed

end
