(* ===== verification/Rle_Encode.thy ===== *)
theory Rle_Encode
  imports Rle_Decode Buffer
begin

text \<open>
  The encoder half of \<^verbatim>\<open>encoding/rle.c\<close>. Values are counted while they repeat; a run of 8
  or more becomes an RLE run, shorter ones go through an 8-value bit-pack buffer, and
  a partial buffer is flushed as RLE runs. The encoder appends to a
  \<^verbatim>\<open>carquet_buffer_t\<close> and discards the status of every append.
\<close>

section \<open>Definitions\<close>

record carquet_rle_encoder =
  enc_buf :: carquet_buffer
  enc_bit_width :: nat
  prev_value :: u32
  repeat_count :: nat
  has_prev :: bool
  pack_buffer :: "u32 list"
  pack_count :: nat
  pack_total :: nat
  enc_rle_status :: carquet_status

definition rle_append :: "allocator \<Rightarrow> carquet_rle_encoder \<Rightarrow> bytes \<Rightarrow> carquet_rle_encoder" where
  "rle_append al enc bs = enc\<lparr>enc_buf := fst (carquet_buffer_append al (enc_buf enc) bs)\<rparr>"

definition rle_write_varint :: "allocator \<Rightarrow> carquet_rle_encoder \<Rightarrow> u32 \<Rightarrow> carquet_rle_encoder" where
  "rle_write_varint al enc v = rle_append al enc (varint_bytes v)"

definition rle_value_bytes :: "nat \<Rightarrow> nat" where
  "rle_value_bytes bit_width = (bit_width + 7) div 8"

text \<open>The bytes of \<^verbatim>\<open>write_value_bytes\<close> that the caller then counts.\<close>

definition write_value_bytes :: "u32 \<Rightarrow> nat \<Rightarrow> bytes" where
  "write_value_bytes v vb =
     take vb [ucast v, ucast (drop_bit 8 v), ucast (drop_bit 16 v), ucast (drop_bit 24 v)]"

definition flush_rle :: "allocator \<Rightarrow> carquet_rle_encoder \<Rightarrow> carquet_rle_encoder" where
  "flush_rle al enc =
     (if repeat_count enc = 0 then enc
      else let header = (word_of_nat (repeat_count enc * 2) :: u32)
           in (rle_append al enc (varint_bytes header @
                 write_value_bytes (prev_value enc) (rle_value_bytes (enc_bit_width enc))))
              \<lparr>repeat_count := 0\<rparr>)"

text \<open>The loop over the buffered values; \<open>run\<close> counts the values equal to the first.\<close>

function flush_runs :: "allocator \<Rightarrow> carquet_rle_encoder \<Rightarrow> u32 list \<Rightarrow> carquet_rle_encoder" where
  "flush_runs al enc vs =
     (case vs of
        [] \<Rightarrow> enc
      | v # vs' \<Rightarrow>
          let run = Suc (length (takeWhile (\<lambda>x. x = v) vs'));
              enc' = rle_append al enc (varint_bytes (word_of_nat (run * 2) :: u32) @
                       write_value_bytes v (rle_value_bytes (enc_bit_width enc)))
          in flush_runs al enc' (drop run vs))"
  by pat_completeness auto
termination
  by (relation "measure (\<lambda>(al, enc, vs). length vs)") auto

declare flush_runs.simps [simp del]

definition flush_bitpack_as_rle :: "allocator \<Rightarrow> carquet_rle_encoder \<Rightarrow> carquet_rle_encoder" where
  "flush_bitpack_as_rle al enc =
     (flush_runs al enc (take (pack_count enc) (pack_buffer enc)))\<lparr>pack_count := 0, pack_total := 0\<rparr>"

primrec append_groups :: "nat \<Rightarrow> allocator \<Rightarrow> carquet_rle_encoder \<Rightarrow> carquet_rle_encoder" where
  "append_groups 0 al enc = enc"
| "append_groups (Suc g) al enc =
     append_groups g al
       (rle_append al enc (carquet_bitpack8_32 (pack_buffer enc) (enc_bit_width enc)))"

definition flush_bitpack :: "allocator \<Rightarrow> carquet_rle_encoder \<Rightarrow> carquet_rle_encoder" where
  "flush_bitpack al enc =
     (if pack_count enc = 0 then enc
      else if pack_count enc < 8 then flush_bitpack_as_rle al enc
      else let num_groups = (pack_total enc + 7) div 8;
               enc1 = rle_write_varint al enc (word_of_nat (num_groups * 2) OR 1)
           in (append_groups num_groups al enc1)\<lparr>pack_count := 0, pack_total := 0\<rparr>)"

definition carquet_rle_encoder_init :: "carquet_buffer \<Rightarrow> nat \<Rightarrow> carquet_rle_encoder" where
  "carquet_rle_encoder_init buf bit_width =
     \<lparr>enc_buf = buf, enc_bit_width = bit_width, prev_value = 0, repeat_count = 0, has_prev = False,
      pack_buffer = replicate 8 0, pack_count = 0, pack_total = 0, enc_rle_status = CARQUET_OK\<rparr>"

text \<open>The loop that moves a short run into the bit-pack buffer, flushing whenever it is full.\<close>

primrec buffer_repeats :: "nat \<Rightarrow> allocator \<Rightarrow> carquet_rle_encoder \<Rightarrow> carquet_rle_encoder" where
  "buffer_repeats 0 al enc = enc"
| "buffer_repeats (Suc n) al enc =
     (let enc1 = enc\<lparr>pack_buffer := (pack_buffer enc)[pack_count enc := prev_value enc],
                     pack_count := pack_count enc + 1, pack_total := pack_total enc + 1\<rparr>
      in buffer_repeats n al (if pack_count enc1 = 8 then flush_bitpack al enc1 else enc1))"

definition carquet_rle_encoder_put ::
    "allocator \<Rightarrow> carquet_rle_encoder \<Rightarrow> u32 \<Rightarrow> carquet_rle_encoder \<times> carquet_status" where
  "carquet_rle_encoder_put al enc v =
     (if enc_rle_status enc \<noteq> CARQUET_OK then (enc, enc_rle_status enc)
      else if \<not> has_prev enc
      then (enc\<lparr>prev_value := v, repeat_count := 1, has_prev := True\<rparr>, CARQUET_OK)
      else if v = prev_value enc
      then (enc\<lparr>repeat_count := repeat_count enc + 1\<rparr>, CARQUET_OK)
      else let enc1 = (if 8 \<le> repeat_count enc then flush_rle al (flush_bitpack al enc)
                       else (buffer_repeats (repeat_count enc) al enc)\<lparr>repeat_count := 0\<rparr>)
           in (enc1\<lparr>prev_value := v, repeat_count := 1\<rparr>, CARQUET_OK))"

definition carquet_rle_encoder_put_repeat ::
    "allocator \<Rightarrow> carquet_rle_encoder \<Rightarrow> u32 \<Rightarrow> int \<Rightarrow> carquet_rle_encoder \<times> carquet_status" where
  "carquet_rle_encoder_put_repeat al enc v count =
     (if count \<le> 0 \<or> enc_rle_status enc \<noteq> CARQUET_OK then (enc, enc_rle_status enc)
      else if has_prev enc \<and> v = prev_value enc
      then (enc\<lparr>repeat_count := repeat_count enc + nat count\<rparr>, CARQUET_OK)
      else if has_prev enc
      then case carquet_rle_encoder_put al enc v of
             (enc1, status) \<Rightarrow>
               if status \<noteq> CARQUET_OK then (enc1, status)
               else (enc1\<lparr>repeat_count := repeat_count enc1 + (nat count - 1)\<rparr>, CARQUET_OK)
      else (enc\<lparr>prev_value := v, repeat_count := nat count, has_prev := True\<rparr>, CARQUET_OK))"

definition carquet_rle_encoder_flush ::
    "allocator \<Rightarrow> carquet_rle_encoder \<Rightarrow> carquet_rle_encoder \<times> carquet_status" where
  "carquet_rle_encoder_flush al enc =
     (if enc_rle_status enc \<noteq> CARQUET_OK then (enc, enc_rle_status enc)
      else if 8 \<le> repeat_count enc then (flush_rle al (flush_bitpack al enc), CARQUET_OK)
      else if 0 < repeat_count enc
      then let enc1 = (buffer_repeats (repeat_count enc) al enc)\<lparr>repeat_count := 0\<rparr>
           in (if 0 < pack_count enc1 then flush_bitpack al enc1 else enc1, CARQUET_OK)
      else (enc, CARQUET_OK))"

primrec rle_put_all ::
    "allocator \<Rightarrow> carquet_rle_encoder \<Rightarrow> u32 list \<Rightarrow> carquet_rle_encoder \<times> carquet_status" where
  "rle_put_all al enc [] = (enc, CARQUET_OK)"
| "rle_put_all al enc (v # vs) =
     (case carquet_rle_encoder_put al enc v of
        (enc1, status) \<Rightarrow> if status \<noteq> CARQUET_OK then (enc1, status) else rle_put_all al enc1 vs)"

text \<open>The output buffer after the call, and the status returned.\<close>

definition carquet_rle_encode_all ::
    "allocator \<Rightarrow> u32 list \<Rightarrow> nat \<Rightarrow> carquet_buffer \<Rightarrow> carquet_buffer \<times> carquet_status" where
  "carquet_rle_encode_all al input bit_width output =
     (case rle_put_all al (carquet_rle_encoder_init output bit_width) input of
        (enc, status) \<Rightarrow>
          if status \<noteq> CARQUET_OK then (enc_buf enc, status)
          else case carquet_rle_encoder_flush al enc of
                 (enc', status') \<Rightarrow> (enc_buf enc', status'))"

text \<open>Levels are widened with sign extension before they are put.\<close>

definition carquet_rle_encode_levels ::
    "allocator \<Rightarrow> i16 list \<Rightarrow> nat \<Rightarrow> carquet_buffer \<Rightarrow> carquet_buffer \<times> carquet_status" where
  "carquet_rle_encode_levels al input bit_width output =
     carquet_rle_encode_all al (map scast input) bit_width output"

section \<open>Runs\<close>

datatype rle_run = Repeated nat u32 | Group "u32 list"

primrec run_bytes :: "nat \<Rightarrow> rle_run \<Rightarrow> bytes" where
  "run_bytes w (Repeated n v) =
     varint_bytes (word_of_nat (n * 2) :: u32) @ write_value_bytes v (rle_value_bytes w)"
| "run_bytes w (Group vs) = varint_bytes (3 :: u32) @ carquet_bitpack8_32 vs w"

primrec run_values :: "rle_run \<Rightarrow> u32 list" where
  "run_values (Repeated n v) = replicate n v"
| "run_values (Group vs) = vs"

primrec run_ok :: "rle_run \<Rightarrow> bool" where
  "run_ok (Repeated n v) = (0 < n \<and> n < 2 ^ 31)"
| "run_ok (Group vs) = (length vs = 8)"

definition runs_bytes :: "nat \<Rightarrow> rle_run list \<Rightarrow> bytes" where
  "runs_bytes w rs = concat (map (run_bytes w) rs)"

definition runs_values :: "rle_run list \<Rightarrow> u32 list" where
  "runs_values rs = concat (map run_values rs)"

text \<open>What a sequence of runs decodes to.\<close>

lemma varint_scan_header:
  "varint_scan 5 0 0 (varint_bytes (h :: u32) @ r) = Some (h, r)"
  by (rule varint_scan_zero) simp_all

lemma word_low_bit: "(w :: u32) AND 1 = 0 \<longleftrightarrow> even (unat w)"
proof -
  have "unat (w AND 1) = unat w mod 2"
    using unat_and_mask [of w 1] by (simp add: mask_eq_exp_minus_1)
  then show ?thesis by (auto simp: word_unat_eq_iff even_iff_mod_2_eq_zero)
qed

lemma header_even:
  assumes "n < 2 ^ 31"
  shows "(word_of_nat (n * 2) :: u32) AND 1 = 0" "unat (drop_bit 1 (word_of_nat (n * 2) :: u32)) = n"
proof -
  have u: "unat (word_of_nat (n * 2) :: u32) = n * 2"
    using assms by (simp only: unat_of_nat) simp
  show "unat (drop_bit 1 (word_of_nat (n * 2) :: u32)) = n"
    by (simp only: unat_drop_bit_word u) simp
  show "(word_of_nat (n * 2) :: u32) AND 1 = 0"
    by (simp only: word_low_bit u) simp
qed

lemma le_load_write_value:
  assumes "w \<le> 32"
  shows "length (write_value_bytes v (rle_value_bytes w)) = rle_value_bytes w"
    "rle_word w (write_value_bytes v (rle_value_bytes w) @ r) = v AND mask w"
proof -
  have vb: "rle_value_bytes w \<le> 4" using assms by (simp add: rle_value_bytes_def)
  have s: "write_value_bytes v n = le_store n v" if "n \<le> 4" for n
  proof -
    have "le_store 4 v = [ucast v, ucast (drop_bit 8 v), ucast (drop_bit 16 v), ucast (drop_bit 24 v)]"
      by (simp add: eval_nat_numeral)
    moreover have "take n (le_store 4 v) = le_store n v"
      using that by (intro nth_equalityI) (simp_all add: nth_le_store)
    ultimately show ?thesis by (simp add: write_value_bytes_def)
  qed
  show "length (write_value_bytes v (rle_value_bytes w)) = rle_value_bytes w"
    using vb by (simp add: s)
  have "rle_word w (write_value_bytes v (rle_value_bytes w) @ r) = v AND mask (8 * rle_value_bytes w) AND mask w"
    using vb by (simp add: rle_word_def s rle_value_bytes_def [symmetric] le_load_le_store and.assoc)
  also have "\<dots> = v AND mask w"
  proof -
    have "w \<le> 8 * rle_value_bytes w" by (simp add: rle_value_bytes_def)
    then show ?thesis by (intro bit_word_eqI) (auto simp: bit_simps)
  qed
  finally show "rle_word w (write_value_bytes v (rle_value_bytes w) @ r) = v AND mask w" .
qed

lemma rle_stream_run:
  assumes "run_ok r" "w \<le> 32"
  shows "rle_stream w (run_bytes w r @ bs) = map (\<lambda>v. v AND mask w) (run_values r) @ rle_stream w bs"
proof (cases r)
  case (Repeated n v)
  let ?h = "word_of_nat (n * 2) :: u32" and ?v = "write_value_bytes v (rle_value_bytes w)"
  have n: "0 < n" "n < 2 ^ 31" using assms(1) Repeated by auto
  have "rle_stream w (run_bytes w r @ bs) =
      (if length (?v @ bs) < rle_value_bytes w then []
       else replicate n (rle_word w (?v @ bs)) @ rle_stream w (drop (rle_value_bytes w) (?v @ bs)))"
    using rle_stream_header [OF varint_scan_header, of w ?h "?v @ bs"] header_even [OF n(2)] n(1)
    by (simp add: Repeated Let_def rle_value_bytes_def)
  then show ?thesis
    using le_load_write_value [OF assms(2)] by (simp add: Repeated)
next
  case (Group vs)
  have len: "length vs = 8" using assms(1) Group by simp
  have h: "(3 :: u32) AND 1 \<noteq> 0" "unat (drop_bit 1 (3 :: u32)) = 1" by code_simp+
  have p: "length (carquet_bitpack8_32 vs w) = w"
    using bitpack8_32_spec [OF assms(2), of vs] len by simp
  have "packed_values w (carquet_bitpack8_32 vs w @ bs) 8 = map (\<lambda>v. v AND mask w) vs"
    using packed_values_take_append [of 8 w w "carquet_bitpack8_32 vs w" bs] p
      packed_values_bitpack8 [OF assms(2), of vs 8] len by simp
  then show ?thesis
    using rle_stream_header [OF varint_scan_header, of w 3 "carquet_bitpack8_32 vs w @ bs"] h
      packed_tail_Suc [of w "carquet_bitpack8_32 vs w @ bs" 0] p
    by (simp add: Group)
qed

lemma rle_stream_runs:
  "\<forall>r \<in> set rs. run_ok r \<Longrightarrow> w \<le> 32 \<Longrightarrow>
     rle_stream w (runs_bytes w rs) = map (\<lambda>v. v AND mask w) (runs_values rs)"
  by (induction rs) (simp_all add: runs_bytes_def runs_values_def rle_stream_run)

section \<open>What the encoder emits\<close>

text \<open>
  \<open>emits al w enc enc' rs vs\<close>: from \<open>enc\<close> to \<open>enc'\<close> the encoder took in the values \<open>vs\<close>
  and wrote the runs \<open>rs\<close>; what it had pending, then \<open>vs\<close>, is what it wrote, then what
  it has pending now. The bytes arrive when every append is granted.
\<close>

definition rle_enc_pending :: "carquet_rle_encoder \<Rightarrow> u32 list" where
  "rle_enc_pending enc =
     take (pack_count enc) (pack_buffer enc) @ replicate (repeat_count enc) (prev_value enc)"

definition rle_enc_inv :: "carquet_rle_encoder \<Rightarrow> bool" where
  "rle_enc_inv enc \<longleftrightarrow> buffer_wf (enc_buf enc) \<and> buf_owns_data (enc_buf enc) \<and>
     enc_bit_width enc \<le> 32 \<and> length (pack_buffer enc) = 8 \<and> pack_count enc < 8 \<and>
     pack_total enc = pack_count enc \<and> enc_rle_status enc = CARQUET_OK \<and>
     (has_prev enc \<longleftrightarrow> 0 < repeat_count enc) \<and> (repeat_count enc = 0 \<longrightarrow> pack_count enc = 0)"

definition emitted :: "allocator \<Rightarrow> carquet_rle_encoder \<Rightarrow> carquet_rle_encoder \<Rightarrow> bytes \<Rightarrow> bool" where
  "emitted al enc enc' bs \<longleftrightarrow>
     (buffer_wf (enc_buf enc) \<and> buf_owns_data (enc_buf enc) \<longrightarrow>
      buffer_wf (enc_buf enc') \<and> buf_owns_data (enc_buf enc') \<and>
      ((\<forall>n. alloc_grants al n) \<longrightarrow> length (buffer_contents (enc_buf enc)) + length bs < 2 ^ 64 \<longrightarrow>
         buffer_contents (enc_buf enc') = buffer_contents (enc_buf enc) @ bs))"

lemma emitted_refl: "enc_buf enc' = enc_buf enc \<Longrightarrow> emitted al enc enc' []"
  by (simp add: emitted_def)

lemma emitted_trans: "emitted al a b xs \<Longrightarrow> emitted al b c ys \<Longrightarrow> emitted al a c (xs @ ys)"
  by (simp add: emitted_def)

lemma emitted_cong: "emitted al a b xs \<Longrightarrow> enc_buf c = enc_buf b \<Longrightarrow> emitted al a c xs"
  by (simp add: emitted_def)

lemma rle_append_emitted:
  assumes "length bs < 2 ^ 64"
  shows "emitted al enc (rle_append al enc bs) bs"
proof -
  obtain b st where a: "carquet_buffer_append al (enc_buf enc) bs = (b, st)" by fastforce
  show ?thesis
    using carquet_buffer_append_refines [OF _ assms a] a
      carquet_buffer_append_owns [of "enc_buf enc" al bs]
      carquet_buffer_append_succeeds [of "enc_buf enc" al bs]
    by (auto simp: emitted_def rle_append_def length_buffer_contents)
qed

lemma rle_append_frame [simp]:
  "enc_bit_width (rle_append al enc bs) = enc_bit_width enc"
  "prev_value (rle_append al enc bs) = prev_value enc"
  "repeat_count (rle_append al enc bs) = repeat_count enc"
  "has_prev (rle_append al enc bs) = has_prev enc"
  "pack_buffer (rle_append al enc bs) = pack_buffer enc"
  "pack_count (rle_append al enc bs) = pack_count enc"
  "pack_total (rle_append al enc bs) = pack_total enc"
  "enc_rle_status (rle_append al enc bs) = enc_rle_status enc"
  by (simp_all add: rle_append_def)

definition runs_ok :: "rle_run list \<Rightarrow> bool" where
  "runs_ok rs \<longleftrightarrow> (\<forall>r \<in> set rs. run_ok r)"

lemma runs_simps [simp]:
  "runs_bytes w [] = []" "runs_values [] = []" "runs_ok []"
  "runs_bytes w (r # rs) = run_bytes w r @ runs_bytes w rs"
  "runs_values (r # rs) = run_values r @ runs_values rs"
  "runs_ok (r # rs) \<longleftrightarrow> run_ok r \<and> runs_ok rs"
  "runs_bytes w (rs @ rs') = runs_bytes w rs @ runs_bytes w rs'"
  "runs_values (rs @ rs') = runs_values rs @ runs_values rs'"
  "runs_ok (rs @ rs') \<longleftrightarrow> runs_ok rs \<and> runs_ok rs'"
  by (auto simp: runs_bytes_def runs_values_def runs_ok_def)

lemma length_varint32: "0 < length (varint_bytes (h :: u32))" "length (varint_bytes (h :: u32)) \<le> 5"
proof -
  have "unat h < 2 ^ LENGTH(32)" by (rule unsigned_less)
  then have "unat h < 2 ^ (7 * 5)" by simp
  then show "0 < length (varint_bytes h)" "length (varint_bytes h) \<le> 5"
    using length_varint_bytes [of 5 h] by auto
qed

lemma length_run_bytes:
  assumes "run_ok r" "w \<le> 32"
  shows "length (run_bytes w r) \<le> 9 * length (run_values r)"
proof (cases r)
  case (Repeated n v)
  have "length (write_value_bytes v (rle_value_bytes w)) \<le> 4"
    by (simp add: write_value_bytes_def)
  moreover have "9 \<le> 9 * n" using assms(1) Repeated by simp
  ultimately show ?thesis
    using length_varint32(2) [of "word_of_nat (n * 2)"] by (simp add: Repeated)
next
  case (Group vs)
  have "length (carquet_bitpack8_32 vs w) = w"
    using bitpack8_32_spec [OF assms(2), of vs] assms(1) Group by simp
  then show ?thesis
    using length_varint32(2) [of 3] assms Group by simp
qed

lemma length_runs_bytes:
  "runs_ok rs \<Longrightarrow> w \<le> 32 \<Longrightarrow> length (runs_bytes w rs) \<le> 9 * length (runs_values rs)"
proof (induction rs)
  case (Cons r rs)
  then show ?case using length_run_bytes [of r w] by simp
qed simp

lemma rle_append_run:
  assumes "run_ok r" "w \<le> 32" "length (run_values r) < 2 ^ 31"
  shows "emitted al enc (rle_append al enc (run_bytes w r)) (runs_bytes w [r])"
proof -
  have "length (run_bytes w r) < 2 ^ 64"
    using length_run_bytes [OF assms(1,2)] assms(3) by simp
  then show ?thesis using rle_append_emitted by simp
qed

definition keeps_run :: "carquet_rle_encoder \<Rightarrow> carquet_rle_encoder \<Rightarrow> bool" where
  "keeps_run enc enc' \<longleftrightarrow> enc_bit_width enc' = enc_bit_width enc \<and> prev_value enc' = prev_value enc \<and>
     has_prev enc' = has_prev enc \<and> enc_rle_status enc' = enc_rle_status enc"

definition keeps_pack :: "carquet_rle_encoder \<Rightarrow> carquet_rle_encoder \<Rightarrow> bool" where
  "keeps_pack enc enc' \<longleftrightarrow> pack_buffer enc' = pack_buffer enc \<and> pack_count enc' = pack_count enc \<and>
     pack_total enc' = pack_total enc"

lemma keeps_refl: "keeps_run enc enc" "keeps_pack enc enc"
  by (simp_all add: keeps_run_def keeps_pack_def)

lemma keeps_trans: "keeps_run a b \<Longrightarrow> keeps_run b c \<Longrightarrow> keeps_run a c"
  by (simp add: keeps_run_def)

lemma rle_append_keeps: "keeps_run enc (rle_append al enc bs)" "keeps_pack enc (rle_append al enc bs)"
  by (simp_all add: keeps_run_def keeps_pack_def)

lemma flush_rle_emits:
  assumes "enc_bit_width enc \<le> 32" "repeat_count enc < 2 ^ 31"
  shows "\<exists>rs. runs_ok rs \<and> runs_values rs = replicate (repeat_count enc) (prev_value enc) \<and>
    emitted al enc (flush_rle al enc) (runs_bytes (enc_bit_width enc) rs) \<and>
    keeps_run enc (flush_rle al enc) \<and> keeps_pack enc (flush_rle al enc) \<and>
    repeat_count (flush_rle al enc) = 0"
proof (cases "repeat_count enc = 0")
  case True
  then show ?thesis by (intro exI [of _ "[]"]) (simp add: flush_rle_def emitted_refl keeps_refl)
next
  case False
  let ?r = "Repeated (repeat_count enc) (prev_value enc)"
  have r: "run_ok ?r" using False assms by simp
  have e: "flush_rle al enc = (rle_append al enc (run_bytes (enc_bit_width enc) ?r))\<lparr>repeat_count := 0\<rparr>"
    using False by (simp add: flush_rle_def Let_def)
  show ?thesis
    using r rle_append_run [OF r assms(1), of al enc] assms(2) False unfolding e
    by (intro exI [of _ "[?r]"]) (simp add: emitted_cong keeps_run_def keeps_pack_def)
qed

lemma flush_runs_emits:
  "enc_bit_width enc \<le> 32 \<Longrightarrow> length vs < 2 ^ 31 \<Longrightarrow>
   \<exists>rs. runs_ok rs \<and> runs_values rs = vs \<and>
    emitted al enc (flush_runs al enc vs) (runs_bytes (enc_bit_width enc) rs) \<and>
    keeps_run enc (flush_runs al enc vs) \<and> keeps_pack enc (flush_runs al enc vs) \<and>
    repeat_count (flush_runs al enc vs) = repeat_count enc"
proof (induction "length vs" arbitrary: enc vs rule: less_induct)
  case less
  show ?case
  proof (cases vs)
    case Nil
    then show ?thesis
      by (intro exI [of _ "[]"]) (simp add: flush_runs.simps [of al enc] emitted_refl keeps_refl)
  next
    case (Cons v vs')
    define run where "run = Suc (length (takeWhile (\<lambda>x. x = v) vs'))"
    let ?r = "Repeated run v"
    let ?enc = "rle_append al enc (run_bytes (enc_bit_width enc) ?r)"
    have "length (takeWhile (\<lambda>x. x = v) vs') \<le> length vs'" by (rule length_takeWhile_le)
    then have run: "run \<le> length vs" using Cons by (simp add: run_def)
    have split: "vs = replicate run v @ drop run vs"
    proof -
      have "takeWhile (\<lambda>x. x = v) vs' = replicate (run - 1) v"
        by (rule nth_equalityI) (auto simp: run_def dest: nth_mem set_takeWhileD)
      moreover have "vs' = takeWhile (\<lambda>x. x = v) vs' @ drop (run - 1) vs'"
        by (simp add: run_def dropWhile_eq_drop [symmetric])
      ultimately show ?thesis using Cons by (simp add: run_def)
    qed
    have r: "run_ok ?r" using run less.prems(2) by (simp add: run_def)
    have e: "flush_runs al enc vs = flush_runs al ?enc (drop run vs)"
      by (subst flush_runs.simps) (simp only: Cons list.case Let_def run_def run_bytes.simps)
    have lt: "length (drop run vs) < length vs" using Cons by (simp add: run_def)
    then have short: "length (drop run vs) < 2 ^ 31" using less.prems(2) by linarith
    obtain rs where rs: "runs_ok rs" "runs_values rs = drop run vs"
        "emitted al ?enc (flush_runs al ?enc (drop run vs)) (runs_bytes (enc_bit_width enc) rs)"
        "keeps_run ?enc (flush_runs al ?enc (drop run vs))" "keeps_pack ?enc (flush_runs al ?enc (drop run vs))"
        "repeat_count (flush_runs al ?enc (drop run vs)) = repeat_count enc"
      using less.hyps [OF lt, of ?enc] less.prems(1) short by auto
    have "emitted al enc ?enc (runs_bytes (enc_bit_width enc) [?r])"
      using rle_append_run [OF r less.prems(1)] run less.prems(2) by simp
    from emitted_trans [OF this rs(3)] rs r split e show ?thesis
      by (intro exI [of _ "?r # rs"]) (simp add: keeps_run_def keeps_pack_def)
  qed
qed

lemma flush_bitpack_emits:
  assumes "enc_bit_width enc \<le> 32" "pack_count enc \<le> 8" "pack_total enc = pack_count enc"
    "length (pack_buffer enc) = 8"
  shows "\<exists>rs. runs_ok rs \<and> runs_values rs = take (pack_count enc) (pack_buffer enc) \<and>
    emitted al enc (flush_bitpack al enc) (runs_bytes (enc_bit_width enc) rs) \<and>
    keeps_run enc (flush_bitpack al enc) \<and> repeat_count (flush_bitpack al enc) = repeat_count enc \<and>
    pack_buffer (flush_bitpack al enc) = pack_buffer enc \<and>
    pack_count (flush_bitpack al enc) = 0 \<and> pack_total (flush_bitpack al enc) = 0"
proof -
  consider "pack_count enc = 0" | "0 < pack_count enc" "pack_count enc < 8" | "pack_count enc = 8"
    using assms(2) by linarith
  then show ?thesis
  proof cases
    case 1
    then show ?thesis
      using assms(3) by (intro exI [of _ "[]"]) (simp add: flush_bitpack_def emitted_refl keeps_refl)
  next
    case 2
    obtain rs where rs: "runs_ok rs" "runs_values rs = take (pack_count enc) (pack_buffer enc)"
        "emitted al enc (flush_runs al enc (take (pack_count enc) (pack_buffer enc))) (runs_bytes (enc_bit_width enc) rs)"
        "keeps_run enc (flush_runs al enc (take (pack_count enc) (pack_buffer enc)))"
        "keeps_pack enc (flush_runs al enc (take (pack_count enc) (pack_buffer enc)))"
        "repeat_count (flush_runs al enc (take (pack_count enc) (pack_buffer enc))) = repeat_count enc"
      using flush_runs_emits [OF assms(1), of "take (pack_count enc) (pack_buffer enc)" al] assms(4) 2 by auto
    have e: "flush_bitpack al enc = (flush_runs al enc (take (pack_count enc) (pack_buffer enc)))
        \<lparr>pack_count := 0, pack_total := 0\<rparr>"
      using 2 by (simp add: flush_bitpack_def flush_bitpack_as_rle_def)
    show ?thesis
      using rs unfolding e by (intro exI [of _ rs]) (auto simp: emitted_cong keeps_run_def keeps_pack_def)
  next
    case 3
    let ?r = "Group (pack_buffer enc)" and ?p = "carquet_bitpack8_32 (pack_buffer enc) (enc_bit_width enc)"
    have r: "run_ok ?r" using assms(4) by simp
    have p: "length ?p < 2 ^ 64"
      using bitpack8_32_spec [OF assms(1), of "pack_buffer enc"] assms(1,4) by simp
    have h: "word_of_nat (1 * 2) OR 1 = (3 :: u32)" by code_simp
    have e: "flush_bitpack al enc = (rle_append al (rle_append al enc (varint_bytes (3 :: u32))) ?p)
        \<lparr>pack_count := 0, pack_total := 0\<rparr>"
      using 3 assms(3) h by (simp add: flush_bitpack_def rle_write_varint_def Let_def)
    have "length (varint_bytes (3 :: u32)) < 2 ^ 64" using length_varint32(2) [of 3] by simp
    from emitted_trans [OF rle_append_emitted [OF this] rle_append_emitted [OF p]]
    have "emitted al enc (rle_append al (rle_append al enc (varint_bytes (3 :: u32))) ?p)
        (runs_bytes (enc_bit_width enc) [?r])" by simp
    then show ?thesis
      using r 3 assms(4) unfolding e
      by (intro exI [of _ "[?r]"]) (auto simp: keeps_run_def intro: emitted_cong)
  qed
qed

text \<open>Putting the current value into the bit-pack buffer, one copy at a time.\<close>

definition buffer_one :: "allocator \<Rightarrow> carquet_rle_encoder \<Rightarrow> carquet_rle_encoder" where
  "buffer_one al enc =
     (let enc1 = enc\<lparr>pack_buffer := (pack_buffer enc)[pack_count enc := prev_value enc],
                     pack_count := pack_count enc + 1, pack_total := pack_total enc + 1\<rparr>
      in if pack_count enc1 = 8 then flush_bitpack al enc1 else enc1)"

lemma buffer_repeats_Suc: "buffer_repeats (Suc n) al enc = buffer_repeats n al (buffer_one al enc)"
  by (simp add: buffer_one_def Let_def)

definition pack_inv :: "carquet_rle_encoder \<Rightarrow> bool" where
  "pack_inv enc \<longleftrightarrow> enc_bit_width enc \<le> 32 \<and> pack_count enc < 8 \<and> pack_total enc = pack_count enc \<and>
     length (pack_buffer enc) = 8"

lemma buffer_one_emits:
  assumes "pack_inv enc"
  shows "\<exists>rs. runs_ok rs \<and>
    runs_values rs @ take (pack_count (buffer_one al enc)) (pack_buffer (buffer_one al enc)) =
      take (pack_count enc) (pack_buffer enc) @ [prev_value enc] \<and>
    emitted al enc (buffer_one al enc) (runs_bytes (enc_bit_width enc) rs) \<and>
    pack_inv (buffer_one al enc) \<and> keeps_run enc (buffer_one al enc) \<and>
    repeat_count (buffer_one al enc) = repeat_count enc"
proof -
  define e where "e = enc\<lparr>pack_buffer := (pack_buffer enc)[pack_count enc := prev_value enc],
      pack_count := pack_count enc + 1, pack_total := pack_total enc + 1\<rparr>"
  have t: "take (pack_count e) (pack_buffer e) = take (pack_count enc) (pack_buffer enc) @ [prev_value enc]"
    using assms by (simp add: e_def pack_inv_def take_Suc_conv_app_nth)
  have e: "keeps_run enc e" "repeat_count e = repeat_count enc" "enc_buf e = enc_buf enc"
    "enc_bit_width e \<le> 32" "pack_count e \<le> 8" "pack_total e = pack_count e" "length (pack_buffer e) = 8"
    using assms by (auto simp: e_def keeps_run_def pack_inv_def)
  have em: "emitted al e x bs \<Longrightarrow> emitted al enc x bs" for x bs
    by (simp add: emitted_def e(3))
  show ?thesis
  proof (cases "pack_count e = 8")
    case True
    then have b: "buffer_one al enc = flush_bitpack al e"
      by (simp add: buffer_one_def e_def Let_def)
    obtain rs where rs: "runs_ok rs" "runs_values rs = take (pack_count e) (pack_buffer e)"
        "emitted al e (flush_bitpack al e) (runs_bytes (enc_bit_width e) rs)"
        "keeps_run e (flush_bitpack al e)" "repeat_count (flush_bitpack al e) = repeat_count e"
        "pack_buffer (flush_bitpack al e) = pack_buffer e"
        "pack_count (flush_bitpack al e) = 0" "pack_total (flush_bitpack al e) = 0"
      using flush_bitpack_emits [OF e(4-7), of al] by blast
    have w: "enc_bit_width e = enc_bit_width enc" using e(1) by (simp add: keeps_run_def)
    have "pack_inv (flush_bitpack al e)"
      using rs e by (simp add: pack_inv_def keeps_run_def)
    then show ?thesis
      unfolding b using rs t e w em keeps_trans [OF e(1)] by (intro exI [of _ rs]) simp
  next
    case False
    then have b: "buffer_one al enc = e"
      by (simp add: buffer_one_def e_def Let_def)
    have "pack_inv e" using e False by (simp add: pack_inv_def)
    then show ?thesis
      unfolding b using e t by (intro exI [of _ "[]"]) (simp add: emitted_refl)
  qed
qed

lemma buffer_repeats_emits:
  "pack_inv enc \<Longrightarrow>
   \<exists>rs. runs_ok rs \<and>
     runs_values rs @ take (pack_count (buffer_repeats n al enc)) (pack_buffer (buffer_repeats n al enc)) =
       take (pack_count enc) (pack_buffer enc) @ replicate n (prev_value enc) \<and>
     emitted al enc (buffer_repeats n al enc) (runs_bytes (enc_bit_width enc) rs) \<and>
     pack_inv (buffer_repeats n al enc) \<and> keeps_run enc (buffer_repeats n al enc) \<and>
     repeat_count (buffer_repeats n al enc) = repeat_count enc"
proof (induction n arbitrary: enc)
  case 0
  then show ?case by (intro exI [of _ "[]"]) (simp add: emitted_refl keeps_refl)
next
  case (Suc n)
  let ?e = "buffer_one al enc" and ?e' = "buffer_repeats n al (buffer_one al enc)"
  obtain rs1 where 1: "runs_ok rs1" "runs_values rs1 @ take (pack_count ?e) (pack_buffer ?e) =
        take (pack_count enc) (pack_buffer enc) @ [prev_value enc]"
      "emitted al enc ?e (runs_bytes (enc_bit_width enc) rs1)" "pack_inv ?e" "keeps_run enc ?e"
      "repeat_count ?e = repeat_count enc"
    using buffer_one_emits [OF Suc.prems, of al] by blast
  obtain rs2 where 2: "runs_ok rs2" "runs_values rs2 @ take (pack_count ?e') (pack_buffer ?e') =
        take (pack_count ?e) (pack_buffer ?e) @ replicate n (prev_value ?e)"
      "emitted al ?e ?e' (runs_bytes (enc_bit_width ?e) rs2)" "pack_inv ?e'" "keeps_run ?e ?e'"
      "repeat_count ?e' = repeat_count ?e"
    using Suc.IH [OF 1(4)] by blast
  have k: "enc_bit_width ?e = enc_bit_width enc" "prev_value ?e = prev_value enc"
    using 1(5) by (simp_all add: keeps_run_def)
  have "runs_values (rs1 @ rs2) @ take (pack_count ?e') (pack_buffer ?e') =
      take (pack_count enc) (pack_buffer enc) @ replicate (Suc n) (prev_value enc)"
    using 1(2) 2(2) k(2) by (metis append.assoc append_Cons append_Nil replicate_Suc runs_simps(8))
  moreover have "emitted al enc ?e' (runs_bytes (enc_bit_width enc) (rs1 @ rs2))"
    using emitted_trans [OF 1(3) 2(3)] k(1) by simp
  ultimately show ?case
    unfolding buffer_repeats_Suc using 1 2 keeps_trans [OF 1(5) 2(5)]
    by (intro exI [of _ "rs1 @ rs2"]) simp
qed

section \<open>Taking in values\<close>

text \<open>
  The contract of every operation that takes values: what was pending, then the new
  values, is what was written, then what is pending now.
\<close>

definition takes :: "allocator \<Rightarrow> carquet_rle_encoder \<Rightarrow> carquet_rle_encoder \<Rightarrow> u32 list \<Rightarrow> bool" where
  "takes al enc enc' vs \<longleftrightarrow>
     rle_enc_inv enc' \<and> enc_bit_width enc' = enc_bit_width enc \<and>
     repeat_count enc' \<le> repeat_count enc + length vs \<and>
     (\<exists>rs. runs_ok rs \<and> runs_values rs @ rle_enc_pending enc' = rle_enc_pending enc @ vs \<and>
        emitted al enc enc' (runs_bytes (enc_bit_width enc) rs))"

lemma takes_refl: "rle_enc_inv enc \<Longrightarrow> takes al enc enc []"
  unfolding takes_def by (auto intro!: exI [of _ "[]"] emitted_refl)

lemma takes_trans:
  assumes "takes al a b xs" "takes al b c ys"
  shows "takes al a c (xs @ ys)"
proof -
  obtain r1 where 1: "runs_ok r1" "runs_values r1 @ rle_enc_pending b = rle_enc_pending a @ xs"
      "emitted al a b (runs_bytes (enc_bit_width a) r1)" using assms(1) by (auto simp: takes_def)
  obtain r2 where 2: "runs_ok r2" "runs_values r2 @ rle_enc_pending c = rle_enc_pending b @ ys"
      "emitted al b c (runs_bytes (enc_bit_width b) r2)" using assms(2) by (auto simp: takes_def)
  have "runs_values (r1 @ r2) @ rle_enc_pending c = rle_enc_pending a @ xs @ ys"
    using 1(2) 2(2) by (metis append.assoc runs_simps(8))
  moreover have "emitted al a c (runs_bytes (enc_bit_width a) (r1 @ r2))"
    using emitted_trans [OF 1(3) 2(3)] assms(1) by (simp add: takes_def)
  moreover have "runs_ok (r1 @ r2)" using 1(1) 2(1) by simp
  ultimately have "\<exists>rs. runs_ok rs \<and> runs_values rs @ rle_enc_pending c = rle_enc_pending a @ xs @ ys \<and>
      emitted al a c (runs_bytes (enc_bit_width a) rs)" by blast
  then show ?thesis using assms by (simp add: takes_def)
qed

text \<open>Moving the current run out, as \<^verbatim>\<open>put\<close> and \<^verbatim>\<open>flush\<close> do.\<close>

definition retire_run :: "allocator \<Rightarrow> carquet_rle_encoder \<Rightarrow> carquet_rle_encoder" where
  "retire_run al enc =
     (if 8 \<le> repeat_count enc then flush_rle al (flush_bitpack al enc)
      else (buffer_repeats (repeat_count enc) al enc)\<lparr>repeat_count := 0\<rparr>)"

lemma rle_enc_inv_pack: "rle_enc_inv enc \<Longrightarrow> pack_inv enc"
  by (simp add: rle_enc_inv_def pack_inv_def)

lemma retire_run_emits:
  assumes "rle_enc_inv enc" "repeat_count enc < 2 ^ 31"
  shows "\<exists>rs. runs_ok rs \<and>
    runs_values rs @ take (pack_count (retire_run al enc)) (pack_buffer (retire_run al enc)) =
      rle_enc_pending enc \<and>
    emitted al enc (retire_run al enc) (runs_bytes (enc_bit_width enc) rs) \<and>
    pack_inv (retire_run al enc) \<and> keeps_run enc (retire_run al enc) \<and>
    repeat_count (retire_run al enc) = 0"
proof (cases "8 \<le> repeat_count enc")
  case True
  let ?e = "flush_bitpack al enc" and ?f = "flush_rle al (flush_bitpack al enc)"
  have i: "enc_bit_width enc \<le> 32" "pack_count enc \<le> 8" "pack_total enc = pack_count enc"
    "length (pack_buffer enc) = 8" using assms(1) by (simp_all add: rle_enc_inv_def)
  obtain r1 where 1: "runs_ok r1" "runs_values r1 = take (pack_count enc) (pack_buffer enc)"
      "emitted al enc ?e (runs_bytes (enc_bit_width enc) r1)" "keeps_run enc ?e"
      "repeat_count ?e = repeat_count enc" "pack_buffer ?e = pack_buffer enc"
      "pack_count ?e = 0" "pack_total ?e = 0"
    using flush_bitpack_emits [OF i, of al] by blast
  have k: "enc_bit_width ?e = enc_bit_width enc" "prev_value ?e = prev_value enc"
    using 1(4) by (simp_all add: keeps_run_def)
  obtain r2 where 2: "runs_ok r2" "runs_values r2 = replicate (repeat_count ?e) (prev_value ?e)"
      "emitted al ?e ?f (runs_bytes (enc_bit_width ?e) r2)" "keeps_run ?e ?f" "keeps_pack ?e ?f"
      "repeat_count ?f = 0"
    using flush_rle_emits [of ?e al] i(1) k(1) 1(5) assms(2) by auto
  have p: "pack_inv ?f" "pack_count ?f = 0"
    using 1 2(4,5) i k(1) by (simp_all add: pack_inv_def keeps_run_def keeps_pack_def)
  have r: "retire_run al enc = ?f" using True by (simp add: retire_run_def)
  have "emitted al enc ?f (runs_bytes (enc_bit_width enc) (r1 @ r2))"
    using emitted_trans [OF 1(3) 2(3)] k(1) by simp
  then show ?thesis
    unfolding r using 1(1,2,5) 2(1,2,6) p k keeps_trans [OF 1(4) 2(4)]
    by (intro exI [of _ "r1 @ r2"]) (simp add: rle_enc_pending_def)
next
  case False
  let ?e = "buffer_repeats (repeat_count enc) al enc"
  obtain rs where rs: "runs_ok rs" "runs_values rs @ take (pack_count ?e) (pack_buffer ?e) =
       take (pack_count enc) (pack_buffer enc) @ replicate (repeat_count enc) (prev_value enc)"
      "emitted al enc ?e (runs_bytes (enc_bit_width enc) rs)" "pack_inv ?e" "keeps_run enc ?e"
    using buffer_repeats_emits [OF rle_enc_inv_pack [OF assms(1)], of "repeat_count enc" al] by blast
  have r: "retire_run al enc = ?e\<lparr>repeat_count := 0\<rparr>" using False by (simp add: retire_run_def)
  show ?thesis
    unfolding r using rs emitted_cong [OF rs(3)]
    by (intro exI [of _ rs]) (simp add: rle_enc_pending_def pack_inv_def keeps_run_def)
qed

lemma put_takes:
  assumes "rle_enc_inv enc" "repeat_count enc < 2 ^ 31"
  shows "takes al enc (fst (carquet_rle_encoder_put al enc v)) [v] \<and>
    snd (carquet_rle_encoder_put al enc v) = CARQUET_OK \<and>
    has_prev (fst (carquet_rle_encoder_put al enc v)) \<and>
    prev_value (fst (carquet_rle_encoder_put al enc v)) = v"
proof -
  have st: "enc_rle_status enc = CARQUET_OK" using assms(1) by (simp add: rle_enc_inv_def)
  consider (first) "\<not> has_prev enc" | (same) "has_prev enc" "v = prev_value enc"
    | (change) "has_prev enc" "v \<noteq> prev_value enc" by blast
  then show ?thesis
  proof cases
    case first
    then show ?thesis
      using assms(1) st unfolding takes_def
      by (auto simp: carquet_rle_encoder_put_def rle_enc_inv_def rle_enc_pending_def
          intro!: exI [of _ "[]"] emitted_refl)
  next
    case same
    then show ?thesis
      using assms(1) st unfolding takes_def
      by (auto simp: carquet_rle_encoder_put_def rle_enc_inv_def rle_enc_pending_def
          replicate_append_same intro!: exI [of _ "[]"] emitted_refl)
  next
    case change
    let ?e = "retire_run al enc" and ?f = "(retire_run al enc)\<lparr>prev_value := v, repeat_count := 1\<rparr>"
    have p: "carquet_rle_encoder_put al enc v = (?f, CARQUET_OK)"
      using change st by (simp add: carquet_rle_encoder_put_def retire_run_def Let_def)
    obtain rs where rs: "runs_ok rs"
        "runs_values rs @ take (pack_count ?e) (pack_buffer ?e) = rle_enc_pending enc"
        "emitted al enc ?e (runs_bytes (enc_bit_width enc) rs)" "pack_inv ?e" "keeps_run enc ?e"
      using retire_run_emits [OF assms, of al] by blast
    have em: "emitted al enc ?f (runs_bytes (enc_bit_width enc) rs)"
      by (rule emitted_cong [OF rs(3)]) simp
    have bw: "buffer_wf (enc_buf enc)" "buf_owns_data (enc_buf enc)"
      using assms(1) by (simp_all add: rle_enc_inv_def)
    then have "rle_enc_inv ?f"
      using rs(3,4,5) st change(1) by (simp add: rle_enc_inv_def pack_inv_def keeps_run_def emitted_def)
    moreover have "rle_enc_pending ?f = take (pack_count ?e) (pack_buffer ?e) @ [v]"
      by (simp add: rle_enc_pending_def)
    then have "runs_values rs @ rle_enc_pending ?f = rle_enc_pending enc @ [v]"
      using rs(2) by (metis append.assoc)
    ultimately have "takes al enc ?f [v]"
      unfolding takes_def using rs(1,5) em by (intro conjI exI [of _ rs]) (simp_all add: keeps_run_def)
    moreover have "has_prev ?f" using rs(5) change(1) by (simp add: keeps_run_def)
    ultimately show ?thesis unfolding p by simp
  qed
qed

lemma extend_run_takes:
  assumes "rle_enc_inv enc" "has_prev enc"
  shows "takes al enc (enc\<lparr>repeat_count := repeat_count enc + n\<rparr>) (replicate n (prev_value enc))"
  using assms unfolding takes_def
  by (auto simp: rle_enc_inv_def rle_enc_pending_def replicate_add
      intro!: exI [of _ "[]"] emitted_refl)

lemma put_repeat_takes:
  assumes "rle_enc_inv enc" "repeat_count enc < 2 ^ 31"
  shows "takes al enc (fst (carquet_rle_encoder_put_repeat al enc v n)) (replicate (nat n) v) \<and>
    snd (carquet_rle_encoder_put_repeat al enc v n) = CARQUET_OK"
proof -
  have st: "enc_rle_status enc = CARQUET_OK" using assms(1) by (simp add: rle_enc_inv_def)
  consider (none) "n \<le> 0" | (same) "0 < n" "has_prev enc" "v = prev_value enc"
    | (change) "0 < n" "has_prev enc" "v \<noteq> prev_value enc" | (first) "0 < n" "\<not> has_prev enc"
    by linarith
  then show ?thesis
  proof cases
    case none
    then show ?thesis using st takes_refl [OF assms(1)] by (simp add: carquet_rle_encoder_put_repeat_def)
  next
    case same
    then show ?thesis
      using st extend_run_takes [OF assms(1)] by (simp add: carquet_rle_encoder_put_repeat_def)
  next
    case change
    obtain e where e: "carquet_rle_encoder_put al enc v = (e, CARQUET_OK)" "takes al enc e [v]"
        "has_prev e" "prev_value e = v"
      using put_takes [OF assms, of al v] by (metis prod.collapse)
    have "takes al e (e\<lparr>repeat_count := repeat_count e + (nat n - 1)\<rparr>) (replicate (nat n - 1) v)"
      using extend_run_takes [of e al "nat n - 1"] e by (simp add: takes_def)
    from takes_trans [OF e(2) this]
    have "takes al enc (e\<lparr>repeat_count := repeat_count e + (nat n - 1)\<rparr>) (v # replicate (nat n - 1) v)"
      by simp
    moreover have "v # replicate (nat n - 1) v = replicate (nat n) v"
      using change(1) by (metis Suc_diff_1 replicate_Suc zero_less_nat_eq)
    ultimately show ?thesis using change st e(1) by (simp add: carquet_rle_encoder_put_repeat_def)
  next
    case first
    then show ?thesis
      using assms(1) st unfolding takes_def
      by (auto simp: carquet_rle_encoder_put_repeat_def rle_enc_inv_def rle_enc_pending_def
          intro!: exI [of _ "[]"] emitted_refl)
  qed
qed

lemma put_all_takes:
  "rle_enc_inv enc \<Longrightarrow> repeat_count enc + length vs < 2 ^ 31 \<Longrightarrow>
   takes al enc (fst (rle_put_all al enc vs)) vs \<and> snd (rle_put_all al enc vs) = CARQUET_OK"
proof (induction vs arbitrary: enc)
  case Nil
  then show ?case by (simp add: takes_refl)
next
  case (Cons v vs)
  obtain e where e: "carquet_rle_encoder_put al enc v = (e, CARQUET_OK)" "takes al enc e [v]"
    using put_takes [of enc al v] Cons.prems by (metis add_leD1 le_less_trans less_imp_le prod.collapse le_add1)
  then have "takes al e (fst (rle_put_all al e vs)) vs \<and> snd (rle_put_all al e vs) = CARQUET_OK"
    using Cons.prems by (intro Cons.IH) (simp_all add: takes_def)
  then show ?case using takes_trans [OF e(2)] e(1) by fastforce
qed

lemma flush_emits:
  assumes "rle_enc_inv enc" "repeat_count enc < 2 ^ 31"
  shows "snd (carquet_rle_encoder_flush al enc) = CARQUET_OK \<and>
    (\<exists>rs. runs_ok rs \<and> runs_values rs = rle_enc_pending enc \<and>
      emitted al enc (fst (carquet_rle_encoder_flush al enc)) (runs_bytes (enc_bit_width enc) rs))"
proof -
  let ?e = "retire_run al enc"
  have st: "enc_rle_status enc = CARQUET_OK" using assms(1) by (simp add: rle_enc_inv_def)
  obtain r1 where r1: "runs_ok r1"
      "runs_values r1 @ take (pack_count ?e) (pack_buffer ?e) = rle_enc_pending enc"
      "emitted al enc ?e (runs_bytes (enc_bit_width enc) r1)" "pack_inv ?e" "keeps_run enc ?e"
    using retire_run_emits [OF assms, of al] by blast
  have w: "enc_bit_width ?e = enc_bit_width enc" using r1(5) by (simp add: keeps_run_def)
  obtain r2 where r2: "runs_ok r2" "runs_values r2 = take (pack_count ?e) (pack_buffer ?e)"
      "emitted al ?e (flush_bitpack al ?e) (runs_bytes (enc_bit_width ?e) r2)"
    using flush_bitpack_emits [of ?e al] r1(4) by (auto simp: pack_inv_def)
  consider (long) "8 \<le> repeat_count enc" | (short) "repeat_count enc < 8" "0 < repeat_count enc"
    | (none) "repeat_count enc = 0" by linarith
  then show ?thesis
  proof cases
    case long
    have i: "enc_bit_width enc \<le> 32" "pack_count enc \<le> 8" "pack_total enc = pack_count enc"
      "length (pack_buffer enc) = 8" using assms(1) by (simp_all add: rle_enc_inv_def)
    have "pack_count (flush_bitpack al enc) = 0 \<and> enc_bit_width (flush_bitpack al enc) \<le> 32"
      using flush_bitpack_emits [OF i, of al] i(1) by (auto simp: keeps_run_def)
    then have "pack_count ?e = 0"
      using flush_rle_emits [of "flush_bitpack al enc" al] flush_bitpack_emits [OF i, of al] assms(2) long
      by (auto simp: retire_run_def keeps_pack_def)
    then show ?thesis
      using long st r1(1-3) by (auto simp: carquet_rle_encoder_flush_def retire_run_def)
  next
    case short
    have "carquet_rle_encoder_flush al enc = (flush_bitpack al ?e, CARQUET_OK)"
      using short st by (auto simp: carquet_rle_encoder_flush_def retire_run_def Let_def flush_bitpack_def)
    moreover have "emitted al enc (flush_bitpack al ?e) (runs_bytes (enc_bit_width enc) (r1 @ r2))"
      using emitted_trans [OF r1(3) r2(3)] w by simp
    ultimately show ?thesis using r1(1,2) r2(1,2) by (intro conjI exI [of _ "r1 @ r2"]) simp_all
  next
    case none
    then have "rle_enc_pending enc = []" using assms(1) by (simp add: rle_enc_inv_def rle_enc_pending_def)
    then show ?thesis
      using none st by (auto simp: carquet_rle_encoder_flush_def intro!: exI [of _ "[]"] emitted_refl)
  qed
qed


section \<open>Round trips\<close>

text \<open>A caller's sequence of puts, as the level and dictionary writers issue them.\<close>

datatype rle_op = Put u32 | Put_Repeat u32 int

primrec rle_op_values :: "rle_op \<Rightarrow> u32 list" where
  "rle_op_values (Put v) = [v]"
| "rle_op_values (Put_Repeat v n) = replicate (nat n) v"

primrec rle_op_step :: "allocator \<Rightarrow> carquet_rle_encoder \<Rightarrow> rle_op \<Rightarrow> carquet_rle_encoder" where
  "rle_op_step al enc (Put v) = fst (carquet_rle_encoder_put al enc v)"
| "rle_op_step al enc (Put_Repeat v n) = fst (carquet_rle_encoder_put_repeat al enc v n)"

primrec rle_ops :: "allocator \<Rightarrow> carquet_rle_encoder \<Rightarrow> rle_op list \<Rightarrow> carquet_rle_encoder" where
  "rle_ops al enc [] = enc"
| "rle_ops al enc (p # ps) = rle_ops al (rle_op_step al enc p) ps"

lemma op_step_takes:
  "rle_enc_inv enc \<Longrightarrow> repeat_count enc < 2 ^ 31 \<Longrightarrow>
   takes al enc (rle_op_step al enc p) (rle_op_values p)"
  by (cases p) (simp_all add: put_takes put_repeat_takes)

lemma ops_takes:
  "rle_enc_inv enc \<Longrightarrow> repeat_count enc + length (concat (map rle_op_values ps)) < 2 ^ 31 \<Longrightarrow>
   takes al enc (rle_ops al enc ps) (concat (map rle_op_values ps))"
proof (induction ps arbitrary: enc)
  case Nil
  then show ?case by (simp add: takes_refl)
next
  case (Cons p ps)
  have s: "takes al enc (rle_op_step al enc p) (rle_op_values p)"
    using op_step_takes Cons.prems by simp
  then have "takes al (rle_op_step al enc p) (rle_ops al (rle_op_step al enc p) ps)
      (concat (map rle_op_values ps))"
    using Cons.prems(2) by (intro Cons.IH) (simp_all add: takes_def)
  then show ?case using takes_trans [OF s] by simp
qed

lemma rle_enc_inv_init:
  "buffer_wf b \<Longrightarrow> buf_owns_data b \<Longrightarrow> w \<le> 32 \<Longrightarrow> rle_enc_inv (carquet_rle_encoder_init b w)"
  "rle_enc_pending (carquet_rle_encoder_init b w) = []"
  "enc_bit_width (carquet_rle_encoder_init b w) = w" "enc_buf (carquet_rle_encoder_init b w) = b"
  "repeat_count (carquet_rle_encoder_init b w) = 0"
  by (simp_all add: carquet_rle_encoder_init_def rle_enc_inv_def rle_enc_pending_def)

lemma takes_then_flush:
  assumes "takes al (carquet_rle_encoder_init b w) enc vs" "length vs < 2 ^ 31"
    "buffer_wf b" "buf_owns_data b" "w \<le> 32"
    "\<forall>n. alloc_grants al n" "length (buffer_contents b) + 9 * length vs < 2 ^ 64"
  shows "\<exists>bs. buffer_contents (enc_buf (fst (carquet_rle_encoder_flush al enc))) = buffer_contents b @ bs \<and>
    length bs \<le> 9 * length vs \<and> rle_stream w bs = map (\<lambda>v. v AND mask w) vs \<and>
    snd (carquet_rle_encoder_flush al enc) = CARQUET_OK \<and>
    (\<exists>rs. runs_ok rs \<and> bs = runs_bytes w rs)"
proof -
  let ?i = "carquet_rle_encoder_init b w"
  obtain r1 where r1: "runs_ok r1" "runs_values r1 @ rle_enc_pending enc = vs"
      "emitted al ?i enc (runs_bytes w r1)" and e: "rle_enc_inv enc" "repeat_count enc < 2 ^ 31"
      "enc_bit_width enc = w"
    using assms(1,2) by (auto simp: takes_def rle_enc_inv_init)
  obtain r2 where r2: "runs_ok r2" "runs_values r2 = rle_enc_pending enc"
      "emitted al enc (fst (carquet_rle_encoder_flush al enc)) (runs_bytes w r2)"
      and st: "snd (carquet_rle_encoder_flush al enc) = CARQUET_OK"
    using flush_emits [OF e(1,2), of al] e(3) by auto
  have ok: "runs_ok (r1 @ r2)" "runs_values (r1 @ r2) = vs" using r1 r2 by simp_all
  have len: "length (runs_bytes w (r1 @ r2)) \<le> 9 * length vs"
    using length_runs_bytes [OF ok(1) assms(5)] unfolding ok(2) .
  have "emitted al ?i (fst (carquet_rle_encoder_flush al enc)) (runs_bytes w (r1 @ r2))"
    using emitted_trans [OF r1(3) r2(3)] by simp
  moreover have "length (buffer_contents b) + length (runs_bytes w (r1 @ r2)) < 2 ^ 64"
    using len assms(7) by linarith
  ultimately have "buffer_contents (enc_buf (fst (carquet_rle_encoder_flush al enc))) =
      buffer_contents b @ runs_bytes w (r1 @ r2)"
    using assms(3,4,6) unfolding emitted_def rle_enc_inv_init(4) by blast
  moreover have "rle_stream w (runs_bytes w (r1 @ r2)) = map (\<lambda>v. v AND mask w) vs"
    using rle_stream_runs [of "r1 @ r2" w] ok(1) assms(5) unfolding ok(2) runs_ok_def by blast
  ultimately show ?thesis using len st ok(1) by blast
qed

lemma encode_all_runs:
  assumes "\<forall>n. alloc_grants al n" "buffer_wf out" "buf_owns_data out"
    "w \<le> 32" "length input < 2 ^ 31" "length (buffer_contents out) + 9 * length input < 2 ^ 64"
  shows "\<exists>bs. snd (carquet_rle_encode_all al input w out) = CARQUET_OK \<and>
    buffer_contents (fst (carquet_rle_encode_all al input w out)) = buffer_contents out @ bs \<and>
    length bs \<le> 9 * length input \<and> rle_stream w bs = map (\<lambda>v. v AND mask w) input \<and>
    (\<exists>rs. runs_ok rs \<and> bs = runs_bytes w rs)"
proof -
  let ?i = "carquet_rle_encoder_init out w"
  obtain enc where enc: "rle_put_all al ?i input = (enc, CARQUET_OK)" "takes al ?i enc input"
    using put_all_takes [of ?i input al] assms(2-5) rle_enc_inv_init [where b = out and w = w]
    by (metis add_0 prod.collapse)
  have "carquet_rle_encode_all al input w out =
      (enc_buf (fst (carquet_rle_encoder_flush al enc)), snd (carquet_rle_encoder_flush al enc))"
    by (simp add: carquet_rle_encode_all_def enc(1) split_beta)
  then show ?thesis
    using takes_then_flush [OF enc(2) assms(5,2,3,4,1,6)] by (metis fst_conv snd_conv)
qed

text \<open>
  C1: RLE round trip. With an allocator that grants every request, an owned output buffer
  and at most $2^{31} - 1$ values, \<^verbatim>\<open>carquet_rle_encode_all\<close> succeeds and appends bytes
  that \<^verbatim>\<open>carquet_rle_decode_all\<close> decodes back to the input, each value masked to the
  bit width; the encoding takes at most 9 bytes a value.
\<close>

theorem rle_roundtrip:
  assumes "unpack_kernels ds" "\<forall>n. alloc_grants al n" "buffer_wf out" "buf_owns_data out"
    "w \<le> 32" "length input < 2 ^ 31" "length (buffer_contents out) + 9 * length input < 2 ^ 64"
  shows "\<exists>bs. snd (carquet_rle_encode_all al input w out) = CARQUET_OK \<and>
    buffer_contents (fst (carquet_rle_encode_all al input w out)) = buffer_contents out @ bs \<and>
    length bs \<le> 9 * length input \<and>
    carquet_rle_decode_all ds bs (int w) (length input) = map (\<lambda>v. v AND mask w) input"
proof -
  obtain bs where "snd (carquet_rle_encode_all al input w out) = CARQUET_OK"
      "buffer_contents (fst (carquet_rle_encode_all al input w out)) = buffer_contents out @ bs"
      "length bs \<le> 9 * length input" "rle_stream w bs = map (\<lambda>v. v AND mask w) input"
    using encode_all_runs [OF assms(2-7)] by blast
  then show ?thesis
    using rle_decode_all_stream [OF assms(1), of "int w" bs "length input"] assms(5)
    by (intro exI [of _ bs]) simp
qed

theorem rle_roundtrip_witness:
  "\<exists>bs. snd (carquet_rle_encode_all generous [5, 5, 9] 3 carquet_buffer_init) = CARQUET_OK \<and>
    buffer_contents (fst (carquet_rle_encode_all generous [5, 5, 9] 3 carquet_buffer_init)) =
      buffer_contents carquet_buffer_init @ bs \<and>
    length bs \<le> 9 * length [5, 5, 9 :: u32] \<and>
    carquet_rle_decode_all scalar_dispatch bs (int 3) (length [5, 5, 9 :: u32]) =
      map (\<lambda>v. v AND mask 3) [5, 5, 9]"
  by (rule rle_roundtrip [OF scalar.unpack_kernels_axioms])
    (simp_all add: generous_def carquet_buffer_init_def buffer_wf_def buffer_contents_def)

text \<open>
  The encoder under any sequence of puts. From a fresh encoder, any sequence of
  \<^verbatim>\<open>carquet_rle_encoder_put\<close> and \<^verbatim>\<open>carquet_rle_encoder_put_repeat\<close> calls (counts of zero or
  less included) followed by \<^verbatim>\<open>carquet_rle_encoder_flush\<close> appends an encoding of the values put, in
  order, whatever mixture of RLE runs and bit-packed groups it chose.
\<close>

theorem rle_encoder_any_sequence:
  assumes "\<forall>n. alloc_grants al n" "buffer_wf out" "buf_owns_data out" "w \<le> 32"
    "vs = concat (map rle_op_values ps)" "length vs < 2 ^ 31"
    "length (buffer_contents out) + 9 * length vs < 2 ^ 64"
    "enc = rle_ops al (carquet_rle_encoder_init out w) ps"
  shows "snd (carquet_rle_encoder_flush al enc) = CARQUET_OK \<and>
    (\<exists>bs. buffer_contents (enc_buf (fst (carquet_rle_encoder_flush al enc))) = buffer_contents out @ bs \<and>
      rle_stream w bs = map (\<lambda>v. v AND mask w) vs)"
proof -
  have "takes al (carquet_rle_encoder_init out w) enc vs"
    using ops_takes [of "carquet_rle_encoder_init out w" ps al] assms
      rle_enc_inv_init [where b = out and w = w] by simp
  from takes_then_flush [OF this assms(6,2,3,4,1,7)] show ?thesis by blast
qed

theorem rle_encoder_any_sequence_witness:
  "\<exists>bs. buffer_contents (enc_buf (fst (carquet_rle_encoder_flush generous
      (rle_ops generous (carquet_rle_encoder_init carquet_buffer_init 3)
        [Put 1, Put_Repeat 2 9, Put_Repeat 4 0, Put 2])))) = buffer_contents carquet_buffer_init @ bs \<and>
    rle_stream 3 bs = map (\<lambda>v. v AND mask 3) (1 # replicate 9 2 @ [2])"
  by (rule rle_encoder_any_sequence [where w = 3 and out = carquet_buffer_init and al = generous
        and ps = "[Put 1, Put_Repeat 2 9, Put_Repeat 4 0, Put 2]", THEN conjunct2])
    (simp_all add: generous_def carquet_buffer_init_def buffer_wf_def buffer_contents_def)

text \<open>Every step of the encoder on a buffer that cannot grow: the buffer and the status stay.\<close>

definition rle_stuck :: "carquet_buffer \<Rightarrow> carquet_rle_encoder \<Rightarrow> bool" where
  "rle_stuck out enc \<longleftrightarrow> enc_buf enc = out \<and> enc_rle_status enc = CARQUET_OK"

lemma stuck_rle_append: "stuck_buffer al out \<Longrightarrow> rle_stuck out enc \<Longrightarrow> rle_stuck out (rle_append al enc bs)"
  by (simp add: rle_stuck_def rle_append_def stuck_append)

lemma stuck_flush_runs: "stuck_buffer al out \<Longrightarrow> rle_stuck out enc \<Longrightarrow> rle_stuck out (flush_runs al enc vs)"
proof (induction al enc vs rule: flush_runs.induct)
  case (1 al enc vs)
  then show ?case
    by (subst flush_runs.simps) (auto simp: Let_def stuck_rle_append split: list.split)
qed

lemma stuck_append_groups: "stuck_buffer al out \<Longrightarrow> rle_stuck out enc \<Longrightarrow> rle_stuck out (append_groups g al enc)"
  by (induction g arbitrary: enc) (simp_all add: stuck_rle_append)

lemma rle_stuck_update [simp]:
  "rle_stuck out (enc\<lparr>repeat_count := n\<rparr>) = rle_stuck out enc"
  "rle_stuck out (enc\<lparr>pack_count := n\<rparr>) = rle_stuck out enc"
  "rle_stuck out (enc\<lparr>pack_total := n\<rparr>) = rle_stuck out enc"
  "rle_stuck out (enc\<lparr>pack_buffer := vs\<rparr>) = rle_stuck out enc"
  "rle_stuck out (enc\<lparr>prev_value := v\<rparr>) = rle_stuck out enc"
  "rle_stuck out (enc\<lparr>has_prev := b\<rparr>) = rle_stuck out enc"
  by (simp_all add: rle_stuck_def)

lemma stuck_flush_bitpack: "stuck_buffer al out \<Longrightarrow> rle_stuck out enc \<Longrightarrow> rle_stuck out (flush_bitpack al enc)"
  by (simp add: flush_bitpack_def flush_bitpack_as_rle_def rle_write_varint_def Let_def stuck_flush_runs
      stuck_append_groups stuck_rle_append)

lemma stuck_flush_rle: "stuck_buffer al out \<Longrightarrow> rle_stuck out enc \<Longrightarrow> rle_stuck out (flush_rle al enc)"
  by (simp add: flush_rle_def Let_def stuck_rle_append)

lemma stuck_buffer_repeats: "stuck_buffer al out \<Longrightarrow> rle_stuck out enc \<Longrightarrow> rle_stuck out (buffer_repeats n al enc)"
  by (induction n arbitrary: enc) (simp_all add: Let_def stuck_flush_bitpack)

lemmas rle_stuck_steps = stuck_flush_bitpack stuck_flush_rle stuck_buffer_repeats

lemma stuck_put:
  assumes "stuck_buffer al out" "rle_stuck out enc"
  shows "\<exists>enc'. carquet_rle_encoder_put al enc v = (enc', CARQUET_OK) \<and> rle_stuck out enc'"
proof -
  have "enc_rle_status enc = CARQUET_OK"
    using assms(2) by (simp add: rle_stuck_def)
  then show ?thesis
    using assms by (simp add: carquet_rle_encoder_put_def Let_def rle_stuck_steps)
qed

lemma stuck_put_all:
  "stuck_buffer al out \<Longrightarrow> rle_stuck out enc \<Longrightarrow>
   \<exists>enc'. rle_put_all al enc vs = (enc', CARQUET_OK) \<and> rle_stuck out enc'"
proof (induction vs arbitrary: enc)
  case (Cons v vs)
  then show ?case
    using stuck_put [OF Cons.prems, of v] by auto
qed simp

lemma stuck_flush:
  assumes "stuck_buffer al out" "rle_stuck out enc"
  shows "\<exists>enc'. carquet_rle_encoder_flush al enc = (enc', CARQUET_OK) \<and> rle_stuck out enc'"
proof -
  have "enc_rle_status enc = CARQUET_OK"
    using assms(2) by (simp add: rle_stuck_def)
  then show ?thesis
    using assms by (simp add: carquet_rle_encoder_flush_def Let_def rle_stuck_steps)
qed

text \<open>
  C38: the encoder drops a failed append. Whatever the values and the width, when the
  output buffer is full and its growth is refused, \<^verbatim>\<open>carquet_rle_encode_all\<close> writes nothing
  and still returns \<^verbatim>\<open>CARQUET_OK\<close>: the statuses of the appends are discarded.
\<close>

theorem rle_encode_ignores_failure:
  assumes "stuck_buffer al out"
  shows "carquet_rle_encode_all al vs w out = (out, CARQUET_OK)"
proof -
  have "rle_stuck out (carquet_rle_encoder_init out w)"
    by (simp add: rle_stuck_def carquet_rle_encoder_init_def)
  then obtain enc where enc: "rle_put_all al (carquet_rle_encoder_init out w) vs = (enc, CARQUET_OK)" "rle_stuck out enc"
    using stuck_put_all [OF assms] by blast
  obtain enc' where "carquet_rle_encoder_flush al enc = (enc', CARQUET_OK)" "rle_stuck out enc'"
    using stuck_flush [OF assms enc(2)] by blast
  with enc(1) show ?thesis
    by (simp add: carquet_rle_encode_all_def rle_stuck_def)
qed

theorem rle_encode_ignores_failure_witness:
  "carquet_rle_encode_all refusing [5, 5, 9] 3 carquet_buffer_init = (carquet_buffer_init, CARQUET_OK)"
  by (rule rle_encode_ignores_failure, rule stuck_refusing) (simp_all add: refusing_def carquet_buffer_init_def)

end
