(* ===== verification/Rle_Levels.thy ===== *)
theory Rle_Levels
  imports Rle_Encode
begin

text \<open>
  The level decoders of \<^verbatim>\<open>encoding/rle.c\<close>: \<^verbatim>\<open>carquet_rle_decode_levels\<close>, which
  reads runs without the decoder object, \<^verbatim>\<open>carquet_rle_decode_to_bitmap\<close>, which turns
  definition levels of width 1 into a validity bitmap, and the length-prefixed form of
  data page V1. A position in the input is represented by the bytes that are left.
  \<^verbatim>\<open>carquet_dispatch_fill_def_levels\<close> stores copies of one level.
\<close>

section \<open>Definitions\<close>

text \<open>The inline header loop: it also stops at the end of the input and after five bytes.\<close>

fun level_header :: "nat \<Rightarrow> u32 \<Rightarrow> bytes \<Rightarrow> u32 \<times> bytes" where
  "level_header shift header [] = (header, [])"
| "level_header shift header (byte # bs) =
     (if shift < 32
      then let header' = header OR push_bit shift (ucast (byte AND 0x7F)) in
           if byte AND 0x80 = 0 then (header', bs) else level_header (shift + 7) header' bs
      else (header, byte # bs))"

lemma level_header_length: "length (snd (level_header shift header bs)) \<le> length bs"
  by (induction shift header bs rule: level_header.induct) (auto simp: Let_def)

lemma level_header_progress:
  "level_header 0 header bs = (h, rest) \<Longrightarrow> bs \<noteq> [] \<Longrightarrow> length rest < length bs"
  using level_header_length [of 7 _ "tl bs"]
  by (cases bs) (auto simp: Let_def le_imp_less_Suc split: if_splits dest!: arg_cong [of _ "(_, _)" snd])

text \<open>The bulk path for a run that is present and fits, 256 values at a time.\<close>

function level_bulk :: "bitunpack_dispatch \<Rightarrow> nat \<Rightarrow> nat \<Rightarrow> bytes \<Rightarrow> i16 list \<times> bytes" where
  "level_bulk ds bit_width left bs =
     (if left = 0 then ([], bs)
      else let chunk = (if 256 < left then 256 else left);
               (tmp, used) = carquet_bitunpack_32 ds bs chunk bit_width;
               (vs, rest) = level_bulk ds bit_width (left - chunk) (drop used bs)
           in (map ucast (take chunk tmp) @ vs, rest))"
  by pat_completeness auto
termination
  by (relation "measure (\<lambda>(ds, w, left, bs). left)") auto

text \<open>The exact loop, one group at a time; \<open>want\<close> is \<^verbatim>\<open>max_values - count\<close>.\<close>

primrec level_groups ::
    "nat \<Rightarrow> bitunpack_dispatch \<Rightarrow> nat \<Rightarrow> nat \<Rightarrow> bytes \<Rightarrow> i16 list \<times> bytes" where
  "level_groups 0 ds bit_width want bs = ([], bs)"
| "level_groups (Suc g) ds bit_width want bs =
     (if want = 0 then ([], bs)
      else if length bs < bit_width then ([], bs)
      else let temp = carquet_bitunpack8_32 ds bs bit_width;
               to_store = (if want < 8 then want else 8);
               (vs, rest) = level_groups g ds bit_width (want - to_store) (drop bit_width bs)
           in (map ucast (take to_store temp) @ vs, rest))"

declare level_bulk.simps [simp del] level_groups.simps(2) [simp del]

lemma level_groups_length: "length (snd (level_groups g ds w want bs)) \<le> length bs"
proof (induction g arbitrary: want bs)
  case (Suc g)
  show ?case using Suc.IH [of "want - (if want < 8 then want else 8)" "drop w bs"]
    by (auto simp: level_groups.simps(2) Let_def split_beta)
qed simp

lemma level_bulk_length: "length (snd (level_bulk ds w left bs)) \<le> length bs"
proof (induction ds w left bs rule: level_bulk.induct)
  case (1 ds w left bs)
  show ?case
    by (subst level_bulk.simps)
      (use "1.IH" [OF _ refl refl prod.collapse] in \<open>auto simp: Let_def split_beta intro: order_trans\<close>)
qed

definition packed_levels ::
    "bitunpack_dispatch \<Rightarrow> nat \<Rightarrow> nat \<Rightarrow> nat \<Rightarrow> bytes \<Rightarrow> i16 list \<times> bytes" where
  "packed_levels ds bit_width num_groups want bs =
     (if 1 \<le> bit_width \<and> num_groups \<le> length bs div bit_width \<and> num_groups * 8 \<le> want
      then level_bulk ds bit_width (num_groups * 8) bs
      else level_groups num_groups ds bit_width want bs)"

function level_runs :: "bitunpack_dispatch \<Rightarrow> nat \<Rightarrow> nat \<Rightarrow> bytes \<Rightarrow> i16 list" where
  "level_runs ds bit_width want bs =
     (if want = 0 \<or> bs = [] then []
      else case level_header 0 0 bs of
        (header, rest) \<Rightarrow>
          let run = unat (drop_bit 1 header); value_bytes = (bit_width + 7) div 8 in
          if header AND 1 = 0
          then if run = 0 then level_runs ds bit_width want rest
               else if length rest < value_bytes then []
               else let rle_value = rle_read_value value_bytes rest 0 0 0 AND
                          (if 32 \<le> bit_width then NOT 0 else push_bit bit_width 1 - 1);
                        to_fill = (if want < run then want else run)
                    in replicate to_fill (ucast rle_value) @
                       level_runs ds bit_width (want - to_fill) (drop value_bytes rest)
          else if run = 0 then level_runs ds bit_width want rest
               else case packed_levels ds bit_width run want rest of
                      (vs, rest') \<Rightarrow> vs @ level_runs ds bit_width (want - length vs) rest')"
  by pat_completeness auto
termination
proof (relation "measure (\<lambda>(ds, w, want, bs). length bs)", goal_cases)
  case (5 ds w want bs header rest run vb vs rest')
  then have "length rest' \<le> length rest"
    using level_groups_length [of run ds w want rest] level_bulk_length [of ds w "run * 8" rest]
    by (auto simp: packed_levels_def split: if_splits dest: arg_cong [of _ _ snd])
  then show ?case using 5 level_header_progress [of 0 bs header rest] by auto
qed (auto dest!: level_header_progress [OF sym])


declare level_runs.simps [simp del]

definition carquet_rle_decode_levels :: "bitunpack_dispatch \<Rightarrow> bytes \<Rightarrow> int \<Rightarrow> nat \<Rightarrow> i16 list" where
  "carquet_rle_decode_levels ds input bit_width max_values =
     (if max_values = 0 \<or> input = [] \<or> bit_width < 0 \<or> 32 < bit_width then []
      else level_runs ds (nat bit_width) max_values input)"

subsection \<open>Straight to a validity bitmap\<close>

primrec bitmap_fill :: "nat \<Rightarrow> nat \<Rightarrow> bytes \<Rightarrow> bytes" where
  "bitmap_fill 0 idx bitmap = bitmap"
| "bitmap_fill (Suc n) idx bitmap =
     bitmap_fill n (idx + 1) (or_at bitmap (idx div 8) (push_bit (idx mod 8) 1))"

text \<open>The bits of one packed byte; \<open>n\<close> counts the bits left to store and \<open>i\<close> those stored.\<close>

primrec bitmap_byte :: "nat \<Rightarrow> nat \<Rightarrow> u8 \<Rightarrow> nat \<Rightarrow> bytes \<times> nat \<Rightarrow> bytes \<times> nat" where
  "bitmap_byte 0 i packed_byte count st = st"
| "bitmap_byte (Suc n) i packed_byte count st =
     bitmap_byte n (i + 1) packed_byte count
       (if drop_bit i packed_byte AND 1 = 1
        then (or_at (fst st) ((count + i) div 8) (push_bit ((count + i) mod 8) 1), snd st + 1)
        else st)"

text \<open>The state is the bitmap, the count of present values and \<^verbatim>\<open>count\<close>.\<close>

primrec bitmap_groups ::
    "nat \<Rightarrow> nat \<Rightarrow> bytes \<times> nat \<times> nat \<Rightarrow> bytes \<Rightarrow> (bytes \<times> nat \<times> nat) \<times> bytes" where
  "bitmap_groups 0 max_values st bs = (st, bs)"
| "bitmap_groups (Suc g) max_values st bs =
     (case st of (bitmap, nn_count, count) \<Rightarrow>
        if max_values \<le> count then (st, bs)
        else case bs of
               [] \<Rightarrow> (st, bs)
             | packed_byte # bs' \<Rightarrow>
                 let to_store = (if max_values < count + 8 then max_values - count else 8);
                     (bitmap', nn') = bitmap_byte to_store 0 packed_byte count (bitmap, nn_count)
                 in bitmap_groups g max_values (bitmap', nn', count + to_store) bs')"

lemma bitmap_groups_length: "length (snd (bitmap_groups g m st bs)) \<le> length bs"
proof (induction g arbitrary: st bs)
  case (Suc g)
  obtain b nn c where st: "st = (b, nn, c)" by (cases st)
  show ?case
  proof (cases bs)
    case (Cons x xs)
    show ?thesis using Suc.IH [of _ xs]
      by (auto simp: st Cons Let_def split_beta intro: le_SucI)
  qed (simp add: st)
qed simp

function bitmap_runs :: "nat \<Rightarrow> bytes \<times> nat \<times> nat \<Rightarrow> bytes \<Rightarrow> bytes \<times> nat \<times> nat" where
  "bitmap_runs max_values st bs =
     (case st of (bitmap, nn_count, count) \<Rightarrow>
        if max_values \<le> count \<or> bs = [] then st
        else case level_header 0 0 bs of
          (header, rest) \<Rightarrow>
            let run = unat (drop_bit 1 header) in
            if header AND 1 = 0
            then if run = 0 then bitmap_runs max_values st rest
                 else (case rest of
                         [] \<Rightarrow> st
                       | byte # rest' \<Rightarrow>
                           let to_fill = (if max_values < count + run then max_values - count else run)
                           in bitmap_runs max_values
                                (if byte AND 1 = 1
                                 then (bitmap_fill to_fill count bitmap, nn_count + to_fill, count + to_fill)
                                 else (bitmap, nn_count, count + to_fill)) rest')
            else if run = 0 then bitmap_runs max_values st rest
                 else case bitmap_groups run max_values st rest of
                        (st', rest') \<Rightarrow> bitmap_runs max_values st' rest')"
  by pat_completeness auto
termination
proof (relation "measure (\<lambda>(m, st, bs). length bs)", goal_cases)
  case (5 m st bs bitmap x nn count header rest run st' rest')
  then have "length rest' \<le> length rest"
    using bitmap_groups_length [of run m st rest] by (auto dest: arg_cong [of _ _ snd])
  moreover have "length rest < length bs" using 5 level_header_progress [of 0 bs header rest] by auto
  ultimately show ?case by simp
qed (auto dest!: level_header_progress [OF sym])

declare bitmap_runs.simps [simp del]

text \<open>The values decoded, the bitmap after the call, and the count of present values.\<close>

definition carquet_rle_decode_to_bitmap :: "bytes \<Rightarrow> bytes \<Rightarrow> nat \<Rightarrow> nat \<times> bytes \<times> nat" where
  "carquet_rle_decode_to_bitmap input bitmap max_values =
     (if max_values = 0 \<or> input = [] then (0, bitmap, 0)
      else let bitmap_bytes = (max_values + 7) div 8 in
           case bitmap_runs max_values
                  (replicate bitmap_bytes 0 @ drop bitmap_bytes bitmap, 0, 0) input of
             (bitmap', nn_count, count) \<Rightarrow> (count, bitmap', nn_count))"

subsection \<open>The length-prefixed form\<close>

text \<open>
  The return value and \<^verbatim>\<open>bytes_consumed\<close>. The sum of the prefix and 4 is a 32-bit
  sum; \<^verbatim>\<open>Overrun\<close> is the outcome in which the level decoder is handed a length beyond the
  end of the input.
\<close>

datatype prefixed_levels = Rejected | Levels "i16 list" nat | Overrun

definition carquet_rle_decode_levels_prefixed ::
    "bitunpack_dispatch \<Rightarrow> bytes \<Rightarrow> int \<Rightarrow> nat \<Rightarrow> prefixed_levels" where
  "carquet_rle_decode_levels_prefixed ds input bit_width max_values =
     (if length input < 4 then Rejected
      else let rle_length = carquet_read_u32_le input in
           if length input < unat (4 + rle_length) then Rejected
           else if length input - 4 < unat rle_length then Overrun
           else Levels (carquet_rle_decode_levels ds (take (unat rle_length) (drop 4 input))
                          bit_width max_values) (unat (4 + rle_length)))"

section \<open>What the level decoders compute\<close>

text \<open>
  The reference both decoders are compared with: the levels a byte string yields under
  the inline reading, malformed input included. A group that is cut short ends only its
  run: the bytes that are left are read as headers again.
\<close>

definition whole_groups :: "nat \<Rightarrow> nat \<Rightarrow> nat \<Rightarrow> bytes \<Rightarrow> nat" where
  "whole_groups w g want bs =
     min (min g ((want + 7) div 8)) (if w = 0 then g else length bs div w)"

function level_values :: "nat \<Rightarrow> nat \<Rightarrow> bytes \<Rightarrow> u32 list" where
  "level_values w want bs =
     (if want = 0 \<or> bs = [] then []
      else case level_header 0 0 bs of
        (header, rest) \<Rightarrow>
          let run = unat (drop_bit 1 header); value_bytes = (w + 7) div 8 in
          if header AND 1 = 0
          then if run = 0 then level_values w want rest
               else if length rest < value_bytes then []
               else replicate (min want run) (rle_word w rest) @
                    level_values w (want - min want run) (drop value_bytes rest)
          else let g = whole_groups w run want rest in
               packed_values w rest (min want (8 * g)) @
               level_values w (want - min want (8 * g)) (drop (g * w) rest))"
  by pat_completeness auto
termination
  by (relation "measure (\<lambda>(w, want, bs). length bs)") (auto dest!: level_header_progress [OF sym])

declare level_values.simps [simp del]


lemma whole_groups_0 [simp]: "whole_groups w 0 want bs = 0"
  by (simp add: whole_groups_def)

lemma whole_groups_Suc:
  "whole_groups w (Suc g) want bs =
     (if want = 0 \<or> length bs < w then 0 else Suc (whole_groups w g (want - min want 8) (drop w bs)))"
proof (cases "want = 0 \<or> length bs < w")
  case True
  then show ?thesis by (auto simp: whole_groups_def)
next
  case False
  have a: "(want + 7) div 8 = Suc ((want - min want 8 + 7) div 8)"
    using False by (cases "want < 8") (auto simp: le_div_geq)
  have b: "length bs div w = Suc ((length bs - w) div w)" if "0 < w"
    using False that by (simp add: le_div_geq)
  show ?thesis using False a b by (auto simp: whole_groups_def)
qed

lemma whole_groups_fits: "whole_groups w g want bs * w \<le> length bs"
proof (cases "w = 0")
  case False
  have "whole_groups w g want bs \<le> length bs div w" using False by (simp add: whole_groups_def)
  then have "whole_groups w g want bs * w \<le> length bs div w * w" by (rule mult_le_mono1)
  also have "\<dots> \<le> length bs" by simp
  finally show ?thesis .
qed simp

context unpack_kernels
begin

lemma level_groups_spec:
  "w \<le> 32 \<Longrightarrow> level_groups g ds w want bs =
     (map ucast (packed_values w bs (min want (8 * whole_groups w g want bs))),
      drop (whole_groups w g want bs * w) bs)"
proof (induction g arbitrary: want bs)
  case (Suc g)
  show ?case
  proof (cases "want = 0 \<or> length bs < w")
    case True
    then show ?thesis by (auto simp: level_groups.simps(2) whole_groups_Suc)
  next
    case False
    let ?k = "whole_groups w g (want - min want 8) (drop w bs)"
    have s: "(if want < 8 then want else 8) = min want 8" by simp
    have v: "take (min want 8) (carquet_bitunpack8_32 ds bs w) = packed_values w bs (min want 8)"
      using False Suc.prems bitunpack8_32_spec by (simp add: take_packed_values)
    have "packed_values w bs (min want (8 * Suc ?k)) =
        packed_values w bs (min want 8) @ packed_values w (drop w bs) (min (want - min want 8) (8 * ?k))"
    proof (cases "want < 8")
      case True
      then show ?thesis by simp
    next
      case False
      then have "min want (8 * Suc ?k) = 8 + min (want - 8) (8 * ?k)" by simp
      then show ?thesis using False packed_values_split [of 8 w bs] by simp
    qed
    then show ?thesis
      using False Suc.IH [OF Suc.prems, of "want - min want 8" "drop w bs"] v
      by (simp add: level_groups.simps(2) whole_groups_Suc s add.commute Let_def)
  qed
qed simp

lemma level_bulk_spec:
  "w \<le> 32 \<Longrightarrow> n * w \<le> length bs \<Longrightarrow>
   level_bulk ds w (n * 8) bs = (map ucast (packed_values w bs (n * 8)), drop (n * w) bs)"
proof (induction n arbitrary: bs rule: less_induct)
  case (less n)
  show ?case
  proof (cases "n = 0")
    case False
    define k where "k = min n 32"
    have k: "0 < k" "k \<le> n" "n - k < n" "(if 256 < n * 8 then 256 else n * 8) = k * 8"
      using False by (auto simp: k_def)
    have size: "carquet_packed_size (k * 8) w = k * w" by (simp add: carquet_packed_size_def)
    have kw: "k * w \<le> n * w" using k(2) by (rule mult_le_mono1)
    then have "k * w \<le> length bs" using less.prems(2) by linarith
    then have u: "carquet_bitunpack_32 ds bs (k * 8) w = (packed_values w bs (k * 8), k * w)"
      using bitunpack_32_spec [of w "k * 8" bs] less.prems(1) size by simp
    have "(n - k) * w \<le> length (drop (k * w) bs)"
      using less.prems(2) by (simp add: diff_mult_distrib)
    then have r: "level_bulk ds w ((n - k) * 8) (drop (k * w) bs) =
        (map ucast (packed_values w (drop (k * w) bs) ((n - k) * 8)), drop ((n - k) * w) (drop (k * w) bs))"
      using less.IH [OF k(3) less.prems(1)] by blast
    have left: "n * 8 - k * 8 = (n - k) * 8" "n * 8 = k * 8 + (n - k) * 8" "(n - k) * w + k * w = n * w"
      using k(2) kw by (simp_all add: diff_mult_distrib)
    have "k * 8 * w div 8 = k * w" by simp
    then have v: "packed_values w bs (n * 8) =
        packed_values w bs (k * 8) @ packed_values w (drop (k * w) bs) ((n - k) * 8)"
      using packed_values_split [of "k * 8" w bs "(n - k) * 8"] unfolding left(2) by simp
    have "level_bulk ds w (n * 8) bs =
        (map ucast (packed_values w bs (k * 8)) @
         map ucast (packed_values w (drop (k * w) bs) ((n - k) * 8)), drop ((n - k) * w) (drop (k * w) bs))"
      using False by (subst level_bulk.simps) (simp only: Let_def k(4) u left(1) prod.case r, simp)
    then show ?thesis unfolding v by (simp add: left(3))
  qed (simp add: level_bulk.simps)
qed

lemma packed_levels_spec:
  assumes "w \<le> 32"
  shows "packed_levels ds w g want bs =
     (map ucast (packed_values w bs (min want (8 * whole_groups w g want bs))),
      drop (whole_groups w g want bs * w) bs)"
proof (cases "1 \<le> w \<and> g \<le> length bs div w \<and> g * 8 \<le> want")
  case True
  then have g: "whole_groups w g want bs = g" by (auto simp: whole_groups_def)
  have "g * w \<le> length bs" using whole_groups_fits [of w g want bs] g by simp
  then show ?thesis
    using True level_bulk_spec [OF assms] g by (auto simp: packed_levels_def mult.commute)
next
  case False
  then show ?thesis using level_groups_spec [OF assms] by (simp only: packed_levels_def if_False)
qed


lemma rle_read_value_word:
  assumes "w \<le> 32" "(w + 7) div 8 \<le> length rest"
  shows "rle_read_value ((w + 7) div 8) rest 0 0 0 AND
      (if 32 \<le> w then NOT 0 else push_bit w 1 - 1) = rle_word w rest"
proof -
  have "(if 32 \<le> w then NOT 0 else push_bit w 1 - 1) = (mask w :: u32)"
    using assms(1) by (auto simp: mask_eq_exp_minus_1 push_bit_eq_mult)
  then show ?thesis using assms by (simp add: rle_read_value_load rle_word_def)
qed

lemma level_runs_spec:
  "w \<le> 32 \<Longrightarrow> level_runs ds w want bs = map ucast (level_values w want bs)"
proof (induction w want bs rule: level_values.induct)
  case (1 w want bs)
  show ?case
  proof (cases "want = 0 \<or> bs = []")
    case True
    then show ?thesis by (auto simp: level_runs.simps [of ds w] level_values.simps [of w])
  next
    case False
    obtain h rest where h: "level_header 0 0 bs = (h, rest)" by fastforce
    let ?run = "unat (drop_bit 1 h)" and ?vb = "(w + 7) div 8"
    note IH = "1.IH" [OF False h [symmetric] refl refl]
    consider (empty) "?run = 0" | (rle) "h AND 1 = 0" "?run \<noteq> 0" | (packed) "h AND 1 \<noteq> 0" "?run \<noteq> 0"
      by blast
    then show ?thesis
    proof cases
      case empty
      then show ?thesis
        using False IH(1) "1.prems" IH(3) [OF _ refl]
        by (cases "h AND 1 = 0") (auto simp: level_runs.simps [of ds w want] level_values.simps [of w want] h)
    next
      case rle
      have m: "(if want < ?run then want else ?run) = min want ?run" by simp
      show ?thesis
        using False rle IH(2) "1.prems" rle_read_value_word [of w rest]
        by (auto simp: level_runs.simps [of ds w want] level_values.simps [of w want] h Let_def m)
    next
      case packed
      then show ?thesis
        using False IH(3) [OF _ refl] "1.prems" packed_levels_spec [of w ?run want rest]
        by (auto simp: level_runs.simps [of ds w want] level_values.simps [of w want] h Let_def)
    qed
  qed
qed

end


text \<open>
  Streams without errors: every header ends within five bytes and every run is present
  in full. On these the inline reading is the format.
\<close>

function rle_complete :: "nat \<Rightarrow> bytes \<Rightarrow> bool" where
  "rle_complete w bs =
     (bs = [] \<or>
      (case varint_scan 5 0 0 bs of
         None \<Rightarrow> False
       | Some (header :: u32, rest) \<Rightarrow>
           let n = unat (drop_bit 1 header); size = (if header AND 1 = 0
             then if n = 0 then 0 else (w + 7) div 8 else n * w)
           in size \<le> length rest \<and> rle_complete w (drop size rest)))"
  by pat_completeness auto
termination
  by (relation "measure (\<lambda>(w, bs). length bs)") (auto dest!: varint_scan_length_less)

declare rle_complete.simps [simp del]

lemma level_header_scan:
  "varint_scan n shift acc bs = Some (h, rest) \<Longrightarrow> shift + 7 * n \<le> 38 \<Longrightarrow>
   level_header shift acc bs = (h, rest)"
  by (induction n shift acc bs rule: varint_scan.induct) (auto simp: Let_def split: if_splits)

lemma level_values_complete:
  "rle_complete w bs \<Longrightarrow> level_values w want bs = take want (rle_stream w bs)"
proof (induction w want bs rule: level_values.induct)
  case (1 w want bs)
  show ?case
  proof (cases "want = 0 \<or> bs = []")
    case True
    then show ?thesis by (auto simp: level_values.simps [of w])
  next
    case False
    then obtain h rest where s: "varint_scan 5 0 0 bs = Some (h :: u32, rest)"
      using "1.prems" by (subst (asm) rle_complete.simps) (auto split: option.splits)
    then have h: "level_header 0 0 bs = (h, rest)" using level_header_scan by fastforce
    let ?run = "unat (drop_bit 1 h)" and ?vb = "(w + 7) div 8"
    have c: "(if h AND 1 = 0 then if ?run = 0 then 0 else ?vb else ?run * w) \<le> length rest"
      "rle_complete w (drop (if h AND 1 = 0 then if ?run = 0 then 0 else ?vb else ?run * w) rest)"
      using "1.prems" False rle_complete.simps [of w bs] by (simp_all only: s Let_def option.case prod.case) simp_all
    note IH = "1.IH" [OF False h [symmetric] refl refl]
    show ?thesis
    proof (cases "h AND 1 = 0")
      case True
      then show ?thesis
        using False c IH(1,2) unfolding rle_stream_header [OF s]
        by (cases "?run = 0") (auto simp: level_values.simps [of w want] h Let_def min_def)
    next
      case packed: False
      let ?g = "whole_groups w ?run want rest"
      have "?run \<le> length rest div w" if "0 < w"
        using c(1) packed that by (simp add: less_eq_div_iff_mult_less_eq)
      then have g: "?g = min ?run ((want + 7) div 8)" by (auto simp: whole_groups_def)
      have "level_values w want bs =
          packed_values w rest (min want (8 * ?g)) @
          level_values w (want - min want (8 * ?g)) (drop (?g * w) rest)"
        using False packed by (simp add: level_values.simps [of w want] h Let_def)
      moreover have "take want (rle_stream w bs) =
          take want (packed_values w rest (8 * ?run) @ rle_stream w (drop (?run * w) rest))"
        using packed c(1) by (simp add: rle_stream_header [OF s] packed_tail_def groups_values_def Let_def)
      moreover have "packed_values w rest (min want (8 * ?g)) @
          level_values w (want - min want (8 * ?g)) (drop (?g * w) rest) =
          take want (packed_values w rest (8 * ?run) @ rle_stream w (drop (?run * w) rest))"
      proof (cases "8 * ?run \<le> want")
        case True
        then have "?g = ?run" using g by auto
        then show ?thesis
          using True IH(3) [OF packed refl] c(2) packed by simp
      next
        case large: False
        then have "want \<le> 8 * ?g" using g by auto
        then have "min want (8 * ?g) = want" by simp
        then show ?thesis
          using large by (simp add: level_values.simps [of w 0] take_packed_values)
      qed
      ultimately show ?thesis by simp
    qed
  qed
qed


section \<open>The bitmap\<close>

text \<open>Setting a sequence of bits from position \<open>idx\<close> on.\<close>

primrec mark_bits :: "nat \<Rightarrow> bool list \<Rightarrow> bytes \<Rightarrow> bytes" where
  "mark_bits idx [] bm = bm"
| "mark_bits idx (b # bs) bm =
     mark_bits (idx + 1) bs (if b then or_at bm (idx div 8) (push_bit (idx mod 8) 1) else bm)"

lemma mark_bits_append:
  "mark_bits idx (xs @ ys) bm = mark_bits (idx + length xs) ys (mark_bits idx xs bm)"
  by (induction xs arbitrary: idx bm) simp_all

lemma mark_bits_False: "mark_bits idx (replicate n False) bm = bm"
  by (induction n arbitrary: idx) simp_all

lemma length_mark_bits [simp]: "length (mark_bits idx bs bm) = length bm"
  by (induction bs arbitrary: idx bm) simp_all

lemma bitmap_fill_mark: "bitmap_fill n idx bm = mark_bits idx (replicate n True) bm"
  by (induction n arbitrary: idx bm) simp_all

lemma bitmap_byte_mark:
  "bitmap_byte n i b count (bm, nn) =
     (mark_bits (count + i) (map (bit b) [i..<i + n]) bm,
      nn + length (filter (bit b) [i..<i + n]))"
proof (induction n arbitrary: i bm nn)
  case (Suc n)
  have d: "drop_bit i b AND 1 = 1 \<longleftrightarrow> bit b i"
    by (simp add: and_one_eq bit_iff_odd_drop_bit odd_iff_mod_2_eq_one)
  have u: "[i..<Suc (i + n)] = i # [Suc i..<Suc (i + n)]" by (simp add: upt_conv_Cons)
  show ?case
    using Suc.IH [of "Suc i"] by (auto simp: d u simp del: upt_Suc)
qed simp

lemma packed_values_1: "packed_values 1 (b # bs) (min want 8) = map (\<lambda>i. of_bool (bit b i)) [0..<min want 8]"
  by (auto simp: packed_values_def packed_value_def packed_bit_def)

definition marked :: "nat \<Rightarrow> u32 list \<Rightarrow> bytes \<times> nat \<Rightarrow> bytes \<times> nat \<times> nat" where
  "marked count vs st = (mark_bits count (map (\<lambda>v. v = 1) vs) (fst st),
     snd st + length (filter (\<lambda>v. v = 1) vs), count + length vs)"

lemma marked_append:
  "marked count (xs @ ys) st =
     (case marked count xs st of (bm, nn, count') \<Rightarrow> marked count' ys (bm, nn))"
  by (simp add: marked_def mark_bits_append)

lemma bitmap_byte_marked:
  assumes "bitmap_byte (min want 8) 0 b count st = (bm, nn)"
  shows "(bm, nn, count + min want 8) = marked count (packed_values 1 (b # bs) (min want 8)) st"
  using assms
  by (cases st) (simp add: bitmap_byte_mark packed_values_1 marked_def comp_def filter_map del: One_nat_def)

lemma bitmap_groups_spec:
  "count \<le> m \<Longrightarrow> bitmap_groups g m (bm, nn, count) bs =
     (marked count (packed_values 1 bs (min (m - count) (8 * whole_groups 1 g (m - count) bs))) (bm, nn),
      drop (whole_groups 1 g (m - count) bs) bs)"
proof (induction g arbitrary: bm nn count bs)
  case 0
  then show ?case by (simp add: marked_def)
next
  case (Suc g)
  show ?case
  proof (cases "m = count \<or> bs = []")
    case True
    then show ?thesis by (auto simp: marked_def whole_groups_Suc split: list.split)
  next
    case False
    then obtain b bs' where bs: "bs = b # bs'" by (cases bs) auto
    let ?want = "m - count"
    let ?k = "whole_groups 1 g (?want - min ?want 8) bs'"
    have lt: "count < m" using False Suc.prems by simp
    have s: "(if m < count + 8 then m - count else 8) = min ?want 8" by auto
    obtain bm' nn' where b: "bitmap_byte (min ?want 8) 0 b count (bm, nn) = (bm', nn')" by fastforce
    have w: "m - (count + min ?want 8) = ?want - min ?want 8" by simp
    have v: "packed_values 1 bs (min ?want (8 * Suc ?k)) =
        packed_values 1 bs (min ?want 8) @ packed_values 1 bs' (min (?want - min ?want 8) (8 * ?k))"
    proof (cases "?want < 8")
      case True
      then show ?thesis by simp
    next
      case False
      then have "min ?want (8 * Suc ?k) = 8 + min (?want - 8) (8 * ?k)" by simp
      then show ?thesis using False packed_values_split [of 8 1 bs] bs by simp
    qed
    have "bitmap_groups (Suc g) m (bm, nn, count) bs =
        bitmap_groups g m (bm', nn', count + min ?want 8) bs'"
      using lt by (simp add: bs s b Let_def del: min_less_iff_conj)
    also have "\<dots> = (marked (count + min ?want 8)
          (packed_values 1 bs' (min (?want - min ?want 8) (8 * ?k))) (bm', nn'), drop ?k bs')"
      using Suc.IH [of "count + min ?want 8" bm' nn' bs'] lt by (simp only: w)
    also have "\<dots> = (marked count (packed_values 1 bs (min ?want (8 * Suc ?k))) (bm, nn), drop ?k bs')"
      by (simp only: v marked_append bitmap_byte_marked [OF b, of bs', folded bs, symmetric] prod.case)
    finally show ?thesis using lt by (simp add: whole_groups_Suc bs)
  qed
qed

lemma rle_word_1: "rle_word 1 (b # bs) = of_bool (bit b 0)"
proof (rule bit_word_eqI)
  fix n assume "n < LENGTH(32)"
  then show "bit (rle_word 1 (b # bs)) n = bit (of_bool (bit b 0) :: u32) n"
    by (cases n) (auto simp: rle_word_def bit_simps)
qed

lemma bitmap_runs_spec:
  "count \<le> m \<Longrightarrow> bitmap_runs m (bm, nn, count) bs = marked count (level_values 1 (m - count) bs) (bm, nn)"
proof (induction "length bs" arbitrary: bm nn count bs rule: less_induct)
  case less
  show ?case
  proof (cases "m = count \<or> bs = []")
    case True
    then show ?thesis by (auto simp: bitmap_runs.simps level_values.simps marked_def)
  next
    case False
    then have c: "count < m" "bs \<noteq> []" using less.prems by auto
    obtain h rest where h: "level_header 0 0 bs = (h, rest)" by fastforce
    have lt: "length rest < length bs" using level_header_progress [OF h c(2)] .
    let ?run = "unat (drop_bit 1 h)" and ?want = "m - count"
    consider (empty) "?run = 0" | (rle) "h AND 1 = 0" "?run \<noteq> 0" | (packed) "h AND 1 \<noteq> 0" "?run \<noteq> 0"
      by blast
    then show ?thesis
    proof cases
      case empty
      then show ?thesis
        using c less.hyps [OF lt less.prems]
        by (simp add: bitmap_runs.simps [of m _ bs] level_values.simps [of 1 _ bs] h Let_def del: One_nat_def)
    next
      case rle
      show ?thesis
      proof (cases rest)
        case Nil
        then show ?thesis
          using rle c by (simp add: bitmap_runs.simps [of m _ bs] level_values.simps [of 1 _ bs] h marked_def del: One_nat_def)
      next
        case (Cons b rest')
        define n where "n = min ?want ?run"
        have f: "(if m < count + ?run then m - count else ?run) = n" using c by (auto simp: n_def)
        have n: "n \<le> ?want" by (simp add: n_def)
        have lt': "length rest' < length bs" using lt Cons by simp
        have b1: "b AND 1 = 1 \<longleftrightarrow> bit b 0" by (simp add: and_one_eq bit_0 odd_iff_mod_2_eq_one)
        obtain bm' nn' where mk: "marked count (replicate n (rle_word 1 rest)) (bm, nn) = (bm', nn', count + n)"
          by (simp add: marked_def)
        have st: "(if b AND 1 = 1 then (bitmap_fill n count bm, nn + n, count + n) else (bm, nn, count + n))
            = (bm', nn', count + n)"
          unfolding mk [symmetric]
          by (simp add: Cons rle_word_1 b1 marked_def bitmap_fill_mark mark_bits_False filter_replicate
              del: One_nat_def)
        have "bitmap_runs m (bm, nn, count) bs = bitmap_runs m (bm', nn', count + n) rest'"
          unfolding st [symmetric]
          using rle c by (simp add: bitmap_runs.simps [of m _ bs] h Cons f Let_def del: One_nat_def)
        also have "\<dots> = marked (count + n) (level_values 1 (?want - n) rest') (bm', nn')"
          using less.hyps [OF lt', of "count + n" bm' nn'] c n by simp
        also have "\<dots> = marked count (replicate n (rle_word 1 rest) @ level_values 1 (?want - n) rest') (bm, nn)"
          by (simp only: marked_append mk prod.case)
        finally show ?thesis
          using rle c by (simp add: level_values.simps [of 1 _ bs] h Let_def Cons n_def drop_Cons' del: One_nat_def)
      qed
    next
      case packed
      let ?g = "whole_groups 1 ?run ?want rest"
      let ?n = "min ?want (8 * ?g)"
      obtain bm' nn' where mk: "marked count (packed_values 1 rest ?n) (bm, nn) = (bm', nn', count + ?n)"
        by (simp add: marked_def)
      have "bitmap_runs m (bm, nn, count) bs = bitmap_runs m (bm', nn', count + ?n) (drop ?g rest)"
        using packed c bitmap_groups_spec [of count m ?run bm nn rest] mk
        by (simp add: bitmap_runs.simps [of m _ bs] h Let_def)
      also have "\<dots> = marked (count + ?n) (level_values 1 (?want - ?n) (drop ?g rest)) (bm', nn')"
        using less.hyps [of "drop ?g rest" "count + ?n"] lt c by simp
      also have "\<dots> = marked count (packed_values 1 rest ?n @ level_values 1 (?want - ?n) (drop ?g rest)) (bm, nn)"
        by (simp only: marked_append mk prod.case)
      finally show ?thesis
        using packed c by (simp add: level_values.simps [of 1 _ bs] h Let_def del: One_nat_def)
    qed
  qed
qed


lemma packed_bit_mark_bits:
  "idx + length bs \<le> 8 * length bm \<Longrightarrow>
   packed_bit (mark_bits idx bs bm) i \<longleftrightarrow>
     packed_bit bm i \<or> idx \<le> i \<and> i < idx + length bs \<and> bs ! (i - idx)"
proof (induction bs arbitrary: idx bm)
  case (Cons b bs)
  have k: "idx div 8 < length bm" using Cons.prems by auto
  have bit: "bit (push_bit (idx mod 8) 1 :: u8) (i mod 8) \<longleftrightarrow> i mod 8 = idx mod 8"
    by (auto simp: bit_exp_iff)
  have at: "i div 8 = idx div 8 \<and> i mod 8 = idx mod 8 \<longleftrightarrow> i = idx"
    by (metis div_mult_mod_eq)
  have "packed_bit (mark_bits idx (b # bs) bm) i \<longleftrightarrow>
      packed_bit bm i \<or> b \<and> i = idx \<or> idx + 1 \<le> i \<and> i < idx + 1 + length bs \<and> bs ! (i - (idx + 1))"
    using Cons.IH [of "idx + 1" "if b then or_at bm (idx div 8) (push_bit (idx mod 8) 1) else bm"]
      Cons.prems packed_bit_or_at [OF k, of "push_bit (idx mod 8) 1" i] bit at by auto
  also have "\<dots> \<longleftrightarrow> packed_bit bm i \<or> idx \<le> i \<and> i < idx + length (b # bs) \<and> (b # bs) ! (i - idx)"
    by (cases "i = idx") (auto simp: nth_Cons' le_Suc_eq)
  finally show ?case .
qed auto

lemma level_values_length: "length (level_values w want bs) \<le> want"
proof (induction w want bs rule: level_values.induct)
  case (1 w want bs)
  obtain h rest where h: "level_header 0 0 bs = (h, rest)" by fastforce
  have within: "length xs \<le> n - min n k \<Longrightarrow> min n k + length xs \<le> n" for xs :: "u32 list" and n k
    by simp
  show ?case
  proof (cases "want = 0 \<or> bs = []")
    case True
    then show ?thesis by (auto simp: level_values.simps [of w])
  next
    case False
    note IH = "1.IH" [OF False h [symmetric] refl refl]
    show ?thesis
      using False IH(1,2) IH(3) [OF _ refl] within [of _ want]
      by (auto simp: level_values.simps [of w want bs] h Let_def)
  qed
qed

lemma level_values_narrow:
  "v \<in> set (level_values w want bs) \<Longrightarrow> v AND mask w = v"
proof (induction w want bs rule: level_values.induct)
  case (1 w want bs)
  obtain h rest where h: "level_header 0 0 bs = (h, rest)" by fastforce
  have nz: "\<not> (want = 0 \<or> bs = [])"
  proof
    assume "want = 0 \<or> bs = []"
    then have "level_values w want bs = []" by (auto simp: level_values.simps [of w])
    then show False using "1.prems" by simp
  qed
  note IH = "1.IH" [OF nz h [symmetric] refl refl]
  have p: "v AND mask w = v" if "v \<in> set (packed_values w rest n)" for n
    using that by (auto simp: packed_values_def intro!: bit_word_eqI simp: bit_packed_value bit_simps)
  have r: "rle_word w rest AND mask w = rle_word w rest" by (simp add: rle_word_def and.assoc)
  show ?case
    using "1.prems" nz IH(1,2) IH(3) [OF _ refl] p r
    by (auto simp: level_values.simps [of w want bs] h Let_def split: if_splits)
qed

lemma narrow_1:
  fixes v :: u32
  shows "v AND mask 1 = v \<longleftrightarrow> v = 0 \<or> v = 1"
proof -
  have "v AND mask 1 = (if even v then 0 else 1)" by (simp add: and_one_eq mod2_eq_if)
  then show ?thesis by (metis and_zero_eq even_zero mask_1 odd_one)
qed

text \<open>
  The level decoder agrees with the format. On input whose runs are complete,
  \<^verbatim>\<open>carquet_rle_decode_levels\<close> returns the first \<open>max_values\<close> values of the stream,
  narrowed to 16 bits, whichever of its bulk, group and fill paths produced them.
\<close>

theorem rle_decode_levels_is_format:
  assumes "unpack_kernels ds" "0 \<le> bw" "bw \<le> 32" "rle_complete (nat bw) input"
  shows "carquet_rle_decode_levels ds input bw n = map ucast (take n (rle_stream (nat bw) input))"
  using assms(2,3) unpack_kernels.level_runs_spec [OF assms(1), of "nat bw" n input]
    level_values_complete [OF assms(4), of n]
  by (auto simp: carquet_rle_decode_levels_def level_values.simps)

theorem rle_decode_levels_is_format_witness:
  "rle_complete 3 [3, 0x88, 0xC6, 0xFA, 4, 5] \<and>
   carquet_rle_decode_levels scalar_dispatch [3, 0x88, 0xC6, 0xFA, 4, 5] 3 20 =
     map ucast (take 20 (rle_stream (nat 3) [3, 0x88, 0xC6, 0xFA, 4, 5]))"
proof -
  have c: "rle_complete 3 [3, 0x88, 0xC6, 0xFA, 4, 5]" by code_simp
  then show ?thesis
    using rle_decode_levels_is_format [OF scalar.unpack_kernels_axioms,
        of 3 "[3, 0x88, 0xC6, 0xFA, 4, 5]" 20] by simp
qed

text \<open>
  C3: the bitmap decoder agrees with the level decoder on every input, malformed input included.
  With a bitmap of at least the bytes the values need, \<^verbatim>\<open>carquet_rle_decode_to_bitmap\<close>
  decodes as many values as \<^verbatim>\<open>carquet_rle_decode_levels\<close> does at width 1, sets exactly the
  bits of the levels that are 1, and counts them.
\<close>

theorem rle_bitmap_equivalent:
  assumes "unpack_kernels ds" "levels = carquet_rle_decode_levels ds input 1 n" "0 < n" "input \<noteq> []"
    "(n + 7) div 8 \<le> length bitmap" "carquet_rle_decode_to_bitmap input bitmap n = (count, bitmap', nn)"
  shows "count = length levels \<and> nn = length (filter (\<lambda>l. l = 1) levels) \<and>
    length bitmap' = length bitmap \<and>
    (\<forall>i < n. packed_bit bitmap' i \<longleftrightarrow> i < length levels \<and> levels ! i = 1)"
proof -
  let ?vs = "level_values 1 n input"
  let ?z = "replicate ((n + 7) div 8) 0 @ drop ((n + 7) div 8) bitmap"
  have lv: "levels = map ucast ?vs"
    using assms(2-4) unpack_kernels.level_runs_spec [OF assms(1), of 1 n input]
    by (simp add: carquet_rle_decode_levels_def)
  have one: "(ucast v :: i16) = 1 \<longleftrightarrow> v = 1" if "v \<in> set ?vs" for v :: u32
    using level_values_narrow [OF that] unfolding narrow_1 by auto
  have r: "bitmap_runs n (?z, 0, 0) input = marked 0 ?vs (?z, 0)"
    using bitmap_runs_spec [of 0 n ?z 0 input] by simp
  then have res: "count = length ?vs" "bitmap' = mark_bits 0 (map (\<lambda>v. v = 1) ?vs) ?z"
      "nn = length (filter (\<lambda>v. v = 1) ?vs)"
    using assms(3,4,6) by (auto simp: carquet_rle_decode_to_bitmap_def marked_def Let_def)
  have z: "\<not> packed_bit ?z i" if "i < n" for i
    using that by (auto simp: packed_bit_def nth_append)
  have "length ?vs \<le> 8 * length ?z"
    using level_values_length [of 1 n input] assms(5) by auto
  then have "packed_bit bitmap' i \<longleftrightarrow> i < length levels \<and> levels ! i = 1" if "i < n" for i
    using packed_bit_mark_bits [of 0 "map (\<lambda>v. v = 1) ?vs" ?z i] z [OF that] one lv res(2) by auto
  moreover have "nn = length (filter (\<lambda>l. l = 1) levels)"
    unfolding res(3) lv using one by (simp add: filter_map comp_def cong: filter_cong)
  ultimately show ?thesis using res lv assms(5) by simp
qed


theorem rle_bitmap_equivalent_witness:
  "carquet_rle_decode_to_bitmap [3, 0x8D, 6, 1] [0xFF, 0xFF] 10 = (10, [0x8D, 3], 6) \<and>
   packed_bit [0x8D, 3] 9"
proof -
  have r: "carquet_rle_decode_to_bitmap [3, 0x8D, 6, 1] [0xFF, 0xFF] 10 = (10, [0x8D, 3], 6)" by code_simp
  have l: "carquet_rle_decode_levels scalar_dispatch [3, 0x8D, 6, 1] 1 10 = [1, 0, 1, 1, 0, 0, 0, 1, 1, 1]"
    by code_simp
  show ?thesis
    using rle_bitmap_equivalent [OF scalar.unpack_kernels_axioms refl _ _ _ r] r unfolding l by simp
qed

section \<open>Level round trip\<close>

lemma run_bytes_header:
  assumes "run_ok r" "w \<le> 32"
  obtains h body where "run_bytes w r = varint_bytes (h :: u32) @ body"
    "length body = (if h AND 1 = 0 then if unat (drop_bit 1 h) = 0 then 0 else (w + 7) div 8
       else unat (drop_bit 1 h) * w)"
proof (cases r)
  case (Repeated n v)
  then show thesis
    using that [of "word_of_nat (n * 2)"] header_even [of n] assms le_load_write_value(1) [of w v]
    by (auto simp: rle_value_bytes_def)
next
  case (Group vs)
  have h: "(3 :: u32) AND 1 \<noteq> 0" "unat (drop_bit 1 (3 :: u32)) = 1" by code_simp+
  show thesis
    using that [of 3 "carquet_bitpack8_32 vs w"] h bitpack8_32_spec [OF assms(2), of vs] assms(1) Group
    by simp
qed

lemma rle_complete_runs: "runs_ok rs \<Longrightarrow> w \<le> 32 \<Longrightarrow> rle_complete w (runs_bytes w rs)"
proof (induction rs)
  case Nil
  then show ?case by (simp add: rle_complete.simps)
next
  case (Cons r rs)
  then obtain h body where h: "run_bytes w r = varint_bytes (h :: u32) @ body"
    "length body = (if h AND 1 = 0 then if unat (drop_bit 1 h) = 0 then 0 else (w + 7) div 8
       else unat (drop_bit 1 h) * w)"
    using run_bytes_header [of r w] by auto
  have "rle_complete w (varint_bytes h @ body @ runs_bytes w rs)"
    using Cons h(2)
    by (subst rle_complete.simps) (simp only: varint_scan_header option.case prod.case Let_def flip: h(2), simp)
  then show ?case by (simp add: h(1))
qed

text \<open>
  C36: level round trip. Levels that fit the bit width (at most 15 bits, so none is
  negative) written with \<^verbatim>\<open>carquet_rle_encode_levels\<close> are read back by
  \<^verbatim>\<open>carquet_rle_decode_levels\<close>, and behind a 4-byte length prefix by
  \<^verbatim>\<open>carquet_rle_decode_levels_prefixed\<close>, which also reports the bytes it used.
\<close>

theorem rle_levels_roundtrip:
  assumes "unpack_kernels ds" "\<forall>n. alloc_grants al n" "buffer_wf out" "buf_owns_data out"
    "w \<le> 15" "length levels < 2 ^ 28" "length (buffer_contents out) + 9 * length levels < 2 ^ 64"
    "\<forall>l \<in> set levels. l AND mask w = l"
  shows "\<exists>bs. snd (carquet_rle_encode_levels al levels w out) = CARQUET_OK \<and>
    buffer_contents (fst (carquet_rle_encode_levels al levels w out)) = buffer_contents out @ bs \<and>
    carquet_rle_decode_levels ds bs (int w) (length levels) = levels \<and>
    carquet_rle_decode_levels_prefixed ds (carquet_write_u32_le (word_of_nat (length bs)) @ bs @ rest)
      (int w) (length levels) = Levels levels (4 + length bs)"
proof -
  let ?in = "map scast levels :: u32 list"
  have len: "length ?in < 2 ^ 31" "length (buffer_contents out) + 9 * length ?in < 2 ^ 64" "w \<le> 32"
    using assms(5-7) by auto
  obtain bs rs where bs: "snd (carquet_rle_encode_all al ?in w out) = CARQUET_OK"
      "buffer_contents (fst (carquet_rle_encode_all al ?in w out)) = buffer_contents out @ bs"
      "length bs \<le> 9 * length ?in" "rle_stream w bs = map (\<lambda>v. v AND mask w) ?in"
      "runs_ok rs" "bs = runs_bytes w rs"
    using encode_all_runs [OF assms(2-4) len(3,1,2)] by blast
  have narrow: "(ucast ((scast l :: u32) AND mask w) :: i16) = l" if "l \<in> set levels" for l
  proof -
    have "(ucast ((scast l :: u32) AND mask w) :: i16) = l AND mask w"
      using assms(5) by (intro bit_word_eqI) (auto simp: bit_simps)
    then show ?thesis using assms(8) that by simp
  qed
  have dec: "carquet_rle_decode_levels ds bs (int w) (length levels) = levels"
  proof -
    have "level_runs ds w (length levels) bs = map ucast (map (\<lambda>v. v AND mask w) ?in)"
      using unpack_kernels.level_runs_spec [OF assms(1) len(3), of "length levels" bs] bs(4-6)
        level_values_complete [OF rle_complete_runs [OF _ len(3)], of rs "length levels"] by simp
    also have "\<dots> = levels" using narrow by (simp add: map_idI comp_def)
    finally show ?thesis
      using len(3) bs(4) by (auto simp: carquet_rle_decode_levels_def)
  qed
  have "length bs < 2 ^ 32 - 4" using bs(3) assms(6) by simp
  then have u: "unat (word_of_nat (length bs) :: u32) = length bs"
    "unat (4 + word_of_nat (length bs) :: u32) = 4 + length bs"
    by (simp_all add: unat_word_ariths unat_of_nat)
  have "carquet_read_u32_le (carquet_write_u32_le (word_of_nat (length bs)) @ bs @ rest) =
      word_of_nat (length bs)" "length (carquet_write_u32_le (word_of_nat (length bs))) = 4"
    by (simp_all add: byte_simps)
  then have "carquet_rle_decode_levels_prefixed ds (carquet_write_u32_le (word_of_nat (length bs)) @ bs @ rest)
      (int w) (length levels) = Levels levels (4 + length bs)"
    using dec by (simp add: carquet_rle_decode_levels_prefixed_def Let_def u)
  then show ?thesis using bs(1,2) dec unfolding carquet_rle_encode_levels_def by blast
qed


theorem rle_levels_roundtrip_witness:
  "\<exists>bs. snd (carquet_rle_encode_levels generous [1, 0, 2, 2] 2 carquet_buffer_init) = CARQUET_OK \<and>
    buffer_contents (fst (carquet_rle_encode_levels generous [1, 0, 2, 2] 2 carquet_buffer_init)) =
      buffer_contents carquet_buffer_init @ bs \<and>
    carquet_rle_decode_levels scalar_dispatch bs (int 2) (length [1, 0, 2, 2 :: i16]) = [1, 0, 2, 2] \<and>
    carquet_rle_decode_levels_prefixed scalar_dispatch (carquet_write_u32_le (word_of_nat (length bs)) @ bs @ [9])
      (int 2) (length [1, 0, 2, 2 :: i16]) = Levels [1, 0, 2, 2] (4 + length bs)"
  by (rule rle_levels_roundtrip [OF scalar.unpack_kernels_axioms])
    (simp_all add: generous_def carquet_buffer_init_def buffer_wf_def buffer_contents_def mask_eq_exp_minus_1)

text \<open>
  C37: the prefix check wraps. \<^verbatim>\<open>carquet_rle_decode_levels_prefixed\<close> compares a 32-bit sum
  with the input size, so exactly the prefixes from \<^verbatim>\<open>0xFFFFFFFC\<close> on pass
  the check and send the level decoder past the end of the input; every other prefix is
  checked as intended.
\<close>

theorem rle_prefix_overrun:
  assumes "4 \<le> length input" "length input < 2 ^ 32 - 4"
  shows "carquet_rle_decode_levels_prefixed ds input bw n = Overrun \<longleftrightarrow>
    0xFFFFFFFC \<le> carquet_read_u32_le input"
proof -
  let ?len = "carquet_read_u32_le input"
  have lt: "unat ?len < 2 ^ 32" using unsigned_less [of ?len] by simp
  have le: "0xFFFFFFFC \<le> ?len \<longleftrightarrow> 2 ^ 32 - 4 \<le> unat ?len"
    by (simp add: word_le_nat_alt)
  have sum: "unat (4 + ?len) = (4 + unat ?len) mod 2 ^ 32" by (simp add: unat_word_ariths)
  show ?thesis
  proof (cases "2 ^ 32 - 4 \<le> unat ?len")
    case True
    then have "unat (4 + ?len) = unat ?len - (2 ^ 32 - 4)" using lt sum by (simp add: le_mod_geq)
    then show ?thesis
      using True lt le assms by (auto simp: carquet_rle_decode_levels_prefixed_def Let_def)
  next
    case False
    then have "unat (4 + ?len) = 4 + unat ?len" using sum by simp
    then show ?thesis
      using False le assms by (auto simp: carquet_rle_decode_levels_prefixed_def Let_def)
  qed
qed

theorem rle_prefix_overrun_witness:
  "carquet_rle_decode_levels_prefixed scalar_dispatch [0xFE, 0xFF, 0xFF, 0xFF, 2, 1] 1 8 = Overrun"
proof -
  have "0xFFFFFFFC \<le> carquet_read_u32_le [0xFE, 0xFF, 0xFF, 0xFF, 2, 1]" by code_simp
  then show ?thesis using rle_prefix_overrun [of "[0xFE, 0xFF, 0xFF, 0xFF, 2, 1]"] by simp
qed

end
