(* ===== verification/Kernels.thy ===== *)
theory Kernels
  imports Bitpack
begin

text \<open>
  The kernels behind \<^verbatim>\<open>simd/dispatch.c\<close>: the scalar fallbacks, the table of kernels
  and the public dispatch functions. An array argument is the list of its elements and an
  array written is the list after the call. The SIMD kernels that a processor may install
  are entries of the table; \<^verbatim>\<open>simd_kernels\<close> is what the callers rely on, and the table of
  scalar fallbacks is its interpretation. A float or double is its bit pattern.
\<close>

section \<open>Scalar fallbacks\<close>

subsection \<open>Prefix sums and gathers\<close>

primrec prefix_sum_loop :: "'a::len word \<Rightarrow> 'a word list \<Rightarrow> 'a word list" where
  "prefix_sum_loop acc [] = []"
| "prefix_sum_loop acc (v # vs) = (let acc' = acc + v in acc' # prefix_sum_loop acc' vs)"

definition scalar_prefix_sum_i32 :: "i32 list \<Rightarrow> i32 \<Rightarrow> i32 list" where
  "scalar_prefix_sum_i32 values initial = prefix_sum_loop initial values"

definition scalar_prefix_sum_i64 :: "i64 list \<Rightarrow> i64 \<Rightarrow> i64 list" where
  "scalar_prefix_sum_i64 values initial = prefix_sum_loop initial values"

primrec gather_loop :: "'a list \<Rightarrow> u32 list \<Rightarrow> 'a list" where
  "gather_loop dict [] = []"
| "gather_loop dict (i # is) = dict ! unat i # gather_loop dict is"

definition scalar_gather_i32 :: "i32 list \<Rightarrow> u32 list \<Rightarrow> i32 list" where
  "scalar_gather_i32 dict indices = gather_loop dict indices"

definition scalar_gather_i64 :: "i64 list \<Rightarrow> u32 list \<Rightarrow> i64 list" where
  "scalar_gather_i64 dict indices = gather_loop dict indices"

definition scalar_gather_float :: "u32 list \<Rightarrow> u32 list \<Rightarrow> u32 list" where
  "scalar_gather_float dict indices = gather_loop dict indices"

definition scalar_gather_double :: "u64 list \<Rightarrow> u32 list \<Rightarrow> u64 list" where
  "scalar_gather_double dict indices = gather_loop dict indices"

text \<open>The result, and the elements stored before the loop ended.\<close>

primrec checked_gather_loop :: "'a list \<Rightarrow> u32 \<Rightarrow> u32 list \<Rightarrow> bool \<times> 'a list" where
  "checked_gather_loop dict limit [] = (True, [])"
| "checked_gather_loop dict limit (i # is) =
     (if limit \<le> i then (False, [])
      else case checked_gather_loop dict limit is of (ok, out) \<Rightarrow> (ok, dict ! unat i # out))"

definition scalar_checked_gather_i32 :: "i32 list \<Rightarrow> i32 \<Rightarrow> u32 list \<Rightarrow> bool \<times> i32 list" where
  "scalar_checked_gather_i32 dict dict_count indices = checked_gather_loop dict dict_count indices"

definition scalar_checked_gather_i64 :: "i64 list \<Rightarrow> i32 \<Rightarrow> u32 list \<Rightarrow> bool \<times> i64 list" where
  "scalar_checked_gather_i64 dict dict_count indices = checked_gather_loop dict dict_count indices"

definition scalar_checked_gather_float :: "u32 list \<Rightarrow> i32 \<Rightarrow> u32 list \<Rightarrow> bool \<times> u32 list" where
  "scalar_checked_gather_float dict dict_count indices =
     scalar_checked_gather_i32 dict dict_count indices"

definition scalar_checked_gather_double :: "u64 list \<Rightarrow> i32 \<Rightarrow> u32 list \<Rightarrow> bool \<times> u64 list" where
  "scalar_checked_gather_double dict dict_count indices =
     scalar_checked_gather_i64 dict dict_count indices"

primrec validate_loop :: "u32 \<Rightarrow> u32 list \<Rightarrow> bool" where
  "validate_loop limit [] = True"
| "validate_loop limit (i # is) = (if limit \<le> i then False else validate_loop limit is)"

definition validate_gather_indices :: "u32 list \<Rightarrow> i32 \<Rightarrow> bool" where
  "validate_gather_indices indices dict_count = validate_loop dict_count indices"

subsection \<open>Byte streams\<close>

text \<open>
  The two nested transposition loops, with the number of bytes per value as
  a parameter; \<open>out\<close> is the output array before the call.
\<close>

definition byte_split_encode :: "nat \<Rightarrow> bytes \<Rightarrow> nat \<Rightarrow> bytes \<Rightarrow> bytes" where
  "byte_split_encode width src count out =
     fold (\<lambda>i out. fold (\<lambda>b out. out[b * count + i := src ! (i * width + b)]) [0..<width] out)
       [0..<count] out"

definition byte_split_decode :: "nat \<Rightarrow> bytes \<Rightarrow> nat \<Rightarrow> bytes \<Rightarrow> bytes" where
  "byte_split_decode width data count dst =
     fold (\<lambda>i dst. fold (\<lambda>b dst. dst[i * width + b := data ! (b * count + i)]) [0..<width] dst)
       [0..<count] dst"

definition scalar_byte_split_encode_float :: "bytes \<Rightarrow> nat \<Rightarrow> bytes \<Rightarrow> bytes" where
  "scalar_byte_split_encode_float values count out = byte_split_encode 4 values count out"

definition scalar_byte_split_decode_float :: "bytes \<Rightarrow> nat \<Rightarrow> bytes \<Rightarrow> bytes" where
  "scalar_byte_split_decode_float data count values = byte_split_decode 4 data count values"

definition scalar_byte_split_encode_double :: "bytes \<Rightarrow> nat \<Rightarrow> bytes \<Rightarrow> bytes" where
  "scalar_byte_split_encode_double values count out = byte_split_encode 8 values count out"

definition scalar_byte_split_decode_double :: "bytes \<Rightarrow> nat \<Rightarrow> bytes \<Rightarrow> bytes" where
  "scalar_byte_split_decode_double data count values = byte_split_decode 8 data count values"

subsection \<open>Booleans\<close>

text \<open>
  The byte index is narrowed to \<^verbatim>\<open>int\<close>: from the element \<open>2 ^ 34\<close> on it is negative. A
  negative index is outside the array, like one behind its end, and what it reads is
  unspecified.
\<close>

definition byte_at :: "bytes \<Rightarrow> i32 \<Rightarrow> u8" where
  "byte_at input idx = (if sint idx < 0 then input ! length input else input ! unat idx)"

definition scalar_unpack_bools :: "bytes \<Rightarrow> nat \<Rightarrow> bytes" where
  "scalar_unpack_bools input count =
     map (\<lambda>i. let byte_idx = word_of_nat (i div 8) :: i32; bit_idx = word_of_nat (i mod 8) :: i32 in
       drop_bit (unat bit_idx) (byte_at input byte_idx) AND 1) [0..<count]"

primrec pack_bools_byte :: "nat \<Rightarrow> u8 \<Rightarrow> bytes \<Rightarrow> u8" where
  "pack_bools_byte j byte [] = byte"
| "pack_bools_byte j byte (x # xs) =
     pack_bools_byte (j + 1) (if x \<noteq> 0 then byte OR push_bit j 1 else byte) xs"

function scalar_pack_bools :: "bytes \<Rightarrow> bytes" where
  "scalar_pack_bools input =
     (if input = [] then []
      else pack_bools_byte 0 0 (take 8 input) # scalar_pack_bools (drop 8 input))"
  by pat_completeness auto
termination
  by (relation "measure length") auto

declare scalar_pack_bools.simps [simp del]

subsection \<open>Runs and matches\<close>

primrec run_length_loop :: "'a \<Rightarrow> nat \<Rightarrow> 'a list \<Rightarrow> nat" where
  "run_length_loop first i [] = i"
| "run_length_loop first i (v # vs) = (if v \<noteq> first then i else run_length_loop first (i + 1) vs)"

definition scalar_find_run_length_i32 :: "i32 list \<Rightarrow> nat" where
  "scalar_find_run_length_i32 values =
     (case values of [] \<Rightarrow> 0 | first # rest \<Rightarrow> run_length_loop first 1 rest)"

text \<open>
  Copies inside one array: \<open>blit n src dst mem\<close> is \<^verbatim>\<open>memcpy\<close> of \<open>n\<close> bytes through a
  temporary; \<open>byte_copy\<close> is the byte loop, whose reads see its own writes.
\<close>

definition blit :: "nat \<Rightarrow> nat \<Rightarrow> nat \<Rightarrow> bytes \<Rightarrow> bytes" where
  "blit n src dst mem = take dst mem @ take n (drop src mem) @ drop (dst + n) mem"

primrec byte_copy :: "nat \<Rightarrow> nat \<Rightarrow> nat \<Rightarrow> bytes \<Rightarrow> bytes" where
  "byte_copy 0 src dst mem = mem"
| "byte_copy (Suc n) src dst mem = byte_copy n (src + 1) (dst + 1) (mem[dst := mem ! src])"

fun block_copy :: "nat \<Rightarrow> nat \<Rightarrow> nat \<Rightarrow> bytes \<Rightarrow> bytes" where
  "block_copy len src dst mem =
     (if 8 \<le> len then block_copy (len - 8) (src + 8) (dst + 8) (blit 8 src dst mem)
      else byte_copy len src dst mem)"

declare block_copy.simps [simp del]

definition scalar_match_copy :: "bytes \<Rightarrow> nat \<Rightarrow> nat \<Rightarrow> nat \<Rightarrow> nat \<Rightarrow> bytes" where
  "scalar_match_copy mem dst src len offset =
     (if 8 \<le> offset then block_copy len src dst mem else byte_copy len src dst mem)"

primrec match_length_loop :: "nat \<Rightarrow> bytes \<Rightarrow> nat \<Rightarrow> nat \<Rightarrow> nat" where
  "match_length_loop 0 mem p match = 0"
| "match_length_loop (Suc n) mem p match =
     (if mem ! p = mem ! match then Suc (match_length_loop n mem (p + 1) (match + 1)) else 0)"

definition scalar_match_length :: "bytes \<Rightarrow> nat \<Rightarrow> nat \<Rightarrow> nat \<Rightarrow> nat" where
  "scalar_match_length mem p match limit = match_length_loop (limit - p) mem p match"

subsection \<open>Definition levels\<close>

primrec count_loop :: "i16 \<Rightarrow> nat \<Rightarrow> i16 list \<Rightarrow> nat" where
  "count_loop max_def_level n [] = n"
| "count_loop max_def_level n (l # ls) =
     count_loop max_def_level (if l = max_def_level then n + 1 else n) ls"

definition scalar_count_non_nulls :: "i16 list \<Rightarrow> i16 \<Rightarrow> nat" where
  "scalar_count_non_nulls def_levels max_def_level = count_loop max_def_level 0 def_levels"

definition present_byte :: "i16 list \<Rightarrow> i16 \<Rightarrow> nat \<Rightarrow> u8" where
  "present_byte l m base =
     (if l ! (base + 0) = m then 0x01 else 0) OR (if l ! (base + 1) = m then 0x02 else 0) OR
     (if l ! (base + 2) = m then 0x04 else 0) OR (if l ! (base + 3) = m then 0x08 else 0) OR
     (if l ! (base + 4) = m then 0x10 else 0) OR (if l ! (base + 5) = m then 0x20 else 0) OR
     (if l ! (base + 6) = m then 0x40 else 0) OR (if l ! (base + 7) = m then 0x80 else 0)"

definition scalar_build_null_bitmap :: "i16 list \<Rightarrow> i16 \<Rightarrow> bytes \<Rightarrow> bytes" where
  "scalar_build_null_bitmap def_levels max_def_level null_bitmap =
     (let count = length def_levels; full_bytes = count div 8;
          bitmap1 = fold (\<lambda>b bm. bm[b := present_byte def_levels max_def_level (b * 8)])
                      [0..<full_bytes] null_bitmap
      in fold (\<lambda>j bm. if def_levels ! j = max_def_level
                      then or_at bm (j div 8) (push_bit (j mod 8) 1) else bm)
           [full_bytes * 8..<count] bitmap1)"

definition scalar_fill_def_levels :: "nat \<Rightarrow> i16 \<Rightarrow> i16 list" where
  "scalar_fill_def_levels count value = replicate count value"

subsection \<open>Minimum and maximum\<close>

primrec minmax_loop :: "('a \<Rightarrow> 'a \<Rightarrow> bool) \<Rightarrow> 'a \<times> 'a \<Rightarrow> 'a list \<Rightarrow> 'a \<times> 'a" where
  "minmax_loop lt mm [] = mm"
| "minmax_loop lt mm (v # vs) =
     (case mm of (mn, mx) \<Rightarrow>
        minmax_loop lt (if lt v mn then v else mn, if lt mx v then v else mx) vs)"

text \<open>
  The C comparisons. A NaN, a magnitude above that of infinity, compares
  false with everything; the other patterns are ordered by sign and magnitude, so the two
  zeros are equal.
\<close>

definition int_less :: "'a::len word \<Rightarrow> 'a word \<Rightarrow> bool" where
  "int_less a b = (sint a < sint b)"

definition float_mag :: "'a::len word \<Rightarrow> 'a word" where
  "float_mag w = w AND mask (LENGTH('a) - 1)"

definition float_key :: "'a::len word \<Rightarrow> int" where
  "float_key w = (if bit w (LENGTH('a) - 1) then - uint (float_mag w) else uint (float_mag w))"

definition f32_isnan :: "u32 \<Rightarrow> bool" where
  "f32_isnan w = (0x7F800000 < float_mag w)"

definition f64_isnan :: "u64 \<Rightarrow> bool" where
  "f64_isnan w = (0x7FF0000000000000 < float_mag w)"

definition f32_less :: "u32 \<Rightarrow> u32 \<Rightarrow> bool" where
  "f32_less a b = (\<not> f32_isnan a \<and> \<not> f32_isnan b \<and> float_key a < float_key b)"

definition f64_less :: "u64 \<Rightarrow> u64 \<Rightarrow> bool" where
  "f64_less a b = (\<not> f64_isnan a \<and> \<not> f64_isnan b \<and> float_key a < float_key b)"

definition scalar_minmax_i32 :: "i32 list \<Rightarrow> i32 \<times> i32" where
  "scalar_minmax_i32 values = minmax_loop int_less (hd values, hd values) (tl values)"

definition scalar_minmax_i64 :: "i64 list \<Rightarrow> i64 \<times> i64" where
  "scalar_minmax_i64 values = minmax_loop int_less (hd values, hd values) (tl values)"

definition scalar_minmax_float :: "u32 list \<Rightarrow> u32 \<times> u32" where
  "scalar_minmax_float values = minmax_loop f32_less (hd values, hd values) (tl values)"

definition scalar_minmax_double :: "u64 list \<Rightarrow> u64 \<times> u64" where
  "scalar_minmax_double values = minmax_loop f64_less (hd values, hd values) (tl values)"

definition scalar_copy_minmax_i32 :: "i32 list \<Rightarrow> i32 list \<times> i32 \<times> i32" where
  "scalar_copy_minmax_i32 values = (values, scalar_minmax_i32 values)"

definition scalar_copy_minmax_i64 :: "i64 list \<Rightarrow> i64 list \<times> i64 \<times> i64" where
  "scalar_copy_minmax_i64 values = (values, scalar_minmax_i64 values)"

definition scalar_copy_minmax_float :: "u32 list \<Rightarrow> u32 list \<times> u32 \<times> u32" where
  "scalar_copy_minmax_float values = (values, scalar_minmax_float values)"

definition scalar_copy_minmax_double :: "u64 list \<Rightarrow> u64 list \<times> u64 \<times> u64" where
  "scalar_copy_minmax_double values = (values, scalar_minmax_double values)"


section \<open>The table and the public functions\<close>

record carquet_simd_dispatch =
  prefix_sum_i32 :: "i32 list \<Rightarrow> i32 \<Rightarrow> i32 list"
  prefix_sum_i64 :: "i64 list \<Rightarrow> i64 \<Rightarrow> i64 list"
  gather_i32 :: "i32 list \<Rightarrow> u32 list \<Rightarrow> i32 list"
  gather_i64 :: "i64 list \<Rightarrow> u32 list \<Rightarrow> i64 list"
  gather_float :: "u32 list \<Rightarrow> u32 list \<Rightarrow> u32 list"
  gather_double :: "u64 list \<Rightarrow> u32 list \<Rightarrow> u64 list"
  byte_split_encode_float :: "bytes \<Rightarrow> nat \<Rightarrow> bytes \<Rightarrow> bytes"
  byte_split_decode_float :: "bytes \<Rightarrow> nat \<Rightarrow> bytes \<Rightarrow> bytes"
  byte_split_encode_double :: "bytes \<Rightarrow> nat \<Rightarrow> bytes \<Rightarrow> bytes"
  byte_split_decode_double :: "bytes \<Rightarrow> nat \<Rightarrow> bytes \<Rightarrow> bytes"
  unpack_bools :: "bytes \<Rightarrow> nat \<Rightarrow> bytes"
  pack_bools :: "bytes \<Rightarrow> bytes"
  find_run_length_i32 :: "i32 list \<Rightarrow> nat"
  match_copy :: "bytes \<Rightarrow> nat \<Rightarrow> nat \<Rightarrow> nat \<Rightarrow> nat \<Rightarrow> bytes"
  match_length :: "bytes \<Rightarrow> nat \<Rightarrow> nat \<Rightarrow> nat \<Rightarrow> nat"
  count_non_nulls :: "i16 list \<Rightarrow> i16 \<Rightarrow> nat"
  build_null_bitmap :: "i16 list \<Rightarrow> i16 \<Rightarrow> bytes \<Rightarrow> bytes"
  fill_def_levels :: "nat \<Rightarrow> i16 \<Rightarrow> i16 list"
  minmax_i32 :: "i32 list \<Rightarrow> i32 \<times> i32"
  minmax_i64 :: "i64 list \<Rightarrow> i64 \<times> i64"
  minmax_float :: "u32 list \<Rightarrow> u32 \<times> u32"
  minmax_double :: "u64 list \<Rightarrow> u64 \<times> u64"

text \<open>The table that \<^verbatim>\<open>carquet_simd_dispatch_init\<close> starts from, before a processor feature replaces an entry.\<close>

definition scalar_simd :: carquet_simd_dispatch where
  "scalar_simd =
     \<lparr>prefix_sum_i32 = scalar_prefix_sum_i32, prefix_sum_i64 = scalar_prefix_sum_i64,
      gather_i32 = scalar_gather_i32, gather_i64 = scalar_gather_i64,
      gather_float = scalar_gather_float, gather_double = scalar_gather_double,
      byte_split_encode_float = scalar_byte_split_encode_float,
      byte_split_decode_float = scalar_byte_split_decode_float,
      byte_split_encode_double = scalar_byte_split_encode_double,
      byte_split_decode_double = scalar_byte_split_decode_double,
      unpack_bools = scalar_unpack_bools, pack_bools = scalar_pack_bools,
      find_run_length_i32 = scalar_find_run_length_i32,
      match_copy = scalar_match_copy, match_length = scalar_match_length,
      count_non_nulls = scalar_count_non_nulls, build_null_bitmap = scalar_build_null_bitmap,
      fill_def_levels = scalar_fill_def_levels,
      minmax_i32 = scalar_minmax_i32, minmax_i64 = scalar_minmax_i64,
      minmax_float = scalar_minmax_float, minmax_double = scalar_minmax_double\<rparr>"

text \<open>
  The checked gathers. An entry \<^verbatim>\<open>checked_gather\<close> is used on ARM only; everywhere else the
  indices are validated first. The result is \<^verbatim>\<open>false\<close> with nothing stored, or \<^verbatim>\<open>true\<close> with
  the elements.
\<close>

definition checked_gather :: "('a list \<Rightarrow> u32 list \<Rightarrow> 'a list) \<Rightarrow> 'a list \<Rightarrow> i32 \<Rightarrow> u32 list \<Rightarrow> bool \<times> 'a list" where
  "checked_gather gather dict dict_count indices =
     (if sint dict_count \<le> 0 then (indices = [], [])
      else if \<not> validate_gather_indices indices dict_count then (False, [])
      else (True, gather dict indices))"

definition carquet_dispatch_checked_gather_i32 ::
    "carquet_simd_dispatch \<Rightarrow> i32 list \<Rightarrow> i32 \<Rightarrow> u32 list \<Rightarrow> bool \<times> i32 list" where
  "carquet_dispatch_checked_gather_i32 t dict dict_count indices =
     checked_gather (gather_i32 t) dict dict_count indices"

definition carquet_dispatch_checked_gather_i64 ::
    "carquet_simd_dispatch \<Rightarrow> i64 list \<Rightarrow> i32 \<Rightarrow> u32 list \<Rightarrow> bool \<times> i64 list" where
  "carquet_dispatch_checked_gather_i64 t dict dict_count indices =
     checked_gather (gather_i64 t) dict dict_count indices"

definition carquet_dispatch_checked_gather_float ::
    "carquet_simd_dispatch \<Rightarrow> u32 list \<Rightarrow> i32 \<Rightarrow> u32 list \<Rightarrow> bool \<times> u32 list" where
  "carquet_dispatch_checked_gather_float t dict dict_count indices =
     checked_gather (gather_float t) dict dict_count indices"

definition carquet_dispatch_checked_gather_double ::
    "carquet_simd_dispatch \<Rightarrow> u64 list \<Rightarrow> i32 \<Rightarrow> u32 list \<Rightarrow> bool \<times> u64 list" where
  "carquet_dispatch_checked_gather_double t dict dict_count indices =
     checked_gather (gather_double t) dict dict_count indices"

text \<open>
  What callers rely on: an installed kernel does what the fallback does, on arguments
  within the arrays and, for floating-point extremes, without NaN.
\<close>

locale simd_kernels =
  fixes t :: carquet_simd_dispatch
  assumes prefix_sum_i32: "prefix_sum_i32 t v32 s32 = scalar_prefix_sum_i32 v32 s32"
    and prefix_sum_i64: "prefix_sum_i64 t v64 s64 = scalar_prefix_sum_i64 v64 s64"
    and gather_i32: "\<forall>i \<in> set is. unat i < length d32 \<Longrightarrow> gather_i32 t d32 is = scalar_gather_i32 d32 is"
    and gather_i64: "\<forall>i \<in> set is. unat i < length d64 \<Longrightarrow> gather_i64 t d64 is = scalar_gather_i64 d64 is"
    and gather_float: "\<forall>i \<in> set is. unat i < length f32 \<Longrightarrow> gather_float t f32 is = scalar_gather_float f32 is"
    and gather_double: "\<forall>i \<in> set is. unat i < length f64 \<Longrightarrow> gather_double t f64 is = scalar_gather_double f64 is"
    and encode_float: "4 * n \<le> length src \<Longrightarrow> 4 * n \<le> length dst \<Longrightarrow>
      byte_split_encode_float t src n dst = scalar_byte_split_encode_float src n dst"
    and decode_float: "4 * n \<le> length src \<Longrightarrow> 4 * n \<le> length dst \<Longrightarrow>
      byte_split_decode_float t src n dst = scalar_byte_split_decode_float src n dst"
    and encode_double: "8 * n \<le> length src \<Longrightarrow> 8 * n \<le> length dst \<Longrightarrow>
      byte_split_encode_double t src n dst = scalar_byte_split_encode_double src n dst"
    and decode_double: "8 * n \<le> length src \<Longrightarrow> 8 * n \<le> length dst \<Longrightarrow>
      byte_split_decode_double t src n dst = scalar_byte_split_decode_double src n dst"
    and unpack_bools: "n \<le> 8 * length src \<Longrightarrow> n \<le> 2 ^ 34 \<Longrightarrow> unpack_bools t src n = scalar_unpack_bools src n"
    and pack_bools: "pack_bools t src = scalar_pack_bools src"
    and find_run_length: "find_run_length_i32 t v32 = scalar_find_run_length_i32 v32"
    and match_copy: "0 < offset \<Longrightarrow> from + offset = to \<Longrightarrow> to + n \<le> length mem \<Longrightarrow>
      match_copy t mem to from n offset = scalar_match_copy mem to from n offset"
    and match_length: "to \<le> length mem \<Longrightarrow> from \<le> p \<Longrightarrow>
      match_length t mem p from to = scalar_match_length mem p from to"
    and count_non_nulls: "count_non_nulls t lv m = scalar_count_non_nulls lv m"
    and build_null_bitmap: "length lv \<le> 8 * length bm \<Longrightarrow>
      build_null_bitmap t lv m bm = scalar_build_null_bitmap lv m bm"
    and fill_def_levels: "fill_def_levels t n l = scalar_fill_def_levels n l"
    and minmax_i32: "v32 \<noteq> [] \<Longrightarrow> minmax_i32 t v32 = scalar_minmax_i32 v32"
    and minmax_i64: "v64 \<noteq> [] \<Longrightarrow> minmax_i64 t v64 = scalar_minmax_i64 v64"
    and minmax_float: "f32 \<noteq> [] \<Longrightarrow> \<forall>x \<in> set f32. \<not> f32_isnan x \<Longrightarrow> minmax_float t f32 = scalar_minmax_float f32"
    and minmax_double: "f64 \<noteq> [] \<Longrightarrow> \<forall>x \<in> set f64. \<not> f64_isnan x \<Longrightarrow> minmax_double t f64 = scalar_minmax_double f64"

interpretation scalar_table: simd_kernels scalar_simd
  by unfold_locales (simp_all add: scalar_simd_def)

section \<open>What the kernels compute\<close>

lemma length_prefix_sum_loop [simp]: "length (prefix_sum_loop s vs) = length vs"
  by (induction vs arbitrary: s) (simp_all add: Let_def)

lemma prefix_sum_loop_nth:
  "i < length vs \<Longrightarrow> prefix_sum_loop s vs ! i = s + sum_list (take (Suc i) vs)"
proof (induction vs arbitrary: s i)
  case (Cons v vs)
  then show ?case by (cases i) (simp_all add: Let_def add.assoc)
qed simp

primrec differences :: "'a::len word \<Rightarrow> 'a word list \<Rightarrow> 'a word list" where
  "differences prev [] = []"
| "differences prev (v # vs) = (v - prev) # differences v vs"

lemma prefix_sum_differences: "prefix_sum_loop s (differences s vs) = vs"
  by (induction vs arbitrary: s) (simp_all add: Let_def)

lemma length_differences [simp]: "length (differences s vs) = length vs"
  by (induction vs arbitrary: s) simp_all

lemma gather_loop_map: "gather_loop dict is = map (\<lambda>i. dict ! unat i) is"
  by (induction "is") simp_all

lemma validate_loop_iff: "validate_loop limit is \<longleftrightarrow> (\<forall>i \<in> set is. i < limit)"
  by (induction "is") (auto simp: not_le)

lemma nonneg_i32:
  fixes n :: i32
  assumes "0 \<le> sint n"
  shows "int (unat n) = sint n"
proof -
  have "uint n = sint n mod 2 ^ 32" using uint_sint [of n] by (simp add: take_bit_eq_mod)
  moreover have "sint n < 2 ^ 31" using sint_lt [of n] by simp
  ultimately show ?thesis using assms by simp
qed


lemma checked_gather_spec:
  assumes "sint n = int (length dict)"
    "\<And>is. \<forall>i \<in> set is. unat i < length dict \<Longrightarrow> gather dict is = map (\<lambda>i. dict ! unat i) is"
  shows "checked_gather gather dict n is =
    (if \<forall>i \<in> set is. unat i < length dict then (True, map (\<lambda>i. dict ! unat i) is) else (False, []))"
proof (cases "dict = []")
  case True
  then show ?thesis using assms(1) by (cases "is") (auto simp: checked_gather_def)
next
  case False
  then have "int (unat n) = int (length dict)" using assms(1) nonneg_i32 [of n] by (metis of_nat_0_le_iff)
  then have "unat n = length dict" by (simp only: of_nat_eq_iff)
  then have "i < n \<longleftrightarrow> unat i < length dict" for i by (simp add: word_less_nat_alt)
  then show ?thesis
    using False assms by (simp add: checked_gather_def validate_gather_indices_def validate_loop_iff)
qed

text \<open>
  A checked gather never reads outside the dictionary. Whichever kernel is installed,
  it succeeds exactly when every index is below the number of entries, and then returns
  the entries; an empty dictionary admits only the empty index list.
\<close>

theorem checked_gather_in_bounds:
  assumes "simd_kernels t" "sint n = int (length dict)"
  shows "carquet_dispatch_checked_gather_i32 t dict n is =
    (if \<forall>i \<in> set is. unat i < length dict then (True, map (\<lambda>i. dict ! unat i) is) else (False, []))"
  unfolding carquet_dispatch_checked_gather_i32_def
  using simd_kernels.gather_i32 [OF assms(1)]
  by (intro checked_gather_spec [OF assms(2)]) (simp add: scalar_gather_i32_def gather_loop_map)

theorem checked_gather_in_bounds_witness:
  "carquet_dispatch_checked_gather_i32 scalar_simd [10, 20, 30] 3 [2, 0] = (True, [30, 10]) \<and>
   carquet_dispatch_checked_gather_i32 scalar_simd [10, 20, 30] 3 [2, 3] = (False, [])"
proof -
  have n: "sint (3 :: i32) = int (length [10, 20, 30 :: i32])" by simp
  show ?thesis
    using checked_gather_in_bounds [OF scalar_table.simd_kernels_axioms n, of "[2, 0]"]
      checked_gather_in_bounds [OF scalar_table.simd_kernels_axioms n, of "[2, 3]"] by simp
qed

subsection \<open>Booleans\<close>

lemma bit_pack_bools_byte:
  "bit (pack_bools_byte j byte xs) i \<longleftrightarrow> bit byte i \<or> j \<le> i \<and> i < j + length xs \<and> i < 8 \<and> xs ! (i - j) \<noteq> 0"
proof (induction xs arbitrary: j byte)
  case (Cons x xs)
  have "bit (pack_bools_byte j byte (x # xs)) i \<longleftrightarrow>
      bit byte i \<or> (x \<noteq> 0 \<and> i = j \<and> i < 8) \<or> Suc j \<le> i \<and> i < Suc j + length xs \<and> i < 8 \<and> xs ! (i - Suc j) \<noteq> 0"
    using Cons.IH [of "j + 1"] by (auto simp: bit_or_iff bit_exp_iff)
  also have "\<dots> \<longleftrightarrow> bit byte i \<or> j \<le> i \<and> i < j + length (x # xs) \<and> i < 8 \<and> (x # xs) ! (i - j) \<noteq> 0"
    by (cases "i = j") (auto simp: nth_Cons' le_Suc_eq)
  finally show ?case .
qed auto

lemma length_scalar_pack_bools: "length (scalar_pack_bools xs) = (length xs + 7) div 8"
proof (induction xs rule: scalar_pack_bools.induct)
  case (1 xs)
  show ?case
  proof (cases "xs = []")
    case False
    then have "0 < length xs" by simp
    from ceil8_step [OF this] show ?thesis using 1 False by (simp add: scalar_pack_bools.simps [of xs])
  qed (simp add: scalar_pack_bools.simps)
qed

lemma packed_bit_pack_bools:
  "packed_bit (scalar_pack_bools xs) i \<longleftrightarrow> i < length xs \<and> xs ! i \<noteq> 0"
proof (induction xs arbitrary: i rule: scalar_pack_bools.induct)
  case (1 xs)
  show ?case
  proof (cases "xs = []")
    case True
    then show ?thesis by (simp add: scalar_pack_bools.simps packed_bit_def)
  next
    case False
    have s: "scalar_pack_bools xs = pack_bools_byte 0 0 (take 8 xs) # scalar_pack_bools (drop 8 xs)"
      using False by (simp add: scalar_pack_bools.simps [of xs])
    show ?thesis
    proof (cases "i < 8")
      case True
      then show ?thesis
        by (auto simp: s packed_bit_def bit_pack_bools_byte)
    next
      case ge: False
      then have "packed_bit (scalar_pack_bools xs) i \<longleftrightarrow> packed_bit (scalar_pack_bools (drop 8 xs)) (i - 8)"
        by (auto simp: s packed_bit_def le_div_geq le_mod_geq)
      then show ?thesis using 1 [OF False, of "i - 8"] ge by auto
    qed
  qed
qed

lemma byte_at_small: "i < 2 ^ 34 \<Longrightarrow> byte_at bs (word_of_nat (i div 8)) = bs ! (i div 8)"
proof -
  assume "i < 2 ^ 34"
  then have "i div 8 < 2 ^ 31"
    by (simp add: less_mult_imp_div_less)
  then show ?thesis
    using sint_of_nat_small [where 'a = 32, of "i div 8"] by (simp add: byte_at_def unat_of_nat)
qed

lemma scalar_unpack_bools_small:
  "n \<le> 2 ^ 34 \<Longrightarrow> scalar_unpack_bools bs n = map (\<lambda>i. drop_bit (i mod 8) (bs ! (i div 8)) AND 1) [0..<n]"
  by (auto simp: scalar_unpack_bools_def Let_def byte_at_small unat_of_nat)

lemma unpack_bools_bit:
  "i < n \<Longrightarrow> n \<le> 8 * length bs \<Longrightarrow> n \<le> 2 ^ 34 \<Longrightarrow> scalar_unpack_bools bs n ! i = of_bool (packed_bit bs i)"
  by (auto simp: scalar_unpack_bools_small packed_bit_def and_one_eq bit_iff_odd_drop_bit mod2_eq_if)

lemma unpack_pack_bools:
  assumes "length xs \<le> 2 ^ 34"
  shows "scalar_unpack_bools (scalar_pack_bools xs) (length xs) = map (\<lambda>x. of_bool (x \<noteq> 0)) xs"
proof (rule nth_equalityI)
  show "length (scalar_unpack_bools (scalar_pack_bools xs) (length xs)) = length (map (\<lambda>x. of_bool (x \<noteq> 0)) xs :: bytes)"
    by (simp add: scalar_unpack_bools_def)
next
  fix i assume "i < length (scalar_unpack_bools (scalar_pack_bools xs) (length xs))"
  then have i: "i < length xs" by (simp add: scalar_unpack_bools_def)
  have "length xs \<le> 8 * length (scalar_pack_bools xs)" by (simp add: length_scalar_pack_bools)
  then show "scalar_unpack_bools (scalar_pack_bools xs) (length xs) ! i = map (\<lambda>x. of_bool (x \<noteq> 0)) xs ! i"
    using i assms by (simp add: unpack_bools_bit packed_bit_pack_bools)
qed


subsection \<open>Copies inside one array\<close>

text \<open>
  \<open>copied n src dst mem mem'\<close>: the \<open>n\<close> bytes from \<open>dst\<close> on repeat the bytes \<open>dst - src\<close>
  positions before them, everything before \<open>dst\<close> is kept.
\<close>

definition copied :: "nat \<Rightarrow> nat \<Rightarrow> nat \<Rightarrow> bytes \<Rightarrow> bytes \<Rightarrow> bool" where
  "copied n src dst mem mem' \<longleftrightarrow>
     length mem' = length mem \<and> take dst mem' = take dst mem \<and>
     (\<forall>i < n. mem' ! (dst + i) = mem' ! (src + i))"

lemma copied_0 [simp]: "copied 0 src dst mem mem"
  by (simp add: copied_def)

lemma take_eq_nth: "take n xs = take n ys \<Longrightarrow> i < n \<Longrightarrow> n \<le> length xs \<Longrightarrow> length ys = length xs \<Longrightarrow> xs ! i = ys ! i"
  by (metis nth_take)

lemma copied_trans:
  assumes "copied k src dst a b" "copied n (src + k) (dst + k) b c" "dst + k \<le> length a"
    "src < dst"
  shows "copied (k + n) src dst a c"
proof -
  have len: "length b = length a" "length c = length a" using assms(1,2) by (simp_all add: copied_def)
  have pre: "take (dst + k) c = take (dst + k) b" using assms(2) by (simp add: copied_def)
  have "take dst (take (dst + k) c) = take dst (take (dst + k) b)" using pre by simp
  then have "take dst c = take dst a" using assms(1) by (simp add: copied_def)
  moreover have "c ! (dst + i) = c ! (src + i)" if "i < k + n" for i
  proof (cases "i < k")
    case True
    have "c ! (dst + i) = b ! (dst + i)" "c ! (src + i) = b ! (src + i)"
      using take_eq_nth [OF pre] True assms(3,4) len by auto
    then show ?thesis using True assms(1) by (simp add: copied_def)
  next
    case False
    then have "i = k + (i - k)" "i - k < n" using that by auto
    then show ?thesis using assms(2) unfolding copied_def by (metis add.assoc)
  qed
  ultimately show ?thesis using len by (simp add: copied_def)
qed

lemma copied_keep:
  assumes "copied n src dst a b" "length c = length b" "take (dst + n) c = take (dst + n) b"
    "dst + n \<le> length a" "src < dst"
  shows "copied n src dst a c"
proof -
  have "take dst (take (dst + n) c) = take dst (take (dst + n) b)" using assms(3) by simp
  then have "take dst c = take dst a" using assms(1) by (simp add: copied_def)
  moreover have "c ! (dst + i) = c ! (src + i)" if "i < n" for i
  proof -
    have l: "dst + n \<le> length c" "length b = length c" using assms(1,2,4) by (simp_all add: copied_def)
    have "c ! (dst + i) = b ! (dst + i)" "c ! (src + i) = b ! (src + i)"
      using take_eq_nth [OF assms(3) _ l] that assms(5) by simp_all
    then show ?thesis using assms(1) that by (simp add: copied_def)
  qed
  moreover have "length c = length a" using assms(1,2) by (simp add: copied_def)
  ultimately show ?thesis by (simp add: copied_def)
qed

lemma length_byte_copy [simp]: "length (byte_copy n src dst mem) = length mem"
  by (induction n arbitrary: src dst mem) simp_all

lemma byte_copy_copied:
  "dst + n \<le> length mem \<Longrightarrow> src < dst \<Longrightarrow> copied n src dst mem (byte_copy n src dst mem)"
proof (induction n arbitrary: src dst mem)
  case (Suc n)
  have "copied 1 src dst mem (mem[dst := mem ! src])"
    using Suc.prems by (simp add: copied_def)
  from copied_trans [OF this, of n] Suc.IH [of "dst + 1" "mem[dst := mem ! src]" "src + 1"] Suc.prems
  show ?case by simp
qed simp

lemma byte_copy_above: "drop (dst + n) (byte_copy n src dst mem) = drop (dst + n) mem"
proof (induction n arbitrary: src dst mem)
  case (Suc n)
  show ?case using Suc [of "dst + 1" "src + 1" "mem[dst := mem ! src]"] by simp
qed simp

lemma length_blit [simp]: "src + n \<le> length mem \<Longrightarrow> dst + n \<le> length mem \<Longrightarrow> length (blit n src dst mem) = length mem"
  by (simp add: blit_def)

lemma nth_blit:
  assumes "src + n \<le> length mem" "dst + n \<le> length mem" "i < length mem"
  shows "blit n src dst mem ! i = (if dst \<le> i \<and> i < dst + n then mem ! (src + (i - dst)) else mem ! i)"
proof -
  have "length (take n (drop src mem)) = n" "length (take dst mem) = dst" using assms by simp_all
  then show ?thesis using assms by (auto simp: blit_def nth_append)
qed

text \<open>A block copy reaches back at least its own length, or is cut after the bytes it got right.\<close>

lemma blit_copied:
  assumes "src < dst" "dst + n \<le> length mem" "k \<le> n" "src + k \<le> dst"
  shows "copied k src dst mem (blit n src dst mem)"
proof -
  have s: "src + n \<le> length mem" using assms by linarith
  have "take dst (blit n src dst mem) = take dst mem" using assms by (simp add: blit_def)
  moreover have "blit n src dst mem ! (dst + i) = blit n src dst mem ! (src + i)" if "i < k" for i
    using that assms nth_blit [OF s assms(2), of "dst + i"] nth_blit [OF s assms(2), of "src + i"] by simp
  ultimately show ?thesis using s assms(2) by (simp add: copied_def)
qed

lemma blit_above: "dst + n \<le> length mem \<Longrightarrow> src + n \<le> length mem \<Longrightarrow> drop (dst + n) (blit n src dst mem) = drop (dst + n) mem"
  by (simp add: blit_def)

lemma block_copy_copied:
  "src + 8 \<le> dst \<Longrightarrow> dst + n \<le> length mem \<Longrightarrow>
   copied n src dst mem (block_copy n src dst mem) \<and>
   drop (dst + n) (block_copy n src dst mem) = drop (dst + n) mem"
proof (induction n src dst mem rule: block_copy.induct)
  case (1 n src dst mem)
  show ?case
  proof (cases "8 \<le> n")
    case False
    then show ?thesis
      using 1 byte_copy_copied [of dst n mem src] byte_copy_above
      by (simp add: block_copy.simps [of n])
  next
    case True
    let ?m = "blit 8 src dst mem"
    have c: "copied 8 src dst mem ?m" using 1 True by (intro blit_copied) auto
    have len: "length ?m = length mem" using c by (simp add: copied_def)
    have r: "copied (n - 8) (src + 8) (dst + 8) ?m (block_copy (n - 8) (src + 8) (dst + 8) ?m)"
      "drop (dst + n) (block_copy (n - 8) (src + 8) (dst + 8) ?m) = drop (dst + n) ?m"
      using 1(1) [OF True] 1(2,3) True len by simp_all
    have "drop (dst + 8) ?m = drop (dst + 8) mem" using 1 True by (intro blit_above) auto
    then have "drop (n - 8) (drop (dst + 8) ?m) = drop (n - 8) (drop (dst + 8) mem)" by simp
    then have "drop (dst + n) ?m = drop (dst + n) mem" using True by (simp add: add.commute)
    then show ?thesis
      using copied_trans [OF c r(1)] 1 True r(2) by (simp add: block_copy.simps [of n])
  qed
qed

lemma copied_periodic:
  assumes "copied n src (src + d) mem mem'" "0 < d" "src + d + n \<le> length mem" "i < n"
  shows "mem' ! (src + d + i) = mem ! (src + i mod d)"
  using assms(4)
proof (induction i rule: less_induct)
  case (less i)
  have c: "mem' ! (src + d + i) = mem' ! (src + i)" using assms(1) less.prems by (simp add: copied_def)
  show ?case
  proof (cases "i < d")
    case True
    have "take (src + d) mem' = take (src + d) mem" "length mem = length mem'" "src + d \<le> length mem'"
      using assms(1,3) by (simp_all add: copied_def)
    from take_eq_nth [OF this(1) _ this(3,2), of "src + i"] show ?thesis
      using c True by simp
  next
    case False
    then have "mem' ! (src + d + (i - d)) = mem ! (src + (i - d) mod d)"
      using less.IH [of "i - d"] less.prems assms(2) by simp
    then show ?thesis using c False by (simp add: le_mod_geq)
  qed
qed

text \<open>
  The match copy repeats the window. For a positive offset and room for the
  match, whichever of the 8-byte and byte loops runs, the \<open>i\<close>-th byte written is the byte
  \<open>i mod offset\<close> of the window that precedes the destination; every other byte is unchanged.
\<close>

theorem match_copy_repeats:
  assumes "simd_kernels t" "0 < offset" "src + offset = dst" "dst + len \<le> length mem"
    "mem' = match_copy t mem dst src len offset"
  shows "length mem' = length mem \<and> take dst mem' = take dst mem \<and>
    drop (dst + len) mem' = drop (dst + len) mem \<and>
    (\<forall>i < len. mem' ! (dst + i) = mem ! (src + i mod offset))"
proof -
  have m: "mem' = scalar_match_copy mem dst src len offset"
    using simd_kernels.match_copy [OF assms(1-4)] assms(5) by simp
  have c: "copied len src (src + offset) mem mem'" "drop (dst + len) mem' = drop (dst + len) mem"
    using block_copy_copied [of src dst len mem] byte_copy_copied [of dst len mem src] byte_copy_above assms(2-4)
    by (auto simp: m scalar_match_copy_def)
  then show ?thesis
    using copied_periodic [OF c(1) assms(2)] assms(3,4) by (simp add: copied_def)
qed

theorem match_copy_repeats_witness:
  "match_copy scalar_simd [1, 2, 3, 0, 0, 0, 0, 9] 3 1 4 2 = [1, 2, 3, 2, 3, 2, 3, 9] \<and>
   match_copy scalar_simd [1, 2, 3, 0, 0, 0, 0, 9] 3 1 4 2 ! (3 + 3) = [1, 2, 3, 0, 0, 0, 0, 9] ! (1 + 3 mod 2)"
proof -
  have "match_copy scalar_simd [1, 2, 3, 0, 0, 0, 0, 9] 3 1 4 2 = [1, 2, 3, 2, 3, 2, 3, 9]" by code_simp
  then show ?thesis
    using match_copy_repeats [OF scalar_table.simd_kernels_axioms, of 2 1 3 4 "[1, 2, 3, 0, 0, 0, 0, 9]"] by simp
qed


subsection \<open>Levels\<close>

lemma count_loop_filter: "count_loop m n ls = n + length (filter (\<lambda>l. l = m) ls)"
  by (induction ls arbitrary: n) simp_all

lemma bit_present_byte:
  "bit (present_byte l m base) i \<longleftrightarrow> i < 8 \<and> l ! (base + i) = m"
proof -
  have c: "bit (if P then c else 0 :: u8) i \<longleftrightarrow> P \<and> i = k" if "c = 2 ^ k" "k < 8" for P c k
    using that by (auto simp: bit_exp_iff)
  have b: "bit (if P then 0x01 else 0 :: u8) i \<longleftrightarrow> P \<and> i = 0"
    "bit (if P then 0x02 else 0 :: u8) i \<longleftrightarrow> P \<and> i = 1"
    "bit (if P then 0x04 else 0 :: u8) i \<longleftrightarrow> P \<and> i = 2"
    "bit (if P then 0x08 else 0 :: u8) i \<longleftrightarrow> P \<and> i = 3"
    "bit (if P then 0x10 else 0 :: u8) i \<longleftrightarrow> P \<and> i = 4"
    "bit (if P then 0x20 else 0 :: u8) i \<longleftrightarrow> P \<and> i = 5"
    "bit (if P then 0x40 else 0 :: u8) i \<longleftrightarrow> P \<and> i = 6"
    "bit (if P then 0x80 else 0 :: u8) i \<longleftrightarrow> P \<and> i = 7" for P
    by (rule c; simp)+
  have "i < 8 \<Longrightarrow> i \<in> {0, 1, 2, 3, 4, 5, 6, 7}" by auto
  then show ?thesis unfolding present_byte_def bit_or_iff b by auto
qed

lemma fold_update_nth:
  "(\<forall>k < n. k < length xs) \<Longrightarrow>
   length (fold (\<lambda>k ys. ys[k := f k]) [0..<n] xs) = length xs \<and>
   (\<forall>i < length xs. fold (\<lambda>k ys. ys[k := f k]) [0..<n] xs ! i = (if i < n then f i else xs ! i))"
proof (induction n)
  case (Suc n)
  then have "length (fold (\<lambda>k ys. ys[k := f k]) [0..<n] xs) = length xs \<and>
   (\<forall>i < length xs. fold (\<lambda>k ys. ys[k := f k]) [0..<n] xs ! i = (if i < n then f i else xs ! i))" by simp
  then show ?case using Suc.prems by (auto simp: nth_list_update)
qed simp

lemma fold_or_at_bits:
  "b \<le> 8 * length bm \<Longrightarrow>
   packed_bit (fold (\<lambda>j bm. if P j then or_at bm (j div 8) (push_bit (j mod 8) 1) else bm) [a..<b] bm) i \<longleftrightarrow>
     packed_bit bm i \<or> a \<le> i \<and> i < b \<and> P i"
proof (induction b)
  case (Suc b)
  let ?f = "\<lambda>j bm. if P j then or_at bm (j div 8) (push_bit (j mod 8) 1) else bm"
  show ?case
  proof (cases "a \<le> b")
    case True
    let ?m = "fold ?f [a..<b] bm"
    have len: "length (fold ?f js bm) = length bm" for js
      by (induction js arbitrary: bm) auto
    have k: "b div 8 < length ?m" using Suc.prems len by auto
    have at: "i div 8 = b div 8 \<and> i mod 8 = b mod 8 \<longleftrightarrow> i = b" by (metis div_mult_mod_eq)
    have "packed_bit (?f b ?m) i \<longleftrightarrow> packed_bit ?m i \<or> P b \<and> i = b"
      using packed_bit_or_at [OF k, of "push_bit (b mod 8) 1" i] at by (auto simp: bit_exp_iff)
    then show ?thesis using Suc True by (auto simp: less_Suc_eq)
  qed auto
qed auto

text \<open>
  The validity bitmap. With room for the bits, after
  \<^verbatim>\<open>build_null_bitmap\<close> bit \<open>i\<close> of every full byte says whether level \<open>i\<close> is the maximum level,
  whatever the bitmap held; in the last, partial byte the bits are added to those that were
  set before, so the caller must have cleared it. \<^verbatim>\<open>count_non_nulls\<close> counts the levels
  at the maximum.
\<close>

theorem null_bitmap_spec:
  assumes "simd_kernels t" "length levels \<le> 8 * length bitmap"
    "bitmap' = build_null_bitmap t levels m bitmap" "i < length levels"
  shows "(packed_bit bitmap' i \<longleftrightarrow>
      levels ! i = m \<or> length levels div 8 * 8 \<le> i \<and> packed_bit bitmap i) \<and>
    count_non_nulls t levels m = length (filter (\<lambda>l. l = m) levels)"
proof -
  let ?full = "length levels div 8"
  let ?b1 = "fold (\<lambda>b bm. bm[b := present_byte levels m (b * 8)]) [0..<?full] bitmap"
  have full: "\<forall>k < ?full. k < length bitmap" using assms(2) by auto
  have b1: "length ?b1 = length bitmap"
    "\<And>j. j < length bitmap \<Longrightarrow> ?b1 ! j = (if j < ?full then present_byte levels m (j * 8) else bitmap ! j)"
    using fold_update_nth [OF full, of "\<lambda>b. present_byte levels m (b * 8)"] by auto
  have j: "i div 8 < length bitmap" using assms(2,4) by auto
  have "packed_bit ?b1 i \<longleftrightarrow> (if i div 8 < ?full then levels ! i = m else packed_bit bitmap i)"
    using b1(2) [OF j] b1(1) j by (auto simp: packed_bit_def bit_present_byte)
  moreover have "i div 8 < ?full \<longleftrightarrow> i < ?full * 8" by auto
  moreover have "bitmap' = fold (\<lambda>j bm. if levels ! j = m then or_at bm (j div 8) (push_bit (j mod 8) 1) else bm)
      [?full * 8..<length levels] ?b1"
    using simd_kernels.build_null_bitmap [OF assms(1,2)] assms(3)
    by (simp add: scalar_build_null_bitmap_def Let_def)
  ultimately have "packed_bit bitmap' i \<longleftrightarrow>
      levels ! i = m \<or> ?full * 8 \<le> i \<and> packed_bit bitmap i"
    using fold_or_at_bits [of "length levels" ?b1 "\<lambda>j. levels ! j = m" "?full * 8" i] b1(1) assms(2,4)
    by (auto simp: not_less)
  then show ?thesis
    using simd_kernels.count_non_nulls [OF assms(1)] by (simp add: scalar_count_non_nulls_def count_loop_filter)
qed

theorem null_bitmap_spec_witness:
  "build_null_bitmap scalar_simd [1, 0, 1, 1, 0, 0, 0, 1, 1, 0] 1 [0xFF, 0] = [0x8D, 1] \<and>
   packed_bit [0x8D, 1] 8"
proof -
  have "build_null_bitmap scalar_simd [1, 0, 1, 1, 0, 0, 0, 1, 1, 0] 1 [0xFF, 0] = [0x8D, 1]" by code_simp
  then show ?thesis
    using null_bitmap_spec [OF scalar_table.simd_kernels_axioms _ refl,
        of "[1, 0, 1, 1, 0, 0, 0, 1, 1, 0]" "[0xFF, 0]" 8 1] by simp
qed

subsection \<open>Minimum and maximum\<close>

text \<open>The loop on a comparison that orders the values by a key.\<close>

lemma minmax_loop_key:
  fixes key :: "'a \<Rightarrow> int"
  assumes "\<And>a b. a \<in> A \<Longrightarrow> b \<in> A \<Longrightarrow> lt a b \<longleftrightarrow> key a < key b"
  shows "set vs \<subseteq> A \<Longrightarrow> mn \<in> A \<Longrightarrow> mx \<in> A \<Longrightarrow> minmax_loop lt (mn, mx) vs = (mn', mx') \<Longrightarrow>
    mn' \<in> insert mn (set vs) \<and> mx' \<in> insert mx (set vs) \<and>
    (\<forall>v \<in> insert mn (set vs). key mn' \<le> key v) \<and> (\<forall>v \<in> insert mx (set vs). key v \<le> key mx')"
proof (induction vs arbitrary: mn mx)
  case (Cons v vs)
  let ?mn = "if lt v mn then v else mn" and ?mx = "if lt mx v then v else mx"
  have "mn' \<in> insert ?mn (set vs) \<and> mx' \<in> insert ?mx (set vs) \<and>
    (\<forall>v \<in> insert ?mn (set vs). key mn' \<le> key v) \<and> (\<forall>v \<in> insert ?mx (set vs). key v \<le> key mx')"
    using Cons.prems by (intro Cons.IH) auto
  moreover have "key ?mn \<le> key v" "key ?mn \<le> key mn" "key v \<le> key ?mx" "key mx \<le> key ?mx"
    using assms Cons.prems by auto
  ultimately show ?case by (auto intro: order_trans)
qed auto

lemma minmax_loop_stuck:
  "(\<And>v. v \<in> set vs \<Longrightarrow> \<not> lt v x \<and> \<not> lt x v) \<Longrightarrow> minmax_loop lt (x, x) vs = (x, x)"
  by (induction vs) auto

text \<open>
  Minimum and maximum. On a non-empty array of integers the result is attained and
  bounds every value as a signed number; on floats without NaN it bounds every value in the
  order of the numbers; and a NaN in first position makes both results
  that NaN, whatever follows.
\<close>

theorem minmax_correct:
  assumes "vs \<noteq> []" "scalar_minmax_i32 vs = (mn, mx)" "fs \<noteq> []" "scalar_minmax_float fs = (fn, fx)"
  shows "mn \<in> set vs \<and> mx \<in> set vs \<and> (\<forall>v \<in> set vs. sint mn \<le> sint v \<and> sint v \<le> sint mx) \<and>
    ((\<forall>f \<in> set fs. \<not> f32_isnan f) \<longrightarrow>
       fn \<in> set fs \<and> fx \<in> set fs \<and> (\<forall>f \<in> set fs. \<not> f32_less f fn \<and> \<not> f32_less fx f)) \<and>
    (f32_isnan (hd fs) \<longrightarrow> fn = hd fs \<and> fx = hd fs)"
proof -
  have v: "insert (hd vs) (set (tl vs)) = set vs" and f: "insert (hd fs) (set (tl fs)) = set fs"
    using assms(1,3) by (auto simp: neq_Nil_conv)
  have "minmax_loop int_less (hd vs, hd vs) (tl vs) = (mn, mx)"
    using assms(2) by (simp add: scalar_minmax_i32_def)
  then have "mn \<in> set vs \<and> mx \<in> set vs \<and> (\<forall>v \<in> set vs. sint mn \<le> sint v \<and> sint v \<le> sint mx)"
    using minmax_loop_key [of UNIV int_less sint "tl vs" "hd vs" "hd vs" mn mx] unfolding v
    by (simp add: int_less_def)
  moreover have l: "minmax_loop f32_less (hd fs, hd fs) (tl fs) = (fn, fx)"
    using assms(4) by (simp add: scalar_minmax_float_def)
  moreover have "fn \<in> set fs \<and> fx \<in> set fs \<and> (\<forall>f \<in> set fs. \<not> f32_less f fn \<and> \<not> f32_less fx f)"
    if "\<forall>f \<in> set fs. \<not> f32_isnan f"
  proof -
    have "set (tl fs) \<subseteq> {f. \<not> f32_isnan f}" "hd fs \<in> {f. \<not> f32_isnan f}" using that f by blast+
    with minmax_loop_key [of "{f. \<not> f32_isnan f}" f32_less float_key "tl fs" "hd fs" "hd fs" fn fx] l f
    show ?thesis by (auto simp: f32_less_def not_less)
  qed
  moreover have "fn = hd fs \<and> fx = hd fs" if "f32_isnan (hd fs)"
    using minmax_loop_stuck [of "tl fs" f32_less "hd fs"] l that by (simp add: f32_less_def)
  ultimately show ?thesis by blast
qed

theorem minmax_correct_witness:
  "scalar_minmax_i32 [3, 0xFFFFFFFF, 7] = (0xFFFFFFFF, 7) \<and>
   0xFFFFFFFF \<in> set [3, 0xFFFFFFFF, 7 :: i32] \<and> sint (0xFFFFFFFF :: i32) \<le> sint (3 :: i32) \<and>
   scalar_minmax_float [0x7FC00000, 0x3F800000] = (0x7FC00000, 0x7FC00000)"
proof -
  have m: "scalar_minmax_i32 [3, 0xFFFFFFFF, 7] = (0xFFFFFFFF, 7)"
    "scalar_minmax_float [0x7FC00000, 0x3F800000] = (0x7FC00000, 0x7FC00000)" by code_simp+
  have "0xFFFFFFFF \<in> set [3, 0xFFFFFFFF, 7 :: i32] \<and>
    (\<forall>v \<in> set [3, 0xFFFFFFFF, 7 :: i32]. sint (0xFFFFFFFF :: i32) \<le> sint v)"
    using minmax_correct [OF list.distinct(2) m(1) list.distinct(2) m(2)] by blast
  then show ?thesis using m by (simp only: list.set insert_iff ball_simps)
qed

end
