(* ===== verification/Snappy_Decode.thy ===== *)
theory Snappy_Decode
  imports Kernels Status Endian "HOL-Library.Sublist"
begin

text \<open>
  The decompressor of \<^verbatim>\<open>compression/snappy.c\<close>, in the build without vector shuffles.
  \<^verbatim>\<open>ip\<close> is the list of input bytes that are left; \<^verbatim>\<open>dst\<close> is the list of the bytes of the
  output array and \<^verbatim>\<open>op\<close> an index into it, so that the wide copies write past the
  bytes they are needed for exactly as in the code. Comparisons with pointers before an array are
  written as sums.
\<close>

section \<open>Definitions\<close>

definition load32 :: "bytes \<Rightarrow> nat \<Rightarrow> u32" where
  "load32 p i = le_load (take 4 (drop i p))"

definition load64 :: "bytes \<Rightarrow> nat \<Rightarrow> u64" where
  "load64 p i = le_load (take 8 (drop i p))"

definition copy64 :: "nat \<Rightarrow> nat \<Rightarrow> bytes \<Rightarrow> bytes" where
  "copy64 src dst mem = blit 8 src dst mem"

definition copy128 :: "nat \<Rightarrow> nat \<Rightarrow> bytes \<Rightarrow> bytes" where
  "copy128 src dst mem = blit 16 src dst mem"

text \<open>Storing bytes from another array at an index.\<close>

definition write_at :: "nat \<Rightarrow> bytes \<Rightarrow> bytes \<Rightarrow> bytes" where
  "write_at op bs mem = take op mem @ bs @ drop (op + length bs) mem"

definition kLengthMinusOffset :: "i16 list" where
  "kLengthMinusOffset = [
     -255,     4,     1,   255,  -254,     5,     2,   255,
     -253,     6,     3,   255,  -252,     7,     4,   255,
     -251,     8,     5,   255,  -250,     9,     6,   255,
     -249,    10,     7,   255,  -248,    11,     8,   255,
     -247,  -252,     9,   255,  -246,  -251,    10,   255,
     -245,  -250,    11,   255,  -244,  -249,    12,   255,
     -243,  -248,    13,   255,  -242,  -247,    14,   255,
     -241,  -246,    15,   255,  -240,  -245,    16,   255,
     -239,  -508,    17,   255,  -238,  -507,    18,   255,
     -237,  -506,    19,   255,  -236,  -505,    20,   255,
     -235,  -504,    21,   255,  -234,  -503,    22,   255,
     -233,  -502,    23,   255,  -232,  -501,    24,   255,
     -231,  -764,    25,   255,  -230,  -763,    26,   255,
     -229,  -762,    27,   255,  -228,  -761,    28,   255,
     -227,  -760,    29,   255,  -226,  -759,    30,   255,
     -225,  -758,    31,   255,  -224,  -757,    32,   255,
     -223, -1020,    33,   255,  -222, -1019,    34,   255,
     -221, -1018,    35,   255,  -220, -1017,    36,   255,
     -219, -1016,    37,   255,  -218, -1015,    38,   255,
     -217, -1014,    39,   255,  -216, -1013,    40,   255,
     -215, -1276,    41,   255,  -214, -1275,    42,   255,
     -213, -1274,    43,   255,  -212, -1273,    44,   255,
     -211, -1272,    45,   255,  -210, -1271,    46,   255,
     -209, -1270,    47,   255,  -208, -1269,    48,   255,
     -207, -1532,    49,   255,  -206, -1531,    50,   255,
     -205, -1530,    51,   255,  -204, -1529,    52,   255,
     -203, -1528,    53,   255,  -202, -1527,    54,   255,
     -201, -1526,    55,   255,  -200, -1525,    56,   255,
     -199, -1788,    57,   255,  -198, -1787,    58,   255,
     -197, -1786,    59,   255,  -196, -1785,    60,   255,
      255, -1784,    61,   255,   255, -1783,    62,   255,
      255, -1782,    63,   255,   255, -1781,    64,   255]"

text \<open>The five unrolled steps; the fifth byte, at shift 28, must be below 16.\<close>

fun snappy_read_varint_from :: "nat \<Rightarrow> u32 \<Rightarrow> bytes \<Rightarrow> (u32 \<times> bytes) option" where
  "snappy_read_varint_from shift result [] = None"
| "snappy_read_varint_from shift result (b # p) =
     (let result' = result OR push_bit shift (ucast (b AND 0x7F)) in
      if shift < 28
      then if b < 128 then Some (result', p) else snappy_read_varint_from (shift + 7) result' p
      else if b < 16 then Some (result', p) else None)"

definition snappy_read_varint :: "bytes \<Rightarrow> (u32 \<times> bytes) option" where
  "snappy_read_varint p = snappy_read_varint_from 0 0 p"

definition incremental_copy_slow :: "nat \<Rightarrow> nat \<Rightarrow> nat \<Rightarrow> bytes \<Rightarrow> bytes" where
  "incremental_copy_slow src op op_limit dst = byte_copy (op_limit - op) src op dst"

text \<open>
  Doubling the pattern until it is 8 bytes wide: the new \<^verbatim>\<open>op\<close>, the pattern size and the array.
  An offset of 0 is rejected before the copy, so the size is positive.
\<close>

function double_pattern :: "nat \<Rightarrow> nat \<Rightarrow> nat \<Rightarrow> bytes \<Rightarrow> nat \<times> nat \<times> bytes" where
  "double_pattern src op pattern_size dst =
     (if 0 < pattern_size \<and> pattern_size < 8
      then double_pattern src (op + pattern_size) (pattern_size * 2) (copy64 src op dst)
      else (op, pattern_size, dst))"
  by pat_completeness auto
termination
  by (relation "measure (\<lambda>(src, op, ps, dst). 8 - ps)") auto

function blocks8 :: "nat \<Rightarrow> nat \<Rightarrow> nat \<Rightarrow> nat \<Rightarrow> bytes \<Rightarrow> nat \<times> nat \<times> bytes" where
  "blocks8 src op op_limit buf_limit dst =
     (if op + 8 \<le> op_limit \<and> op + 8 \<le> buf_limit
      then blocks8 (src + 8) (op + 8) op_limit buf_limit (copy64 src op dst)
      else (src, op, dst))"
  by pat_completeness auto
termination
  by (relation "measure (\<lambda>(src, op, lim, buf, dst). lim - op)") auto

function blocks16 :: "nat \<Rightarrow> nat \<Rightarrow> nat \<Rightarrow> bytes \<Rightarrow> nat \<times> nat \<times> bytes" where
  "blocks16 src op buf_limit dst =
     (if op + 16 < buf_limit
      then blocks16 (src + 16) (op + 16) buf_limit (copy128 src op dst)
      else (src, op, dst))"
  by pat_completeness auto
termination
  by (relation "measure (\<lambda>(src, op, buf, dst). buf - op)") auto

declare double_pattern.simps [simp del] blocks8.simps [simp del] blocks16.simps [simp del]

text \<open>One to four 16-byte copies for a match of \<open>len\<close> bytes.\<close>

definition quad_copy :: "nat \<Rightarrow> nat \<Rightarrow> nat \<Rightarrow> bytes \<Rightarrow> bytes" where
  "quad_copy src op len dst =
     (let dst = copy128 src op dst;
          dst = (if 16 < len then copy128 (src + 16) (op + 16) dst else dst);
          dst = (if 32 < len then copy128 (src + 32) (op + 32) dst else dst)
      in if 48 < len then copy128 (src + 48) (op + 48) dst else dst)"

definition incremental_copy :: "nat \<Rightarrow> nat \<Rightarrow> nat \<Rightarrow> nat \<Rightarrow> bytes \<Rightarrow> bytes" where
  "incremental_copy src op op_limit buf_limit dst =
     (let pattern_size = op - src in
      if pattern_size < 16
      then if op + 11 \<le> buf_limit
           then case double_pattern src op pattern_size dst of
                  (op, pattern_size, dst) \<Rightarrow>
                    if op_limit \<le> op then dst
                    else case blocks8 (op - pattern_size) op op_limit buf_limit dst of
                           (src, op, dst) \<Rightarrow>
                             if op_limit \<le> op then dst else incremental_copy_slow src op op_limit dst
           else incremental_copy_slow src op op_limit dst
      else if op_limit + 15 \<le> buf_limit then quad_copy src op (op_limit - op) dst
      else case blocks16 src op buf_limit dst of
             (src, op, dst) \<Rightarrow>
               if op_limit \<le> op then dst
               else if op + 8 \<le> buf_limit
               then incremental_copy_slow (src + 8) (op + 8) op_limit (copy64 src op dst)
               else incremental_copy_slow src op op_limit dst)"

text \<open>
  One element of the compressed stream. \<open>n\<close> is \<^verbatim>\<open>op_end\<close>, the uncompressed length; the result is
  \<open>None\<close> for invalid data, otherwise the input left, the output position and the array.
\<close>

type_synonym snappy_step = "(bytes \<times> nat \<times> bytes) option"

definition literal_length :: "u8 \<Rightarrow> bytes \<Rightarrow> (nat \<times> bytes) option" where
  "literal_length tag ip =
     (let len = unat (drop_bit 2 tag) + 1 in
      if 61 \<le> len
      then let extra_bytes = len - 60 in
           if length ip < extra_bytes then None
           else let raw = le_load (take extra_bytes ip) :: u32;
                    mask64 = 0xFFFFFFFF :: u64
                in Some (unat ((raw AND ucast (NOT (push_bit (8 * extra_bytes) mask64))) + 1),
                         drop extra_bytes ip)
      else Some (len, ip))"

definition write_literal :: "nat \<Rightarrow> nat \<Rightarrow> bytes \<Rightarrow> nat \<Rightarrow> bytes \<Rightarrow> snappy_step" where
  "write_literal n len ip op dst =
     (if len \<le> 16 \<and> 16 \<le> length ip \<and> op + 16 \<le> n
      then Some (drop len ip, op + len, write_at op (take 16 ip) dst)
      else if length ip < len \<or> n < op + len then None
      else Some (drop len ip, op + len, write_at op (take len ip) dst))"

definition snappy_literal :: "nat \<Rightarrow> u8 \<Rightarrow> bytes \<Rightarrow> nat \<Rightarrow> bytes \<Rightarrow> snappy_step" where
  "snappy_literal n tag ip op dst =
     (case literal_length tag ip of
        None \<Rightarrow> None
      | Some (len, ip) \<Rightarrow> write_literal n len ip op dst)"

text \<open>
  The offset of a copy with a one- or two-byte offset and the way its match is copied, which
  depends on the offset and on the room before \<^verbatim>\<open>op_limit_min_slop\<close>.
\<close>

definition copy_trailer :: "u8 \<Rightarrow> bytes \<Rightarrow> (u32 \<times> bytes) option" where
  "copy_trailer tag ip =
     (if tag AND 3 = 1
      then case ip of
             [] \<Rightarrow> None
           | b # ip \<Rightarrow> Some (push_bit 3 (ucast (tag AND 0xE0)) OR ucast b, ip)
      else case ip of
             b0 # b1 # ip \<Rightarrow> Some (ucast b0 OR push_bit 8 (ucast b1), ip)
           | _ \<Rightarrow> None)"

definition copy_match :: "nat \<Rightarrow> nat \<Rightarrow> nat \<Rightarrow> nat \<Rightarrow> bytes \<Rightarrow> bytes" where
  "copy_match n copy_offset op len dst =
     (let op_limit_min_slop = (if 64 \<le> n then n - 64 + 1 else 0);
          match_src = op - copy_offset in
      if 16 \<le> copy_offset \<and> op + len \<le> op_limit_min_slop
      then quad_copy match_src op len dst
      else if len \<le> 64 \<and> op + len \<le> op_limit_min_slop \<and> len \<le> copy_offset
      then blit 64 match_src op dst
      else incremental_copy match_src op (op + len) n dst)"

definition snappy_copy12 :: "nat \<Rightarrow> u8 \<Rightarrow> bytes \<Rightarrow> nat \<Rightarrow> bytes \<Rightarrow> snappy_step" where
  "snappy_copy12 n tag ip op dst =
     (let len = unat (kLengthMinusOffset ! unat tag AND 0xFF) in
      case copy_trailer tag ip of
        None \<Rightarrow> None
      | Some (trailer, ip) \<Rightarrow>
          let copy_offset = unat trailer in
          if copy_offset = 0 \<or> op < copy_offset then None
          else if n < op + len then None
          else Some (ip, op + len, copy_match n copy_offset op len dst))"

definition snappy_copy4 :: "nat \<Rightarrow> u8 \<Rightarrow> bytes \<Rightarrow> nat \<Rightarrow> bytes \<Rightarrow> snappy_step" where
  "snappy_copy4 n tag ip op dst =
     (if length ip < 4 then None
      else let len = unat (drop_bit 2 tag AND 0x3F) + 1; copy_offset = unat (load32 ip 0); ip = drop 4 ip in
           if copy_offset = 0 \<or> op < copy_offset then None
           else if n < op + len then None
           else Some (ip, op + len, incremental_copy (op - copy_offset) op (op + len) n dst))"

definition snappy_element :: "nat \<Rightarrow> u8 \<Rightarrow> bytes \<Rightarrow> nat \<Rightarrow> bytes \<Rightarrow> snappy_step" where
  "snappy_element n tag ip op dst =
     (if tag AND 3 = 0 then snappy_literal n tag ip op dst
      else if tag AND 3 \<noteq> 3 then snappy_copy12 n tag ip op dst
      else snappy_copy4 n tag ip op dst)"

lemma literal_length_rest: "literal_length tag ip = Some (len, ip') \<Longrightarrow> length ip' \<le> length ip"
  by (auto simp: literal_length_def Let_def split: if_splits)

lemma snappy_element_rest:
  "snappy_element n tag ip op dst = Some (ip', op', dst') \<Longrightarrow> length ip' \<le> length ip"
  by (auto simp: snappy_element_def snappy_literal_def write_literal_def snappy_copy12_def copy_trailer_def snappy_copy4_def Let_def
      dest!: literal_length_rest split: if_splits option.splits list.splits)

text \<open>The main loop; on an error the array keeps what was stored before the element.\<close>

function snappy_loop :: "nat \<Rightarrow> bytes \<Rightarrow> nat \<Rightarrow> bytes \<Rightarrow> bool \<times> bytes \<times> nat \<times> bytes" where
  "snappy_loop n ip op dst =
     (case ip of
        [] \<Rightarrow> (True, ip, op, dst)
      | tag # ip' \<Rightarrow>
          if op < n
          then case snappy_element n tag ip' op dst of
                 None \<Rightarrow> (False, ip, op, dst)
               | Some (ip'', op', dst') \<Rightarrow> snappy_loop n ip'' op' dst'
          else (True, ip, op, dst))"
  by pat_completeness auto
termination
  by (relation "measure (\<lambda>(n, ip, op, dst). length ip)") (auto simp: less_Suc_eq_le dest: snappy_element_rest)

declare snappy_loop.simps [simp del]

text \<open>The status, \<^verbatim>\<open>*dst_size\<close> when it is set, and the output array.\<close>

definition carquet_snappy_decompress ::
    "bytes option \<Rightarrow> bytes option \<Rightarrow> bool \<Rightarrow> carquet_status \<times> nat option \<times> bytes option" where
  "carquet_snappy_decompress src dst dst_size =
     (case (src, dst) of
        (Some s, Some d) \<Rightarrow>
          if \<not> dst_size then (CARQUET_ERROR_INVALID_ARGUMENT, None, dst)
          else if s = [] then (CARQUET_OK, Some 0, dst)
          else (case snappy_read_varint s of
                  None \<Rightarrow> (CARQUET_ERROR_INVALID_COMPRESSED_DATA, None, dst)
                | Some (uncompressed_len, ip) \<Rightarrow>
                    let n = unat uncompressed_len in
                    if length d < n then (CARQUET_ERROR_INVALID_COMPRESSED_DATA, None, dst)
                    else case snappy_loop n ip 0 d of
                           (ok, ip, op, d') \<Rightarrow>
                             if \<not> ok \<or> op \<noteq> n \<or> ip \<noteq> []
                             then (CARQUET_ERROR_INVALID_COMPRESSED_DATA, None, Some d')
                             else (CARQUET_OK, Some n, Some d'))
      | _ \<Rightarrow> (CARQUET_ERROR_INVALID_ARGUMENT, None, dst))"

definition carquet_snappy_get_uncompressed_length :: "bytes option \<Rightarrow> bool \<Rightarrow> carquet_status \<times> nat option" where
  "carquet_snappy_get_uncompressed_length src length_ptr =
     (case src of
        None \<Rightarrow> (CARQUET_ERROR_INVALID_ARGUMENT, None)
      | Some s \<Rightarrow>
          if \<not> length_ptr then (CARQUET_ERROR_INVALID_ARGUMENT, None)
          else (case snappy_read_varint s of
                  None \<Rightarrow> (CARQUET_ERROR_INVALID_COMPRESSED_DATA, None)
                | Some (len, _) \<Rightarrow> (CARQUET_OK, Some (unat len))))"


section \<open>Copies\<close>

lemma copied_mono: "copied k src dst a b \<Longrightarrow> n \<le> k \<Longrightarrow> copied n src dst a b"
  by (simp add: copied_def)

lemma copied_length: "copied k src dst a b \<Longrightarrow> length b = length a"
  by (simp add: copied_def)

text \<open>\<open>match_done\<close>: a correct match copy that stays below \<open>lim\<close>.\<close>

definition match_done :: "nat \<Rightarrow> nat \<Rightarrow> nat \<Rightarrow> nat \<Rightarrow> bytes \<Rightarrow> bytes \<Rightarrow> bool" where
  "match_done n src op lim a b \<longleftrightarrow> copied n src op a b \<and> drop lim b = drop lim a"

lemma match_done_trans:
  assumes "match_done k src op lim a b" "match_done n (src + k) (op + k) lim b c" "op + k \<le> length a" "src < op"
  shows "match_done (k + n) src op lim a c"
  using assms copied_trans [of k src op a b n c] by (simp add: match_done_def)

lemma match_done_mono: "match_done k src op lim a b \<Longrightarrow> n \<le> k \<Longrightarrow> match_done n src op lim a b"
  using copied_mono by (auto simp: match_done_def)

lemma match_done_length: "match_done k src op lim a b \<Longrightarrow> length b = length a"
  by (simp add: match_done_def copied_def)

lemma drop_eq_mono: "drop k a = drop k b \<Longrightarrow> k \<le> m \<Longrightarrow> drop m a = drop m b"
  by (metis drop_drop le_add_diff_inverse2)

lemma blit_done:
  assumes "src + k \<le> op" "0 < k" "k \<le> w" "op + w \<le> lim" "lim \<le> length mem"
  shows "match_done k src op lim mem (blit w src op mem)"
proof -
  have "drop (op + w) (blit w src op mem) = drop (op + w) mem" using assms by (intro blit_above) auto
  then show ?thesis
    using assms blit_copied [of src op w mem k] drop_eq_mono [of "op + w"] by (simp add: match_done_def)
qed

lemma slow_done:
  assumes "src < op" "op \<le> op_limit" "op_limit \<le> lim" "lim \<le> length mem"
  shows "match_done (op_limit - op) src op lim mem (incremental_copy_slow src op op_limit mem)"
proof -
  have "drop op_limit (incremental_copy_slow src op op_limit mem) = drop op_limit mem"
    using byte_copy_above [of op "op_limit - op" src mem] assms by (simp add: incremental_copy_slow_def)
  then show ?thesis
    using byte_copy_copied [of op "op_limit - op" mem src] assms drop_eq_mono [of op_limit]
    by (simp add: match_done_def incremental_copy_slow_def)
qed

text \<open>A copy from a multiple of the distance goes on with the same pattern.\<close>

lemma period_step:
  assumes "\<And>x. x + d < p \<Longrightarrow> c ! (src + d + x) = c ! (src + x)"
  shows "j + t * d < p \<Longrightarrow> c ! (src + (j + t * d)) = c ! (src + j)"
proof (induction t)
  case (Suc t)
  have "c ! (src + d + (j + t * d)) = c ! (src + (j + t * d))" using Suc.prems by (intro assms) simp
  then show ?case using Suc by (simp add: ac_simps)
qed simp

lemma copied_multiple:
  assumes ab: "copied m src (src + d) a b" and bc: "copied k src (src + p) b c"
    and p: "d + m = p" "d dvd p" "0 < d" and len: "src + p + k \<le> length a"
  shows "copied (m + k) src (src + d) a c"
proof -
  have keep: "copied m src (src + d) a c"
    using copied_keep [OF ab, of c] bc p len by (simp add: copied_def add.assoc)
  then have per: "c ! (src + d + x) = c ! (src + x)" if "x + d < p" for x
    using that p(1) by (simp add: copied_def)
  have new: "c ! (src + p + j) = c ! (src + j)" if "j < k" for j using bc that by (simp add: copied_def)
  have "c ! (src + p + j) = c ! (src + (p + j - d))" if "j < k" for j
    using that
  proof (induction j rule: less_induct)
    case (less j)
    have dp: "d \<le> p" using p by simp
    show ?case
    proof (cases "j < d")
      case True
      obtain t where t: "p = d * t" using p(2) by blast
      then have "p - d = (t - 1) * d" by (simp add: diff_mult_distrib2 mult.commute)
      then have e: "p + j - d = j + (t - 1) * d" using dp by linarith
      have "c ! (src + (p + j - d)) = c ! (src + j)"
        unfolding e using True dp e by (intro period_step [of d p, OF per]) simp_all
      then show ?thesis using new less.prems by simp
    next
      case False
      have "c ! (src + (p + j - d)) = c ! (src + (j - d))"
        using new [of "j - d"] less.prems False by (simp add: add.assoc)
      moreover have "c ! (src + j) = c ! (src + (j - d))"
      proof (cases "j < p")
        case True
        then show ?thesis using per [of "j - d"] False by (simp add: add.assoc)
      next
        case p': False
        then have "c ! (src + p + (j - p)) = c ! (src + (p + (j - p) - d))"
          using p less.prems dp by (intro less.IH) linarith+
        then show ?thesis using p' by (simp add: add.assoc)
      qed
      ultimately show ?thesis using new less.prems by simp
    qed
  qed
  note per' = this
  have "c ! (src + d + i) = c ! (src + i)" if "i < m + k" for i
  proof (cases "i < m")
    case True
    then show ?thesis using keep by (simp add: copied_def)
  next
    case False
    then have "src + p + (i - m) = src + d + i" "src + (p + (i - m) - d) = src + i" using p(1) by linarith+
    then show ?thesis using per' [of "i - m"] that False by auto
  qed
  then show ?thesis using keep by (simp add: copied_def)
qed

lemma match_done_multiple:
  assumes "match_done m src (src + d) lim a b" "match_done k src (src + p) lim b c"
    "d + m = p" "d dvd p" "0 < d" "src + p + k \<le> length a"
  shows "match_done (m + k) src (src + d) lim a c"
  using assms copied_multiple [of m src d a b k p c] by (simp add: match_done_def)

text \<open>Room the doubling needs behind the first copy.\<close>

fun double_room :: "nat \<Rightarrow> nat" where
  "double_room ps = (if ps = 1 \<or> ps = 3 then 11 else if ps = 2 then 10 else if ps < 8 then 8 else 0)"

lemma double_room_step:
  "0 < ps \<Longrightarrow> ps < 8 \<Longrightarrow> ps + double_room (ps * 2) \<le> double_room ps \<and> 8 \<le> double_room ps"
  by auto

lemma double_pattern_done:
  assumes "double_pattern src op ps mem = (op', ps', mem')"
    "src + ps = op" "0 < ps" "d + m = ps" "d dvd ps" "0 < d"
    "op + double_room ps \<le> lim" "lim \<le> length mem"
    "match_done m src (src + d) lim base mem"
  shows "src + ps' = op' \<and> 8 \<le> ps' \<and> d dvd ps' \<and> op' \<le> lim \<and> d \<le> ps' \<and>
    match_done (ps' - d) src (src + d) lim base mem'"
  using assms
proof (induction src op ps mem arbitrary: m rule: double_pattern.induct)
  case (1 src op ps mem)
  show ?case
  proof (cases "ps < 8")
    case True
    let ?mem = "copy64 src op mem"
    have room: "ps + double_room (ps * 2) \<le> double_room ps" "8 \<le> double_room ps"
      using double_room_step True "1.prems"(3) by blast+
    have "match_done ps src op lim mem ?mem"
      unfolding copy64_def using "1.prems" True room by (intro blit_done) linarith+
    then have c: "match_done ps src (src + ps) lim mem ?mem" using "1.prems"(2) by simp
    have len: "length base = length mem" "length ?mem = length mem"
      using match_done_length [OF "1.prems"(9)] match_done_length [OF c] by simp_all
    have n: "match_done (m + ps) src (src + d) lim base ?mem"
      using match_done_multiple [OF "1.prems"(9) c "1.prems"(4,5,6)] "1.prems"(2,7,8) room len by linarith
    have r: "double_pattern src (op + ps) (ps * 2) ?mem = (op', ps', mem')"
      using "1.prems"(1,3) True by (simp add: double_pattern.simps [of src op])
    show ?thesis
      by (rule "1.IH" [OF _ r _ _ _ _ _ _ _ n]) (use "1.prems" True room len in \<open>simp_all add: dvd_mult2\<close>)
  next
    case False
    then show ?thesis using "1.prems" by (auto simp: double_pattern.simps [of src op])
  qed
qed

lemma blocks8_done:
  assumes "blocks8 src op op_limit lim mem = (src', op', mem')" "src + 8 \<le> op" "lim \<le> length mem"
    "op \<le> op_limit"
  shows "\<exists>k. src' = src + k \<and> op' = op + k \<and> op' \<le> op_limit \<and> match_done k src op lim mem mem'"
  using assms
proof (induction src op op_limit lim mem rule: blocks8.induct)
  case (1 src op op_limit lim mem)
  show ?case
  proof (cases "op + 8 \<le> op_limit \<and> op + 8 \<le> lim")
    case True
    have c: "match_done 8 src op lim mem (copy64 src op mem)"
      unfolding copy64_def using "1.prems" True by (intro blit_done) auto
    have "blocks8 (src + 8) (op + 8) op_limit lim (copy64 src op mem) = (src', op', mem')"
      using True "1.prems"(1) by (simp add: blocks8.simps [of src op])
    then obtain k where k: "src' = src + 8 + k" "op' = op + 8 + k" "op' \<le> op_limit"
      "match_done k (src + 8) (op + 8) lim (copy64 src op mem) mem'"
      using "1.IH" [OF True] "1.prems" True match_done_length [OF c] by auto
    have "match_done (8 + k) src op lim mem mem'"
      using match_done_trans [OF c k(4)] True "1.prems" by simp
    then show ?thesis using k(1-3) by (intro exI [of _ "8 + k"]) simp
  next
    case False
    then show ?thesis using "1.prems" by (auto simp: blocks8.simps [of src op] match_done_def)
  qed
qed

lemma blocks16_done:
  assumes "blocks16 src op lim mem = (src', op', mem')" "src + 16 \<le> op" "lim \<le> length mem"
    "op \<le> lim"
  shows "\<exists>k. src' = src + k \<and> op' = op + k \<and> op' \<le> lim \<and> match_done k src op lim mem mem'"
  using assms
proof (induction src op lim mem rule: blocks16.induct)
  case (1 src op lim mem)
  show ?case
  proof (cases "op + 16 < lim")
    case True
    have c: "match_done 16 src op lim mem (copy128 src op mem)"
      unfolding copy128_def using "1.prems" True by (intro blit_done) auto
    have "blocks16 (src + 16) (op + 16) lim (copy128 src op mem) = (src', op', mem')"
      using True "1.prems"(1) by (simp add: blocks16.simps [of src op])
    then obtain k where k: "src' = src + 16 + k" "op' = op + 16 + k" "op' \<le> lim"
      "match_done k (src + 16) (op + 16) lim (copy128 src op mem) mem'"
      using "1.IH" [OF True] "1.prems" True match_done_length [OF c] by auto
    have "match_done (16 + k) src op lim mem mem'"
      using match_done_trans [OF c k(4)] True "1.prems" by simp
    then show ?thesis using k(1-3) by (intro exI [of _ "16 + k"]) simp
  next
    case False
    then show ?thesis using "1.prems" by (auto simp: blocks16.simps [of src op] match_done_def)
  qed
qed

text \<open>A 16-byte copy, then the rest of the match when there is one.\<close>

lemma copy128_then:
  assumes "src + 16 \<le> op" "op + 16 \<le> lim" "lim \<le> length mem" "0 < len"
    "16 < len \<Longrightarrow> match_done (len - 16) (src + 16) (op + 16) lim (copy128 src op mem) mem'"
    "len \<le> 16 \<Longrightarrow> mem' = copy128 src op mem"
  shows "match_done len src op lim mem mem'"
proof -
  have c: "match_done 16 src op lim mem (copy128 src op mem)"
    unfolding copy128_def using assms(1-3) by (intro blit_done) auto
  show ?thesis
  proof (cases "16 < len")
    case True
    then show ?thesis using match_done_trans [OF c assms(5)] assms(1-3) by simp
  next
    case False
    then show ?thesis using match_done_mono [OF c, of len] assms(6) by simp
  qed
qed

lemma length_copy128: "src \<le> op \<Longrightarrow> op + 16 \<le> length mem \<Longrightarrow> length (copy128 src op mem) = length mem"
  by (simp add: copy128_def)

lemma quad_copy_done:
  assumes "src + 16 \<le> op" "op + len + 15 \<le> lim" "lim \<le> length mem" "0 < len" "len \<le> 64"
  shows "match_done len src op lim mem (quad_copy src op len mem)"
proof -
  define a where "a = copy128 src op mem"
  define b where "b = copy128 (src + 16) (op + 16) a"
  define c where "c = copy128 (src + 32) (op + 32) b"
  define d where "d = copy128 (src + 48) (op + 48) c"
  have q: "quad_copy src op len mem = (if 48 < len then d else if 32 < len then c else if 16 < len then b else a)"
    by (simp add: quad_copy_def Let_def a_def b_def c_def d_def)
  have la: "length a = length mem" unfolding a_def using assms by (intro length_copy128) auto
  have lb: "16 < len \<Longrightarrow> length b = length mem" unfolding b_def la [symmetric] using assms la by (intro length_copy128) auto
  have lc: "32 < len \<Longrightarrow> length c = length mem" using assms lb length_copy128 [of "src + 32" "op + 32" b] by (simp add: c_def)
  have eqs: "copy128 (32 + src) (32 + op) b = c" "copy128 (16 + src) (16 + op) a = b"
    by (simp_all add: c_def b_def add.commute)
  have 3: "match_done (len - 32 - 16) (src + 32 + 16) (op + 32 + 16) lim c d" if "48 < len"
    by (rule copy128_then) (use that assms lc in \<open>simp_all add: d_def add.commute\<close>)
  have 2: "match_done (len - 16 - 16) (src + 16 + 16) (op + 16 + 16) lim b (if 48 < len then d else c)" if "32 < len"
    by (rule copy128_then) (use that assms lb 3 in \<open>auto simp: eqs split: if_splits simp flip: c_def\<close>)
  have 1: "match_done (len - 16) (src + 16) (op + 16) lim a (if 48 < len then d else if 32 < len then c else b)"
    if "16 < len"
    by (rule copy128_then) (use that assms la 2 in \<open>auto simp: eqs split: if_splits simp flip: b_def\<close>)
  show ?thesis unfolding q
    by (rule copy128_then) (use assms 1 in \<open>auto split: if_splits simp flip: a_def\<close>)
qed

lemma short_pattern_done:
  assumes "src < op" "op \<le> op_limit" "op_limit \<le> lim" "lim \<le> length mem" "op + 11 \<le> lim"
    "double_pattern src op (op - src) mem = (op1, ps, mem1)"
  shows "match_done (op_limit - op) src op lim mem
     (if op_limit \<le> op1 then mem1
      else case blocks8 (op1 - ps) op1 op_limit lim mem1 of
             (src2, op2, mem2) \<Rightarrow>
               if op_limit \<le> op2 then mem2 else incremental_copy_slow src2 op2 op_limit mem2)"
proof -
  define d where "d = op - src"
  have op: "op = src + d" "0 < d" using assms(1) by (simp_all add: d_def)
  have "src + ps = op1 \<and> 8 \<le> ps \<and> d dvd ps \<and> op1 \<le> lim \<and> d \<le> ps \<and>
    match_done (ps - d) src (src + d) lim mem mem1"
  proof (rule double_pattern_done [of src op d mem op1 ps mem1 d 0])
    show "double_pattern src op d mem = (op1, ps, mem1)" using assms(6) by (simp add: d_def)
    have "double_room d \<le> 11" by simp
    then show "op + double_room d \<le> lim" using assms(5) by linarith
  qed (use op assms(4) in \<open>simp_all add: match_done_def\<close>)
  then have dp: "op1 = src + ps" "8 \<le> ps" "d dvd ps" "op1 \<le> lim" "d \<le> ps"
    "match_done (ps - d) src op lim mem mem1" by (auto simp: op)
  have len1: "length mem1 = length mem" using match_done_length [OF dp(6)] .
  show ?thesis
  proof (cases "op_limit \<le> op1")
    case True
    then show ?thesis using match_done_mono [OF dp(6), of "op_limit - op"] op dp(1) by simp
  next
    case False
    obtain src2 op2 mem2 where b: "blocks8 src op1 op_limit lim mem1 = (src2, op2, mem2)"
      by (metis prod_cases3)
    from blocks8_done [OF b] obtain k where k: "src2 = src + k" "op2 = op1 + k" "op2 \<le> op_limit"
      "match_done k src op1 lim mem1 mem2" using dp len1 False assms(4) by auto
    have len2: "length mem2 = length mem" using match_done_length [OF k(4)] len1 by simp
    let ?r = "if op_limit \<le> op2 then mem2 else incremental_copy_slow src2 op2 op_limit mem2"
    have "match_done (op_limit - op2) src2 op2 lim mem2 ?r"
    proof (cases "op_limit \<le> op2")
      case False
      then show ?thesis using slow_done [of src2 op2 op_limit lim mem2] k(1-3) dp(1,2) assms(3,4) len2 by simp
    qed (simp add: match_done_def)
    then have "match_done (k + (op_limit - op2)) src op1 lim mem1 ?r"
      using match_done_trans [OF k(4), of "op_limit - op2" ?r] k(1-3) dp assms(3,4) len1 by simp
    then have m2: "match_done (k + (op_limit - op2)) src (src + ps) lim mem1 ?r" using dp(1) by simp
    have m1: "match_done (ps - d) src (src + d) lim mem mem1" using dp(6) op by simp
    have "src + ps + (k + (op_limit - op2)) \<le> length mem" using k(2,3) dp(1) assms(3,4) by simp
    then have "match_done (ps - d + (k + (op_limit - op2))) src (src + d) lim mem ?r"
      by (rule match_done_multiple [OF m1 m2 _ dp(3) op(2), rotated]) (use dp(5) in simp)
    moreover have "ps - d + (k + (op_limit - op2)) = op_limit - op" using dp(1,5) op k(2,3) by simp
    ultimately show ?thesis using False b dp(1) op by simp
  qed
qed

lemma near_end_done:
  assumes "src + 16 \<le> op" "op \<le> op_limit" "op_limit \<le> lim" "lim \<le> length mem"
    "blocks16 src op lim mem = (src1, op1, mem1)"
  shows "match_done (op_limit - op) src op lim mem
     (if op_limit \<le> op1 then mem1
      else if op1 + 8 \<le> lim then incremental_copy_slow (src1 + 8) (op1 + 8) op_limit (copy64 src1 op1 mem1)
      else incremental_copy_slow src1 op1 op_limit mem1)" (is "match_done _ _ _ _ _ ?r")
proof -
  have "op \<le> lim" using assms(2,3) by simp
  from blocks16_done [OF assms(5,1,4) this] obtain k where k: "src1 = src + k" "op1 = op + k" "op1 \<le> lim"
    "match_done k src op lim mem mem1" by blast
  have len: "length mem1 = length mem" using match_done_length [OF k(4)] .
  show ?thesis
  proof (cases "op_limit \<le> op1")
    case True
    then show ?thesis using match_done_mono [OF k(4), of "op_limit - op"] k(2) by simp
  next
    case False
    have "match_done (op_limit - op1) src1 op1 lim mem1 ?r"
    proof (cases "op1 + 8 \<le> lim")
      case True
      have c: "match_done 8 src1 op1 lim mem1 (copy64 src1 op1 mem1)"
        unfolding copy64_def using True k assms len by (intro blit_done) auto
      have lc: "length (copy64 src1 op1 mem1) = length mem" using match_done_length [OF c] len by simp
      show ?thesis
      proof (cases "op1 + 8 \<le> op_limit")
        case le: True
        have "match_done (op_limit - (op1 + 8)) (src1 + 8) (op1 + 8) lim (copy64 src1 op1 mem1) ?r"
          using slow_done [of "src1 + 8" "op1 + 8" op_limit lim "copy64 src1 op1 mem1"] k assms lc le True False by simp
        from match_done_trans [OF c this] show ?thesis using k assms len le by simp
      next
        case gt: False
        then show ?thesis using True False match_done_mono [OF c, of "op_limit - op1"]
          by (simp add: incremental_copy_slow_def)
      qed
    next
      case f: False
      then show ?thesis using False slow_done [of src1 op1 op_limit lim mem1] k assms len by simp
    qed
    then have "match_done (op_limit - op1) (src + k) (op + k) lim mem1 ?r" using k by simp
    from match_done_trans [OF k(4) this] show ?thesis using k assms False by simp
  qed
qed

lemma incremental_copy_done:
  assumes "src < op" "op < op_limit" "op_limit \<le> lim" "lim \<le> length mem" "op_limit \<le> op + 64"
  shows "match_done (op_limit - op) src op lim mem (incremental_copy src op op_limit lim mem)"
proof -
  obtain op1 ps mem1 where dp: "double_pattern src op (op - src) mem = (op1, ps, mem1)" by (metis prod_cases3)
  obtain src2 op2 mem2 where b16: "blocks16 src op lim mem = (src2, op2, mem2)" by (metis prod_cases3)
  show ?thesis
    using assms slow_done [of src op op_limit lim mem] short_pattern_done [OF _ _ _ _ _ dp, of op_limit lim]
      near_end_done [OF _ _ _ _ b16, of op_limit] quad_copy_done [of src op "op_limit - op" lim mem]
    by (simp add: incremental_copy_def Let_def dp b16)
qed

section \<open>The format\<close>

text \<open>
  The Snappy format read directly: an element is a literal or a copy of \<open>length\<close> bytes from
  \<open>offset\<close> bytes back, which repeats when the offset is shorter. With \<open>lax\<close> the length of a
  literal is taken modulo \<open>2 ^ 32\<close>: that is not the format but what the 32-bit addition of
  the decoder makes of it. The format is the reading without \<open>lax\<close>.
\<close>

datatype snappy_elem = Literal bytes | Copy nat nat

fun le_nat :: "bytes \<Rightarrow> nat" where
  "le_nat [] = 0"
| "le_nat (b # bs) = unat b + 256 * le_nat bs"

definition literal_elem :: "nat \<Rightarrow> bytes \<Rightarrow> (snappy_elem \<times> bytes) option" where
  "literal_elem n p = (if length p < n then None else Some (Literal (take n p), drop n p))"

definition copy_elem :: "nat \<Rightarrow> nat \<Rightarrow> nat \<Rightarrow> bytes \<Rightarrow> (snappy_elem \<times> bytes) option" where
  "copy_elem k high len p =
     (if length p < k then None else Some (Copy (high + le_nat (take k p)) len, drop k p))"

definition format_elem :: "bool \<Rightarrow> nat \<Rightarrow> bytes \<Rightarrow> (snappy_elem \<times> bytes) option" where
  "format_elem lax t p =
     (if t mod 4 = 0
      then if t div 4 < 60 then literal_elem (t div 4 + 1) p
           else let k = t div 4 - 59;
                    len = le_nat (take k p) + 1 in
                if length p < k then None else literal_elem (if lax then len mod 2 ^ 32 else len) (drop k p)
      else if t mod 4 = 1 then copy_elem 1 (t div 32 * 256) (4 + t div 4 mod 8) p
      else if t mod 4 = 2 then copy_elem 2 0 (t div 4 + 1) p
      else copy_elem 4 0 (t div 4 + 1) p)"

definition repeat_back :: "nat \<Rightarrow> nat \<Rightarrow> bytes \<Rightarrow> bytes" where
  "repeat_back off len out = map (\<lambda>i. out ! (length out - off + i mod off)) [0..<len]"

fun apply_elem :: "nat \<Rightarrow> bytes \<Rightarrow> snappy_elem \<Rightarrow> bytes option" where
  "apply_elem n out (Literal bs) = (if n < length out + length bs then None else Some (out @ bs))"
| "apply_elem n out (Copy off len) =
     (if off = 0 \<or> length out < off \<or> n < length out + len then None else Some (out @ repeat_back off len out))"

definition format_step :: "bool \<Rightarrow> nat \<Rightarrow> nat \<Rightarrow> bytes \<Rightarrow> bytes \<Rightarrow> (bytes \<times> bytes) option" where
  "format_step lax n t p out =
     (case format_elem lax t p of
        None \<Rightarrow> None
      | Some (e, p') \<Rightarrow> (case apply_elem n out e of None \<Rightarrow> None | Some out' \<Rightarrow> Some (p', out')))"

lemma literal_elem_rest: "literal_elem n p = Some (e, p') \<Longrightarrow> length p' \<le> length p"
  by (auto simp: literal_elem_def split: if_splits)

lemma format_step_rest: "format_step lax n t p out = Some (p', out') \<Longrightarrow> length p' \<le> length p"
  by (auto simp: format_step_def format_elem_def copy_elem_def Let_def
      dest!: literal_elem_rest split: if_splits option.splits)

text \<open>The whole stream of \<open>n\<close> bytes of output: nothing may follow the element that completes it.\<close>

function format_stream :: "bool \<Rightarrow> nat \<Rightarrow> bytes \<Rightarrow> bytes \<Rightarrow> bytes option" where
  "format_stream lax n p out =
     (case p of
        [] \<Rightarrow> if length out = n then Some out else None
      | tag # p' \<Rightarrow>
          if length out < n
          then case format_step lax n (unat tag) p' out of
                 None \<Rightarrow> None
               | Some (p'', out') \<Rightarrow> format_stream lax n p'' out'
          else None)"
  by pat_completeness auto
termination
  by (relation "measure (\<lambda>(lax, n, p, out). length p)") (auto simp: less_Suc_eq_le dest: format_step_rest)

declare format_stream.simps [simp del]

section \<open>The element decoder follows the format\<close>

lemma le_nat_less: "le_nat bs < 256 ^ length bs"
proof (induction bs)
  case (Cons b bs)
  have "unat b < 256" using unsigned_less [of b] by simp
  then show ?case using Cons by simp
qed simp

lemma unat_le_load:
  "8 * length bs \<le> LENGTH('a) \<Longrightarrow> unat (le_load bs :: 'a::len word) = le_nat bs"
proof (induction bs)
  case (Cons b bs)
  let ?l = "le_load bs :: 'a word"
  have b: "unat b < 256" using unsigned_less [of b] by simp
  have len: "8 + 8 * length bs \<le> LENGTH('a)" using Cons.prems by simp
  have all: "unat b + 256 * le_nat bs < 2 ^ LENGTH('a)"
  proof -
    have "unat b + 256 * le_nat bs < 256 * 256 ^ length bs" using le_nat_less [of "b # bs"] by simp
    also have "\<dots> = (2 :: nat) ^ (8 + 8 * length bs)" by (simp add: power_add power_mult)
    also have "\<dots> \<le> 2 ^ LENGTH('a)" using len by (intro power_increasing) auto
    finally show ?thesis .
  qed
  then have small: "256 * le_nat bs < 2 ^ LENGTH('a)" by simp
  have l: "unat ?l = le_nat bs" using Cons by simp
  have "unat (push_bit 8 ?l) = 256 * le_nat bs"
    unfolding unsigned_push_bit_eq l
    using small by (simp add: take_bit_nat_eq_self_iff push_bit_eq_mult mult.commute)
  moreover have "unat (ucast b :: 'a word) = unat b" using len by (intro unat_ucast_up) simp
  moreover have "ucast b OR push_bit 8 ?l = (ucast b + push_bit 8 ?l :: 'a word)"
    by (rule disjunctive_add [symmetric]) (auto simp: bit_simps dest: bit_imp_le_length)
  ultimately show ?case
    using all by (simp add: unat_word_ariths(1))
qed simp

lemma length_table:
  "list_all2 (\<lambda>t e. (t mod 4 = 1 \<longrightarrow> unat (e AND 0xFF) = 4 + t div 4 mod 8) \<and>
      (t mod 4 = 2 \<longrightarrow> unat (e AND 0xFF) = t div 4 + 1)) [0..<256] kLengthMinusOffset"
  by (simp add: kLengthMinusOffset_def upt_rec [where j = 256])

lemma length_entry:
  "unat tag mod 4 = 1 \<Longrightarrow> unat (kLengthMinusOffset ! unat tag AND 0xFF) = 4 + unat tag div 4 mod 8"
  "unat tag mod 4 = 2 \<Longrightarrow> unat (kLengthMinusOffset ! unat tag AND 0xFF) = unat tag div 4 + 1"
  for tag :: u8
  using list_all2_nthD [OF length_table, of "unat tag"] unsigned_less [of tag] by simp_all

lemma tag_type: "unat (tag AND 3) = unat tag mod 4" for tag :: u8
  using unat_and_mask [of tag 2] by (simp add: mask_eq_exp_minus_1)

lemma unat_div4: "unat (drop_bit 2 tag) = unat tag div 4" for tag :: u8
  by (simp add: unat_drop_bit_word)

text \<open>What one element does to the array: nothing beyond \<open>n\<close>, and the output grows as the format says.\<close>

definition follows_format :: "nat \<Rightarrow> bytes \<Rightarrow> (bytes \<times> bytes) option \<Rightarrow> snappy_step \<Rightarrow> bool" where
  "follows_format n dst spec r \<longleftrightarrow>
     (case spec of
        None \<Rightarrow> r = None
      | Some (p, out) \<Rightarrow> \<exists>dst'. r = Some (p, length out, dst') \<and> take (length out) dst' = out \<and>
          length out \<le> n \<and> length dst' = length dst \<and> drop n dst' = drop n dst)"

lemma literal_written:
  assumes "op \<le> n" "n \<le> length dst" "len \<le> w" "w \<le> length ip" "op + w \<le> n"
  shows "take (op + len) (write_at op (take w ip) dst) = take op dst @ take len ip"
    "length (write_at op (take w ip) dst) = length dst"
    "drop n (write_at op (take w ip) dst) = drop n dst"
proof -
  have m: "min w len = len" "min (length ip) w = w" "min (length dst) op = op" using assms by auto
  show "take (op + len) (write_at op (take w ip) dst) = take op dst @ take len ip"
    using assms m by (simp add: write_at_def min.commute)
  show "length (write_at op (take w ip) dst) = length dst" using assms m by (simp add: write_at_def)
  show "drop n (write_at op (take w ip) dst) = drop n dst" using assms m by (simp add: write_at_def)
qed

lemma copy_written:
  assumes "match_done len (op - off) op n dst dst'" "0 < off" "off \<le> op" "op + len \<le> n" "n \<le> length dst"
  shows "take (op + len) dst' = take op dst @ repeat_back off len (take op dst)"
proof (rule nth_equalityI)
  have c: "copied len (op - off) (op - off + off) dst dst'" using assms(1,3) by (simp add: match_done_def)
  have l: "length dst' = length dst" using copied_length [OF c] .
  show "length (take (op + len) dst') = length (take op dst @ repeat_back off len (take op dst))"
    using assms l by (simp add: repeat_back_def)
  fix i assume "i < length (take (op + len) dst')"
  then have i: "i < op + len" by simp
  have m: "min (length dst) op = op" using assms by simp
  show "take (op + len) dst' ! i = (take op dst @ repeat_back off len (take op dst)) ! i"
  proof (cases "i < op")
    case True
    have "take op dst' = take op dst" using c assms(3) by (simp add: copied_def)
    then show ?thesis using True m i by (metis nth_append nth_take length_take)
  next
    case False
    have j: "op - off + (i - op) mod off < op"
      using mod_less_divisor [of off "i - op"] assms(2,3) by linarith
    have "dst' ! (op - off + off + (i - op)) = dst ! (op - off + (i - op) mod off)"
      using assms False i by (intro copied_periodic [OF c]) auto
    moreover have "i - op < len" using False i by simp
    ultimately show ?thesis using False i m j assms(3) by (simp add: nth_append repeat_back_def)
  qed
qed

lemma copy_follows:
  assumes "match_done len (op - off) op n dst dst'" "0 < off" "off \<le> op" "op + len \<le> n" "n \<le> length dst"
  shows "follows_format n dst (Some (p, take op dst @ repeat_back off len (take op dst))) (Some (p, op + len, dst'))"
  using assms copy_written [OF assms] match_done_length [OF assms(1)]
  by (auto simp: follows_format_def match_done_def repeat_back_def)

lemma literal_mask:
  assumes "0 < k" "k \<le> 4" "length bs = k"
  shows "(le_load bs :: u32) AND ucast (NOT (push_bit (8 * k) (0xFFFFFFFF :: u64))) = le_load bs"
proof (rule bit_eqI)
  fix i
  show "bit ((le_load bs :: u32) AND ucast (NOT (push_bit (8 * k) (0xFFFFFFFF :: u64)))) i = bit (le_load bs :: u32) i"
    using assms by (auto simp: bit_simps bit_le_load_iff)
qed

lemma literal_length_format:
  assumes "unat tag mod 4 = 0"
  shows "literal_length tag ip =
    (if unat tag div 4 < 60 then Some (unat tag div 4 + 1, ip)
     else let k = unat tag div 4 - 59 in
          if length ip < k then None else Some ((le_nat (take k ip) + 1) mod 2 ^ 32, drop k ip))"
proof -
  have "unat tag < 256" using unsigned_less [of tag] by simp
  then have t: "unat tag div 4 < 64" by simp
  define k where "k = unat tag div 4 - 59"
  have "unat (le_load (take k ip) + 1 :: u32) = (le_nat (take k ip) + 1) mod 2 ^ 32"
    if "k \<le> 4" using unat_le_load [of "take k ip", where 'a = 32] that
    by (simp add: unat_word_ariths(1))
  moreover have "(le_load (take k ip) :: u32) AND ucast (NOT (push_bit (8 * k) (0xFFFFFFFF :: u64))) = le_load (take k ip)"
    if "0 < k" "k \<le> 4" "k \<le> length ip" using literal_mask [of k "take k ip"] that by simp
  ultimately show ?thesis
    using t unfolding literal_length_def Let_def unat_div4 k_def [symmetric] by (auto simp: k_def)
qed

lemma write_literal_follows:
  assumes "op \<le> n" "n \<le> length dst"
  shows "follows_format n dst
      (case literal_elem len ip of None \<Rightarrow> None
       | Some (e, p') \<Rightarrow> (case apply_elem n (take op dst) e of None \<Rightarrow> None | Some out' \<Rightarrow> Some (p', out')))
      (write_literal n len ip op dst)"
  using assms literal_written [of op n dst len 16 ip] literal_written [of op n dst len len ip]
  by (auto simp: literal_elem_def follows_format_def write_literal_def)

lemma snappy_literal_follows:
  assumes "op \<le> n" "n \<le> length dst" "unat tag mod 4 = 0"
  shows "follows_format n dst (format_step True n (unat tag) ip (take op dst)) (snappy_literal n tag ip op dst)"
proof -
  note lit = write_literal_follows [OF assms(1,2)]
  consider "unat tag div 4 < 60" | "\<not> unat tag div 4 < 60" "length ip < unat tag div 4 - 59"
    | "\<not> unat tag div 4 < 60" "\<not> length ip < unat tag div 4 - 59" by blast
  then show ?thesis
  proof cases
    case 1
    then show ?thesis using assms(3) lit [of "unat tag div 4 + 1" ip]
      by (simp add: snappy_literal_def literal_length_format format_step_def format_elem_def)
  next
    case 2
    then show ?thesis using assms(3)
      by (simp add: snappy_literal_def literal_length_format format_step_def format_elem_def follows_format_def)
  next
    case 3
    then show ?thesis using assms(3)
        lit [of "(le_nat (take (unat tag div 4 - 59) ip) + 1) mod 2 ^ 32" "drop (unat tag div 4 - 59) ip"]
      by (simp add: snappy_literal_def literal_length_format format_step_def format_elem_def Let_def)
  qed
qed

lemma copy_step:
  assumes "op \<le> n" "n \<le> length dst" "0 < len"
    "\<And>off. 0 < off \<Longrightarrow> off \<le> op \<Longrightarrow> op + len \<le> n \<Longrightarrow> match_done len (op - off) op n dst (f off)"
  shows "follows_format n dst (case apply_elem n (take op dst) (Copy off len) of None \<Rightarrow> None | Some out' \<Rightarrow> Some (p, out'))
    (if off = 0 \<or> op < off then None else if n < op + len then None else Some (p, op + len, f off))"
proof (cases "off = 0 \<or> op < off \<or> n < op + len")
  case True
  then show ?thesis using assms(1,2) by (auto simp: follows_format_def)
next
  case False
  then show ?thesis
    using copy_follows [OF assms(4), of off p] assms(1,2) by auto
qed

lemma copy_match_done:
  assumes "0 < off" "off \<le> op" "0 < len" "len \<le> 64" "op + len \<le> n" "n \<le> length dst"
  shows "match_done len (op - off) op n dst (copy_match n off op len dst)"
proof -
  have q: "match_done len (op - off) op n dst (quad_copy (op - off) op len dst)"
    if "16 \<le> off" "op + len + 63 \<le> n" using assms that by (intro quad_copy_done) auto
  have b: "match_done len (op - off) op n dst (blit 64 (op - off) op dst)"
    if "len \<le> off" "op + len + 63 \<le> n" using assms that by (intro blit_done) auto
  have i: "match_done len (op - off) op n dst (incremental_copy (op - off) op (op + len) n dst)"
    using incremental_copy_done [of "op - off" op "op + len" n dst] assms by simp
  show ?thesis using q b i assms(3) by (auto simp: copy_match_def Let_def split: if_splits)
qed

lemma tag_type_iff:
  "tag AND 3 = 0 \<longleftrightarrow> unat tag mod 4 = 0" "tag AND 3 = 1 \<longleftrightarrow> unat tag mod 4 = 1" "tag AND 3 = 3 \<longleftrightarrow> unat tag mod 4 = 3"
  for tag :: u8
  unfolding word_eq_iff_unsigned [where ?'a = nat] tag_type by simp_all

lemma copy1_offset: "unat (push_bit 3 (ucast (tag AND 0xE0)) OR (ucast b :: u32)) = unat tag div 32 * 256 + unat b"
  for tag b :: u8
proof -
  have e: "push_bit 3 (ucast (tag AND 0xE0)) OR (ucast b :: u32) = le_load [b, drop_bit 5 tag]"
  proof (rule bit_eqI)
    fix i :: nat
    have m: "(0xE0 :: u8) = NOT (mask 5)" by (simp add: mask_eq_exp_minus_1)
    show "bit (push_bit 3 (ucast (tag AND 0xE0)) OR (ucast b :: u32)) i = bit (le_load [b, drop_bit 5 tag] :: u32) i"
    proof (cases "i < 8")
      case True
      then show ?thesis unfolding m by (auto simp: bit_simps)
    next
      case False
      then obtain j where "i = 8 + j" by (metis le_Suc_ex not_less)
      then show ?thesis unfolding m
        using bit_imp_le_length [of b i] bit_imp_le_length [of tag "5 + j"] by (auto simp: bit_simps)
    qed
  qed
  show ?thesis unfolding e using unat_le_load [of "[b, drop_bit 5 tag]", where 'a = 32] by (simp add: unat_drop_bit_word)
qed

lemma copy2_offset: "unat (ucast b0 OR push_bit 8 (ucast b1) :: u32) = le_nat [b0, b1]" for b0 b1 :: u8
  using unat_le_load [of "[b0, b1]", where 'a = 32] by simp

lemma copy12_follows:
  assumes "op \<le> n" "n \<le> length dst" "0 < len"
    "\<And>off. 0 < off \<Longrightarrow> off \<le> op \<Longrightarrow> op + len \<le> n \<Longrightarrow> match_done len (op - off) op n dst (f off)"
  shows "follows_format n dst
      (case copy_elem k high len ip of None \<Rightarrow> None
       | Some (e, p') \<Rightarrow> (case apply_elem n (take op dst) e of None \<Rightarrow> None | Some out' \<Rightarrow> Some (p', out')))
      (if length ip < k then None
       else let off = high + le_nat (take k ip) in
            if off = 0 \<or> op < off then None
            else if n < op + len then None else Some (drop k ip, op + len, f off))"
proof (cases "length ip < k")
  case True
  then show ?thesis by (simp add: copy_elem_def follows_format_def)
next
  case False
  then show ?thesis
    using copy_step [OF assms, where off = "high + le_nat (take k ip)" and p = "drop k ip"]
    by (simp only: copy_elem_def Let_def if_False option.case prod.case)
qed

lemma copy_trailer_offset:
  "unat tag mod 4 = 1 \<Longrightarrow> map_option (\<lambda>(t, p). (unat t, p)) (copy_trailer tag ip) =
     (if length ip < 1 then None else Some (unat tag div 32 * 256 + le_nat (take 1 ip), drop 1 ip))"
  "unat tag mod 4 = 2 \<Longrightarrow> map_option (\<lambda>(t, p). (unat t, p)) (copy_trailer tag ip) =
     (if length ip < 2 then None else Some (0 + le_nat (take 2 ip), drop 2 ip))"
  by (auto simp: copy_trailer_def tag_type_iff copy1_offset copy2_offset split: list.splits)

lemma snappy_copy12_offset:
  "snappy_copy12 n tag ip op dst =
     (case map_option (\<lambda>(t, p). (unat t, p)) (copy_trailer tag ip) of
        None \<Rightarrow> None
      | Some (off, p) \<Rightarrow>
          let len = unat (kLengthMinusOffset ! unat tag AND 0xFF) in
          if off = 0 \<or> op < off then None
          else if n < op + len then None
          else Some (p, op + len, copy_match n off op len dst))"
  by (simp add: snappy_copy12_def Let_def split: option.split)

lemma snappy_copy12_follows:
  assumes "op \<le> n" "n \<le> length dst" "unat tag mod 4 = 1 \<or> unat tag mod 4 = 2"
  shows "follows_format n dst (format_step True n (unat tag) ip (take op dst)) (snappy_copy12 n tag ip op dst)"
proof -
  have t: "unat tag < 256" using unsigned_less [of tag] by simp
  define len where "len = unat (kLengthMinusOffset ! unat tag AND 0xFF)"
  have l: "0 < len" "len \<le> 64" using assms(3) t length_entry [of tag] by (auto simp: len_def)
  note f = copy12_follows [OF assms(1,2) l(1) copy_match_done [OF _ _ l _ assms(2)]]
  show ?thesis
  proof (cases "unat tag mod 4 = 1")
    case True
    have e: "len = 4 + unat tag div 4 mod 8" using length_entry(1) [OF True] by (simp add: len_def)
    have "snappy_copy12 n tag ip op dst =
      (if length ip < 1 then None
       else let off = unat tag div 32 * 256 + le_nat (take 1 ip) in
            if off = 0 \<or> op < off then None
            else if n < op + len then None else Some (drop 1 ip, op + len, copy_match n off op len dst))"
      unfolding snappy_copy12_offset copy_trailer_offset(1) [OF True] len_def [symmetric]
      by (cases "length ip < 1") (simp_all only: if_True if_False option.case prod.case Let_def simp_thms)
    moreover have "format_elem True (unat tag) ip = copy_elem 1 (unat tag div 32 * 256) len ip"
      using True by (simp add: format_elem_def e)
    ultimately show ?thesis
      using f [where k = 1 and high = "unat tag div 32 * 256" and ip = ip] by (simp only: format_step_def)
  next
    case False
    then have t2: "unat tag mod 4 = 2" using assms(3) by simp
    have e: "len = unat tag div 4 + 1" using length_entry(2) [OF t2] by (simp add: len_def)
    have "snappy_copy12 n tag ip op dst =
      (if length ip < 2 then None
       else let off = 0 + le_nat (take 2 ip) in
            if off = 0 \<or> op < off then None
            else if n < op + len then None else Some (drop 2 ip, op + len, copy_match n off op len dst))"
      unfolding snappy_copy12_offset copy_trailer_offset(2) [OF t2] len_def [symmetric]
      by (cases "length ip < 2") (simp_all only: if_True if_False option.case prod.case Let_def simp_thms)
    moreover have "format_elem True (unat tag) ip = copy_elem 2 0 len ip"
      using t2 by (simp add: format_elem_def e)
    ultimately show ?thesis
      using f [where k = 2 and high = 0 and ip = ip] by (simp only: format_step_def)
  qed
qed

lemma snappy_copy4_follows:
  assumes "op \<le> n" "n \<le> length dst" "unat tag mod 4 = 3"
  shows "follows_format n dst (format_step True n (unat tag) ip (take op dst)) (snappy_copy4 n tag ip op dst)"
proof -
  define len where "len = unat tag div 4 + 1"
  have t: "unat tag < 256" using unsigned_less [of tag] by simp
  then have l: "0 < len" "len \<le> 64" by (simp_all add: len_def)
  have i: "match_done len (op - off) op n dst (incremental_copy (op - off) op (op + len) n dst)"
    if "0 < off" "off \<le> op" "op + len \<le> n" for off
    using incremental_copy_done [of "op - off" op "op + len" n dst] assms that l by simp
  have len: "unat (drop_bit 2 tag AND 0x3F) + 1 = len"
    using t unat_and_mask [of "drop_bit 2 tag" 6] by (simp add: mask_eq_exp_minus_1 unat_div4 len_def)
  have off: "unat (load32 ip 0) = 0 + le_nat (take 4 ip)"
    using unat_le_load [of "take 4 ip", where 'a = 32] by (simp add: load32_def)
  have "snappy_copy4 n tag ip op dst = (if length ip < 4 then None
       else let off = 0 + le_nat (take 4 ip) in
            if off = 0 \<or> op < off then None
            else if n < op + len then None
            else Some (drop 4 ip, op + len, incremental_copy (op - off) op (op + len) n dst))"
    unfolding snappy_copy4_def Let_def len off by simp
  moreover have "format_elem True (unat tag) ip = copy_elem 4 0 len ip"
    using assms(3) by (simp add: format_elem_def len_def)
  ultimately show ?thesis
    using copy12_follows [OF assms(1,2) l(1) i, where k = 4 and high = 0 and ip = ip] by (simp only: format_step_def)
qed

lemma snappy_element_follows:
  assumes "op \<le> n" "n \<le> length dst"
  shows "follows_format n dst (format_step True n (unat tag) ip (take op dst)) (snappy_element n tag ip op dst)"
proof -
  consider "unat tag mod 4 = 0" | "unat tag mod 4 = 1 \<or> unat tag mod 4 = 2" | "unat tag mod 4 = 3"
    using mod_less_divisor [of 4 "unat tag"] by linarith
  then show ?thesis
    using snappy_literal_follows [OF assms] snappy_copy12_follows [OF assms] snappy_copy4_follows [OF assms]
    by cases (auto simp: snappy_element_def tag_type_iff)
qed

text \<open>Whatever the input, the loop writes below \<open>n\<close> only; it ends well exactly on a stream of the lax reading.\<close>

lemma snappy_loop_follows:
  assumes "op \<le> n" "n \<le> length dst" "snappy_loop n ip op dst = (ok, ip', op', dst')"
  shows "length dst' = length dst \<and> drop n dst' = drop n dst \<and>
    (case format_stream True n ip (take op dst) of
       None \<Rightarrow> \<not> ok \<or> op' \<noteq> n \<or> ip' \<noteq> []
     | Some out \<Rightarrow> ok \<and> op' = n \<and> ip' = [] \<and> length out = n \<and> take n dst' = out)"
  using assms
proof (induction n ip op dst rule: snappy_loop.induct)
  case (1 n ip op dst)
  have l: "length (take op dst) = op" using "1.prems" by simp
  show ?case
  proof (cases ip)
    case Nil
    then show ?thesis using "1.prems" l by (auto simp: snappy_loop.simps [of n "[]"] format_stream.simps [of True n "[]"])
  next
    case (Cons tag p)
    show ?thesis
    proof (cases "op < n")
      case False
      then have "format_stream True n ip (take op dst) = None" "snappy_loop n ip op dst = (True, ip, op, dst)"
        using l Cons by (simp_all add: snappy_loop.simps [of n "tag # p"] format_stream.simps [of True n "tag # p"])
      then show ?thesis using "1.prems"(3) Cons by auto
    next
      case True
      note f = snappy_element_follows [OF "1.prems"(1,2), of tag p]
      show ?thesis
      proof (cases "format_step True n (unat tag) p (take op dst)")
        case None
        then have "format_stream True n ip (take op dst) = None" "snappy_loop n ip op dst = (False, ip, op, dst)"
          using f l Cons True
          by (simp_all add: follows_format_def snappy_loop.simps [of n "tag # p"] format_stream.simps [of True n "tag # p"])
        then show ?thesis using "1.prems"(3) by auto
      next
        case (Some r)
        obtain p' out where r: "r = (p', out)" by fastforce
        from f Some r obtain d where d: "snappy_element n tag p op dst = Some (p', length out, d)"
          "take (length out) d = out" "length out \<le> n" "length d = length dst" "drop n d = drop n dst"
          by (auto simp: follows_format_def)
        have "snappy_loop n p' (length out) d = (ok, ip', op', dst')"
          using "1.prems"(3) Cons True d(1) by (simp add: snappy_loop.simps [of n "tag # p"])
        from "1.IH" [OF Cons True d(1) refl refl d(3) _ this] d "1.prems"(2) Some r True l Cons
        show ?thesis by (simp add: format_stream.simps [of True n "tag # p"])
      qed
    qed
  qed
qed

section \<open>The decompressor\<close>

text \<open>The length in front of the stream: the base-128 varint, read over the integers.\<close>

fun varint_nat :: "nat \<Rightarrow> bytes \<Rightarrow> (nat \<times> bytes) option" where
  "varint_nat k [] = None"
| "varint_nat k (b # p) =
     (if b < 128 then Some (unat b, p)
      else if k = 0 then None
      else map_option (\<lambda>(v, r). (unat b - 128 + 128 * v, r)) (varint_nat (k - 1) p))"

definition snappy_format :: "bytes \<Rightarrow> nat \<Rightarrow> bytes option" where
  "snappy_format s capacity =
     (case varint_nat 4 s of
        None \<Rightarrow> None
      | Some (n, p) \<Rightarrow> if 2 ^ 32 \<le> n \<or> capacity < n then None else format_stream False n p [])"

lemma varint_digit:
  fixes acc :: u32 and b :: u8
  assumes "unat acc < 2 ^ s" "2 ^ s * (unat b mod 128) + 2 ^ s \<le> 2 ^ 32"
  shows "unat (acc OR push_bit s (ucast (b AND 0x7F))) = unat acc + 2 ^ s * (unat b mod 128)"
proof -
  have m: "unat (b AND 0x7F) = unat b mod 128" using unat_and_mask [of b 7] by (simp add: mask_eq_exp_minus_1)
  have low: "\<not> bit acc i" if "s \<le> i" for i using not_bit_if_small [OF assms(1) that] .
  have p: "unat (push_bit s (ucast (b AND 0x7F) :: u32)) = 2 ^ s * (unat b mod 128)"
    unfolding unsigned_push_bit_eq unat_ucast_up [of "b AND 0x7F" , where 'b = 32, simplified] m
    using assms by (simp add: push_bit_eq_mult take_bit_nat_eq_self_iff mult.commute)
  have "acc OR push_bit s (ucast (b AND 0x7F)) = acc + push_bit s (ucast (b AND 0x7F))"
    by (rule disjunctive_add [symmetric]) (use low in \<open>auto simp: bit_push_bit_iff\<close>)
  then show ?thesis using p assms by (simp add: unat_word_ariths(1))
qed

lemma varint_from_nat:
  "k \<le> 4 \<Longrightarrow> unat acc < 2 ^ (28 - 7 * k) \<Longrightarrow>
   map_option (\<lambda>(v, p). (unat v, p)) (snappy_read_varint_from (28 - 7 * k) acc p) =
     (case varint_nat k p of
        None \<Rightarrow> None
      | Some (v, r) \<Rightarrow> if 2 ^ (4 + 7 * k) \<le> v then None else Some (unat acc + 2 ^ (28 - 7 * k) * v, r))"
proof (induction k p arbitrary: acc rule: varint_nat.induct)
  case (1 k)
  then show ?case by simp
next
  case (2 k b p)
  define s where "s = 28 - 7 * k"
  let ?acc = "acc OR push_bit s (ucast (b AND 0x7F)) :: u32"
  have b: "unat b < 256" "b < 128 \<longleftrightarrow> unat b < 128" "b < 16 \<longleftrightarrow> unat b < 16"
    using unsigned_less [of b] by (simp_all add: word_less_nat_alt)
  show ?case
  proof (cases "k = 0")
    case True
    then show ?thesis
      using "2.prems" b varint_digit [of acc 28 b] by (simp add: Let_def)
  next
    case False
    then have s: "s < 28" "s \<le> 21" "s + 7 = 28 - 7 * (k - 1)" using "2.prems" by (simp_all add: s_def)
    have dig: "unat ?acc = unat acc + 2 ^ s * (unat b mod 128)"
    proof (rule varint_digit)
      show "unat acc < 2 ^ s" using "2.prems" by (simp add: s_def)
      have "2 ^ s * (unat b mod 128) + 2 ^ s \<le> 2 ^ s * (127 :: nat) + 2 ^ s" by simp
      also have "\<dots> \<le> 2 ^ 21 * 127 + 2 ^ 21" using s(2) by (intro add_mono mult_mono power_increasing) auto
      finally show "2 ^ s * (unat b mod 128) + 2 ^ s \<le> (2 :: nat) ^ 32" by simp
    qed
    show ?thesis
    proof (cases "b < 128")
      case True
      have "(128 :: nat) \<le> 2 ^ (4 + 7 * k)" using False power_increasing [of 7 "4 + 7 * k" "2 :: nat"] by simp
      then show ?thesis using True b s dig by (simp add: Let_def flip: s_def)
    next
      case big: False
      have "unat ?acc < 2 ^ s * 128"
      proof -
        have "unat acc < 2 ^ s" using "2.prems" by (simp add: s_def)
        moreover have "2 ^ s * (unat b mod 128) \<le> 2 ^ s * (127 :: nat)" by simp
        ultimately show ?thesis unfolding dig by linarith
      qed
      then have a: "unat ?acc < 2 ^ (28 - 7 * (k - 1))" unfolding s(3) [symmetric] by (simp add: power_add)
      have e: "(2 :: nat) ^ (4 + 7 * k) = 128 * 2 ^ (4 + 7 * (k - 1))"
        using False by (cases k) (simp_all add: power_add)
      have e': "(2 :: nat) ^ (28 - 7 * (k - 1)) = 128 * 2 ^ s" unfolding s(3) [symmetric] by (simp add: power_add)
      have m: "unat b mod 128 = unat b - 128" using big b by (simp add: le_mod_geq)
      have le: "128 * x \<le> unat b - 128 + 128 * v \<longleftrightarrow> x \<le> v" for x v using b big by linarith
      have IH: "map_option (\<lambda>(v, p). (unat v, p)) (snappy_read_varint_from (s + 7) ?acc p) =
        (case varint_nat (k - 1) p of
           None \<Rightarrow> None
         | Some (v, r) \<Rightarrow> if 2 ^ (4 + 7 * (k - 1)) \<le> v then None
             else Some (unat ?acc + 2 ^ (28 - 7 * (k - 1)) * v, r))"
        unfolding s(3) using "2.IH" [OF _ _ _ a] "2.prems" False big by simp
      have step: "snappy_read_varint_from (28 - 7 * k) acc (b # p) = snappy_read_varint_from (s + 7) ?acc p"
        using big s by (simp add: Let_def flip: s_def)
      show ?thesis
      proof (cases "varint_nat (k - 1) p")
        case None
        then show ?thesis unfolding step IH using False big by simp
      next
        case (Some r)
        obtain v q where r: "r = (v, q)" by fastforce
        have "unat acc + 2 ^ s * (unat b - 128) + 128 * 2 ^ s * v = unat acc + 2 ^ s * (unat b - 128 + 128 * v)"
          by (simp add: distrib_left)
        then have f: "map_option (\<lambda>(v, p). (unat v, p)) (snappy_read_varint_from (s + 7) ?acc p) =
            (if 2 ^ (4 + 7 * (k - 1)) \<le> v then None else Some (unat acc + 2 ^ s * (unat b - 128 + 128 * v), q))"
          unfolding IH e' dig m using Some r by simp
        have v: "varint_nat k (b # p) = Some (unat b - 128 + 128 * v, q)" using False big Some r by simp
        show ?thesis unfolding step f v e using le [of _ v] by (simp flip: s_def)
      qed
    qed
  qed
qed

lemma snappy_read_varint_nat:
  "map_option (\<lambda>(v, p). (unat v, p)) (snappy_read_varint s) =
    (case varint_nat 4 s of None \<Rightarrow> None | Some (n, p) \<Rightarrow> if 2 ^ 32 \<le> n then None else Some (n, p))"
  using varint_from_nat [of 4 0 s] by (simp add: snappy_read_varint_def split: option.splits)

subsection \<open>The format and what the decoder reads\<close>

text \<open>
  The two readings part at one header only: the tag \<^verbatim>\<open>0xFC\<close> with the length bytes
  \<^verbatim>\<open>FF FF FF FF\<close>, a literal of \<open>2 ^ 32\<close> bytes in the format.
\<close>

definition wrapped_literal :: bytes where
  "wrapped_literal = [0xFC, 0xFF, 0xFF, 0xFF, 0xFF]"

lemma le_nat_full: "le_nat bs + 1 = 256 ^ length bs \<Longrightarrow> bs = replicate (length bs) 0xFF"
proof (induction bs)
  case (Cons b bs)
  have b: "unat b < 256"
    using unsigned_less [of b] by simp
  have "le_nat bs + 1 \<le> 256 ^ length bs"
    using le_nat_less [of bs] by simp
  moreover have "unat b + 256 * le_nat bs + 1 = 256 * 256 ^ length bs"
    using Cons.prems by simp
  ultimately have "le_nat bs + 1 = 256 ^ length bs" "unat b = 255"
    using b by linarith+
  moreover from this(2) have "b = 0xFF"
    by (metis of_nat_numeral of_nat_unat ucast_id)
  ultimately show ?case
    using Cons.IH by simp
qed simp

lemma format_elem_lax:
  assumes "t < 256" "\<not> prefix wrapped_literal (word_of_nat t # p)"
  shows "format_elem True t p = format_elem False t p"
proof (cases "t mod 4 = 0 \<and> 60 \<le> t div 4 \<and> t div 4 - 59 \<le> length p")
  case True
  define k where "k = t div 4 - 59"
  have k: "k \<le> 4" "k \<le> length p"
    using True assms(1) by (auto simp: k_def)
  have "le_nat (take k p) + 1 < 2 ^ 32"
  proof (rule ccontr)
    assume big: "\<not> le_nat (take k p) + 1 < 2 ^ 32"
    have bound: "le_nat (take k p) < 256 ^ k"
      using le_nat_less [of "take k p"] k(2) by (simp add: min_absorb2)
    have k4: "k = 4"
    proof (rule ccontr)
      assume "k \<noteq> 4"
      then have "(256 :: nat) ^ k \<le> 256 ^ 3"
        using k(1) by (intro power_increasing) simp_all
      with bound big show False by simp
    qed
    then have "take 4 p = replicate 4 0xFF"
      using le_nat_full [of "take 4 p"] bound big k(2) by (simp add: min_absorb2)
    moreover have "replicate 4 (0xFF :: u8) = [0xFF, 0xFF, 0xFF, 0xFF]"
      by code_simp
    moreover have "t = 252"
      using True k4 by (simp add: k_def) presburger
    ultimately have "prefix wrapped_literal (word_of_nat t # p)"
      using take_is_prefix [of 4 p] by (simp add: wrapped_literal_def)
    with assms(2) show False ..
  qed
  then show ?thesis
    by (simp add: format_elem_def Let_def k_def)
qed (auto simp: format_elem_def Let_def)

lemma format_elem_suffix: "format_elem lax t p = Some (e, p') \<Longrightarrow> suffix p' p"
  using suffix_drop suffix_order.trans
  by (fastforce simp: format_elem_def literal_elem_def copy_elem_def Let_def split: if_splits)

lemma format_step_suffix: "format_step lax n t p out = Some (p', out') \<Longrightarrow> suffix p' p"
  by (auto simp: format_step_def dest: format_elem_suffix split: option.splits)

text \<open>Without such a header in the input the two readings are the same.\<close>

lemma format_stream_lax: "\<not> sublist wrapped_literal p \<Longrightarrow> format_stream True n p out = format_stream False n p out"
proof (induction True n p out rule: format_stream.induct)
  case (1 n p out)
  show ?case
  proof (cases p)
    case (Cons tag q)
    have "unat tag < 256" "\<not> prefix wrapped_literal (word_of_nat (unat tag) # q)"
      using unsigned_less [of tag] "1.prems" prefix_imp_sublist Cons by auto
    then have step: "format_step True n (unat tag) q out = format_step False n (unat tag) q out"
      by (simp add: format_step_def format_elem_lax)
    have "format_stream True n q' out' = format_stream False n q' out'"
      if "length out < n" "format_step True n (unat tag) q out = Some (q', out')" for q' out'
    proof (rule "1.hyps" [OF Cons that(1, 2) refl])
      have "suffix q' p"
        using format_step_suffix [OF that(2)] Cons by (simp add: suffix_ConsI)
      then show "\<not> sublist wrapped_literal q'"
        using "1.prems" suffix_imp_sublist sublist_order.order.trans by blast
    qed
    then show ?thesis
      using step Cons by (auto simp: format_stream.simps [of _ n "tag # q"] split: option.splits)
  qed (simp add: format_stream.simps [of _ n "[]"])
qed

text \<open>A stream of the format announces less than \<open>2 ^ 32\<close> bytes, so the decoder reads all of it as meant.\<close>

lemma format_step_strict:
  assumes "n < 2 ^ 32" "format_step False n t p out = Some r"
  shows "format_step True n t p out = Some r"
proof -
  obtain e p' where e: "format_elem False t p = Some (e, p')" "apply_elem n out e \<noteq> None"
    using assms(2) by (auto simp: format_step_def split: option.splits)
  have "format_elem True t p = format_elem False t p"
  proof (cases "t mod 4 = 0 \<and> 60 \<le> t div 4")
    case True
    let ?k = "t div 4 - 59"
    have "e = Literal (take (le_nat (take ?k p) + 1) (drop ?k p))" "le_nat (take ?k p) + 1 \<le> length (drop ?k p)"
      using e(1) True by (auto simp: format_elem_def literal_elem_def Let_def split: if_splits)
    then have "le_nat (take ?k p) + 1 < 2 ^ 32"
      using e(2) assms(1) by (auto split: if_splits)
    then show ?thesis
      by (simp add: format_elem_def Let_def)
  qed (auto simp: format_elem_def Let_def)
  then show ?thesis
    using assms(2) by (simp add: format_step_def)
qed

lemma format_stream_strict:
  "n < 2 ^ 32 \<Longrightarrow> format_stream False n p out = Some r \<Longrightarrow> format_stream True n p out = Some r"
proof (induction False n p out rule: format_stream.induct)
  case (1 n p out)
  show ?case
  proof (cases p)
    case Nil
    then show ?thesis
      using "1.prems"(2) by (simp add: format_stream.simps [of _ n "[]"])
  next
    case (Cons tag q)
    obtain q' out' where s: "length out < n" "format_step False n (unat tag) q out = Some (q', out')"
        "format_stream False n q' out' = Some r"
      using "1.prems"(2) Cons by (auto simp: format_stream.simps [of _ n "tag # q"] split: if_splits option.splits)
    then show ?thesis
      using "1.hyps" [OF Cons s(1, 2) refl "1.prems"(1) s(3)] format_step_strict [OF "1.prems"(1) s(2)] Cons
      by (simp add: format_stream.simps [of _ n "tag # q"])
  qed
qed

text \<open>The element loop of an accepted header against the stream after it.\<close>

lemma decompress_follows:
  assumes "s \<noteq> []" "snappy_read_varint s = Some (v, p)" "unat v \<le> length d"
  shows "\<exists>d'. length d' = length d \<and>
    carquet_snappy_decompress (Some s) (Some d) True =
      (case format_stream True (unat v) p [] of
         None \<Rightarrow> (CARQUET_ERROR_INVALID_COMPRESSED_DATA, None, Some d')
       | Some out \<Rightarrow> (CARQUET_OK, Some (length out), Some d')) \<and>
    (\<forall>out. format_stream True (unat v) p [] = Some out \<longrightarrow> d' = out @ drop (length out) d)"
proof -
  define n where "n = unat v"
  obtain ok ip op d' where l: "snappy_loop n p 0 d = (ok, ip, op, d')" by (metis prod_cases4)
  have d: "carquet_snappy_decompress (Some s) (Some d) True =
      (if \<not> ok \<or> op \<noteq> n \<or> ip \<noteq> [] then (CARQUET_ERROR_INVALID_COMPRESSED_DATA, None, Some d')
       else (CARQUET_OK, Some n, Some d'))"
    using assms l by (simp add: carquet_snappy_decompress_def n_def)
  from snappy_loop_follows [OF _ _ l] assms(3)
  have "length d' = length d" "drop n d' = drop n d"
    "case format_stream True n p [] of None \<Rightarrow> \<not> ok \<or> op \<noteq> n \<or> ip \<noteq> []
     | Some out \<Rightarrow> ok \<and> op = n \<and> ip = [] \<and> length out = n \<and> take n d' = out" by (auto simp: n_def)
  then show ?thesis
    unfolding n_def [symmetric] using d append_take_drop_id [of n d']
    by (intro exI [of _ d']) (auto split: option.splits)
qed

lemma snappy_format_read:
  assumes "snappy_read_varint s = Some (v, p)"
  shows "snappy_format s k = (if k < unat v then None else format_stream False (unat v) p [])"
  using snappy_read_varint_nat [of s] assms by (auto simp: snappy_format_def split: option.splits if_splits)

lemma snappy_format_header:
  assumes "snappy_format s k = Some out"
  obtains v p where "snappy_read_varint s = Some (v, p)" "unat v \<le> k" "format_stream False (unat v) p [] = Some out"
proof (cases "snappy_read_varint s")
  case None
  then show ?thesis
    using assms snappy_read_varint_nat [of s] by (auto simp: snappy_format_def split: option.splits if_splits)
next
  case (Some r)
  then show ?thesis
    using assms that [of "fst r" "snd r"] by (auto simp: snappy_format_read [of s "fst r" "snd r"] split: if_splits)
qed

lemma decompress_accepts:
  assumes "s \<noteq> []" "snappy_format s (length d) = Some out"
  shows "carquet_snappy_decompress (Some s) (Some d) True =
    (CARQUET_OK, Some (length out), Some (out @ drop (length out) d))"
  using assms(2)
proof (rule snappy_format_header)
  fix v p
  assume v: "snappy_read_varint s = Some (v, p)" "unat v \<le> length d" "format_stream False (unat v) p [] = Some out"
  have "unat v < 2 ^ 32"
    using unsigned_less [of v] by simp
  then have "format_stream True (unat v) p [] = Some out"
    using v(3) by (rule format_stream_strict)
  then show ?thesis
    using decompress_follows [OF assms(1) v(1, 2)] by auto
qed

text \<open>The bytes after the header are the end of the input.\<close>

lemma varint_nat_suffix: "varint_nat k s = Some (n, p) \<Longrightarrow> suffix p s"
  by (induction k s arbitrary: n p rule: varint_nat.induct) (auto split: if_splits intro: suffix_ConsI)

lemma read_varint_suffix: "snappy_read_varint s = Some (v, p) \<Longrightarrow> suffix p s"
  using snappy_read_varint_nat [of s] by (auto dest: varint_nat_suffix split: option.splits if_splits)

lemma decompress_refuses:
  assumes "s \<noteq> []" "snappy_format s (length d) = None"
  shows "\<exists>st n d'. length d' = length d \<and> carquet_snappy_decompress (Some s) (Some d) True = (st, n, Some d') \<and>
    (sublist wrapped_literal s \<or> st = CARQUET_ERROR_INVALID_COMPRESSED_DATA \<and> n = None)"
proof (cases "snappy_read_varint s")
  case None
  then show ?thesis
    using assms(1) by (simp add: carquet_snappy_decompress_def)
next
  case (Some r)
  obtain v p where r: "snappy_read_varint s = Some (v, p)" using Some by fastforce
  have same: "format_stream True (unat v) p [] = format_stream False (unat v) p []" if "\<not> sublist wrapped_literal s"
    using format_stream_lax that read_varint_suffix [OF r] suffix_imp_sublist sublist_order.order.trans by blast
  show ?thesis
  proof (cases "length d < unat v")
    case True
    then show ?thesis using assms(1) r by (simp add: carquet_snappy_decompress_def)
  next
    case False
    then have "unat v \<le> length d" "format_stream False (unat v) p [] = None"
      using assms(2) by (simp_all add: snappy_format_read [OF r])
    then show ?thesis
      using decompress_follows [OF assms(1) r, of d] same by (fastforce split: option.splits)
  qed
qed

text \<open>
  C7: \<^verbatim>\<open>carquet_snappy_decompress\<close> decodes the Snappy format. Every non-empty input that is a
  stream of the format with an output that fits is accepted: the array then starts with that output,
  whose length is reported, and the rest of the array is untouched. Every other input is refused with
  \<^verbatim>\<open>CARQUET_ERROR_INVALID_COMPRESSED_DATA\<close>, unless the five bytes \<^verbatim>\<open>FC FF FF FF FF\<close> occur in it:
  the header of a literal of \<open>2 ^ 32\<close> bytes, which no stream of the format can hold and which the
  decoder takes for an empty literal. In no case does the array change length.
\<close>

theorem snappy_decompress_is_format:
  assumes "s \<noteq> []"
  shows "case snappy_format s (length d) of
      Some out \<Rightarrow> carquet_snappy_decompress (Some s) (Some d) True =
        (CARQUET_OK, Some (length out), Some (out @ drop (length out) d))
    | None \<Rightarrow> (\<exists>st n d'. length d' = length d \<and>
        carquet_snappy_decompress (Some s) (Some d) True = (st, n, Some d') \<and>
        (sublist wrapped_literal s \<or> st = CARQUET_ERROR_INVALID_COMPRESSED_DATA \<and> n = None))"
  using decompress_accepts [OF assms] decompress_refuses [OF assms] by (simp split: option.split)

theorem snappy_decompress_is_format_witness:
  "carquet_snappy_decompress (Some [5, 4, 0x61, 0x62, 0x0A, 0x02, 0]) (Some [0, 0, 0, 0, 0, 7]) True =
     (CARQUET_OK, Some 5, Some [0x61, 0x62, 0x61, 0x62, 0x61, 7])"
proof -
  have "[0 ..< 3] = [0, 1, 2 :: nat]" "2 mod Suc (Suc 0) = 0" by code_simp+
  then have "snappy_format [5, 4, 0x61, 0x62, 0x0A, 0x02, 0] (length [0, 0, 0, 0, 0, 7 :: u8]) = Some [0x61, 0x62, 0x61, 0x62, 0x61]"
    by (simp add: snappy_format_def format_stream.simps format_step_def format_elem_def literal_elem_def
        copy_elem_def repeat_back_def)
  then show ?thesis
    using snappy_decompress_is_format [of "[5, 4, 0x61, 0x62, 0x0A, 0x02, 0]" "[0, 0, 0, 0, 0, 7]"] by auto
qed

text \<open>
  C17: the fast match copy. For a match of up to 64 bytes that fits, \<^verbatim>\<open>incremental_copy\<close>, with its
  pattern doubling, its 8- and 16-byte blocks and its slow tail, leaves the same bytes up to the end of
  the match as the byte-by-byte loop \<^verbatim>\<open>incremental_copy_slow\<close>, and neither writes past the end of the
  output.
\<close>

theorem snappy_match_copy_equivalent:
  assumes "src < op" "op < op_limit" "op_limit \<le> buf_limit" "buf_limit \<le> length mem" "op_limit \<le> op + 64"
  shows "take op_limit (incremental_copy src op op_limit buf_limit mem) =
      take op_limit (incremental_copy_slow src op op_limit mem) \<and>
    length (incremental_copy src op op_limit buf_limit mem) = length mem \<and>
    drop buf_limit (incremental_copy src op op_limit buf_limit mem) = drop buf_limit mem \<and>
    drop op_limit (incremental_copy_slow src op op_limit mem) = drop op_limit mem"
proof -
  define off where "off = op - src"
  have off: "src = op - off" "0 < off" "off \<le> op" using assms(1) by (simp_all add: off_def)
  have fast: "match_done (op_limit - op) src op buf_limit mem (incremental_copy src op op_limit buf_limit mem)"
    by (rule incremental_copy_done) (use assms in auto)
  have slow: "match_done (op_limit - op) src op op_limit mem (incremental_copy_slow src op op_limit mem)"
    by (rule slow_done) (use assms in auto)
  have t: "op + (op_limit - op) = op_limit" using assms(2) by simp
  show ?thesis
    using copy_written [of "op_limit - op" op off buf_limit mem "incremental_copy src op op_limit buf_limit mem"]
      copy_written [of "op_limit - op" op off op_limit mem "incremental_copy_slow src op op_limit mem"]
      fast slow off assms unfolding t by (simp add: match_done_def copied_def)
qed

theorem snappy_match_copy_equivalent_witness:
  "take 19 (incremental_copy 1 3 19 20 [9, 1, 2, 0, 0, 0, 0, 0, 0, 0, 0, 0, 0, 0, 0, 0, 0, 0, 0, 0, 7 :: u8]) =
     [9, 1, 2, 1, 2, 1, 2, 1, 2, 1, 2, 1, 2, 1, 2, 1, 2, 1, 2]"
proof -
  let ?mem = "[9, 1, 2, 0, 0, 0, 0, 0, 0, 0, 0, 0, 0, 0, 0, 0, 0, 0, 0, 0, 7] :: bytes"
  have "take 19 (incremental_copy_slow 1 3 19 ?mem) = [9, 1, 2, 1, 2, 1, 2, 1, 2, 1, 2, 1, 2, 1, 2, 1, 2, 1, 2]"
    by code_simp
  then show ?thesis using snappy_match_copy_equivalent [of 1 3 19 20 ?mem] by simp
qed

text \<open>
  A literal announcing \<open>2 ^ 32\<close> bytes. With the tag \<^verbatim>\<open>0xFC\<close> and the length bytes \<^verbatim>\<open>FF FF FF FF\<close>
  the 32-bit addition wraps: the element is accepted as an empty literal, wherever it stands,
  although no stream of the format can contain it.
\<close>

theorem snappy_literal_length_wraps:
  assumes "op \<le> n" "n \<le> length dst"
  shows "\<exists>dst'. snappy_element n 0xFC ([0xFF, 0xFF, 0xFF, 0xFF] @ ip) op dst = Some (ip, op, dst') \<and>
    take op dst' = take op dst"
proof -
  have "format_step True n 252 ([0xFF, 0xFF, 0xFF, 0xFF] @ ip) (take op dst) = Some (ip, take op dst)"
    using assms by (simp add: format_step_def format_elem_def literal_elem_def)
  then show ?thesis
    using snappy_element_follows [OF assms, of "0xFC" "[0xFF, 0xFF, 0xFF, 0xFF] @ ip"] assms
    by (auto simp: follows_format_def)
qed

theorem snappy_literal_length_wraps_witness:
  "\<exists>dst'. snappy_element 2 0xFC ([0xFF, 0xFF, 0xFF, 0xFF] @ [0, 65]) 1 [64, 0] = Some ([0, 65], 1, dst') \<and>
    take 1 dst' = [64]"
  using snappy_literal_length_wraps [of 1 2 "[64, 0]" "[0, 65]"] by simp

end
