(* ===== verification/Snappy_Encode.thy ===== *)
theory Snappy_Encode
  imports Snappy_Decode
begin

text \<open>
  The compressor of \<^verbatim>\<open>compression/snappy.c\<close>. A block of the source is a list and the
  pointers into it are indices; the destination is the list of the bytes of the
  caller's array with an index \<^verbatim>\<open>op\<close>, and stores that are wider than the bytes they
  are needed for are written out. A store past the end of the array would make the
  list longer, so the theorem that the length never changes says that the
  compressor stays in the array.

  The main result is the round trip with the decompressor of \<open>Snappy_Decode\<close>, by
  way of the format: every element the compressor emits is decoded to the piece of
  the source it stands for.
\<close>

section \<open>Definitions\<close>

subsection \<open>Bit scans\<close>

text \<open>
  The portable branches of \<^verbatim>\<open>SNAPPY_CTZ64\<close> and \<^verbatim>\<open>SNAPPY_CLZ32\<close>. The loops would not end
  on 0, which the callers exclude; there the definitions give the width.
\<close>

function snappy_ctz64_fallback :: "u64 \<Rightarrow> nat" where
  "snappy_ctz64_fallback x =
     (if x = 0 then 64
      else if x AND 1 = 0 then Suc (snappy_ctz64_fallback (drop_bit 1 x)) else 0)"
  by pat_completeness auto
termination
  by (relation "measure unat") (auto intro!: unat_drop_bit_less simp: unat_gt_0)

declare snappy_ctz64_fallback.simps [simp del]

lemma top_bit_clear:
  fixes x :: u32
  assumes "x AND 0x80000000 = 0"
  shows "unat (push_bit 1 x) = 2 * unat x"
proof -
  have "\<not> bit (x AND 0x80000000) 31"
    using assms by simp
  then have top: "\<not> bit x 31"
    by (simp add: bit_simps)
  have "x = take_bit 31 x"
  proof (rule bit_word_eqI)
    fix n assume "n < LENGTH(32)"
    then show "bit x n \<longleftrightarrow> bit (take_bit 31 x) n"
      using top by (cases "n = 31") (auto simp: bit_simps)
  qed
  then have "unat x = take_bit 31 (unat x)"
    by (metis unsigned_take_bit_eq)
  then have "unat x < 2 ^ 31"
    by (metis take_bit_nat_less_exp)
  then show ?thesis
    by (simp add: push_bit_eq_mult unat_word_ariths)
qed

function snappy_clz32_fallback :: "u32 \<Rightarrow> nat" where
  "snappy_clz32_fallback x =
     (if x = 0 then 32
      else if x AND 0x80000000 = 0 then Suc (snappy_clz32_fallback (push_bit 1 x)) else 0)"
  by pat_completeness auto
termination
proof (relation "measure (\<lambda>x. 2 ^ 32 - unat x)", goal_cases)
  case (2 x)
  have "unat (push_bit 1 x) = 2 * unat x"
    by (rule top_bit_clear) (use 2 in simp)
  moreover have "0 < unat x"
    using 2 by (simp add: unat_gt_0)
  ultimately have "unat x < unat (push_bit 1 x)"
    by linarith
  moreover have "unat (push_bit 1 x) < 2 ^ LENGTH(32)"
    by (rule unsigned_less)
  ultimately show ?case
    by simp
qed simp

declare snappy_clz32_fallback.simps [simp del]

subsection \<open>Matches\<close>

abbreviation (input) SNAPPY_HASH_LOG :: nat where "SNAPPY_HASH_LOG \<equiv> 14"
abbreviation (input) SNAPPY_MAX_OFFSET :: nat where "SNAPPY_MAX_OFFSET \<equiv> 65535"
abbreviation (input) SNAPPY_BLOCK_SIZE :: nat where "SNAPPY_BLOCK_SIZE \<equiv> 65536"

definition snappy_hash :: "u32 \<Rightarrow> nat" where
  "snappy_hash val = unat (drop_bit (32 - SNAPPY_HASH_LOG) (val * 0x1e35a7bd))"

text \<open>\<^verbatim>\<open>limit\<close> is the end of the block; both loops stop at the first differing byte.\<close>

function match_bytes :: "bytes \<Rightarrow> nat \<Rightarrow> nat \<Rightarrow> nat" where
  "match_bytes src p m =
     (if p < length src \<and> src ! p = src ! m then Suc (match_bytes src (Suc p) (Suc m)) else 0)"
  by pat_completeness auto
termination
  by (relation "measure (\<lambda>(src, p, m). length src - p)") auto

declare match_bytes.simps [simp del]

function fast_match_length :: "bytes \<Rightarrow> nat \<Rightarrow> nat \<Rightarrow> nat" where
  "fast_match_length src p m =
     (if p + 8 \<le> length src
      then let diff = load64 src p XOR load64 src m in
           if diff \<noteq> 0 then snappy_ctz64_fallback diff div 8
           else 8 + fast_match_length src (p + 8) (m + 8)
      else match_bytes src p m)"
  by pat_completeness auto
termination
  by (relation "measure (\<lambda>(src, p, m). length src - p)") auto

declare fast_match_length.simps [simp del]

subsection \<open>Elements\<close>

type_synonym cursor = "nat \<times> bytes"

definition snappy_emit_literal :: "bytes \<Rightarrow> cursor \<Rightarrow> cursor" where
  "snappy_emit_literal literal st =
     (case st of (op, dst) \<Rightarrow>
        let n = length literal - 1;
            (op, dst) =
              (if n < 60 then (op + 1, write_at op [word_of_nat (n * 4)] dst)
               else
                 let cnt = (31 - snappy_clz32_fallback (word_of_nat n)) div 8 + 1;
                     dst = write_at op [word_of_nat ((59 + cnt) * 4)] dst;
                     dst = write_at (op + 1) (le_store 4 (word_of_nat n :: u32)) dst in
                 (op + 1 + cnt, dst)) in
        (op + length literal, write_at op literal dst))"

text \<open>The three-byte copy the first loop and the second branch store byte by byte.\<close>

definition emit_copy2 :: "nat \<Rightarrow> nat \<Rightarrow> cursor \<Rightarrow> cursor" where
  "emit_copy2 offset len st =
     (case st of (op, dst) \<Rightarrow>
        (op + 3,
         write_at (op + 2) [word_of_nat (offset div 256)]
           (write_at (op + 1) [word_of_nat (offset mod 256)]
              (write_at op [word_of_nat ((len - 1) * 4) OR 2] dst))))"

definition emit_copy_last :: "nat \<Rightarrow> nat \<Rightarrow> cursor \<Rightarrow> cursor" where
  "emit_copy_last offset len st =
     (case st of (op, dst) \<Rightarrow>
        if len < 12 \<and> offset < 2048
        then
          let u = push_bit 2 (word_of_nat len) + push_bit 8 (word_of_nat offset) :: u32;
              copy1 = 1 - 16 + (drop_bit 3 (word_of_nat offset) AND 0xe0) in
          (op + 2, write_at op (le_store 4 (u + copy1)) dst)
        else if len < 12
        then
          let u = 2 + push_bit 2 (word_of_nat len - 1) + push_bit 8 (word_of_nat offset) :: u32 in
          (op + 3, write_at op (le_store 4 u) dst)
        else emit_copy2 offset len (op, dst))"

function emit_copy_chunks :: "nat \<Rightarrow> nat \<Rightarrow> cursor \<Rightarrow> nat \<times> cursor" where
  "emit_copy_chunks offset len st =
     (if 68 \<le> len then emit_copy_chunks offset (len - 64) (emit_copy2 offset 64 st) else (len, st))"
  by pat_completeness auto
termination
  by (relation "measure (\<lambda>(offset, len, st). len)") auto

declare emit_copy_chunks.simps [simp del]

definition snappy_emit_copy :: "nat \<Rightarrow> nat \<Rightarrow> cursor \<Rightarrow> cursor" where
  "snappy_emit_copy offset len st =
     (let (len, st) = emit_copy_chunks offset len st;
          (len, st) = (if 64 < len then (len - 60, emit_copy2 offset 60 st) else (len, st)) in
      emit_copy_last offset len st)"

subsection \<open>A block\<close>

text \<open>
  The hash table is an array of \<^verbatim>\<open>2 ^ 14\<close> positions. \<open>extra\<close> is \<^verbatim>\<open>skip - 32\<close>, which is the
  distance walked so far and therefore below the block size.
\<close>

type_synonym hash_table = "nat \<Rightarrow> u16"

function snappy_search :: "bytes \<Rightarrow> nat \<Rightarrow> nat \<Rightarrow> hash_table \<Rightarrow> nat \<Rightarrow> (nat \<times> nat) option \<times> hash_table" where
  "snappy_search src ilimit extra ht ip =
     (let h = snappy_hash (load32 src ip);
          bytes_between = (32 + extra) div 32;
          next_ip = ip + bytes_between in
      if ilimit < next_ip then (None, ht)
      else
        let candidate = unat (ht h); ht = ht(h := word_of_nat ip) in
        if load32 src ip = load32 src candidate then (Some (candidate, ip), ht)
        else snappy_search src ilimit (extra + bytes_between) ht next_ip)"
  by pat_completeness auto
termination
  by (relation "measure (\<lambda>(src, ilimit, extra, ht, ip). Suc ilimit - ip)") (auto simp: Let_def)

declare snappy_search.simps [simp del]

text \<open>
  The first sixteen positions, the two nested loops counted by \<open>i\<close>. \<open>data\<close> is the
  64-bit window, reloaded after every fourth position.
\<close>

function snappy_startup :: "bytes \<Rightarrow> hash_table \<Rightarrow> u64 \<Rightarrow> nat \<Rightarrow> (nat \<times> nat) option \<times> hash_table" where
  "snappy_startup src ht data i =
     (if i < 16
      then
        let dword = (if i = 0 then load32 src 1 else ucast data);
            h = snappy_hash dword;
            candidate = unat (ht h);
            ht = ht(h := word_of_nat (1 + i)) in
        if load32 src candidate = dword then (Some (candidate, i), ht)
        else snappy_startup src ht
               (if i mod 4 = 3 then load64 src (1 + 4 * (i div 4) + 4) else drop_bit 8 data) (Suc i)
      else (None, ht))"
  by pat_completeness auto
termination
  by (relation "measure (\<lambda>(src, ht, data, i). 16 - i)") auto

declare snappy_startup.simps [simp del]

definition emit_pending :: "bytes \<Rightarrow> nat \<Rightarrow> nat \<Rightarrow> cursor \<Rightarrow> cursor" where
  "emit_pending src anchor ip st =
     (if anchor < ip then snappy_emit_literal (take (ip - anchor) (drop anchor src)) st else st)"

lemma snappy_search_mono: "snappy_search src ilimit extra ht ip = (Some (c, q), ht') \<Longrightarrow> ip \<le> q"
proof (induction src ilimit extra ht ip rule: snappy_search.induct)
  case (1 src ilimit extra ht ip)
  note step = 1(2) [unfolded snappy_search.simps [of src ilimit extra ht ip] Let_def]
  show ?case
  proof (cases "ilimit < ip + (32 + extra) div 32 \<or>
      load32 src ip = load32 src (unat (ht (snappy_hash (load32 src ip))))")
    case True
    then show ?thesis
      using step by (auto split: if_splits)
  next
    case False
    then show ?thesis
      using 1(1) [OF refl refl refl _ refl refl] step by (simp add: fun_upd_def split: if_splits)
  qed
qed

text \<open>
  \<^verbatim>\<open>emit_match\<close> and the search that leads back to it; the result is the anchor with
  which \<^verbatim>\<open>emit_remainder\<close> is reached.
\<close>

function snappy_matches :: "bytes \<Rightarrow> nat \<Rightarrow> hash_table \<Rightarrow> nat \<Rightarrow> nat \<Rightarrow> cursor \<Rightarrow> nat \<times> cursor" where
  "snappy_matches src ilimit ht candidate ip st =
     (let match_len = 4 + fast_match_length src (ip + 4) (candidate + 4);
          offset = ip - candidate;
          ip1 = ip + match_len;
          st1 = snappy_emit_copy offset match_len st in
      if ilimit \<le> ip1 then (ip1, st1)
      else
        let ht1 = ht(snappy_hash (load32 src (ip1 - 1)) := word_of_nat (ip1 - 1));
            h = snappy_hash (load32 src ip1);
            candidate1 = unat (ht1 h);
            ht2 = ht1(h := word_of_nat ip1) in
        if load32 src ip1 = load32 src candidate1 \<and> ip1 - candidate1 \<le> SNAPPY_MAX_OFFSET
        then snappy_matches src ilimit ht2 candidate1 ip1 st1
        else (case snappy_search src ilimit 0 ht2 (Suc ip1) of
                (None, ht3) \<Rightarrow> (ip1, st1)
              | (Some (candidate2, ip2), ht3) \<Rightarrow>
                  snappy_matches src ilimit ht3 candidate2 ip2 (emit_pending src ip1 ip2 st1)))"
  by pat_completeness auto
termination
  by (relation "measure (\<lambda>(src, ilimit, ht, candidate, ip, st). ilimit - ip)")
    (auto simp: Let_def dest!: snappy_search_mono [OF sym])

declare snappy_matches.simps [simp del]

definition emit_remainder :: "bytes \<Rightarrow> nat \<times> cursor \<Rightarrow> cursor" where
  "emit_remainder src r = (case r of (anchor, st) \<Rightarrow> emit_pending src anchor (length src) st)"

definition snappy_compress_block :: "bytes \<Rightarrow> cursor \<Rightarrow> cursor" where
  "snappy_compress_block src st =
     (if src = [] then st
      else if length src < 15 then snappy_emit_literal src st
      else
        let ilimit = length src - 15;
            ht = (\<lambda>_. 0)(snappy_hash (load32 src 0) := 0);
            searched = (\<lambda>ht ip.
              (case snappy_search src ilimit 0 ht ip of
                 (None, ht) \<Rightarrow> (0, st)
               | (Some (candidate, ip), ht) \<Rightarrow>
                   snappy_matches src ilimit ht candidate ip (emit_pending src 0 ip st))) in
        emit_remainder src
          (if 17 \<le> ilimit
           then (case snappy_startup src ht (load64 src 1) 0 of
                   (None, ht) \<Rightarrow> searched ht 17
                 | (Some (candidate, i), ht) \<Rightarrow>
                     (case st of (op, dst) \<Rightarrow>
                        snappy_matches src ilimit ht candidate (1 + i)
                          (op + i + 2, write_at (op + 1) (take 16 src) (write_at op [word_of_nat (i * 4)] dst))))
           else searched ht 1))"

subsection \<open>The compressor\<close>

definition snappy_write_varint :: "u32 \<Rightarrow> cursor \<Rightarrow> cursor" where
  "snappy_write_varint val st =
     (case st of (op, dst) \<Rightarrow> (op + length (varint_bytes val), write_at op (varint_bytes val) dst))"

function snappy_blocks :: "bytes \<Rightarrow> cursor \<Rightarrow> cursor" where
  "snappy_blocks src st =
     (if src = [] then st
      else let block_size = min (length src) SNAPPY_BLOCK_SIZE in
           snappy_blocks (drop block_size src) (snappy_compress_block (take block_size src) st))"
  by pat_completeness auto
termination
  by (relation "measure (\<lambda>(src, st). length src)") (auto simp: Let_def)

declare snappy_blocks.simps [simp del]

definition carquet_snappy_compress_bound :: "u64 \<Rightarrow> u64" where
  "carquet_snappy_compress_bound src_size = 32 + src_size + src_size div 6"

text \<open>
  The status, \<^verbatim>\<open>*dst_size\<close> when it is set, and the destination array. The source is
  given by its bytes (\<open>None\<close> for NULL) and \<^verbatim>\<open>src_size\<close>, the destination by its bytes and
  \<^verbatim>\<open>dst_capacity\<close>.
\<close>

definition carquet_snappy_compress ::
    "bytes option \<Rightarrow> u64 \<Rightarrow> bytes option \<Rightarrow> u64 \<Rightarrow> bool \<Rightarrow> carquet_status \<times> nat option \<times> bytes option" where
  "carquet_snappy_compress src src_size dst dst_capacity dst_size =
     (case dst of
        None \<Rightarrow> (CARQUET_ERROR_INVALID_ARGUMENT, None, dst)
      | Some d \<Rightarrow>
          if \<not> dst_size then (CARQUET_ERROR_INVALID_ARGUMENT, None, dst)
          else if dst_capacity < carquet_snappy_compress_bound src_size
          then (CARQUET_ERROR_COMPRESSION, None, dst)
          else
            let st = snappy_write_varint (ucast src_size) (0, d) in
            if src_size = 0 then (CARQUET_OK, Some (fst st), Some (snd st))
            else (case src of
                    None \<Rightarrow> (CARQUET_ERROR_INVALID_ARGUMENT, None, Some (snd st))
                  | Some s \<Rightarrow>
                      let st = snappy_blocks (take (unat src_size) s) st in
                      (CARQUET_OK, Some (fst st), Some (snd st))))"

section \<open>Bit scans and matches\<close>

lemma ctz64_least:
  assumes "x \<noteq> 0"
  shows "bit x (snappy_ctz64_fallback x)" "j < snappy_ctz64_fallback x \<Longrightarrow> \<not> bit x j"
proof -
  have "bit x (snappy_ctz64_fallback x) \<and> (\<forall>j < snappy_ctz64_fallback x. \<not> bit x j)"
    using assms
  proof (induction x rule: snappy_ctz64_fallback.induct)
    case (1 x)
    have low: "x AND 1 = 0 \<longleftrightarrow> \<not> bit x 0"
      by (simp add: and_one_eq odd_iff_mod_2_eq_one bit_0 even_iff_mod_2_eq_zero)
    show ?case
    proof (cases "x AND 1 = 0")
      case True
      have nz: "drop_bit 1 x \<noteq> 0"
      proof
        assume zero: "drop_bit 1 x = 0"
        have "x = 0"
        proof (rule bit_word_eqI)
          fix n assume "n < LENGTH(64)"
          show "bit x n \<longleftrightarrow> bit (0 :: u64) n"
            using arg_cong [OF zero, of "\<lambda>w. bit w (n - 1)"] True low
            by (cases n) (auto simp: bit_drop_bit_eq)
        qed
        with 1(2) show False ..
      qed
      show ?thesis
        using 1(1) [OF 1(2) True nz] True low 1(2)
        by (subst (1 2) snappy_ctz64_fallback.simps) (auto simp: bit_drop_bit_eq less_Suc_eq_0_disj)
    next
      case False
      then show ?thesis
        using low 1(2) by (subst (1 2) snappy_ctz64_fallback.simps) auto
    qed
  qed
  then show "bit x (snappy_ctz64_fallback x)" "j < snappy_ctz64_fallback x \<Longrightarrow> \<not> bit x j"
    by auto
qed

lemma clz32_scale:
  assumes "x \<noteq> 0"
  shows "2 ^ 31 \<le> unat x * 2 ^ snappy_clz32_fallback x \<and> unat x * 2 ^ snappy_clz32_fallback x < 2 ^ 32"
  using assms
proof (induction x rule: snappy_clz32_fallback.induct)
  case (1 x)
  show ?case
  proof (cases "x AND 0x80000000 = 0")
    case True
    have dbl: "unat (push_bit 1 x) = 2 * unat x"
      using True by (rule top_bit_clear)
    then have "push_bit 1 x \<noteq> 0"
      using 1(2) by (metis mult_eq_0_iff unat_eq_zero unsigned_0 zero_neq_numeral)
    then show ?thesis
      using 1(1) [OF 1(2) True] 1(2) True dbl
      by (subst (1 2) snappy_clz32_fallback.simps) (simp add: mult_ac)
  next
    case False
    have "bit x 31"
    proof (rule ccontr)
      assume no: "\<not> bit x 31"
      have top: "(0x80000000 :: u32) = 2 ^ 31"
        by simp
      have "x AND 0x80000000 = 0"
        unfolding top
        by (rule bit_word_eqI) (use no in \<open>auto simp only: bit_and_iff bit_exp_iff bit_0_eq bot_apply bot_bool_def\<close>)
      with False show False ..
    qed
    then have "2 ^ 31 \<le> unat x"
      by (metis bit_unsigned_iff linorder_not_le not_bit_if_small order_refl)
    moreover have "unat x < 2 ^ LENGTH(32)"
      by (rule unsigned_less)
    ultimately show ?thesis
      using False 1(2) by (subst (1 2) snappy_clz32_fallback.simps) simp
  qed
qed

lemma literal_count:
  assumes "0 < n" "n < 65536"
  shows "(31 - snappy_clz32_fallback (word_of_nat n)) div 8 + 1 = (if n < 256 then 1 else 2)"
proof -
  let ?c = "snappy_clz32_fallback (word_of_nat n)"
  have u: "unat (word_of_nat n :: u32) = n"
    using assms by (simp add: unat_of_nat)
  then have "(word_of_nat n :: u32) \<noteq> 0"
    using assms(1) by (metis less_numeral_extra(3) unsigned_0)
  then have c: "2 ^ 31 \<le> n * 2 ^ ?c" "n * 2 ^ ?c < 2 ^ 32"
    using clz32_scale [of "word_of_nat n"] unfolding u by blast+
  have upper: "k + ?c < 32" if "2 ^ k \<le> n" for k
  proof -
    have "2 ^ (k + ?c) \<le> n * 2 ^ ?c"
      using that by (simp add: power_add)
    then have "(2 :: nat) ^ (k + ?c) < 2 ^ 32"
      using c(2) by (rule le_less_trans)
    then show ?thesis
      by (rule power_less_imp_less_exp [rotated]) simp
  qed
  have lower: "31 < k + ?c" if "n < 2 ^ k" for k
  proof -
    have "n * 2 ^ ?c < 2 ^ (k + ?c)"
      using that by (simp add: power_add)
    then have "(2 :: nat) ^ 31 < 2 ^ (k + ?c)"
      using c(1) by linarith
    then show ?thesis
      by (rule power_less_imp_less_exp [rotated]) simp
  qed
  show ?thesis
  proof (cases "n < 256")
    case True
    then have "23 < ?c"
      using lower [of 8] by simp
    then show ?thesis
      using True by simp
  next
    case False
    then have "15 < ?c" "?c < 24"
      using lower [of 16] upper [of 8] assms by simp_all
    then have "8 \<le> 31 - ?c" "31 - ?c < 16"
      by linarith+
    then have "(31 - ?c) div 8 = 1"
      by (simp add: div_nat_eqI)
    then show ?thesis
      using False by simp
  qed
qed

lemma match_bytes_eqI:
  assumes "p + k \<le> length src" "\<And>i. i < k \<Longrightarrow> src ! (p + i) = src ! (m + i)"
    and "p + k < length src \<Longrightarrow> src ! (p + k) \<noteq> src ! (m + k)"
  shows "match_bytes src p m = k"
  using assms
proof (induction k arbitrary: p m)
  case 0
  then show ?case
    by (subst match_bytes.simps) auto
next
  case (Suc k)
  have "match_bytes src (Suc p) (Suc m) = k"
    by (rule Suc.IH) (use Suc.prems(1) Suc.prems(2) [of "Suc _"] Suc.prems(3) in auto)
  then show ?case
    using Suc.prems(1) Suc.prems(2) [of 0] by (subst match_bytes.simps) simp
qed

lemma match_bytes_spec:
  "p \<le> length src \<Longrightarrow> p + match_bytes src p m \<le> length src \<and>
     (\<forall>i < match_bytes src p m. src ! (p + i) = src ! (m + i))"
proof (induction src p m rule: match_bytes.induct)
  case (1 src p m)
  then show ?case
    by (subst (1 2) match_bytes.simps) (auto simp: less_Suc_eq_0_disj)
qed

lemma load64_bit:
  "bit (load64 src p) i \<longleftrightarrow> i < 64 \<and> i div 8 < length src - p \<and> bit (src ! (p + i div 8)) (i mod 8)"
proof -
  have "i < 8 * min (length src - p) 8 \<longleftrightarrow> i < 64 \<and> i div 8 < length src - p"
    by (auto simp: min_def less_mult_imp_div_less div_less_iff_less_mult)
  then show ?thesis
    by (auto simp: load64_def bit_le_load_iff less_mult_imp_div_less div_less_iff_less_mult)
qed

lemma byte_of_word: "\<exists>b :: nat. b < 8 \<and> bit x b \<noteq> bit y b" if "x \<noteq> y" for x y :: u8
proof (rule ccontr)
  assume "\<not> ?thesis"
  then have "x = y"
    by (intro bit_word_eqI) auto
  with that show False ..
qed

lemma match_bytes_prefix:
  assumes "p + k \<le> length src" "\<And>i. i < k \<Longrightarrow> src ! (p + i) = src ! (m + i)"
  shows "match_bytes src p m = k + match_bytes src (p + k) (m + k)"
  using assms
proof (induction k arbitrary: p m)
  case (Suc k)
  have "match_bytes src (Suc p) (Suc m) = k + match_bytes src (Suc p + k) (Suc m + k)"
    by (rule Suc.IH) (use Suc.prems(1) Suc.prems(2) [of "Suc _"] in auto)
  then show ?case
    using Suc.prems(1) Suc.prems(2) [of 0] by (subst match_bytes.simps) simp
qed simp

text \<open>The 64-bit comparison finds the same length as the byte loop.\<close>

lemma fast_match_length_bytes:
  assumes "m < p"
  shows "fast_match_length src p m = match_bytes src p m"
  using assms
proof (induction src p m rule: fast_match_length.induct)
  case (1 src p m)
  define diff where "diff = load64 src p XOR load64 src m"
  show ?case
  proof (cases "p + 8 \<le> length src")
    case True
    have same: "bit diff i \<longleftrightarrow> bit (src ! (p + i div 8)) (i mod 8) \<noteq> bit (src ! (m + i div 8)) (i mod 8)"
      if "i < 64" for i
    proof -
      have "i div 8 < 8"
        using that by (simp add: div_less_iff_less_mult)
      then show ?thesis
        using that True 1(2) by (auto simp: diff_def bit_xor_iff load64_bit)
    qed
    have byte: "src ! (p + k) = src ! (m + k)" if "k < 8" "\<And>b. b < 8 \<Longrightarrow> \<not> bit diff (8 * k + b)" for k
    proof (rule ccontr)
      assume "src ! (p + k) \<noteq> src ! (m + k)"
      then obtain b where "b < 8" "bit (src ! (p + k)) b \<noteq> bit (src ! (m + k)) b"
        using byte_of_word by blast
      then show False
        using that same [of "8 * k + b"] by simp
    qed
    show ?thesis
    proof (cases "diff = 0")
      case zero: True
      have eq: "src ! (p + i) = src ! (m + i)" if "i < 8" for i
        using byte [OF that] zero by simp
      have "match_bytes src p m = 8 + match_bytes src (p + 8) (m + 8)"
        using True eq by (rule match_bytes_prefix)
      then show ?thesis
        using 1(1) [OF True diff_def] zero 1(2) True
        by (subst fast_match_length.simps) (simp add: diff_def [symmetric])
    next
      case False
      let ?z = "snappy_ctz64_fallback diff"
      have z: "bit diff ?z" "\<And>j. j < ?z \<Longrightarrow> \<not> bit diff j"
        using ctz64_least [OF False] by blast+
      then have "?z < 64"
        using bit_imp_le_length [of diff ?z] by simp
      then have k: "?z div 8 < 8"
        by (simp add: div_less_iff_less_mult)
      have "match_bytes src p m = ?z div 8"
      proof (rule match_bytes_eqI)
        show "p + ?z div 8 \<le> length src"
          using True k by simp
        show "src ! (p + i) = src ! (m + i)" if "i < ?z div 8" for i
        proof (rule byte)
          show "i < 8"
            using that k by simp
          fix b :: nat assume "b < 8"
          then show "\<not> bit diff (8 * i + b)"
            using z(2) [of "8 * i + b"] that by (auto simp: div8_iff)
        qed
        show "src ! (p + ?z div 8) \<noteq> src ! (m + ?z div 8)"
          using same [OF \<open>?z < 64\<close>] z(1) by auto
      qed
      then show ?thesis
        using True False by (subst fast_match_length.simps) (simp add: diff_def [symmetric])
    qed
  next
    case False
    then show ?thesis
      by (subst fast_match_length.simps) simp
  qed
qed

section \<open>What is emitted\<close>

text \<open>\<open>emits bs st st'\<close>: going from \<open>st\<close> to \<open>st'\<close> put \<open>bs\<close> after the output and kept the array.\<close>

definition emits :: "bytes \<Rightarrow> cursor \<Rightarrow> cursor \<Rightarrow> bool" where
  "emits bs st st' \<longleftrightarrow>
     fst st' = fst st + length bs \<and> length (snd st') = length (snd st) \<and>
     take (fst st') (snd st') = take (fst st) (snd st) @ bs"

lemma emits_refl: "emits [] st st"
  by (simp add: emits_def)

lemma emits_trans: "emits a st st1 \<Longrightarrow> emits b st1 st2 \<Longrightarrow> emits (a @ b) st st2"
  unfolding emits_def by (metis add.assoc append.assoc length_append)

lemma write_at_room:
  assumes "op + length bs \<le> length mem"
  shows "length (write_at op bs mem) = length mem"
    and "k \<le> length bs \<Longrightarrow> take (op + k) (write_at op bs mem) = take op mem @ take k bs"
  using assms by (simp_all add: write_at_def)

lemma emits_write:
  assumes "op + length bs \<le> length dst" "k \<le> length bs"
  shows "emits (take k bs) (op, dst) (op + k, write_at op bs dst)"
  using write_at_room [OF assms(1)] assms(2) by (simp add: emits_def)

lemma emits_byte:
  "op < length dst \<Longrightarrow> emits [b] (op, dst) (op + 1, write_at op [b] dst)"
  using emits_write [of op "[b]" dst 1] by simp

lemma le_store_4_nat:
  assumes "x < 2 ^ 32"
  shows "le_store 4 (word_of_nat x :: u32) =
    [word_of_nat x, word_of_nat (x div 256), word_of_nat (x div 65536), word_of_nat (x div 16777216)]"
proof -
  define v where "v = (word_of_nat x :: u32)"
  have v: "unat v = x"
    using assms by (simp add: v_def unat_of_nat take_bit_nat_eq_self)
  have byte: "(ucast (drop_bit k v) :: u8) = word_of_nat (x div 2 ^ k)" for k
    by (simp flip: unat_drop_bit_word v)
  show ?thesis
    using byte [of 0] byte [of 8] byte [of 16] byte [of 24] unfolding v_def [symmetric]
    by (simp add: carquet_write_u32_le_def flip: write_le_store(2))
qed

definition literal_bytes :: "bytes \<Rightarrow> bytes" where
  "literal_bytes lit =
     (let n = length lit - 1 in
      (if n < 60 then [word_of_nat (n * 4)]
       else if n < 256 then [0xF0, word_of_nat n]
       else [0xF4, word_of_nat n, word_of_nat (n div 256)]) @ lit)"

lemma emit_literal_emits:
  assumes "lit \<noteq> []" "length lit \<le> 65536" "op + length (literal_bytes lit) \<le> length dst"
  shows "emits (literal_bytes lit) (op, dst) (snappy_emit_literal lit (op, dst))"
proof (cases "length lit - 1 < 60")
  case True
  let ?d = "write_at op [word_of_nat ((length lit - 1) * 4)] dst"
  have room: "op + 1 + length lit \<le> length dst"
    using assms(3) True by (simp add: literal_bytes_def)
  then have 1: "emits [word_of_nat ((length lit - 1) * 4)] (op, dst) (op + 1, ?d)"
    by (intro emits_byte) simp
  have "emits (take (length lit) lit) (op + 1, ?d) (op + 1 + length lit, write_at (op + 1) lit ?d)"
    using room 1 by (intro emits_write) (auto simp: emits_def)
  from emits_trans [OF 1 this] show ?thesis
    using True by (simp add: snappy_emit_literal_def literal_bytes_def Let_def)
next
  case False
  define n where "n = length lit - 1"
  define k where "k = (if n < 256 then 1 else 2 :: nat)"
  define d1 where "d1 = write_at op [word_of_nat ((59 + k) * 4)] dst"
  define d2 where "d2 = write_at (op + 1) (le_store 4 (word_of_nat n :: u32)) d1"
  have n: "60 \<le> n" "n < 65536"
    using False assms(2) by (simp_all add: n_def)
  then have cnt: "(31 - snappy_clz32_fallback (word_of_nat n)) div 8 + 1 = k"
    unfolding k_def by (intro literal_count) simp_all
  have room: "op + 1 + k + length lit \<le> length dst"
    using assms(3) n unfolding literal_bytes_def Let_def n_def [symmetric] k_def
    by (simp split: if_splits)
  have k: "k \<le> 4" "k + length lit \<ge> 4"
    using False by (simp_all add: k_def)
  have 1: "emits [word_of_nat ((59 + k) * 4)] (op, dst) (op + 1, d1)"
    unfolding d1_def by (rule emits_byte) (use room in simp)
  have 2: "emits (take k (le_store 4 (word_of_nat n :: u32))) (op + 1, d1) (op + 1 + k, d2)"
    unfolding d2_def by (rule emits_write) (use room 1 k in \<open>auto simp: emits_def\<close>)
  have 3: "emits (take (length lit) lit) (op + 1 + k, d2) (op + 1 + k + length lit, write_at (op + 1 + k) lit d2)"
    by (rule emits_write) (use room 1 2 in \<open>auto simp: emits_def\<close>)
  have low: "take k (le_store 4 (word_of_nat n :: u32)) =
      (if n < 256 then [word_of_nat n] else [word_of_nat n, word_of_nat (n div 256)])"
  proof -
    have "n < 2 ^ 32"
      using n(2) by simp
    then show ?thesis
      by (simp only: le_store_4_nat) (simp add: k_def)
  qed
  have out: "[word_of_nat ((59 + k) * 4)] @ take k (le_store 4 (word_of_nat n :: u32)) @ lit = literal_bytes lit"
    unfolding low unfolding literal_bytes_def Let_def n_def [symmetric] k_def using n by simp
  have "snappy_emit_literal lit (op, dst) = (op + 1 + k + length lit, write_at (op + 1 + k) lit d2)"
    using n unfolding snappy_emit_literal_def Let_def n_def [symmetric] prod.case cnt d1_def d2_def by simp
  then show ?thesis
    using emits_trans [OF emits_trans [OF 1 2] 3] out by simp
qed

definition copy2_bytes :: "nat \<Rightarrow> nat \<Rightarrow> bytes" where
  "copy2_bytes offset len = [word_of_nat ((len - 1) * 4 + 2), word_of_nat (offset mod 256), word_of_nat (offset div 256)]"

definition copy_last_bytes :: "nat \<Rightarrow> nat \<Rightarrow> bytes" where
  "copy_last_bytes offset len =
     (if len < 12 \<and> offset < 2048
      then [word_of_nat (1 + (len - 4) * 4 + 32 * (offset div 256)), word_of_nat (offset mod 256)]
      else copy2_bytes offset len)"

function copy_bytes :: "nat \<Rightarrow> nat \<Rightarrow> bytes" where
  "copy_bytes offset len =
     (if 68 \<le> len then copy2_bytes offset 64 @ copy_bytes offset (len - 64)
      else if 64 < len then copy2_bytes offset 60 @ copy_last_bytes offset (len - 60)
      else copy_last_bytes offset len)"
  by pat_completeness auto
termination
  by (relation "measure snd") auto

declare copy_bytes.simps [simp del]

lemma tag_or_2: "word_of_nat (n * 4) OR 2 = (word_of_nat (n * 4 + 2) :: u8)"
proof -
  have "word_of_nat (n * 4) = (push_bit 2 (word_of_nat n) :: u8)"
    by (simp add: push_bit_eq_mult)
  moreover have "bit (2 :: u8) i \<longleftrightarrow> i = 1" for i
    using bit_exp_iff [of 1 i, where 'a = "8 word"] by (auto dest: bit_imp_le_length)
  then have "push_bit 2 w OR 2 = push_bit 2 w + 2" for w :: u8
    by (intro disjunctive_add [symmetric]) (auto simp: bit_push_bit_iff)
  ultimately show ?thesis
    by (simp add: push_bit_eq_mult)
qed

lemma high_offset_bits:
  assumes "n < 2048"
  shows "unat (drop_bit 3 (word_of_nat n) AND 0xe0 :: u32) = 32 * (n div 256)"
proof -
  let ?w = "drop_bit 3 (word_of_nat n) :: u32"
  have w: "unat ?w = n div 8"
    using assms by (simp add: unat_drop_bit_word unat_of_nat)
  have e0: "(0xe0 :: u32) = push_bit 5 (mask 3)"
    by (simp add: mask_eq_exp_minus_1)
  have small: "\<not> bit ?w i" if "8 \<le> i" for i
    by (rule not_bit_if_small [OF _ that]) (use w assms in simp)
  have "?w AND 0xe0 = push_bit 5 (drop_bit 5 ?w)"
  proof (rule bit_word_eqI)
    fix i
    show "bit (?w AND 0xe0) i \<longleftrightarrow> bit (push_bit 5 (drop_bit 5 ?w)) i"
      using small [of i]
      by (cases "8 \<le> i") (auto simp add: e0 bit_and_iff bit_push_bit_iff bit_mask_iff bit_drop_bit_eq simp del: push_bit_numeral)
  qed
  moreover have "unat (push_bit 5 (drop_bit 5 ?w)) = 32 * (n div 8 div 32)"
    using w assms by (simp add: push_bit_eq_mult unat_word_ariths unat_drop_bit_word mult.commute)
  ultimately show ?thesis
    by (simp add: div_mult2_eq [symmetric])
qed

lemma of_nat_mod_256: "(word_of_nat (n mod 256) :: u8) = word_of_nat n"
  by (simp add: word_eq_iff_unsigned [where ?'a = nat] unat_of_nat take_bit_eq_mod)

lemma of_nat_low_byte:
  assumes "low < 256"
  shows "(word_of_nat (256 * n + low) :: u8) = word_of_nat low"
proof -
  have "(256 * n + low) mod 256 = low"
    using assms by simp
  then show ?thesis
    using of_nat_mod_256 [of "256 * n + low"] by simp
qed

lemma emit_copy2_emits:
  assumes "op + 3 \<le> length dst" "1 \<le> len" "len \<le> 64"
  shows "emits (copy2_bytes offset len) (op, dst) (emit_copy2 offset len (op, dst))"
proof -
  let ?b = "word_of_nat ((len - 1) * 4) OR 2 :: u8"
  define d1 where "d1 = write_at op [?b] dst"
  define d2 where "d2 = write_at (op + 1) [word_of_nat (offset mod 256)] d1"
  have 1: "emits [?b] (op, dst) (op + 1, d1)"
    unfolding d1_def by (rule emits_byte) (use assms in simp)
  have 2: "emits [word_of_nat (offset mod 256)] (op + 1, d1) (op + 1 + 1, d2)"
    unfolding d2_def by (rule emits_byte) (use assms 1 in \<open>simp add: emits_def\<close>)
  have 3: "emits [word_of_nat (offset div 256)] (op + 1 + 1, d2)
      (op + 1 + 1 + 1, write_at (op + 1 + 1) [word_of_nat (offset div 256)] d2)"
    by (rule emits_byte) (use assms 1 2 in \<open>simp add: emits_def\<close>)
  have "?b = word_of_nat ((len - 1) * 4 + 2)"
    by (rule tag_or_2)
  with emits_trans [OF emits_trans [OF 1 2] 3] show ?thesis
    by (simp add: emit_copy2_def copy2_bytes_def d1_def d2_def numeral_3_eq_3 add_2_eq_Suc')
qed

lemma copy1_word:
  assumes "4 \<le> len" "len < 12" "offset < 2048"
  shows "take 2 (le_store 4 (push_bit 2 (word_of_nat len) + push_bit 8 (word_of_nat offset) +
      (1 - 16 + (drop_bit 3 (word_of_nat offset) AND 0xe0)) :: u32)) =
    [word_of_nat (1 + (len - 4) * 4 + 32 * (offset div 256)), word_of_nat (offset mod 256)]"
proof -
  define low where "low = 1 + (len - 4) * 4 + 32 * (offset div 256)"
  have "offset div 256 < 8"
    using assms(3) by (simp add: div_less_iff_less_mult)
  then have low: "low < 256"
    using assms by (simp add: low_def)
  have high: "(drop_bit 3 (word_of_nat offset) AND 0xe0 :: u32) = word_of_nat (32 * (offset div 256))"
    by (simp flip: high_offset_bits [OF assms(3)])
  have eq: "push_bit 2 (word_of_nat len) + push_bit 8 (word_of_nat offset) +
      (1 - 16 + (drop_bit 3 (word_of_nat offset) AND 0xe0)) = (word_of_nat (256 * offset + low) :: u32)"
    unfolding high using assms(1) by (simp add: low_def push_bit_eq_mult algebra_simps of_nat_diff)
  have x: "256 * offset + low < 2 ^ 32" "(256 * offset + low) div 256 = offset"
    using low assms(3) by simp_all
  show ?thesis
    unfolding eq le_store_4_nat [OF x(1)] x(2) of_nat_mod_256 of_nat_low_byte [OF low]
    by (simp add: low_def)
qed

lemma copy2_word:
  assumes "1 \<le> len" "len < 12" "offset < 65536"
  shows "take 3 (le_store 4 (2 + push_bit 2 (word_of_nat len - 1) + push_bit 8 (word_of_nat offset) :: u32)) =
    copy2_bytes offset len"
proof -
  define low where "low = (len - 1) * 4 + 2"
  have low: "low < 256"
    using assms by (simp add: low_def)
  have eq: "2 + push_bit 2 (word_of_nat len - 1) + push_bit 8 (word_of_nat offset) = (word_of_nat (256 * offset + low) :: u32)"
    using assms(1) by (simp add: low_def push_bit_eq_mult algebra_simps of_nat_diff)
  have x: "256 * offset + low < 2 ^ 32" "(256 * offset + low) div 256 = offset"
    using low assms(3) by simp_all
  have "(256 * offset + low) div (256 * 256) = offset div 256"
    unfolding div_mult2_eq x(2) ..
  then have high: "(256 * offset + low) div 65536 = offset div 256"
    by simp
  show ?thesis
    unfolding eq le_store_4_nat [OF x(1)] x(2) high copy2_bytes_def of_nat_mod_256 of_nat_low_byte [OF low]
    by (simp add: low_def)
qed

lemma emit_copy_last_emits:
  assumes "op + length (copy_last_bytes offset len) + 2 \<le> length dst" "4 \<le> len" "len \<le> 64" "offset < 65536"
  shows "emits (copy_last_bytes offset len) (op, dst) (emit_copy_last offset len (op, dst))"
proof -
  have len: "length (copy_last_bytes offset len) = (if len < 12 \<and> offset < 2048 then 2 else 3)"
    by (simp add: copy_last_bytes_def copy2_bytes_def)
  consider "len < 12" "offset < 2048" | "len < 12" "\<not> offset < 2048" | "\<not> len < 12"
    by blast
  then show ?thesis
  proof cases
    case 1
    have "emits (take 2 (le_store 4 (push_bit 2 (word_of_nat len) + push_bit 8 (word_of_nat offset) +
        (1 - 16 + (drop_bit 3 (word_of_nat offset) AND 0xe0)) :: u32))) (op, dst)
        (emit_copy_last offset len (op, dst))"
      unfolding emit_copy_last_def Let_def prod.case using 1 assms(1) len
      by (simp only: if_True simp_thms) (rule emits_write, simp_all)
    then show ?thesis
      using 1 copy1_word [OF assms(2)] by (simp only: copy_last_bytes_def if_True simp_thms)
  next
    case 2
    have "emits (take 3 (le_store 4 (2 + push_bit 2 (word_of_nat len - 1) + push_bit 8 (word_of_nat offset) :: u32)))
        (op, dst) (emit_copy_last offset len (op, dst))"
      unfolding emit_copy_last_def Let_def prod.case using 2 assms(1) len
      by (simp only: if_True if_False simp_thms) (rule emits_write, simp_all)
    then show ?thesis
      using 2 copy2_word [of len offset] assms by (simp add: copy_last_bytes_def)
  next
    case 3
    have "emits (copy2_bytes offset len) (op, dst) (emit_copy2 offset len (op, dst))"
      by (rule emit_copy2_emits) (use 3 assms len in \<open>simp_all split: if_splits\<close>)
    then show ?thesis
      using 3 by (simp add: copy_last_bytes_def emit_copy_last_def)
  qed
qed

lemma length_copy2_bytes [simp]: "length (copy2_bytes offset len) = 3"
  by (simp add: copy2_bytes_def)

lemma emit_copy_emits:
  assumes "fst st + length (copy_bytes offset len) + 2 \<le> length (snd st)" "4 \<le> len" "offset < 65536"
  shows "emits (copy_bytes offset len) st (snappy_emit_copy offset len st)"
  using assms
proof (induction offset len arbitrary: st rule: copy_bytes.induct)
  case (1 offset len)
  obtain op dst where st: "st = (op, dst)"
    by fastforce
  show ?case
  proof (cases "68 \<le> len")
    case True
    have bytes: "copy_bytes offset len = copy2_bytes offset 64 @ copy_bytes offset (len - 64)"
      using True by (subst copy_bytes.simps) simp
    have first: "emits (copy2_bytes offset 64) st (emit_copy2 offset 64 st)"
      unfolding st by (rule emit_copy2_emits) (use 1(2) bytes st in simp_all)
    have "emits (copy_bytes offset (len - 64)) (emit_copy2 offset 64 st) (snappy_emit_copy offset (len - 64) (emit_copy2 offset 64 st))"
      by (rule 1(1) [OF True]) (use 1(2-) first bytes True in \<open>auto simp: emits_def\<close>)
    moreover have "snappy_emit_copy offset len st = snappy_emit_copy offset (len - 64) (emit_copy2 offset 64 st)"
      using True unfolding snappy_emit_copy_def by (subst emit_copy_chunks.simps) simp
    ultimately show ?thesis
      using emits_trans [OF first] bytes by simp
  next
    case small: False
    have chunks: "emit_copy_chunks offset len st = (len, st)"
      using small by (subst emit_copy_chunks.simps) simp
    show ?thesis
    proof (cases "64 < len")
      case True
      have bytes: "copy_bytes offset len = copy2_bytes offset 60 @ copy_last_bytes offset (len - 60)"
        using True small by (subst copy_bytes.simps) simp
      have first: "emits (copy2_bytes offset 60) st (emit_copy2 offset 60 st)"
        unfolding st by (rule emit_copy2_emits) (use 1(2) bytes st in simp_all)
      obtain op1 dst1 where st1: "emit_copy2 offset 60 st = (op1, dst1)"
        by fastforce
      have "emits (copy_last_bytes offset (len - 60)) (op1, dst1) (emit_copy_last offset (len - 60) (op1, dst1))"
        by (rule emit_copy_last_emits) (use 1(2-) first bytes True small st1 in \<open>auto simp: emits_def\<close>)
      then show ?thesis
        using emits_trans [OF first [unfolded st1]] True chunks bytes st1
        by (simp add: snappy_emit_copy_def)
    next
      case False
      have bytes: "copy_bytes offset len = copy_last_bytes offset len"
        using False small by (subst copy_bytes.simps) simp
      show ?thesis
        unfolding bytes using emit_copy_last_emits [of op offset len dst] False chunks 1(2-) bytes st
        by (simp add: snappy_emit_copy_def)
    qed
  qed
qed

lemma copy_bytes_cost: "4 \<le> len \<Longrightarrow> 60 * length (copy_bytes offset len) + 59 \<le> 61 * len"
proof (induction offset len rule: copy_bytes.induct)
  case (1 offset len)
  have last: "length (copy_last_bytes offset k) \<le> 3" for k
    by (simp add: copy_last_bytes_def copy2_bytes_def)
  show ?case
  proof (cases "68 \<le> len")
    case True
    then show ?thesis
      using 1(1) [OF True] by (subst copy_bytes.simps) (simp, linarith)
  next
    case False
    then show ?thesis
      using 1(2) last [of "len - 60"] last [of len] by (subst copy_bytes.simps) auto
  qed
qed

lemma literal_bytes_cost:
  assumes "lit \<noteq> []"
  shows "60 * length (literal_bytes lit) \<le> 61 * length lit + 59" "length (literal_bytes lit) \<le> length lit + 3"
proof -
  have "0 < length lit"
    using assms by simp
  then show "60 * length (literal_bytes lit) \<le> 61 * length lit + 59"
    "length (literal_bytes lit) \<le> length lit + 3"
    unfolding literal_bytes_def Let_def by (simp_all add: Suc_le_eq) linarith
qed

section \<open>What the elements decode to\<close>

text \<open>In a stream of \<open>N\<close> bytes the input \<open>bs\<close> takes the output from \<open>out\<close> to \<open>out'\<close>.\<close>

definition decodes :: "nat \<Rightarrow> bytes \<Rightarrow> bytes \<Rightarrow> bytes \<Rightarrow> bool" where
  "decodes N bs out out' \<longleftrightarrow> length out \<le> length out' \<and>
     (length out' \<le> N \<longrightarrow> (\<forall>rest. format_stream False N (bs @ rest) out = format_stream False N rest out'))"

lemma decodes_refl: "decodes N [] out out"
  by (simp add: decodes_def)

lemma decodes_trans: "decodes N a out out1 \<Longrightarrow> decodes N b out1 out2 \<Longrightarrow> decodes N (a @ b) out out2"
  by (auto simp: decodes_def)

lemma unat_byte: "unat (word_of_nat n :: u8) = n mod 256"
  by (simp add: unat_of_nat take_bit_eq_mod)

lemma decodes_elem:
  assumes "t < 256" "\<And>rest. format_elem False t (bs @ rest) = Some (e, rest)" "ext \<noteq> []"
    and "\<And>N. length out + length ext \<le> N \<Longrightarrow> apply_elem N out e = Some (out @ ext)"
  shows "decodes N (word_of_nat t # bs) out (out @ ext)"
proof -
  have t: "unat (word_of_nat t :: u8) = t"
    using assms(1) by (simp only: unat_byte mod_less)
  have "format_stream False N ((word_of_nat t # bs) @ rest) out = format_stream False N rest (out @ ext)"
    if "length (out @ ext) \<le> N" for rest
  proof -
    have "0 < length ext"
      using assms(3) by simp
    then have "length out < N"
      using that unfolding length_append by linarith
    then show ?thesis
      using assms(2, 4) that t by (simp add: format_stream.simps [of False N "_ # _"] format_step_def)
  qed
  then show ?thesis
    by (simp add: decodes_def)
qed

lemma literal_decodes:
  assumes "lit \<noteq> []" "length lit \<le> 65536"
  shows "decodes N (literal_bytes lit) out (out @ lit)"
proof -
  define n where "n = length lit - 1"
  have n: "length lit = n + 1" "n < 65536"
    using assms by (cases lit; simp add: n_def)+
  consider "n < 60" | "60 \<le> n" "n < 256" | "256 \<le> n"
    by linarith
  then show ?thesis
  proof cases
    case 1
    have "decodes N (word_of_nat (n * 4) # lit) out (out @ lit)"
      by (rule decodes_elem [where e = "Literal lit"])
        (use 1 n assms in \<open>simp_all add: format_elem_def literal_elem_def\<close>)
    then show ?thesis
      using 1 n by (simp add: literal_bytes_def)
  next
    case 2
    have "decodes N (word_of_nat 240 # word_of_nat n # lit) out (out @ lit)"
      by (rule decodes_elem [where e = "Literal lit"])
        (use 2 n assms in \<open>simp_all add: unat_byte format_elem_def literal_elem_def\<close>)
    then show ?thesis
      using 2 n by (simp add: literal_bytes_def)
  next
    case 3
    have "n div 256 < 256" "n mod 256 + 256 * (n div 256) = n"
      using n(2) by (simp_all add: div_less_iff_less_mult)
    then have "decodes N (word_of_nat 244 # word_of_nat n # word_of_nat (n div 256) # lit) out (out @ lit)"
      by (intro decodes_elem [where e = "Literal lit"])
        (use 3 n assms in \<open>simp_all add: unat_byte format_elem_def literal_elem_def\<close>)
    then show ?thesis
      using 3 n by (simp add: literal_bytes_def)
  qed
qed

lemma quad_mod: "r < 4 \<Longrightarrow> (q * 4 + r) mod 4 = r" for q r :: nat
  by simp

lemma copy2_decodes:
  assumes "1 \<le> len" "len \<le> 64" "1 \<le> off" "off < 65536" "off \<le> length out"
  shows "decodes N (copy2_bytes off len) out (out @ repeat_back off len out)"
proof -
  have "decodes N (word_of_nat ((len - 1) * 4 + 2) # [word_of_nat (off mod 256), word_of_nat (off div 256)]) out
      (out @ repeat_back off len out)"
  proof (rule decodes_elem [where e = "Copy off len"])
    fix rest
    have "((len - 1) * 4 + 2) mod 4 = 2"
      by (rule quad_mod) simp
    moreover have "((len - 1) * 4 + 2) div 4 = len - 1"
      by linarith
    moreover have "off div 256 < 256"
      using assms(4) by (simp add: div_less_iff_less_mult)
    ultimately show "format_elem False ((len - 1) * 4 + 2)
        ([word_of_nat (off mod 256), word_of_nat (off div 256)] @ rest) = Some (Copy off len, rest)"
      unfolding format_elem_def copy_elem_def using assms(1) by (simp add: unat_byte)
    show "(len - 1) * 4 + 2 < 256"
      using assms(2) by simp
  qed (use assms in \<open>simp_all add: repeat_back_def\<close>)
  then show ?thesis
    by (simp add: copy2_bytes_def)
qed

lemma copy_last_decodes:
  assumes "4 \<le> len" "len \<le> 64" "1 \<le> off" "off < 65536" "off \<le> length out"
  shows "decodes N (copy_last_bytes off len) out (out @ repeat_back off len out)"
proof (cases "len < 12 \<and> off < 2048")
  case True
  have "decodes N (word_of_nat (1 + (len - 4) * 4 + 32 * (off div 256)) # [word_of_nat (off mod 256)]) out
      (out @ repeat_back off len out)"
  proof (rule decodes_elem [where e = "Copy off len"])
    fix rest
    let ?t = "1 + (len - 4) * 4 + 32 * (off div 256)"
    have off: "off div 256 < 8"
      using True by (simp add: div_less_iff_less_mult)
    show "?t < 256"
      using True assms(1) off by linarith
    have t: "?t = (len - 4 + 8 * (off div 256)) * 4 + 1"
      by simp
    have "?t mod 4 = 1"
      unfolding t by (rule quad_mod) simp
    moreover have "?t div 32 = off div 256"
      using True assms(1) by linarith
    moreover have d: "?t div 4 = len - 4 + 8 * (off div 256)"
      using True assms(1) by linarith
    have "?t div 4 mod 8 = len - 4"
      unfolding d mod_mult_self2 by (rule mod_less) (use True assms(1) in linarith)
    ultimately show "format_elem False ?t ([word_of_nat (off mod 256)] @ rest) = Some (Copy off len, rest)"
      unfolding format_elem_def copy_elem_def using assms(1) by (simp add: unat_byte)
  qed (use assms in \<open>simp_all add: repeat_back_def\<close>)
  then show ?thesis
    using True by (simp add: copy_last_bytes_def)
next
  case False
  then show ?thesis
    using copy2_decodes [of len off out N] assms by (auto simp: copy_last_bytes_def)
qed

subsection \<open>Copies of the source\<close>

definition match_at :: "bytes \<Rightarrow> nat \<Rightarrow> nat \<Rightarrow> nat \<Rightarrow> bool" where
  "match_at src ip off len \<longleftrightarrow> 1 \<le> off \<and> off \<le> ip \<and> ip + len \<le> length src \<and>
     (\<forall>i < len. src ! (ip + i) = src ! (ip - off + i))"

lemma match_at_period:
  assumes "match_at src ip off len" "i < len"
  shows "src ! (ip + i) = src ! (ip - off + i mod off)"
  using assms(2)
proof (induction i rule: less_induct)
  case (less i)
  have m: "1 \<le> off" "off \<le> ip" "src ! (ip + i) = src ! (ip - off + i)"
    using assms(1) less.prems by (simp_all add: match_at_def)
  show ?case
  proof (cases "i < off")
    case False
    then have "src ! (ip + (i - off)) = src ! (ip - off + (i - off) mod off)"
      using m(1) less.prems by (intro less.IH) simp_all
    moreover have "ip - off + i = ip + (i - off)" "(i - off) mod off = i mod off"
      using False m(2) by (simp_all add: le_mod_geq)
    ultimately show ?thesis
      using m(3) by simp
  qed (use m in simp)
qed

lemma repeat_back_source:
  assumes "match_at src ip off len"
  shows "(prev @ take ip src) @ repeat_back off len (prev @ take ip src) = prev @ take (ip + len) src"
proof -
  have m: "1 \<le> off" "off \<le> ip" "ip + len \<le> length src"
    using assms by (simp_all add: match_at_def)
  have "repeat_back off len (prev @ take ip src) = take len (drop ip src)"
  proof (rule nth_equalityI)
    show "length (repeat_back off len (prev @ take ip src)) = length (take len (drop ip src))"
      using m by (simp add: repeat_back_def)
    fix i assume "i < length (repeat_back off len (prev @ take ip src))"
    then have i: "i < len"
      by (simp add: repeat_back_def)
    have "i mod off < off"
      using m(1) by simp
    then have pos: "ip - off + i mod off < ip" "length (prev @ take ip src) - off + i mod off = length prev + (ip - off + i mod off)"
      using m by (simp_all only: length_append length_take)
    then have "(prev @ take ip src) ! (length (prev @ take ip src) - off + i mod off) = src ! (ip - off + i mod off)"
      unfolding pos(2) using pos(1) by simp
    then show "repeat_back off len (prev @ take ip src) ! i = take len (drop ip src) ! i"
      using i m match_at_period [OF assms i] by (simp add: repeat_back_def)
  qed
  then show ?thesis
    using m(3) by (simp add: take_add)
qed

lemma match_at_split:
  assumes "match_at src ip off len" "k \<le> len"
  shows "match_at src ip off k" "match_at src (ip + k) off (len - k)"
proof -
  show "match_at src ip off k"
    using assms by (auto simp: match_at_def)
  have "src ! (ip + k + i) = src ! (ip + k - off + i)" if "i < len - k" for i
  proof -
    have "src ! (ip + (k + i)) = src ! (ip - off + (k + i))"
      using assms that unfolding match_at_def by (metis add.commute less_diff_conv)
    moreover have "ip - off + (k + i) = ip + k - off + i"
      using assms(1) by (simp add: match_at_def)
    ultimately show ?thesis
      by (simp add: add.assoc)
  qed
  then show "match_at src (ip + k) off (len - k)"
    using assms by (simp add: match_at_def)
qed

lemma copy_decodes:
  assumes "match_at src ip off len" "4 \<le> len" "off < 65536"
  shows "decodes N (copy_bytes off len) (prev @ take ip src) (prev @ take (ip + len) src)"
  using assms
proof (induction off len arbitrary: ip rule: copy_bytes.induct)
  case (1 off len)
  have off: "1 \<le> off"
    using 1(2) by (simp add: match_at_def)
  have within: "off \<le> length (prev @ take (ip + q) src)" if "q \<le> len" for q
    using 1(2) that by (auto simp: match_at_def)
  have elem2: "decodes N (copy2_bytes off k) (prev @ take ip src) (prev @ take (ip + k) src)"
    if "1 \<le> k" "k \<le> 64" "k \<le> len" for k
    using copy2_decodes [OF that(1, 2) off 1(4) within [of 0], of N]
      repeat_back_source [OF match_at_split(1) [OF 1(2) that(3)], of prev]
    by simp
  have last: "decodes N (copy_last_bytes off (len - k)) (prev @ take (ip + k) src) (prev @ take (ip + len) src)"
    if "4 \<le> len - k" "len - k \<le> 64" "k \<le> len" for k
    using copy_last_decodes [OF that(1, 2) off 1(4) within [OF that(3)], of N]
      repeat_back_source [OF match_at_split(2) [OF 1(2) that(3)], of prev] that(3)
    by simp
  show ?case
  proof (cases "68 \<le> len")
    case True
    have "decodes N (copy_bytes off (len - 64)) (prev @ take (ip + 64) src) (prev @ take (ip + 64 + (len - 64)) src)"
      by (rule 1(1) [OF True match_at_split(2) [OF 1(2)]]) (use True 1(4) in simp_all)
    then show ?thesis
      using decodes_trans [OF elem2 [of 64]] True by (subst copy_bytes.simps) simp
  next
    case False
    then show ?thesis
      using decodes_trans [OF elem2 [of 60] last [of 60]] last [of 0] 1(3)
      by (subst copy_bytes.simps) simp
  qed
qed

section \<open>Blocks\<close>

text \<open>Every position in the table lies before the position the compressor works on.\<close>

definition table_ok :: "hash_table \<Rightarrow> nat \<Rightarrow> bool" where
  "table_ok ht ip \<longleftrightarrow> (\<forall>h. unat (ht h) < ip)"

lemma snappy_hash_less: "snappy_hash val < 2 ^ SNAPPY_HASH_LOG"
proof -
  have "unat (val * 0x1e35a7bd) < 2 ^ LENGTH(32)"
    by (rule unsigned_less)
  then show ?thesis
    by (simp add: snappy_hash_def unat_drop_bit_word less_mult_imp_div_less)
qed

lemma table_ok_mono: "table_ok ht p \<Longrightarrow> p \<le> q \<Longrightarrow> table_ok ht q"
  by (auto simp: table_ok_def intro: less_le_trans)

lemma table_ok_update: "table_ok ht ip \<Longrightarrow> p < ip \<Longrightarrow> p < 65536 \<Longrightarrow> table_ok (ht(h := word_of_nat p)) ip"
  by (simp add: table_ok_def unat_of_nat take_bit_nat_eq_self)

lemma load32_eq:
  assumes "load32 src p = load32 src m" "p + 4 \<le> length src" "m < p" "i < 4"
  shows "src ! (p + i) = src ! (m + i)"
proof -
  have "le_store 4 (load32 src p) = take 4 (drop p src)" "le_store 4 (load32 src m) = take 4 (drop m src)"
    using assms le_store_le_load [of "take 4 (drop p src)", where 'a = 32]
      le_store_le_load [of "take 4 (drop m src)", where 'a = 32]
    by (simp_all add: load32_def)
  then have "take 4 (drop p src) ! i = take 4 (drop m src) ! i"
    using assms(1) by simp
  then show ?thesis
    using assms(2-4) by simp
qed

text \<open>What a search finds is an earlier occurrence of the four bytes at a position the block has room for.\<close>

lemma snappy_search_finds:
  assumes "snappy_search src ilimit extra ht ip = (r, ht')" "table_ok ht ip" "ilimit + 15 \<le> length src"
    "length src \<le> 65536"
  shows "case r of None \<Rightarrow> True
    | Some (c, q) \<Rightarrow> c < q \<and> ip \<le> q \<and> q < ilimit \<and> load32 src q = load32 src c \<and> table_ok ht' (Suc q)"
  using assms
proof (induction src ilimit extra ht ip rule: snappy_search.induct)
  case (1 src ilimit extra ht ip)
  let ?h = "snappy_hash (load32 src ip)"
  let ?step = "(32 + extra) div 32"
  note eq = 1(2) [unfolded snappy_search.simps [of src ilimit extra ht ip] Let_def]
  have step: "1 \<le> ?step"
    by simp
  show ?case
  proof (cases "ilimit < ip + ?step")
    case True
    then show ?thesis
      using eq by (auto split: if_splits)
  next
    case False
    then have ip: "ip < ilimit" "ip < 65536"
      using step 1(4, 5) by linarith+
    have ok: "table_ok (ht(?h := word_of_nat ip)) (Suc ip)"
      using table_ok_update [OF table_ok_mono [OF 1(3)], of "Suc ip" ip] ip by simp
    show ?thesis
    proof (cases "load32 src ip = load32 src (unat (ht ?h))")
      case True
      have "unat (ht ?h) < ip"
        using 1(3) by (simp add: table_ok_def)
      then show ?thesis
        using eq False True ip ok by auto
    next
      case differ: False
      have rec: "snappy_search src ilimit (extra + ?step) (ht(?h := word_of_nat ip)) (ip + ?step) = (r, ht')"
        using eq False differ by simp
      have "table_ok (ht(?h := word_of_nat ip)) (ip + ?step)"
        using table_ok_mono [OF ok] step by simp
      from 1(1) [OF refl refl refl False refl refl differ rec this 1(4, 5)] show ?thesis
        by (auto split: option.splits)
    qed
  qed
qed

lemma load64_window:
  assumes "k \<le> 4" "p + 8 \<le> length src"
  shows "(ucast (drop_bit (8 * k) (load64 src p)) :: u32) = load32 src (p + k)"
proof (rule bit_word_eqI)
  fix i assume "i < LENGTH(32)"
  then have i: "i < 32"
    by simp
  have "(8 * k + i) div 8 = k + i div 8" "(8 * k + i) mod 8 = i mod 8" "i div 8 < 4"
    using i by (simp_all add: div_less_iff_less_mult)
  then show "bit (ucast (drop_bit (8 * k) (load64 src p)) :: u32) i \<longleftrightarrow> bit (load32 src (p + k)) i"
    using assms i
    by (auto simp: bit_ucast_iff bit_drop_bit_eq load64_bit load32_def bit_le_load_iff add.assoc)
qed

lemma snappy_startup_finds:
  assumes "snappy_startup src ht (drop_bit (8 * (i mod 4)) (load64 src (1 + 4 * (i div 4)))) i = (r, ht')"
    "table_ok ht (Suc i)" "i \<le> 16" "32 \<le> length src"
  shows "case r of None \<Rightarrow> table_ok ht' 17
    | Some (c, k) \<Rightarrow> c < 1 + k \<and> k < 16 \<and> load32 src (1 + k) = load32 src c \<and> table_ok ht' (2 + k)"
  using assms
proof (induction "16 - i" arbitrary: i ht)
  case 0
  then show ?case
    by (subst (asm) snappy_startup.simps) simp
next
  case (Suc n)
  then have i: "i < 16"
    by simp
  let ?data = "drop_bit (8 * (i mod 4)) (load64 src (1 + 4 * (i div 4)))"
  let ?h = "snappy_hash (load32 src (1 + i))"
  let ?ht = "ht(?h := word_of_nat (1 + i))"
  have pos: "1 + 4 * (i div 4) + i mod 4 = 1 + i" "1 + 4 * (i div 4) + 8 \<le> length src"
    using i Suc.prems(4) by simp_all
  have "(ucast ?data :: u32) = load32 src (1 + 4 * (i div 4) + i mod 4)"
    by (rule load64_window) (use pos(2) in simp_all)
  then have dword: "(if i = 0 then load32 src 1 else ucast ?data) = load32 src (1 + i)"
    unfolding pos by simp
  have data: "(if i mod 4 = 3 then load64 src (1 + 4 * (i div 4) + 4) else drop_bit 8 ?data) =
      drop_bit (8 * (Suc i mod 4)) (load64 src (1 + 4 * (Suc i div 4)))"
    by (simp add: mod_Suc div_Suc)
  have ok: "table_ok ?ht (Suc (Suc i))"
    using table_ok_update [OF table_ok_mono [OF Suc.prems(2)], of "Suc (Suc i)" "1 + i"] i by simp
  have eq: "(if load32 src (unat (ht ?h)) = load32 src (1 + i) then (Some (unat (ht ?h), i), ?ht)
      else snappy_startup src ?ht (drop_bit (8 * (Suc i mod 4)) (load64 src (1 + 4 * (Suc i div 4)))) (Suc i)) = (r, ht')"
    using Suc.prems(1) i
    unfolding snappy_startup.simps [of src ht ?data i] Let_def dword data by simp
  show ?case
  proof (cases "load32 src (unat (ht ?h)) = load32 src (1 + i)")
    case True
    moreover have "unat (ht ?h) < Suc i"
      using Suc.prems(2) by (simp add: table_ok_def)
    ultimately show ?thesis
      using eq i ok by auto
  next
    case False
    then show ?thesis
      using eq Suc.hyps(1) [OF _ _ ok] Suc.hyps(2) Suc.prems(4) i by simp
  qed
qed

lemma emit_pending_emits:
  assumes "a \<le> q" "q \<le> length src" "length src \<le> 65536"
    "60 * fst st + 61 * (q - a) + 59 \<le> 60 * length (snd st)"
  shows "\<exists>bs. emits bs st (emit_pending src a q st) \<and> 60 * length bs \<le> 61 * (q - a) + 59 \<and>
    length bs \<le> q - a + 3 \<and> (\<forall>N prev. decodes N bs (prev @ take a src) (prev @ take q src))"
proof (cases "a < q")
  case True
  obtain op dst where st: "st = (op, dst)"
    by fastforce
  let ?lit = "take (q - a) (drop a src)"
  have lit: "length ?lit = q - a" "?lit \<noteq> []" "length ?lit \<le> 65536"
    using True assms by auto
  note cost = literal_bytes_cost [OF lit(2), unfolded lit(1)]
  have "op + length (literal_bytes ?lit) \<le> length dst"
    using cost(1) assms(4) st by simp
  from emit_literal_emits [OF lit(2, 3) this] True
  have "emits (literal_bytes ?lit) st (emit_pending src a q st)"
    by (simp add: emit_pending_def st)
  moreover have "decodes N (literal_bytes ?lit) (prev @ take a src) (prev @ take q src)" for N prev
  proof -
    have "(prev @ take a src) @ ?lit = prev @ take q src"
      using assms(1) by (simp add: take_add [symmetric])
    then show ?thesis
      using literal_decodes [OF lit(2, 3), of N "prev @ take a src"] by simp
  qed
  ultimately show ?thesis
    using cost by blast
next
  case False
  then show ?thesis
    using assms(1) by (intro exI [of _ "[]"]) (simp add: emit_pending_def emits_refl decodes_refl)
qed

text \<open>One match: the copy that \<^verbatim>\<open>emit_match\<close> emits at a position.\<close>

lemma match_emits:
  assumes "c < ip" "load32 src ip = load32 src c" "ip + 4 \<le> length src" "length src \<le> 65536"
    and room: "60 * fst st + 61 * (length src - ip) + 1140 \<le> 60 * length (snd st)"
    and len: "len = 4 + fast_match_length src (ip + 4) (c + 4)"
  shows "ip + len \<le> length src" "emits (copy_bytes (ip - c) len) st (snappy_emit_copy (ip - c) len st)"
    "60 * length (copy_bytes (ip - c) len) + 59 \<le> 61 * len"
    "decodes N (copy_bytes (ip - c) len) (prev @ take ip src) (prev @ take (ip + len) src)"
proof -
  have fast: "ip + 4 + (len - 4) \<le> length src" "\<And>i. i < len - 4 \<Longrightarrow> src ! (ip + 4 + i) = src ! (c + 4 + i)"
    using match_bytes_spec [of "ip + 4" src "c + 4"] assms(1, 3) len by (simp_all add: fast_match_length_bytes)
  then show le: "ip + len \<le> length src"
    using len by simp
  have "src ! (ip + i) = src ! (c + i)" if "i < len" for i
    using load32_eq [OF assms(2, 3, 1), of i] fast(2) [of "i - 4"] that by (cases "i < 4") simp_all
  then have m: "match_at src ip (ip - c) len"
    using assms(1) le by (simp add: match_at_def)
  show cost: "60 * length (copy_bytes (ip - c) len) + 59 \<le> 61 * len"
    by (rule copy_bytes_cost) (simp add: len)
  have "fst st + length (copy_bytes (ip - c) len) + 2 \<le> length (snd st)"
    using cost room le by linarith
  then show "emits (copy_bytes (ip - c) len) st (snappy_emit_copy (ip - c) len st)"
    by (rule emit_copy_emits) (use len assms in simp_all)
  show "decodes N (copy_bytes (ip - c) len) (prev @ take ip src) (prev @ take (ip + len) src)"
    by (rule copy_decodes [OF m]) (use len assms in simp_all)
qed

definition covers :: "bytes \<Rightarrow> nat \<Rightarrow> cursor \<Rightarrow> nat \<times> cursor \<Rightarrow> bool" where
  "covers src ip st r \<longleftrightarrow>
     (case r of (anchor, st') \<Rightarrow>
        ip < anchor \<and> anchor \<le> length src \<and>
        (\<exists>bs. emits bs st st' \<and> 60 * length bs + 59 \<le> 61 * (anchor - ip) \<and>
           (\<forall>N prev. decodes N bs (prev @ take ip src) (prev @ take anchor src))))"

lemma covers_trans:
  assumes "emits a st st1" "60 * length a \<le> 61 * (q - ip)" "ip \<le> q"
    and "\<And>N prev. decodes N a (prev @ take ip src) (prev @ take q src)"
    and "covers src q st1 r"
  shows "covers src ip st r"
proof -
  obtain anchor st' bs where r: "r = (anchor, st')" "q < anchor" "anchor \<le> length src" "emits bs st1 st'"
      "60 * length bs + 59 \<le> 61 * (anchor - q)" "\<And>N prev. decodes N bs (prev @ take q src) (prev @ take anchor src)"
    using assms(5) by (auto simp: covers_def)
  have "60 * length (a @ bs) + 59 \<le> 61 * (anchor - ip)"
    using assms(2, 3) r(2, 5) by simp
  moreover have "decodes N (a @ bs) (prev @ take ip src) (prev @ take anchor src)" for N prev
    by (rule decodes_trans [OF assms(4) r(6)])
  ultimately show ?thesis
    using r(1-3) assms(3) emits_trans [OF assms(1) r(4)] by (auto simp: covers_def)
qed

text \<open>The room left after a copy, and after a literal that follows it.\<close>

lemma room_step:
  fixes f k l r d :: nat
  shows "60 * f + 61 * (r + l) + 1140 \<le> 60 * d \<Longrightarrow> 60 * k + 59 \<le> 61 * l \<Longrightarrow>
      60 * (f + k) + 61 * r + 1140 + 59 \<le> 60 * d"
    and "60 * f + 61 * (r + l) + 1140 + 59 \<le> 60 * d \<Longrightarrow> 60 * k \<le> 61 * l + 59 \<Longrightarrow>
      60 * (f + k) + 61 * r + 1140 \<le> 60 * d"
    and "60 * f + 61 * (r + l) + 1140 + 59 \<le> 60 * d \<Longrightarrow> 60 * f + 61 * l + 59 \<le> 60 * d"
    and "60 * f + 61 * (l + r) + 1140 + 59 \<le> 60 * d \<Longrightarrow> 60 * k \<le> 61 * l \<Longrightarrow>
      60 * (f + k) + 61 * r + 59 \<le> 60 * d"
  by (simp_all add: algebra_simps)

lemma snappy_matches_covers:
  assumes "c < ip" "load32 src ip = load32 src c" "ip < ilimit" "ilimit + 15 \<le> length src" "length src \<le> 65536"
    "table_ok ht (Suc ip)" "60 * fst st + 61 * (length src - ip) + 1140 \<le> 60 * length (snd st)"
  shows "covers src ip st (snappy_matches src ilimit ht c ip st)"
  using assms
proof (induction src ilimit ht c ip st rule: snappy_matches.induct)
  case (1 src ilimit ht c ip st)
  define len where "len = 4 + fast_match_length src (ip + 4) (c + 4)"
  define ip1 where "ip1 = ip + len"
  define st1 where "st1 = snappy_emit_copy (ip - c) len st"
  define ht1 where "ht1 = ht(snappy_hash (load32 src (ip1 - 1)) := word_of_nat (ip1 - 1))"
  define h where "h = snappy_hash (load32 src ip1)"
  define c1 where "c1 = unat (ht1 h)"
  define ht2 where "ht2 = ht1(h := word_of_nat ip1)"
  have pos: "ip + 4 \<le> length src"
    using 1(5, 6) by linarith
  note m = match_emits [OF 1(3, 4) pos 1(7) 1(9) len_def, folded ip1_def st1_def]
  have ip1: "ip + 4 \<le> ip1" "ip \<le> ip1"
    by (simp_all add: ip1_def len_def)
  have eq: "snappy_matches src ilimit ht c ip st =
      (if ilimit \<le> ip1 then (ip1, st1)
       else if load32 src ip1 = load32 src c1 \<and> ip1 - c1 \<le> 65535 then snappy_matches src ilimit ht2 c1 ip1 st1
       else case snappy_search src ilimit 0 ht2 (Suc ip1) of
         (None, ht3) \<Rightarrow> (ip1, st1)
       | (Some (c2, ip2), ht3) \<Rightarrow> snappy_matches src ilimit ht3 c2 ip2 (emit_pending src ip1 ip2 st1))"
    unfolding snappy_matches.simps [of src ilimit ht c ip st] Let_def
    unfolding len_def [symmetric] ip1_def [symmetric] st1_def [symmetric] ht1_def [symmetric] h_def [symmetric]
      c1_def [symmetric] ht2_def [symmetric] ..
  let ?a = "copy_bytes (ip - c) len"
  have st1: "fst st1 = fst st + length ?a" "length (snd st1) = length (snd st)"
    using m(2) by (simp_all add: emits_def)
  have room: "60 * fst st1 + 61 * (length src - ip1) + 1140 + 59 \<le> 60 * length (snd st1)"
  proof -
    have "length src - ip = (length src - (ip + len)) + len"
      using m(1) by (simp add: ip1_def)
    then show ?thesis
      unfolding st1 ip1_def by (intro room_step(1) [OF _ m(3)]) (use 1(9) in simp)
  qed
  have stop: "covers src ip st (ip1, st1)"
    using m ip1 by (auto simp: covers_def ip1_def intro!: exI [of _ ?a])
  show ?case
  proof (cases "ilimit \<le> ip1")
    case True
    then show ?thesis
      using eq stop by simp
  next
    case False
    have table: "table_ok ht1 ip1" "table_ok ht2 (Suc ip1)"
    proof -
      show t1: "table_ok ht1 ip1"
        unfolding ht1_def
        by (rule table_ok_update [OF table_ok_mono [OF 1(8)]]) (use ip1 False 1(6, 7) in linarith)+
      show "table_ok ht2 (Suc ip1)"
        unfolding ht2_def
        by (rule table_ok_update [OF table_ok_mono [OF t1]]) (use False 1(6, 7) in linarith)+
    qed
    then have c1: "c1 < ip1"
      by (simp add: c1_def table_ok_def)
    show ?thesis
    proof (cases "load32 src ip1 = load32 src c1 \<and> ip1 - c1 \<le> 65535")
      case True
      have "covers src ip1 st1 (snappy_matches src ilimit ht2 c1 ip1 st1)"
        by (rule 1(1) [OF len_def refl ip1_def st1_def False ht1_def h_def c1_def ht2_def True c1])
          (use True False room 1(6, 7) table(2) in \<open>linarith | blast\<close>)+
      then have "covers src ip st (snappy_matches src ilimit ht2 c1 ip1 st1)"
        using m by (intro covers_trans [OF m(2) _ ip1(2)]) (auto simp: ip1_def)
      then show ?thesis
        using eq False True by simp
    next
      case differ: False
      obtain r ht3 where search: "snappy_search src ilimit 0 ht2 (Suc ip1) = (r, ht3)"
        by fastforce
      note found = snappy_search_finds [OF search table(2) 1(6, 7)]
      show ?thesis
      proof (cases r)
        case None
        then show ?thesis
          using eq False differ search stop by simp
      next
        case (Some cq)
        obtain c2 ip2 where r: "r = Some (c2, ip2)"
          using Some by (cases cq) simp
        with found have f: "c2 < ip2" "Suc ip1 \<le> ip2" "ip2 < ilimit" "load32 src ip2 = load32 src c2"
            "table_ok ht3 (Suc ip2)"
          by simp_all
        define st2 where "st2 = emit_pending src ip1 ip2 st1"
        have "60 * fst st1 + 61 * (ip2 - ip1) + 59 \<le> 60 * length (snd st1)"
        proof -
          have "length src - ip1 = (length src - ip2) + (ip2 - ip1)"
            using f 1(6) by simp
          then show ?thesis
            using room by (intro room_step(3)) simp
        qed
        then obtain b where b: "emits b st1 st2" "60 * length b \<le> 61 * (ip2 - ip1) + 59"
            "\<And>N prev. decodes N b (prev @ take ip1 src) (prev @ take ip2 src)"
          using emit_pending_emits [of ip1 ip2 src st1] f 1(6, 7) unfolding st2_def by auto
        have st2: "fst st2 = fst st1 + length b" "length (snd st2) = length (snd st1)"
          using b(1) by (simp_all add: emits_def)
        have room2: "60 * fst st2 + 61 * (length src - ip2) + 1140 \<le> 60 * length (snd st2)"
        proof -
          have "length src - ip1 = (length src - ip2) + (ip2 - ip1)"
            using f 1(6) by simp
          then show ?thesis
            unfolding st2 by (intro room_step(2) [OF _ b(2)]) (use room in simp)
        qed
        have rec: "covers src ip2 st2 (snappy_matches src ilimit ht3 c2 ip2 st2)"
          unfolding st2_def
          by (rule 1(2) [OF len_def refl ip1_def st1_def False ht1_def h_def c1_def ht2_def differ search [symmetric] r refl
                f(1, 4, 3) 1(6, 7) f(5) room2 [unfolded st2_def]])
        have "covers src ip st (snappy_matches src ilimit ht3 c2 ip2 st2)"
        proof (rule covers_trans [OF emits_trans [OF m(2) b(1)] _ _ _ rec])
          show "60 * length (?a @ b) \<le> 61 * (ip2 - ip)"
            using m(3) b(2) f ip1_def by simp
          show "ip \<le> ip2"
            using ip1 f by linarith
          show "decodes N (?a @ b) (prev @ take ip src) (prev @ take ip2 src)" for N prev
            using decodes_trans [OF m(4) b(3)] by (simp add: ip1_def)
        qed
        then show ?thesis
          using eq False differ search r st2_def by simp
      qed
    qed
  qed
qed

definition reached :: "bytes \<Rightarrow> cursor \<Rightarrow> nat \<times> cursor \<Rightarrow> bool" where
  "reached src st r \<longleftrightarrow>
     (case r of (anchor, st') \<Rightarrow> anchor \<le> length src \<and>
        (\<exists>bs. emits bs st st' \<and> 60 * length bs \<le> 61 * anchor \<and>
           (\<forall>N prev. decodes N bs prev (prev @ take anchor src))))"

lemma reached_start: "reached src st (0, st)"
  by (auto simp: reached_def intro!: exI [of _ "[]"] emits_refl decodes_refl)

lemma reached_covers:
  assumes "emits a st st1" "60 * length a \<le> 61 * ip + 59"
    "\<And>N prev. decodes N a prev (prev @ take ip src)" "covers src ip st1 r"
  shows "reached src st r"
proof -
  obtain anchor st' bs where r: "r = (anchor, st')" "ip < anchor" "anchor \<le> length src" "emits bs st1 st'"
      "60 * length bs + 59 \<le> 61 * (anchor - ip)" "\<And>N prev. decodes N bs (prev @ take ip src) (prev @ take anchor src)"
    using assms(4) by (auto simp: covers_def)
  have "60 * length (a @ bs) \<le> 61 * anchor"
    using assms(2) r(2, 5) by simp
  moreover have "decodes N (a @ bs) prev (prev @ take anchor src)" for N prev
    by (rule decodes_trans [OF assms(3) r(6)])
  ultimately show ?thesis
    using r(1, 3) emits_trans [OF assms(1) r(4)] by (auto simp: reached_def)
qed

lemma searched_reached:
  assumes search: "snappy_search src ilimit 0 ht ip = (r, ht')" and "table_ok ht ip" "1 \<le> ip"
    "ilimit + 15 \<le> length src" "length src \<le> 65536"
    "60 * fst st + 61 * length src + 1140 + 59 \<le> 60 * length (snd st)"
  shows "reached src st (case r of None \<Rightarrow> (0, st)
    | Some (c, q) \<Rightarrow> snappy_matches src ilimit ht' c q (emit_pending src 0 q st))"
proof (cases r)
  case None
  then show ?thesis
    by (simp add: reached_start)
next
  case (Some cq)
  obtain c q where r: "r = Some (c, q)"
    using Some by (cases cq) simp
  with snappy_search_finds [OF search assms(2, 4, 5)]
  have f: "c < q" "q < ilimit" "load32 src q = load32 src c" "table_ok ht' (Suc q)"
    by simp_all
  have len: "length src = (length src - q) + q"
    using f(2) assms(4) by simp
  have "60 * fst st + 61 * (q - 0) + 59 \<le> 60 * length (snd st)"
    using assms(6) len by linarith
  then obtain a where a: "emits a st (emit_pending src 0 q st)" "60 * length a \<le> 61 * q + 59"
      "\<And>N prev. decodes N a prev (prev @ take q src)"
    using emit_pending_emits [of 0 q src st] f(2) assms(4, 5) by auto
  have "60 * (fst st + length a) + 61 * (length src - q) + 1140 \<le> 60 * length (snd st)"
    by (rule room_step(2) [OF _ a(2)]) (use assms(6) len in simp)
  then have "covers src q (emit_pending src 0 q st) (snappy_matches src ilimit ht' c q (emit_pending src 0 q st))"
    by (intro snappy_matches_covers [OF f(1, 3, 2) assms(4, 5) f(4)]) (use a(1) in \<open>simp add: emits_def\<close>)
  then show ?thesis
    using reached_covers [OF a(1, 2, 3)] r by simp
qed

lemma startup_literal:
  assumes "i < 16" "16 \<le> length src" "op + 17 \<le> length dst"
  shows "emits (literal_bytes (take (Suc i) src)) (op, dst)
    (op + i + 2, write_at (op + 1) (take 16 src) (write_at op [word_of_nat (i * 4)] dst))"
proof -
  let ?d = "write_at op [word_of_nat (i * 4)] dst"
  have 1: "emits [word_of_nat (i * 4)] (op, dst) (op + 1, ?d)"
    by (rule emits_byte) (use assms in simp)
  have "emits (take (Suc i) (take 16 src)) (op + 1, ?d) (op + 1 + Suc i, write_at (op + 1) (take 16 src) ?d)"
    by (rule emits_write) (use assms 1 in \<open>auto simp: emits_def\<close>)
  from emits_trans [OF 1 this] show ?thesis
    using assms by (simp add: literal_bytes_def)
qed

lemma startup_reached:
  assumes f: "c < 1 + i" "i < 16" "load32 src (1 + i) = load32 src c" "table_ok ht (2 + i)"
    and "17 \<le> ilimit" "ilimit + 15 \<le> length src" "length src \<le> 65536"
    and room: "60 * op + 61 * length src + 1140 + 59 \<le> 60 * length dst"
  shows "reached src (op, dst) (snappy_matches src ilimit ht c (1 + i)
    (op + i + 2, write_at (op + 1) (take 16 src) (write_at op [word_of_nat (i * 4)] dst)))"
proof -
  let ?lit = "take (Suc i) src"
  have lit: "length ?lit = Suc i" "?lit \<noteq> []" "length ?lit \<le> 65536"
    using assms by auto
  have a: "emits (literal_bytes ?lit) (op, dst)
      (op + i + 2, write_at (op + 1) (take 16 src) (write_at op [word_of_nat (i * 4)] dst))" (is "emits _ _ ?st")
    by (rule startup_literal) (use assms in linarith)+
  have cost: "60 * length (literal_bytes ?lit) \<le> 61 * (1 + i) + 59"
    using literal_bytes_cost(1) [OF lit(2)] lit(1) by simp
  have len: "length src = (length src - (1 + i)) + (1 + i)"
    using assms(5, 6) f(2) by simp
  have "60 * (op + length (literal_bytes ?lit)) + 61 * (length src - (1 + i)) + 1140 \<le> 60 * length dst"
    by (rule room_step(2) [OF _ cost]) (use room len in simp)
  then have "covers src (1 + i) ?st (snappy_matches src ilimit ht c (1 + i) ?st)"
    by (intro snappy_matches_covers [OF f(1, 3) _ assms(6, 7)]) (use a f assms(5) in \<open>auto simp: emits_def\<close>)
  moreover have "decodes N (literal_bytes ?lit) prev (prev @ take (1 + i) src)" for N prev
    using literal_decodes [OF lit(2, 3), of N prev] by simp
  ultimately show ?thesis
    by (intro reached_covers [OF a cost])
qed

lemma remainder_emits:
  assumes "reached src st r" "length src \<le> 65536"
    "60 * fst st + 61 * length src + 1140 + 59 \<le> 60 * length (snd st)"
  shows "\<exists>bs. emits bs st (emit_remainder src r) \<and> 60 * length bs \<le> 61 * length src + 180 \<and>
    (\<forall>N prev. decodes N bs prev (prev @ src))"
proof -
  obtain anchor st' bs where r: "r = (anchor, st')" "anchor \<le> length src" "emits bs st st'"
      "60 * length bs \<le> 61 * anchor" "\<And>N prev. decodes N bs prev (prev @ take anchor src)"
    using assms(1) by (auto simp: reached_def)
  have st': "fst st' = fst st + length bs" "length (snd st') = length (snd st)"
    using r(3) by (simp_all add: emits_def)
  have len: "length src = anchor + (length src - anchor)"
    using r(2) by simp
  have "60 * fst st' + 61 * (length src - anchor) + 59 \<le> 60 * length (snd st')"
    unfolding st' by (rule room_step(4) [OF _ r(4)]) (use assms(3) len in simp)
  then obtain b where b: "emits b st' (emit_pending src anchor (length src) st')" "length b \<le> length src - anchor + 3"
      "\<And>N prev. decodes N b (prev @ take anchor src) (prev @ src)"
    using emit_pending_emits [of anchor "length src" src st'] r(2) assms(2) by auto
  have "60 * length (bs @ b) \<le> 61 * length src + 180"
  proof -
    obtain k where k: "length src = anchor + k"
      using r(2) le_Suc_ex by blast
    then have "length b \<le> k + 3"
      using b(2) by simp
    then show ?thesis
      using r(4) unfolding k length_append by (simp add: algebra_simps)
  qed
  moreover have "decodes N (bs @ b) prev (prev @ src)" for N prev
    by (rule decodes_trans [OF r(5) b(3)])
  moreover have "emits (bs @ b) st (emit_remainder src r)"
    using emits_trans [OF r(3) b(1)] r(1) by (simp add: emit_remainder_def)
  ultimately show ?thesis
    by blast
qed

lemma compress_block_emits:
  assumes "length src \<le> 65536" "60 * fst st + 61 * length src + 1140 + 59 \<le> 60 * length (snd st)"
  shows "\<exists>bs. emits bs st (snappy_compress_block src st) \<and> 60 * length bs \<le> 61 * length src + 180 \<and>
    (\<forall>N prev. decodes N bs prev (prev @ src))"
proof -
  consider "src = []" | "src \<noteq> []" "length src < 15" | "15 \<le> length src"
    by linarith
  then show ?thesis
  proof cases
    case 1
    then show ?thesis
      by (intro exI [of _ "[]"]) (simp add: snappy_compress_block_def emits_refl decodes_refl)
  next
    case 2
    have "snappy_compress_block src st = emit_remainder src (0, st)"
      using 2 by (simp add: snappy_compress_block_def emit_remainder_def emit_pending_def)
    then show ?thesis
      using remainder_emits [OF reached_start assms] by simp
  next
    case 3
    obtain op dst where st: "st = (op, dst)"
      by fastforce
    define ilimit where "ilimit = length src - 15"
    define ht where "ht = (\<lambda>_. 0 :: u16)(snappy_hash (load32 src 0) := 0)"
    have lim: "ilimit + 15 \<le> length src"
      using 3 by (simp add: ilimit_def)
    have ok: "table_ok ht 1"
      by (simp add: table_ok_def ht_def)
    define searched where "searched = (\<lambda>ht ip. case snappy_search src ilimit 0 ht ip of
        (None, ht) \<Rightarrow> (0, st)
      | (Some (c, q), ht) \<Rightarrow> snappy_matches src ilimit ht c q (emit_pending src 0 q st))"
    have search: "reached src st (searched ht' ip)" if "table_ok ht' ip" "1 \<le> ip" for ht' ip
      using searched_reached [OF _ that lim assms] unfolding searched_def
      by (auto split: prod.splits option.splits)
    have "snappy_compress_block src st = emit_remainder src
        (if 17 \<le> ilimit
         then (case snappy_startup src ht (load64 src 1) 0 of
                 (None, ht) \<Rightarrow> searched ht 17
               | (Some (c, i), ht) \<Rightarrow> snappy_matches src ilimit ht c (1 + i)
                   (op + i + 2, write_at (op + 1) (take 16 src) (write_at op [word_of_nat (i * 4)] dst)))
         else searched ht 1)"
      using 3 unfolding snappy_compress_block_def Let_def st searched_def ilimit_def ht_def by auto
    moreover have "reached src st (case snappy_startup src ht (load64 src 1) 0 of
          (None, ht) \<Rightarrow> searched ht 17
        | (Some (c, i), ht) \<Rightarrow> snappy_matches src ilimit ht c (1 + i)
            (op + i + 2, write_at (op + 1) (take 16 src) (write_at op [word_of_nat (i * 4)] dst)))" if "17 \<le> ilimit"
    proof -
      obtain r ht' where run: "snappy_startup src ht (load64 src 1) 0 = (r, ht')"
        by fastforce
      have found: "case r of None \<Rightarrow> table_ok ht' 17
          | Some (c, k) \<Rightarrow> c < 1 + k \<and> k < 16 \<and> load32 src (1 + k) = load32 src c \<and> table_ok ht' (2 + k)"
        by (rule snappy_startup_finds [of src ht 0]) (use run ok that lim in simp_all)
      show ?thesis
      proof (cases r)
        case None
        then show ?thesis
          using found run search [of ht' 17] by simp
      next
        case (Some ck)
        obtain c k where r: "r = Some (c, k)"
          using Some by (cases ck) simp
        with found have "c < 1 + k" "k < 16" "load32 src (1 + k) = load32 src c" "table_ok ht' (2 + k)"
          by simp_all
        from startup_reached [OF this that lim assms(1)] show ?thesis
          using run r assms(2) st by simp
      qed
    qed
    ultimately show ?thesis
      using remainder_emits [OF _ assms] search [OF ok] by simp
  qed
qed

section \<open>The whole stream\<close>

lemma snappy_blocks_emits:
  assumes "60 * fst st + 61 * length src + 180 * (length src div 65536) + 1379 \<le> 60 * length (snd st)"
  shows "\<exists>bs. emits bs st (snappy_blocks src st) \<and>
    60 * length bs \<le> 61 * length src + 180 * (length src div 65536 + 1) \<and>
    (\<forall>N prev. decodes N bs prev (prev @ src))"
  using assms
proof (induction src st rule: snappy_blocks.induct)
  case (1 src st)
  show ?case
  proof (cases "src = []")
    case True
    then show ?thesis
      by (intro exI [of _ "[]"]) (simp add: snappy_blocks.simps emits_refl decodes_refl)
  next
    case False
    define n where "n = min (length src) 65536"
    define st1 where "st1 = snappy_compress_block (take n src) st"
    have len: "length (take n src) = n" "length src = n + length (drop n src)"
      by (simp_all add: n_def)
    have "60 * fst st + 61 * length (take n src) + 1140 + 59 \<le> 60 * length (snd st)"
      using 1(2) len by linarith
    then obtain a where a: "emits a st st1" "60 * length a \<le> 61 * n + 180"
        "\<And>N prev. decodes N a prev (prev @ take n src)"
      using compress_block_emits [of "take n src" st] len(1) unfolding st1_def by (auto simp: n_def)
    have st1: "fst st1 = fst st + length a" "length (snd st1) = length (snd st)"
      using a(1) by (simp_all add: emits_def)
    have eq: "snappy_blocks src st = snappy_blocks (drop n src) st1"
      using False by (subst snappy_blocks.simps) (simp add: n_def st1_def Let_def)
    show ?thesis
    proof (cases "length src \<le> 65536")
      case True
      then have "drop n src = []" "take n src = src" "n = length src"
        by (simp_all add: n_def)
      then show ?thesis
        using a eq by (intro exI [of _ a]) (auto simp: snappy_blocks.simps)
    next
      case more: False
      then have n: "n = 65536"
        by (simp add: n_def)
      define k where "k = length (drop n src) div 65536"
      have q: "length src div 65536 = Suc k"
        using more n by (simp add: k_def le_div_geq)
      have room: "60 * fst st1 + 61 * length (drop n src) + 180 * k + 1379 \<le> 60 * length (snd st1)"
      proof -
        have "60 * fst st + 61 * (n + length (drop n src)) + 180 * Suc k + 1379 \<le> 60 * length (snd st)"
          using 1(2) unfolding q len(2) [symmetric] .
        then show ?thesis
          using a(2) unfolding st1 by (simp add: algebra_simps del: length_drop)
      qed
      obtain b where b: "emits b st1 (snappy_blocks (drop n src) st1)"
          "60 * length b \<le> 61 * length (drop n src) + 180 * (k + 1)"
          "\<And>N prev. decodes N b prev (prev @ drop n src)"
        using 1(1) [OF False n_def] room unfolding st1_def [symmetric] k_def by auto
      have "60 * length (a @ b) \<le> 61 * length src + 180 * (length src div 65536 + 1)"
      proof -
        have "60 * length (a @ b) \<le> 61 * (n + length (drop n src)) + 180 * (Suc k + 1)"
          using a(2) b(2) by (simp add: algebra_simps del: length_drop)
        then show ?thesis
          unfolding q len(2) [symmetric] .
      qed
      moreover have "decodes N (a @ b) prev (prev @ src)" for N prev
        using decodes_trans [OF a(3) [of N prev] b(3) [of N "prev @ take n src"]] by simp
      ultimately show ?thesis
        using emits_trans [OF a(1) b(1)] eq by auto
    qed
  qed
qed

lemma unat_cont_byte: "unat (ucast (v AND 0x7F) OR 0x80 :: u8) = unat v mod 128 + 128" for v :: u32
proof -
  let ?w = "ucast (v AND 0x7F) :: u8"
  have "unat (v AND 0x7F) = unat v mod 128"
    using unat_and_mask [of v 7] by (simp add: mask_eq_exp_minus_1)
  then have w: "unat ?w = unat v mod 128"
    by (simp add: unat_ucast_small)
  have "\<not> bit ?w 7"
    by (rule not_bit_if_small [of _ 7]) (simp_all add: w)
  then have "?w OR 0x80 = ?w + 0x80"
    by (intro disjunctive_add [symmetric]) (auto simp only: bit_0x80)
  then show ?thesis
    using w by (simp add: unat_word_ariths)
qed

lemma varint_nat_bytes:
  fixes v :: u32
  assumes "unat v < 2 ^ (7 * Suc k)"
  shows "varint_nat k (varint_bytes v @ p) = Some (unat v, p)"
  using assms
proof (induction v arbitrary: k rule: varint_bytes.induct)
  case (1 v)
  show ?case
  proof (cases "0x80 \<le> unat v")
    case True
    let ?b = "ucast (v AND 0x7F) OR 0x80 :: u8"
    obtain j where k: "k = Suc j"
      using True 1(2) by (cases k) auto
    have "unat (drop_bit 7 v) < 2 ^ (7 * Suc j)"
      using 1(2) k by (simp add: unat_drop_bit_word less_mult_imp_div_less power_add mult.commute)
    note rest = 1(1) [OF True this]
    have "\<not> ?b < 128"
      using unat_cont_byte [of v] by (simp add: word_less_nat_alt)
    moreover have "unat ?b - 128 + 128 * unat (drop_bit 7 v) = unat v"
      using unat_cont_byte [of v] by (simp add: unat_drop_bit_word)
    ultimately show ?thesis
      using True rest k by (simp add: varint_bytes.simps [of v])
  next
    case False
    then have "unat (ucast v :: u8) = unat v"
      by (intro unat_ucast_small) simp
    then show ?thesis
      using False by (simp add: varint_bytes.simps [of v] word_less_nat_alt)
  qed
qed

lemma length_varint_u32: "length (varint_bytes (v :: u32)) \<le> 5"
proof -
  have "unat v < 2 ^ LENGTH(32)"
    by (rule unsigned_less)
  then show ?thesis
    using length_varint_bytes [of 5 v] by simp
qed

lemma compress_bound_nat:
  assumes "n < 2 ^ 60"
  shows "unat (carquet_snappy_compress_bound (word_of_nat n)) = 32 + n + n div 6"
proof -
  have n: "unat (word_of_nat n :: u64) = n"
    using assms by (simp add: unat_of_nat)
  have "n div 6 \<le> n"
    by simp
  then show ?thesis
    using assms unfolding carquet_snappy_compress_bound_def
    by (simp add: unat_word_ariths unat_div n del: of_nat_numeral)
qed

text \<open>The bound has room for every intermediate state, the widest store included.\<close>

lemma bound_room:
  fixes n v d :: nat
  assumes "v \<le> 5" "32 + n + n div 6 \<le> d"
  shows "60 * v + 61 * n + 180 * (n div 65536) + 1379 \<le> 60 * d"
    and "60 * k \<le> 61 * n + 180 * (n div 65536 + 1) \<Longrightarrow> v + k \<le> 32 + n + n div 6"
proof -
  define q where "q = n div 6"
  define e where "e = n div 65536"
  have q: "n \<le> 6 * q + 5"
    unfolding q_def by linarith
  have e: "65536 * e \<le> n"
    unfolding e_def by simp
  show "60 * v + 61 * n + 180 * (n div 65536) + 1379 \<le> 60 * d"
    using assms q e unfolding q_def [symmetric] e_def [symmetric] by linarith
  show "v + k \<le> 32 + n + n div 6" if "60 * k \<le> 61 * n + 180 * (n div 65536 + 1)"
    using that assms(1) q e unfolding q_def [symmetric] e_def [symmetric] by (simp add: algebra_simps)
qed

text \<open>The output of the compressor, for a source below \<open>2 ^ 60\<close> bytes and enough room.\<close>

lemma compress_output:
  assumes "length src < 2 ^ 60" "32 + length src + length src div 6 \<le> length dst" "length dst < 2 ^ 64"
  shows "\<exists>body dst'. (let bs = varint_bytes (word_of_nat (length src) :: u32) @ body in
    carquet_snappy_compress (Some src) (word_of_nat (length src)) (Some dst) (word_of_nat (length dst)) True =
      (CARQUET_OK, Some (length bs), Some dst') \<and>
    length dst' = length dst \<and> take (length bs) dst' = bs \<and> length bs \<le> 32 + length src + length src div 6) \<and>
    (\<forall>N. decodes N body [] src)"
proof -
  let ?n = "word_of_nat (length src) :: u64" and ?v = "word_of_nat (length src) :: u32"
  let ?h = "varint_bytes ?v"
  define st where "st = snappy_write_varint ?v (0, dst)"
  have "emits (take (length ?h) ?h) (0, dst) (0 + length ?h, write_at 0 ?h dst)"
    by (rule emits_write) (use length_varint_u32 [of ?v] assms(2) in simp_all)
  then have h: "emits ?h (0, dst) st"
    by (simp add: st_def snappy_write_varint_def)
  then have st: "fst st = length ?h" "length (snd st) = length dst"
    by (simp_all add: emits_def)
  note h5 = length_varint_u32 [of ?v]
  obtain body where body: "emits body st (snappy_blocks src st)"
      "60 * length body \<le> 61 * length src + 180 * (length src div 65536 + 1)"
      "\<And>N prev. decodes N body prev (prev @ src)"
    using snappy_blocks_emits [of st src] bound_room(1) [OF h5 assms(2)] unfolding st by blast
  have n: "unat ?n = length src"
    using assms(1) by (simp add: unat_of_nat)
  have cap: "\<not> word_of_nat (length dst) < carquet_snappy_compress_bound ?n"
    using compress_bound_nat [OF assms(1)] assms(2, 3)
    by (simp add: word_less_nat_alt unat_of_nat take_bit_nat_eq_self)
  have zero: "?n = 0 \<longleftrightarrow> src = []"
    using n by (metis length_0_conv unsigned_0 unsigned_word_eqI)
  have narrow: "(ucast ?n :: u32) = ?v"
    by (rule bit_word_eqI) (simp add: bit_simps)
  have run: "carquet_snappy_compress (Some src) ?n (Some dst) (word_of_nat (length dst)) True =
      (CARQUET_OK, Some (fst (snappy_blocks src st)), Some (snd (snappy_blocks src st)))"
    unfolding carquet_snappy_compress_def using cap zero n
    by (simp add: narrow Let_def flip: st_def) (simp add: snappy_blocks.simps)
  have all: "emits (?h @ body) (0, dst) (snappy_blocks src st)"
    by (rule emits_trans [OF h body(1)])
  have "length (?h @ body) \<le> 32 + length src + length src div 6"
    using bound_room(2) [OF h5 assms(2) body(2)] by simp
  moreover have "decodes N body [] src" for N
    using body(3) [of N "[]"] by simp
  moreover have k: "fst (snappy_blocks src st) = length (?h @ body)" "length (snd (snappy_blocks src st)) = length dst"
    using all by (simp_all add: emits_def)
  moreover have "take (length (?h @ body)) (snd (snappy_blocks src st)) = ?h @ body"
    using all unfolding emits_def k by simp
  ultimately show ?thesis
    using run unfolding k(1) Let_def by (intro exI [of _ body] exI [of _ "snd (snappy_blocks src st)"]) simp
qed

section \<open>Properties\<close>

text \<open>
  C8: The Snappy round trip. For every source below \<open>2 ^ 32\<close> bytes and every destination
  of at least \<^verbatim>\<open>carquet_snappy_compress_bound\<close> bytes the compressor succeeds, reports a
  length within that bound and never writes outside the destination; and
  decompressing the bytes it reported, into any array that can hold the source, gives
  back exactly the source and leaves the rest of the array alone.
\<close>

theorem snappy_roundtrip:
  assumes "length src < 2 ^ 32" "unat (carquet_snappy_compress_bound (word_of_nat (length src))) \<le> length dst"
    "length dst < 2 ^ 64" "length src \<le> length d"
  shows "\<exists>k dst'.
    carquet_snappy_compress (Some src) (word_of_nat (length src)) (Some dst) (word_of_nat (length dst)) True =
      (CARQUET_OK, Some k, Some dst') \<and>
    length dst' = length dst \<and> k \<le> unat (carquet_snappy_compress_bound (word_of_nat (length src))) \<and>
    carquet_snappy_decompress (Some (take k dst')) (Some d) True =
      (CARQUET_OK, Some (length src), Some (src @ drop (length src) d))"
proof -
  have small: "length src < 2 ^ 60"
    using assms(1) by simp
  note bound = compress_bound_nat [OF small]
  let ?v = "word_of_nat (length src) :: u32"
  have v: "unat ?v = length src"
    using assms(1) by (simp add: unat_of_nat take_bit_nat_eq_self)
  obtain body dst' where out: "carquet_snappy_compress (Some src) (word_of_nat (length src)) (Some dst) (word_of_nat (length dst)) True =
        (CARQUET_OK, Some (length (varint_bytes ?v @ body)), Some dst')"
      "length dst' = length dst" "take (length (varint_bytes ?v @ body)) dst' = varint_bytes ?v @ body"
      "length (varint_bytes ?v @ body) \<le> 32 + length src + length src div 6" "\<And>N. decodes N body [] src"
    using compress_output [OF small assms(2) [unfolded bound] assms(3)] unfolding Let_def by blast
  let ?bs = "varint_bytes ?v @ body"
  have "varint_nat 4 ?bs = Some (length src, body)"
    using varint_nat_bytes [of ?v 4 body] assms(1) unfolding v by simp
  moreover have "format_stream False (length src) body [] = Some src"
  proof -
    have "format_stream False (length src) (body @ []) [] = format_stream False (length src) [] src"
      using out(5) [of "length src"] unfolding decodes_def by blast
    then show ?thesis
      by (simp add: format_stream.simps [of _ _ "[]"])
  qed
  ultimately have "snappy_format ?bs (length d) = Some src"
    using assms(1, 4) by (simp add: snappy_format_def)
  moreover have "?bs \<noteq> []"
    by simp
  ultimately have "carquet_snappy_decompress (Some ?bs) (Some d) True =
      (CARQUET_OK, Some (length src), Some (src @ drop (length src) d))"
    by (rule decompress_accepts [rotated])
  then show ?thesis
    using out(1-4) bound by (intro exI [of _ "length ?bs"] exI [of _ dst']) simp
qed

theorem snappy_roundtrip_witness:
  "\<exists>k dst'. carquet_snappy_compress (Some (replicate 64 7)) 64 (Some (replicate 120 0)) 120 True =
      (CARQUET_OK, Some k, Some dst') \<and> length dst' = 120 \<and>
    carquet_snappy_decompress (Some (take k dst')) (Some (replicate 65 1)) True =
      (CARQUET_OK, Some 64, Some (replicate 64 7 @ [1]))"
proof -
  have "unat (carquet_snappy_compress_bound (word_of_nat (length (replicate 64 (7 :: u8))))) \<le> length (replicate 120 (0 :: u8))"
    by (simp add: carquet_snappy_compress_bound_def)
  from snappy_roundtrip [OF _ this, of "replicate 65 1"] show ?thesis
    by auto
qed

text \<open>
  C32: The length in front of the stream is written with 32 bits. For a source of \<open>2 ^ 32\<close> bytes
  or more the compressor still succeeds, but no decompression of its output gives
  the source back.
\<close>

theorem snappy_compress_truncates_length:
  assumes "2 ^ 32 \<le> length src" "length src < 2 ^ 60"
    and "unat (carquet_snappy_compress_bound (word_of_nat (length src))) \<le> length dst" "length dst < 2 ^ 64"
  shows "\<exists>k dst'.
    carquet_snappy_compress (Some src) (word_of_nat (length src)) (Some dst) (word_of_nat (length dst)) True =
      (CARQUET_OK, Some k, Some dst') \<and>
    (\<forall>d rest. carquet_snappy_decompress (Some (take k dst')) (Some d) True \<noteq> (CARQUET_OK, Some (length src), rest))"
proof -
  note bound = compress_bound_nat [OF assms(2)]
  let ?v = "word_of_nat (length src) :: u32"
  obtain body dst' where out: "carquet_snappy_compress (Some src) (word_of_nat (length src)) (Some dst) (word_of_nat (length dst)) True =
        (CARQUET_OK, Some (length (varint_bytes ?v @ body)), Some dst')"
      "take (length (varint_bytes ?v @ body)) dst' = varint_bytes ?v @ body"
    using compress_output [OF assms(2) assms(3) [unfolded bound] assms(4)] unfolding Let_def by blast
  let ?bs = "varint_bytes ?v @ body"
  have "carquet_snappy_decompress (Some ?bs) (Some d) True \<noteq> (CARQUET_OK, Some (length src), rest)" for d rest
  proof
    assume run: "carquet_snappy_decompress (Some ?bs) (Some d) True = (CARQUET_OK, Some (length src), rest)"
    then have "\<exists>u :: u32. unat u = length src"
      by (auto simp: carquet_snappy_decompress_def Let_def split: option.splits if_splits prod.splits)
    then obtain u :: u32 where "unat u = length src" ..
    moreover have "unat u < 2 ^ LENGTH(32)"
      by (rule unsigned_less)
    ultimately show False
      using assms(1) by simp
  qed
  then show ?thesis
    using out by (intro exI [of _ "length ?bs"] exI [of _ dst']) simp
qed

theorem snappy_compress_truncates_length_witness:
  "\<exists>k dst'. carquet_snappy_compress (Some (replicate 4294967296 0)) 4294967296 (Some (replicate 6000000000 0)) 6000000000 True =
      (CARQUET_OK, Some k, Some dst') \<and>
    carquet_snappy_decompress (Some (take k dst')) (Some (replicate 4294967296 1)) True \<noteq>
      (CARQUET_OK, Some 4294967296, Some (replicate 4294967296 0))"
proof -
  have "unat (carquet_snappy_compress_bound (word_of_nat (length (replicate 4294967296 (0 :: u8))))) \<le>
      length (replicate 6000000000 (0 :: u8))"
    by (simp add: carquet_snappy_compress_bound_def)
  from snappy_compress_truncates_length [OF _ _ this] show ?thesis
    by auto
qed

end
