(* ===== verification/Delta.thy ===== *)
theory Delta
  imports Bitpack Kernels Status Endian
begin

text \<open>
  The DELTA\_BINARY\_PACKED encoding of \<^verbatim>\<open>encoding/delta.c\<close>. The decoder keeps its position in the
  input, the shape announced by the header and the unpacked values of the current mini-block; an
  error is the left summand. The encoder writes consecutively, so its output array is the list of the
  bytes written so far, next to the capacity it checks against. Value counts are non-negative.
  The bit-unpacking kernels and the prefix sums go through the dispatch tables, as in the code.
\<close>

section \<open>Definitions\<close>

definition DELTA_BLOCK_SIZE :: nat where "DELTA_BLOCK_SIZE = 128"
definition DELTA_MINI_BLOCKS :: nat where "DELTA_MINI_BLOCKS = 4"
definition DELTA_MAX_BLOCK_SIZE :: nat where "DELTA_MAX_BLOCK_SIZE = 1024"
definition DELTA_MAX_MINI_BLOCKS :: nat where "DELTA_MAX_MINI_BLOCKS = 32"
definition DELTA_MAX_MINI_BLOCK_SIZE :: nat where "DELTA_MAX_MINI_BLOCK_SIZE = DELTA_MAX_BLOCK_SIZE"

subsection \<open>Decoder\<close>

record delta_decoder =
  dd_data :: bytes
  dd_pos :: nat
  dd_block_size :: i32
  dd_mini_blocks :: i32
  dd_total_values :: i32
  dd_values_decoded :: nat
  dd_first_value :: i64
  dd_last_value :: i64
  dd_min_delta :: i64
  dd_bit_widths :: "u8 list"
  dd_current_mini_block :: nat
  dd_values_in_mini_block :: nat
  dd_mini_block_values :: "i64 list"
  dd_mini_block_pos :: nat


text \<open>The value and the number of bytes read; \<open>None\<close> is the result 0.\<close>

definition read_uleb128 :: "bytes \<Rightarrow> (u64 \<times> nat) option" where
  "read_uleb128 data =
     (case varint_scan 10 0 0 data of
        None \<Rightarrow> None
      | Some (v, rest) \<Rightarrow> Some (v, length data - length rest))"

definition zigzag_decode64 :: "u64 \<Rightarrow> i64" where
  "zigzag_decode64 n = drop_bit 1 n XOR (NOT (n AND 1) + 1)"

text \<open>One header field: read at the position, advance.\<close>

definition read_field :: "delta_decoder \<Rightarrow> (u64 \<times> delta_decoder) outcome" where
  "read_field dec =
     (case read_uleb128 (drop (dd_pos dec) (dd_data dec)) of
        None \<Rightarrow> Inl CARQUET_ERROR_DECODE
      | Some (v, n) \<Rightarrow> Inr (v, dec\<lparr>dd_pos := dd_pos dec + n\<rparr>))"

definition delta_decoder_zero :: "bytes \<Rightarrow> delta_decoder" where
  "delta_decoder_zero data =
     \<lparr>dd_data = data, dd_pos = 0, dd_block_size = 0, dd_mini_blocks = 0, dd_total_values = 0,
      dd_values_decoded = 0, dd_first_value = 0, dd_last_value = 0, dd_min_delta = 0,
      dd_bit_widths = replicate DELTA_MAX_MINI_BLOCKS 0, dd_current_mini_block = 0,
      dd_values_in_mini_block = 0, dd_mini_block_values = replicate DELTA_MAX_MINI_BLOCK_SIZE 0,
      dd_mini_block_pos = 0\<rparr>"

definition delta_decoder_init :: "bytes \<Rightarrow> delta_decoder outcome" where
  "delta_decoder_init data =
     (case read_field (delta_decoder_zero data) of
        Inl e \<Rightarrow> Inl e
      | Inr (bs, d1) \<Rightarrow>
     (case read_field (d1\<lparr>dd_block_size := ucast bs\<rparr>) of
        Inl e \<Rightarrow> Inl e
      | Inr (mb, d2) \<Rightarrow>
          let d3 = d2\<lparr>dd_mini_blocks := ucast mb\<rparr> in
          if sint (dd_mini_blocks d3) \<le> 0 \<or> int DELTA_MAX_MINI_BLOCKS < sint (dd_mini_blocks d3)
          then Inl CARQUET_ERROR_DECODE
          else if sint (dd_block_size d3) \<le> 0 \<or> int DELTA_MAX_BLOCK_SIZE < sint (dd_block_size d3)
          then Inl CARQUET_ERROR_DECODE
          else if DELTA_MAX_MINI_BLOCK_SIZE < unat (dd_block_size d3) div unat (dd_mini_blocks d3)
          then Inl CARQUET_ERROR_DECODE
          else
     (case read_field d3 of
        Inl e \<Rightarrow> Inl e
      | Inr (tv, d4) \<Rightarrow>
     (case read_field (d4\<lparr>dd_total_values := ucast tv\<rparr>) of
        Inl e \<Rightarrow> Inl e
      | Inr (fv, d5) \<Rightarrow>
          let first = zigzag_decode64 fv in
          Inr (d5\<lparr>dd_first_value := first, dd_last_value := first,
                  dd_current_mini_block := unat (dd_mini_blocks d5),
                  dd_mini_block_pos := DELTA_MAX_MINI_BLOCK_SIZE\<rparr>)))))"

definition delta_decoder_read_block :: "delta_decoder \<Rightarrow> delta_decoder outcome" where
  "delta_decoder_read_block dec =
     (if length (dd_data dec) \<le> dd_pos dec then Inl CARQUET_ERROR_END_OF_DATA
      else case read_field dec of
             Inl e \<Rightarrow> Inl e
           | Inr (v, d1) \<Rightarrow>
               let d2 = d1\<lparr>dd_min_delta := zigzag_decode64 v\<rparr>; k = unat (dd_mini_blocks d2) in
               if length (dd_data d2) < dd_pos d2 + k then Inl CARQUET_ERROR_DECODE
               else Inr (d2\<lparr>dd_bit_widths :=
                              take k (drop (dd_pos d2) (dd_data d2)) @ drop k (dd_bit_widths d2),
                            dd_pos := dd_pos d2 + k, dd_current_mini_block := 0\<rparr>))"

text \<open>The first \<open>length vs\<close> entries of the mini-block buffer are overwritten; then the counters.\<close>

definition set_mini_block :: "delta_decoder \<Rightarrow> i64 list \<Rightarrow> nat \<Rightarrow> delta_decoder" where
  "set_mini_block dec vs pos =
     dec\<lparr>dd_mini_block_values := vs @ drop (length vs) (dd_mini_block_values dec),
         dd_pos := pos, dd_current_mini_block := dd_current_mini_block dec + 1,
         dd_mini_block_pos := 0, dd_values_in_mini_block := length vs\<rparr>"

text \<open>\<open>n\<close> values of \<open>k\<close> bytes each.\<close>

primrec wide_values :: "nat \<Rightarrow> nat \<Rightarrow> bytes \<Rightarrow> u64 list" where
  "wide_values 0 k data = []"
| "wide_values (Suc n) k data = le_load (take k data) # wide_values n k (drop k data)"

definition unpack_mini_block :: "bitunpack_dispatch \<Rightarrow> delta_decoder \<Rightarrow> delta_decoder outcome" where
  "unpack_mini_block ds dec =
     (let bit_width = unat (dd_bit_widths dec ! dd_current_mini_block dec);
          mini_block_size = unat (dd_block_size dec) div unat (dd_mini_blocks dec) in
      if bit_width = 0
      then Inr (set_mini_block dec (replicate mini_block_size (dd_min_delta dec)) (dd_pos dec))
      else if bit_width \<le> 32
      then let packed_size = (mini_block_size * bit_width + 7) div 8 in
           if length (dd_data dec) < dd_pos dec + packed_size then Inl CARQUET_ERROR_DECODE
           else let unpacked = fst (carquet_bitunpack_32 ds (drop (dd_pos dec) (dd_data dec))
                                      mini_block_size bit_width)
                in Inr (set_mini_block dec (map (\<lambda>u. dd_min_delta dec + ucast u) unpacked)
                          (dd_pos dec + packed_size))
      else if bit_width \<le> 64
      then let bytes_per_value = (bit_width + 7) div 8; packed_size = mini_block_size * bytes_per_value in
           if length (dd_data dec) < dd_pos dec + packed_size then Inl CARQUET_ERROR_DECODE
           else Inr (set_mini_block dec
                       (map (\<lambda>v. dd_min_delta dec + v)
                          (wide_values mini_block_size bytes_per_value (drop (dd_pos dec) (dd_data dec))))
                       (dd_pos dec + packed_size))
      else Inl CARQUET_ERROR_DECODE)"

definition delta_decoder_read_mini_block :: "bitunpack_dispatch \<Rightarrow> delta_decoder \<Rightarrow> delta_decoder outcome" where
  "delta_decoder_read_mini_block ds dec =
     (if unat (dd_mini_blocks dec) \<le> dd_current_mini_block dec
      then case delta_decoder_read_block dec of
             Inl e \<Rightarrow> Inl e
           | Inr d \<Rightarrow> unpack_mini_block ds d
      else unpack_mini_block ds dec)"

text \<open>The loop over the values after the first: \<open>n\<close> raw deltas.\<close>

primrec delta_values :: "bitunpack_dispatch \<Rightarrow> nat \<Rightarrow> delta_decoder \<Rightarrow> (i64 list \<times> delta_decoder) outcome" where
  "delta_values ds 0 dec = Inr ([], dec)"
| "delta_values ds (Suc n) dec =
     (case (if dd_values_in_mini_block dec \<le> dd_mini_block_pos dec
            then delta_decoder_read_mini_block ds dec else Inr dec) of
        Inl e \<Rightarrow> Inl e
      | Inr d \<Rightarrow>
          let v = dd_mini_block_values d ! dd_mini_block_pos d in
          case delta_values ds n (d\<lparr>dd_mini_block_pos := dd_mini_block_pos d + 1,
                                    dd_values_decoded := dd_values_decoded d + 1\<rparr>) of
            Inl e \<Rightarrow> Inl e
          | Inr (vs, d') \<Rightarrow> Inr (v # vs, d'))"

text \<open>The values and \<^verbatim>\<open>*bytes_consumed\<close>.\<close>

definition carquet_delta_decode_int32 ::
    "bitunpack_dispatch \<Rightarrow> carquet_simd_dispatch \<Rightarrow> bytes \<Rightarrow> nat \<Rightarrow> (i32 list \<times> nat) outcome" where
  "carquet_delta_decode_int32 ds t data num_values =
     (case delta_decoder_init data of
        Inl e \<Rightarrow> Inl e
      | Inr dec \<Rightarrow>
          if num_values = 0 then Inr ([], dd_pos dec)
          else let v0 = ucast (dd_first_value dec) :: i32 in
               case delta_values ds (num_values - 1) (dec\<lparr>dd_values_decoded := 1\<rparr>) of
                 Inl e \<Rightarrow> Inl e
               | Inr (deltas, d) \<Rightarrow> Inr (v0 # prefix_sum_i32 t (map ucast deltas) v0, dd_pos d))"

definition carquet_delta_decode_int64 ::
    "bitunpack_dispatch \<Rightarrow> carquet_simd_dispatch \<Rightarrow> bytes \<Rightarrow> nat \<Rightarrow> (i64 list \<times> nat) outcome" where
  "carquet_delta_decode_int64 ds t data num_values =
     (case delta_decoder_init data of
        Inl e \<Rightarrow> Inl e
      | Inr dec \<Rightarrow>
          if num_values = 0 then Inr ([], dd_pos dec)
          else let v0 = dd_first_value dec in
               case delta_values ds (num_values - 1) (dec\<lparr>dd_values_decoded := 1\<rparr>) of
                 Inl e \<Rightarrow> Inl e
               | Inr (deltas, d) \<Rightarrow> Inr (v0 # prefix_sum_i64 t deltas v0, dd_pos d))"

subsection \<open>Encoder\<close>

record delta_encoder =
  de_data :: bytes
  de_capacity :: nat
  de_block_size :: nat
  de_mini_blocks :: nat
  de_values_written :: nat
  de_first_value :: i64
  de_last_value :: i64
  de_deltas :: "i64 list"

definition write_uleb128 :: "u64 \<Rightarrow> bytes" where
  "write_uleb128 value = varint_bytes value"

definition zigzag_encode64 :: "i64 \<Rightarrow> u64" where
  "zigzag_encode64 n = push_bit 1 n XOR signed_drop_bit 63 n"

function bit_width_required :: "u64 \<Rightarrow> nat" where
  "bit_width_required value = (if value = 0 then 0 else Suc (bit_width_required (drop_bit 1 value)))"
  by pat_completeness auto
termination
  by (relation "measure unat") (auto intro!: unat_drop_bit_less simp: unat_gt_0)

declare bit_width_required.simps [simp del]

definition delta_encoder_init :: "nat \<Rightarrow> delta_encoder" where
  "delta_encoder_init capacity =
     \<lparr>de_data = [], de_capacity = capacity, de_block_size = DELTA_BLOCK_SIZE,
      de_mini_blocks = DELTA_MINI_BLOCKS, de_values_written = 0, de_first_value = 0,
      de_last_value = 0, de_deltas = []\<rparr>"

definition find_min_delta :: "i64 list \<Rightarrow> i64" where
  "find_min_delta deltas = fold (\<lambda>d m. if sint d < sint m then d else m) (tl deltas) (hd deltas)"

text \<open>The deltas of mini-block \<open>mb\<close>, fewer than a full mini-block at the end of the data.\<close>

definition mini_block_deltas :: "delta_encoder \<Rightarrow> nat \<Rightarrow> i64 list" where
  "mini_block_deltas enc mb =
     (let mini_block_size = de_block_size enc div de_mini_blocks enc; start = mb * mini_block_size
      in take mini_block_size (drop start (de_deltas enc)))"

definition max_adjusted :: "i64 \<Rightarrow> i64 list \<Rightarrow> u64" where
  "max_adjusted min_delta ds = fold (\<lambda>d m. if m < d - min_delta then d - min_delta else m) ds 0"

definition mini_block_width :: "delta_encoder \<Rightarrow> i64 \<Rightarrow> nat \<Rightarrow> u8" where
  "mini_block_width enc min_delta mb =
     word_of_nat (bit_width_required (max_adjusted min_delta (mini_block_deltas enc mb)))"

definition packed_bytes_needed :: "nat \<Rightarrow> u8 \<Rightarrow> nat" where
  "packed_bytes_needed mini_block_size w =
     (if 0 < unat w
      then if unat w \<le> 32 then mini_block_size * unat w div 8
           else mini_block_size * ((unat w + 7) div 8)
      else 0)"

definition pack_mini_block :: "nat \<Rightarrow> i64 \<Rightarrow> u8 \<Rightarrow> i64 list \<Rightarrow> bytes" where
  "pack_mini_block mini_block_size min_delta w ds =
     (if w = 0 then []
      else if unat w \<le> 32
      then let to_pack = map (\<lambda>d. ucast (d - min_delta) :: u32) ds @ replicate (mini_block_size - length ds) 0;
               (out, n) = carquet_bitpack_32 to_pack (unat w)
           in take n out
      else let bytes_per_value = (unat w + 7) div 8
           in concat (map (\<lambda>d. le_store bytes_per_value (d - min_delta)) ds)
              @ replicate ((mini_block_size - length ds) * bytes_per_value) 0)"

definition delta_encoder_flush_block :: "delta_encoder \<Rightarrow> delta_encoder outcome" where
  "delta_encoder_flush_block enc =
     (if de_deltas enc = [] then Inr enc
      else let min_delta = find_min_delta (de_deltas enc);
               mini_block_size = de_block_size enc div de_mini_blocks enc;
               bit_widths = map (mini_block_width enc min_delta) [0..<de_mini_blocks enc];
               packed = sum_list (map (packed_bytes_needed mini_block_size) bit_widths);
               bytes_needed = 10 + de_mini_blocks enc + packed
           in if de_capacity enc < length (de_data enc) + bytes_needed then Inl CARQUET_ERROR_ENCODE
              else Inr (enc\<lparr>de_data := de_data enc @ write_uleb128 (zigzag_encode64 min_delta) @ bit_widths @
                      concat (map (\<lambda>mb. pack_mini_block mini_block_size min_delta (bit_widths ! mb)
                                           (mini_block_deltas enc mb)) [0..<de_mini_blocks enc]),
                    de_deltas := []\<rparr>))"

text \<open>The loop over the values after the first, widened to 64 bits.\<close>

primrec delta_encode_loop :: "i64 list \<Rightarrow> delta_encoder \<Rightarrow> delta_encoder outcome" where
  "delta_encode_loop [] enc = Inr enc"
| "delta_encode_loop (v # vs) enc =
     (let delta = v - de_last_value enc;
          enc1 = enc\<lparr>de_deltas := de_deltas enc @ [delta], de_last_value := v\<rparr>
      in if length (de_deltas enc1) = de_block_size enc1
         then case delta_encoder_flush_block enc1 of
                Inl e \<Rightarrow> Inl e
              | Inr enc2 \<Rightarrow> delta_encode_loop vs enc2
         else delta_encode_loop vs enc1)"

definition delta_header :: "nat \<Rightarrow> i64 \<Rightarrow> bytes" where
  "delta_header num_values first =
     write_uleb128 (word_of_nat DELTA_BLOCK_SIZE) @ write_uleb128 (word_of_nat DELTA_MINI_BLOCKS) @
     write_uleb128 (word_of_nat num_values) @ write_uleb128 (zigzag_encode64 first)"

text \<open>The common body of the two encoders: \<open>vs\<close> are the values widened to 64 bits.\<close>

definition delta_encode :: "i64 list \<Rightarrow> nat \<Rightarrow> bytes outcome" where
  "delta_encode vs data_capacity =
     (let enc = delta_encoder_init data_capacity in
      if data_capacity < 40 then Inl CARQUET_ERROR_ENCODE
      else case vs of
             [] \<Rightarrow> Inr (delta_header 0 0)
           | v # vs' \<Rightarrow>
               (case delta_encode_loop vs'
                       (enc\<lparr>de_data := delta_header (length vs) v, de_first_value := v,
                            de_last_value := v, de_values_written := 1\<rparr>) of
                  Inl e \<Rightarrow> Inl e
                | Inr enc1 \<Rightarrow>
                    (case delta_encoder_flush_block enc1 of
                       Inl e \<Rightarrow> Inl e
                     | Inr enc2 \<Rightarrow> Inr (de_data enc2))))"

definition carquet_delta_encode_int32 :: "i32 list \<Rightarrow> nat \<Rightarrow> bytes outcome" where
  "carquet_delta_encode_int32 values data_capacity = delta_encode (map scast values) data_capacity"

definition carquet_delta_encode_int64 :: "i64 list \<Rightarrow> nat \<Rightarrow> bytes outcome" where
  "carquet_delta_encode_int64 values data_capacity = delta_encode values data_capacity"

section \<open>Widths\<close>

lemma bit_width_required_pos: "v \<noteq> 0 \<Longrightarrow> 0 < bit_width_required v"
  by (subst bit_width_required.simps) simp

lemma bit_width_required_spec:
  "unat v < 2 ^ bit_width_required v \<and> (v \<noteq> 0 \<longrightarrow> 2 ^ (bit_width_required v - 1) \<le> unat v)"
proof (induction v rule: bit_width_required.induct)
  case (1 v)
  show ?case
  proof (cases "v = 0")
    case False
    have h: "unat (drop_bit 1 v) = unat v div 2" by (simp add: unat_drop_bit_word)
    have v: "unat v \<noteq> 0" using False by (simp add: unat_eq_0)
    have IH: "unat v div 2 < 2 ^ bit_width_required (drop_bit 1 v)"
      "drop_bit 1 v \<noteq> 0 \<Longrightarrow> 2 ^ (bit_width_required (drop_bit 1 v) - 1) \<le> unat v div 2"
      using 1 [OF False] h by simp_all
    have "2 ^ bit_width_required (drop_bit 1 v) \<le> unat v"
    proof (cases "drop_bit 1 v = 0")
      case True
      then show ?thesis using v by (simp add: bit_width_required.simps)
    next
      case nz: False
      from bit_width_required_pos [OF this]
      have "bit_width_required (drop_bit 1 v) = Suc (bit_width_required (drop_bit 1 v) - 1)" by simp
      then have "(2::nat) ^ bit_width_required (drop_bit 1 v) = 2 * 2 ^ (bit_width_required (drop_bit 1 v) - 1)"
        by (metis power_Suc)
      then show ?thesis using IH(2) [OF nz] by linarith
    qed
    then show ?thesis using IH(1) False by (simp add: bit_width_required.simps [of v])
  qed (simp add: bit_width_required.simps)
qed

lemma bit_width_required_le:
  assumes "unat v < 2 ^ n"
  shows "bit_width_required v \<le> n"
proof (rule ccontr)
  assume c: "\<not> bit_width_required v \<le> n"
  then have "v \<noteq> 0" by (auto simp: bit_width_required.simps)
  then have "2 ^ (bit_width_required v - 1) \<le> unat v" using bit_width_required_spec by blast
  moreover have "(2::nat) ^ n \<le> 2 ^ (bit_width_required v - 1)" using c by (intro power_increasing) auto
  ultimately show False using assms by linarith
qed

lemma bit_width_required_64: "bit_width_required v \<le> 64"
  using bit_width_required_le [of v 64] unsigned_less [of v] by simp

lemma max_adjusted_bound: "d \<in> set ds \<Longrightarrow> d - m \<le> max_adjusted m ds"
proof -
  have "(\<forall>d \<in> set ds. d - m \<le> fold (\<lambda>d a. if a < d - m then d - m else a) ds a) \<and>
      a \<le> fold (\<lambda>d a. if a < d - m then d - m else a) ds a" for a
    by (induction ds arbitrary: a) (auto, (meson linorder_not_less order.trans order.strict_implies_order)+)
  then show "d \<in> set ds \<Longrightarrow> d - m \<le> max_adjusted m ds" by (simp add: max_adjusted_def)
qed

lemma max_adjusted_below:
  "(\<And>d. d \<in> set ds \<Longrightarrow> unat (d - m) < b) \<Longrightarrow> 0 < b \<Longrightarrow> unat (max_adjusted m ds) < b"
proof -
  assume b: "\<And>d. d \<in> set ds \<Longrightarrow> unat (d - m) < b" "0 < b"
  have "unat a < b \<Longrightarrow> unat (fold (\<lambda>d a. if a < d - m then d - m else a) ds a) < b" for a
    using b(1) by (induction ds arbitrary: a) auto
  then show ?thesis using b(2) by (simp add: max_adjusted_def)
qed

lemma max_adjusted_Nil [simp]: "max_adjusted m [] = 0"
  by (simp add: max_adjusted_def)

lemma width_fits: "d \<in> set ds \<Longrightarrow> unat (d - m) < 2 ^ bit_width_required (max_adjusted m ds)"
  using max_adjusted_bound [of d ds m] bit_width_required_spec [of "max_adjusted m ds"]
  by (simp add: word_le_nat_alt)

section \<open>Mini-blocks\<close>

lemma wide_values_store:
  assumes "\<And>v. v \<in> set vs \<Longrightarrow> unat v < 2 ^ (8 * k)" "k \<le> 8"
  shows "wide_values (length vs + n) k (concat (map (le_store k) vs) @ replicate (n * k) 0 @ r) = vs @ replicate n 0"
  using assms(1)
proof (induction vs)
  case Nil
  have "le_load (replicate k 0) = (0 :: u64)" by (induction k) auto
  then have "wide_values n k (replicate (n * k) 0 @ r) = replicate n 0"
  proof (induction n)
    case (Suc n)
    then show ?case by (simp add: replicate_add)
  qed simp
  then show ?case by simp
next
  case (Cons v vs)
  have "le_load (le_store k v) = v"
    unfolding le_load_le_store using Cons.prems by (intro and_mask_unat_self) simp
  then show ?case using Cons by simp
qed

text \<open>
  Inside a mini-block the position is behind the buffered values; \<open>unread dec\<close> is the input left.
  The encoder writes blocks of 128 in four mini-blocks of 32.
\<close>

definition unread :: "delta_decoder \<Rightarrow> bytes" where
  "unread dec = drop (dd_pos dec) (dd_data dec)"

definition shape :: "delta_decoder \<Rightarrow> bool" where
  "shape dec \<longleftrightarrow> dd_block_size dec = 128 \<and> dd_mini_blocks dec = 4 \<and> length (dd_bit_widths dec) = 32 \<and>
     length (dd_mini_block_values dec) = 1024 \<and> dd_pos dec \<le> length (dd_data dec)"

definition exhausted :: "delta_decoder \<Rightarrow> bool" where
  "exhausted dec \<longleftrightarrow> dd_values_in_mini_block dec \<le> dd_mini_block_pos dec"

lemma drop_prefix: "drop a xs = p @ r \<Longrightarrow> drop (a + length p) xs = r"
  by (metis add.commute append_eq_conv_conj drop_drop)

lemma drop_prefix_room: "drop a xs = p @ r \<Longrightarrow> a \<le> length xs \<Longrightarrow> a + length p \<le> length xs"
  by (metis add_le_cancel_left le_add1 le_add_diff_inverse length_append length_drop)

text \<open>After a mini-block with the values \<open>vs\<close> was unpacked from \<open>d\<close>, leaving \<open>r\<close>.\<close>

definition loaded :: "delta_decoder \<Rightarrow> i64 list \<Rightarrow> bytes \<Rightarrow> delta_decoder \<Rightarrow> bool" where
  "loaded d vs r d' \<longleftrightarrow> shape d' \<and> unread d' = r \<and> take (length vs) (dd_mini_block_values d') = vs \<and>
     dd_values_in_mini_block d' = length vs \<and> dd_mini_block_pos d' = 0 \<and>
     dd_current_mini_block d' = dd_current_mini_block d + 1 \<and>
     dd_bit_widths d' = dd_bit_widths d \<and> dd_min_delta d' = dd_min_delta d"

lemma set_mini_block_loaded:
  assumes "shape d" "length vs = 32" "unread d = p @ r"
  shows "loaded d vs r (set_mini_block d vs (dd_pos d + length p))"
proof -
  have "dd_pos d + length p \<le> length (dd_data d)"
    using drop_prefix_room assms(1,3) unfolding unread_def shape_def by blast
  moreover have "drop (dd_pos d + length p) (dd_data d) = r"
    using drop_prefix assms(3) unfolding unread_def by blast
  ultimately show ?thesis using assms by (simp add: loaded_def set_mini_block_def shape_def unread_def)
qed

lemma word_u8_small: "n < 256 \<Longrightarrow> unat (word_of_nat n :: u8) = n"
  by (simp add: unat_of_nat)

lemma packed_size_32: "carquet_packed_size 32 w = 4 * w"
  by (simp add: carquet_packed_size_def)

lemma pack_narrow:
  assumes "0 < w" "w \<le> 32" "length c \<le> 32" "\<forall>d \<in> set c. unat (d - m) < 2 ^ w"
  shows "length (pack_mini_block 32 m (word_of_nat w) c) = 4 * w"
    "unpack_kernels ds \<Longrightarrow> map (\<lambda>u. m + ucast u) (fst (carquet_bitunpack_32 ds (pack_mini_block 32 m (word_of_nat w) c @ r) 32 w)) =
      c @ replicate (32 - length c) m"
proof -
  let ?vs = "map (\<lambda>d. ucast (d - m) :: u32) c @ replicate (32 - length c) 0"
  obtain out n where p: "carquet_bitpack_32 ?vs w = (out, n)" by fastforce
  have w: "unat (word_of_nat w :: u8) = w" using assms(2) by (simp add: word_u8_small)
  have l: "length ?vs = 32" using assms(3) by simp
  have e: "pack_mini_block 32 m (word_of_nat w) c = take n out"
    using w assms(1,2) p by (auto simp: pack_mini_block_def Let_def word_eq_iff_unsigned [where ?'a = nat])
  note s = bitpack_32_spec [OF assms(2) p, unfolded l packed_size_32]
  show len: "length (pack_mini_block 32 m (word_of_nat w) c) = 4 * w" unfolding e using s by simp
  have k: "m + ucast (ucast (d - m) AND mask w :: u32) = d" if "d \<in> set c" for d
  proof -
    have d: "unat (d - m) < 2 ^ w" using assms(4) that by blast
    have "(2::nat) ^ w \<le> 2 ^ 32" using assms(2) by (intro power_increasing) auto
    then have "unat (ucast (d - m) :: u32) = unat (d - m)" using d by (intro unat_ucast_small) simp
    then have "(ucast (d - m) AND mask w :: u32) = ucast (d - m)" using d by (intro and_mask_unat_self) simp
    moreover have "ucast (ucast (d - m) :: u32) = d - m"
      using \<open>unat (ucast (d - m) :: u32) = unat (d - m)\<close>
      by (simp add: word_eq_iff_unsigned [where ?'a = nat] unat_ucast_up)
    ultimately show ?thesis by simp
  qed
  assume "unpack_kernels ds"
  then have "carquet_bitunpack_32 ds (take n out @ r) 32 w = (packed_values w (take n out @ r) 32, 4 * w)"
    using unpack_kernels.bitunpack_32_spec [OF _ assms(2), of ds 32 "take n out @ r"] s
    by (simp add: packed_size_32)
  moreover have "packed_values w (take n out @ r) 32 = packed_values w out 32"
    using s by (intro packed_values_take_append) auto
  ultimately show "map (\<lambda>u. m + ucast u) (fst (carquet_bitunpack_32 ds (pack_mini_block 32 m (word_of_nat w) c @ r) 32 w)) =
      c @ replicate (32 - length c) m"
    unfolding e using s k by (simp add: l map_idI)
qed

lemma pack_wide:
  assumes "32 < w" "w \<le> 64" "length c \<le> 32" "\<forall>d \<in> set c. unat (d - m) < 2 ^ w"
  shows "length (pack_mini_block 32 m (word_of_nat w) c) = 32 * ((w + 7) div 8)"
    "map (\<lambda>v. m + v) (wide_values 32 ((w + 7) div 8) (pack_mini_block 32 m (word_of_nat w) c @ r)) =
      c @ replicate (32 - length c) m"
proof -
  let ?k = "(w + 7) div 8"
  have w: "unat (word_of_nat w :: u8) = w" using assms(2) by (simp add: word_u8_small)
  have e: "pack_mini_block 32 m (word_of_nat w) c =
      concat (map (le_store ?k) (map (\<lambda>d. d - m) c)) @ replicate ((32 - length c) * ?k) 0"
    using w assms(1) by (auto simp: pack_mini_block_def Let_def word_eq_iff_unsigned [where ?'a = nat] comp_def)
  have "length (concat (map (le_store ?k) (map (\<lambda>d. d - m) c))) = length c * ?k"
    by (simp add: length_concat comp_def sum_list_triv)
  then show "length (pack_mini_block 32 m (word_of_nat w) c) = 32 * ?k"
    unfolding e using assms(3) by (simp flip: add_mult_distrib)
  have "(2::nat) ^ w \<le> 2 ^ (8 * ?k)" by (intro power_increasing) linarith+
  then have "unat (d - m) < 2 ^ (8 * ?k)" if "d \<in> set c" for d using assms(4) that by (meson order_less_le_trans)
  then have "wide_values (length (map (\<lambda>d. d - m) c) + (32 - length c)) ?k
      (concat (map (le_store ?k) (map (\<lambda>d. d - m) c)) @ replicate ((32 - length c) * ?k) 0 @ r) =
      map (\<lambda>d. d - m) c @ replicate (32 - length c) 0"
    using assms(2) by (intro wide_values_store) auto
  then show "map (\<lambda>v. m + v) (wide_values 32 ?k (pack_mini_block 32 m (word_of_nat w) c @ r)) =
      c @ replicate (32 - length c) m"
    unfolding e using assms(3) by (simp add: comp_def)
qed

lemma unpack_mini_block_loads:
  assumes "unpack_kernels ds" "shape d" "dd_bit_widths d ! dd_current_mini_block d = word_of_nat w"
    "w \<le> 64" "length c \<le> 32" "\<forall>x \<in> set c. unat (x - dd_min_delta d) < 2 ^ w"
    "unread d = pack_mini_block 32 (dd_min_delta d) (word_of_nat w) c @ r"
  shows "\<exists>d'. unpack_mini_block ds d = Inr d' \<and> loaded d (c @ replicate (32 - length c) (dd_min_delta d)) r d'"
proof -
  let ?m = "dd_min_delta d"
  let ?p = "pack_mini_block 32 ?m (word_of_nat w) c"
  let ?vs = "c @ replicate (32 - length c) ?m"
  have w: "unat (word_of_nat w :: u8) = w" using assms(4) by (simp add: word_u8_small)
  have sz: "unat (dd_block_size d) div unat (dd_mini_blocks d) = 32" using assms(2) by (simp add: shape_def)
  have room: "\<not> length (dd_data d) < dd_pos d + length ?p"
    using drop_prefix_room assms(2,7) unfolding unread_def shape_def not_less by blast
  have ld: "loaded d ?vs r (set_mini_block d ?vs (dd_pos d + length ?p))"
    using assms(5) by (intro set_mini_block_loaded [OF assms(2) _ assms(7)]) simp
  have u: "drop (dd_pos d) (dd_data d) = ?p @ r" using assms(7) by (simp add: unread_def)
  consider "w = 0" | "0 < w" "w \<le> 32" | "32 < w" by linarith
  then have "unpack_mini_block ds d = Inr (set_mini_block d ?vs (dd_pos d + length ?p))"
  proof cases
    case 1
    then have "x = ?m" if "x \<in> set c" for x using assms(6) that by (simp add: unat_eq_0)
    then have "?vs = replicate 32 ?m"
      using assms(5) by (intro replicate_eqI) auto
    then show ?thesis using 1 assms(3) sz by (simp add: unpack_mini_block_def pack_mini_block_def)
  next
    case 2
    note n = pack_narrow [OF 2 assms(5,6)]
    have ps: "(32 * w + 7) div 8 = length ?p" using n(1) by simp
    show ?thesis
      unfolding unpack_mini_block_def Let_def assms(3) w sz ps u n(2) [OF assms(1)]
      using 2 room by simp
  next
    case 3
    note n = pack_wide [OF 3 assms(4-6)]
    show ?thesis
      unfolding unpack_mini_block_def Let_def assms(3) w sz u n(1) [symmetric] n(2)
      using 3 assms(4) room by simp
  qed
  then show ?thesis using ld by blast
qed

text \<open>Reading from the buffer.\<close>

lemma delta_values_buffered:
  assumes "dd_mini_block_pos d + n \<le> dd_values_in_mini_block d"
    "dd_values_in_mini_block d \<le> length (dd_mini_block_values d)"
  shows "delta_values ds n d = Inr (take n (drop (dd_mini_block_pos d) (dd_mini_block_values d)),
    d\<lparr>dd_mini_block_pos := dd_mini_block_pos d + n, dd_values_decoded := dd_values_decoded d + n\<rparr>)"
  using assms
proof (induction n arbitrary: d)
  case (Suc n)
  let ?d = "d\<lparr>dd_mini_block_pos := dd_mini_block_pos d + 1, dd_values_decoded := dd_values_decoded d + 1\<rparr>"
  have "delta_values ds n ?d = Inr (take n (drop (dd_mini_block_pos d + 1) (dd_mini_block_values d)),
    d\<lparr>dd_mini_block_pos := dd_mini_block_pos d + Suc n, dd_values_decoded := dd_values_decoded d + Suc n\<rparr>)"
    using Suc.IH [of ?d] Suc.prems by simp
  moreover have "take (Suc n) (drop (dd_mini_block_pos d) (dd_mini_block_values d)) =
      dd_mini_block_values d ! dd_mini_block_pos d # take n (drop (dd_mini_block_pos d + 1) (dd_mini_block_values d))"
    using Suc.prems by (simp add: Cons_nth_drop_Suc [symmetric] del: drop_Suc)
  ultimately show ?case using Suc.prems by (simp add: Let_def)
qed simp

lemma delta_values_add:
  "delta_values ds (m + n) d =
     (case delta_values ds m d of
        Inl e \<Rightarrow> Inl e
      | Inr (vs, d') \<Rightarrow>
          (case delta_values ds n d' of Inl e \<Rightarrow> Inl e | Inr (ws, d'') \<Rightarrow> Inr (vs @ ws, d'')))"
  by (induction m arbitrary: d) (auto simp: Let_def split: sum.splits prod.splits)

lemma delta_values_loads:
  assumes "exhausted d" "delta_decoder_read_mini_block ds d = Inr d'" "loaded d0 vs r d'" "0 < n" "n \<le> length vs"
    "length vs \<le> 1024"
  shows "delta_values ds n d = Inr (take n vs,
    d'\<lparr>dd_mini_block_pos := n, dd_values_decoded := dd_values_decoded d' + n\<rparr>)"
proof -
  obtain k where k: "n = Suc k" using assms(4) by (cases n) auto
  have nd: "\<not> dd_values_in_mini_block d' \<le> dd_mini_block_pos d'" using assms(3-5) by (auto simp: loaded_def)
  have "delta_values ds n d = delta_values ds n d'"
    using assms(1,2) nd by (simp add: k exhausted_def)
  also have "\<dots> = Inr (take n vs, d'\<lparr>dd_mini_block_pos := n, dd_values_decoded := dd_values_decoded d' + n\<rparr>)"
    using delta_values_buffered [of d' n ds] assms(3,5,6)
      take_take [of n "length vs" "dd_mini_block_values d'"]
    by (auto simp: loaded_def shape_def)
  finally show ?thesis .
qed

section \<open>Blocks\<close>

text \<open>What the encoder writes for the deltas \<open>b\<close> of one block, and for all deltas.\<close>

definition chunk :: "i64 list \<Rightarrow> nat \<Rightarrow> i64 list" where
  "chunk b k = take 32 (drop (k * 32) b)"

definition chunk_width :: "i64 list \<Rightarrow> nat \<Rightarrow> nat" where
  "chunk_width b k = bit_width_required (max_adjusted (find_min_delta b) (chunk b k))"

definition chunk_bytes :: "i64 list \<Rightarrow> nat \<Rightarrow> bytes" where
  "chunk_bytes b k = pack_mini_block 32 (find_min_delta b) (word_of_nat (chunk_width b k)) (chunk b k)"

definition block_bytes :: "i64 list \<Rightarrow> bytes" where
  "block_bytes b = write_uleb128 (zigzag_encode64 (find_min_delta b)) @
     map (\<lambda>k. word_of_nat (chunk_width b k)) [0..<4] @ concat (map (chunk_bytes b) [0..<4])"

function blocks_bytes :: "i64 list \<Rightarrow> bytes" where
  "blocks_bytes ds = (if ds = [] then [] else block_bytes (take 128 ds) @ blocks_bytes (drop 128 ds))"
  by pat_completeness auto
termination
  by (relation "measure length") auto

declare blocks_bytes.simps [simp del]

lemma chunk_empty: "length b \<le> k * 32 \<Longrightarrow> chunk b k = [] \<and> chunk_bytes b k = []"
  by (simp add: chunk_def chunk_bytes_def chunk_width_def bit_width_required.simps pack_mini_block_def)

lemma chunks_empty: "length b \<le> k * 32 \<Longrightarrow> concat (map (chunk_bytes b) [k..<n]) = []"
  using chunk_empty [of b] by (auto intro!: concat_eq_Nil_conv [THEN iffD2])

lemma chunk_loads:
  assumes "unpack_kernels ds" "shape d" "dd_current_mini_block d = k" "k < 4"
    "\<forall>j < 4. dd_bit_widths d ! j = word_of_nat (chunk_width b j)" "dd_min_delta d = find_min_delta b"
    "unread d = chunk_bytes b k @ r"
  shows "\<exists>d'. delta_decoder_read_mini_block ds d = Inr d' \<and>
    loaded d (chunk b k @ replicate (32 - length (chunk b k)) (dd_min_delta d)) r d'"
proof -
  have "\<exists>d'. unpack_mini_block ds d = Inr d' \<and>
      loaded d (chunk b k @ replicate (32 - length (chunk b k)) (dd_min_delta d)) r d'"
  proof (rule unpack_mini_block_loads [OF assms(1,2)])
    show "dd_bit_widths d ! dd_current_mini_block d = word_of_nat (chunk_width b k)" using assms(3-5) by simp
    show "chunk_width b k \<le> 64" by (simp add: chunk_width_def bit_width_required_64)
    show "length (chunk b k) \<le> 32" by (simp add: chunk_def)
    show "\<forall>x \<in> set (chunk b k). unat (x - dd_min_delta d) < 2 ^ chunk_width b k"
      using width_fits by (simp add: chunk_width_def assms(6))
    show "unread d = pack_mini_block 32 (dd_min_delta d) (word_of_nat (chunk_width b k)) (chunk b k) @ r"
      using assms(6,7) by (simp add: chunk_bytes_def)
  qed
  then show ?thesis using assms(2-4) by (simp add: delta_decoder_read_mini_block_def shape_def)
qed

lemma block_minis:
  assumes "unpack_kernels ds" "k \<le> 4" "shape d" "exhausted d" "dd_current_mini_block d = k"
    "\<forall>j < 4. dd_bit_widths d ! j = word_of_nat (chunk_width b j)" "dd_min_delta d = find_min_delta b"
    "unread d = concat (map (chunk_bytes b) [k..<4]) @ r" "length b \<le> 128"
  shows "\<exists>d'. delta_values ds (length b - k * 32) d = Inr (drop (k * 32) b, d') \<and> unread d' = r \<and> shape d' \<and>
    (length b = 128 \<longrightarrow> exhausted d' \<and> dd_current_mini_block d' = 4)"
  using assms(2-8)
proof (induction k arbitrary: d rule: inc_induct)
  case base
  then show ?case using assms(9) by auto
next
  case (step k)
  show ?case
  proof (cases "length b \<le> k * 32")
    case True
    then show ?thesis using step chunks_empty [OF True, of 4] by auto
  next
    case False
    let ?c = "chunk b k"
    let ?vs = "?c @ replicate (32 - length ?c) (dd_min_delta d)"
    have "unread d = chunk_bytes b k @ concat (map (chunk_bytes b) [k + 1..<4]) @ r"
      using step.prems(6) step.hyps by (simp add: upt_conv_Cons)
    from chunk_loads [OF assms(1) step.prems(1,3) _ step.prems(4,5) this] step.hyps
    obtain d1 where d1: "delta_decoder_read_mini_block ds d = Inr d1"
      "loaded d ?vs (concat (map (chunk_bytes b) [k + 1..<4]) @ r) d1" by auto
    have c: "0 < length ?c" "length ?c \<le> 32" "length ?vs = 32" using False by (auto simp: chunk_def)
    let ?d2 = "d1\<lparr>dd_mini_block_pos := length ?c, dd_values_decoded := dd_values_decoded d1 + length ?c\<rparr>"
    have v: "delta_values ds (length ?c) d = Inr (?c, ?d2)"
      using delta_values_loads [OF step.prems(2) d1, of "length ?c"] c by simp
    have "shape d1" using d1(2) by (simp add: loaded_def)
    then have s2: "shape ?d2" by (simp add: shape_def)
    have d2: "unread ?d2 = concat (map (chunk_bytes b) [k + 1..<4]) @ r"
      "dd_current_mini_block ?d2 = k + 1" "dd_bit_widths ?d2 = dd_bit_widths d" "dd_min_delta ?d2 = dd_min_delta d"
      "dd_values_in_mini_block ?d2 = 32"
      using d1(2) c(3) step.prems(3) by (simp_all add: loaded_def unread_def)
    note d2 = s2 d2
    show ?thesis
    proof (cases "length b \<le> (k + 1) * 32")
      case True
      then have "drop (k * 32) b = ?c" "length b - k * 32 = length ?c" using False by (auto simp: chunk_def)
      moreover have "unread ?d2 = r" using d2(2) chunks_empty [OF True, of 4] by simp
      moreover have "length b = 128 \<longrightarrow> exhausted ?d2 \<and> dd_current_mini_block ?d2 = 4"
        using True False step.hyps d2(3,6) \<open>length b - k * 32 = length ?c\<close> by (auto simp: exhausted_def)
      ultimately show ?thesis using v d2(1) by metis
    next
      case gt: False
      then have l: "length ?c = 32" "length b - k * 32 = 32 + (length b - (k + 1) * 32)" by (auto simp: chunk_def)
      have ap: "?c @ drop ((k + 1) * 32) b = drop (k * 32) b"
        unfolding chunk_def by (metis add.commute append_take_drop_id drop_drop mult_Suc Suc_eq_plus1)
      have "exhausted ?d2" using d2(6) l(1) by (simp add: exhausted_def)
      with step.IH [of ?d2] d2 step.prems(4,5) obtain d' where d':
        "delta_values ds (length b - (k + 1) * 32) ?d2 = Inr (drop ((k + 1) * 32) b, d')" "unread d' = r"
        "shape d'" "length b = 128 \<longrightarrow> exhausted d' \<and> dd_current_mini_block d' = 4" by auto
      have "delta_values ds (length b - k * 32) d = Inr (drop (k * 32) b, d')"
        unfolding l(2) delta_values_add using v d'(1) l(1) ap by simp
      then show ?thesis using d'(2-4) by blast
    qed
  qed
qed

lemma zigzag64_inverse [simp]: "zigzag_decode64 (zigzag_encode64 n) = n"
  using zigzag_decode_encode(2) [of n]
  by (simp only: zigzag_decode64_def zigzag_encode64_def carquet_zigzag_decode64_def
      carquet_zigzag_encode64_def minus_eq_not_plus_1)

lemma read_write_uleb128: "read_uleb128 (write_uleb128 v @ r) = Some (v, length (write_uleb128 v))"
proof -
  have "varint_scan 10 0 0 (varint_bytes v @ r) = Some (v, r)" by (rule varint_scan_zero) simp_all
  then show ?thesis by (simp add: read_uleb128_def write_uleb128_def)
qed

lemma read_field_uleb:
  assumes "unread d = write_uleb128 v @ r" "dd_pos d \<le> length (dd_data d)"
  shows "read_field d = Inr (v, d\<lparr>dd_pos := dd_pos d + length (write_uleb128 v)\<rparr>)"
    "unread (d\<lparr>dd_pos := dd_pos d + length (write_uleb128 v)\<rparr>) = r"
    "dd_pos d + length (write_uleb128 v) \<le> length (dd_data d)"
proof -
  show "dd_pos d + length (write_uleb128 v) \<le> length (dd_data d)"
    using drop_prefix_room [OF _ assms(2)] assms(1) unfolding unread_def by blast
  show "read_field d = Inr (v, d\<lparr>dd_pos := dd_pos d + length (write_uleb128 v)\<rparr>)"
    using assms(1) read_write_uleb128 [of v r] by (simp add: read_field_def unread_def)
  show "unread (d\<lparr>dd_pos := dd_pos d + length (write_uleb128 v)\<rparr>) = r"
    using drop_prefix assms(1) unfolding unread_def by simp
qed

lemma write_uleb128_not_Nil [simp]: "write_uleb128 v \<noteq> []"
  by (simp add: write_uleb128_def)

lemma read_block_back:
  assumes "shape d" "unread d = block_bytes b @ r"
  obtains d' where "delta_decoder_read_block d = Inr d'" "shape d'" "dd_current_mini_block d' = 0"
    "\<forall>j < 4. dd_bit_widths d' ! j = word_of_nat (chunk_width b j)" "dd_min_delta d' = find_min_delta b"
    "unread d' = concat (map (chunk_bytes b) [0..<4]) @ r"
    "dd_values_in_mini_block d' = dd_values_in_mini_block d" "dd_mini_block_pos d' = dd_mini_block_pos d"
proof -
  let ?z = "zigzag_encode64 (find_min_delta b)"
  let ?ws = "map (\<lambda>k. word_of_nat (chunk_width b k) :: u8) [0..<4]"
  let ?p = "concat (map (chunk_bytes b) [0..<4])"
  define d1 where "d1 = d\<lparr>dd_pos := dd_pos d + length (write_uleb128 ?z)\<rparr>"
  have u: "unread d = write_uleb128 ?z @ ?ws @ ?p @ r" using assms(2) by (simp add: block_bytes_def)
  have pos: "dd_pos d \<le> length (dd_data d)" using assms(1) by (simp add: shape_def)
  note f = read_field_uleb [OF u pos, folded d1_def]
  have ne: "\<not> length (dd_data d) \<le> dd_pos d" using u by (auto simp: unread_def)
  have u1: "drop (dd_pos d1) (dd_data d) = ?ws @ ?p @ r" using f(2) by (simp add: unread_def d1_def)
  have l: "length ?ws = 4" by simp
  have room: "dd_pos d1 + 4 \<le> length (dd_data d)"
    using drop_prefix_room [OF u1] f(3) unfolding l by (simp add: d1_def)
  have ws: "take 4 (drop (dd_pos d1) (dd_data d)) = ?ws" "drop (dd_pos d1 + 4) (dd_data d) = ?p @ r"
    using drop_prefix [OF u1] unfolding l u1 by simp_all
  let ?d' = "d1\<lparr>dd_min_delta := find_min_delta b, dd_bit_widths := ?ws @ drop 4 (dd_bit_widths d),
      dd_pos := dd_pos d1 + 4, dd_current_mini_block := 0\<rparr>"
  have "delta_decoder_read_block d = Inr ?d'"
    using f(1) ne room ws(1) assms(1) by (simp add: delta_decoder_read_block_def Let_def d1_def shape_def)
  moreover have "shape ?d'" using assms(1) room by (simp add: shape_def d1_def)
  moreover have "\<forall>j < 4. dd_bit_widths ?d' ! j = word_of_nat (chunk_width b j)" by (simp add: nth_append)
  moreover have "unread ?d' = ?p @ r" using ws(2) by (simp add: unread_def d1_def)
  ultimately show ?thesis using that [of ?d'] by (simp add: d1_def)
qed

lemma block_back:
  assumes "unpack_kernels ds" "shape d" "exhausted d" "dd_current_mini_block d = 4"
    "unread d = block_bytes b @ r" "b \<noteq> []" "length b \<le> 128"
  shows "\<exists>d'. delta_values ds (length b) d = Inr (b, d') \<and> unread d' = r \<and> shape d' \<and>
    (length b = 128 \<longrightarrow> exhausted d' \<and> dd_current_mini_block d' = 4)"
proof -
  obtain d2 where d2: "delta_decoder_read_block d = Inr d2" "shape d2" "dd_current_mini_block d2 = 0"
    "\<forall>j < 4. dd_bit_widths d2 ! j = word_of_nat (chunk_width b j)" "dd_min_delta d2 = find_min_delta b"
    "unread d2 = concat (map (chunk_bytes b) [0..<4]) @ r" "exhausted d2"
    using read_block_back [OF assms(2,5)] assms(3) by (metis exhausted_def)
  have "delta_decoder_read_mini_block ds d = delta_decoder_read_mini_block ds d2"
    using d2(1-3) assms(2,4) by (simp add: delta_decoder_read_mini_block_def shape_def)
  moreover obtain n where n: "length b = Suc n" using assms(6) by (cases b) auto
  ultimately have "delta_values ds (length b) d = delta_values ds (length b) d2"
    using assms(3) d2(7) by (simp add: exhausted_def)
  then show ?thesis using block_minis [OF assms(1) _ d2(2,7,3,4,5,6) assms(7)] by simp
qed

lemma blocks_back:
  assumes "unpack_kernels ds" "shape d" "exhausted d" "dd_current_mini_block d = 4" "unread d = blocks_bytes b @ r"
  shows "\<exists>d'. delta_values ds (length b) d = Inr (b, d') \<and> unread d' = r \<and> shape d'"
  using assms(2-5)
proof (induction b arbitrary: d rule: blocks_bytes.induct)
  case (1 b)
  show ?case
  proof (cases "b = []")
    case True
    then show ?thesis using "1.prems" by (simp add: blocks_bytes.simps)
  next
    case False
    have "unread d = block_bytes (take 128 b) @ blocks_bytes (drop 128 b) @ r"
      using "1.prems"(4) False by (simp add: blocks_bytes.simps [of b])
    then have "\<exists>d1. delta_values ds (length (take 128 b)) d = Inr (take 128 b, d1) \<and>
        unread d1 = blocks_bytes (drop 128 b) @ r \<and> shape d1 \<and>
        (length (take 128 b) = 128 \<longrightarrow> exhausted d1 \<and> dd_current_mini_block d1 = 4)"
      using False by (intro block_back [OF assms(1) "1.prems"(1-3)]) simp_all
    then obtain d1 where d1: "delta_values ds (length (take 128 b)) d = Inr (take 128 b, d1)"
      "unread d1 = blocks_bytes (drop 128 b) @ r" "shape d1"
      "length (take 128 b) = 128 \<longrightarrow> exhausted d1 \<and> dd_current_mini_block d1 = 4"
      by blast
    show ?thesis
    proof (cases "length b \<le> 128")
      case True
      then show ?thesis using d1 by (simp add: blocks_bytes.simps [of "[]"])
    next
      case gt: False
      from "1.IH" [OF False d1(3) _ _ d1(2)] d1(4) gt
      obtain d2 where d2: "delta_values ds (length (drop 128 b)) d1 = Inr (drop 128 b, d2)" "unread d2 = r" "shape d2"
        by auto
      have "length b = length (take 128 b) + length (drop 128 b)" using gt by simp
      then have "delta_values ds (length b) d = Inr (take 128 b @ drop 128 b, d2)"
        using d1(1) d2(1) by (simp only: delta_values_add sum.case prod.case)
      then show ?thesis using d2 by auto
    qed
  qed
qed

section \<open>The encoder writes the blocks\<close>

definition block_need :: "i64 list \<Rightarrow> nat" where
  "block_need b = 14 + sum_list (map (\<lambda>k. packed_bytes_needed 32 (word_of_nat (chunk_width b k))) [0..<4])"

function blocks_need :: "i64 list \<Rightarrow> nat" where
  "blocks_need ds = (if ds = [] then 0 else block_need (take 128 ds) + blocks_need (drop 128 ds))"
  by pat_completeness auto
termination
  by (relation "measure length") auto

declare blocks_need.simps [simp del]

definition enc_shape :: "delta_encoder \<Rightarrow> bool" where
  "enc_shape e \<longleftrightarrow> de_block_size e = 128 \<and> de_mini_blocks e = 4 \<and> length (de_deltas e) < 128"

lemma flush_block:
  assumes "de_block_size e = 128" "de_mini_blocks e = 4" "de_deltas e \<noteq> []"
  shows "delta_encoder_flush_block e =
    (if de_capacity e < length (de_data e) + block_need (de_deltas e) then Inl CARQUET_ERROR_ENCODE
     else Inr (e\<lparr>de_data := de_data e @ block_bytes (de_deltas e), de_deltas := []\<rparr>))"
proof -
  have c: "mini_block_deltas e k = chunk (de_deltas e) k" for k
    using assms by (simp add: mini_block_deltas_def chunk_def)
  have w: "mini_block_width e (find_min_delta (de_deltas e)) k = word_of_nat (chunk_width (de_deltas e) k)" for k
    by (simp add: mini_block_width_def chunk_width_def c)
  have p: "map (\<lambda>k. pack_mini_block 32 (find_min_delta (de_deltas e)) (map (\<lambda>k. word_of_nat (chunk_width (de_deltas e) k)) [0..<4] ! k)
      (chunk (de_deltas e) k)) [0..<4] = map (chunk_bytes (de_deltas e)) [0..<4]"
    by (intro map_cong) (auto simp: chunk_bytes_def)
  show ?thesis
    using assms unfolding delta_encoder_flush_block_def Let_def c w assms(1,2)
    by (simp add: p block_bytes_def block_need_def comp_def)
qed

definition encode_rest :: "i64 list \<Rightarrow> delta_encoder \<Rightarrow> delta_encoder outcome" where
  "encode_rest vs e = (case delta_encode_loop vs e of Inl x \<Rightarrow> Inl x | Inr e1 \<Rightarrow> delta_encoder_flush_block e1)"

lemma length_packed_chunk: "length (chunk_bytes b k) = packed_bytes_needed 32 (word_of_nat (chunk_width b k))"
proof -
  have c: "length (chunk b k) \<le> 32" "\<forall>d \<in> set (chunk b k). unat (d - find_min_delta b) < 2 ^ chunk_width b k"
    "chunk_width b k \<le> 64"
    using width_fits by (auto simp: chunk_def chunk_width_def bit_width_required_64)
  have w: "unat (word_of_nat (chunk_width b k) :: u8) = chunk_width b k" using c(3) by (simp add: word_u8_small)
  consider "chunk_width b k = 0" | "0 < chunk_width b k" "chunk_width b k \<le> 32" | "32 < chunk_width b k" by linarith
  then show ?thesis
  proof cases
    case 1
    then show ?thesis by (simp add: chunk_bytes_def packed_bytes_needed_def pack_mini_block_def)
  next
    case 2
    from pack_narrow(1) [OF 2 c(1,2)] show ?thesis using 2 w by (simp add: chunk_bytes_def packed_bytes_needed_def)
  next
    case 3
    from pack_wide(1) [OF 3 c(3,1,2)] show ?thesis using 3 w by (simp add: chunk_bytes_def packed_bytes_needed_def)
  qed
qed

lemma length_write_uleb128: "length (write_uleb128 v) \<le> 10"
proof -
  have "unat v < 2 ^ 64" using unsigned_less [of v] by simp
  then show ?thesis using length_varint_bytes [of 10 v] by (simp add: write_uleb128_def)
qed

lemma length_block_bytes: "length (block_bytes b) \<le> block_need b"
  using length_write_uleb128 [of "zigzag_encode64 (find_min_delta b)"]
  by (simp add: block_bytes_def block_need_def length_concat length_packed_chunk comp_def)

lemma encode_rest_Cons:
  assumes "enc_shape e" and e1_def: "e1 = e\<lparr>de_deltas := de_deltas e @ [v - de_last_value e], de_last_value := v\<rparr>"
  shows "encode_rest (v # vs) e =
    (if length (de_deltas e1) = 128
     then if de_capacity e < length (de_data e) + block_need (de_deltas e1) then Inl CARQUET_ERROR_ENCODE
          else encode_rest vs (e1\<lparr>de_data := de_data e @ block_bytes (de_deltas e1), de_deltas := []\<rparr>)
     else encode_rest vs e1)"
proof -
  have f: "delta_encoder_flush_block e1 =
    (if de_capacity e < length (de_data e) + block_need (de_deltas e1) then Inl CARQUET_ERROR_ENCODE
     else Inr (e1\<lparr>de_data := de_data e @ block_bytes (de_deltas e1), de_deltas := []\<rparr>))"
    using flush_block [of e1] assms(1) by (simp add: e1_def enc_shape_def)
  have "delta_encode_loop (v # vs) e =
     (if length (de_deltas e1) = 128
      then case delta_encoder_flush_block e1 of Inl x \<Rightarrow> Inl x | Inr e2 \<Rightarrow> delta_encode_loop vs e2
      else delta_encode_loop vs e1)"
    using assms(1) by (simp add: Let_def e1_def enc_shape_def)
  then show ?thesis unfolding f by (simp add: encode_rest_def)
qed

lemma blocks_128:
  assumes "length b = 128"
  shows "blocks_bytes (b @ ds) = block_bytes b @ blocks_bytes ds" "blocks_need (b @ ds) = block_need b + blocks_need ds"
  using assms by (auto simp: blocks_bytes.simps [of "b @ ds"] blocks_need.simps [of "b @ ds"])

lemma encode_rest_blocks:
  assumes "enc_shape e" and D_def: "D = de_deltas e @ differences (de_last_value e) vs"
  shows "(\<forall>e'. encode_rest vs e = Inr e' \<longrightarrow> de_data e' = de_data e @ blocks_bytes D) \<and>
    (length (de_data e) + blocks_need D \<le> de_capacity e \<longrightarrow> (\<exists>e'. encode_rest vs e = Inr e'))"
  using assms(1) unfolding D_def
proof (induction vs arbitrary: e)
  case Nil
  show ?case
  proof (cases "de_deltas e = []")
    case True
    then show ?thesis by (simp add: encode_rest_def delta_encoder_flush_block_def blocks_bytes.simps blocks_need.simps)
  next
    case False
    then have "take 128 (de_deltas e) = de_deltas e" "drop 128 (de_deltas e) = []"
      using Nil by (simp_all add: enc_shape_def)
    then show ?thesis using Nil False flush_block [of e]
      by (simp add: encode_rest_def enc_shape_def blocks_bytes.simps blocks_need.simps)
  qed
next
  case (Cons v vs)
  let ?e1 = "e\<lparr>de_deltas := de_deltas e @ [v - de_last_value e], de_last_value := v\<rparr>"
  have D: "de_deltas e @ differences (de_last_value e) (v # vs) = de_deltas ?e1 @ differences v vs" by simp
  show ?case
  proof (cases "length (de_deltas ?e1) = 128")
    case True
    let ?e2 = "?e1\<lparr>de_data := de_data e @ block_bytes (de_deltas ?e1), de_deltas := []\<rparr>"
    have "enc_shape ?e2" using Cons.prems by (simp add: enc_shape_def)
    from Cons.IH [OF this]
    have IH: "\<And>e'. encode_rest vs ?e2 = Inr e' \<Longrightarrow>
        de_data e' = de_data e @ block_bytes (de_deltas ?e1) @ blocks_bytes (differences v vs)"
      "length (de_data e) + length (block_bytes (de_deltas ?e1)) + blocks_need (differences v vs) \<le> de_capacity e
        \<Longrightarrow> \<exists>e'. encode_rest vs ?e2 = Inr e'" by simp_all
    have e: "encode_rest (v # vs) e = (if de_capacity e < length (de_data e) + block_need (de_deltas ?e1)
        then Inl CARQUET_ERROR_ENCODE else encode_rest vs ?e2)"
      unfolding encode_rest_Cons [OF Cons.prems refl] by (simp only: True if_True simp_thms)
    show ?thesis unfolding e D blocks_128 [OF True]
    proof (intro conjI allI impI)
      fix e' assume "(if de_capacity e < length (de_data e) + block_need (de_deltas ?e1)
        then Inl CARQUET_ERROR_ENCODE else encode_rest vs ?e2) = Inr e'"
      then show "de_data e' = de_data e @ block_bytes (de_deltas ?e1) @ blocks_bytes (differences v vs)"
        using IH(1) by (simp split: if_splits)
    next
      assume "length (de_data e) + (block_need (de_deltas ?e1) + blocks_need (differences v vs)) \<le> de_capacity e"
      moreover from this length_block_bytes [of "de_deltas ?e1"] have "\<exists>e'. encode_rest vs ?e2 = Inr e'"
        by (intro IH(2)) linarith
      ultimately show "\<exists>e'. (if de_capacity e < length (de_data e) + block_need (de_deltas ?e1)
        then Inl CARQUET_ERROR_ENCODE else encode_rest vs ?e2) = Inr e'" by simp
    qed
  next
    case False
    have "enc_shape ?e1" using Cons.prems False by (simp add: enc_shape_def)
    note IH = Cons.IH [OF this]
    have f: "de_data ?e1 = de_data e" "de_last_value ?e1 = v" "de_capacity ?e1 = de_capacity e" by simp_all
    have e: "encode_rest (v # vs) e = encode_rest vs ?e1"
      unfolding encode_rest_Cons [OF Cons.prems refl] by (simp only: False if_False)
    show ?thesis unfolding e D using IH unfolding f .
  qed
qed

section \<open>Round trip\<close>

lemma unpack_keeps_data: "unpack_mini_block ds d = Inr d' \<Longrightarrow> dd_data d' = dd_data d"
  by (auto simp: unpack_mini_block_def set_mini_block_def Let_def split: if_splits)

lemma read_mini_block_keeps_data: "delta_decoder_read_mini_block ds d = Inr d' \<Longrightarrow> dd_data d' = dd_data d"
  by (auto simp: delta_decoder_read_mini_block_def delta_decoder_read_block_def read_field_def Let_def
      dest!: unpack_keeps_data split: if_splits sum.splits option.splits)

lemma delta_values_keeps_data: "delta_values ds n d = Inr (vs, d') \<Longrightarrow> dd_data d' = dd_data d"
proof (induction n arbitrary: d vs)
  case (Suc n)
  then obtain d1 ws where d1: "(if dd_values_in_mini_block d \<le> dd_mini_block_pos d
      then delta_decoder_read_mini_block ds d else Inr d) = Inr d1"
    "delta_values ds n (d1\<lparr>dd_mini_block_pos := dd_mini_block_pos d1 + 1,
      dd_values_decoded := dd_values_decoded d1 + 1\<rparr>) = Inr (ws, d')"
    by (auto simp: Let_def split: sum.splits)
  have "dd_data d1 = dd_data d" using d1(1) read_mini_block_keeps_data by (auto split: if_splits)
  then show ?case using Suc.IH [OF d1(2)] by simp
qed simp

lemma init_back:
  obtains d where "delta_decoder_init (delta_header n v @ r) = Inr d" "shape d" "exhausted d"
    "dd_current_mini_block d = 4" "unread d = r" "dd_first_value d = v" "dd_data d = delta_header n v @ r"
proof -
  define data where "data = delta_header n v @ r"
  let ?b = "write_uleb128 128" let ?m = "write_uleb128 4" let ?n = "write_uleb128 (word_of_nat n)"
  let ?f = "write_uleb128 (zigzag_encode64 v)"
  have data: "data = ?b @ ?m @ ?n @ ?f @ r"
    by (simp add: data_def delta_header_def DELTA_BLOCK_SIZE_def DELTA_MINI_BLOCKS_def)
  have rf: "read_field d = Inr (x, d\<lparr>dd_pos := dd_pos d + length (write_uleb128 x)\<rparr>)"
    if "drop (dd_pos d) (dd_data d) = write_uleb128 x @ q" for d x q
    using that read_write_uleb128 [of x q] by (simp add: read_field_def)
  define p where "p = length ?b"
  define q where "q = p + length ?m"
  define u where "u = q + length ?n"
  define z where "z = u + length ?f"
  have dr: "drop 0 data = ?b @ ?m @ ?n @ ?f @ r" "drop p data = ?m @ ?n @ ?f @ r" "drop q data = ?n @ ?f @ r"
    "drop u data = ?f @ r" "drop z data = r" "z \<le> length data"
    by (simp_all add: data p_def q_def u_def z_def)
  let ?d = "(delta_decoder_zero data)\<lparr>dd_pos := z, dd_block_size := 128, dd_mini_blocks := 4,
      dd_total_values := ucast (word_of_nat n :: u64), dd_first_value := v, dd_last_value := v,
      dd_current_mini_block := 4, dd_mini_block_pos := 1024\<rparr>"
  have i: "delta_decoder_init data = Inr ?d"
    using rf [of "delta_decoder_zero data" 128 "?m @ ?n @ ?f @ r"]
      rf [of "(delta_decoder_zero data)\<lparr>dd_pos := p, dd_block_size := 128\<rparr>" 4 "?n @ ?f @ r"]
      rf [of "(delta_decoder_zero data)\<lparr>dd_pos := q, dd_block_size := 128, dd_mini_blocks := 4\<rparr>" "word_of_nat n" "?f @ r"]
      rf [of "(delta_decoder_zero data)\<lparr>dd_pos := u, dd_block_size := 128, dd_mini_blocks := 4,
        dd_total_values := ucast (word_of_nat n :: u64)\<rparr>" "zigzag_encode64 v" r] dr
    by (simp add: delta_decoder_init_def delta_decoder_zero_def Let_def DELTA_MAX_MINI_BLOCKS_def
        DELTA_MAX_MINI_BLOCK_SIZE_def DELTA_MAX_BLOCK_SIZE_def flip: p_def q_def u_def z_def)
  have "shape ?d \<and> exhausted ?d \<and> unread ?d = r"
    using dr by (simp add: shape_def exhausted_def unread_def delta_decoder_zero_def DELTA_MAX_MINI_BLOCKS_def
        DELTA_MAX_MINI_BLOCK_SIZE_def DELTA_MAX_BLOCK_SIZE_def)
  then have "\<exists>d. delta_decoder_init data = Inr d \<and> shape d \<and> exhausted d \<and>
    dd_current_mini_block d = 4 \<and> unread d = r \<and> dd_first_value d = v \<and> dd_data d = data"
    using i by (intro exI [of _ ?d]) (simp add: delta_decoder_zero_def)
  then show ?thesis using that unfolding data_def by blast
qed

lemma mod_diff_cancel: "m dvd n \<Longrightarrow> (x mod n - y mod n) mod m = (x - y) mod m" for m :: int
  by (metis mod_diff_eq mod_mod_cancel)

lemma ucast_diff_down: "(ucast (x - y :: i64) :: i32) = ucast x - ucast y"
  by transfer (simp add: take_bit_eq_mod mod_diff_cancel mod_mod_cancel)

lemma drop_append_pos: "drop p (xs @ r) = r \<Longrightarrow> p \<le> length (xs @ r) \<Longrightarrow> p = length xs"
  by (metis add_diff_cancel_right' le_add_diff_inverse length_append length_drop)

lemma differences_narrow:
  "map ucast (differences (scast a :: i64) (map scast vs)) = differences a vs" for a :: i32 and vs :: "i32 list"
proof (induction vs arbitrary: a)
  case (Cons v vs)
  have "ucast (scast v - scast a :: i64) = v - a"
    by (simp add: ucast_diff_down ucast_scast_up)
  then show ?case using Cons by simp
qed simp

text \<open>The part the two widths share: header and blocks are read back.\<close>

lemma delta_encode_back:
  assumes "unpack_kernels ds" "delta_encode (v # vs) cap = Inr out"
  shows "\<exists>d d'. delta_decoder_init (out @ r) = Inr d \<and> dd_first_value d = v \<and>
    delta_values ds (length vs) (d\<lparr>dd_values_decoded := 1\<rparr>) = Inr (differences v vs, d') \<and> dd_pos d' = length out"
proof -
  define n where "n = length (v # vs)"
  define e where "e = (delta_encoder_init cap)\<lparr>de_data := delta_header n v, de_first_value := v,
    de_last_value := v, de_values_written := 1\<rparr>"
  have sh: "enc_shape e" "de_deltas e = []" "de_last_value e = v" "de_data e = delta_header n v"
    by (simp_all add: e_def enc_shape_def delta_encoder_init_def DELTA_BLOCK_SIZE_def DELTA_MINI_BLOCKS_def)
  from assms(2) obtain e' where e': "encode_rest vs e = Inr e'" "out = de_data e'"
    by (auto simp: delta_encode_def encode_rest_def Let_def e_def n_def split: if_splits sum.splits)
  have out: "out = delta_header n v @ blocks_bytes (differences v vs)"
    using encode_rest_blocks [OF sh(1) refl, of vs] e' sh by simp
  obtain d where d: "delta_decoder_init (out @ r) = Inr d" "shape d" "exhausted d" "dd_current_mini_block d = 4"
    "unread d = blocks_bytes (differences v vs) @ r" "dd_first_value d = v" "dd_data d = out @ r"
    using init_back [of n v "blocks_bytes (differences v vs) @ r"] out by (metis append.assoc)
  let ?d = "d\<lparr>dd_values_decoded := 1\<rparr>"
  have "shape ?d" "exhausted ?d" "dd_current_mini_block ?d = 4" "unread ?d = blocks_bytes (differences v vs) @ r"
    using d(2-5) by (simp_all add: shape_def exhausted_def unread_def)
  from blocks_back [OF assms(1) this] obtain d' where d': "delta_values ds (length vs) ?d = Inr (differences v vs, d')"
    "unread d' = r" "shape d'" by auto
  have "dd_data d' = out @ r" using delta_values_keeps_data [OF d'(1)] d(7) by simp
  then have "dd_pos d' = length out"
    using d'(2,3) drop_append_pos unfolding unread_def shape_def by metis
  then show ?thesis using d(1,6) d'(1) by blast
qed

lemma delta_empty_back:
  assumes "delta_encode [] cap = Inr out"
  shows "\<exists>d. delta_decoder_init (out @ r) = Inr d \<and> dd_pos d = length out"
proof -
  have out: "out = delta_header 0 0" using assms by (simp add: delta_encode_def Let_def split: if_splits)
  obtain d where d: "delta_decoder_init (out @ r) = Inr d" "shape d" "unread d = r" "dd_data d = out @ r"
    using init_back [of 0 0 r] out by metis
  then show ?thesis using drop_append_pos unfolding unread_def shape_def by metis
qed

lemma delta_int32_back:
  assumes "unpack_kernels ds" "simd_kernels t" "carquet_delta_encode_int32 xs cap = Inr out"
  shows "carquet_delta_decode_int32 ds t (out @ r) (length xs) = Inr (xs, length out)"
proof (cases xs)
  case Nil
  then show ?thesis using delta_empty_back [of cap out r] assms(3)
    by (auto simp: carquet_delta_encode_int32_def carquet_delta_decode_int32_def)
next
  case (Cons v vs)
  have "delta_encode (scast v # map scast vs) cap = Inr out"
    using assms(3) Cons by (simp add: carquet_delta_encode_int32_def)
  from delta_encode_back [OF assms(1) this, of r] obtain d d' where d: "delta_decoder_init (out @ r) = Inr d"
    "dd_first_value d = scast v" "dd_pos d' = length out"
    "delta_values ds (length vs) (d\<lparr>dd_values_decoded := 1\<rparr>) = Inr (differences (scast v) (map scast vs), d')" by auto
  then show ?thesis
    using Cons simd_kernels.prefix_sum_i32 [OF assms(2)]
    by (simp add: carquet_delta_decode_int32_def Let_def differences_narrow ucast_scast_up
        scalar_prefix_sum_i32_def prefix_sum_differences)
qed

lemma delta_int64_back:
  assumes "unpack_kernels ds" "simd_kernels t" "carquet_delta_encode_int64 ys cap = Inr out"
  shows "carquet_delta_decode_int64 ds t (out @ r) (length ys) = Inr (ys, length out)"
proof (cases ys)
  case Nil
  then show ?thesis using delta_empty_back [of cap out r] assms(3)
    by (auto simp: carquet_delta_encode_int64_def carquet_delta_decode_int64_def)
next
  case (Cons v vs)
  have "delta_encode (v # vs) cap = Inr out" using assms(3) Cons by (simp add: carquet_delta_encode_int64_def)
  from delta_encode_back [OF assms(1) this, of r] obtain d d' where "delta_decoder_init (out @ r) = Inr d"
    "dd_first_value d = v" "dd_pos d' = length out"
    "delta_values ds (length vs) (d\<lparr>dd_values_decoded := 1\<rparr>) = Inr (differences v vs, d')" by auto
  then show ?thesis
    using Cons simd_kernels.prefix_sum_i64 [OF assms(2)]
    by (simp add: carquet_delta_decode_int64_def Let_def scalar_prefix_sum_i64_def prefix_sum_differences)
qed

text \<open>
  C18: DELTA\_BINARY\_PACKED round trips for both widths. Whenever the encoder succeeds, the decoder reads
  the same values back from its output, whatever follows it, and reports exactly the bytes written as consumed,
  for every choice of SIMD kernels that satisfies the contracts.
\<close>

theorem delta_roundtrip:
  assumes "unpack_kernels ds" "simd_kernels t"
    "carquet_delta_encode_int32 xs cap = Inr out" "carquet_delta_encode_int64 ys cap = Inr out'"
  shows "carquet_delta_decode_int32 ds t (out @ r) (length xs) = Inr (xs, length out) \<and>
    carquet_delta_decode_int64 ds t (out' @ r) (length ys) = Inr (ys, length out')"
  using delta_int32_back [OF assms(1-3)] delta_int64_back [OF assms(1,2,4)] by blast

theorem delta_roundtrip_witness:
  "carquet_delta_decode_int32 scalar_dispatch scalar_simd
     ([0x80, 0x01, 0x04, 0x03, 0x0E, 0x03, 0x02, 0, 0, 0, 0x0C, 0, 0, 0, 0, 0, 0, 0] @ [9]) 3 = Inr ([7, 5, 6], 18)"
proof -
  have e: "carquet_delta_encode_int32 [7, 5, 6] 100 =
      Inr [0x80, 0x01, 0x04, 0x03, 0x0E, 0x03, 0x02, 0, 0, 0, 0x0C, 0, 0, 0, 0, 0, 0, 0]"
    "carquet_delta_encode_int64 [] 100 = Inr [0x80, 0x01, 0x04, 0, 0]" by code_simp+
  show ?thesis
    using delta_roundtrip [OF scalar.unpack_kernels_axioms scalar_table.simd_kernels_axioms e, of "[9]"]
    by (simp add: eval_nat_numeral)
qed

section \<open>Capacity\<close>

lemma encode_rest_error: "enc_shape e \<Longrightarrow> encode_rest vs e = Inl x \<Longrightarrow> x = CARQUET_ERROR_ENCODE"
proof (induction vs arbitrary: e)
  case Nil
  then show ?case using flush_block [of e]
    by (cases "de_deltas e = []")
      (auto simp: encode_rest_def enc_shape_def delta_encoder_flush_block_def split: if_splits)
next
  case (Cons v vs)
  let ?e1 = "e\<lparr>de_deltas := de_deltas e @ [v - de_last_value e], de_last_value := v\<rparr>"
  let ?e2 = "?e1\<lparr>de_data := de_data e @ block_bytes (de_deltas ?e1), de_deltas := []\<rparr>"
  have "enc_shape ?e2" using Cons.prems(1) by (simp add: enc_shape_def)
  moreover have "length (de_deltas ?e1) \<noteq> 128 \<Longrightarrow> enc_shape ?e1" using Cons.prems(1) by (simp add: enc_shape_def)
  ultimately show ?case
    using Cons.prems(2) Cons.IH [of ?e1] Cons.IH [of ?e2]
    unfolding encode_rest_Cons [OF Cons.prems(1) refl] by (metis Inl_inject)
qed

lemma encode_rest_within:
  "enc_shape e \<Longrightarrow> length (de_data e) \<le> de_capacity e \<Longrightarrow> encode_rest vs e = Inr e' \<Longrightarrow>
   length (de_data e') \<le> de_capacity e"
proof (induction vs arbitrary: e)
  case Nil
  then show ?case using flush_block [of e] length_block_bytes [of "de_deltas e"]
    by (cases "de_deltas e = []")
      (auto simp: encode_rest_def enc_shape_def delta_encoder_flush_block_def split: if_splits)
next
  case (Cons v vs)
  let ?e1 = "e\<lparr>de_deltas := de_deltas e @ [v - de_last_value e], de_last_value := v\<rparr>"
  let ?e2 = "?e1\<lparr>de_data := de_data e @ block_bytes (de_deltas ?e1), de_deltas := []\<rparr>"
  show ?case
  proof (cases "length (de_deltas ?e1) = 128")
    case True
    then have c: "\<not> de_capacity e < length (de_data e) + block_need (de_deltas ?e1)" "encode_rest vs ?e2 = Inr e'"
      using Cons.prems(3) unfolding encode_rest_Cons [OF Cons.prems(1) refl] by (simp_all only: True if_True simp_thms split: if_splits) simp_all
    have "length (de_data ?e2) \<le> de_capacity e" using c(1) length_block_bytes [of "de_deltas ?e1"] by simp
    moreover have "enc_shape ?e2" using Cons.prems(1) by (simp add: enc_shape_def)
    ultimately show ?thesis using Cons.IH [OF _ _ c(2)] by simp
  next
    case False
    then have c: "encode_rest vs ?e1 = Inr e'"
      using Cons.prems(3) unfolding encode_rest_Cons [OF Cons.prems(1) refl] by (simp only: False if_False)
    moreover have "enc_shape ?e1" using Cons.prems(1) False by (simp add: enc_shape_def)
    ultimately show ?thesis using Cons.IH [OF _ _ c] Cons.prems(2) by simp
  qed
qed

lemma length_delta_header: "length (delta_header n v) \<le> 40"
  using length_write_uleb128 [of "word_of_nat DELTA_BLOCK_SIZE"] length_write_uleb128 [of "word_of_nat DELTA_MINI_BLOCKS"]
    length_write_uleb128 [of "word_of_nat n"] length_write_uleb128 [of "zigzag_encode64 v"]
  by (simp add: delta_header_def)

text \<open>The encoder as header and blocks: what it needs, what it writes, and its only error.\<close>

lemma delta_encode_cases:
  shows "delta_encode (v # vs) cap = Inr out \<Longrightarrow>
      out = delta_header (length (v # vs)) v @ blocks_bytes (differences v vs) \<and> length out \<le> cap"
    "40 + blocks_need (differences v vs) \<le> cap \<Longrightarrow> \<exists>out. delta_encode (v # vs) cap = Inr out"
    "delta_encode (v # vs) cap = Inl x \<Longrightarrow> x = CARQUET_ERROR_ENCODE"
    "40 \<le> cap \<Longrightarrow> length (delta_header (length (v # vs)) v) + blocks_need (differences v vs) \<le> cap \<Longrightarrow>
      \<exists>out. delta_encode (v # vs) cap = Inr out"
proof -
  define n where "n = length (v # vs)"
  define e where "e = (delta_encoder_init cap)\<lparr>de_data := delta_header n v, de_first_value := v,
    de_last_value := v, de_values_written := 1\<rparr>"
  have sh: "enc_shape e" "de_deltas e = []" "de_last_value e = v" "de_data e = delta_header n v" "de_capacity e = cap"
    by (simp_all add: e_def enc_shape_def delta_encoder_init_def DELTA_BLOCK_SIZE_def DELTA_MINI_BLOCKS_def)
  have d: "delta_encode (v # vs) cap = (if cap < 40 then Inl CARQUET_ERROR_ENCODE
      else case encode_rest vs e of Inl x \<Rightarrow> Inl x | Inr e' \<Rightarrow> Inr (de_data e'))"
    by (auto simp: delta_encode_def encode_rest_def Let_def e_def n_def split: sum.splits)
  note b = encode_rest_blocks [OF sh(1) refl, of vs, unfolded sh, simplified]
  show "delta_encode (v # vs) cap = Inr out \<Longrightarrow>
      out = delta_header (length (v # vs)) v @ blocks_bytes (differences v vs) \<and> length out \<le> cap"
  proof -
    assume "delta_encode (v # vs) cap = Inr out"
    then obtain e' where e': "encode_rest vs e = Inr e'" "out = de_data e'" "\<not> cap < 40"
      unfolding d by (auto split: if_splits sum.splits)
    have "length (de_data e') \<le> cap"
      using encode_rest_within [OF sh(1) _ e'(1)] sh(4,5) length_delta_header [of n v] e'(3) by simp
    then show ?thesis using b e' by (simp add: n_def)
  qed
  show "40 + blocks_need (differences v vs) \<le> cap \<Longrightarrow> \<exists>out. delta_encode (v # vs) cap = Inr out"
    using b length_delta_header [of n v] unfolding d by (auto split: sum.splits)
  show "delta_encode (v # vs) cap = Inl x \<Longrightarrow> x = CARQUET_ERROR_ENCODE"
    using encode_rest_error [OF sh(1), of vs] unfolding d by (auto split: if_splits sum.splits)
  show "40 \<le> cap \<Longrightarrow> length (delta_header (length (v # vs)) v) + blocks_need (differences v vs) \<le> cap \<Longrightarrow>
      \<exists>out. delta_encode (v # vs) cap = Inr out"
    using b unfolding d by (auto simp: n_def split: sum.splits)
qed

lemma upt_4: "[0..<4] = [0, 1, 2, 3 :: nat]"
  by code_simp

lemma chunk_need: "packed_bytes_needed 32 (word_of_nat (chunk_width b k)) \<le> (if k * 32 < length b then 256 else 0)"
proof (cases "k * 32 < length b")
  case True
  have "chunk_width b k \<le> 64" by (simp add: chunk_width_def bit_width_required_64)
  then have "unat (word_of_nat (chunk_width b k) :: u8) \<le> 64" by (simp add: word_u8_small)
  then show ?thesis using True by (auto simp: packed_bytes_needed_def)
next
  case False
  then show ?thesis using chunk_empty [of b k] length_packed_chunk [of b k] by simp
qed

lemma block_need_le: "b \<noteq> [] \<Longrightarrow> length b \<le> 128 \<Longrightarrow> block_need b \<le> (if length b = 128 then 1152 else 9 * length b + 262)"
  using chunk_need [of b 0] chunk_need [of b 1] chunk_need [of b 2] chunk_need [of b 3]
    Suc_leI [of 0 "length b"]
  by (auto simp: block_need_def upt_4 split: if_splits)

lemma blocks_need_le: "blocks_need ds \<le> 9 * length ds + 262"
proof (induction ds rule: blocks_need.induct)
  case (1 ds)
  show ?case
  proof (cases "ds = []")
    case False
    have "block_need (take 128 ds) \<le> (if length (take 128 ds) = 128 then 1152 else 9 * length (take 128 ds) + 262)"
      using False by (intro block_need_le) auto
    then show ?thesis
      using 1 [OF False] False by (cases "length ds < 128") (auto simp: blocks_need.simps [of ds] blocks_need.simps [of "[]"])
  qed (simp add: blocks_need.simps)
qed

text \<open>
  Capacity of the delta encoders. They never write past the capacity they are given; the only error is
  \<^verbatim>\<open>CARQUET_ERROR_ENCODE\<close>; and the capacity the page writer reserves for 64-bit values,
  \<open>8 n + n + 512\<close>, is always enough.
\<close>

theorem delta_int64_capacity:
  "(\<forall>out. carquet_delta_encode_int64 ys cap = Inr out \<longrightarrow> length out \<le> cap) \<and>
   (\<forall>e. carquet_delta_encode_int64 ys cap = Inl e \<longrightarrow> e = CARQUET_ERROR_ENCODE) \<and>
   (8 * length ys + length ys + 512 \<le> cap \<longrightarrow> (\<exists>out. carquet_delta_encode_int64 ys cap = Inr out))"
proof (cases ys)
  case Nil
  then show ?thesis using length_delta_header [of 0 0]
    by (auto simp: carquet_delta_encode_int64_def delta_encode_def Let_def split: if_splits)
next
  case (Cons v vs)
  show ?thesis
    using delta_encode_cases(1-3) [of v vs cap] blocks_need_le [of "differences v vs"]
    unfolding Cons carquet_delta_encode_int64_def by auto
qed

theorem delta_int64_capacity_witness:
  "\<exists>out. carquet_delta_encode_int64 [1, 0x8000000000000000, 5] 539 = Inr out"
  using delta_int64_capacity [of "[1, 0x8000000000000000, 5]" 539] by simp

definition swing_block :: "i64 list" where
  "swing_block = concat (replicate 64 [0xFFFFFFFF, - 0xFFFFFFFF])"

definition swing_values :: "nat \<Rightarrow> i32 list" where
  "swing_values n = concat (replicate n [0x7FFFFFFF, 0x80000000])"

lemma concat_replicate_mult: "concat (replicate (m * n) xs) = concat (replicate n (concat (replicate m xs)))"
  by (induction n) (simp_all add: replicate_add)

lemma swing_differences:
  "differences (scast (0x80000000 :: i32)) (map scast (swing_values (64 * n))) = concat (replicate n swing_block)"
proof -
  have "differences (scast (0x80000000 :: i32)) (map scast (swing_values n)) =
    concat (replicate n [0xFFFFFFFF, - 0xFFFFFFFF :: i64])" for n
    by (induction n) (simp_all add: swing_values_def)
  then show ?thesis unfolding swing_block_def concat_replicate_mult [symmetric] .
qed

lemma length_swing_values: "length (swing_values n) = 2 * n"
  by (induction n) (simp_all add: swing_values_def)

lemma length_swing_block: "length swing_block = 128" "length (block_bytes swing_block) = 649"
proof -
  show "length swing_block = 128" by (simp add: swing_block_def length_concat sum_list_replicate)
  have w: "map (chunk_width swing_block) [0..<4] = [33, 33, 33, 33]"
    and m: "find_min_delta swing_block = - 0xFFFFFFFF" by code_simp+
  have z: "length (write_uleb128 (zigzag_encode64 (find_min_delta swing_block))) = 5"
    unfolding m by (simp add: zigzag_encode64_def write_uleb128_def varint_bytes.simps)
  show "length (block_bytes swing_block) = 649"
    using w z by (simp add: block_bytes_def length_concat length_packed_chunk comp_def packed_bytes_needed_def upt_4)
qed

lemma length_swing_blocks: "length (blocks_bytes (concat (replicate n swing_block))) = 649 * n"
  by (induction n) (simp_all add: blocks_bytes.simps [of "[]"] blocks_128 length_swing_block)

text \<open>
  C20: the capacity the page writer reserves for 32-bit values is not always enough. Differences of 32-bit
  values can need 33 bits, which the encoder stores in 5 whole bytes; 7425 values alternating between the smallest
  and the largest integer overflow \<open>4 n + n + 512\<close> bytes, and writing the page fails.
\<close>

theorem delta_int32_page_capacity_fails:
  "\<exists>xs. length xs = 7425 \<and>
    carquet_delta_encode_int32 xs (4 * length xs + length xs + 512) = Inl CARQUET_ERROR_ENCODE"
proof -
  have f: "carquet_delta_encode_int32 (0x80000000 # swing_values (64 * n)) cap = Inl CARQUET_ERROR_ENCODE"
    if "cap < 649 * n" for n cap
  proof (cases "carquet_delta_encode_int32 (0x80000000 # swing_values (64 * n)) cap")
    case (Inl e)
    then show ?thesis using delta_encode_cases(3) by (simp add: carquet_delta_encode_int32_def)
  next
    case (Inr out)
    then have "649 * n \<le> cap"
      using delta_encode_cases(1) [of "scast (0x80000000 :: i32)" "map scast (swing_values (64 * n))" cap out]
      unfolding swing_differences by (auto simp: carquet_delta_encode_int32_def length_swing_blocks)
    then show ?thesis using that by simp
  qed
  have len: "length (0x80000000 # swing_values (64 * n)) = 128 * n + 1" for n by (simp add: length_swing_values)
  show ?thesis
    by (rule exI [of _ "0x80000000 # swing_values (64 * 58)"], unfold len, intro conjI f) simp_all
qed

section \<open>Wide mini-blocks\<close>

text \<open>
  C23: mini-blocks wider than 32 bits are not bit-packed. The format packs the 32 values of a mini-block into
  \<open>4 w\<close> bytes; the encoder, and the decoder with it, stores each value in whole bytes, which takes more
  room for every width from 33 to 64 that is not a multiple of 8.
\<close>

theorem delta_wide_not_packed:
  assumes "32 < w" "w \<le> 64" "w mod 8 \<noteq> 0" "length c \<le> 32" "\<forall>d \<in> set c. unat (d - m) < 2 ^ w"
  shows "length (pack_mini_block 32 m (word_of_nat w) c) = 32 * ((w + 7) div 8) \<and>
    4 * w < length (pack_mini_block 32 m (word_of_nat w) c)"
proof -
  obtain q r where w: "w = 8 * q + r" "0 < r" "r < 8"
    using assms(3) mult_div_mod_eq [of 8 w] mod_less_divisor [of 8 w] by (metis neq0_conv zero_less_numeral)
  have "(w + 7) div 8 = q + 1" unfolding div8_iff using w by simp
  then have "4 * w < 32 * ((w + 7) div 8)" using w by simp
  then show ?thesis using pack_wide(1) [OF assms(1,2,4,5)] by simp
qed

theorem delta_wide_not_packed_witness:
  "length (pack_mini_block 32 0 (word_of_nat 33) [0x1FFFFFFFF]) = 160"
  using delta_wide_not_packed [of 33 "[0x1FFFFFFFF]" 0] by simp

section \<open>The decoder state\<close>

text \<open>One round of the decoding loop: refill when the mini-block is used up, then take one value.\<close>

definition refill :: "bitunpack_dispatch \<Rightarrow> delta_decoder \<Rightarrow> delta_decoder outcome" where
  "refill ds d = (if dd_values_in_mini_block d \<le> dd_mini_block_pos d then delta_decoder_read_mini_block ds d else Inr d)"

definition dd_inv :: "bytes \<Rightarrow> delta_decoder \<Rightarrow> bool" where
  "dd_inv data d \<longleftrightarrow> dd_data d = data \<and> dd_pos d \<le> length data \<and>
     0 < sint (dd_mini_blocks d) \<and> sint (dd_mini_blocks d) \<le> 32 \<and>
     0 < sint (dd_block_size d) \<and> sint (dd_block_size d) \<le> 1024 \<and>
     length (dd_bit_widths d) = 32 \<and> length (dd_mini_block_values d) = 1024 \<and>
     dd_values_in_mini_block d \<le> 1024 \<and> dd_current_mini_block d \<le> unat (dd_mini_blocks d)"

inductive delta_reach :: "bitunpack_dispatch \<Rightarrow> bytes \<Rightarrow> delta_decoder \<Rightarrow> bool" for ds data where
  start: "delta_decoder_init data = Inr d \<Longrightarrow> delta_reach ds data d"
| first: "delta_decoder_init data = Inr d \<Longrightarrow> delta_reach ds data (d\<lparr>dd_values_decoded := 1\<rparr>)"
| round: "delta_reach ds data d \<Longrightarrow> refill ds d = Inr d' \<Longrightarrow>
    delta_reach ds data (d'\<lparr>dd_mini_block_pos := dd_mini_block_pos d' + 1, dd_values_decoded := k\<rparr>)"

lemma read_uleb128_le: "read_uleb128 p = Some (v, n) \<Longrightarrow> n \<le> length p"
  by (auto simp: read_uleb128_def split: option.splits)

lemma read_field_frame:
  "read_field d = Inr (v, d') \<Longrightarrow> \<exists>n. d' = d\<lparr>dd_pos := dd_pos d + n\<rparr> \<and> n \<le> length (dd_data d) - dd_pos d"
  by (auto simp: read_field_def dest!: read_uleb128_le split: option.splits)

lemma init_inv:
  assumes "delta_decoder_init data = Inr d"
  shows "dd_inv data d"
proof -
  from assms obtain bs d1 mb d2 tv d4 fv d5 where
    1: "read_field (delta_decoder_zero data) = Inr (bs, d1)" and
    2: "read_field (d1\<lparr>dd_block_size := ucast bs\<rparr>) = Inr (mb, d2)" and
    m: "0 < sint (ucast mb :: i32)" "sint (ucast mb :: i32) \<le> 32" and
    b: "0 < sint (dd_block_size d2)" "sint (dd_block_size d2) \<le> 1024" and
    4: "read_field (d2\<lparr>dd_mini_blocks := ucast mb\<rparr>) = Inr (tv, d4)" and
    5: "read_field (d4\<lparr>dd_total_values := ucast tv\<rparr>) = Inr (fv, d5)" and
    d: "d = d5\<lparr>dd_first_value := zigzag_decode64 fv, dd_last_value := zigzag_decode64 fv,
          dd_current_mini_block := unat (dd_mini_blocks d5), dd_mini_block_pos := DELTA_MAX_MINI_BLOCK_SIZE\<rparr>"
    by (auto simp: delta_decoder_init_def Let_def DELTA_MAX_MINI_BLOCKS_def DELTA_MAX_BLOCK_SIZE_def not_le not_less
        split: sum.splits if_splits)
  show ?thesis
    using read_field_frame [OF 1] read_field_frame [OF 2] read_field_frame [OF 4] read_field_frame [OF 5] m b
    unfolding d by (auto simp: dd_inv_def delta_decoder_zero_def DELTA_MAX_MINI_BLOCKS_def
        DELTA_MAX_MINI_BLOCK_SIZE_def DELTA_MAX_BLOCK_SIZE_def)
qed

lemma dd_inv_sizes:
  assumes "dd_inv data d"
  shows "0 < unat (dd_mini_blocks d)" "unat (dd_mini_blocks d) \<le> 32" "unat (dd_block_size d) \<le> 1024"
proof -
  have b: "0 < sint (dd_mini_blocks d)" "sint (dd_mini_blocks d) \<le> 32" "0 < sint (dd_block_size d)"
    "sint (dd_block_size d) \<le> 1024" using assms unfolding dd_inv_def by blast+
  have u: "int (unat (dd_mini_blocks d)) = sint (dd_mini_blocks d)" "int (unat (dd_block_size d)) = sint (dd_block_size d)"
    using b by (intro nonneg_i32, linarith)+
  show "0 < unat (dd_mini_blocks d)" "unat (dd_mini_blocks d) \<le> 32" "unat (dd_block_size d) \<le> 1024"
    using b u by linarith+
qed

lemma read_block_inv:
  assumes "dd_inv data d" "delta_decoder_read_block d = Inr d'"
  shows "dd_inv data d' \<and> dd_current_mini_block d' < unat (dd_mini_blocks d')"
proof -
  from assms(2) obtain v d1 where f: "read_field d = Inr (v, d1)"
    and k: "dd_pos d1 + unat (dd_mini_blocks d1) \<le> length (dd_data d1)"
    and d': "d' = d1\<lparr>dd_min_delta := zigzag_decode64 v,
       dd_bit_widths := take (unat (dd_mini_blocks d1)) (drop (dd_pos d1) (dd_data d1)) @ drop (unat (dd_mini_blocks d1)) (dd_bit_widths d1),
       dd_pos := dd_pos d1 + unat (dd_mini_blocks d1), dd_current_mini_block := 0\<rparr>"
    by (auto simp: delta_decoder_read_block_def Let_def not_less split: sum.splits if_splits)
  obtain n where d1: "d1 = d\<lparr>dd_pos := dd_pos d + n\<rparr>" using read_field_frame [OF f] by blast
  show ?thesis using assms(1) k dd_inv_sizes [OF assms(1)] unfolding d' d1 by (auto simp: dd_inv_def)
qed

lemma length_wide_values [simp]: "length (wide_values n k p) = n"
  by (induction n arbitrary: p) simp_all

lemma set_mini_block_inv:
  assumes "dd_inv data d" "dd_current_mini_block d < unat (dd_mini_blocks d)" "length vs \<le> 1024" "pos \<le> length data"
  shows "dd_inv data (set_mini_block d vs pos)"
  using assms by (auto simp: dd_inv_def set_mini_block_def)

lemma unpack_inv:
  assumes "unpack_kernels ds" "dd_inv data d" "dd_current_mini_block d < unat (dd_mini_blocks d)"
    "unpack_mini_block ds d = Inr d'"
  shows "dd_inv data d'"
proof -
  define n where "n = unat (dd_block_size d) div unat (dd_mini_blocks d)"
  have n: "n \<le> 1024" unfolding n_def using dd_inv_sizes(3) [OF assms(2)] by (meson div_le_dividend le_trans)
  have data: "dd_data d = data" "dd_pos d \<le> length data" using assms(2) by (simp_all add: dd_inv_def)
  have "length (fst (carquet_bitunpack_32 ds (drop (dd_pos d) data) n w)) = n"
    if "w \<le> 32" "dd_pos d + (n * w + 7) div 8 \<le> length data" for w
    using unpack_kernels.bitunpack_32_spec [OF assms(1) that(1), of n "drop (dd_pos d) data"] that(2)
    by (simp add: carquet_packed_size_def)
  then show ?thesis
    using assms(4) set_mini_block_inv [OF assms(2,3)] n data
    unfolding unpack_mini_block_def Let_def n_def [symmetric] by (auto simp: not_less split: if_splits)
qed

lemma read_mini_block_inv:
  assumes "unpack_kernels ds" "dd_inv data d" "delta_decoder_read_mini_block ds d = Inr d'"
  shows "dd_inv data d' \<and> dd_mini_block_pos d' = 0"
proof -
  have z: "unpack_mini_block ds x = Inr y \<Longrightarrow> dd_mini_block_pos y = 0" for x y
    by (auto simp: unpack_mini_block_def set_mini_block_def Let_def split: if_splits)
  show ?thesis
  proof (cases "unat (dd_mini_blocks d) \<le> dd_current_mini_block d")
    case True
    then obtain d1 where d1: "delta_decoder_read_block d = Inr d1" "unpack_mini_block ds d1 = Inr d'"
      using assms(3) by (auto simp: delta_decoder_read_mini_block_def split: sum.splits)
    then show ?thesis using read_block_inv [OF assms(2) d1(1)] unpack_inv [OF assms(1) _ _ d1(2)] z by blast
  next
    case False
    then have "unpack_mini_block ds d = Inr d'" using assms(3) by (simp add: delta_decoder_read_mini_block_def)
    then show ?thesis using unpack_inv [OF assms(1,2)] False z by auto
  qed
qed

lemma delta_reach_inv:
  assumes "unpack_kernels ds" "delta_reach ds data d"
  shows "dd_inv data d"
  using assms(2)
proof (induction rule: delta_reach.induct)
  case (start d)
  then show ?case by (rule init_inv)
next
  case (first d)
  then show ?case using init_inv [of data d] by (simp add: dd_inv_def)
next
  case (round d d' k)
  have "dd_inv data d'"
  proof (cases "dd_values_in_mini_block d \<le> dd_mini_block_pos d")
    case True
    then show ?thesis using read_mini_block_inv [OF assms(1) round.IH] round.hyps(2) by (simp add: refill_def)
  next
    case False
    then show ?thesis using round by (simp add: refill_def)
  qed
  then show ?case by (simp add: dd_inv_def)
qed

text \<open>A successful decode returns as many values as asked for and consumes no more than the input.\<close>

lemma delta_values_within:
  assumes "unpack_kernels ds"
  shows "delta_reach ds data d \<Longrightarrow> delta_values ds n d = Inr (vs, d') \<Longrightarrow> length vs = n \<and> delta_reach ds data d'"
proof (induction n arbitrary: d vs)
  case (Suc n)
  from Suc.prems(2) obtain e ws where e: "refill ds d = Inr e"
    "delta_values ds n (e\<lparr>dd_mini_block_pos := dd_mini_block_pos e + 1, dd_values_decoded := dd_values_decoded e + 1\<rparr>) = Inr (ws, d')"
    "length vs = Suc (length ws)"
    by (auto simp: refill_def Let_def split: sum.splits)
  then show ?case using Suc.IH [OF delta_reach.round [OF Suc.prems(1) e(1)] e(2)] by simp
qed simp

lemma delta_decode_int32_within:
  assumes "unpack_kernels ds" "simd_kernels t" "carquet_delta_decode_int32 ds t data n = Inr (vs, k)"
  shows "length vs = n \<and> k \<le> length data"
proof -
  obtain d where d: "delta_decoder_init data = Inr d"
    using assms(3) by (auto simp: carquet_delta_decode_int32_def split: sum.splits)
  have w: "dd_inv data x \<Longrightarrow> dd_pos x \<le> length data" for x by (simp add: dd_inv_def)
  show ?thesis
  proof (cases n)
    case 0
    then show ?thesis using assms(3) d w [OF init_inv [OF d]] by (simp add: carquet_delta_decode_int32_def)
  next
    case (Suc m)
    from assms(3) obtain deltas e where e: "delta_values ds m (d\<lparr>dd_values_decoded := 1\<rparr>) = Inr (deltas, e)"
      "k = dd_pos e" "length vs = Suc (length (prefix_sum_i32 t (map ucast deltas) (ucast (dd_first_value d))))"
      by (auto simp: carquet_delta_decode_int32_def Suc d Let_def split: sum.splits)
    have "delta_reach ds data (d\<lparr>dd_values_decoded := 1\<rparr>)" by (rule delta_reach.first [OF d])
    from delta_values_within [OF assms(1) this e(1)] have "length deltas = m" "delta_reach ds data e" by auto
    then show ?thesis
      using e(2,3) w [OF delta_reach_inv [OF assms(1)]] simd_kernels.prefix_sum_i32 [OF assms(2)] Suc
      by (simp add: scalar_prefix_sum_i32_def length_prefix_sum_loop)
  qed
qed

text \<open>
  C19: the decoder never leaves its buffers. Every state the decoding loop can reach on any input keeps the
  position inside the input, the announced shape within the limits and the buffers at their sizes; in every round
  the value taken is inside the 1024-entry buffer and the width read is inside the 32 widths.
\<close>

theorem delta_decoder_invariant:
  assumes "unpack_kernels ds" "delta_reach ds data d" "refill ds d = Inr d'"
  shows "dd_inv data d \<and> dd_inv data d' \<and> dd_mini_block_pos d' < length (dd_mini_block_values d') \<and>
    dd_current_mini_block d' \<le> length (dd_bit_widths d')"
proof -
  have i: "dd_inv data d" using delta_reach_inv [OF assms(1,2)] .
  have "dd_inv data d' \<and> dd_mini_block_pos d' < 1024"
  proof (cases "dd_values_in_mini_block d \<le> dd_mini_block_pos d")
    case True
    then show ?thesis using read_mini_block_inv [OF assms(1) i] assms(3) by (simp add: refill_def)
  next
    case False
    then show ?thesis using i assms(3) by (auto simp: refill_def dd_inv_def)
  qed
  moreover from this have "unat (dd_mini_blocks d') \<le> 32" using dd_inv_sizes(2) by blast
  ultimately show ?thesis using i by (auto simp: dd_inv_def)
qed

theorem delta_decoder_invariant_witness:
  "\<exists>d d'. delta_decoder_init [0x80, 1, 4, 3, 14, 3, 2, 0, 0, 0, 12, 0, 0, 0, 0, 0, 0, 0] = Inr d \<and>
    refill scalar_dispatch d = Inr d' \<and> dd_pos d' = 18 \<and> dd_mini_block_pos d' < length (dd_mini_block_values d')"
proof -
  let ?data = "[0x80, 1, 4, 3, 14, 3, 2, 0, 0, 0, 12, 0, 0, 0, 0, 0, 0, 0] :: bytes"
  have "case delta_decoder_init ?data of Inl _ \<Rightarrow> False
    | Inr d \<Rightarrow> (case refill scalar_dispatch d of Inl _ \<Rightarrow> False | Inr d' \<Rightarrow> dd_pos d' = 18)" by code_simp
  then obtain d d' where d: "delta_decoder_init ?data = Inr d" "refill scalar_dispatch d = Inr d'" "dd_pos d' = 18"
    by (auto split: sum.splits)
  from delta_decoder_invariant [OF scalar.unpack_kernels_axioms delta_reach.start [OF d(1)] d(2)] d
  show ?thesis by blast
qed

end
