(* ===== verification/Byte_Stream_Split.thy ===== *)
theory Byte_Stream_Split
  imports Kernels Status
begin

text \<open>
  \<^verbatim>\<open>encoding/byte_stream_split.c\<close>: the bytes of the values are regrouped into one stream
  per byte position. Pointer arguments are options (\<open>None\<close> is \<^verbatim>\<open>NULL\<close>), an
  array argument is its bytes and its length is the capacity; the results are the status and
  the arrays after the call. The required size is a 64-bit product.
\<close>

section \<open>Definitions\<close>

definition loop_count :: "i64 \<Rightarrow> nat" where
  "loop_count count = nat (sint count)"

text \<open>
  The cache-tiled decoder: \<open>gather_tile\<close> copies \<open>n\<close> bytes from each of the \<open>w\<close> streams, and
  each tile is decoded into the values from \<open>offset\<close> on.
\<close>

definition gather_tile :: "nat \<Rightarrow> bytes \<Rightarrow> nat \<Rightarrow> nat \<Rightarrow> nat \<Rightarrow> bytes" where
  "gather_tile w data count offset n = concat (map (\<lambda>s. take n (drop (s * count + offset) data)) [0..<w])"

function decode_tiles ::
    "(bytes \<Rightarrow> nat \<Rightarrow> bytes \<Rightarrow> bytes) \<Rightarrow> nat \<Rightarrow> nat \<Rightarrow> bytes \<Rightarrow> nat \<Rightarrow> nat \<Rightarrow> bytes \<Rightarrow> bytes" where
  "decode_tiles decode w tile data count offset vals =
     (if offset < count \<and> 0 < tile
      then let n = (if tile < count - offset then tile else count - offset)
           in decode_tiles decode w tile data count (offset + n)
                (take (w * offset) vals @
                 decode (gather_tile w data count offset n) n (drop (w * offset) vals))
      else vals)"
  by pat_completeness auto
termination
  by (relation "measure (\<lambda>(decode, w, tile, data, count, offset, vals). count - offset)") auto

declare decode_tiles.simps [simp del]

definition BSS_TILE_FLOAT :: nat where
  "BSS_TILE_FLOAT = 65536"

definition BSS_TILE_DOUBLE :: nat where
  "BSS_TILE_DOUBLE = 32768"

definition carquet_bss_decode_float_tiled :: "carquet_simd_dispatch \<Rightarrow> bytes \<Rightarrow> nat \<Rightarrow> bytes \<Rightarrow> bytes" where
  "carquet_bss_decode_float_tiled t data count vals =
     (if count \<le> BSS_TILE_FLOAT then byte_split_decode_float t data count vals
      else decode_tiles (byte_split_decode_float t) 4 BSS_TILE_FLOAT data count 0 vals)"

definition carquet_bss_decode_double_tiled :: "carquet_simd_dispatch \<Rightarrow> bytes \<Rightarrow> nat \<Rightarrow> bytes \<Rightarrow> bytes" where
  "carquet_bss_decode_double_tiled t data count vals =
     (if count \<le> BSS_TILE_DOUBLE then byte_split_decode_double t data count vals
      else decode_tiles (byte_split_decode_double t) 8 BSS_TILE_DOUBLE data count 0 vals)"

text \<open>The encoders return the status, the output array and \<^verbatim>\<open>*bytes_written\<close>.\<close>

type_synonym bss_encoded = "carquet_status \<times> bytes option \<times> u64 option"

definition carquet_byte_stream_split_encode_float ::
    "carquet_simd_dispatch \<Rightarrow> bytes option \<Rightarrow> i64 \<Rightarrow> bytes option \<Rightarrow> u64 option \<Rightarrow> bss_encoded" where
  "carquet_byte_stream_split_encode_float t vals count out written =
     (case (vals, out, written) of
        (Some v, Some o', Some w) \<Rightarrow>
          let required_size = count * 4 in
          if word_of_nat (length o') < required_size then (CARQUET_ERROR_ENCODE, out, written)
          else (CARQUET_OK, Some (byte_split_encode_float t v (loop_count count) o'), Some required_size)
      | _ \<Rightarrow> (CARQUET_ERROR_INVALID_ARGUMENT, out, written))"

definition carquet_byte_stream_split_encode_double ::
    "carquet_simd_dispatch \<Rightarrow> bytes option \<Rightarrow> i64 \<Rightarrow> bytes option \<Rightarrow> u64 option \<Rightarrow> bss_encoded" where
  "carquet_byte_stream_split_encode_double t vals count out written =
     (case (vals, out, written) of
        (Some v, Some o', Some w) \<Rightarrow>
          let required_size = count * 8 in
          if word_of_nat (length o') < required_size then (CARQUET_ERROR_ENCODE, out, written)
          else (CARQUET_OK, Some (byte_split_encode_double t v (loop_count count) o'), Some required_size)
      | _ \<Rightarrow> (CARQUET_ERROR_INVALID_ARGUMENT, out, written))"

definition carquet_byte_stream_split_decode_float ::
    "carquet_simd_dispatch \<Rightarrow> bytes option \<Rightarrow> bytes option \<Rightarrow> i64 \<Rightarrow> carquet_status \<times> bytes option" where
  "carquet_byte_stream_split_decode_float t data vals count =
     (case (data, vals) of
        (Some d, Some v) \<Rightarrow>
          let required_size = count * 4 in
          if word_of_nat (length d) < required_size then (CARQUET_ERROR_DECODE, vals)
          else (CARQUET_OK, Some (carquet_bss_decode_float_tiled t d (loop_count count) v))
      | _ \<Rightarrow> (CARQUET_ERROR_INVALID_ARGUMENT, vals))"

definition carquet_byte_stream_split_decode_double ::
    "carquet_simd_dispatch \<Rightarrow> bytes option \<Rightarrow> bytes option \<Rightarrow> i64 \<Rightarrow> carquet_status \<times> bytes option" where
  "carquet_byte_stream_split_decode_double t data vals count =
     (case (data, vals) of
        (Some d, Some v) \<Rightarrow>
          let required_size = count * 8 in
          if word_of_nat (length d) < required_size then (CARQUET_ERROR_DECODE, vals)
          else (CARQUET_OK, Some (carquet_bss_decode_double_tiled t d (loop_count count) v))
      | _ \<Rightarrow> (CARQUET_ERROR_INVALID_ARGUMENT, vals))"

text \<open>The generic encoder transposes with the byte position in the outer loop.\<close>

definition transpose_loop :: "nat \<Rightarrow> bytes \<Rightarrow> nat \<Rightarrow> bytes \<Rightarrow> bytes" where
  "transpose_loop type_length vals count out =
     fold (\<lambda>b out. fold (\<lambda>i out. out[b * count + i := vals ! (i * type_length + b)]) [0..<count] out)
       [0..<type_length] out"

definition carquet_byte_stream_split_encode ::
    "carquet_simd_dispatch \<Rightarrow> bytes option \<Rightarrow> i64 \<Rightarrow> i32 \<Rightarrow> bytes option \<Rightarrow> u64 option \<Rightarrow> bss_encoded" where
  "carquet_byte_stream_split_encode t vals count type_length out written =
     (case (vals, out, written) of
        (Some v, Some o', Some w) \<Rightarrow>
          if sint type_length \<le> 0 then (CARQUET_ERROR_INVALID_ARGUMENT, out, written)
          else
            let required_size = count * scast type_length; n = loop_count count in
            if word_of_nat (length o') < required_size then (CARQUET_ERROR_ENCODE, out, written)
            else if type_length = 4 then (CARQUET_OK, Some (byte_split_encode_float t v n o'), Some required_size)
            else if type_length = 8 then (CARQUET_OK, Some (byte_split_encode_double t v n o'), Some required_size)
            else (CARQUET_OK, Some (transpose_loop (nat (sint type_length)) v n o'), Some required_size)
      | _ \<Rightarrow> (CARQUET_ERROR_INVALID_ARGUMENT, out, written))"

definition carquet_byte_stream_split_decode ::
    "carquet_simd_dispatch \<Rightarrow> bytes option \<Rightarrow> i32 \<Rightarrow> bytes option \<Rightarrow> i64 \<Rightarrow> carquet_status \<times> bytes option" where
  "carquet_byte_stream_split_decode t data type_length vals count =
     (case (data, vals) of
        (Some d, Some v) \<Rightarrow>
          if sint type_length \<le> 0 then (CARQUET_ERROR_INVALID_ARGUMENT, vals)
          else
            let required_size = count * scast type_length; n = loop_count count in
            if word_of_nat (length d) < required_size then (CARQUET_ERROR_DECODE, vals)
            else if type_length = 4 then (CARQUET_OK, Some (carquet_bss_decode_float_tiled t d n v))
            else if type_length = 8 then (CARQUET_OK, Some (carquet_bss_decode_double_tiled t d n v))
            else (CARQUET_OK, Some (byte_split_decode (nat (sint type_length)) d n v))
      | _ \<Rightarrow> (CARQUET_ERROR_INVALID_ARGUMENT, vals))"

section \<open>Transposition\<close>

text \<open>Nested loops of assignments to distinct positions.\<close>

lemma nested_fold:
  "fold (\<lambda>i. fold (h i) (ys i)) xs = fold (\<lambda>(i, b). h i b) (concat (map (\<lambda>i. map (Pair i) (ys i)) xs))"
  by (induction xs) (simp_all add: fold_map comp_def)

lemma fold_assign:
  assumes "inj_on f (set ks)" "\<forall>k \<in> set ks. f k < length xs"
  shows "length (fold (\<lambda>k xs. xs[f k := g k]) ks xs) = length xs \<and>
    (\<forall>k \<in> set ks. fold (\<lambda>k xs. xs[f k := g k]) ks xs ! f k = g k) \<and>
    (\<forall>j. j \<notin> f ` set ks \<longrightarrow> fold (\<lambda>k xs. xs[f k := g k]) ks xs ! j = xs ! j)"
  using assms
proof (induction ks rule: rev_induct)
  case (snoc k ks)
  let ?ys = "fold (\<lambda>k xs. xs[f k := g k]) ks xs"
  have IH: "length ?ys = length xs" "\<forall>k \<in> set ks. ?ys ! f k = g k" "\<forall>j. j \<notin> f ` set ks \<longrightarrow> ?ys ! j = xs ! j"
    using snoc by (auto simp: inj_on_def)
  have "?ys[f k := g k] ! f k' = g k'" if "k' \<in> set (ks @ [k])" for k'
  proof (cases "f k' = f k")
    case True
    then have "k' = k" using snoc.prems(1) that by (auto simp: inj_on_def)
    then show ?thesis using snoc.prems(2) IH(1) by simp
  next
    case False
    then have "k' \<in> set ks" using that by auto
    then show ?thesis using False IH(2) by simp
  qed
  then show ?case using IH by (simp add: nth_list_update)
qed simp

lemma mixed_radix:
  fixes i b w :: nat
  assumes "b < w"
  shows "(i * w + b) div w = i" "(i * w + b) mod w = b"
  using assms by simp_all

lemma stream_index:
  fixes b i n w :: nat
  assumes "b < w" "i < n"
  shows "b * n + i < w * n"
proof -
  have "b * n + i < Suc b * n" using assms(2) by simp
  also have "\<dots> \<le> w * n" using assms(1) by (intro mult_le_mono1) simp
  finally show ?thesis .
qed

lemma loops_assign:
  assumes "inj_on (\<lambda>(i, b). f i b) (set xs \<times> set ys)" "\<forall>i \<in> set xs. \<forall>b \<in> set ys. f i b < length out"
    "out' = fold (\<lambda>i out. fold (\<lambda>b out. out[f i b := g i b]) ys out) xs out"
  shows "length out' = length out \<and> (\<forall>i \<in> set xs. \<forall>b \<in> set ys. out' ! f i b = g i b) \<and>
    (\<forall>j. (\<forall>i \<in> set xs. \<forall>b \<in> set ys. j \<noteq> f i b) \<longrightarrow> out' ! j = out ! j)"
proof -
  let ?ks = "concat (map (\<lambda>i. map (Pair i) ys) xs)"
  have s: "set ?ks = set xs \<times> set ys" by auto
  have e: "out' = fold (\<lambda>k out. out[(\<lambda>(i, b). f i b) k := (\<lambda>(i, b). g i b) k]) ?ks out"
    unfolding assms(3) nested_fold by (simp add: case_prod_unfold)
  have "inj_on (\<lambda>(i, b). f i b) (set ?ks)" "\<forall>k \<in> set ?ks. (\<lambda>(i, b). f i b) k < length out"
    unfolding s using assms(1,2) by auto
  from fold_assign [OF this, of "\<lambda>(i, b). g i b"] show ?thesis
    unfolding e [symmetric] s by (auto simp: image_iff)
qed

lemma grid_loops:
  assumes "\<And>i b i' b'. i < m \<Longrightarrow> b < w \<Longrightarrow> i' < m \<Longrightarrow> b' < w \<Longrightarrow> f i b = f i' b' \<Longrightarrow> i = i' \<and> b = b'"
    "\<And>i b. i < m \<Longrightarrow> b < w \<Longrightarrow> f i b < k" "k \<le> length out"
    "out' = fold (\<lambda>i out. fold (\<lambda>b out. out[f i b := g i b]) [0..<w] out) [0..<m] out"
  shows "length out' = length out \<and> (\<forall>i < m. \<forall>b < w. out' ! f i b = g i b) \<and> drop k out' = drop k out"
proof -
  have "inj_on (\<lambda>(i, b). f i b) (set [0..<m] \<times> set [0..<w])"
    using assms(1) by (fastforce simp: inj_on_def)
  moreover have "\<forall>i \<in> set [0..<m]. \<forall>b \<in> set [0..<w]. f i b < length out"
    using assms(2,3) by (fastforce intro: less_le_trans)
  ultimately have r: "length out' = length out" "\<forall>i < m. \<forall>b < w. out' ! f i b = g i b"
    "\<And>j. (\<forall>i < m. \<forall>b < w. j \<noteq> f i b) \<Longrightarrow> out' ! j = out ! j"
    using loops_assign [of f "[0..<m]" "[0..<w]" out out' g] assms(4) by auto
  have "drop k out' = drop k out"
  proof (rule nth_equalityI)
    fix j assume "j < length (drop k out')"
    moreover have "\<forall>i < m. \<forall>b < w. k + j \<noteq> f i b" using assms(2) by (metis not_add_less1)
    ultimately show "drop k out' ! j = drop k out ! j" using r(1,3) assms(3) by simp
  qed (simp add: r(1))
  then show ?thesis using r by blast
qed

lemma radix_inj:
  fixes i b i' b' w :: nat
  assumes "b < w" "b' < w" "i * w + b = i' * w + b'"
  shows "i = i' \<and> b = b'"
  using assms mixed_radix by metis

text \<open>\<open>split_streams w n src out\<close>: stream \<open>b\<close> of \<open>out\<close> holds byte \<open>b\<close> of every value of \<open>src\<close>.\<close>

definition split_streams :: "nat \<Rightarrow> nat \<Rightarrow> bytes \<Rightarrow> bytes \<Rightarrow> bool" where
  "split_streams w n src out \<longleftrightarrow> (\<forall>i < n. \<forall>b < w. out ! (b * n + i) = src ! (i * w + b))"

lemma byte_split_encode_spec:
  assumes "w * n \<le> length out"
  shows "length (byte_split_encode w src n out) = length out \<and>
    split_streams w n src (byte_split_encode w src n out) \<and>
    drop (w * n) (byte_split_encode w src n out) = drop (w * n) out"
  unfolding split_streams_def
proof (rule grid_loops [OF _ _ assms byte_split_encode_def])
  fix i b i' b' assume "i < n" "b < w" "i' < n" "b' < w" "b * n + i = b' * n + i'"
  then show "i = i' \<and> b = b'" using radix_inj [of i n i' b b'] by simp
qed (rule stream_index)

lemma transpose_loop_spec:
  assumes "w * n \<le> length out"
  shows "length (transpose_loop w src n out) = length out \<and>
    split_streams w n src (transpose_loop w src n out) \<and>
    drop (w * n) (transpose_loop w src n out) = drop (w * n) out"
proof -
  have "length (transpose_loop w src n out) = length out \<and>
    (\<forall>b < w. \<forall>i < n. transpose_loop w src n out ! (b * n + i) = src ! (i * w + b)) \<and>
    drop (w * n) (transpose_loop w src n out) = drop (w * n) out"
  proof (rule grid_loops [OF _ _ assms transpose_loop_def])
    fix b i b' i' assume "b < w" "i < n" "b' < w" "i' < n" "b * n + i = b' * n + i'"
    then show "b = b' \<and> i = i'" using radix_inj [of i n i' b b'] by simp
  qed (rule stream_index)
  then show ?thesis unfolding split_streams_def by blast
qed

lemma byte_split_decode_spec:
  assumes "w * n \<le> length dst"
  shows "length (byte_split_decode w data n dst) = length dst \<and>
    split_streams w n (byte_split_decode w data n dst) data \<and>
    drop (w * n) (byte_split_decode w data n dst) = drop (w * n) dst"
proof -
  have "i * w + b < w * n" if "i < n" "b < w" for i b
    using stream_index [OF that] by (simp add: mult.commute)
  then have "length (byte_split_decode w data n dst) = length dst \<and>
    (\<forall>i < n. \<forall>b < w. byte_split_decode w data n dst ! (i * w + b) = data ! (b * n + i)) \<and>
    drop (w * n) (byte_split_decode w data n dst) = drop (w * n) dst"
    using grid_loops [OF _ _ assms byte_split_decode_def] radix_inj [of _ w] by blast
  then show ?thesis unfolding split_streams_def by auto
qed

lemma split_streams_unique:
  assumes "split_streams w n x d" "split_streams w n y d" "w * n \<le> length x" "w * n \<le> length y"
  shows "take (w * n) x = take (w * n) y"
proof (rule nth_equalityI)
  fix j assume "j < length (take (w * n) x)"
  then have j: "j < w * n" using assms(3) by simp
  then have "0 < w" by (cases w) auto
  then have "j mod w < w" "j div w < n" "j = j div w * w + j mod w"
    using j by (simp_all add: less_mult_imp_div_less mult.commute)
  then have "x ! j = y ! j" using assms(1,2) unfolding split_streams_def by metis
  then show "take (w * n) x ! j = take (w * n) y ! j" using j by simp
qed (use assms(3,4) in simp)


subsection \<open>Tiles\<close>

lemma length_gather_tile:
  assumes "offset + m \<le> n" "w * n \<le> length data"
  shows "length (gather_tile w data n offset m) = w * m"
  using assms
proof (induction w)
  case (Suc w)
  have "length (gather_tile (Suc w) data n offset m) =
      length (gather_tile w data n offset m) + length (take m (drop (w * n + offset) data))"
    by (simp add: gather_tile_def)
  then show ?case using Suc by (simp add: gather_tile_def)
qed (simp add: gather_tile_def)

lemma nth_gather_tile:
  assumes "offset + m \<le> n" "w * n \<le> length data" "b < w" "i < m"
  shows "gather_tile w data n offset m ! (b * m + i) = data ! (b * n + offset + i)"
  using assms
proof (induction w)
  case (Suc w)
  have e: "gather_tile (Suc w) data n offset m =
      gather_tile w data n offset m @ take m (drop (w * n + offset) data)"
    by (simp add: gather_tile_def)
  have l: "length (gather_tile w data n offset m) = w * m"
    using length_gather_tile [of offset m n w data] Suc.prems by simp
  show ?case
  proof (cases "b = w")
    case True
    then show ?thesis using Suc.prems l by (simp add: e nth_append)
  next
    case False
    then have b: "b < w" using Suc.prems by simp
    then have "b * m + i < w * m" using stream_index Suc.prems by blast
    then show ?thesis using Suc b l by (simp add: e nth_append)
  qed
qed simp

lemma decode_tiles_spec:
  assumes decode: "\<And>d k v. w * k \<le> length d \<Longrightarrow> w * k \<le> length v \<Longrightarrow> decode d k v = byte_split_decode w d k v"
    and tile: "0 < tile"
  shows "offset \<le> n \<Longrightarrow> w * n \<le> length data \<Longrightarrow> w * n \<le> length vals \<Longrightarrow>
    (\<forall>i < offset. \<forall>b < w. vals ! (i * w + b) = data ! (b * n + i)) \<Longrightarrow>
    vals' = decode_tiles decode w tile data n offset vals \<Longrightarrow>
    length vals' = length vals \<and> split_streams w n vals' data \<and> drop (w * n) vals' = drop (w * n) vals"
proof (induction "n - offset" arbitrary: offset vals rule: less_induct)
  case less
  show ?case
  proof (cases "offset < n")
    case False
    then show ?thesis
      using less.prems by (simp add: decode_tiles.simps [of decode w tile] split_streams_def)
  next
    case True
    define m where "m = (if tile < n - offset then tile else n - offset)"
    have m: "0 < m" "offset + m \<le> n" using True tile by (auto simp: m_def)
    let ?g = "gather_tile w data n offset m"
    define v where "v = take (w * offset) vals @ decode ?g m (drop (w * offset) vals)"
    have room: "w * offset + w * m \<le> length vals"
      using mult_le_mono2 [OF m(2), of w] less.prems(3) by (simp add: distrib_left)
    have lg: "length ?g = w * m" using length_gather_tile [OF m(2) less.prems(2)] .
    have "decode ?g m (drop (w * offset) vals) = byte_split_decode w ?g m (drop (w * offset) vals)"
      using decode lg room by simp
    then have d: "length (decode ?g m (drop (w * offset) vals)) = length vals - w * offset"
      "split_streams w m (decode ?g m (drop (w * offset) vals)) ?g"
      "drop (w * m) (decode ?g m (drop (w * offset) vals)) = drop (w * m) (drop (w * offset) vals)"
      using byte_split_decode_spec [of w m "drop (w * offset) vals" ?g] room by simp_all
    have lv: "length v = length vals" using d(1) room by (simp add: v_def)
    have filled: "\<forall>i < offset + m. \<forall>b < w. v ! (i * w + b) = data ! (b * n + i)"
    proof (intro allI impI)
      fix i b assume i: "i < offset + m" and b: "b < w"
      show "v ! (i * w + b) = data ! (b * n + i)"
      proof (cases "i < offset")
        case True
        then have "i * w + b < w * offset" using stream_index [OF True b] by (simp add: mult.commute)
        then show ?thesis using less.prems(4) True b room by (simp add: v_def nth_append)
      next
        case False
        then obtain k where k: "i = offset + k" "k < m" using i by (metis add_less_cancel_left le_Suc_ex not_le)
        have "i * w + b = w * offset + (k * w + b)" by (simp add: k(1) algebra_simps)
        then have "v ! (i * w + b) = decode ?g m (drop (w * offset) vals) ! (k * w + b)"
          using room by (simp only: v_def nth_append) simp
        also have "\<dots> = ?g ! (b * m + k)" using d(2) k(2) b by (simp add: split_streams_def)
        also have "\<dots> = data ! (b * n + offset + k)"
          using nth_gather_tile [OF m(2) less.prems(2) b k(2)] .
        finally show ?thesis by (simp add: k(1) add.assoc)
      qed
    qed
    have "drop (w * n) v = drop (w * n) vals"
    proof -
      have "drop (w * offset + w * m) v = drop (w * offset + w * m) vals"
        using d(3) room by (simp add: v_def add.commute)
      then have "drop (w * n - (w * offset + w * m)) (drop (w * offset + w * m) v) =
          drop (w * n - (w * offset + w * m)) (drop (w * offset + w * m) vals)" by simp
      then show ?thesis using mult_le_mono2 [OF m(2), of w] by (simp add: distrib_left)
    qed
    moreover have "vals' = decode_tiles decode w tile data n (offset + m) v"
      using less.prems(5) True tile by (simp add: decode_tiles.simps [of decode w tile data n offset] m_def v_def Let_def)
    ultimately show ?thesis
      using less.hyps [of "offset + m" v] m less.prems(2,3) lv filled by simp
  qed
qed


lemma tiled_spec:
  assumes "simd_kernels t"
  shows "4 * n \<le> length data \<Longrightarrow> 4 * n \<le> length vals \<Longrightarrow>
      carquet_bss_decode_float_tiled t data n vals = byte_split_decode 4 data n vals"
    and "8 * n \<le> length data \<Longrightarrow> 8 * n \<le> length vals \<Longrightarrow>
      carquet_bss_decode_double_tiled t data n vals = byte_split_decode 8 data n vals"
proof -
  have tiles: "decode_tiles decode w tile data n 0 vals = byte_split_decode w data n vals"
    if "w * n \<le> length data" "w * n \<le> length vals" "0 < tile"
      "\<And>d k v. w * k \<le> length d \<Longrightarrow> w * k \<le> length v \<Longrightarrow> decode d k v = byte_split_decode w d k v"
    for w tile decode
  proof -
    let ?a = "decode_tiles decode w tile data n 0 vals" and ?b = "byte_split_decode w data n vals"
    have a: "length ?a = length vals" "split_streams w n ?a data" "drop (w * n) ?a = drop (w * n) vals"
      using decode_tiles_spec [of w decode tile 0 n data vals ?a] that by simp_all
    have b: "length ?b = length vals" "split_streams w n ?b data" "drop (w * n) ?b = drop (w * n) vals"
      using byte_split_decode_spec [OF that(2)] by simp_all
    have "take (w * n) ?a = take (w * n) ?b"
      using split_streams_unique [OF a(2) b(2)] a(1) b(1) that(2) by simp
    then show ?thesis by (metis a(3) b(3) append_take_drop_id)
  qed
  show "4 * n \<le> length data \<Longrightarrow> 4 * n \<le> length vals \<Longrightarrow>
      carquet_bss_decode_float_tiled t data n vals = byte_split_decode 4 data n vals"
    using tiles [of 4 BSS_TILE_FLOAT "byte_split_decode_float t"] simd_kernels.decode_float [OF assms]
    by (simp add: carquet_bss_decode_float_tiled_def scalar_byte_split_decode_float_def BSS_TILE_FLOAT_def)
  show "8 * n \<le> length data \<Longrightarrow> 8 * n \<le> length vals \<Longrightarrow>
      carquet_bss_decode_double_tiled t data n vals = byte_split_decode 8 data n vals"
    using tiles [of 8 BSS_TILE_DOUBLE "byte_split_decode_double t"] simd_kernels.decode_double [OF assms]
    by (simp add: carquet_bss_decode_double_tiled_def scalar_byte_split_decode_double_def BSS_TILE_DOUBLE_def)
qed

text \<open>
  Tiling does not change the result. For any count, also beyond one tile, the
  cache-tiled decoders store what the plain transposition stores.
\<close>

theorem bss_tiling_equivalent:
  assumes "simd_kernels t" "8 * n \<le> length data" "8 * n \<le> length vals"
  shows "carquet_bss_decode_float_tiled t data n vals = byte_split_decode 4 data n vals \<and>
    carquet_bss_decode_double_tiled t data n vals = byte_split_decode 8 data n vals"
  using tiled_spec [OF assms(1), of n data vals] assms(2,3) by simp

theorem bss_tiling_equivalent_witness:
  "carquet_bss_decode_float_tiled scalar_simd (replicate 560000 7) 70000 (replicate 560000 0) =
     byte_split_decode 4 (replicate 560000 7) 70000 (replicate 560000 0)"
  using bss_tiling_equivalent [OF scalar_table.simd_kernels_axioms, of 70000 "replicate 560000 7" "replicate 560000 0"]
  by simp

section \<open>Round trip\<close>

lemma required_size:
  fixes count :: i64 and len :: i32
  assumes "0 \<le> sint count" "0 \<le> sint len" "sint count * sint len < 2 ^ 63"
  shows "unat (count * scast len) = nat (sint count) * nat (sint len)"
proof -
  have "count * scast len = word_of_int (sint count) * word_of_int (sint len)"
    by simp
  also have "\<dots> = word_of_int (sint count * sint len)" by (rule of_int_mult [symmetric])
  finally have e: "count * scast len = word_of_int (sint count * sint len)" .
  have "uint (word_of_int x :: i64) = x" if "0 \<le> x" "x < 2 ^ 63" for x
    using that by (simp add: uint_word_of_int_eq take_bit_eq_mod)
  then have "uint (count * scast len) = sint count * sint len"
    unfolding e using assms by (metis mult_nonneg_nonneg)
  then show ?thesis using assms(1,2) by (simp add: unat_eq_nat_uint nat_mult_distrib)
qed

text \<open>
  C6: byte-stream-split round trip. For every positive type length and every count whose
  total size fits, encoding succeeds, reports the size, and decoding what it wrote
  returns the values, whichever of the float, double and generic paths the length selects
  and however many tiles the decoder uses.
\<close>

theorem bss_roundtrip:
  assumes "simd_kernels t" "0 < sint len" "0 \<le> sint count" "sint count * sint len < 2 ^ 63"
    "N = nat (sint count) * nat (sint len)"
    "length vals = N" "N \<le> length out" "length out < 2 ^ 64" "N \<le> length dst"
  shows "\<exists>enc dec. carquet_byte_stream_split_encode t (Some vals) count len (Some out) (Some written) =
      (CARQUET_OK, Some enc, Some (word_of_nat N)) \<and>
    carquet_byte_stream_split_decode t (Some enc) len (Some dst) count = (CARQUET_OK, Some dec) \<and>
    take N dec = vals"
proof -
  let ?n = "nat (sint count)" and ?w = "nat (sint len)"
  have r: "unat (count * scast len) = N" using required_size [OF assms(3) _ assms(4)] assms(2,5) by simp
  have N: "N = ?w * ?n" using assms(5) by (simp add: mult.commute)
  have w4: "len = 4 \<Longrightarrow> ?w = 4" "len = 8 \<Longrightarrow> ?w = 8" by simp_all
  define enc where "enc = (if len = 4 then byte_split_encode_float t vals ?n out
    else if len = 8 then byte_split_encode_double t vals ?n out else transpose_loop ?w vals ?n out)"
  have e: "length enc = length out" "split_streams ?w ?n vals enc"
    using byte_split_encode_spec [of ?w ?n out vals] transpose_loop_spec [of ?w ?n out vals] assms(6,7) N w4
      simd_kernels.encode_float [OF assms(1)] simd_kernels.encode_double [OF assms(1)]
    by (auto simp: enc_def scalar_byte_split_encode_float_def scalar_byte_split_encode_double_def)
  define dec where "dec = byte_split_decode ?w enc ?n dst"
  have d: "length dec = length dst" "split_streams ?w ?n dec enc"
    using byte_split_decode_spec [of ?w ?n dst enc] assms(9) N by (auto simp: dec_def)
  have dec_eq: "dec = (if len = 4 then carquet_bss_decode_float_tiled t enc ?n dst
    else if len = 8 then carquet_bss_decode_double_tiled t enc ?n dst else byte_split_decode ?w enc ?n dst)"
    using tiled_spec [OF assms(1)] w4 e(1) assms(7,9) N by (auto simp: dec_def)
  have size: "\<not> word_of_nat (length out) < count * scast len" "\<not> word_of_nat (length enc) < count * scast len"
    using r assms(7,8) e(1) by (simp_all add: word_less_nat_alt unat_of_nat)
  have "count * scast len = word_of_nat N" using r by (metis of_nat_unat ucast_id)
  moreover have "take N dec = vals"
    using split_streams_unique [OF d(2) e(2)] d(1) assms(6,9) N by simp
  moreover have "carquet_byte_stream_split_encode t (Some vals) count len (Some out) (Some written) =
      (CARQUET_OK, Some enc, Some (count * scast len))"
    using size(1) assms(2) by (simp add: carquet_byte_stream_split_encode_def Let_def loop_count_def enc_def)
  moreover have "carquet_byte_stream_split_decode t (Some enc) len (Some dst) count = (CARQUET_OK, Some dec)"
    using size(2) assms(2) unfolding dec_eq by (simp add: carquet_byte_stream_split_decode_def Let_def loop_count_def)
  ultimately show ?thesis by metis
qed

theorem bss_roundtrip_witness:
  "\<exists>enc dec. carquet_byte_stream_split_encode scalar_simd (Some [1, 2, 3, 4, 5, 6]) 2 3 (Some [0, 0, 0, 0, 0, 0]) (Some 0) =
      (CARQUET_OK, Some enc, Some (word_of_nat 6)) \<and>
    carquet_byte_stream_split_decode scalar_simd (Some enc) 3 (Some [0, 0, 0, 0, 0, 0]) 2 = (CARQUET_OK, Some dec) \<and>
    take 6 dec = [1, 2, 3, 4, 5, 6]"
  by (rule bss_roundtrip [OF scalar_table.simd_kernels_axioms]) simp_all

end
