(* ===== verification/Plain.thy ===== *)
theory Plain
  imports Byte_Stream_Split Buffer
begin

text \<open>
  \<^verbatim>\<open>encoding/plain.c\<close>: the PLAIN encoding of every physical type. A decoder returns
  \<open>None\<close> for -1, otherwise the bytes consumed and the elements stored. The input pointer is
  an option, \<open>output\<close> says whether the output pointer is not \<^verbatim>\<open>NULL\<close>. The model follows the
  little-endian build, where fixed-width values are copied as bytes.
\<close>

section \<open>Types\<close>

datatype carquet_physical_type =
    CARQUET_PHYSICAL_BOOLEAN
  | CARQUET_PHYSICAL_INT32
  | CARQUET_PHYSICAL_INT64
  | CARQUET_PHYSICAL_INT96
  | CARQUET_PHYSICAL_FLOAT
  | CARQUET_PHYSICAL_DOUBLE
  | CARQUET_PHYSICAL_BYTE_ARRAY
  | CARQUET_PHYSICAL_FIXED_LEN_BYTE_ARRAY

type_synonym carquet_int96 = "u32 \<times> u32 \<times> u32"
type_synonym 'a plain_decoded = "(u64 \<times> 'a) option"

section \<open>Decoding\<close>

text \<open>The elements of width \<open>k\<close> in the first bytes of the input.\<close>

definition plain_words :: "nat \<Rightarrow> (bytes \<Rightarrow> 'a) \<Rightarrow> bytes \<Rightarrow> nat \<Rightarrow> 'a list" where
  "plain_words k load input n = map (\<lambda>i. load (drop (k * i) input)) [0..<n]"

definition carquet_decode_plain_boolean ::
    "carquet_simd_dispatch \<Rightarrow> bytes option \<Rightarrow> bool \<Rightarrow> i64 \<Rightarrow> bytes plain_decoded" where
  "carquet_decode_plain_boolean t input out count =
     (case input of
        None \<Rightarrow> None
      | Some p \<Rightarrow>
          if \<not> out \<or> sint count < 0 then None
          else let bytes_needed = (count + 7) div 8 in
               if word_of_nat (length p) < bytes_needed then None
               else Some (bytes_needed, unpack_bools t p (loop_count count)))"

definition carquet_decode_plain_int32 :: "bytes option \<Rightarrow> bool \<Rightarrow> i64 \<Rightarrow> i32 list plain_decoded" where
  "carquet_decode_plain_int32 input out count =
     (case input of
        None \<Rightarrow> None
      | Some p \<Rightarrow>
          if \<not> out \<or> sint count < 0 then None
          else let bytes_needed = count * 4 in
               if word_of_nat (length p) < bytes_needed then None
               else Some (bytes_needed, plain_words 4 carquet_read_i32_le p (unat bytes_needed div 4)))"

definition carquet_decode_plain_int64 :: "bytes option \<Rightarrow> bool \<Rightarrow> i64 \<Rightarrow> i64 list plain_decoded" where
  "carquet_decode_plain_int64 input out count =
     (case input of
        None \<Rightarrow> None
      | Some p \<Rightarrow>
          if \<not> out \<or> sint count < 0 then None
          else let bytes_needed = count * 8 in
               if word_of_nat (length p) < bytes_needed then None
               else Some (bytes_needed, plain_words 8 carquet_read_i64_le p (unat bytes_needed div 8)))"

definition read_int96 :: "bytes \<Rightarrow> carquet_int96" where
  "read_int96 p = (carquet_read_u32_le p, carquet_read_u32_le (drop 4 p), carquet_read_u32_le (drop 8 p))"

definition carquet_decode_plain_int96 :: "bytes option \<Rightarrow> bool \<Rightarrow> i64 \<Rightarrow> carquet_int96 list plain_decoded" where
  "carquet_decode_plain_int96 input out count =
     (case input of
        None \<Rightarrow> None
      | Some p \<Rightarrow>
          if \<not> out \<or> sint count < 0 then None
          else let bytes_needed = count * 12 in
               if word_of_nat (length p) < bytes_needed then None
               else Some (bytes_needed, plain_words 12 read_int96 p (loop_count count)))"

definition carquet_decode_plain_float :: "bytes option \<Rightarrow> bool \<Rightarrow> i64 \<Rightarrow> u32 list plain_decoded" where
  "carquet_decode_plain_float input out count =
     (case input of
        None \<Rightarrow> None
      | Some p \<Rightarrow>
          if \<not> out \<or> sint count < 0 then None
          else let bytes_needed = count * 4 in
               if word_of_nat (length p) < bytes_needed then None
               else Some (bytes_needed, plain_words 4 carquet_read_f32_le p (unat bytes_needed div 4)))"

definition carquet_decode_plain_double :: "bytes option \<Rightarrow> bool \<Rightarrow> i64 \<Rightarrow> u64 list plain_decoded" where
  "carquet_decode_plain_double input out count =
     (case input of
        None \<Rightarrow> None
      | Some p \<Rightarrow>
          if \<not> out \<or> sint count < 0 then None
          else let bytes_needed = count * 8 in
               if word_of_nat (length p) < bytes_needed then None
               else Some (bytes_needed, plain_words 8 carquet_read_f64_le p (unat bytes_needed div 8)))"

text \<open>
  The loop over length-prefixed byte arrays. An element is the slice of the input that
  \<^verbatim>\<open>output[i]\<close> points to. Positions do not exceed the input size, which is below \<open>2\<^sup>6\<^sup>3\<close>.
\<close>

primrec byte_array_loop :: "nat \<Rightarrow> bytes \<Rightarrow> nat \<Rightarrow> (nat \<times> bytes list) option" where
  "byte_array_loop 0 input pos = Some (pos, [])"
| "byte_array_loop (Suc n) input pos =
     (if length input < pos + 4 then None
      else let len = carquet_read_i32_le (drop pos input); pos = pos + 4 in
           if sint len < 0 \<or> length input < pos + unat len then None
           else case byte_array_loop n input (pos + unat len) of
                  None \<Rightarrow> None
                | Some (end, vs) \<Rightarrow> Some (end, take (unat len) (drop pos input) # vs))"

definition carquet_decode_plain_byte_array :: "bytes option \<Rightarrow> bool \<Rightarrow> i64 \<Rightarrow> bytes list plain_decoded" where
  "carquet_decode_plain_byte_array input out count =
     (case input of
        None \<Rightarrow> None
      | Some p \<Rightarrow>
          if \<not> out \<or> sint count < 0 then None
          else map_option (\<lambda>(pos, vs). (word_of_nat pos, vs)) (byte_array_loop (loop_count count) p 0))"

definition carquet_decode_plain_fixed_byte_array ::
    "bytes option \<Rightarrow> bool \<Rightarrow> i64 \<Rightarrow> i32 \<Rightarrow> bytes plain_decoded" where
  "carquet_decode_plain_fixed_byte_array input out count fixed_len =
     (case input of
        None \<Rightarrow> None
      | Some p \<Rightarrow>
          if \<not> out \<or> sint count < 0 \<or> sint fixed_len \<le> 0 then None
          else let bytes_needed = count * scast fixed_len in
               if word_of_nat (length p) < bytes_needed then None
               else Some (bytes_needed, take (unat bytes_needed) p))"

datatype plain_values =
    PBoolean bytes
  | PInt32 "i32 list"
  | PInt64 "i64 list"
  | PInt96 "carquet_int96 list"
  | PFloat "u32 list"
  | PDouble "u64 list"
  | PByteArray "bytes list"
  | PFixed bytes

text \<open>A \<^verbatim>\<open>carquet_physical_type_t\<close> outside the enumeration is \<open>None\<close>.\<close>

definition carquet_decode_plain ::
    "carquet_simd_dispatch \<Rightarrow> bytes option \<Rightarrow> carquet_physical_type option \<Rightarrow> i32 \<Rightarrow> bool \<Rightarrow> i64 \<Rightarrow>
     plain_values plain_decoded" where
  "carquet_decode_plain t input type type_length out count =
     (case type of
        Some CARQUET_PHYSICAL_BOOLEAN \<Rightarrow>
          map_option (apsnd PBoolean) (carquet_decode_plain_boolean t input out count)
      | Some CARQUET_PHYSICAL_INT32 \<Rightarrow>
          map_option (apsnd PInt32) (carquet_decode_plain_int32 input out count)
      | Some CARQUET_PHYSICAL_INT64 \<Rightarrow>
          map_option (apsnd PInt64) (carquet_decode_plain_int64 input out count)
      | Some CARQUET_PHYSICAL_INT96 \<Rightarrow>
          map_option (apsnd PInt96) (carquet_decode_plain_int96 input out count)
      | Some CARQUET_PHYSICAL_FLOAT \<Rightarrow>
          map_option (apsnd PFloat) (carquet_decode_plain_float input out count)
      | Some CARQUET_PHYSICAL_DOUBLE \<Rightarrow>
          map_option (apsnd PDouble) (carquet_decode_plain_double input out count)
      | Some CARQUET_PHYSICAL_BYTE_ARRAY \<Rightarrow>
          map_option (apsnd PByteArray) (carquet_decode_plain_byte_array input out count)
      | Some CARQUET_PHYSICAL_FIXED_LEN_BYTE_ARRAY \<Rightarrow>
          map_option (apsnd PFixed) (carquet_decode_plain_fixed_byte_array input out count type_length)
      | None \<Rightarrow> None)"

section \<open>Encoding\<close>

text \<open>
  The loops of the encoders: the buffer operation for each element in turn, up to the first failure.
\<close>

primrec encode_loop ::
    "('a \<Rightarrow> carquet_buffer \<Rightarrow> carquet_buffer \<times> carquet_status) \<Rightarrow> 'a list \<Rightarrow> carquet_buffer \<Rightarrow>
     carquet_buffer \<times> carquet_status" where
  "encode_loop put [] buf = (buf, CARQUET_OK)"
| "encode_loop put (x # xs) buf =
     (case put x buf of (buf', status) \<Rightarrow>
        if status \<noteq> CARQUET_OK then (buf', status) else encode_loop put xs buf')"

definition carquet_encode_plain_boolean ::
    "carquet_simd_dispatch \<Rightarrow> allocator \<Rightarrow> bytes option \<Rightarrow> i64 \<Rightarrow> carquet_buffer \<Rightarrow>
     carquet_buffer \<times> carquet_status" where
  "carquet_encode_plain_boolean t al input count out =
     (case input of
        None \<Rightarrow> (out, CARQUET_ERROR_INVALID_ARGUMENT)
      | Some p \<Rightarrow>
          if sint count < 0 then (out, CARQUET_ERROR_INVALID_ARGUMENT)
          else let bytes_needed = (count + 7) div 8 in
               if bytes_needed = 0 then (out, CARQUET_OK)
               else case carquet_buffer_advance al out bytes_needed of
                      (b, None) \<Rightarrow> (b, CARQUET_ERROR_OUT_OF_MEMORY)
                    | (b, Some dest) \<Rightarrow>
                        (b\<lparr>buf_data := map_option (\<lambda>f. block_write
                             (block_fill f (unat dest) 0 (unat bytes_needed))
                             (unat dest) (pack_bools t (take (loop_count count) p))) (buf_data b)\<rparr>,
                         CARQUET_OK))"

definition carquet_encode_plain_int32 ::
    "allocator \<Rightarrow> i32 list option \<Rightarrow> i64 \<Rightarrow> carquet_buffer \<Rightarrow> carquet_buffer \<times> carquet_status" where
  "carquet_encode_plain_int32 al input count out =
     (case input of
        None \<Rightarrow> (out, CARQUET_ERROR_INVALID_ARGUMENT)
      | Some p \<Rightarrow>
          if sint count < 0 then (out, CARQUET_ERROR_INVALID_ARGUMENT)
          else let bytes_needed = count * 4 in
               carquet_buffer_append al out (take (unat bytes_needed) (concat (map carquet_write_i32_le p))))"

definition carquet_encode_plain_int64 ::
    "allocator \<Rightarrow> i64 list option \<Rightarrow> i64 \<Rightarrow> carquet_buffer \<Rightarrow> carquet_buffer \<times> carquet_status" where
  "carquet_encode_plain_int64 al input count out =
     (case input of
        None \<Rightarrow> (out, CARQUET_ERROR_INVALID_ARGUMENT)
      | Some p \<Rightarrow>
          if sint count < 0 then (out, CARQUET_ERROR_INVALID_ARGUMENT)
          else carquet_buffer_append al out (take (unat (count * 8)) (concat (map carquet_write_i64_le p))))"

definition put_int96 :: "allocator \<Rightarrow> carquet_int96 \<Rightarrow> carquet_buffer \<Rightarrow> carquet_buffer \<times> carquet_status" where
  "put_int96 al v buf =
     (case v of (v0, v1, v2) \<Rightarrow>
        encode_loop (\<lambda>w b. carquet_buffer_append_u32_le al b w) [v0, v1, v2] buf)"

definition carquet_encode_plain_int96 ::
    "allocator \<Rightarrow> carquet_int96 list option \<Rightarrow> i64 \<Rightarrow> carquet_buffer \<Rightarrow> carquet_buffer \<times> carquet_status" where
  "carquet_encode_plain_int96 al input count out =
     (case input of
        None \<Rightarrow> (out, CARQUET_ERROR_INVALID_ARGUMENT)
      | Some p \<Rightarrow>
          if sint count < 0 then (out, CARQUET_ERROR_INVALID_ARGUMENT)
          else encode_loop (put_int96 al) (take (loop_count count) p) out)"

definition carquet_encode_plain_float ::
    "allocator \<Rightarrow> u32 list option \<Rightarrow> i64 \<Rightarrow> carquet_buffer \<Rightarrow> carquet_buffer \<times> carquet_status" where
  "carquet_encode_plain_float al input count out =
     (case input of
        None \<Rightarrow> (out, CARQUET_ERROR_INVALID_ARGUMENT)
      | Some p \<Rightarrow>
          if sint count < 0 then (out, CARQUET_ERROR_INVALID_ARGUMENT)
          else carquet_buffer_append al out (take (unat (count * 4)) (concat (map carquet_write_f32_le p))))"

definition carquet_encode_plain_double ::
    "allocator \<Rightarrow> u64 list option \<Rightarrow> i64 \<Rightarrow> carquet_buffer \<Rightarrow> carquet_buffer \<times> carquet_status" where
  "carquet_encode_plain_double al input count out =
     (case input of
        None \<Rightarrow> (out, CARQUET_ERROR_INVALID_ARGUMENT)
      | Some p \<Rightarrow>
          if sint count < 0 then (out, CARQUET_ERROR_INVALID_ARGUMENT)
          else carquet_buffer_append al out (take (unat (count * 8)) (concat (map carquet_write_f64_le p))))"

text \<open>A byte array is its data pointer (\<open>None\<close> is \<^verbatim>\<open>NULL\<close>) and its signed length.\<close>

type_synonym carquet_byte_array = "bytes option \<times> i32"

definition put_byte_array ::
    "allocator \<Rightarrow> carquet_byte_array \<Rightarrow> carquet_buffer \<Rightarrow> carquet_buffer \<times> carquet_status" where
  "put_byte_array al v buf =
     (case v of (data, len) \<Rightarrow>
        case carquet_buffer_append_u32_le al buf len of (b, status) \<Rightarrow>
          if status \<noteq> CARQUET_OK then (b, status)
          else case data of
                 Some d \<Rightarrow> if 0 < sint len then carquet_buffer_append al b (take (unat len) d) else (b, CARQUET_OK)
               | None \<Rightarrow> (b, CARQUET_OK))"

definition carquet_encode_plain_byte_array ::
    "allocator \<Rightarrow> carquet_byte_array list option \<Rightarrow> i64 \<Rightarrow> carquet_buffer \<Rightarrow> carquet_buffer \<times> carquet_status" where
  "carquet_encode_plain_byte_array al input count out =
     (case input of
        None \<Rightarrow> (out, CARQUET_ERROR_INVALID_ARGUMENT)
      | Some p \<Rightarrow>
          if sint count < 0 then (out, CARQUET_ERROR_INVALID_ARGUMENT)
          else encode_loop (put_byte_array al) (take (loop_count count) p) out)"

definition carquet_encode_plain_fixed_byte_array ::
    "allocator \<Rightarrow> bytes option \<Rightarrow> i64 \<Rightarrow> i32 \<Rightarrow> carquet_buffer \<Rightarrow> carquet_buffer \<times> carquet_status" where
  "carquet_encode_plain_fixed_byte_array al input count fixed_len out =
     (case input of
        None \<Rightarrow> (out, CARQUET_ERROR_INVALID_ARGUMENT)
      | Some p \<Rightarrow>
          if sint count < 0 \<or> sint fixed_len \<le> 0 then (out, CARQUET_ERROR_INVALID_ARGUMENT)
          else carquet_buffer_append al out (take (unat (count * scast fixed_len)) p))"


section \<open>What the encoders append\<close>

text \<open>
  \<open>appends al buf res bs\<close>: a call from \<open>buf\<close> that reports success has added exactly \<open>bs\<close>,
  and it does report success when every allocation is granted and the bytes fit.
\<close>

definition appends :: "allocator \<Rightarrow> carquet_buffer \<Rightarrow> carquet_buffer \<times> carquet_status \<Rightarrow> bytes \<Rightarrow> bool" where
  "appends al buf res bs \<longleftrightarrow>
     (buffer_wf buf \<and> buf_owns_data buf \<longrightarrow>
      buffer_wf (fst res) \<and> buf_owns_data (fst res) \<and>
      (snd res = CARQUET_OK \<longrightarrow> buffer_contents (fst res) = buffer_contents buf @ bs) \<and>
      ((\<forall>n. alloc_grants al n) \<longrightarrow> length (buffer_contents buf) + length bs < 2 ^ 64 \<longrightarrow> snd res = CARQUET_OK))"

lemma appends_Nil: "appends al buf (buf, CARQUET_OK) []"
  by (simp add: appends_def)

lemma appends_append:
  assumes "length bs < 2 ^ 64"
  shows "appends al buf (carquet_buffer_append al buf bs) bs"
proof -
  obtain b st where a: "carquet_buffer_append al buf bs = (b, st)" by fastforce
  show ?thesis
    using carquet_buffer_append_refines [OF _ assms a] carquet_buffer_append_owns [of buf al bs]
      carquet_buffer_append_succeeds [of buf al bs] a
    by (auto simp: appends_def length_buffer_contents)
qed

lemma appends_seq:
  assumes "appends al buf (b, st) xs"
    "st = CARQUET_OK \<Longrightarrow> appends al b res ys" "st \<noteq> CARQUET_OK \<Longrightarrow> res = (b, st)"
  shows "appends al buf res (xs @ ys)"
proof (cases "st = CARQUET_OK")
  case True
  then show ?thesis using assms(1,2) by (auto simp: appends_def)
next
  case False
  then show ?thesis using assms(1,3) by (auto simp: appends_def)
qed

lemma encode_loop_appends:
  assumes "\<And>x b. x \<in> set xs \<Longrightarrow> appends al b (put x b) (f x)"
  shows "appends al buf (encode_loop put xs buf) (concat (map f xs))"
  using assms
proof (induction xs arbitrary: buf)
  case Nil
  then show ?case by (simp add: appends_Nil)
next
  case (Cons x xs)
  obtain b st where p: "put x buf = (b, st)" by fastforce
  have "appends al buf (encode_loop put (x # xs) buf) (f x @ concat (map f xs))"
  proof (rule appends_seq [of al buf b st])
    show "appends al buf (b, st) (f x)" using Cons.prems [of x buf] p by simp
    show "st = CARQUET_OK \<Longrightarrow> appends al b (encode_loop put (x # xs) buf) (concat (map f xs))"
      using Cons p by simp
  qed (simp add: p)
  then show ?case by simp
qed

lemma length_write_word [simp]:
  "length (carquet_write_u32_le v) = 4" "length (carquet_write_i32_le v) = 4" "length (carquet_write_f32_le v) = 4"
  "length (carquet_write_i64_le w) = 8" "length (carquet_write_f64_le w) = 8"
  by (simp_all add: byte_simps carquet_write_i32_le_def carquet_write_i64_le_def carquet_write_f32_le_def
      carquet_write_f64_le_def)

definition int96_bytes :: "carquet_int96 \<Rightarrow> bytes" where
  "int96_bytes v = (case v of (v0, v1, v2) \<Rightarrow>
     carquet_write_u32_le v0 @ carquet_write_u32_le v1 @ carquet_write_u32_le v2)"

lemma put_int96_appends: "appends al buf (put_int96 al v buf) (int96_bytes v)"
proof -
  obtain v0 v1 v2 where v: "v = (v0, v1, v2)" by (cases v)
  have "appends al b (carquet_buffer_append_u32_le al b w) (carquet_write_u32_le w)" for b w
    unfolding carquet_buffer_append_u32_le_def by (rule appends_append) simp
  from encode_loop_appends [of "[v0, v1, v2]" al "\<lambda>w b. carquet_buffer_append_u32_le al b w" carquet_write_u32_le buf, OF this]
  show ?thesis by (simp add: v put_int96_def int96_bytes_def)
qed

text \<open>The byte arrays a caller may pass: the length is that of the data.\<close>

definition byte_array_of :: "bytes \<Rightarrow> carquet_byte_array" where
  "byte_array_of d = (Some d, word_of_nat (length d))"

definition byte_array_bytes :: "bytes \<Rightarrow> bytes" where
  "byte_array_bytes d = carquet_write_u32_le (word_of_nat (length d)) @ d"

lemma small_i32:
  assumes "n < 2 ^ 31"
  shows "unat (word_of_nat n :: i32) = n" "sint (word_of_nat n :: i32) = int n"
  using assms sint_of_nat_small [of n, where 'a = 32] by (simp_all add: unat_of_nat)

lemma put_byte_array_appends:
  assumes "length d < 2 ^ 31"
  shows "appends al buf (put_byte_array al (byte_array_of d) buf) (byte_array_bytes d)"
proof -
  obtain b st where p: "carquet_buffer_append_u32_le al buf (word_of_nat (length d)) = (b, st)" by fastforce
  have "appends al buf (b, st) (carquet_write_u32_le (word_of_nat (length d)))"
    unfolding p [symmetric] carquet_buffer_append_u32_le_def by (rule appends_append) simp
  moreover have "put_byte_array al (byte_array_of d) buf =
      (if st \<noteq> CARQUET_OK then (b, st) else if d = [] then (b, CARQUET_OK) else carquet_buffer_append al b d)"
    using small_i32 [OF assms] by (simp add: put_byte_array_def byte_array_of_def p)
  moreover have "appends al b (carquet_buffer_append al b d) d" using assms by (intro appends_append) simp
  ultimately show ?thesis
    unfolding byte_array_bytes_def
    by (intro appends_seq [of al buf b st]) (auto simp: appends_Nil)
qed

lemma block_write_fill: "n = length bs \<Longrightarrow> block_write (block_fill f p v n) p bs = block_write f p bs"
  by (auto simp: block_write_def block_fill_def fun_eq_iff)

lemma ceil8_word:
  fixes count :: i64
  assumes "sint count = int n"
  shows "unat ((count + 7) div 8) = (n + 7) div 8"
proof -
  have "uint count = sint count mod 2 ^ 64" using uint_sint [of count] by (simp add: take_bit_eq_mod)
  moreover have lt: "sint count < 2 ^ 63" using sint_lt [of count] by simp
  ultimately have "int (unat count) = int n" using assms by simp
  then have u: "unat count = n" by (simp only: of_nat_eq_iff)
  moreover have "n < 2 ^ 63" using lt assms by simp
  ultimately show ?thesis by (simp add: unat_div_distrib unat_word_ariths)
qed

text \<open>Reserving, clearing and packing in place is an append of the packed bytes.\<close>

lemma encode_boolean_append:
  assumes "simd_kernels t" "sint count = int (length xs)"
  shows "carquet_encode_plain_boolean t al (Some xs) count out =
    carquet_buffer_append al out (scalar_pack_bools xs)"
proof -
  let ?bs = "scalar_pack_bools xs" and ?n = "(count + 7) div 8"
  have len: "unat ?n = length ?bs" using ceil8_word [OF assms(2)] by (simp add: length_scalar_pack_bools)
  then have w: "word_of_nat (length ?bs) = ?n" by (metis of_nat_unat ucast_id)
  have p: "pack_bools t (take (loop_count count) xs) = ?bs"
    using simd_kernels.pack_bools [OF assms(1)] assms(2) by (simp add: loop_count_def)
  have oom: "ensure_capacity al out m = (b, st) \<Longrightarrow> st \<noteq> CARQUET_OK \<Longrightarrow> st = CARQUET_ERROR_OUT_OF_MEMORY" for m b st
    by (auto simp: ensure_capacity_def Let_def split: if_splits option.splits)
  have fill: "block_write (block_fill f q 0 (unat ?n)) q ?bs = block_write f q ?bs" for f q
    by (rule block_write_fill [OF len])
  show ?thesis
    using assms(2) oom
    by (auto simp: carquet_encode_plain_boolean_def carquet_buffer_append_def carquet_buffer_advance_def
        Let_def w p fill split: option.split prod.split)
qed


section \<open>What the decoders read\<close>

lemma plain_words_concat:
  assumes "\<And>x r. load (enc x @ r) = x" "\<And>x. length (enc x) = k"
  shows "plain_words k load (concat (map enc xs) @ r) (length xs) = xs"
proof (induction xs)
  case (Cons x xs)
  have "[0..<length (x # xs)] = 0 # map Suc [0..<length xs]"
    by (simp add: upt_conv_Cons map_Suc_upt del: upt_Suc)
  then show ?case using Cons assms by (simp add: plain_words_def comp_def)
qed (simp add: plain_words_def)

lemma length_concat_words: "(\<And>x. length (enc x) = k) \<Longrightarrow> length (concat (map enc xs)) = k * length xs"
  by (induction xs) simp_all

lemma size_product:
  fixes count :: i64
  assumes "sint count = int n" "n * k < 2 ^ 63"
  shows "unat (count * word_of_nat k) = n * k"
proof (cases "k = 0")
  case False
  have "uint count = sint count mod 2 ^ 64" using uint_sint [of count] by (simp add: take_bit_eq_mod)
  moreover have "sint count < 2 ^ 63" using sint_lt [of count] by simp
  ultimately have "int (unat count) = int n" using assms(1) by simp
  then have "unat count = n" by (simp only: of_nat_eq_iff)
  then have "unat (count * word_of_nat k) = n * (k mod 2 ^ 64) mod 2 ^ 64"
    by (simp add: unat_word_ariths unat_of_nat)
  also have "\<dots> = n * k mod 2 ^ 64" by (simp add: mod_mult_right_eq)
  also have "\<dots> = n * k" using assms(2) by simp
  finally show ?thesis .
qed simp

lemma not_short: "n \<le> length p \<Longrightarrow> length p < 2 ^ 64 \<Longrightarrow> unat w = n \<Longrightarrow> \<not> word_of_nat (length p) < (w :: u64)"
  by (simp add: word_less_nat_alt unat_of_nat)

lemma read_word_back [simp]:
  "carquet_read_i32_le (carquet_write_i32_le v @ r) = v" "carquet_read_f32_le (carquet_write_f32_le v @ r) = v"
  "carquet_read_i64_le (carquet_write_i64_le w @ r) = w" "carquet_read_f64_le (carquet_write_f64_le w @ r) = w"
  by (simp_all add: byte_simps carquet_write_i32_le_def carquet_write_i64_le_def carquet_write_f32_le_def
      carquet_write_f64_le_def carquet_read_i32_le_def carquet_read_i64_le_def carquet_read_f32_le_def
      carquet_read_f64_le_def)

lemma int96_back: "read_int96 (int96_bytes v @ r) = v" "length (int96_bytes v) = 12"
  by (auto simp: read_int96_def int96_bytes_def byte_simps split: prod.split)

lemma byte_array_loop_back:
  assumes "\<forall>d \<in> set ds. length d < 2 ^ 31" "drop pos input = concat (map byte_array_bytes ds) @ rest"
    "pos \<le> length input"
  shows "byte_array_loop (length ds) input pos = Some (pos + length (concat (map byte_array_bytes ds)), ds)"
  using assms
proof (induction ds arbitrary: pos)
  case (Cons d ds)
  let ?len = "word_of_nat (length d) :: i32"
  have d: "drop pos input = carquet_write_u32_le ?len @ d @ concat (map byte_array_bytes ds) @ rest"
    using Cons.prems(2) by (simp add: byte_array_bytes_def [of d])
  then have l: "length input = pos + (4 + length d + length (concat (map byte_array_bytes ds) @ rest))"
    using Cons.prems(3) by (metis (no_types, lifting) add.assoc le_add_diff_inverse length_append length_drop
        length_write_word(1))
  have s: "unat ?len = length d" "sint ?len = int (length d)" using small_i32 [of "length d"] Cons.prems(1) by auto
  have r: "carquet_read_i32_le (drop pos input) = ?len"
    by (simp add: d carquet_read_i32_le_def byte_simps)
  have d4: "drop (pos + 4) input = d @ concat (map byte_array_bytes ds) @ rest"
    using arg_cong [OF d, of "drop 4"] by (simp add: add.commute)
  have d5: "drop (pos + 4 + length d) input = concat (map byte_array_bytes ds) @ rest"
    using arg_cong [OF d4, of "drop (length d)"] by (simp add: add.commute)
  have "byte_array_loop (length ds) input (pos + 4 + length d) =
      Some (pos + 4 + length d + length (concat (map byte_array_bytes ds)), ds)"
    using Cons.IH [of "pos + 4 + length d"] Cons.prems(1) d5 l by simp
  then show ?case
    using l by (simp add: r s d4 Let_def byte_array_bytes_def [of d])
qed simp

section \<open>Round trip\<close>

text \<open>The encoder a page writer selects for values of each type.\<close>

definition plain_encode ::
    "carquet_simd_dispatch \<Rightarrow> allocator \<Rightarrow> plain_values \<Rightarrow> i64 \<Rightarrow> i32 \<Rightarrow> carquet_buffer \<Rightarrow>
     carquet_buffer \<times> carquet_status" where
  "plain_encode t al vs count fixed_len out =
     (case vs of
        PBoolean xs \<Rightarrow> carquet_encode_plain_boolean t al (Some xs) count out
      | PInt32 xs \<Rightarrow> carquet_encode_plain_int32 al (Some xs) count out
      | PInt64 xs \<Rightarrow> carquet_encode_plain_int64 al (Some xs) count out
      | PInt96 xs \<Rightarrow> carquet_encode_plain_int96 al (Some xs) count out
      | PFloat xs \<Rightarrow> carquet_encode_plain_float al (Some xs) count out
      | PDouble xs \<Rightarrow> carquet_encode_plain_double al (Some xs) count out
      | PByteArray ds \<Rightarrow> carquet_encode_plain_byte_array al (Some (map byte_array_of ds)) count out
      | PFixed bs \<Rightarrow> carquet_encode_plain_fixed_byte_array al (Some bs) count fixed_len out)"

primrec plain_type :: "plain_values \<Rightarrow> carquet_physical_type" where
  "plain_type (PBoolean xs) = CARQUET_PHYSICAL_BOOLEAN"
| "plain_type (PInt32 xs) = CARQUET_PHYSICAL_INT32"
| "plain_type (PInt64 xs) = CARQUET_PHYSICAL_INT64"
| "plain_type (PInt96 xs) = CARQUET_PHYSICAL_INT96"
| "plain_type (PFloat xs) = CARQUET_PHYSICAL_FLOAT"
| "plain_type (PDouble xs) = CARQUET_PHYSICAL_DOUBLE"
| "plain_type (PByteArray ds) = CARQUET_PHYSICAL_BYTE_ARRAY"
| "plain_type (PFixed bs) = CARQUET_PHYSICAL_FIXED_LEN_BYTE_ARRAY"

primrec plain_bytes :: "plain_values \<Rightarrow> bytes" where
  "plain_bytes (PBoolean xs) = scalar_pack_bools xs"
| "plain_bytes (PInt32 xs) = concat (map carquet_write_i32_le xs)"
| "plain_bytes (PInt64 xs) = concat (map carquet_write_i64_le xs)"
| "plain_bytes (PInt96 xs) = concat (map int96_bytes xs)"
| "plain_bytes (PFloat xs) = concat (map carquet_write_f32_le xs)"
| "plain_bytes (PDouble xs) = concat (map carquet_write_f64_le xs)"
| "plain_bytes (PByteArray ds) = concat (map byte_array_bytes ds)"
| "plain_bytes (PFixed bs) = bs"

text \<open>The number of values agrees with \<^verbatim>\<open>count\<close>, and each byte array is addressable.\<close>

primrec plain_fits :: "nat \<Rightarrow> nat \<Rightarrow> plain_values \<Rightarrow> bool" where
  "plain_fits n k (PBoolean xs) = (length xs = n)"
| "plain_fits n k (PInt32 xs) = (length xs = n)"
| "plain_fits n k (PInt64 xs) = (length xs = n)"
| "plain_fits n k (PInt96 xs) = (length xs = n)"
| "plain_fits n k (PFloat xs) = (length xs = n)"
| "plain_fits n k (PDouble xs) = (length xs = n)"
| "plain_fits n k (PByteArray ds) = (length ds = n \<and> (\<forall>d \<in> set ds. length d < 2 ^ 31))"
| "plain_fits n k (PFixed bs) = (0 < k \<and> length bs = n * k)"

primrec plain_norm :: "plain_values \<Rightarrow> plain_values" where
  "plain_norm (PBoolean xs) = PBoolean (map (\<lambda>x. of_bool (x \<noteq> 0)) xs)"
| "plain_norm (PInt32 xs) = PInt32 xs"
| "plain_norm (PInt64 xs) = PInt64 xs"
| "plain_norm (PInt96 xs) = PInt96 xs"
| "plain_norm (PFloat xs) = PFloat xs"
| "plain_norm (PDouble xs) = PDouble xs"
| "plain_norm (PByteArray ds) = PByteArray ds"
| "plain_norm (PFixed bs) = PFixed bs"

lemma scast_i32: "0 \<le> sint (k :: i32) \<Longrightarrow> (scast k :: i64) = word_of_nat (nat (sint k))"
  by (metis of_int_of_nat_eq of_int_sint nat_0_le)

lemma plain_encode_appends:
  assumes "simd_kernels t" "sint count = int n" "plain_fits n (nat (sint k)) vs" "length (plain_bytes vs) < 2 ^ 63"
  shows "appends al out (plain_encode t al vs count k out) (plain_bytes vs)"
proof -
  have nn: "\<not> sint count < 0" "loop_count count = n" using assms(2) by (simp_all add: loop_count_def)
  have app: "appends al out (carquet_buffer_append al out (plain_bytes vs)) (plain_bytes vs)"
    using assms(4) by (intro appends_append) simp
  have prod: "unat (count * 4) = 4 * n" if "4 * n < 2 ^ 63"
    using size_product [OF assms(2), of 4] that by (simp add: mult.commute)
  have prod8: "unat (count * 8) = 8 * n" if "8 * n < 2 ^ 63"
    using size_product [OF assms(2), of 8] that by (simp add: mult.commute)
  show ?thesis
  proof (cases vs)
    case (PBoolean xs)
    then show ?thesis
      using encode_boolean_append [OF assms(1), of count xs al out] assms(2,3) app by (simp add: plain_encode_def)
  next
    case (PInt32 xs)
    then have "length (plain_bytes vs) = 4 * n" using assms(3) by (simp add: length_concat_words)
    then show ?thesis
      using PInt32 nn prod assms(4) app
      by (simp add: plain_encode_def carquet_encode_plain_int32_def Let_def)
  next
    case (PInt64 xs)
    then have "length (plain_bytes vs) = 8 * n" using assms(3) by (simp add: length_concat_words)
    then show ?thesis
      using PInt64 nn prod8 assms(4) app by (simp add: plain_encode_def carquet_encode_plain_int64_def)
  next
    case (PFloat xs)
    then have "length (plain_bytes vs) = 4 * n" using assms(3) by (simp add: length_concat_words)
    then show ?thesis
      using PFloat nn prod assms(4) app by (simp add: plain_encode_def carquet_encode_plain_float_def)
  next
    case (PDouble xs)
    then have "length (plain_bytes vs) = 8 * n" using assms(3) by (simp add: length_concat_words)
    then show ?thesis
      using PDouble nn prod8 assms(4) app by (simp add: plain_encode_def carquet_encode_plain_double_def)
  next
    case (PInt96 xs)
    then show ?thesis
      using nn assms(3) encode_loop_appends [of xs al "put_int96 al" int96_bytes out] put_int96_appends
      by (simp add: plain_encode_def carquet_encode_plain_int96_def)
  next
    case (PByteArray ds)
    have "encode_loop (put_byte_array al) (map byte_array_of ds) b = encode_loop (put_byte_array al \<circ> byte_array_of) ds b" for b
      by (induction ds arbitrary: b) (simp_all split: prod.split)
    then show ?thesis
      using PByteArray nn assms(3) put_byte_array_appends
        encode_loop_appends [of ds al "put_byte_array al \<circ> byte_array_of" byte_array_bytes out]
      by (simp add: plain_encode_def carquet_encode_plain_byte_array_def)
  next
    case (PFixed bs)
    then have k: "0 < sint k" "length bs = n * nat (sint k)" using assms(3) by simp_all
    have s: "(scast k :: i64) = word_of_nat (nat (sint k))" by (rule scast_i32) (use k(1) in simp)
    have "unat (count * scast k) = length bs"
      unfolding s k(2) by (rule size_product [OF assms(2)]) (use PFixed k(2) assms(4) in simp)
    then show ?thesis
      using PFixed nn k app by (simp add: plain_encode_def carquet_encode_plain_fixed_byte_array_def)
  qed
qed


lemma plain_decode_back:
  assumes "simd_kernels t" "sint count = int n" "plain_fits n (nat (sint k)) vs" "length (plain_bytes vs) < 2 ^ 63"
    "length (plain_bytes vs @ rest) < 2 ^ 64" "\<forall>xs. vs = PBoolean xs \<longrightarrow> n \<le> 2 ^ 34"
  shows "carquet_decode_plain t (Some (plain_bytes vs @ rest)) (Some (plain_type vs)) k True count =
    Some (word_of_nat (length (plain_bytes vs)), plain_norm vs)"
proof -
  have nn: "\<not> sint count < 0" "loop_count count = n" using assms(2) by (simp_all add: loop_count_def)
  have size: "unat w = length (plain_bytes vs) \<Longrightarrow> w = word_of_nat (length (plain_bytes vs)) \<and>
      \<not> word_of_nat (length (plain_bytes vs @ rest)) < (word_of_nat (length (plain_bytes vs)) :: u64)" for w :: u64
    using not_short [of "length (plain_bytes vs)" "plain_bytes vs @ rest" w] assms(5)
    by (metis le_add1 length_append of_nat_unat ucast_id)
  have prod: "unat (count * word_of_nat m) = length (plain_bytes vs)" if "length (plain_bytes vs) = m * n" for m
    using size_product [OF assms(2), of m] that assms(4) by (simp add: mult.commute)
  show ?thesis
  proof (cases vs)
    case (PBoolean xs)
    have "unat ((count + 7) div 8) = length (plain_bytes vs)"
      using ceil8_word [OF assms(2)] PBoolean assms(3) by (simp add: length_scalar_pack_bools)
    note s = size [OF this]
    have l: "length xs \<le> 8 * length (scalar_pack_bools xs)" by (simp add: length_scalar_pack_bools)
    have "unpack_bools t (scalar_pack_bools xs @ rest) n = scalar_unpack_bools (scalar_pack_bools xs @ rest) n"
      using simd_kernels.unpack_bools [OF assms(1)] l PBoolean assms(3, 6) by simp
    also have "\<dots> = scalar_unpack_bools (scalar_pack_bools xs) n"
      using l PBoolean assms(3, 6) by (auto simp: scalar_unpack_bools_small nth_append)
    also have "\<dots> = map (\<lambda>x. of_bool (x \<noteq> 0)) xs" using unpack_pack_bools [of xs] PBoolean assms(3, 6) by simp
    finally show ?thesis
      using s nn PBoolean by (simp add: carquet_decode_plain_def carquet_decode_plain_boolean_def Let_def)
  next
    case (PInt32 xs)
    then have l: "length (plain_bytes vs) = 4 * n" using assms(3) by (simp add: length_concat_words)
    have "unat (count * 4) = length (plain_bytes vs)" using prod [OF l] by simp
    with size [OF this] l nn PInt32 assms(3)
      plain_words_concat [of carquet_read_i32_le carquet_write_i32_le 4 xs rest]
    show ?thesis by (simp add: carquet_decode_plain_def carquet_decode_plain_int32_def Let_def)
  next
    case (PInt64 xs)
    then have l: "length (plain_bytes vs) = 8 * n" using assms(3) by (simp add: length_concat_words)
    have "unat (count * 8) = length (plain_bytes vs)" using prod [OF l] by simp
    with size [OF this] l nn PInt64 assms(3)
      plain_words_concat [of carquet_read_i64_le carquet_write_i64_le 8 xs rest]
    show ?thesis by (simp add: carquet_decode_plain_def carquet_decode_plain_int64_def Let_def)
  next
    case (PFloat xs)
    then have l: "length (plain_bytes vs) = 4 * n" using assms(3) by (simp add: length_concat_words)
    have "unat (count * 4) = length (plain_bytes vs)" using prod [OF l] by simp
    with size [OF this] l nn PFloat assms(3)
      plain_words_concat [of carquet_read_f32_le carquet_write_f32_le 4 xs rest]
    show ?thesis by (simp add: carquet_decode_plain_def carquet_decode_plain_float_def Let_def)
  next
    case (PDouble xs)
    then have l: "length (plain_bytes vs) = 8 * n" using assms(3) by (simp add: length_concat_words)
    have "unat (count * 8) = length (plain_bytes vs)" using prod [OF l] by simp
    with size [OF this] l nn PDouble assms(3)
      plain_words_concat [of carquet_read_f64_le carquet_write_f64_le 8 xs rest]
    show ?thesis by (simp add: carquet_decode_plain_def carquet_decode_plain_double_def Let_def)
  next
    case (PInt96 xs)
    then have l: "length (plain_bytes vs) = 12 * n" using assms(3) by (simp add: length_concat_words int96_back)
    have "unat (count * 12) = length (plain_bytes vs)" using prod [OF l] by simp
    with size [OF this] l nn PInt96 assms(3)
      plain_words_concat [of read_int96 int96_bytes 12 xs rest] int96_back
    show ?thesis by (simp add: carquet_decode_plain_def carquet_decode_plain_int96_def Let_def)
  next
    case (PByteArray ds)
    then show ?thesis
      using byte_array_loop_back [of ds 0 "plain_bytes vs @ rest" rest] assms(3) nn
      by (simp add: carquet_decode_plain_def carquet_decode_plain_byte_array_def)
  next
    case (PFixed bs)
    then have k: "0 < sint k" "length bs = nat (sint k) * n" using assms(3) by simp_all
    have sc: "(scast k :: i64) = word_of_nat (nat (sint k))" by (rule scast_i32) (use k(1) in simp)
    have l: "length (plain_bytes vs) = nat (sint k) * n" using PFixed k by simp
    have u: "unat (count * scast k) = length (plain_bytes vs)" unfolding sc by (rule prod [OF l])
    with size [OF this] nn PFixed k(1) show ?thesis
      by (simp add: carquet_decode_plain_def carquet_decode_plain_fixed_byte_array_def Let_def)
  qed
qed

text \<open>
  C5: PLAIN round trip for every physical type. With a granting allocator, an owned
  buffer and room, encoding appends bytes from which the
  generic decoder, whatever follows them, reads back the values and consumes exactly
  the bytes written. Booleans come back as 0 or 1; there may be at most \<open>2 ^ 34\<close> of
  them, the reach of the decoder's \<^verbatim>\<open>int\<close> byte index.
\<close>

theorem plain_roundtrip:
  assumes "simd_kernels t" "\<forall>n. alloc_grants al n" "buffer_wf out" "buf_owns_data out"
    "sint count = int n" "plain_fits n (nat (sint k)) vs"
    "length (buffer_contents out) + length (plain_bytes vs) < 2 ^ 63" "length rest < 2 ^ 63"
    "\<forall>xs. vs = PBoolean xs \<longrightarrow> n \<le> 2 ^ 34"
  shows "\<exists>bs. snd (plain_encode t al vs count k out) = CARQUET_OK \<and>
    buffer_contents (fst (plain_encode t al vs count k out)) = buffer_contents out @ bs \<and>
    carquet_decode_plain t (Some (bs @ rest)) (Some (plain_type vs)) k True count =
      Some (word_of_nat (length bs), plain_norm vs)"
proof -
  have len: "length (plain_bytes vs) < 2 ^ 63" "length (plain_bytes vs @ rest) < 2 ^ 64"
    using assms(7,8) by auto
  show ?thesis
    using plain_encode_appends [OF assms(1,5,6) len(1), of al out] plain_decode_back [OF assms(1,5,6) len assms(9)]
      assms(2-4,7) by (intro exI [of _ "plain_bytes vs"]) (simp add: appends_def)
qed

theorem plain_roundtrip_witness:
  "\<exists>bs. snd (plain_encode scalar_simd generous (PByteArray [[1, 2], [], [9]]) 3 0 carquet_buffer_init) = CARQUET_OK \<and>
    buffer_contents (fst (plain_encode scalar_simd generous (PByteArray [[1, 2], [], [9]]) 3 0 carquet_buffer_init)) =
      buffer_contents carquet_buffer_init @ bs \<and>
    carquet_decode_plain scalar_simd (Some (bs @ [5])) (Some (plain_type (PByteArray [[1, 2], [], [9]]))) 0 True 3 =
      Some (word_of_nat (length bs), plain_norm (PByteArray [[1, 2], [], [9]]))"
  by (rule plain_roundtrip [OF scalar_table.simd_kernels_axioms, of _ _ _ 3])
    (simp_all add: generous_def carquet_buffer_init_def buffer_wf_def buffer_contents_def byte_array_bytes_def)


section \<open>Arbitrary input\<close>

lemma byte_array_loop_sound:
  "byte_array_loop n input pos = Some (pos', vs) \<Longrightarrow> pos \<le> length input \<Longrightarrow>
   pos \<le> pos' \<and> pos' \<le> length input \<and> length vs = n \<and> (\<forall>d \<in> set vs. length d < 2 ^ 31) \<and>
   take (pos' - pos) (drop pos input) = concat (map byte_array_bytes vs)"
proof (induction n arbitrary: pos vs)
  case (Suc n)
  let ?len = "carquet_read_i32_le (drop pos input)"
  let ?q = "pos + 4 + unat ?len"
  obtain ws where ws: "byte_array_loop n input ?q = Some (pos', ws)"
    "vs = take (unat ?len) (drop (pos + 4) input) # ws" and b: "pos + 4 \<le> length input" "\<not> sint ?len < 0"
    "?q \<le> length input"
    using Suc.prems(1) by (auto simp: Let_def split: if_splits option.splits)
  from Suc.IH [OF ws(1) b(3)] have IH: "?q \<le> pos'" "pos' \<le> length input" "length ws = n"
    "\<forall>d \<in> set ws. length d < 2 ^ 31" "take (pos' - ?q) (drop ?q input) = concat (map byte_array_bytes ws)"
    by auto
  let ?d = "take (unat ?len) (drop (pos + 4) input)"
  have ld: "length ?d = unat ?len" using b(3) by simp
  have "unat ?len < 2 ^ 31"
  proof -
    have "sint ?len < 2 ^ 31" using sint_lt [of ?len] by simp
    moreover have "int (unat ?len) = sint ?len" using b(2) by (intro nonneg_i32) simp
    ultimately have "int (unat ?len) < int (2 ^ 31)" by simp
    then show ?thesis by (simp only: of_nat_less_iff)
  qed
  moreover have "byte_array_bytes ?d = take (4 + unat ?len) (drop pos input)"
  proof -
    have "carquet_write_u32_le ?len = take 4 (drop pos input)"
      using b(1) by (simp add: carquet_read_i32_le_def byte_simps)
    moreover have "word_of_nat (length ?d) = ?len" using ld by simp
    ultimately show ?thesis
      unfolding byte_array_bytes_def by (simp only:) (simp add: take_add add.commute)
  qed
  moreover have "take (pos' - pos) (drop pos input) =
      take (4 + unat ?len) (drop pos input) @ take (pos' - ?q) (drop ?q input)"
  proof -
    have "pos' - pos = (4 + unat ?len) + (pos' - ?q)" using IH(1) by simp
    then show ?thesis by (simp only: take_add drop_drop) (simp add: ac_simps)
  qed
  ultimately show ?case using IH ld ws(2) by simp
qed simp

text \<open>
  Decoding byte arrays is exact on any input. When
  \<^verbatim>\<open>carquet_decode_plain_byte_array\<close> accepts, it has consumed a prefix of the input and returned
  as many arrays as asked for, and encoding those arrays gives back exactly the bytes consumed:
  every length was checked against the input and no byte was read beyond it.
\<close>

theorem plain_byte_array_exact:
  assumes "carquet_decode_plain_byte_array (Some input) True count = Some (used, vs)" "length input < 2 ^ 63"
  shows "unat used \<le> length input \<and> int (length vs) = sint count \<and>
    concat (map byte_array_bytes vs) = take (unat used) input"
proof -
  obtain pos where p: "byte_array_loop (loop_count count) input 0 = Some (pos, vs)" "used = word_of_nat pos"
    "0 \<le> sint count"
    using assms(1) by (auto simp: carquet_decode_plain_byte_array_def split: if_splits)
  note s = byte_array_loop_sound [OF p(1)]
  have "unat used = pos" using s p(2) assms(2) by (simp add: unat_of_nat)
  then show ?thesis using s p(3) by (simp add: loop_count_def)
qed

theorem plain_byte_array_exact_witness:
  "concat (map byte_array_bytes [[7, 8], []]) = take 10 [2, 0, 0, 0, 7, 8, 0, 0, 0, 0, 99]"
proof -
  have d: "carquet_decode_plain_byte_array (Some [2, 0, 0, 0, 7, 8, 0, 0, 0, 0, 99]) True 2 = Some (10, [[7, 8], []])"
    by code_simp
  show ?thesis using plain_byte_array_exact [OF d] by simp
qed

text \<open>
  The size check of the fixed-width decoders. For counts below \<open>2\<^sup>6\<^sup>1\<close>,
  \<^verbatim>\<open>carquet_decode_plain_int32\<close> fails exactly when the input is too short and otherwise reads
  every value; the 64-bit product wraps for larger counts, and a count of \<open>2\<^sup>6\<^sup>2\<close> is accepted on
  an empty input with nothing decoded.
\<close>

theorem plain_int32_bounds:
  assumes "sint count = int n" "n < 2 ^ 61" "length input < 2 ^ 64"
  shows "(carquet_decode_plain_int32 (Some input) True count = None \<longleftrightarrow> length input < 4 * n) \<and>
    (4 * n \<le> length input \<longrightarrow>
       carquet_decode_plain_int32 (Some input) True count =
         Some (word_of_nat (4 * n), map (\<lambda>i. carquet_read_i32_le (drop (4 * i) input)) [0..<n])) \<and>
    carquet_decode_plain_int32 (Some []) True 0x4000000000000000 = Some (0, [])"
proof -
  have u: "unat (count * 4) = 4 * n" using size_product [OF assms(1), of 4] assms(2) by (simp add: mult.commute)
  have lt: "(word_of_nat (length input) :: u64) < count * 4 \<longleftrightarrow> length input < 4 * n"
    using u assms(3) by (simp add: word_less_nat_alt unat_of_nat)
  have "count * 4 = word_of_nat (4 * n)" using u by (metis of_nat_unat ucast_id)
  then have "4 * n \<le> length input \<longrightarrow> carquet_decode_plain_int32 (Some input) True count =
      Some (word_of_nat (4 * n), map (\<lambda>i. carquet_read_i32_le (drop (4 * i) input)) [0..<n])"
    using assms(1) lt u by (simp add: carquet_decode_plain_int32_def plain_words_def)
  moreover have "carquet_decode_plain_int32 (Some input) True count = None \<longleftrightarrow> length input < 4 * n"
    using assms(1) lt by (simp add: carquet_decode_plain_int32_def Let_def)
  moreover have "carquet_decode_plain_int32 (Some []) True 0x4000000000000000 = Some (0, [])" by code_simp
  ultimately show ?thesis by blast
qed

theorem plain_int32_bounds_witness:
  "carquet_decode_plain_int32 (Some [1, 0, 0, 0, 2]) True 2 = None"
  using plain_int32_bounds [of 2 2 "[1, 0, 0, 0, 2]"] by simp

end
