(* ===== verification/Delta_Length.thy ===== *)
theory Delta_Length
  imports Delta Plain
begin

text \<open>
  \<^verbatim>\<open>encoding/delta_length.c\<close>: byte arrays as their lengths, delta encoded, followed by all data. A decoded
  byte array is the slice of the input it points to. The sums of lengths are natural numbers: at most
  \<open>2\<^sup>3\<^sup>1\<close> lengths below \<open>2\<^sup>3\<^sup>1\<close> do not wrap a 64-bit \<^verbatim>\<open>size_t\<close>. \<open>out\<close> says whether the output
  pointer is not \<^verbatim>\<open>NULL\<close>.
\<close>

section \<open>Definitions\<close>

subsection \<open>Decoder\<close>

text \<open>The sum of the lengths, unless one is negative.\<close>

primrec total_lengths :: "i32 list \<Rightarrow> nat option" where
  "total_lengths [] = Some 0"
| "total_lengths (l # ls) = (if sint l < 0 then None else map_option (\<lambda>n. unat l + n) (total_lengths ls))"

primrec slices :: "i32 list \<Rightarrow> bytes \<Rightarrow> bytes list" where
  "slices [] byte_data = []"
| "slices (l # ls) byte_data = take (unat l) byte_data # slices ls (drop (unat l) byte_data)"

definition carquet_delta_length_decode ::
    "bitunpack_dispatch \<Rightarrow> carquet_simd_dispatch \<Rightarrow> allocator \<Rightarrow> bytes option \<Rightarrow> bool \<Rightarrow> i32 \<Rightarrow>
     (bytes list \<times> nat) outcome" where
  "carquet_delta_length_decode ds t al input out num_values =
     (case input of
        None \<Rightarrow> Inl CARQUET_ERROR_INVALID_ARGUMENT
      | Some data \<Rightarrow>
          if sint num_values < 0 \<or> 0 < sint num_values \<and> \<not> out then Inl CARQUET_ERROR_INVALID_ARGUMENT
          else if num_values = 0
          then (case carquet_delta_decode_int32 ds t data 0 of
                  Inl e \<Rightarrow> Inl e
                | Inr (_, consumed) \<Rightarrow> Inr ([], consumed))
          else if \<not> alloc_grants al (scast num_values * 4) then Inl CARQUET_ERROR_OUT_OF_MEMORY
          else (case carquet_delta_decode_int32 ds t data (unat num_values) of
                  Inl e \<Rightarrow> Inl e
                | Inr (lengths, consumed) \<Rightarrow>
                    (case total_lengths lengths of
                       None \<Rightarrow> Inl CARQUET_ERROR_DECODE
                     | Some total_size \<Rightarrow>
                         if length data < consumed + total_size then Inl CARQUET_ERROR_DECODE
                         else Inr (slices lengths (drop consumed data), consumed + total_size))))"

subsection \<open>Encoder\<close>

text \<open>The data of a byte array, without its length.\<close>

definition put_data :: "allocator \<Rightarrow> carquet_byte_array \<Rightarrow> carquet_buffer \<Rightarrow> carquet_buffer \<times> carquet_status" where
  "put_data al v buf =
     (case v of
        (Some d, len) \<Rightarrow> if 0 < sint len then carquet_buffer_append al buf (take (unat len) d) else (buf, CARQUET_OK)
      | (None, len) \<Rightarrow> (buf, CARQUET_OK))"

text \<open>The encoder into an output buffer; without one it is refused like the other bad arguments.\<close>

definition delta_length_encode_to ::
    "allocator \<Rightarrow> carquet_byte_array list option \<Rightarrow> i32 \<Rightarrow> carquet_buffer \<Rightarrow> carquet_buffer \<times> carquet_status" where
  "delta_length_encode_to al input num_values buf =
     (if sint num_values < 0 \<or> 0 < sint num_values \<and> input = None then (buf, CARQUET_ERROR_INVALID_ARGUMENT)
      else if num_values = 0
      then (case carquet_delta_encode_int32 [] 64 of
              Inl e \<Rightarrow> (buf, e)
            | Inr header \<Rightarrow> carquet_buffer_append al buf header)
      else let vs = take (unat num_values) (the input); lengths = map snd vs;
               lengths_capacity = unat num_values * 10 + 100 in
           if \<not> alloc_grants al (scast num_values * 4) then (buf, CARQUET_ERROR_OUT_OF_MEMORY)
           else if \<not> alloc_grants al (word_of_nat lengths_capacity) then (buf, CARQUET_ERROR_OUT_OF_MEMORY)
           else case carquet_delta_encode_int32 lengths lengths_capacity of
                  Inl e \<Rightarrow> (buf, e)
                | Inr lengths_buffer \<Rightarrow>
                    (case carquet_buffer_append al buf lengths_buffer of (b, status) \<Rightarrow>
                       if status \<noteq> CARQUET_OK then (b, status) else encode_loop (put_data al) vs b))"

definition carquet_delta_length_encode ::
    "allocator \<Rightarrow> carquet_byte_array list option \<Rightarrow> i32 \<Rightarrow> carquet_buffer option \<Rightarrow>
     carquet_buffer option \<times> carquet_status" where
  "carquet_delta_length_encode al input num_values buf =
     (case buf of
        None \<Rightarrow> (None, CARQUET_ERROR_INVALID_ARGUMENT)
      | Some b \<Rightarrow> map_prod Some id (delta_length_encode_to al input num_values b))"

text \<open>The estimate; lengths are widened from signed 32 bits.\<close>

definition sum_sizes :: "carquet_byte_array list \<Rightarrow> u64" where
  "sum_sizes vs = fold (\<lambda>v size. size + scast (snd v)) vs 0"

definition carquet_delta_length_max_encoded_size :: "carquet_byte_array list option \<Rightarrow> i32 \<Rightarrow> u64" where
  "carquet_delta_length_max_encoded_size input num_values =
     (case input of
        None \<Rightarrow> 0
      | Some vs \<Rightarrow>
          if sint num_values \<le> 0 then 0
          else sum_sizes (take (unat num_values) vs) + (scast num_values * 5 + 100))"

section \<open>Capacity\<close>

text \<open>Deltas of values below \<open>2 ^ L\<close> take at most \<open>L + 1\<close> bits.\<close>

lemma find_min_delta_least:
  assumes "ds \<noteq> []"
  shows "find_min_delta ds \<in> set ds \<and> (\<forall>d \<in> set ds. sint (find_min_delta ds) \<le> sint d)"
proof -
  have "fold (\<lambda>d m. if sint d < sint m then d else m) ds m \<in> insert m (set ds) \<and>
      (\<forall>d \<in> insert m (set ds). sint (fold (\<lambda>d m. if sint d < sint m then d else m) ds m) \<le> sint d)" for ds and m :: i64
    by (induction ds arbitrary: m) (auto, (fastforce+)?)
  from this [of "tl ds" "hd ds"] show ?thesis
    using assms by (cases ds) (auto simp: find_min_delta_def)
qed

lemma unat_diff_sint:
  fixes d m :: i64
  assumes "sint m \<le> sint d" "sint d - sint m < 2 ^ n" "n < 64"
  shows "unat (d - m) < 2 ^ n"
proof -
  have e: "d - m = word_of_int (sint d - sint m)" by simp
  have "(2 :: int) ^ n \<le> 2 ^ 63" using assms(3) by (intro power_increasing) auto
  moreover have "(2 :: int) ^ 63 < 2 ^ 64" by simp
  ultimately have b: "0 \<le> sint d - sint m" "sint d - sint m < 2 ^ 64" using assms(1,2) by linarith+
  have w: "uint (word_of_int k :: i64) = k mod 2 ^ 64" for k by (simp add: uint_word_of_int)
  have "uint (d - m) = (sint d - sint m) mod 2 ^ 64" unfolding e by (rule w)
  then have "uint (d - m) = sint d - sint m" using b by (simp only: mod_pos_pos_trivial)
  then have "int (unat (d - m)) < 2 ^ n" using assms(2) by simp
  then show ?thesis by (metis of_nat_less_iff of_nat_numeral of_nat_power)
qed

definition narrow_deltas :: "nat \<Rightarrow> i64 list \<Rightarrow> bool" where
  "narrow_deltas n ds \<longleftrightarrow> (\<forall>d \<in> set ds. - (2 ^ n) < sint d \<and> sint d < 2 ^ n)"

lemma narrow_chunk_need:
  assumes "narrow_deltas n b" "n < 32" "b \<noteq> []"
  shows "packed_bytes_needed 32 (word_of_nat (chunk_width b k)) \<le> (if k * 32 < length b then 4 * (n + 1) else 0)"
proof (cases "k * 32 < length b")
  case True
  have "unat (d - find_min_delta b) < 2 ^ (n + 1)" if "d \<in> set (chunk b k)" for d
  proof (rule unat_diff_sint)
    have "d \<in> set b" using that by (auto simp: chunk_def dest: in_set_takeD in_set_dropD)
    moreover from this have "- (2 ^ n) < sint (find_min_delta b)" "sint d < 2 ^ n"
      using find_min_delta_least [OF assms(3)] assms(1) by (auto simp: narrow_deltas_def)
    ultimately show "sint (find_min_delta b) \<le> sint d" "sint d - sint (find_min_delta b) < 2 ^ (n + 1)"
      using find_min_delta_least [OF assms(3)] by auto
  qed (use assms(2) in simp)
  then have "unat (max_adjusted (find_min_delta b) (chunk b k)) < 2 ^ (n + 1)" by (intro max_adjusted_below) auto
  then have w: "chunk_width b k \<le> n + 1" unfolding chunk_width_def by (rule bit_width_required_le)
  then have "unat (word_of_nat (chunk_width b k) :: u8) = chunk_width b k" using assms(2) by (simp add: word_u8_small)
  then show ?thesis using True w assms(2) by (auto simp: packed_bytes_needed_def)
next
  case False
  then show ?thesis using chunk_empty [of b k] length_packed_chunk [of b k] by simp
qed

lemma narrow_block_need:
  assumes "narrow_deltas n b" "n < 32" "b \<noteq> []" "length b \<le> 128"
  shows "32 * block_need b \<le> 448 + 4 * (n + 1) * (if length b = 128 then 128 else length b + 31)"
proof -
  let ?c = "4 * (n + 1)"
  let ?f = "\<lambda>k. if k * 32 < length b then 1 else 0 :: nat"
  have "packed_bytes_needed 32 (word_of_nat (chunk_width b k)) \<le> ?c * ?f k" for k
    using narrow_chunk_need [OF assms(1-3), of k] by (simp split: if_splits)
  from this [of 0] this [of 1] this [of 2] this [of 3]
  have "block_need b \<le> 14 + ?c * (?f 0 + ?f 1 + ?f 2 + ?f 3)"
    unfolding block_need_def upt_4 distrib_left by simp
  moreover have "32 * (?f 0 + ?f 1 + ?f 2 + ?f 3) \<le> (if length b = 128 then 128 else length b + 31)"
    using assms(3) Suc_leI [of 0 "length b"] by (auto split: if_splits)
  then have "?c * (32 * (?f 0 + ?f 1 + ?f 2 + ?f 3)) \<le> ?c * (if length b = 128 then 128 else length b + 31)"
    by (rule mult_le_mono2)
  ultimately show ?thesis by linarith
qed

lemma narrow_blocks_need:
  assumes "n < 32"
  shows "narrow_deltas n ds \<Longrightarrow> 32 * blocks_need ds \<le> 4 * length ds + 4 * (n + 1) * (length ds + 31) + 448"
proof (induction ds rule: blocks_need.induct)
  case (1 ds)
  show ?case
  proof (cases "ds = []")
    case True
    then show ?thesis by (simp add: blocks_need.simps)
  next
    case False
    have nd: "narrow_deltas n (take 128 ds)" "narrow_deltas n (drop 128 ds)"
      using "1.prems" by (auto simp: narrow_deltas_def dest: in_set_takeD in_set_dropD)
    have b: "32 * block_need (take 128 ds) \<le>
        448 + 4 * (n + 1) * (if length (take 128 ds) = 128 then 128 else length (take 128 ds) + 31)"
      using False by (intro narrow_block_need [OF nd(1) assms]) auto
    have s: "blocks_need ds = block_need (take 128 ds) + blocks_need (drop 128 ds)"
      using False by (simp add: blocks_need.simps [of ds])
    show ?thesis
    proof (cases "length ds < 128")
      case True
      then show ?thesis using b unfolding s by (simp add: blocks_need.simps [of "[]"])
    next
      case ge: False
      then obtain k where k: "length ds = 128 + k" by (metis le_Suc_ex not_less)
      then have "32 * block_need (take 128 ds) \<le> 448 + 4 * (n + 1) * 128" using b by simp
      moreover have "32 * blocks_need (drop 128 ds) \<le> 4 * k + 4 * (n + 1) * (k + 31) + 448"
        using "1.IH" [OF False nd(2)] k by simp
      ultimately show ?thesis unfolding s k by (simp add: algebra_simps)
    qed
  qed
qed

lemma length_write_uleb128_le: "0 < k \<Longrightarrow> unat v < 2 ^ (7 * k) \<Longrightarrow> length (write_uleb128 v) \<le> k"
  using length_varint_bytes [of k v] by (simp add: write_uleb128_def)

definition small_value :: "i32 \<Rightarrow> bool" where
  "small_value v \<longleftrightarrow> 0 \<le> sint v \<and> sint v < 2 ^ 22"

lemma sint_scast_up: "sint (scast v :: i64) = sint v" for v :: i32
proof -
  have "- (2 ^ 31) \<le> sint v" "sint v < 2 ^ 31" using sint_ge [of v] sint_lt [of v] by simp_all
  moreover have "(2::int) ^ 31 \<le> 2 ^ 63" by simp
  ultimately have b: "- (2 ^ 63) \<le> sint v" "sint v < 2 ^ 63" by linarith+
  have "sint (scast v :: i64) = signed_take_bit 63 (sint v)"
    unfolding scast_eq by (rule sint_sbintrunc' [where 'a = 64, simplified])
  then show ?thesis using b by (simp only: signed_take_bit_int_eq_self)
qed

lemma small_header:
  assumes "small_value v" "n < 2 ^ 31"
  shows "length (delta_header n (scast v)) \<le> 12"
proof -
  have v: "0 \<le> sint (scast v :: i64)" "sint (scast v :: i64) < 2 ^ 22"
    using assms(1) by (simp_all add: small_value_def sint_scast_up)
  have "uint (zigzag_encode64 (scast v)) = 2 * sint (scast v :: i64)"
    using v(1) zigzag_value_generic [where w = "scast v :: i64" and n = 63]
    by (simp only: zigzag_encode64_def len_num1 len_bit0 not_less [symmetric] if_False)
  then have "int (unat (zigzag_encode64 (scast v))) < 2 ^ 28" using v(2) by simp
  then have "unat (zigzag_encode64 (scast v)) < 2 ^ 28" by (metis of_nat_less_iff of_nat_numeral of_nat_power)
  then have "unat (zigzag_encode64 (scast v)) < 2 ^ (7 * 4)" by simp
  then have "length (write_uleb128 (zigzag_encode64 (scast v))) \<le> 4" by (intro length_write_uleb128_le) auto
  moreover have "length (write_uleb128 (word_of_nat n)) \<le> 5"
    using assms(2) by (intro length_write_uleb128_le) (auto simp: unat_of_nat)
  moreover have "length (write_uleb128 128) \<le> 2" "length (write_uleb128 4) \<le> 1"
    by (intro length_write_uleb128_le; simp)+
  ultimately show ?thesis by (simp add: delta_header_def DELTA_BLOCK_SIZE_def DELTA_MINI_BLOCKS_def)
qed

lemma sint_diff_small:
  fixes a b :: i64
  assumes "0 \<le> sint a" "sint a < 2 ^ 22" "0 \<le> sint b" "sint b < 2 ^ 22"
  shows "sint (a - b) = sint a - sint b"
proof -
  have e: "a - b = word_of_int (sint a - sint b)" by simp
  have "(2::int) ^ 22 \<le> 2 ^ 63" by simp
  then have "- (2 ^ 63) \<le> sint a - sint b" "sint a - sint b < 2 ^ 63" using assms by linarith+
  then have k: "signed_take_bit 63 (sint a - sint b) = sint a - sint b" by (simp only: signed_take_bit_int_eq_self)
  have "sint (a - b) = signed_take_bit 63 (sint a - sint b)" unfolding e by (rule sint_sbintrunc' [where 'a = 64, simplified])
  then show ?thesis unfolding k .
qed

lemma small_differences:
  "small_value v \<Longrightarrow> \<forall>x \<in> set vs. small_value x \<Longrightarrow> narrow_deltas 22 (differences (scast v) (map scast vs))"
proof (induction vs arbitrary: v)
  case Nil
  then show ?case by (simp add: narrow_deltas_def)
next
  case (Cons w vs)
  have "sint (scast w - scast v :: i64) = sint w - sint v"
    using Cons.prems sint_diff_small [of "scast w" "scast v"] by (simp add: small_value_def sint_scast_up)
  then show ?case using Cons.IH [of w] Cons.prems by (simp add: narrow_deltas_def small_value_def)
qed

text \<open>Lengths below four mebibytes always fit the capacity reserved for them.\<close>

lemma small_values_encode:
  assumes "\<forall>x \<in> set vs. small_value x" "length vs < 2 ^ 31"
  shows "\<exists>out. carquet_delta_encode_int32 vs (length vs * 10 + 100) = Inr out"
proof (cases vs)
  case Nil
  then show ?thesis by (simp add: carquet_delta_encode_int32_def delta_encode_def Let_def)
next
  case (Cons v ws)
  have h: "length (delta_header (length vs) (scast v)) \<le> 12" using assms Cons by (intro small_header) auto
  have "narrow_deltas 22 (differences (scast v) (map scast ws))" using assms(1) Cons by (intro small_differences) auto
  from narrow_blocks_need [OF _ this]
  have "32 * blocks_need (differences (scast v) (map scast ws)) \<le> 96 * length ws + 3300" by simp
  then have b: "length (delta_header (length vs) (scast v)) + blocks_need (differences (scast v) (map scast ws))
      \<le> length vs * 10 + 100"
    using h Cons by (cases ws) (auto simp: blocks_need.simps [of "[]"])
  show ?thesis
    unfolding carquet_delta_encode_int32_def using b Cons
    by (simp del: differences.simps) (rule delta_encode_cases(4); simp)
qed

section \<open>Round trip\<close>

lemma total_lengths_of:
  "\<forall>d \<in> set vs. length d < 2 ^ 31 \<Longrightarrow>
    total_lengths (map (\<lambda>d. word_of_nat (length d)) vs) = Some (length (concat vs))"
  by (induction vs) (auto simp: small_i32)

lemma slices_concat:
  "\<forall>d \<in> set vs. length d < 2 ^ 31 \<Longrightarrow> slices (map (\<lambda>d. word_of_nat (length d)) vs) (concat vs @ r) = vs"
  by (induction vs) (auto simp: small_i32)

lemma put_data_appends:
  assumes "length d < 2 ^ 31"
  shows "appends al buf (put_data al (byte_array_of d) buf) d"
  using assms small_i32 [OF assms] appends_append [of d al buf]
  by (cases "d = []") (auto simp: put_data_def byte_array_of_def appends_Nil)

lemma put_all_data_appends:
  assumes "\<forall>d \<in> set vs. length d < 2 ^ 31"
  shows "appends al buf (encode_loop (put_data al) (map byte_array_of vs) buf) (concat vs)"
proof -
  have "encode_loop (put_data al) (map byte_array_of vs) b = encode_loop (put_data al \<circ> byte_array_of) vs b" for b
    by (induction vs arbitrary: b) (simp_all split: prod.splits)
  then show ?thesis
    using encode_loop_appends [of vs al "put_data al \<circ> byte_array_of" "\<lambda>d. d" buf] put_data_appends assms by simp
qed

text \<open>A buffer of lengths below the reserved capacity is short.\<close>

lemma delta_encode_int32_length:
  assumes "carquet_delta_encode_int32 vs cap = Inr out"
  shows "length out \<le> cap"
proof (cases vs)
  case Nil
  then show ?thesis using assms length_delta_header [of 0 0]
    by (auto simp: carquet_delta_encode_int32_def delta_encode_def Let_def split: if_splits)
next
  case (Cons v ws)
  then have "delta_encode (scast v # map scast ws) cap = Inr out" using assms by (simp add: carquet_delta_encode_int32_def)
  from delta_encode_cases(1) [OF this] show ?thesis by blast
qed

lemma i32_of_length:
  assumes "n < 2 ^ 31"
  shows "(scast (word_of_nat n :: i32) :: u64) = word_of_nat n" "(word_of_nat n :: i32) = 0 \<longleftrightarrow> n = 0"
    "\<not> sint (word_of_nat n :: i32) < 0" "0 < sint (word_of_nat n :: i32) \<longleftrightarrow> 0 < n"
proof -
  show "(scast (word_of_nat n :: i32) :: u64) = word_of_nat n" using assms by (intro scast_of_nat_small) simp
  show "(word_of_nat n :: i32) = 0 \<longleftrightarrow> n = 0" using small_i32(1) [OF assms] by auto
  show "\<not> sint (word_of_nat n :: i32) < 0" "0 < sint (word_of_nat n :: i32) \<longleftrightarrow> 0 < n"
    using small_i32(2) [OF assms] by auto
qed

lemmas i32_length = small_i32 i32_of_length

lemma map_snd_byte_array_of: "map snd (map byte_array_of vs) = map (\<lambda>d. word_of_nat (length d)) vs"
  by (simp add: byte_array_of_def)

text \<open>The empty stream of lengths is the same in every buffer.\<close>

lemma delta_encode_int32_Nil: "40 \<le> cap \<Longrightarrow> carquet_delta_encode_int32 [] cap = Inr (delta_header 0 0)"
  by (simp add: carquet_delta_encode_int32_def delta_encode_def Let_def)

lemma delta_encode_int32_error:
  "carquet_delta_encode_int32 vs cap = Inl e \<Longrightarrow> e = CARQUET_ERROR_ENCODE"
  using delta_encode_cases(3) [of "scast (hd vs)" "map scast (tl vs)" cap e]
  by (cases vs) (auto simp: carquet_delta_encode_int32_def delta_encode_def Let_def split: if_splits)

lemma present_output [simp]: "map_prod Some id x = (Some b, st) \<longleftrightarrow> x = (b, st)"
  by (cases x) simp

lemma delta_length_encode_appends:
  assumes "length vs < 2 ^ 31" "\<forall>d \<in> set vs. length d < 2 ^ 31"
    "carquet_delta_encode_int32 (map (\<lambda>d. word_of_nat (length d)) vs) (length vs * 10 + 100) = Inr lb"
  shows "appends al buf (delta_length_encode_to al (Some (map byte_array_of vs)) (word_of_nat (length vs)) buf)
    (lb @ concat vs)"
proof (cases "vs = []")
  case True
  then show ?thesis
    using assms(3) length_delta_header [of 0 0] appends_append [of lb al buf]
    by (auto simp: delta_length_encode_to_def delta_encode_int32_Nil)
next
  case False
  have lb: "length lb < 2 ^ 64" using delta_encode_int32_length [OF assms(3)] assms(1) by simp
  obtain b st where b: "carquet_buffer_append al buf lb = (b, st)" by fastforce
  have e: "delta_length_encode_to al (Some (map byte_array_of vs)) (word_of_nat (length vs)) buf =
     (if \<not> alloc_grants al (word_of_nat (length vs) * 4) \<or> \<not> alloc_grants al (word_of_nat (length vs * 10 + 100))
      then (buf, CARQUET_ERROR_OUT_OF_MEMORY)
      else if st \<noteq> CARQUET_OK then (b, st) else encode_loop (put_data al) (map byte_array_of vs) b)"
    using assms(3) False b
    by (simp add: delta_length_encode_to_def i32_length [OF assms(1)] byte_array_of_def Let_def comp_def)
  have "appends al buf (if st \<noteq> CARQUET_OK then (b, st) else encode_loop (put_data al) (map byte_array_of vs) b)
      (lb @ concat vs)"
    using appends_append [OF lb, of al buf] put_all_data_appends [OF assms(2)] unfolding b
    by (intro appends_seq [of al buf b st]) auto
  moreover have "appends al buf (buf, CARQUET_ERROR_OUT_OF_MEMORY) (lb @ concat vs)"
    if "\<not> alloc_grants al m" for m using that by (auto simp: appends_def)
  ultimately show ?thesis unfolding e by auto
qed

lemma delta_length_decode_back:
  assumes "unpack_kernels ds" "simd_kernels t" "length vs < 2 ^ 31" "\<forall>d \<in> set vs. length d < 2 ^ 31"
    "carquet_delta_encode_int32 (map (\<lambda>d. word_of_nat (length d)) vs) cap = Inr lb"
    "alloc_grants al (word_of_nat (length vs) * 4)"
  shows "carquet_delta_length_decode ds t al (Some (lb @ concat vs @ r)) True (word_of_nat (length vs)) =
    Inr (vs, length (lb @ concat vs))"
proof -
  note d = delta_int32_back [OF assms(1,2,5), of "concat vs @ r", unfolded length_map]
  show ?thesis
  proof (cases "vs = []")
    case True
    then show ?thesis using d by (simp add: carquet_delta_length_decode_def)
  next
    case False
    then show ?thesis using d assms(6)
      by (simp add: carquet_delta_length_decode_def i32_length [OF assms(3)] total_lengths_of [OF assms(4)]
          slices_concat [OF assms(4)])
  qed
qed

text \<open>
  C27: DELTA\_LENGTH\_BYTE\_ARRAY round trips. Whenever the encoder reports success it has appended bytes from which
  the decoder, whatever follows them, reads the same byte arrays back, consuming exactly those bytes; and with
  granted allocations and room it does succeed as long as every byte array is shorter than four mebibytes.
\<close>

theorem delta_length_roundtrip:
  assumes "unpack_kernels ds" "simd_kernels t" "buffer_wf buf" "buf_owns_data buf"
    "length vs < 2 ^ 31" "\<forall>d \<in> set vs. length d < 2 ^ 31" "\<forall>n. alloc_grants al' n"
    "carquet_delta_length_encode al (Some (map byte_array_of vs)) (word_of_nat (length vs)) (Some buf) = (Some buf', st)"
  shows "(st = CARQUET_OK \<longrightarrow> (\<exists>bs. buffer_contents buf' = buffer_contents buf @ bs \<and>
      (\<forall>r. carquet_delta_length_decode ds t al' (Some (bs @ r)) True (word_of_nat (length vs)) = Inr (vs, length bs)))) \<and>
    ((\<forall>n. alloc_grants al n) \<and> (\<forall>d \<in> set vs. length d < 2 ^ 22) \<and>
      length (buffer_contents buf) + 10 * length vs + 100 + length (concat vs) < 2 ^ 64 \<longrightarrow> st = CARQUET_OK)"
  supply run = assms(8) [unfolded carquet_delta_length_encode_def option.case present_output]
proof (cases "carquet_delta_encode_int32 (map (\<lambda>d. word_of_nat (length d)) vs) (length vs * 10 + 100)")
  case (Inl e)
  have "vs \<noteq> []" using Inl by (auto simp: delta_encode_int32_Nil)
  then have "st \<noteq> CARQUET_OK"
    using Inl assms(5) run delta_encode_int32_error [OF Inl]
    by (auto simp: delta_length_encode_to_def i32_length byte_array_of_def Let_def comp_def split: if_splits)
  moreover have "\<not> (\<forall>d \<in> set vs. length d < 2 ^ 22)"
  proof
    assume "\<forall>d \<in> set vs. length d < 2 ^ 22"
    then have "\<forall>x \<in> set (map (\<lambda>d. word_of_nat (length d)) vs). small_value x"
      using assms(6) by (auto simp: small_value_def small_i32)
    from small_values_encode [OF this] show False using Inl assms(5) by simp
  qed
  ultimately show ?thesis by blast
next
  case (Inr lb)
  have a: "appends al buf (buf', st) (lb @ concat vs)"
    using delta_length_encode_appends [OF assms(5,6) Inr, of al buf] run by simp
  have "carquet_delta_length_decode ds t al' (Some ((lb @ concat vs) @ r)) True (word_of_nat (length vs)) =
      Inr (vs, length (lb @ concat vs))" for r
    using delta_length_decode_back [OF assms(1,2,5,6) Inr, of al' r] assms(7) by simp
  moreover have "length lb \<le> 10 * length vs + 100" using delta_encode_int32_length [OF Inr] by simp
  ultimately show ?thesis
    using a assms(3,4) by (auto simp: appends_def intro!: exI [of _ "lb @ concat vs"])
qed

theorem delta_length_roundtrip_witness:
  "\<exists>bs buf. fst (carquet_delta_length_encode generous (Some (map byte_array_of [[65, 66], [], [67]])) 3
       (Some carquet_buffer_init)) = Some buf \<and> buffer_contents buf = bs \<and>
     carquet_delta_length_decode scalar_dispatch scalar_simd generous (Some (bs @ [9])) True 3 =
       Inr ([[65, 66], [], [67]], length bs)"
proof -
  obtain buf st where e: "carquet_delta_length_encode generous (Some (map byte_array_of [[65, 66], [], [67]]))
      (word_of_nat (length [[65 :: u8, 66], [], [67]])) (Some carquet_buffer_init) = (Some buf, st)"
    by (auto simp: carquet_delta_length_encode_def intro: prod.exhaust)
  have i: "buf_owns_data carquet_buffer_init" by (simp add: carquet_buffer_init_def)
  from delta_length_roundtrip [OF scalar.unpack_kernels_axioms scalar_table.simd_kernels_axioms _ _ _ _ _ e, of generous] e
  show ?thesis using i by (auto simp: generous_def)
qed

section \<open>Arbitrary input\<close>

lemma total_lengths_sound:
  "total_lengths ls = Some n \<Longrightarrow> n \<le> length p \<Longrightarrow>
   length (slices ls p) = length ls \<and> concat (slices ls p) = take n p"
proof (induction ls arbitrary: n p)
  case (Cons l ls)
  from Cons.prems obtain m where m: "total_lengths ls = Some m" "n = unat l + m" by (auto split: if_splits)
  then show ?case using Cons.IH [of m "drop (unat l) p"] Cons.prems(2) by (simp add: take_add)
qed simp

text \<open>
  On any input the decoder stays inside it. When it accepts, the byte arrays returned are as many as asked for,
  and laid end to end they are exactly the last bytes it consumed, after the encoded lengths; a negative length or lengths that
  exceed the input are errors.
\<close>

theorem delta_length_decode_sound:
  assumes "unpack_kernels ds" "simd_kernels t"
    "carquet_delta_length_decode ds t al (Some data) True n = Inr (vs, k)"
  shows "0 \<le> sint n \<and> length vs = unat n \<and> k \<le> length data \<and>
    (\<exists>c \<le> k. concat vs = take (k - c) (drop c data))"
proof (cases "n = 0")
  case True
  then obtain ls where "carquet_delta_decode_int32 ds t data 0 = Inr (ls, k)" "vs = []"
    using assms(3) by (auto simp: carquet_delta_length_decode_def split: sum.splits)
  then show ?thesis using delta_decode_int32_within [OF assms(1,2), of data 0] True by auto
next
  case False
  then obtain ls c m where *: "carquet_delta_decode_int32 ds t data (unat n) = Inr (ls, c)" "total_lengths ls = Some m"
    "c + m \<le> length data" "vs = slices ls (drop c data)" "k = c + m" "\<not> sint n < 0"
    using assms(3)
    by (auto simp: carquet_delta_length_decode_def not_less split: sum.splits option.splits if_splits)
  then show ?thesis
    using delta_decode_int32_within [OF assms(1,2) *(1)] total_lengths_sound [OF *(2), of "drop c data"]
    by (auto intro!: exI [of _ c])
qed

theorem delta_length_decode_sound_witness:
  "\<exists>vs k c. carquet_delta_length_decode scalar_dispatch scalar_simd generous (Some [0x80, 1, 4, 1, 4, 65, 66, 9]) True 1 =
      Inr (vs, k) \<and> length vs = 1 \<and> k \<le> 8 \<and> c \<le> k \<and>
      concat vs = take (k - c) (drop c [0x80, 1, 4, 1, 4, 65, 66, 9])"
proof -
  have "carquet_delta_length_decode scalar_dispatch scalar_simd generous (Some [0x80, 1, 4, 1, 4, 65, 66, 9]) True 1 =
      Inr ([[65, 66]], 7)" by code_simp
  from delta_length_decode_sound [OF scalar.unpack_kernels_axioms scalar_table.simd_kernels_axioms this] this
  show ?thesis by force
qed

section \<open>Lengths that do not fit\<close>

text \<open>
  C21: the capacity reserved for the encoded lengths, which the code calls a generous estimate, is too small for
  some inputs: three byte arrays of which the middle one has \<open>2\<^sup>2\<^sup>8\<close> bytes and the others none are refused with
  \<^verbatim>\<open>CARQUET_ERROR_ENCODE\<close> whatever memory there is, and nothing is written.
\<close>

theorem delta_length_capacity_fails:
  assumes "length d = 2 ^ 28" "\<forall>n. alloc_grants al n"
  shows "carquet_delta_length_encode al (Some (map byte_array_of [[], d, []])) 3 (Some buf) = (Some buf, CARQUET_ERROR_ENCODE)"
proof -
  have "carquet_delta_encode_int32 [0, 268435456, 0] 130 = Inl CARQUET_ERROR_ENCODE" by code_simp
  then show ?thesis
    using assms by (simp add: carquet_delta_length_encode_def delta_length_encode_to_def byte_array_of_def Let_def)
qed

theorem delta_length_capacity_fails_witness:
  "carquet_delta_length_encode generous (Some (map byte_array_of [[], replicate (2 ^ 28) 0, []])) 3 (Some carquet_buffer_init) =
    (Some carquet_buffer_init, CARQUET_ERROR_ENCODE)"
  by (rule delta_length_capacity_fails [OF length_replicate]) (simp add: generous_def)

text \<open>
  Nor is the estimate of the encoded size an upper bound: three byte arrays of which the middle one has \<open>2\<^sup>2\<^sup>6 - 1\<close> bytes
  take 121 bytes for their lengths, the estimate allows 115.
\<close>

lemma delta_length_estimate_exceeded:
  assumes "length d = 2 ^ 26 - 1"
  shows "(\<exists>lb. carquet_delta_encode_int32 (map (\<lambda>d. word_of_nat (length d)) [[], d, []]) 130 = Inr lb \<and> length lb = 121) \<and>
    carquet_delta_length_max_encoded_size (Some (map byte_array_of [[], d, []])) 3 = word_of_nat (length d + 115)"
proof
  let ?ds = "[0x3FFFFFF, - 0x3FFFFFF] :: i64 list"
  have w: "map (chunk_width ?ds) [0..<4] = [27, 0, 0, 0]"
    and m: "find_min_delta ?ds = - 0x3FFFFFF" by code_simp+
  have h: "length (delta_header 3 0) = 5"
    by (simp add: delta_header_def DELTA_BLOCK_SIZE_def DELTA_MINI_BLOCKS_def write_uleb128_def zigzag_encode64_def varint_bytes.simps)
  have z: "length (write_uleb128 (zigzag_encode64 (find_min_delta ?ds))) = 4"
    unfolding m by (simp add: zigzag_encode64_def write_uleb128_def varint_bytes.simps)
  have b: "length (block_bytes ?ds) = 116" "block_need ?ds = 122"
    using w z by (simp_all add: block_bytes_def block_need_def length_concat length_packed_chunk comp_def packed_bytes_needed_def upt_4)
  have bs: "length (blocks_bytes ?ds) = 116" "blocks_need ?ds = 122"
    using b by (simp_all add: blocks_bytes.simps [of ?ds] blocks_need.simps [of ?ds] blocks_bytes.simps [of "[]"] blocks_need.simps [of "[]"])
  obtain lb where lb: "delta_encode [0, 0x3FFFFFF, 0] 130 = Inr lb"
    using delta_encode_cases(4) [of 130 0 "[0x3FFFFFF, 0]"] h bs by (auto simp: numeral_3_eq_3)
  from delta_encode_cases(1) [OF this] have "length lb = 121" using h bs by (simp add: numeral_3_eq_3)
  then show "\<exists>lb. carquet_delta_encode_int32 (map (\<lambda>d. word_of_nat (length d)) [[], d, []]) 130 = Inr lb \<and> length lb = 121"
    using assms lb by (simp add: carquet_delta_encode_int32_def)
  show "carquet_delta_length_max_encoded_size (Some (map byte_array_of [[], d, []])) 3 = word_of_nat (length d + 115)"
    using assms by (simp add: carquet_delta_length_max_encoded_size_def sum_sizes_def byte_array_of_def)
qed

end
