(* ===== verification/Delta_Strings.thy ===== *)
theory Delta_Strings
  imports Delta_Length
begin

text \<open>
  \<^verbatim>\<open>encoding/delta_strings.c\<close>: byte arrays as the length of the prefix shared with the previous one and the
  remaining suffix. The decoder rebuilds the strings in the caller's work buffer, each one from the
  previous one in the same buffer; the work buffer is an explicit array here, and a value is the position and length
  of a string in it. The decoder returns the work buffer with every status, so that what was written before an
  error is seen. A copy outside an array or between overlapping ranges and a signed 32-bit sum that overflows are
  undefined and have no result but \<open>Invalid_Access\<close>. Sums of lengths do not wrap a 64-bit \<^verbatim>\<open>size_t\<close>.
\<close>

section \<open>Definitions\<close>

definition ba_data :: "carquet_byte_array \<Rightarrow> bytes" where
  "ba_data v = (case fst v of None \<Rightarrow> [] | Some d \<Rightarrow> d)"

fun prefix_loop :: "bytes \<Rightarrow> bytes \<Rightarrow> nat" where
  "prefix_loop (a # as) (b # bs) = (if a \<noteq> b then 0 else Suc (prefix_loop as bs))"
| "prefix_loop _ _ = 0"

definition common_prefix_length :: "carquet_byte_array \<Rightarrow> carquet_byte_array \<Rightarrow> i32" where
  "common_prefix_length a b =
     (let min_len = min (unat (snd a)) (unat (snd b)) in
      word_of_nat (prefix_loop (take min_len (ba_data a)) (take min_len (ba_data b))))"

subsection \<open>Decoder\<close>

definition write_at :: "bytes \<Rightarrow> nat \<Rightarrow> bytes \<Rightarrow> bytes" where
  "write_at buf p bs = take p buf @ bs @ drop (p + length bs) buf"

text \<open>\<^verbatim>\<open>memcpy\<close> inside the work buffer and into it.\<close>

definition copy_within :: "bytes \<Rightarrow> nat \<Rightarrow> nat \<Rightarrow> nat \<Rightarrow> bytes access" where
  "copy_within work dst src n =
     (if src + n \<le> length work \<and> dst + n \<le> length work \<and> (src + n \<le> dst \<or> dst + n \<le> src)
      then Done (write_at work dst (take n (drop src work))) else Invalid_Access)"

definition copy_into :: "bytes \<Rightarrow> nat \<Rightarrow> bytes \<Rightarrow> nat \<Rightarrow> bytes access" where
  "copy_into work dst data n =
     (if n \<le> length data \<and> dst + n \<le> length work then Done (write_at work dst (take n data)) else Invalid_Access)"

definition add_int32 :: "i32 \<Rightarrow> i32 \<Rightarrow> i32 access" where
  "add_int32 a b =
     (if - (2 ^ 31) \<le> sint a + sint b \<and> sint a + sint b < 2 ^ 31 then Done (a + b) else Invalid_Access)"

text \<open>
  \<open>prev\<close> is \<^verbatim>\<open>prev_string\<close> and \<^verbatim>\<open>prev_len\<close>. \<open>None\<close> is the prefix that the previous string does
  not have.
\<close>

definition copy_prefix :: "bytes \<Rightarrow> nat \<Rightarrow> (nat \<times> u32) option \<Rightarrow> i32 \<Rightarrow> bytes option access" where
  "copy_prefix work dest prev prefix_len =
     (if 0 < sint prefix_len
      then case prev of
             None \<Rightarrow> Done None
           | Some (prev_string, prev_len) \<Rightarrow>
               if sint prev_len < sint prefix_len then Done None
               else and_then (copy_within work dest prev_string (unat prefix_len)) (\<lambda>w. Done (Some w))
      else Done (Some work))"

fun strings_loop ::
    "(i32 \<times> i32) list \<Rightarrow> bytes \<Rightarrow> bytes \<Rightarrow> nat \<Rightarrow> (nat \<times> u32) option \<Rightarrow>
     (bytes \<times> (nat \<times> u32) list outcome) access" where
  "strings_loop [] suffix_data work work_offset prev = Done (work, Inr [])"
| "strings_loop ((prefix_len, suffix_len) # ls) suffix_data work work_offset prev =
     and_then (add_int32 prefix_len suffix_len) (\<lambda>total_len.
     if length work < work_offset + unat total_len then Done (work, Inl CARQUET_ERROR_OUT_OF_MEMORY)
     else and_then (copy_prefix work work_offset prev prefix_len) (\<lambda>copied.
       case copied of
         None \<Rightarrow> Done (work, Inl CARQUET_ERROR_DECODE)
       | Some work1 \<Rightarrow>
           and_then (if 0 < sint suffix_len
             then copy_into work1 (work_offset + unat prefix_len) suffix_data (unat suffix_len)
             else Done work1) (\<lambda>work2.
           and_then (strings_loop ls (if 0 < sint suffix_len then drop (unat suffix_len) suffix_data else suffix_data)
               work2 (work_offset + unat total_len) (Some (work_offset, total_len))) (\<lambda>(w, r).
           Done (w, map_sum id (Cons (work_offset, total_len)) r)))))"

text \<open>The two streams of lengths, and the position after them.\<close>

definition decode_length_streams ::
    "bitunpack_dispatch \<Rightarrow> carquet_simd_dispatch \<Rightarrow> bytes \<Rightarrow> nat \<Rightarrow> (i32 list \<times> i32 list \<times> nat) outcome" where
  "decode_length_streams ds t data n =
     (case carquet_delta_decode_int32 ds t data n of
        Inl e \<Rightarrow> Inl e
      | Inr (prefix_lengths, c1) \<Rightarrow>
          (case carquet_delta_decode_int32 ds t (drop c1 data) n of
             Inl e \<Rightarrow> Inl e
           | Inr (suffix_lengths, c2) \<Rightarrow> Inr (prefix_lengths, suffix_lengths, c1 + c2)))"

definition carquet_delta_strings_decode ::
    "bitunpack_dispatch \<Rightarrow> carquet_simd_dispatch \<Rightarrow> allocator \<Rightarrow> bytes option \<Rightarrow> bool \<Rightarrow> i32 \<Rightarrow> bytes \<Rightarrow>
     (bytes \<times> ((nat \<times> u32) list \<times> nat) outcome) access" where
  "carquet_delta_strings_decode ds t al input out num_values work_buffer =
     (case input of
        None \<Rightarrow> Done (work_buffer, Inl CARQUET_ERROR_INVALID_ARGUMENT)
      | Some data \<Rightarrow>
          if sint num_values < 0 \<or> 0 < sint num_values \<and> \<not> out
          then Done (work_buffer, Inl CARQUET_ERROR_INVALID_ARGUMENT)
          else if num_values = 0
          then Done (work_buffer,
            case decode_length_streams ds t data 0 of
              Inl e \<Rightarrow> Inl e
            | Inr (_, _, pos) \<Rightarrow> Inr ([], pos))
          else if \<not> alloc_grants al (scast num_values * 4) then Done (work_buffer, Inl CARQUET_ERROR_OUT_OF_MEMORY)
          else (case decode_length_streams ds t data (unat num_values) of
                  Inl e \<Rightarrow> Done (work_buffer, Inl e)
                | Inr (prefix_lengths, suffix_lengths, pos) \<Rightarrow>
                    (case (total_lengths prefix_lengths, total_lengths suffix_lengths) of
                       (Some _, Some total_suffix_size) \<Rightarrow>
                         if length data < pos + total_suffix_size then Done (work_buffer, Inl CARQUET_ERROR_DECODE)
                         else and_then (strings_loop (zip prefix_lengths suffix_lengths) (drop pos data) work_buffer 0 None)
                           (\<lambda>(w, r). Done (w, map_sum id (\<lambda>vs. (vs, pos + total_suffix_size)) r))
                     | _ \<Rightarrow> Done (work_buffer, Inl CARQUET_ERROR_DECODE))))"

text \<open>\<open>required_size\<close> is not \<^verbatim>\<open>NULL\<close>.\<close>

definition carquet_delta_strings_decoded_size ::
    "bitunpack_dispatch \<Rightarrow> carquet_simd_dispatch \<Rightarrow> allocator \<Rightarrow> bytes option \<Rightarrow> i32 \<Rightarrow> nat outcome" where
  "carquet_delta_strings_decoded_size ds t al input num_values =
     (case input of
        None \<Rightarrow> Inl CARQUET_ERROR_INVALID_ARGUMENT
      | Some data \<Rightarrow>
          if sint num_values \<le> 0 then Inl CARQUET_ERROR_INVALID_ARGUMENT
          else if \<not> alloc_grants al (scast num_values * 4) then Inl CARQUET_ERROR_OUT_OF_MEMORY
          else (case decode_length_streams ds t data (unat num_values) of
                  Inl e \<Rightarrow> Inl e
                | Inr (prefix_lengths, suffix_lengths, pos) \<Rightarrow>
                    (case (total_lengths prefix_lengths, total_lengths suffix_lengths) of
                       (Some p, Some s) \<Rightarrow> Inr (p + s)
                     | _ \<Rightarrow> Inl CARQUET_ERROR_DECODE)))"

subsection \<open>Encoder\<close>

text \<open>The first byte array has no prefix.\<close>

definition prefix_of :: "carquet_byte_array option \<Rightarrow> carquet_byte_array \<Rightarrow> i32" where
  "prefix_of prev v = (case prev of None \<Rightarrow> 0 | Some u \<Rightarrow> common_prefix_length u v)"

primrec length_pairs :: "carquet_byte_array option \<Rightarrow> carquet_byte_array list \<Rightarrow> (i32 \<times> i32) list" where
  "length_pairs prev [] = []"
| "length_pairs prev (v # vs) = (let p = prefix_of prev v in (p, snd v - p) # length_pairs (Some v) vs)"

text \<open>The suffix data; the prefix is computed a second time, the suffix length is taken from the first pass.\<close>

fun put_suffixes ::
    "allocator \<Rightarrow> carquet_byte_array option \<Rightarrow> (carquet_byte_array \<times> i32) list \<Rightarrow> carquet_buffer \<Rightarrow>
     carquet_buffer \<times> carquet_status" where
  "put_suffixes al prev [] buf = (buf, CARQUET_OK)"
| "put_suffixes al prev ((v, suffix_len) # vs) buf =
     (let prefix_len = prefix_of prev v in
      case (case fst v of
              Some d \<Rightarrow> if 0 < sint suffix_len
                        then carquet_buffer_append al buf (take (unat suffix_len) (drop (unat prefix_len) d))
                        else (buf, CARQUET_OK)
            | None \<Rightarrow> (buf, CARQUET_OK)) of
        (b, status) \<Rightarrow> if status \<noteq> CARQUET_OK then (b, status) else put_suffixes al (Some v) vs b)"

text \<open>One stream of lengths: encoded into the temporary buffer and appended.\<close>

definition put_lengths :: "allocator \<Rightarrow> nat \<Rightarrow> i32 list \<Rightarrow> carquet_buffer \<Rightarrow> carquet_buffer \<times> carquet_status" where
  "put_lengths al delta_capacity lengths buf =
     (case carquet_delta_encode_int32 lengths delta_capacity of
        Inl e \<Rightarrow> (buf, e)
      | Inr delta_buffer \<Rightarrow> carquet_buffer_append al buf delta_buffer)"

text \<open>The encoder into an output buffer; without one it is refused like the other bad arguments.\<close>

definition delta_strings_encode_to ::
    "allocator \<Rightarrow> carquet_byte_array list option \<Rightarrow> i32 \<Rightarrow> carquet_buffer \<Rightarrow> carquet_buffer \<times> carquet_status" where
  "delta_strings_encode_to al input num_values buf =
     (if sint num_values < 0 \<or> 0 < sint num_values \<and> input = None then (buf, CARQUET_ERROR_INVALID_ARGUMENT)
      else if num_values = 0
      then (case put_lengths al 64 [] buf of (b, status) \<Rightarrow>
              if status \<noteq> CARQUET_OK then (b, status) else put_lengths al 64 [] b)
      else let vs = take (unat num_values) (the input); pairs = length_pairs None vs;
               delta_capacity = unat num_values * 10 + 100 in
           if \<not> alloc_grants al (scast num_values * 4) then (buf, CARQUET_ERROR_OUT_OF_MEMORY)
           else if \<not> alloc_grants al (word_of_nat delta_capacity) then (buf, CARQUET_ERROR_OUT_OF_MEMORY)
           else case put_lengths al delta_capacity (map fst pairs) buf of (b1, st1) \<Rightarrow>
             if st1 \<noteq> CARQUET_OK then (b1, st1)
             else case put_lengths al delta_capacity (map snd pairs) b1 of (b2, st2) \<Rightarrow>
               if st2 \<noteq> CARQUET_OK then (b2, st2)
               else put_suffixes al None (zip vs (map snd pairs)) b2)"

definition carquet_delta_strings_encode ::
    "allocator \<Rightarrow> carquet_byte_array list option \<Rightarrow> i32 \<Rightarrow> carquet_buffer option \<Rightarrow>
     carquet_buffer option \<times> carquet_status" where
  "carquet_delta_strings_encode al input num_values buf =
     (case buf of
        None \<Rightarrow> (None, CARQUET_ERROR_INVALID_ARGUMENT)
      | Some b \<Rightarrow> map_prod Some id (delta_strings_encode_to al input num_values b))"

definition carquet_delta_strings_work_buffer_size :: "carquet_byte_array list option \<Rightarrow> i32 \<Rightarrow> u64" where
  "carquet_delta_strings_work_buffer_size input num_values =
     (case input of
        None \<Rightarrow> 0
      | Some vs \<Rightarrow> if sint num_values \<le> 0 then 0 else sum_sizes (take (unat num_values) vs))"

definition carquet_delta_strings_max_encoded_size :: "carquet_byte_array list option \<Rightarrow> i32 \<Rightarrow> u64" where
  "carquet_delta_strings_max_encoded_size input num_values =
     (case input of
        None \<Rightarrow> 0
      | Some vs \<Rightarrow>
          if sint num_values \<le> 0 then 0
          else sum_sizes (take (unat num_values) vs) + (scast num_values * 10 + 200))"

section \<open>Front coding\<close>

text \<open>
  The specification: the prefix lengths and suffixes of a list of strings, and how they determine the list.
\<close>

definition shared :: "bytes option \<Rightarrow> bytes \<Rightarrow> nat" where
  "shared prev v = (case prev of None \<Rightarrow> 0 | Some u \<Rightarrow> prefix_loop u v)"

primrec fronts :: "bytes option \<Rightarrow> bytes list \<Rightarrow> (nat \<times> bytes) list" where
  "fronts prev [] = []"
| "fronts prev (v # vs) = (shared prev v, drop (shared prev v) v) # fronts (Some v) vs"

lemma prefix_loop_le: "prefix_loop a b \<le> length a" "prefix_loop a b \<le> length b"
  by (induction a b rule: prefix_loop.induct) auto

lemma prefix_loop_same: "take (prefix_loop a b) a = take (prefix_loop a b) b"
  by (induction a b rule: prefix_loop.induct) auto

lemma prefix_loop_take: "prefix_loop (take (min (length a) (length b)) a) (take (min (length a) (length b)) b) = prefix_loop a b"
  by (induction a b rule: prefix_loop.induct) auto

lemma shared_le: "shared prev v \<le> length v"
  by (auto simp: shared_def prefix_loop_le split: option.splits)

lemma prefix_of_shared:
  assumes "length v < 2 ^ 31" "\<forall>u. prev = Some u \<longrightarrow> length u < 2 ^ 31"
  shows "prefix_of (map_option byte_array_of prev) (byte_array_of v) = word_of_nat (shared prev v)"
  using assms by (cases prev)
    (simp_all add: prefix_of_def shared_def common_prefix_length_def byte_array_of_def ba_data_def small_i32 prefix_loop_take)

text \<open>The pairs of lengths the encoder stores.\<close>

definition front_lengths :: "(nat \<times> bytes) list \<Rightarrow> (i32 \<times> i32) list" where
  "front_lengths fs = map (\<lambda>(p, s). (word_of_nat p, word_of_nat (length s))) fs"

lemma byte_array_of_sel [simp]: "fst (byte_array_of v) = Some v" "snd (byte_array_of v) = word_of_nat (length v)"
  by (simp_all add: byte_array_of_def)

lemma length_pairs_fronts:
  "\<forall>v \<in> set vs. length v < 2 ^ 31 \<Longrightarrow> \<forall>u. prev = Some u \<longrightarrow> length u < 2 ^ 31 \<Longrightarrow>
   length_pairs (map_option byte_array_of prev) (map byte_array_of vs) = front_lengths (fronts prev vs)"
proof (induction vs arbitrary: prev)
  case (Cons v vs)
  have "(word_of_nat (length v) :: i32) - word_of_nat (shared prev v) = word_of_nat (length v - shared prev v)"
    using shared_le [of prev v] by (simp add: of_nat_diff)
  then show ?case
    using Cons.IH [of "Some v"] Cons.prems prefix_of_shared [of v prev]
    by (simp add: front_lengths_def Let_def)
qed (simp add: front_lengths_def)

lemma length_fronts [simp]: "length (fronts prev vs) = length vs"
  by (induction vs arbitrary: prev) simp_all

lemma fronts_small:
  "\<forall>v \<in> set vs. length v < n \<Longrightarrow> \<forall>(p, s) \<in> set (fronts prev vs). p + length s < n"
proof (induction vs arbitrary: prev)
  case (Cons v vs)
  then show ?case using Cons.IH [of "Some v"] shared_le [of prev v] by auto
qed simp

lemma fronts_total: "(\<Sum>(p, s) \<leftarrow> fronts prev vs. p + length s) = length (concat vs)"
proof (induction vs arbitrary: prev)
  case (Cons v vs)
  then show ?case using shared_le [of prev v] by simp
qed simp

section \<open>Encoder\<close>

lemma put_suffixes_appends:
  "\<forall>v \<in> set vs. length v < 2 ^ 31 \<Longrightarrow> \<forall>u. prev = Some u \<longrightarrow> length u < 2 ^ 31 \<Longrightarrow>
   appends al buf (put_suffixes al (map_option byte_array_of prev)
       (zip (map byte_array_of vs) (map snd (front_lengths (fronts prev vs)))) buf)
     (concat (map snd (fronts prev vs)))"
proof (induction vs arbitrary: prev buf)
  case Nil
  then show ?case by (simp add: appends_Nil)
next
  case (Cons v vs)
  define p where "p = shared prev v"
  have p: "p \<le> length v" "length v < 2 ^ 31" using shared_le Cons.prems by (auto simp: p_def)
  have w: "prefix_of (map_option byte_array_of prev) (byte_array_of v) = word_of_nat p"
    unfolding p_def using Cons.prems by (intro prefix_of_shared) auto
  let ?s = "drop p v"
  have "length ?s < 2 ^ 31" using p by simp
  then have s: "unat (word_of_nat (length ?s) :: i32) = length ?s" "sint (word_of_nat (length ?s) :: i32) = int (length ?s)"
    "unat (word_of_nat p :: i32) = p"
    using small_i32 [of "length ?s"] small_i32 [of p] p by (simp_all only:)
  define r where "r = (if ?s = [] then (buf, CARQUET_OK) else carquet_buffer_append al buf ?s)"
  obtain b st where b: "r = (b, st)" by fastforce
  have r: "appends al buf (b, st) ?s"
    unfolding b [symmetric] r_def using appends_append [of ?s al buf] p by (auto simp: appends_Nil)
  have e: "put_suffixes al (map_option byte_array_of prev)
       (zip (map byte_array_of (v # vs)) (map snd (front_lengths (fronts prev (v # vs))))) buf =
     (if st \<noteq> CARQUET_OK then (b, st) else put_suffixes al (map_option byte_array_of (Some v))
       (zip (map byte_array_of vs) (map snd (front_lengths (fronts (Some v) vs)))) b)"
    using s b w unfolding r_def
    by (cases "length v \<le> p") (simp_all add: front_lengths_def Let_def p_def [symmetric] del: length_drop)
  have "appends al buf (if st \<noteq> CARQUET_OK then (b, st) else put_suffixes al (map_option byte_array_of (Some v))
       (zip (map byte_array_of vs) (map snd (front_lengths (fronts (Some v) vs)))) b)
      (?s @ concat (map snd (fronts (Some v) vs)))"
    using r Cons.IH [of "Some v" b] Cons.prems by (intro appends_seq [of al buf b st]) auto
  then show ?case unfolding e by (simp add: p_def)
qed

section \<open>Decoder\<close>

lemma length_write_at [simp]: "p + length bs \<le> length w \<Longrightarrow> length (write_at w p bs) = length w"
  by (simp add: write_at_def)

lemma take_write_at [simp]: "p \<le> length w \<Longrightarrow> q \<le> p \<Longrightarrow> take q (write_at w p bs) = take q w"
  by (simp add: write_at_def min_def)

lemma write_at_Nil [simp]: "write_at w p [] = w"
  by (simp add: write_at_def)

lemma write_at_seq:
  "p + length a \<le> length w \<Longrightarrow> write_at (write_at w p a) (p + length a) b = write_at w p (a @ b)"
  by (cases a) (auto simp: write_at_def min_def ac_simps)

lemma read_write_at: "p \<le> length w \<Longrightarrow> take (length bs) (drop p (write_at w p bs)) = bs"
  by (simp add: write_at_def)

definition string_at :: "bytes \<Rightarrow> nat \<times> u32 \<Rightarrow> bytes" where
  "string_at w v = take (unat (snd v)) (drop (fst v) w)"

lemma slice_of_prefix: "take (p + n) w = take (p + n) w' \<Longrightarrow> take n (drop p w) = take n (drop p w')"
  by (metis take_drop add.commute)

text \<open>\<open>prev\<close> is a string stored in the work buffer before \<open>off\<close>.\<close>

definition prev_at :: "bytes \<Rightarrow> nat \<Rightarrow> bytes option \<Rightarrow> (nat \<times> u32) option \<Rightarrow> bool" where
  "prev_at work off prev pv \<longleftrightarrow>
     (case prev of
        None \<Rightarrow> pv = None
      | Some u \<Rightarrow> length u < 2 ^ 31 \<and>
          (\<exists>po. pv = Some (po, word_of_nat (length u)) \<and> po + length u \<le> off \<and> take (length u) (drop po work) = u))"

lemma add_int32_small: "a + b < 2 ^ 31 \<Longrightarrow> add_int32 (word_of_nat a) (word_of_nat b) = Done (word_of_nat (a + b))"
  using small_i32(2) [of a] small_i32(2) [of b] by (simp add: add_int32_def)

lemma copy_prefix_back:
  assumes "prev_at work off prev pv" "length v < 2 ^ 31" "off + shared prev v \<le> length work"
  shows "copy_prefix work off pv (word_of_nat (shared prev v)) = Done (Some (write_at work off (take (shared prev v) v)))"
proof (cases "shared prev v = 0")
  case True
  then show ?thesis by (simp add: copy_prefix_def)
next
  case False
  then obtain u po where u: "prev = Some u" "length u < 2 ^ 31" "pv = Some (po, word_of_nat (length u))"
    "po + length u \<le> off" "take (length u) (drop po work) = u"
    using assms(1) by (auto simp: shared_def prev_at_def split: option.splits)
  have p: "shared prev v = prefix_loop u v" by (simp add: shared_def u(1))
  have le: "prefix_loop u v \<le> length u" "prefix_loop u v < 2 ^ 31"
    using prefix_loop_le(1) [of u v] u(2) by simp_all
  have "take (prefix_loop u v) (drop po work) = take (prefix_loop u v) v"
    using u(5) le(1) prefix_loop_same [of u v] by (metis min.absorb1 take_take)
  moreover have "po + prefix_loop u v \<le> off" "off + prefix_loop u v \<le> length work"
    using u(4) le(1) assms(3) p by simp_all
  ultimately have "copy_within work off po (prefix_loop u v) = Done (write_at work off (take (prefix_loop u v) v))"
    by (simp add: copy_within_def)
  then show ?thesis
    using False le small_i32 [OF u(2)] small_i32 [OF le(2)] unfolding p by (simp add: copy_prefix_def u(3))
qed

lemma strings_loop_step:
  assumes "p + length s < 2 ^ 31" "off + (p + length s) \<le> length work" "copy_prefix work off pv (word_of_nat p) = Done (Some w1)"
    "length w1 = length work"
  shows "strings_loop ((word_of_nat p, word_of_nat (length s)) # ls) (s @ suf) work off pv =
    and_then (strings_loop ls suf (if s = [] then w1 else write_at w1 (off + p) s)
         (off + (p + length s)) (Some (off, word_of_nat (p + length s)))) (\<lambda>(w, r).
    Done (w, map_sum id (Cons (off, word_of_nat (p + length s))) r))"
proof -
  have "p < 2 ^ 31" "length s < 2 ^ 31" using assms(1) by simp_all
  note u = small_i32 [OF this(1)] small_i32 [OF this(2)] small_i32(1) [OF assms(1)]
  have "copy_into w1 (off + p) (s @ suf) (length s) = Done (write_at w1 (off + p) s)"
    using assms(2, 4) by (simp add: copy_into_def)
  moreover have "add_int32 (word_of_nat p) 0 = Done (word_of_nat p)"
    using add_int32_small [of p 0] assms(1) by simp
  ultimately show ?thesis
    using assms(2, 3) u by (cases "s = []") (simp_all add: add_int32_small [OF assms(1)] del: of_nat_add)
qed

lemma strings_loop_back:
  "\<forall>v \<in> set vs. length v < 2 ^ 31 \<Longrightarrow> prev_at work off prev pv \<Longrightarrow> off + length (concat vs) \<le> length work \<Longrightarrow>
   \<exists>ps w. strings_loop (front_lengths (fronts prev vs)) (concat (map snd (fronts prev vs)) @ r) work off pv = Done (w, Inr ps) \<and>
     length w = length work \<and> take off w = take off work \<and> map (string_at w) ps = vs"
proof (induction vs arbitrary: work off prev pv)
  case Nil
  then show ?case by (simp add: front_lengths_def)
next
  case (Cons v vs)
  define p where "p = shared prev v"
  have p: "p \<le> length v" "length v < 2 ^ 31" using shared_le Cons.prems(1) by (auto simp: p_def)
  have room: "off + length v \<le> length work" using Cons.prems(3) by simp
  let ?s = "drop p v" and ?w2 = "write_at work off v" and ?n = "word_of_nat (length v) :: u32"
  note s = small_i32 [OF p(2)]
  have pre: "copy_prefix work off pv (word_of_nat p) = Done (Some (write_at work off (take p v)))"
    using copy_prefix_back [OF Cons.prems(2) p(2)] p(1) room by (simp add: p_def)
  have w2: "(if ?s = [] then write_at work off (take p v)
      else write_at (write_at work off (take p v)) (off + p) ?s) = ?w2"
    using write_at_seq [of off "take p v" work ?s] p room by (auto simp: min_def)
  have "prev_at ?w2 (off + length v) (Some v) (Some (off, ?n))"
    using p(2) room by (simp add: prev_at_def read_write_at)
  from Cons.IH [OF _ this] Cons.prems obtain ps w where
    IH: "strings_loop (front_lengths (fronts (Some v) vs)) (concat (map snd (fronts (Some v) vs)) @ r) ?w2
         (off + length v) (Some (off, ?n)) = Done (w, Inr ps)"
    "length w = length work" "take (off + length v) w = take (off + length v) ?w2" "map (string_at w) ps = vs"
    using room by auto
  have "strings_loop (front_lengths (fronts prev (v # vs))) (concat (map snd (fronts prev (v # vs))) @ r) work off pv =
      Done (w, Inr ((off, ?n) # ps))"
    using strings_loop_step [of p ?s off work pv "write_at work off (take p v)" "front_lengths (fronts (Some v) vs)"
        "concat (map snd (fronts (Some v) vs)) @ r"] IH(1) w2 pre p room
    by (simp add: front_lengths_def p_def [symmetric])
  moreover have "string_at w (off, ?n) = v"
    using slice_of_prefix [OF IH(3)] read_write_at [of off work v] room s by (simp add: string_at_def)
  moreover have "take off w = take off work"
    using arg_cong [OF IH(3), of "take off"] room by simp
  ultimately show ?case using IH by auto
qed

section \<open>Round trip\<close>

definition front_prefixes :: "bytes list \<Rightarrow> i32 list" where
  "front_prefixes vs = map fst (front_lengths (fronts None vs))"

definition front_suffixes :: "bytes list \<Rightarrow> i32 list" where
  "front_suffixes vs = map snd (front_lengths (fronts None vs))"

lemma length_fronts_lists [simp]: "length (front_prefixes vs) = length vs" "length (front_suffixes vs) = length vs"
  by (simp_all add: front_prefixes_def front_suffixes_def front_lengths_def)

lemma front_parts:
  assumes "\<forall>v \<in> set vs. length v < 2 ^ n" "n \<le> 31"
  shows "\<forall>l \<in> set (front_prefixes vs) \<union> set (front_suffixes vs). 0 \<le> sint l \<and> sint l < 2 ^ n"
proof -
  have "(2 :: nat) ^ n \<le> 2 ^ 31" using assms(2) by (rule power_increasing) simp
  have "0 \<le> sint (word_of_nat k :: i32) \<and> sint (word_of_nat k :: i32) < 2 ^ n" if "k < 2 ^ n" for k
  proof -
    have "int k < int (2 ^ n)" using that by (simp only: of_nat_less_iff)
    moreover have "k < 2 ^ 31" using that \<open>2 ^ n \<le> 2 ^ 31\<close> by linarith
    ultimately show ?thesis using small_i32(2) [of k] by simp
  qed
  then show ?thesis
    using fronts_small [OF assms(1), of None]
    by (fastforce simp: front_prefixes_def front_suffixes_def front_lengths_def)
qed

lemma total_lengths_map:
  "\<forall>x \<in> set xs. f x < 2 ^ 31 \<Longrightarrow> total_lengths (map (\<lambda>x. word_of_nat (f x)) xs) = Some (sum_list (map f xs))"
  by (induction xs) (auto simp: small_i32)

lemma front_totals:
  assumes "\<forall>v \<in> set vs. length v < 2 ^ 31"
  shows "total_lengths (front_suffixes vs) = Some (length (concat (map snd (fronts None vs))))"
    "\<exists>k. total_lengths (front_prefixes vs) = Some k \<and> k + length (concat (map snd (fronts None vs))) = length (concat vs)"
proof -
  have f: "\<forall>x \<in> set (fronts None vs). fst x < 2 ^ 31 \<and> length (snd x) < 2 ^ 31"
    using fronts_small [OF assms, of None] by fastforce
  have m: "front_suffixes vs = map (\<lambda>x. word_of_nat (length (snd x))) (fronts None vs)"
    "front_prefixes vs = map (\<lambda>x. word_of_nat (fst x)) (fronts None vs)"
    by (auto simp: front_suffixes_def front_prefixes_def front_lengths_def)
  show "total_lengths (front_suffixes vs) = Some (length (concat (map snd (fronts None vs))))"
    using f total_lengths_map [of "fronts None vs" "\<lambda>x. length (snd x)"] by (simp add: m length_concat comp_def)
  have "sum_list (map fst (fronts None vs)) + sum_list (map (\<lambda>x. length (snd x)) (fronts None vs)) = length (concat vs)"
    using fronts_total [of None vs] by (simp add: sum_list_addf [symmetric] case_prod_unfold)
  then show "\<exists>k. total_lengths (front_prefixes vs) = Some k \<and> k + length (concat (map snd (fronts None vs))) = length (concat vs)"
    using f total_lengths_map [of "fronts None vs" fst] by (simp add: m length_concat comp_def)
qed

lemma put_lengths_appends:
  assumes "carquet_delta_encode_int32 ls cap = Inr lb" "cap < 2 ^ 64"
  shows "appends al buf (put_lengths al cap ls buf) lb"
  using assms delta_encode_int32_length [OF assms(1)] by (auto simp: put_lengths_def intro: appends_append)

lemma delta_strings_encode_appends:
  assumes "length vs < 2 ^ 31" "\<forall>v \<in> set vs. length v < 2 ^ 31"
    "carquet_delta_encode_int32 (front_prefixes vs) (length vs * 10 + 100) = Inr lb1"
    "carquet_delta_encode_int32 (front_suffixes vs) (length vs * 10 + 100) = Inr lb2"
  shows "appends al buf (delta_strings_encode_to al (Some (map byte_array_of vs)) (word_of_nat (length vs)) buf)
    (lb1 @ lb2 @ concat (map snd (fronts None vs)))"
proof (cases "vs = []")
  case True
  have h: "carquet_delta_encode_int32 [] 64 = Inr lb1" "lb2 = lb1"
    using assms(3,4) True by (simp_all add: front_prefixes_def front_suffixes_def front_lengths_def delta_encode_int32_Nil)
  obtain b st where b: "put_lengths al 64 [] buf = (b, st)" by fastforce
  have "appends al buf (if st \<noteq> CARQUET_OK then (b, st) else put_lengths al 64 [] b) (lb1 @ lb1)"
    using put_lengths_appends [OF h(1), of al buf] put_lengths_appends [OF h(1), of al b] b
    by (intro appends_seq [of al buf b st]) auto
  then show ?thesis using True h b by (simp add: delta_strings_encode_to_def)
next
  case False
  let ?cap = "length vs * 10 + 100"
  have c: "?cap < 2 ^ 64" using assms(1) by simp
  obtain b1 st1 where b1: "put_lengths al ?cap (front_prefixes vs) buf = (b1, st1)" by fastforce
  obtain b2 st2 where b2: "put_lengths al ?cap (front_suffixes vs) b1 = (b2, st2)" by fastforce
  let ?rest = "put_suffixes al None (zip (map byte_array_of vs) (front_suffixes vs)) b2"
  have l: "length_pairs None (map byte_array_of vs) = front_lengths (fronts None vs)"
    using length_pairs_fronts [OF assms(2), of None] by simp
  have e: "delta_strings_encode_to al (Some (map byte_array_of vs)) (word_of_nat (length vs)) buf =
     (if \<not> alloc_grants al (word_of_nat (length vs) * 4) \<or> \<not> alloc_grants al (word_of_nat ?cap)
      then (buf, CARQUET_ERROR_OUT_OF_MEMORY)
      else if st1 \<noteq> CARQUET_OK then (b1, st1) else if st2 \<noteq> CARQUET_OK then (b2, st2) else ?rest)"
    using False b1 b2
    by (simp add: delta_strings_encode_to_def i32_length [OF assms(1)] Let_def l
        front_prefixes_def [symmetric] front_suffixes_def [symmetric])
  have "appends al b2 ?rest (concat (map snd (fronts None vs)))"
    using put_suffixes_appends [OF assms(2), of None al b2] by (simp add: front_suffixes_def)
  then have "appends al b1 (if st2 \<noteq> CARQUET_OK then (b2, st2) else ?rest) (lb2 @ concat (map snd (fronts None vs)))"
    using put_lengths_appends [OF assms(4) c, of al b1] b2 by (intro appends_seq [of al b1 b2 st2]) auto
  then have "appends al buf (if st1 \<noteq> CARQUET_OK then (b1, st1) else if st2 \<noteq> CARQUET_OK then (b2, st2) else ?rest)
      (lb1 @ lb2 @ concat (map snd (fronts None vs)))"
    using put_lengths_appends [OF assms(3) c, of al buf] b1 by (intro appends_seq [of al buf b1 st1]) auto
  moreover have "appends al buf (buf, CARQUET_ERROR_OUT_OF_MEMORY) (lb1 @ lb2 @ concat (map snd (fronts None vs)))"
    if "\<not> alloc_grants al m" for m using that by (auto simp: appends_def)
  ultimately show ?thesis unfolding e by auto
qed

lemma length_streams_back:
  assumes "unpack_kernels ds" "simd_kernels t"
    "carquet_delta_encode_int32 (front_prefixes vs) cap = Inr lb1" "carquet_delta_encode_int32 (front_suffixes vs) cap = Inr lb2"
  shows "decode_length_streams ds t (lb1 @ lb2 @ r) (length vs) =
    Inr (front_prefixes vs, front_suffixes vs, length lb1 + length lb2)"
  using delta_int32_back [OF assms(1-3), of "lb2 @ r"] delta_int32_back [OF assms(1,2,4), of r]
  by (simp add: decode_length_streams_def)

lemma delta_strings_decode_back:
  assumes "unpack_kernels ds" "simd_kernels t" "length vs < 2 ^ 31" "\<forall>v \<in> set vs. length v < 2 ^ 31"
    "carquet_delta_encode_int32 (front_prefixes vs) cap = Inr lb1" "carquet_delta_encode_int32 (front_suffixes vs) cap = Inr lb2"
    "\<forall>n. alloc_grants al n"
  defines "bs \<equiv> lb1 @ lb2 @ concat (map snd (fronts None vs))"
  shows "length (concat vs) \<le> length work \<Longrightarrow>
      \<exists>ps w. carquet_delta_strings_decode ds t al (Some (bs @ r)) True (word_of_nat (length vs)) work = Done (w, Inr (ps, length bs)) \<and>
        length w = length work \<and> map (string_at w) ps = vs"
    "vs \<noteq> [] \<Longrightarrow>
      carquet_delta_strings_decoded_size ds t al (Some (bs @ r)) (word_of_nat (length vs)) = Inr (length (concat vs))"
proof -
  let ?suf = "concat (map snd (fronts None vs))"
  have l: "decode_length_streams ds t (bs @ r) (length vs) = Inr (front_prefixes vs, front_suffixes vs, length lb1 + length lb2)"
    using length_streams_back [OF assms(1,2,5,6), of "?suf @ r"] by (simp add: bs_def)
  have z: "zip (front_prefixes vs) (front_suffixes vs) = front_lengths (fronts None vs)"
    by (simp add: front_prefixes_def front_suffixes_def zip_map_fst_snd)
  obtain k where k: "total_lengths (front_prefixes vs) = Some k" "k + length ?suf = length (concat vs)"
    using front_totals(2) [OF assms(4)] by blast
  note t2 = front_totals(1) [OF assms(4)]
  show "\<exists>ps w. carquet_delta_strings_decode ds t al (Some (bs @ r)) True (word_of_nat (length vs)) work = Done (w, Inr (ps, length bs)) \<and>
        length w = length work \<and> map (string_at w) ps = vs" if work: "length (concat vs) \<le> length work"
  proof (cases "vs = []")
    case True
    then show ?thesis using l by (simp add: carquet_delta_strings_decode_def bs_def)
  next
    case False
    have "prev_at work 0 None None" by (simp add: prev_at_def)
    from strings_loop_back [OF assms(4) this, where r = r] work obtain ps w where
      "strings_loop (front_lengths (fronts None vs)) (?suf @ r) work 0 None = Done (w, Inr ps)"
      "length w = length work" "map (string_at w) ps = vs" by auto
    moreover have "drop (length lb1 + length lb2) (bs @ r) = ?suf @ r" by (simp add: bs_def)
    moreover have "length bs = length lb1 + length lb2 + length ?suf" by (simp add: bs_def)
    ultimately show ?thesis
      using False l assms(7) t2 k(1) by (simp add: carquet_delta_strings_decode_def i32_length [OF assms(3)] z)
  qed
  show "carquet_delta_strings_decoded_size ds t al (Some (bs @ r)) (word_of_nat (length vs)) = Inr (length (concat vs))"
    if "vs \<noteq> []"
    using that l assms(7) t2 k small_i32(2) [OF assms(3)]
    by (simp add: carquet_delta_strings_decoded_size_def i32_length(1,3) [OF assms(3)])
qed

text \<open>
  C26: DELTA\_BYTE\_ARRAY round trips. Whenever the encoder reports success it has appended bytes from which the
  decoder, whatever follows them and in every work buffer that has room, rebuilds the same strings, consuming exactly
  those bytes, and the required work buffer size is predicted exactly; and with granted allocations and room the encoder
  does succeed as long as every string is shorter than four mebibytes.
\<close>

theorem delta_strings_roundtrip:
  assumes "unpack_kernels ds" "simd_kernels t" "buffer_wf buf" "buf_owns_data buf"
    "length vs < 2 ^ 31" "\<forall>v \<in> set vs. length v < 2 ^ 31" "\<forall>n. alloc_grants al' n"
    "carquet_delta_strings_encode al (Some (map byte_array_of vs)) (word_of_nat (length vs)) (Some buf) = (Some buf', st)"
  shows "(st = CARQUET_OK \<longrightarrow> (\<exists>bs. buffer_contents buf' = buffer_contents buf @ bs \<and>
      (\<forall>r work. length (concat vs) \<le> length work \<longrightarrow>
        (\<exists>ps w. carquet_delta_strings_decode ds t al' (Some (bs @ r)) True (word_of_nat (length vs)) work = Done (w, Inr (ps, length bs)) \<and>
          length w = length work \<and> map (string_at w) ps = vs)) \<and>
      (\<forall>r. vs \<noteq> [] \<longrightarrow>
        carquet_delta_strings_decoded_size ds t al' (Some (bs @ r)) (word_of_nat (length vs)) = Inr (length (concat vs))))) \<and>
    ((\<forall>n. alloc_grants al n) \<and> (\<forall>v \<in> set vs. length v < 2 ^ 22) \<and>
      length (buffer_contents buf) + 20 * length vs + 200 + length (concat vs) < 2 ^ 64 \<longrightarrow> st = CARQUET_OK)"
proof -
  let ?cap = "length vs * 10 + 100"
  note run = assms(8) [unfolded carquet_delta_strings_encode_def option.case present_output]
  consider (ok) lb1 lb2 where "carquet_delta_encode_int32 (front_prefixes vs) ?cap = Inr lb1"
      "carquet_delta_encode_int32 (front_suffixes vs) ?cap = Inr lb2"
    | (fail) e where "carquet_delta_encode_int32 (front_prefixes vs) ?cap = Inl e \<or>
        carquet_delta_encode_int32 (front_suffixes vs) ?cap = Inl e"
    by (meson sumE)
  then show ?thesis
  proof cases
    case ok
    let ?bs = "lb1 @ lb2 @ concat (map snd (fronts None vs))"
    have a: "appends al buf (buf', st) ?bs" using delta_strings_encode_appends [OF assms(5,6) ok, of al buf] run by simp
    have "length lb1 \<le> ?cap" "length lb2 \<le> ?cap" using delta_encode_int32_length ok by blast+
    moreover have "length (concat (map snd (fronts None vs))) \<le> length (concat vs)"
      using front_totals(2) [OF assms(6)] by auto
    ultimately have "length ?bs \<le> 20 * length vs + 200 + length (concat vs)" by simp
    then show ?thesis
      using a assms(3,4) delta_strings_decode_back [OF assms(1,2,5,6) ok assms(7)]
      unfolding appends_def by (intro conjI impI exI [of _ ?bs]) auto
  next
    case fail
    have ne: "vs \<noteq> []" using fail by (auto simp: front_prefixes_def front_suffixes_def front_lengths_def delta_encode_int32_Nil)
    have l: "length_pairs None (map byte_array_of vs) = front_lengths (fronts None vs)"
      using length_pairs_fronts [OF assms(6), of None] by simp
    have "st \<noteq> CARQUET_OK"
      using fail ne run delta_encode_int32_error [of "front_prefixes vs" ?cap e]
        delta_encode_int32_error [of "front_suffixes vs" ?cap e]
      by (auto simp: delta_strings_encode_to_def i32_length [OF assms(5)] Let_def l put_lengths_def
          front_prefixes_def [symmetric] front_suffixes_def [symmetric] split: if_splits prod.splits sum.splits)
    moreover have "\<not> (\<forall>v \<in> set vs. length v < 2 ^ 22)"
    proof
      assume "\<forall>v \<in> set vs. length v < 2 ^ 22"
      from front_parts [OF this] have "\<forall>l \<in> set (front_prefixes vs). small_value l" "\<forall>l \<in> set (front_suffixes vs). small_value l"
        by (auto simp: small_value_def)
      from small_values_encode [OF this(1)] small_values_encode [OF this(2)] show False using fail assms(5) by auto
    qed
    ultimately show ?thesis by blast
  qed
qed

theorem delta_strings_roundtrip_witness:
  "\<exists>bs buf ps w. fst (carquet_delta_strings_encode generous (Some (map byte_array_of [[65, 66], [65, 67], []])) 3
       (Some carquet_buffer_init)) = Some buf \<and> buffer_contents buf = bs \<and>
     carquet_delta_strings_decode scalar_dispatch scalar_simd generous (Some (bs @ [9])) True 3 [0, 0, 0, 0, 0] =
       Done (w, Inr (ps, length bs)) \<and> map (string_at w) ps = [[65, 66], [65, 67], []]"
proof -
  let ?vs = "[[65, 66], [65, 67], []] :: bytes list"
  obtain buf st where e: "carquet_delta_strings_encode generous (Some (map byte_array_of ?vs))
      (word_of_nat (length ?vs)) (Some carquet_buffer_init) = (Some buf, st)"
    by (auto simp: carquet_delta_strings_encode_def intro: prod.exhaust)
  have i: "buf_owns_data carquet_buffer_init" by (simp add: carquet_buffer_init_def)
  note w = delta_strings_roundtrip [OF scalar.unpack_kernels_axioms scalar_table.simd_kernels_axioms _ _ _ _ _ e, of generous]
  have ok: "st = CARQUET_OK" using w i by (simp add: generous_def)
  then obtain bs where bs: "buffer_contents buf = bs" and d: "\<forall>r work. length (concat ?vs) \<le> length work \<longrightarrow>
      (\<exists>ps w. carquet_delta_strings_decode scalar_dispatch scalar_simd generous (Some (bs @ r)) True
           (word_of_nat (length ?vs)) work = Done (w, Inr (ps, length bs)) \<and> length w = length work \<and> map (string_at w) ps = ?vs)"
    using w i by (auto simp: generous_def)
  from d [rule_format, of "[0, 0, 0, 0, 0]" "[9]"] show ?thesis using e bs by auto
qed

section \<open>Arbitrary input\<close>

definition pairs_ok :: "(i32 \<times> i32) list \<Rightarrow> bool" where
  "pairs_ok ls \<longleftrightarrow> (\<forall>l \<in> set ls. 0 \<le> sint (fst l) \<and> 0 \<le> sint (snd l))"

definition pairs_size :: "(i32 \<times> i32) list \<Rightarrow> nat" where
  "pairs_size ls = sum_list (map (\<lambda>l. unat (fst l) + unat (snd l)) ls)"

lemma unat_i32_bound: "0 \<le> sint p \<Longrightarrow> unat p < 2 ^ 31" for p :: i32
proof -
  assume "0 \<le> sint p"
  then have "int (unat p) = sint p" by (rule nonneg_i32)
  moreover have "sint p < 2 ^ 31" using sint_lt [of p] by simp
  ultimately have "int (unat p) < int (2 ^ 31)" by simp
  then show "unat p < 2 ^ 31" by (simp only: of_nat_less_iff)
qed

lemma unat_add_i32: "0 \<le> sint p \<Longrightarrow> 0 \<le> sint s \<Longrightarrow> unat (p + s) = unat p + unat s" for p s :: i32
  using unat_i32_bound [of p] unat_i32_bound [of s] by (simp add: unat_word_ariths)

text \<open>A pair of lengths whose sum is no \<^verbatim>\<open>int\<close>.\<close>

definition pair_overflows :: "i32 \<times> i32 \<Rightarrow> bool" where
  "pair_overflows l \<longleftrightarrow> 2 ^ 31 \<le> unat (fst l) + unat (snd l)"

lemma nonneg_i32_cast: "0 \<le> sint p \<Longrightarrow> sint p = int (unat p)" for p :: i32
  using nonneg_i32 [of p] by simp

lemma add_int32_nonneg:
  assumes "0 \<le> sint p" "0 \<le> sint s"
  shows "add_int32 p s = (if pair_overflows (p, s) then Invalid_Access else Done (p + s))"
proof -
  define k where "k = unat p + unat s"
  have "sint p + sint s = int k"
    using nonneg_i32_cast [OF assms(1)] nonneg_i32_cast [OF assms(2)] by (simp add: k_def)
  then show ?thesis
    by (simp add: add_int32_def pair_overflows_def not_less flip: k_def)
qed

text \<open>The prefix is copied from before the place it is copied to, when the previous string ends there.\<close>

lemma copy_prefix_valid:
  assumes "0 \<le> sint p" "off + unat p \<le> length work" "\<forall>po l. pv = Some (po, l) \<longrightarrow> po + unat l \<le> off"
  shows "copy_prefix work off pv p = Done None \<or> (\<exists>w. copy_prefix work off pv p = Done (Some w) \<and> length w = length work)"
proof (cases "0 < sint p \<and> pv \<noteq> None")
  case True
  then obtain po l where l: "pv = Some (po, l)" by auto
  have "unat p \<le> unat l" if "sint p \<le> sint l"
  proof -
    have "int (unat p) \<le> int (unat l)"
      using that True nonneg_i32 [of p] nonneg_i32 [of l] by simp
    then show ?thesis by (simp only: of_nat_le_iff)
  qed
  then show ?thesis
    using True l assms by (auto simp: copy_prefix_def copy_within_def not_less)
qed (auto simp: copy_prefix_def split: option.splits)

text \<open>
  What a run of the loop may do: stop at a pair whose sum is undefined; fail for lack of room or for a bad prefix; or
  fill the next bytes of the work buffer. The work buffer keeps its size.
\<close>

definition strings_result ::
    "(i32 \<times> i32) list \<Rightarrow> bytes \<Rightarrow> nat \<Rightarrow> (bytes \<times> (nat \<times> u32) list outcome) access \<Rightarrow> bool" where
  "strings_result ls work off res \<longleftrightarrow>
     (case res of
        Invalid_Access \<Rightarrow> \<exists>l \<in> set ls. pair_overflows l
      | Done (w, r) \<Rightarrow> length w = length work \<and>
          (case r of
             Inl e \<Rightarrow> e = CARQUET_ERROR_DECODE \<or> e = CARQUET_ERROR_OUT_OF_MEMORY \<and> length work < off + pairs_size ls
           | Inr ps \<Rightarrow> length ps = length ls \<and> off + pairs_size ls \<le> length work \<and>
               (\<forall>v \<in> set ps. fst v + unat (snd v) \<le> off + pairs_size ls)))"

lemma strings_loop_safe:
  "pairs_ok ls \<Longrightarrow> sum_list (map (\<lambda>l. unat (snd l)) ls) \<le> length suf \<Longrightarrow> off \<le> length work \<Longrightarrow>
   \<forall>po l. pv = Some (po, l) \<longrightarrow> po + unat l \<le> off \<Longrightarrow> strings_result ls work off (strings_loop ls suf work off pv)"
proof (induction ls arbitrary: suf work off pv)
  case Nil
  then show ?case by (simp add: strings_result_def pairs_size_def)
next
  case (Cons l ls)
  obtain p s where ls: "l = (p, s)" by fastforce
  have ps: "0 \<le> sint p" "0 \<le> sint s" "pairs_ok ls" using Cons.prems(1) ls by (auto simp: pairs_ok_def)
  note u = unat_add_i32 [OF ps(1,2)]
  have size_Cons: "pairs_size (l # ls) = unat p + unat s + pairs_size ls" by (simp add: pairs_size_def ls)
  note add = add_int32_nonneg [OF ps(1, 2)]
  consider "pair_overflows (p, s)" | "\<not> pair_overflows (p, s)" "length work < off + unat (p + s)"
    | (room) "\<not> pair_overflows (p, s)" "off + unat (p + s) \<le> length work" by linarith
  then show ?case
  proof cases
    case room
    then have "copy_prefix work off pv p = Done None \<or>
        (\<exists>w. copy_prefix work off pv p = Done (Some w) \<and> length w = length work)"
      using ps(1) u Cons.prems(4) by (intro copy_prefix_valid) simp_all
    then show ?thesis
    proof (elim disjE exE conjE)
      assume "copy_prefix work off pv p = Done None"
      then show ?thesis using room add by (simp add: strings_result_def ls)
    next
      fix w1 assume w1: "copy_prefix work off pv p = Done (Some w1)" "length w1 = length work"
      define suf' where "suf' = (if 0 < sint s then drop (unat s) suf else suf)"
      obtain w2 where w2: "(if 0 < sint s then copy_into w1 (off + unat p) suf (unat s) else Done w1) = Done w2"
          "length w2 = length work"
        using w1(2) room(2) u Cons.prems(2) ls by (cases "0 < sint s") (simp_all add: copy_into_def)
      let ?r = "strings_loop ls suf' w2 (off + unat (p + s)) (Some (off, p + s))"
      have IH: "strings_result ls w2 (off + unat (p + s)) ?r"
        by (rule Cons.IH) (use ps room Cons.prems(2) w2 ls in \<open>auto simp: suf'_def\<close>)
      have step: "strings_loop (l # ls) suf work off pv =
          and_then ?r (\<lambda>(w, r). Done (w, map_sum id (Cons (off, p + s)) r))"
        using room w1 w2 add by (simp add: ls suf'_def)
      show ?thesis
      proof (cases ?r)
        case Invalid_Access
        then show ?thesis using IH step by (auto simp: strings_result_def)
      next
        case (Done x)
        obtain w r where "x = (w, r)" by fastforce
        then show ?thesis
          using Done IH step w2(2) u by (cases r) (auto simp: strings_result_def size_Cons)
      qed
    qed
  qed (use add u size_Cons in \<open>auto simp: strings_result_def ls\<close>)
qed

lemma total_lengths_some:
  "total_lengths ls = Some n \<Longrightarrow> n = sum_list (map unat ls) \<and> (\<forall>l \<in> set ls. 0 \<le> sint l)"
proof (induction ls arbitrary: n)
  case (Cons l ls)
  then obtain m where "total_lengths ls = Some m" "n = unat l + m" "\<not> sint l < 0" by (auto split: if_splits)
  then show ?case using Cons.IH by simp
qed simp

lemma zip_totals:
  assumes "total_lengths ps = Some m" "total_lengths ss = Some n" "length ps = length ss"
  shows "pairs_ok (zip ps ss)" "pairs_size (zip ps ss) = m + n" "sum_list (map (\<lambda>l. unat (snd l)) (zip ps ss)) = n"
proof -
  have f: "map (\<lambda>l. unat (fst l)) (zip ps ss) = map unat ps" "map (\<lambda>l. unat (snd l)) (zip ps ss) = map unat ss"
    using assms(3) by (simp_all add: map_fst_zip map_snd_zip flip: map_map [unfolded comp_def])
  show "pairs_ok (zip ps ss)"
    using total_lengths_some [OF assms(1)] total_lengths_some [OF assms(2)]
    by (auto simp: pairs_ok_def dest: set_zip_leftD set_zip_rightD)
  show "pairs_size (zip ps ss) = m + n" "sum_list (map (\<lambda>l. unat (snd l)) (zip ps ss)) = n"
    using total_lengths_some [OF assms(1)] total_lengths_some [OF assms(2)] f
    by (simp_all add: pairs_size_def sum_list_addf)
qed

lemma length_streams_within:
  assumes "unpack_kernels ds" "simd_kernels t" "decode_length_streams ds t data n = Inr (ps, ss, pos)"
  shows "length ps = n \<and> length ss = n \<and> pos \<le> length data"
proof -
  from assms(3) obtain c1 c2 where c: "carquet_delta_decode_int32 ds t data n = Inr (ps, c1)"
    "carquet_delta_decode_int32 ds t (drop c1 data) n = Inr (ss, c2)" "pos = c1 + c2"
    by (auto simp: decode_length_streams_def split: sum.splits)
  then show ?thesis
    using delta_decode_int32_within [OF assms(1,2) c(1)] delta_decode_int32_within [OF assms(1,2) c(2)] by auto
qed

text \<open>
  C34: on any input the string decoder reads inside the input and copies inside the work buffer, whether it accepts or
  not, and never between overlapping ranges; the one thing that can go wrong is the signed sum of a prefix and a suffix
  length from the input, which must be an \<^verbatim>\<open>int\<close>. The work buffer keeps its size. When the decoder accepts, it has consumed
  no more than the input and returned as many strings as asked for, all of them inside the work buffer; and with granted
  allocations a work buffer of the size \<^verbatim>\<open>carquet_delta_strings_decoded_size\<close> reports for the same input is never too small.
\<close>

theorem delta_strings_decode_safe:
  assumes "unpack_kernels ds" "simd_kernels t"
  shows "case carquet_delta_strings_decode ds t al (Some data) True n work of
      Invalid_Access \<Rightarrow> \<exists>ps ss pos. decode_length_streams ds t data (unat n) = Inr (ps, ss, pos) \<and>
        (\<exists>l \<in> set (zip ps ss). pair_overflows l)
    | Done (w, res) \<Rightarrow> length w = length work \<and>
        (\<forall>vs k. res = Inr (vs, k) \<longrightarrow> k \<le> length data \<and> length vs = unat n \<and>
          (\<forall>v \<in> set vs. fst v + unat (snd v) \<le> length w)) \<and>
        (\<forall>m. (\<forall>k. alloc_grants al k) \<and> carquet_delta_strings_decoded_size ds t al (Some data) n = Inr m \<and>
          m \<le> length work \<longrightarrow> res \<noteq> Inl CARQUET_ERROR_OUT_OF_MEMORY)"
proof (cases "n = 0")
  case True
  then show ?thesis
    using length_streams_within [OF assms, of data 0]
    by (auto simp: carquet_delta_strings_decode_def carquet_delta_strings_decoded_size_def split: sum.splits)
next
  case False
  show ?thesis
  proof (cases "\<exists>ps ss pos p s. 0 \<le> sint n \<and> alloc_grants al (scast n * 4) \<and>
      decode_length_streams ds t data (unat n) = Inr (ps, ss, pos) \<and>
      total_lengths ps = Some p \<and> total_lengths ss = Some s \<and> pos + s \<le> length data")
    case True
    then obtain ps ss pos p s where *: "0 \<le> sint n" "alloc_grants al (scast n * 4)"
      "decode_length_streams ds t data (unat n) = Inr (ps, ss, pos)"
      "total_lengths ps = Some p" "total_lengths ss = Some s" "pos + s \<le> length data" by blast
    note l = length_streams_within [OF assms *(3)]
    note z = zip_totals [OF *(4,5)]
    let ?r = "strings_loop (zip ps ss) (drop pos data) work 0 None"
    have r: "strings_result (zip ps ss) work 0 ?r"
      using l z *(6) by (intro strings_loop_safe) auto
    have run: "carquet_delta_strings_decode ds t al (Some data) True n work =
        and_then ?r (\<lambda>(w, r). Done (w, map_sum id (\<lambda>vs. (vs, pos + s)) r))"
      using * False by (simp add: carquet_delta_strings_decode_def)
    have m: "carquet_delta_strings_decoded_size ds t al (Some data) n = Inr m \<Longrightarrow> m = p + s" for m
      using * by (simp add: carquet_delta_strings_decoded_size_def split: if_splits)
    show ?thesis
    proof (cases ?r)
      case Invalid_Access
      then show ?thesis using r run *(3) by (simp add: strings_result_def)
    next
      case (Done x)
      obtain w res where "x = (w, res)" by fastforce
      then show ?thesis
        using Done r run *(6) l z(2) m by (cases res) (auto simp: strings_result_def)
    qed
  next
    case none: False
    have "\<exists>e. carquet_delta_strings_decode ds t al (Some data) True n work = Done (work, Inl e) \<and>
        (e = CARQUET_ERROR_OUT_OF_MEMORY \<longrightarrow> (\<forall>k. alloc_grants al k) \<longrightarrow>
          (\<forall>m. carquet_delta_strings_decoded_size ds t al (Some data) n \<noteq> Inr m))"
    proof (cases "decode_length_streams ds t data (unat n)")
      case (Inl e)
      then show ?thesis using False
        by (auto simp: carquet_delta_strings_decode_def carquet_delta_strings_decoded_size_def split: if_splits)
    next
      case (Inr x)
      obtain ps ss pos where x: "x = (ps, ss, pos)" by (cases x)
      show ?thesis using False none Inr x
        by (auto simp: carquet_delta_strings_decode_def not_less split: if_splits option.splits)
    qed
    then show ?thesis by auto
  qed
qed

text \<open>One string of two bytes.\<close>

theorem delta_strings_decode_safe_witness:
  "\<exists>w vs k. carquet_delta_strings_decode scalar_dispatch scalar_simd generous
       (Some ([0x80, 1, 4, 1, 0] @ [0x80, 1, 4, 1, 4] @ [65, 66, 9])) True 1 [0, 0, 0] = Done (w, Inr (vs, k)) \<and>
     k \<le> 13 \<and> length vs = 1 \<and> length w = 3"
proof -
  let ?data = "[0x80, 1, 4, 1, 0] @ [0x80, 1, 4, 1, 4] @ [65, 66, 9] :: bytes"
  have "carquet_delta_strings_decode scalar_dispatch scalar_simd generous (Some ?data) True 1 [0, 0, 0] =
      Done ([65, 66, 0], Inr ([(0, 2)], 12))" by code_simp
  with delta_strings_decode_safe [OF scalar.unpack_kernels_axioms scalar_table.simd_kernels_axioms,
      where al = generous and data = ?data and n = 1 and work = "[0, 0, 0]"]
  show ?thesis by auto
qed

section \<open>Sizes\<close>

lemma sum_sizes_byte_arrays:
  assumes "\<forall>v \<in> set vs. length v < 2 ^ 31"
  shows "sum_sizes (map byte_array_of vs) = word_of_nat (length (concat vs))"
proof -
  have "fold (\<lambda>v acc. acc + scast (snd v)) (map byte_array_of vs) a = a + word_of_nat (length (concat vs))" for a :: u64
    using assms by (induction vs arbitrary: a) (simp_all add: i32_of_length(1))
  then show ?thesis by (simp add: sum_sizes_def)
qed

text \<open>The size computed from the values is the size the decoder needs for them.\<close>

lemma work_buffer_size_exact:
  assumes "\<forall>v \<in> set vs. length v < 2 ^ 31" "length vs < 2 ^ 31"
  shows "carquet_delta_strings_work_buffer_size (Some (map byte_array_of vs)) (word_of_nat (length vs)) =
    word_of_nat (length (concat vs))"
  using sum_sizes_byte_arrays [OF assms(1)] small_i32 [OF assms(2)]
  by (cases "vs = []") (simp_all add: carquet_delta_strings_work_buffer_size_def)

end
