(* ===== verification/Dictionary.thy ===== *)
theory Dictionary
  imports Plain Rle_Encode "HOL-Library.Multiset"
begin

text \<open>
  \<^verbatim>\<open>encoding/dictionary.c\<close>: the dictionary builder, a hash table with chained entries over the distinct values, the
  dictionary encoders and the dictionary decoders. A bucket is the list of its chain, an entry owns a copy of its
  value. \<^verbatim>\<open>sizeof(dict_entry_t)\<close> is 32 and a pointer takes 8 bytes. The model follows the little-endian build; whether the
  dictionary bytes are aligned for the element type is the argument \<open>aligned\<close> of the decoders.
\<close>

section \<open>Definitions\<close>

subsection \<open>The hash table\<close>

record dict_entry =
  ent_data :: bytes
  ent_hash :: u32
  ent_index :: u32

record dict_builder =
  db_buckets :: "dict_entry list list"
  db_count :: nat
  db_dict_buffer :: carquet_buffer
  db_indices :: "u32 list"
  db_indices_capacity :: u64
  db_value_size :: u64
  db_is_variable_length :: bool
  db_max_dict_bytes :: u64
  db_abandoned :: bool

definition DICT_BUILDER_INITIAL_BUCKETS :: nat where "DICT_BUILDER_INITIAL_BUCKETS = 1024"
definition DICT_BUILDER_MAX_LOAD_NUM :: nat where "DICT_BUILDER_MAX_LOAD_NUM = 3"
definition DICT_BUILDER_MAX_LOAD_DEN :: nat where "DICT_BUILDER_MAX_LOAD_DEN = 4"

text \<open>\<^verbatim>\<open>hash & mask\<close> with \<^verbatim>\<open>mask = num_buckets - 1\<close>.\<close>

definition dict_bucket :: "u32 \<Rightarrow> nat \<Rightarrow> nat" where
  "dict_bucket hash num_buckets = unat ((ucast hash :: u64) AND (word_of_nat num_buckets - 1))"

text \<open>Pushing an entry to the front of its chain.\<close>

definition link_entry :: "dict_entry \<Rightarrow> dict_entry list list \<Rightarrow> dict_entry list list" where
  "link_entry entry buckets =
     (let bucket = dict_bucket (ent_hash entry) (length buckets) in buckets[bucket := entry # buckets ! bucket])"

definition relink :: "dict_entry list list \<Rightarrow> nat \<Rightarrow> dict_entry list list" where
  "relink buckets new_bucket_count = fold link_entry (concat buckets) (replicate new_bucket_count [])"

definition dict_builder_rehash :: "allocator \<Rightarrow> dict_builder \<Rightarrow> nat \<Rightarrow> dict_builder outcome" where
  "dict_builder_rehash al builder new_bucket_count =
     (if \<not> alloc_grants al (word_of_nat new_bucket_count * 8) then Inl CARQUET_ERROR_OUT_OF_MEMORY
      else Inr (builder\<lparr>db_buckets := relink (db_buckets builder) new_bucket_count\<rparr>))"

definition dict_hash_fixed32 :: "bytes \<Rightarrow> u32" where
  "dict_hash_fixed32 data =
     (let h = le_load (take 4 data);
          h = h XOR drop_bit 16 h;
          h = h * 0x85ebca6b;
          h = h XOR drop_bit 13 h;
          h = h * 0xc2b2ae35
      in h XOR drop_bit 16 h)"

definition dict_hash_fixed64 :: "bytes \<Rightarrow> u32" where
  "dict_hash_fixed64 data =
     (let k = le_load (take 8 data) :: u64;
          k = k XOR drop_bit 33 k;
          k = k * 0xff51afd7ed558ccd;
          k = k XOR drop_bit 33 k;
          k = k * 0xc4ceb9fe1a85ec53;
          k = k XOR drop_bit 33 k
      in ucast k)"

definition dict_hash :: "bytes \<Rightarrow> u32" where
  "dict_hash data =
     (if length data = 4 then dict_hash_fixed32 data
      else if length data = 8 then dict_hash_fixed64 data
      else fold (\<lambda>byte h. (h XOR ucast byte) * 0x01000193) data 0x811c9dc5)"

text \<open>The walk along the chain.\<close>

primrec chain_find :: "dict_entry list \<Rightarrow> u32 \<Rightarrow> bytes \<Rightarrow> u32 option" where
  "chain_find [] hash v = None"
| "chain_find (entry # es) hash v =
     (if ent_hash entry = hash \<and> ent_data entry = v then Some (ent_index entry) else chain_find es hash v)"

definition dict_find :: "dict_entry list list \<Rightarrow> bytes \<Rightarrow> u32 option" where
  "dict_find buckets v =
     (let hash = dict_hash v in chain_find (buckets ! dict_bucket hash (length buckets)) hash v)"

definition dict_put :: "dict_entry list list \<Rightarrow> bytes \<Rightarrow> u32 \<Rightarrow> dict_entry list list" where
  "dict_put buckets v index = link_entry \<lparr>ent_data = v, ent_hash = dict_hash v, ent_index = index\<rparr> buckets"

subsection \<open>The builder\<close>

definition dict_builder_init :: "allocator \<Rightarrow> u64 \<Rightarrow> u64 \<Rightarrow> bool \<Rightarrow> dict_builder outcome" where
  "dict_builder_init al expected_count value_size is_variable_length =
     (if \<not> alloc_grants al (word_of_nat DICT_BUILDER_INITIAL_BUCKETS * 8) then Inl CARQUET_ERROR_OUT_OF_MEMORY
      else case carquet_buffer_init_capacity al 4096 of (buf, status) \<Rightarrow>
        if status \<noteq> CARQUET_OK then Inl status
        else let capacity = (if 0 < expected_count then expected_count else 1024) in
             if \<not> alloc_grants al (capacity * 4) then Inl CARQUET_ERROR_OUT_OF_MEMORY
             else Inr \<lparr>db_buckets = replicate DICT_BUILDER_INITIAL_BUCKETS [], db_count = 0, db_dict_buffer = buf,
                       db_indices = [], db_indices_capacity = capacity, db_value_size = value_size,
                       db_is_variable_length = is_variable_length, db_max_dict_bytes = 0, db_abandoned = False\<rparr>)"

text \<open>Room for one more index.\<close>

definition reserve_index :: "allocator \<Rightarrow> dict_builder \<Rightarrow> dict_builder outcome" where
  "reserve_index al builder =
     (if db_indices_capacity builder \<le> word_of_nat (length (db_indices builder))
      then let new_cap = db_indices_capacity builder * 2 in
           if alloc_grants al (new_cap * 4) then Inr (builder\<lparr>db_indices_capacity := new_cap\<rparr>)
           else Inl CARQUET_ERROR_OUT_OF_MEMORY
      else Inr builder)"

text \<open>The value in the dictionary page; the statuses of the appends are discarded.\<close>

definition append_value :: "allocator \<Rightarrow> bool \<Rightarrow> bytes \<Rightarrow> carquet_buffer \<Rightarrow> carquet_buffer" where
  "append_value al is_variable_length v buf =
     (let buf1 = (if is_variable_length then fst (carquet_buffer_append_u32_le al buf (word_of_nat (length v))) else buf)
      in fst (carquet_buffer_append al buf1 v))"

definition add_entry :: "allocator \<Rightarrow> dict_builder \<Rightarrow> bytes \<Rightarrow> dict_builder outcome" where
  "add_entry al builder v =
     (if \<not> alloc_grants al (32 + word_of_nat (length v)) then Inl CARQUET_ERROR_OUT_OF_MEMORY
      else let index = word_of_nat (db_count builder);
               buf = append_value al (db_is_variable_length builder) v (db_dict_buffer builder);
               b = builder\<lparr>db_buckets := dict_put (db_buckets builder) v index, db_dict_buffer := buf,
                           db_indices := db_indices builder @ [index], db_count := db_count builder + 1\<rparr>
           in Inr (if db_max_dict_bytes b \<noteq> 0 \<and> db_max_dict_bytes b < buf_size buf
                   then b\<lparr>db_abandoned := True\<rparr> else b))"

definition dict_builder_add :: "allocator \<Rightarrow> dict_builder \<Rightarrow> bytes \<Rightarrow> dict_builder outcome" where
  "dict_builder_add al builder v =
     (case reserve_index al builder of
        Inl e \<Rightarrow> Inl e
      | Inr b0 \<Rightarrow>
          (case dict_find (db_buckets b0) v of
             Some index \<Rightarrow> Inr (b0\<lparr>db_indices := db_indices b0 @ [index]\<rparr>)
           | None \<Rightarrow>
               (case (if length (db_buckets b0) * DICT_BUILDER_MAX_LOAD_NUM
                         < (db_count b0 + 1) * DICT_BUILDER_MAX_LOAD_DEN
                      then dict_builder_rehash al b0 (length (db_buckets b0) * 2) else Inr b0) of
                  Inl e \<Rightarrow> Inl e
                | Inr b1 \<Rightarrow> add_entry al b1 v)))"

primrec dict_add_all :: "allocator \<Rightarrow> bytes list \<Rightarrow> dict_builder \<Rightarrow> dict_builder outcome" where
  "dict_add_all al [] builder = Inr builder"
| "dict_add_all al (v # vs) builder =
     (case dict_builder_add al builder v of Inl e \<Rightarrow> Inl e | Inr b \<Rightarrow> dict_add_all al vs b)"

subsection \<open>Encoders\<close>

function index_width :: "u32 \<Rightarrow> nat" where
  "index_width num = (if 0 < num then Suc (index_width (drop_bit 1 num)) else 0)"
  by pat_completeness auto
termination
  by (relation "measure unat") (auto intro!: unat_drop_bit_less simp: unat_gt_0 word_gt_0)

declare index_width.simps [simp del]

definition bit_width_for_count :: "u32 \<Rightarrow> nat" where
  "bit_width_for_count num =
     (if num = 0 then 0 else let width = index_width (num - 1) in if 0 < width then width else 1)"

text \<open>The two outputs and the status: the dictionary page and, behind the width, the indices.\<close>

type_synonym dict_result = "carquet_buffer \<times> carquet_buffer \<times> carquet_status"

definition dict_finish :: "allocator \<Rightarrow> dict_builder \<Rightarrow> i64 \<Rightarrow> carquet_buffer \<Rightarrow> carquet_buffer \<Rightarrow> dict_result" where
  "dict_finish al builder num dict_output indices_output =
     (let dict_out = fst (carquet_buffer_append al dict_output (buffer_contents (db_dict_buffer builder)));
          bit_width = bit_width_for_count (word_of_nat (db_count builder));
          idx_out = fst (carquet_buffer_append_byte al indices_output (word_of_nat bit_width))
      in case carquet_rle_encode_all al (take (loop_count num) (db_indices builder)) bit_width idx_out of
           (idx_out', status) \<Rightarrow> (dict_out, idx_out', status))"

definition dictionary_encode ::
    "allocator \<Rightarrow> u64 \<Rightarrow> bool \<Rightarrow> bytes list \<Rightarrow> i64 \<Rightarrow> carquet_buffer \<Rightarrow> carquet_buffer \<Rightarrow> dict_result" where
  "dictionary_encode al value_size var_len vs num dict_output indices_output =
     (case dict_builder_init al num value_size var_len of
        Inl e \<Rightarrow> (dict_output, indices_output, e)
      | Inr builder \<Rightarrow>
          (case dict_add_all al (take (loop_count num) vs) builder of
             Inl e \<Rightarrow> (dict_output, indices_output, e)
           | Inr b \<Rightarrow> dict_finish al b num dict_output indices_output))"

definition carquet_dictionary_encode_int32 ::
    "allocator \<Rightarrow> i32 list \<Rightarrow> i64 \<Rightarrow> carquet_buffer \<Rightarrow> carquet_buffer \<Rightarrow> dict_result" where
  "carquet_dictionary_encode_int32 al xs = dictionary_encode al 4 False (map carquet_write_i32_le xs)"

definition carquet_dictionary_encode_int64 ::
    "allocator \<Rightarrow> i64 list \<Rightarrow> i64 \<Rightarrow> carquet_buffer \<Rightarrow> carquet_buffer \<Rightarrow> dict_result" where
  "carquet_dictionary_encode_int64 al xs = dictionary_encode al 8 False (map carquet_write_i64_le xs)"

definition carquet_dictionary_encode_float ::
    "allocator \<Rightarrow> u32 list \<Rightarrow> i64 \<Rightarrow> carquet_buffer \<Rightarrow> carquet_buffer \<Rightarrow> dict_result" where
  "carquet_dictionary_encode_float al xs = dictionary_encode al 4 False (map carquet_write_f32_le xs)"

definition carquet_dictionary_encode_double ::
    "allocator \<Rightarrow> u64 list \<Rightarrow> i64 \<Rightarrow> carquet_buffer \<Rightarrow> carquet_buffer \<Rightarrow> dict_result" where
  "carquet_dictionary_encode_double al xs = dictionary_encode al 8 False (map carquet_write_f64_le xs)"

text \<open>The bytes a byte array passes to the builder.\<close>

definition ba_bytes :: "carquet_byte_array \<Rightarrow> bytes" where
  "ba_bytes v = (case fst v of None \<Rightarrow> [] | Some d \<Rightarrow> take (unat (snd v)) d)"

definition carquet_dictionary_encode_byte_array ::
    "allocator \<Rightarrow> carquet_byte_array list \<Rightarrow> i64 \<Rightarrow> carquet_buffer \<Rightarrow> carquet_buffer \<Rightarrow> dict_result" where
  "carquet_dictionary_encode_byte_array al xs = dictionary_encode al 0 True (map ba_bytes xs)"

text \<open>The capped encoder: it stops as soon as the builder gives up.\<close>

primrec dict_add_until :: "allocator \<Rightarrow> bytes list \<Rightarrow> dict_builder \<Rightarrow> dict_builder outcome" where
  "dict_add_until al [] builder = Inr builder"
| "dict_add_until al (v # vs) builder =
     (if db_abandoned builder then Inr builder
      else case dict_builder_add al builder v of Inl e \<Rightarrow> Inl e | Inr b \<Rightarrow> dict_add_until al vs b)"

text \<open>The values by physical type, with their width and marshalling; other types are not implemented.\<close>

definition capped_values :: "plain_values \<Rightarrow> (u64 \<times> bool \<times> bytes list) option" where
  "capped_values vals =
     (case vals of
        PInt32 xs \<Rightarrow> Some (4, False, map carquet_write_i32_le xs)
      | PFloat xs \<Rightarrow> Some (4, False, map carquet_write_f32_le xs)
      | PInt64 xs \<Rightarrow> Some (8, False, map carquet_write_i64_le xs)
      | PDouble xs \<Rightarrow> Some (8, False, map carquet_write_f64_le xs)
      | PByteArray xs \<Rightarrow> Some (0, True, xs)
      | _ \<Rightarrow> None)"

text \<open>The last component is \<^verbatim>\<open>*abandoned\<close>.\<close>

definition carquet_dictionary_encode_capped ::
    "allocator \<Rightarrow> plain_values \<Rightarrow> i64 \<Rightarrow> u64 \<Rightarrow> carquet_buffer \<Rightarrow> carquet_buffer \<Rightarrow> dict_result \<times> bool" where
  "carquet_dictionary_encode_capped al vals num max_dict_bytes dict_output indices_output =
     (if sint num \<le> 0 then ((dict_output, indices_output, CARQUET_ERROR_INVALID_ARGUMENT), False)
      else case capped_values vals of
        None \<Rightarrow> ((dict_output, indices_output, CARQUET_ERROR_NOT_IMPLEMENTED), False)
      | Some (value_size, var_len, vs) \<Rightarrow>
          (case dict_builder_init al num value_size var_len of
             Inl e \<Rightarrow> ((dict_output, indices_output, e), False)
           | Inr builder \<Rightarrow>
               (case dict_add_until al (take (loop_count num) vs) (builder\<lparr>db_max_dict_bytes := max_dict_bytes\<rparr>) of
                  Inl e \<Rightarrow> ((dict_output, indices_output, e), False)
                | Inr b \<Rightarrow>
                    if db_abandoned b then ((dict_output, indices_output, CARQUET_OK), True)
                    else (dict_finish al b num dict_output indices_output, False))))"

subsection \<open>Decoders\<close>

definition dictionary_decode ::
    "bitunpack_dispatch \<Rightarrow> allocator \<Rightarrow> bool \<Rightarrow> nat \<Rightarrow> (bytes \<Rightarrow> 'a) \<Rightarrow> ('a list \<Rightarrow> i32 \<Rightarrow> u32 list \<Rightarrow> bool \<times> 'a list) \<Rightarrow>
     bytes option \<Rightarrow> i32 \<Rightarrow> bytes \<Rightarrow> i64 \<Rightarrow> 'a list outcome" where
  "dictionary_decode ds al aligned k load gather dict_data dict_count indices_data output_count =
     (if sint output_count \<le> 0 then Inr []
      else case dict_data of
        None \<Rightarrow> Inl CARQUET_ERROR_DECODE
      | Some dict \<Rightarrow>
          if sint dict_count \<le> 0 then Inl CARQUET_ERROR_DECODE
          else if length dict < unat dict_count * k then Inl CARQUET_ERROR_DECODE
          else (case indices_data of
             [] \<Rightarrow> Inl CARQUET_ERROR_DECODE
           | bit_width # rle \<Rightarrow>
               if \<not> alloc_grants al (output_count * 4) then Inl CARQUET_ERROR_OUT_OF_MEMORY
               else let indices = carquet_rle_decode_all ds rle (uint bit_width) (loop_count output_count) in
                    if length indices < loop_count output_count then Inl CARQUET_ERROR_DECODE
                    else if \<not> aligned \<and> \<not> alloc_grants al (word_of_nat (unat dict_count * k))
                    then Inl CARQUET_ERROR_OUT_OF_MEMORY
                    else (case gather (plain_words k load dict (unat dict_count)) dict_count indices of
                            (ok, out) \<Rightarrow> if ok then Inr out else Inl CARQUET_ERROR_DECODE)))"

definition carquet_dictionary_decode_int32 ::
    "bitunpack_dispatch \<Rightarrow> carquet_simd_dispatch \<Rightarrow> allocator \<Rightarrow> bool \<Rightarrow> bytes option \<Rightarrow> i32 \<Rightarrow> bytes \<Rightarrow> i64 \<Rightarrow>
     i32 list outcome" where
  "carquet_dictionary_decode_int32 ds t al aligned =
     dictionary_decode ds al aligned 4 carquet_read_i32_le (carquet_dispatch_checked_gather_i32 t)"

definition carquet_dictionary_decode_int64 ::
    "bitunpack_dispatch \<Rightarrow> carquet_simd_dispatch \<Rightarrow> allocator \<Rightarrow> bool \<Rightarrow> bytes option \<Rightarrow> i32 \<Rightarrow> bytes \<Rightarrow> i64 \<Rightarrow>
     i64 list outcome" where
  "carquet_dictionary_decode_int64 ds t al aligned =
     dictionary_decode ds al aligned 8 carquet_read_i64_le (carquet_dispatch_checked_gather_i64 t)"

definition carquet_dictionary_decode_float ::
    "bitunpack_dispatch \<Rightarrow> carquet_simd_dispatch \<Rightarrow> allocator \<Rightarrow> bool \<Rightarrow> bytes option \<Rightarrow> i32 \<Rightarrow> bytes \<Rightarrow> i64 \<Rightarrow>
     u32 list outcome" where
  "carquet_dictionary_decode_float ds t al aligned =
     dictionary_decode ds al aligned 4 carquet_read_f32_le (carquet_dispatch_checked_gather_float t)"

definition carquet_dictionary_decode_double ::
    "bitunpack_dispatch \<Rightarrow> carquet_simd_dispatch \<Rightarrow> allocator \<Rightarrow> bool \<Rightarrow> bytes option \<Rightarrow> i32 \<Rightarrow> bytes \<Rightarrow> i64 \<Rightarrow>
     u64 list outcome" where
  "carquet_dictionary_decode_double ds t al aligned =
     dictionary_decode ds al aligned 8 carquet_read_f64_le (carquet_dispatch_checked_gather_double t)"

section \<open>The index of values\<close>

text \<open>
  What the builder relies on: a table that maps values to their indices, in which a fresh value can be put and
  which can be grown without changing the mapping.
\<close>

locale index_table =
  fixes look :: "'t \<Rightarrow> bytes \<Rightarrow> u32 option"
    and put :: "'t \<Rightarrow> bytes \<Rightarrow> u32 \<Rightarrow> 't"
    and grow :: "'t \<Rightarrow> 't"
    and ok :: "'t \<Rightarrow> bool"
  assumes look_put: "ok t \<Longrightarrow> look t k = None \<Longrightarrow> look (put t k i) k' = (if k' = k then Some i else look t k')"
    and put_ok: "ok t \<Longrightarrow> look t k = None \<Longrightarrow> ok (put t k i)"
    and look_grow: "ok t \<Longrightarrow> look (grow t) k = look t k"
    and grow_ok: "ok t \<Longrightarrow> ok (grow t)"

text \<open>The position of a value in the dictionary.\<close>

primrec position :: "'a list \<Rightarrow> 'a \<Rightarrow> nat option" where
  "position [] v = None"
| "position (d # ds) v = (if d = v then Some 0 else map_option Suc (position ds v))"

lemma position_None: "position ds v = None \<longleftrightarrow> v \<notin> set ds"
  by (induction ds) auto

lemma position_Some: "position ds v = Some i \<Longrightarrow> i < length ds \<and> ds ! i = v"
  by (induction ds arbitrary: i) (auto split: if_splits)

lemma position_append: "v \<notin> set ds \<Longrightarrow> position (ds @ [v]) k = (if k = v then Some (length ds) else position ds k)"
  by (induction ds) auto

context index_table
begin

text \<open>\<open>t\<close> numbers the values of \<open>ds\<close> in order.\<close>

definition numbers :: "'t \<Rightarrow> bytes list \<Rightarrow> bool" where
  "numbers t ds \<longleftrightarrow> ok t \<and> (\<forall>k. look t k = map_option word_of_nat (position ds k))"

lemma numbers_grow: "numbers t ds \<Longrightarrow> numbers (grow t) ds"
  by (simp add: numbers_def look_grow grow_ok)

lemma numbers_put:
  assumes "numbers t ds" "v \<notin> set ds"
  shows "numbers (put t v (word_of_nat (length ds))) (ds @ [v])"
proof -
  have "look t v = None" using assms by (simp add: numbers_def position_None)
  then show ?thesis
    using assms look_put [of t v] put_ok [of t v] by (auto simp: numbers_def position_append)
qed

lemma numbers_look:
  assumes "numbers t ds"
  shows "look t v = None \<longleftrightarrow> v \<notin> set ds"
    "look t v = Some i \<Longrightarrow> length ds \<le> 2 ^ 32 \<Longrightarrow> unat i < length ds \<and> ds ! unat i = v"
proof -
  show "look t v = None \<longleftrightarrow> v \<notin> set ds" using assms by (simp add: numbers_def position_None)
  assume "look t v = Some i" "length ds \<le> 2 ^ 32"
  then obtain n where n: "position ds v = Some n" "i = word_of_nat n" using assms by (auto simp: numbers_def)
  then have "unat i = n" using position_Some [OF n(1)] \<open>length ds \<le> 2 ^ 32\<close> by (simp add: unat_of_nat)
  then show "unat i < length ds \<and> ds ! unat i = v" using position_Some [OF n(1)] by simp
qed

end

subsection \<open>The chained table provides it\<close>

lemma dict_bucket_less: "dict_bucket h (2 ^ k) < 2 ^ k"
proof (cases "k < 64")
  case True
  have "(word_of_nat (2 ^ k) - 1 :: u64) = mask k" by (simp add: mask_eq_exp_minus_1)
  then have "unat ((ucast h :: u64) AND (word_of_nat (2 ^ k) - 1)) = unat (take_bit k (ucast h :: u64))"
    by (simp only: take_bit_eq_mask)
  also have "\<dots> < 2 ^ k" by (simp add: unsigned_take_bit_eq)
  finally show ?thesis by (simp add: dict_bucket_def)
next
  case False
  have "unat ((ucast h :: u64) AND m) < 2 ^ 64" for m
    using unsigned_less [of "(ucast h :: u64) AND m"] by simp
  moreover have "(2::nat) ^ 64 \<le> 2 ^ k" using False by (intro power_increasing) auto
  ultimately show ?thesis unfolding dict_bucket_def by (meson less_le_trans)
qed

definition table_ok :: "dict_entry list list \<Rightarrow> bool" where
  "table_ok t \<longleftrightarrow> (\<exists>k. length t = 2 ^ k) \<and> distinct (map ent_data (concat t)) \<and>
     (\<forall>b < length t. \<forall>e \<in> set (t ! b). ent_hash e = dict_hash (ent_data e) \<and> b = dict_bucket (ent_hash e) (length t))"

lemma chain_find_map_of:
  "\<forall>e \<in> set es. ent_hash e = dict_hash (ent_data e) \<Longrightarrow>
   chain_find es (dict_hash v) v = map_of (map (\<lambda>e. (ent_data e, ent_index e)) es) v"
  by (induction es) auto

text \<open>Every entry is found through its own bucket, so the chains together are one association list.\<close>

lemma dict_find_map_of:
  assumes "table_ok t"
  shows "dict_find t v = map_of (map (\<lambda>e. (ent_data e, ent_index e)) (concat t)) v"
proof -
  let ?b = "dict_bucket (dict_hash v) (length t)" and ?f = "\<lambda>e. (ent_data e, ent_index e)"
  obtain k where k: "length t = 2 ^ k" using assms by (auto simp: table_ok_def)
  then have b: "?b < length t" by (simp add: dict_bucket_less)
  have d: "distinct (map fst (map ?f (concat t)))" using assms by (simp add: table_ok_def comp_def)
  have db: "distinct (map fst (map ?f (t ! ?b)))"
    using d b by (simp add: comp_def distinct_map) (metis distinct_concat_iff in_set_conv_nth inj_on_subset nth_mem UN_upper set_concat)
  have f: "dict_find t v = map_of (map ?f (t ! ?b)) v"
    using assms b chain_find_map_of [of "t ! ?b" v] by (simp add: dict_find_def table_ok_def Let_def)
  show ?thesis
  proof (cases "\<exists>e \<in> set (concat t). ent_data e = v")
    case True
    then obtain e es where es: "e \<in> set es" "es \<in> set t" "ent_data e = v" by auto
    then obtain c where e: "e \<in> set (t ! c)" "c < length t" "ent_data e = v" by (metis in_set_conv_nth)
    have "ent_hash e = dict_hash (ent_data e) \<and> c = dict_bucket (ent_hash e) (length t)"
      using assms e(1,2) unfolding table_ok_def by blast
    then have c: "c = ?b" using e(3) by simp
    have "map_of (map ?f (t ! ?b)) v = Some (ent_index e)" using e c db by (auto intro: map_of_is_SomeI)
    moreover have "map_of (map ?f (concat t)) v = Some (ent_index e)" using e d by (force intro: map_of_is_SomeI)
    ultimately show ?thesis using f by simp
  next
    case False
    then have "map_of (map ?f (concat t)) v = None" unfolding map_of_eq_None_iff by force
    moreover have "map_of (map ?f (t ! ?b)) v = None" using False b by (fastforce simp: map_of_eq_None_iff)
    ultimately show ?thesis using f by simp
  qed
qed

lemma mset_concat_update:
  "b < length t \<Longrightarrow> mset (concat (t[b := e # t ! b])) = add_mset e (mset (concat t))"
proof (induction t arbitrary: b)
  case (Cons es t)
  then show ?case by (cases b) simp_all
qed simp

lemma link_entry:
  assumes "table_ok t" "ent_hash e = dict_hash (ent_data e)" "ent_data e \<notin> set (map ent_data (concat t))"
  shows "table_ok (link_entry e t)" "mset (concat (link_entry e t)) = mset (e # concat t)"
    "length (link_entry e t) = length t"
proof -
  let ?b = "dict_bucket (ent_hash e) (length t)"
  obtain k where k: "length t = 2 ^ k" using assms(1) by (auto simp: table_ok_def)
  then have b: "?b < length t" by (simp add: dict_bucket_less)
  show l: "length (link_entry e t) = length t" by (simp add: link_entry_def Let_def)
  show m: "mset (concat (link_entry e t)) = mset (e # concat t)"
    using mset_concat_update [OF b, of e] by (simp add: link_entry_def Let_def)
  have "mset (map ent_data (concat (link_entry e t))) = mset (map ent_data (e # concat t))"
    using arg_cong [OF m, of "image_mset ent_data"] by simp
  from mset_eq_imp_distinct_iff [OF this] have "distinct (map ent_data (concat (link_entry e t)))"
    using assms(1,3) by (auto simp: table_ok_def)
  moreover have "ent_hash x = dict_hash (ent_data x) \<and> c = dict_bucket (ent_hash x) (length t)"
    if "c < length t" "x \<in> set (link_entry e t ! c)" for c x
  proof -
    have "x \<in> set (t ! c) \<Longrightarrow> ent_hash x = dict_hash (ent_data x) \<and> c = dict_bucket (ent_hash x) (length t)"
      using assms(1) that(1) unfolding table_ok_def by blast
    moreover have "x \<in> set (t ! c) \<or> x = e \<and> c = ?b"
      using that by (cases "c = ?b") (auto simp: link_entry_def Let_def)
    ultimately show ?thesis using assms(2) by blast
  qed
  ultimately show "table_ok (link_entry e t)" using k unfolding table_ok_def l by blast
qed

lemma relink_entries:
  "table_ok t \<Longrightarrow> \<forall>e \<in> set es. ent_hash e = dict_hash (ent_data e) \<Longrightarrow> distinct (map ent_data (es @ concat t)) \<Longrightarrow>
   table_ok (fold link_entry es t) \<and> mset (concat (fold link_entry es t)) = mset (es @ concat t)"
proof (induction es arbitrary: t)
  case (Cons e es)
  note l = link_entry [OF Cons.prems(1), of e]
  have e: "ent_hash e = dict_hash (ent_data e)" "ent_data e \<notin> set (map ent_data (concat t))" using Cons.prems by auto
  have "mset (map ent_data (es @ concat (link_entry e t))) = mset (map ent_data ((e # es) @ concat t))"
    using arg_cong [OF l(2) [OF e], of "image_mset ent_data"] by simp
  then have "distinct (map ent_data (es @ concat (link_entry e t)))"
    using Cons.prems(3) by (metis mset_eq_imp_distinct_iff)
  from Cons.IH [OF l(1) [OF e] _ this] show ?case using Cons.prems l(2) [OF e] by simp
qed simp

lemma table_ok_empty: "table_ok (replicate (2 ^ k) [])"
proof -
  have "concat (replicate n []) = ([] :: 'a list)" for n by (induction n) simp_all
  then show ?thesis by (auto simp: table_ok_def)
qed

lemma table_ok_hashes: "table_ok t \<Longrightarrow> e \<in> set (concat t) \<Longrightarrow> ent_hash e = dict_hash (ent_data e)"
  by (fastforce simp: table_ok_def in_set_conv_nth [of _ t])

lemma same_entries_find:
  assumes "table_ok t" "table_ok t'" "mset (concat t') = mset (concat t)"
  shows "dict_find t' v = dict_find t v"
proof -
  let ?f = "\<lambda>e. (ent_data e, ent_index e)"
  have "distinct (map fst (map ?f (concat t)))" "distinct (map fst (map ?f (concat t')))"
    using assms by (simp_all add: table_ok_def comp_def)
  moreover have "set (map ?f (concat t')) = set (map ?f (concat t))"
    using mset_eq_setD [OF assms(3)] by (simp only: set_map)
  ultimately have "map_of (map ?f (concat t')) = map_of (map ?f (concat t))" by (simp only: map_of_inject_set)
  then show ?thesis using dict_find_map_of assms(1,2) by simp
qed

lemma relink_ok:
  assumes "table_ok t"
  shows "table_ok (relink t (length t * 2))" "mset (concat (relink t (length t * 2))) = mset (concat t)"
proof -
  obtain k where "length t = 2 ^ k" using assms by (auto simp: table_ok_def)
  then have n: "length t * 2 = 2 ^ Suc k" by simp
  have e: "concat (replicate n []) = ([] :: dict_entry list)" for n by (induction n) simp_all
  have "distinct (map ent_data (concat t @ concat (replicate (2 ^ Suc k) [])))" using assms by (simp add: table_ok_def e)
  from relink_entries [OF table_ok_empty _ this] table_ok_hashes [OF assms]
  show "table_ok (relink t (length t * 2))" "mset (concat (relink t (length t * 2))) = mset (concat t)"
    by (simp_all add: relink_def n e)
qed

lemma dict_find_put:
  assumes "table_ok t" "dict_find t k = None"
  shows "table_ok (dict_put t k i)" "dict_find (dict_put t k i) k' = (if k' = k then Some i else dict_find t k')"
proof -
  let ?e = "\<lparr>ent_data = k, ent_hash = dict_hash k, ent_index = i\<rparr>" and ?f = "\<lambda>e. (ent_data e, ent_index e)"
  have n: "ent_data ?e \<notin> set (map ent_data (concat t))"
    using assms(2) unfolding dict_find_map_of [OF assms(1)] map_of_eq_None_iff by force
  note l = link_entry [OF assms(1), of ?e, OF _ n, simplified]
  show ok: "table_ok (dict_put t k i)" using l(1) by (simp add: dict_put_def)
  have "distinct (map fst (map ?f (concat (dict_put t k i))))" using ok by (simp add: table_ok_def comp_def)
  moreover have "distinct (map fst (map ?f (?e # concat t)))" using assms(1) n by (auto simp: table_ok_def comp_def)
  moreover have "set (concat (dict_put t k i)) = set (?e # concat t)"
    using mset_eq_setD [of "concat (dict_put t k i)" "?e # concat t"] l(2) by (simp add: dict_put_def)
  then have "set (map ?f (concat (dict_put t k i))) = set (map ?f (?e # concat t))" by (simp only: set_map)
  ultimately have "map_of (map ?f (concat (dict_put t k i))) = map_of (map ?f (?e # concat t))"
    by (simp only: map_of_inject_set)
  then show "dict_find (dict_put t k i) k' = (if k' = k then Some i else dict_find t k')"
    using dict_find_map_of [OF ok] dict_find_map_of [OF assms(1)] by simp
qed

interpretation chained: index_table dict_find dict_put "\<lambda>t. relink t (length t * 2)" table_ok
proof
  fix t k k' i
  assume "table_ok t" "dict_find t k = None"
  then show "dict_find (dict_put t k i) k' = (if k' = k then Some i else dict_find t k')" "table_ok (dict_put t k i)"
    by (rule dict_find_put)+
next
  fix t k
  assume "table_ok t"
  then show "dict_find (relink t (length t * 2)) k = dict_find t k" "table_ok (relink t (length t * 2))"
    using same_entries_find [OF _ relink_ok] relink_ok(1) by blast+
qed

section \<open>The builder\<close>

text \<open>The dictionary of a list of values: the distinct values in the order of their first occurrence.\<close>

definition dict_of :: "'a list \<Rightarrow> 'a list" where
  "dict_of vs = rev (remdups (rev vs))"

lemma dict_of_snoc: "dict_of (vs @ [v]) = (if v \<in> set vs then dict_of vs else dict_of vs @ [v])"
  by (simp add: dict_of_def)

lemma dict_of_facts [simp]: "set (dict_of vs) = set vs" "distinct (dict_of vs)" "dict_of [] = []"
  by (simp_all add: dict_of_def)

lemma length_dict_of: "length (dict_of vs) \<le> length vs"
  using length_remdups_leq [of "rev vs"] by (simp add: dict_of_def)

lemma dict_of_map: "inj f \<Longrightarrow> dict_of (map f vs) = map f (dict_of vs)"
  by (induction vs rule: rev_induct) (auto simp: dict_of_snoc inj_image_mem_iff)

definition value_bytes :: "bool \<Rightarrow> bytes \<Rightarrow> bytes" where
  "value_bytes var v = (if var then carquet_write_u32_le (word_of_nat (length v)) else []) @ v"

definition dict_payload :: "bool \<Rightarrow> bytes list \<Rightarrow> bytes" where
  "dict_payload var vs = concat (map (value_bytes var) (dict_of vs))"

text \<open>The state after the values \<open>vs\<close> were added.\<close>

definition dict_inv :: "dict_builder \<Rightarrow> bytes list \<Rightarrow> bool" where
  "dict_inv b vs \<longleftrightarrow> chained.numbers (db_buckets b) (dict_of vs) \<and> db_count b = length (dict_of vs) \<and>
     buffer_wf (db_dict_buffer b) \<and> buf_owns_data (db_dict_buffer b) \<and>
     buffer_contents (db_dict_buffer b) = dict_payload (db_is_variable_length b) vs \<and>
     (\<forall>i \<in> set (db_indices b). unat i < length (dict_of vs)) \<and>
     map (\<lambda>i. dict_of vs ! unat i) (db_indices b) = vs \<and>
     (db_abandoned b \<longleftrightarrow> db_max_dict_bytes b \<noteq> 0 \<and> unat (db_max_dict_bytes b) < length (dict_payload (db_is_variable_length b) vs))"

lemma append_value_contents:
  assumes "\<forall>n. alloc_grants al n" "buffer_wf buf" "buf_owns_data buf"
    "length (buffer_contents buf) + length (value_bytes var v) < 2 ^ 64"
  shows "buffer_wf (append_value al var v buf) \<and> buf_owns_data (append_value al var v buf) \<and>
    buffer_contents (append_value al var v buf) = buffer_contents buf @ value_bytes var v"
proof -
  have a: "appends al b (carquet_buffer_append al b v) v" for b using assms(4) by (intro appends_append) (simp add: value_bytes_def)
  show ?thesis
  proof (cases var)
    case True
    let ?l = "carquet_write_u32_le (word_of_nat (length v))"
    have l: "appends al buf (carquet_buffer_append_u32_le al buf (word_of_nat (length v))) ?l"
      unfolding carquet_buffer_append_u32_le_def by (rule appends_append) simp
    show ?thesis using assms a l True
      by (simp add: appends_def append_value_def value_bytes_def Let_def)
  next
    case False
    then show ?thesis using assms a [of buf] by (simp add: appends_def append_value_def value_bytes_def)
  qed
qed

lemma dict_payload_snoc:
  "dict_payload var (vs @ [v]) = (if v \<in> set vs then dict_payload var vs else dict_payload var vs @ value_bytes var v)"
  by (simp add: dict_payload_def dict_of_snoc)

lemma nth_dict_of_snoc: "i < length (dict_of vs) \<Longrightarrow> dict_of (vs @ [v]) ! i = dict_of vs ! i"
  by (simp add: dict_of_snoc nth_append)

text \<open>The fields that adding does not touch.\<close>

definition same_kind :: "dict_builder \<Rightarrow> dict_builder \<Rightarrow> bool" where
  "same_kind b b' \<longleftrightarrow> db_is_variable_length b' = db_is_variable_length b \<and> db_max_dict_bytes b' = db_max_dict_bytes b"

lemma add_known:
  assumes "dict_inv b vs" "dict_find (db_buckets b) v = Some i" "length vs < 2 ^ 31"
  shows "dict_inv (b\<lparr>db_indices := db_indices b @ [i]\<rparr>) (vs @ [v])"
proof -
  have n: "chained.numbers (db_buckets b) (dict_of vs)" using assms(1) by (simp add: dict_inv_def)
  have len: "length (dict_of vs) \<le> 2 ^ 32" using length_dict_of [of vs] assms(3) by simp
  have "v \<in> set vs" using chained.numbers_look(1) [OF n, of v] assms(2) by simp
  moreover have "unat i < length (dict_of vs) \<and> dict_of vs ! unat i = v"
    using chained.numbers_look(2) [OF n assms(2) len] .
  ultimately show ?thesis using assms(1) by (simp add: dict_inv_def dict_of_snoc dict_payload_snoc)
qed

lemma add_entry_inv:
  assumes "\<forall>n. alloc_grants al n" "dict_inv b vs" "v \<notin> set vs" "length vs < 2 ^ 31"
    "length (dict_payload (db_is_variable_length b) (vs @ [v])) < 2 ^ 64"
  shows "\<exists>b'. add_entry al b v = Inr b' \<and> dict_inv b' (vs @ [v]) \<and> same_kind b b'"
proof -
  let ?n = "length (dict_of vs)" and ?i = "word_of_nat (length (dict_of vs)) :: u32"
  let ?var = "db_is_variable_length b" and ?max = "db_max_dict_bytes b"
  define buf where "buf = append_value al ?var v (db_dict_buffer b)"
  have inv: "chained.numbers (db_buckets b) (dict_of vs)" "db_count b = ?n" "buffer_wf (db_dict_buffer b)"
    "buf_owns_data (db_dict_buffer b)" "buffer_contents (db_dict_buffer b) = dict_payload ?var vs"
    "\<forall>i \<in> set (db_indices b). unat i < ?n" "map (\<lambda>i. dict_of vs ! unat i) (db_indices b) = vs"
    "db_abandoned b \<longleftrightarrow> ?max \<noteq> 0 \<and> unat ?max < length (dict_payload ?var vs)"
    using assms(2) by (simp_all add: dict_inv_def)
  have i: "unat ?i = ?n" using length_dict_of [of vs] assms(4) by (simp add: unat_of_nat)
  have ds: "dict_of (vs @ [v]) = dict_of vs @ [v]" using assms(3) by (simp add: dict_of_snoc)
  have pl: "dict_payload ?var (vs @ [v]) = dict_payload ?var vs @ value_bytes ?var v"
    using assms(3) by (simp add: dict_payload_snoc)
  have buf: "buffer_wf buf" "buf_owns_data buf" "buffer_contents buf = dict_payload ?var (vs @ [v])"
    using append_value_contents [OF assms(1) inv(3,4), of ?var v] inv(5) assms(5) by (simp_all add: buf_def pl)
  have size_buf: "unat (buf_size buf) = length (dict_payload ?var (vs @ [v]))"
    using buf length_buffer_contents [of buf] by simp
  have num: "chained.numbers (dict_put (db_buckets b) v ?i) (dict_of (vs @ [v]))"
    using chained.numbers_put [OF inv(1)] assms(3) by (simp add: ds)
  have ind: "map (\<lambda>i. dict_of (vs @ [v]) ! unat i) (db_indices b @ [?i]) = vs @ [v]"
    using inv(6,7) i by (simp add: ds nth_append cong: map_cong)
  define b1 where "b1 = b\<lparr>db_buckets := dict_put (db_buckets b) v ?i, db_dict_buffer := buf,
      db_indices := db_indices b @ [?i], db_count := db_count b + 1\<rparr>"
  let ?b' = "if ?max \<noteq> 0 \<and> ?max < buf_size buf then b1\<lparr>db_abandoned := True\<rparr> else b1"
  have "add_entry al b v = Inr ?b'"
    using assms(1) by (simp add: add_entry_def inv(2) buf_def [symmetric] b1_def Let_def)
  moreover have "dict_inv ?b' (vs @ [v])"
    using num ind buf inv(2,6,8) i size_buf ds
    by (auto simp: dict_inv_def b1_def word_less_nat_alt pl)
  moreover have "same_kind b ?b'" by (simp add: same_kind_def b1_def)
  ultimately show ?thesis by blast
qed

lemma reserve_index_inv:
  assumes "\<forall>n. alloc_grants al n" "dict_inv b vs"
  shows "\<exists>b0. reserve_index al b = Inr b0 \<and> dict_inv b0 vs \<and> same_kind b b0"
proof -
  let ?b0 = "if db_indices_capacity b \<le> word_of_nat (length (db_indices b))
    then b\<lparr>db_indices_capacity := db_indices_capacity b * 2\<rparr> else b"
  have "reserve_index al b = Inr ?b0" using assms(1) by (simp add: reserve_index_def Let_def)
  moreover have "dict_inv ?b0 vs" "same_kind b ?b0" using assms(2) by (simp_all add: dict_inv_def same_kind_def)
  ultimately show ?thesis by blast
qed

lemma rehash_inv:
  assumes "\<forall>n. alloc_grants al n" "dict_inv b vs"
  shows "\<exists>b1. (if c then dict_builder_rehash al b (length (db_buckets b) * 2) else Inr b) = Inr b1 \<and> dict_inv b1 vs \<and> same_kind b b1"
proof -
  let ?b1 = "if c then b\<lparr>db_buckets := relink (db_buckets b) (length (db_buckets b) * 2)\<rparr> else b"
  have n: "chained.numbers (db_buckets b) (dict_of vs)" using assms(2) by (simp add: dict_inv_def)
  have "(if c then dict_builder_rehash al b (length (db_buckets b) * 2) else Inr b) = Inr ?b1"
    using assms(1) by (simp add: dict_builder_rehash_def)
  moreover have "dict_inv ?b1 vs" "same_kind b ?b1"
    using assms(2) chained.numbers_grow [OF n] by (simp_all add: dict_inv_def same_kind_def)
  ultimately show ?thesis by blast
qed

lemma dict_builder_add_inv:
  assumes "\<forall>n. alloc_grants al n" "dict_inv b vs" "length vs < 2 ^ 31"
    "length (dict_payload (db_is_variable_length b) (vs @ [v])) < 2 ^ 64"
  shows "\<exists>b'. dict_builder_add al b v = Inr b' \<and> dict_inv b' (vs @ [v]) \<and> same_kind b b'"
proof -
  obtain b0 where b0: "reserve_index al b = Inr b0" "dict_inv b0 vs" "same_kind b b0"
    using reserve_index_inv [OF assms(1,2)] by blast
  have n: "chained.numbers (db_buckets b0) (dict_of vs)" using b0(2) by (simp add: dict_inv_def)
  show ?thesis
  proof (cases "dict_find (db_buckets b0) v")
    case (Some i)
    then show ?thesis using add_known [OF b0(2) Some assms(3)] b0 by (simp add: dict_builder_add_def same_kind_def)
  next
    case None
    then have v: "v \<notin> set vs" using chained.numbers_look(1) [OF n, of v] by simp
    let ?g = "db_buckets b0" 
    obtain b1 where b1: "(if length ?g * DICT_BUILDER_MAX_LOAD_NUM < (db_count b0 + 1) * DICT_BUILDER_MAX_LOAD_DEN
        then dict_builder_rehash al b0 (length ?g * 2) else Inr b0) = Inr b1" "dict_inv b1 vs" "same_kind b0 b1"
      using rehash_inv [OF assms(1) b0(2)] by blast
    have "length (dict_payload (db_is_variable_length b1) (vs @ [v])) < 2 ^ 64"
      using assms(4) b0(3) b1(3) by (simp add: same_kind_def)
    from add_entry_inv [OF assms(1) b1(2) v assms(3) this] obtain b' where
      "add_entry al b1 v = Inr b'" "dict_inv b' (vs @ [v])" "same_kind b1 b'" by blast
    then show ?thesis using b0 b1 None by (auto simp: dict_builder_add_def same_kind_def)
  qed
qed

lemma dict_payload_mono: "length (dict_payload var vs) \<le> length (dict_payload var (vs @ ws))"
proof (induction ws rule: rev_induct)
  case (snoc w ws)
  then show ?case using dict_payload_snoc [of var "vs @ ws" w] by simp
qed simp

lemma dict_add_all_inv:
  assumes "\<forall>n. alloc_grants al n"
  shows "dict_inv b vs \<Longrightarrow> length (vs @ ws) < 2 ^ 31 \<Longrightarrow>
    length (dict_payload (db_is_variable_length b) (vs @ ws)) < 2 ^ 64 \<Longrightarrow>
    \<exists>b'. dict_add_all al ws b = Inr b' \<and> dict_inv b' (vs @ ws) \<and> same_kind b b'"
proof (induction ws arbitrary: b vs)
  case Nil
  then show ?case by (simp add: same_kind_def)
next
  case (Cons w ws)
  have "length (dict_payload (db_is_variable_length b) (vs @ [w])) < 2 ^ 64"
    using dict_payload_mono [of "db_is_variable_length b" "vs @ [w]" ws] Cons.prems(3) by simp
  from dict_builder_add_inv [OF assms Cons.prems(1) _ this] Cons.prems(2) obtain b1 where
    b1: "dict_builder_add al b w = Inr b1" "dict_inv b1 (vs @ [w])" "same_kind b b1" by auto
  have "length ((vs @ [w]) @ ws) < 2 ^ 31" "length (dict_payload (db_is_variable_length b1) ((vs @ [w]) @ ws)) < 2 ^ 64"
    using Cons.prems(2,3) b1(3) by (simp_all add: same_kind_def)
  from Cons.IH [OF b1(2) this] b1 show ?case by (auto simp: same_kind_def)
qed

text \<open>The capped loop stops at the first prefix whose payload exceeds the cap; otherwise it adds everything.\<close>

lemma dict_add_until_inv:
  assumes "\<forall>n. alloc_grants al n"
  shows "dict_inv b vs \<Longrightarrow> length (vs @ ws) < 2 ^ 31 \<Longrightarrow>
    length (dict_payload (db_is_variable_length b) (vs @ ws)) < 2 ^ 64 \<Longrightarrow>
    \<exists>b'. dict_add_until al ws b = Inr b' \<and> same_kind b b' \<and>
      (db_abandoned b' \<longleftrightarrow> db_max_dict_bytes b \<noteq> 0 \<and>
         unat (db_max_dict_bytes b) < length (dict_payload (db_is_variable_length b) (vs @ ws))) \<and>
      (\<not> db_abandoned b' \<longrightarrow> dict_add_all al ws b = Inr b')"
proof (induction ws arbitrary: b vs)
  case Nil
  then show ?case by (simp add: same_kind_def dict_inv_def)
next
  case (Cons w ws)
  show ?case
  proof (cases "db_abandoned b")
    case True
    then have "db_max_dict_bytes b \<noteq> 0" "unat (db_max_dict_bytes b) < length (dict_payload (db_is_variable_length b) vs)"
      using Cons.prems(1) by (simp_all add: dict_inv_def)
    then show ?thesis
      using True dict_payload_mono [of "db_is_variable_length b" vs "w # ws"] by (auto simp: same_kind_def)
  next
    case False
    have "length (dict_payload (db_is_variable_length b) (vs @ [w])) < 2 ^ 64"
      using dict_payload_mono [of "db_is_variable_length b" "vs @ [w]" ws] Cons.prems(3) by simp
    from dict_builder_add_inv [OF assms Cons.prems(1) _ this] Cons.prems(2) obtain b1 where
      b1: "dict_builder_add al b w = Inr b1" "dict_inv b1 (vs @ [w])" "same_kind b b1" by auto
    have "length ((vs @ [w]) @ ws) < 2 ^ 31" "length (dict_payload (db_is_variable_length b1) ((vs @ [w]) @ ws)) < 2 ^ 64"
      using Cons.prems(2,3) b1(3) by (simp_all add: same_kind_def)
    from Cons.IH [OF b1(2) this] b1 False show ?thesis by (auto simp: same_kind_def)
  qed
qed

lemma dict_builder_init_inv:
  assumes "\<forall>n. alloc_grants al n"
  shows "\<exists>b. dict_builder_init al n k var = Inr b \<and> dict_inv b [] \<and> db_is_variable_length b = var \<and>
    dict_inv (b\<lparr>db_max_dict_bytes := cap\<rparr>) []"
proof -
  obtain buf st where e: "ensure_capacity al carquet_buffer_init 4096 = (buf, st)" by fastforce
  note p = ensure_capacity_preserves [OF buffer_wf_init e]
  have o: "st = CARQUET_OK" "buf_owns_data buf"
    using assms e by (auto simp: ensure_capacity_def carquet_mem_realloc_def carquet_buffer_init_def Let_def)
  have c: "carquet_buffer_init_capacity al 4096 = (buf, CARQUET_OK)"
    using e o(1) by (simp add: carquet_buffer_init_capacity_def carquet_buffer_reserve_def)
  have t: "table_ok (replicate DICT_BUILDER_INITIAL_BUCKETS [])"
    using table_ok_empty [of 10] by (simp add: DICT_BUILDER_INITIAL_BUCKETS_def)
  moreover have "concat (replicate n []) = ([] :: dict_entry list)" for n by (induction n) simp_all
  ultimately have "chained.numbers (replicate DICT_BUILDER_INITIAL_BUCKETS []) []"
    unfolding chained.numbers_def using dict_find_map_of [OF t] by simp
  then show ?thesis
    using assms c p o by (auto simp: dict_builder_init_def dict_inv_def dict_payload_def Let_def)
qed

lemma index_width_bound: "unat n < 2 ^ index_width n"
proof (induction n rule: index_width.induct)
  case (1 n)
  show ?case
  proof (cases "0 < n")
    case True
    have "unat (drop_bit 1 n) = unat n div 2" by (simp add: unat_drop_bit_word)
    then show ?thesis using 1 [OF True] True by (simp add: index_width.simps [of n])
  qed (simp add: index_width.simps word_gt_0)
qed

lemma index_width_le: "unat n < 2 ^ m \<Longrightarrow> index_width n \<le> m"
proof (induction m arbitrary: n)
  case 0
  then show ?case by (simp add: index_width.simps unat_eq_0)
next
  case (Suc m)
  have "unat (drop_bit 1 n) = unat n div 2" by (simp add: unat_drop_bit_word)
  then have "index_width (drop_bit 1 n) \<le> m" using Suc by simp
  then show ?case by (simp add: index_width.simps [of n])
qed

text \<open>The width is enough for every index and never more than 32.\<close>

lemma bit_width_for_count_bounds:
  assumes "0 < n" "n < 2 ^ 32"
  shows "n \<le> 2 ^ bit_width_for_count (word_of_nat n)" "0 < bit_width_for_count (word_of_nat n)"
    "bit_width_for_count (word_of_nat n) \<le> 32"
proof -
  have w: "unat (word_of_nat n :: u32) = n" using assms(2) by (simp add: unat_of_nat)
  then have nz: "(word_of_nat n :: u32) \<noteq> 0" using assms(1) by (metis less_numeral_extra(3) unsigned_0)
  have "(1 :: u32) \<le> word_of_nat n" using w assms(1) by (simp add: word_le_nat_alt)
  then have p: "unat (word_of_nat n - 1 :: u32) = n - 1" using w by (simp add: unat_sub)
  have b: "n - 1 < 2 ^ index_width (word_of_nat n - 1)" "index_width (word_of_nat n - 1 :: u32) \<le> 32"
    using index_width_bound [of "word_of_nat n - 1"] index_width_le [of "word_of_nat n - 1" 32] p assms(2) by auto
  show "0 < bit_width_for_count (word_of_nat n)" "bit_width_for_count (word_of_nat n) \<le> 32"
    "n \<le> 2 ^ bit_width_for_count (word_of_nat n)"
    using nz b by (auto simp: bit_width_for_count_def Let_def)
qed

section \<open>The table under any allocator\<close>

text \<open>What holds after the values \<open>vs\<close> were added, whichever allocations were granted.\<close>

definition table_inv :: "dict_builder \<Rightarrow> bytes list \<Rightarrow> bool" where
  "table_inv b vs \<longleftrightarrow> chained.numbers (db_buckets b) (dict_of vs) \<and> db_count b = length (dict_of vs) \<and>
     4 * db_count b \<le> 3 * length (db_buckets b) \<and> 1024 \<le> length (db_buckets b) \<and>
     (\<forall>i \<in> set (db_indices b). unat i < length (dict_of vs)) \<and> map (\<lambda>i. dict_of vs ! unat i) (db_indices b) = vs"

lemma length_link_entry [simp]: "length (link_entry e t) = length t"
  by (simp add: link_entry_def Let_def)

lemma length_relink [simp]: "length (relink t n) = n"
proof -
  have "length (fold link_entry es t) = length t" for es and t :: "dict_entry list list"
    by (induction es arbitrary: t) simp_all
  then show ?thesis by (simp add: relink_def)
qed

lemma add_entry_table:
  assumes "add_entry al b v = Inr b'" "table_inv b vs" "v \<notin> set vs" "length vs < 2 ^ 31"
    "4 * (db_count b + 1) \<le> 3 * length (db_buckets b)"
  shows "table_inv b' (vs @ [v])"
proof -
  let ?i = "word_of_nat (length (dict_of vs)) :: u32"
  have t: "chained.numbers (db_buckets b) (dict_of vs)" "db_count b = length (dict_of vs)" "1024 \<le> length (db_buckets b)"
    "\<forall>i \<in> set (db_indices b). unat i < length (dict_of vs)" "map (\<lambda>i. dict_of vs ! unat i) (db_indices b) = vs"
    using assms(2) by (simp_all add: table_inv_def)
  have b': "db_buckets b' = dict_put (db_buckets b) v ?i" "db_count b' = db_count b + 1" "db_indices b' = db_indices b @ [?i]"
    using assms(1) t(2) by (auto simp: add_entry_def Let_def split: if_splits)
  have i: "unat ?i = length (dict_of vs)" using length_dict_of [of vs] assms(4) by (simp add: unat_of_nat)
  have ds: "dict_of (vs @ [v]) = dict_of vs @ [v]" using assms(3) by (simp add: dict_of_snoc)
  have "chained.numbers (dict_put (db_buckets b) v ?i) (dict_of (vs @ [v]))"
    using chained.numbers_put [OF t(1)] assms(3) by (simp add: ds)
  moreover have "map (\<lambda>i. dict_of (vs @ [v]) ! unat i) (db_indices b @ [?i]) = vs @ [v]"
    using t(4,5) i by (simp add: ds nth_append cong: map_cong)
  ultimately show ?thesis
    using t i assms(5) unfolding table_inv_def b' by (auto simp: ds dict_put_def)
qed

lemma table_step:
  assumes "dict_builder_add al b v = Inr b'" "table_inv b vs" "length vs < 2 ^ 31"
  shows "table_inv b' (vs @ [v])"
proof -
  from assms(1) obtain b0 where b0: "reserve_index al b = Inr b0" by (auto simp: dict_builder_add_def split: sum.splits)
  then have t: "table_inv b0 vs"
    using assms(2) by (auto simp: reserve_index_def table_inv_def Let_def split: if_splits)
  then have n: "chained.numbers (db_buckets b0) (dict_of vs)" by (simp add: table_inv_def)
  show ?thesis
  proof (cases "dict_find (db_buckets b0) v")
    case (Some i)
    then have "v \<in> set vs" using chained.numbers_look(1) [OF n, of v] by simp
    moreover have "unat i < length (dict_of vs) \<and> dict_of vs ! unat i = v"
      using chained.numbers_look(2) [OF n Some] length_dict_of [of vs] assms(3) by simp
    moreover have "b' = b0\<lparr>db_indices := db_indices b0 @ [i]\<rparr>" using assms(1) b0 Some by (simp add: dict_builder_add_def)
    ultimately show ?thesis using t by (simp add: table_inv_def dict_of_snoc)
  next
    case None
    let ?c = "length (db_buckets b0) * DICT_BUILDER_MAX_LOAD_NUM < (db_count b0 + 1) * DICT_BUILDER_MAX_LOAD_DEN"
    let ?grown = "b0\<lparr>db_buckets := relink (db_buckets b0) (length (db_buckets b0) * 2)\<rparr>"
    have v: "v \<notin> set vs" using None chained.numbers_look(1) [OF n, of v] by simp
    have a: "add_entry al (if ?c then ?grown else b0) v = Inr b'"
      using assms(1) b0 None by (auto simp: dict_builder_add_def dict_builder_rehash_def split: sum.splits if_splits)
    have "table_inv (if ?c then ?grown else b0) vs" using t chained.numbers_grow [OF n] by (simp add: table_inv_def)
    then show ?thesis
      using t by (intro add_entry_table [OF a _ v assms(3)])
        (auto simp: table_inv_def DICT_BUILDER_MAX_LOAD_NUM_def DICT_BUILDER_MAX_LOAD_DEN_def)
  qed
qed

lemma table_all:
  "dict_add_all al ws b = Inr b' \<Longrightarrow> table_inv b vs \<Longrightarrow> length (vs @ ws) < 2 ^ 31 \<Longrightarrow> table_inv b' (vs @ ws)"
proof (induction ws arbitrary: b vs)
  case (Cons w ws)
  then obtain b1 where b1: "dict_builder_add al b w = Inr b1" "dict_add_all al ws b1 = Inr b'" by (auto split: sum.splits)
  then show ?case using Cons.IH [OF b1(2), of "vs @ [w]"] table_step [OF b1(1) Cons.prems(2)] Cons.prems(3) by simp
qed simp

lemma table_init: "dict_builder_init al n k var = Inr b \<Longrightarrow> table_inv b []"
proof -
  assume "dict_builder_init al n k var = Inr b"
  then have b: "db_buckets b = replicate 1024 []" "db_count b = 0" "db_indices b = []"
    by (auto simp: dict_builder_init_def DICT_BUILDER_INITIAL_BUCKETS_def Let_def split: if_splits prod.splits)
  have t: "table_ok (replicate 1024 [])" using table_ok_empty [of 10] by simp
  moreover have "concat (replicate n []) = ([] :: dict_entry list)" for n by (induction n) simp_all
  ultimately have "chained.numbers (replicate 1024 []) []" unfolding chained.numbers_def using dict_find_map_of [OF t] by simp
  then show ?thesis by (simp add: table_inv_def b)
qed

text \<open>
  C25: the builder's hash table, through any number of insertions and rehashes and under any allocator, as long as the
  calls report success. The number of buckets stays a power of two with every entry in the bucket of its hash, the table is
  at most three quarters full, looking up a value finds its position among the distinct values in order of first occurrence
  and nothing else, and the recorded indices select exactly the values added.
\<close>

theorem dictionary_table_invariant:
  assumes "dict_builder_init al n k var = Inr b" "dict_add_all al vs b = Inr b'" "length vs < 2 ^ 31"
  shows "table_ok (db_buckets b') \<and> 4 * db_count b' \<le> 3 * length (db_buckets b') \<and> db_count b' = length (dict_of vs) \<and>
    (\<forall>v. dict_find (db_buckets b') v = map_option word_of_nat (position (dict_of vs) v)) \<and>
    map (\<lambda>i. dict_of vs ! unat i) (db_indices b') = vs"
  using table_all [OF assms(2) table_init [OF assms(1)]] assms(3) by (simp add: table_inv_def chained.numbers_def)

theorem dictionary_table_invariant_witness:
  "\<exists>b b'. dict_builder_init generous 3 0 True = Inr b \<and> dict_add_all generous [[1], [2, 3], [1]] b = Inr b' \<and>
    db_count b' = length (dict_of [[1], [2, 3], [1 :: u8]]) \<and> map (\<lambda>i. dict_of [[1], [2, 3], [1 :: u8]] ! unat i) (db_indices b') = [[1], [2, 3], [1]]"
proof -
  have g: "\<forall>n. alloc_grants generous n" by (simp add: generous_def)
  obtain b where b: "dict_builder_init generous 3 0 True = Inr b" "dict_inv b []" using dict_builder_init_inv [OF g] by metis
  have "length (dict_payload x [[1], [2, 3], [1 :: u8]]) < 2 ^ 64" for x
    by (simp add: dict_payload_def dict_of_def value_bytes_def)
  then obtain b' where b': "dict_add_all generous [[1], [2, 3], [1]] b = Inr b'"
    using dict_add_all_inv [OF g b(2), of "[[1], [2, 3], [1]]"] by auto
  from dictionary_table_invariant [OF b(1) b']
  have "db_count b' = length (dict_of [[1], [2, 3], [1 :: u8]])"
    "map (\<lambda>i. dict_of [[1], [2, 3], [1 :: u8]] ! unat i) (db_indices b') = [[1], [2, 3], [1]]" by simp_all
  then show ?thesis using b(1) b' by (intro exI [of _ b] exI [of _ b'] conjI)
qed

section \<open>Round trip\<close>

lemma append_granted:
  assumes "\<forall>n. alloc_grants al n" "buffer_wf b" "buf_owns_data b" "length (buffer_contents b) + length bs < 2 ^ 64"
  shows "buffer_wf (fst (carquet_buffer_append al b bs)) \<and> buf_owns_data (fst (carquet_buffer_append al b bs)) \<and>
    buffer_contents (fst (carquet_buffer_append al b bs)) = buffer_contents b @ bs"
  using appends_append [of bs al b] assms by (simp add: appends_def)

lemma loop_count_length: "n < 2 ^ 31 \<Longrightarrow> loop_count (word_of_nat n) = n"
  using sint_of_nat_small [of n, where 'a = 64] by (simp add: loop_count_def)

text \<open>What the encoders leave in their outputs for the values \<open>vs\<close>.\<close>

definition dict_encoded ::
    "bitunpack_dispatch \<Rightarrow> bool \<Rightarrow> bytes list \<Rightarrow> carquet_buffer \<Rightarrow> carquet_buffer \<Rightarrow> dict_result \<Rightarrow> bool" where
  "dict_encoded ds var vs dict_output indices_output res \<longleftrightarrow>
     (\<exists>d i w bs indices. res = (d, i, CARQUET_OK) \<and>
        buffer_contents d = buffer_contents dict_output @ dict_payload var vs \<and>
        buffer_contents i = buffer_contents indices_output @ w # bs \<and> length bs \<le> 9 * length vs \<and>
        carquet_rle_decode_all ds bs (uint w) (length vs) = indices \<and>
        (\<forall>i \<in> set indices. unat i < length (dict_of vs)) \<and> map (\<lambda>i. dict_of vs ! unat i) indices = vs)"

lemma dict_finish_encodes:
  assumes "unpack_kernels ds" "\<forall>n. alloc_grants al n" "dict_inv b vs" "vs \<noteq> []" "length vs < 2 ^ 31"
    "buffer_wf dout" "buf_owns_data dout" "buffer_wf iout" "buf_owns_data iout"
    "length (buffer_contents dout) + length (dict_payload (db_is_variable_length b) vs) < 2 ^ 64"
    "length (buffer_contents iout) + 9 * length vs + 1 < 2 ^ 64"
  shows "dict_encoded ds (db_is_variable_length b) vs dout iout (dict_finish al b (word_of_nat (length vs)) dout iout)"
proof -
  let ?n = "length (dict_of vs)"
  let ?w = "bit_width_for_count (word_of_nat ?n)"
  have n: "0 < ?n" "?n < 2 ^ 32" using assms(4,5) length_dict_of [of vs] by (auto simp flip: length_greater_0_conv set_empty)
  note w = bit_width_for_count_bounds [OF n]
  have uw: "uint (word_of_nat ?w :: u8) = int ?w" using w(3) by (simp add: uint_nat unat_of_nat)
  have inv: "db_count b = ?n" "buffer_contents (db_dict_buffer b) = dict_payload (db_is_variable_length b) vs"
    "\<forall>i \<in> set (db_indices b). unat i < ?n" "map (\<lambda>i. dict_of vs ! unat i) (db_indices b) = vs"
    using assms(3) by (simp_all add: dict_inv_def)
  have li: "length (db_indices b) = length vs" using arg_cong [OF inv(4), of length] by simp
  note d = append_granted [OF assms(2,6,7), of "dict_payload (db_is_variable_length b) vs"]
  note i = append_granted [OF assms(2,8,9), of "[word_of_nat ?w]"]
  let ?i1 = "fst (carquet_buffer_append_byte al iout (word_of_nat ?w))"
  have i1: "buffer_wf ?i1" "buf_owns_data ?i1" "buffer_contents ?i1 = buffer_contents iout @ [word_of_nat ?w]"
    using i assms(11) by (simp_all add: carquet_buffer_append_byte_def)
  have room: "length (db_indices b) < 2 ^ 31" "length (buffer_contents ?i1) + 9 * length (db_indices b) < 2 ^ 64"
    using assms(5,11) li i1(3) by simp_all
  obtain bs i2 where bs: "carquet_rle_encode_all al (db_indices b) ?w ?i1 = (i2, CARQUET_OK)"
    "buffer_contents i2 = buffer_contents ?i1 @ bs" "length bs \<le> 9 * length vs"
    "rle_stream ?w bs = map (\<lambda>v. v AND mask ?w) (db_indices b)"
    using encode_all_runs [OF assms(2) i1(1,2) w(3) room] li by (metis prod.collapse)
  have "v AND mask ?w = v" if "v \<in> set (db_indices b)" for v
    using that inv(3) w(1) by (intro and_mask_unat_self) (meson less_le_trans)
  then have "rle_stream ?w bs = db_indices b" using bs(4) by (simp cong: map_cong)
  then have "carquet_rle_decode_all ds bs (uint (word_of_nat ?w :: u8)) (length vs) = db_indices b"
    using rle_decode_all_stream [OF assms(1), of "int ?w" bs "length vs"] w(3) li by (simp add: uw)
  moreover have "dict_finish al b (word_of_nat (length vs)) dout iout =
      (fst (carquet_buffer_append al dout (dict_payload (db_is_variable_length b) vs)), i2, CARQUET_OK)"
    using bs(1) li by (simp add: dict_finish_def Let_def inv(1,2) loop_count_length [OF assms(5)])
  ultimately show ?thesis
    using d assms(10) bs(2,3) i1(3) inv(3,4) unfolding dict_encoded_def by force
qed

lemma dictionary_encode_encodes:
  assumes "unpack_kernels ds" "\<forall>n. alloc_grants al n" "vs \<noteq> []" "length vs < 2 ^ 31"
    "buffer_wf dout" "buf_owns_data dout" "buffer_wf iout" "buf_owns_data iout"
    "length (buffer_contents dout) + length (dict_payload var vs) < 2 ^ 64"
    "length (buffer_contents iout) + 9 * length vs + 1 < 2 ^ 64"
  shows "dict_encoded ds var vs dout iout (dictionary_encode al k var vs (word_of_nat (length vs)) dout iout)"
proof -
  obtain b where b: "dict_builder_init al (word_of_nat (length vs)) k var = Inr b" "dict_inv b []"
    "db_is_variable_length b = var" using dict_builder_init_inv [OF assms(2)] by metis
  obtain b' where b': "dict_add_all al vs b = Inr b'" "dict_inv b' vs" "db_is_variable_length b' = var"
    using dict_add_all_inv [OF assms(2) b(2), of vs] assms(4,9) b(3) by (auto simp: same_kind_def)
  show ?thesis
    using dict_finish_encodes [OF assms(1,2) b'(2) assms(3-8)] assms(9,10) b' b(1)
    by (simp add: dictionary_encode_def loop_count_length [OF assms(4)])
qed

definition gathers :: "('a list \<Rightarrow> i32 \<Rightarrow> u32 list \<Rightarrow> bool \<times> 'a list) \<Rightarrow> bool" where
  "gathers g \<longleftrightarrow> (\<forall>n dict is. sint n = int (length dict) \<longrightarrow>
     g dict n is = (if \<forall>i \<in> set is. unat i < length dict then (True, map (\<lambda>i. dict ! unat i) is) else (False, [])))"

lemma checked_gathers:
  assumes "simd_kernels t"
  shows "gathers (carquet_dispatch_checked_gather_i32 t)" "gathers (carquet_dispatch_checked_gather_i64 t)"
    "gathers (carquet_dispatch_checked_gather_float t)" "gathers (carquet_dispatch_checked_gather_double t)"
  unfolding gathers_def carquet_dispatch_checked_gather_i32_def carquet_dispatch_checked_gather_i64_def
    carquet_dispatch_checked_gather_float_def carquet_dispatch_checked_gather_double_def
  using simd_kernels.gather_i32 [OF assms] simd_kernels.gather_i64 [OF assms]
    simd_kernels.gather_float [OF assms] simd_kernels.gather_double [OF assms]
  by (intro allI impI checked_gather_spec; simp add: scalar_gather_i32_def scalar_gather_i64_def
      scalar_gather_float_def scalar_gather_double_def gather_loop_map)+

text \<open>\<open>reads_back k encode decode xs\<close>: encoding \<open>xs\<close> succeeds with a dictionary of \<open>k\<close> bytes per distinct value, and decoding returns \<open>xs\<close>.\<close>

definition reads_back ::
    "nat \<Rightarrow> ('a list \<Rightarrow> i64 \<Rightarrow> carquet_buffer \<Rightarrow> carquet_buffer \<Rightarrow> dict_result) \<Rightarrow>
     (bytes option \<Rightarrow> i32 \<Rightarrow> bytes \<Rightarrow> i64 \<Rightarrow> 'a list outcome) \<Rightarrow> 'a list \<Rightarrow> carquet_buffer \<Rightarrow> carquet_buffer \<Rightarrow> bool" where
  "reads_back k encode decode xs dict_output indices_output \<longleftrightarrow>
     (\<exists>d i dbs ibs. encode xs (word_of_nat (length xs)) dict_output indices_output = (d, i, CARQUET_OK) \<and>
        buffer_contents d = buffer_contents dict_output @ dbs \<and>
        buffer_contents i = buffer_contents indices_output @ ibs \<and>
        length dbs = k * length (dict_of xs) \<and>
        decode (Some dbs) (word_of_nat (length (dict_of xs))) ibs (word_of_nat (length xs)) = Inr xs)"

lemma reads_backI:
  assumes "unpack_kernels ds" "\<forall>n. alloc_grants al n" "\<forall>n. alloc_grants al' n" "xs \<noteq> []" "length xs < 2 ^ 31"
    "buffer_wf dout" "buf_owns_data dout" "buffer_wf iout" "buf_owns_data iout"
    "length (buffer_contents dout) + k * length xs < 2 ^ 64"
    "length (buffer_contents iout) + 9 * length xs + 1 < 2 ^ 64"
    and enc: "\<And>x. length (enc x) = k" "\<And>x r. load (enc x @ r) = x"
    and gather: "gathers gather"
  shows "reads_back k (\<lambda>xs. dictionary_encode al c False (map enc xs)) (dictionary_decode ds al' aligned k load gather) xs dout iout"
proof -
  have inj: "inj enc" using enc(2) by (metis append_Nil2 injI)
  let ?D = "dict_of xs" and ?n = "length (dict_of xs)"
  have n: "0 < ?n" "?n < 2 ^ 31" using assms(4,5) length_dict_of [of xs] by (auto simp flip: length_greater_0_conv set_empty)
  note sn = small_i32 [OF n(2)]
  have pl: "dict_payload False (map enc xs) = concat (map enc ?D)"
    by (simp add: dict_payload_def dict_of_map [OF inj] value_bytes_def comp_def)
  then have len: "length (dict_payload False (map enc xs)) = k * ?n" by (simp add: length_concat_words enc(1))
  moreover have "k * ?n \<le> k * length xs" using length_dict_of by (rule mult_le_mono2)
  ultimately have "length (buffer_contents dout) + length (dict_payload False (map enc xs)) < 2 ^ 64" using assms(10) by linarith
  from dictionary_encode_encodes [OF assms(1,2) _ _ assms(6-9) this, of c] assms(4,5,11)
  obtain d i w bs indices where e: "dictionary_encode al c False (map enc xs) (word_of_nat (length xs)) dout iout = (d, i, CARQUET_OK)"
    "buffer_contents d = buffer_contents dout @ concat (map enc ?D)" "buffer_contents i = buffer_contents iout @ w # bs"
    "carquet_rle_decode_all ds bs (uint w) (length xs) = indices"
    "\<forall>i \<in> set indices. unat i < ?n" "map (\<lambda>i. map enc ?D ! unat i) indices = map enc xs"
    by (auto simp: dict_encoded_def pl dict_of_map [OF inj])
  have "map (\<lambda>i. map enc ?D ! unat i) indices = map enc (map (\<lambda>i. ?D ! unat i) indices)"
    using e(5) by simp
  then have ind: "map (\<lambda>i. ?D ! unat i) indices = xs" using e(6) inj by (metis inj_map_eq_map)
  then have li: "length indices = length xs" by (metis length_map)
  have "plain_words k load (concat (map enc ?D)) ?n = ?D" using plain_words_concat [of load enc k ?D "[]"] enc by simp
  moreover have "gather ?D (word_of_nat ?n) indices = (True, xs)" using gather sn e(5) ind by (simp add: gathers_def)
  moreover have "\<not> sint (word_of_nat (length xs) :: i64) \<le> 0"
    using loop_count_length [OF assms(5)] assms(4) by (auto simp: loop_count_def simp flip: length_greater_0_conv)
  ultimately have "dictionary_decode ds al' aligned k load gather (Some (concat (map enc ?D))) (word_of_nat ?n) (w # bs)
      (word_of_nat (length xs)) = Inr xs"
    using assms(3) n sn e(4) li loop_count_length [OF assms(5)]
    by (simp add: dictionary_decode_def length_concat_words enc(1) Let_def)
  then show ?thesis using e(1-3) len unfolding reads_back_def pl by blast
qed

text \<open>
  C24: dictionary encoding round trips for the four fixed-width types. With granted allocations, owned outputs and room,
  every encoder succeeds; it appends a dictionary page of exactly the distinct values and an index stream from which the
  decoder of the type, aligned or not, reads the values back.
\<close>

theorem dictionary_roundtrip:
  assumes "unpack_kernels ds" "simd_kernels t" "\<forall>n. alloc_grants al n" "\<forall>n. alloc_grants al' n"
    "buffer_wf dout" "buf_owns_data dout" "buffer_wf iout" "buf_owns_data iout"
    "xs \<noteq> []" "length xs < 2 ^ 31" "ys \<noteq> []" "length ys < 2 ^ 31"
    "length (buffer_contents dout) < 2 ^ 63" "length (buffer_contents iout) < 2 ^ 63"
  shows "reads_back 4 (carquet_dictionary_encode_int32 al) (carquet_dictionary_decode_int32 ds t al' aligned) xs dout iout \<and>
    reads_back 4 (carquet_dictionary_encode_float al) (carquet_dictionary_decode_float ds t al' aligned) xs dout iout \<and>
    reads_back 8 (carquet_dictionary_encode_int64 al) (carquet_dictionary_decode_int64 ds t al' aligned) ys dout iout \<and>
    reads_back 8 (carquet_dictionary_encode_double al) (carquet_dictionary_decode_double ds t al' aligned) ys dout iout"
proof -
  note g = checked_gathers [OF assms(2)]
  note x = reads_backI [OF assms(1,3,4,9,10,5-8), where k = 4 and c = 4 and aligned = aligned]
  note y = reads_backI [OF assms(1,3,4,11,12,5-8), where k = 8 and c = 8 and aligned = aligned]
  show ?thesis
    unfolding carquet_dictionary_encode_int32_def carquet_dictionary_encode_float_def carquet_dictionary_encode_int64_def
      carquet_dictionary_encode_double_def carquet_dictionary_decode_int32_def carquet_dictionary_decode_float_def
      carquet_dictionary_decode_int64_def carquet_dictionary_decode_double_def
    using assms(10,12-14)
    by (intro conjI x y g) (simp_all add: byte_simps)
qed

theorem dictionary_roundtrip_witness:
  "reads_back 4 (carquet_dictionary_encode_int32 generous) (carquet_dictionary_decode_int32 scalar_dispatch scalar_simd generous False)
     [7, 9, 7] carquet_buffer_init carquet_buffer_init"
proof -
  have i: "buf_owns_data carquet_buffer_init" "\<forall>n. alloc_grants generous n"
    by (simp_all add: carquet_buffer_init_def generous_def)
  from dictionary_roundtrip [OF scalar.unpack_kernels_axioms scalar_table.simd_kernels_axioms i(2,2) buffer_wf_init i(1)
      buffer_wf_init i(1), of "[7, 9, 7]" "[1]" False]
  show ?thesis by simp
qed

section \<open>Arbitrary input\<close>

text \<open>The selected elements of a dictionary page.\<close>

definition selects :: "nat \<Rightarrow> (bytes \<Rightarrow> 'a) \<Rightarrow> bytes \<Rightarrow> i32 \<Rightarrow> u32 list \<Rightarrow> 'a list \<Rightarrow> bool" where
  "selects k load dict n indices out \<longleftrightarrow> 0 < sint n \<and> unat n * k \<le> length dict \<and>
     (\<forall>i \<in> set indices. unat i < unat n) \<and> out = map (\<lambda>i. load (drop (k * unat i) dict)) indices"

definition decoded_from ::
    "bitunpack_dispatch \<Rightarrow> nat \<Rightarrow> (bytes \<Rightarrow> 'a) \<Rightarrow> bytes option \<Rightarrow> i32 \<Rightarrow> bytes \<Rightarrow> i64 \<Rightarrow> 'a list \<Rightarrow> bool" where
  "decoded_from ds k load dict n idx m out \<longleftrightarrow>
     (\<exists>d w rle indices. dict = Some d \<and> idx = w # rle \<and> indices = carquet_rle_decode_all ds rle (uint w) (nat (sint m)) \<and>
        nat (sint m) \<le> length indices \<and> selects k load d n indices out)"

lemma dictionary_decode_safe:
  assumes "gathers gather" "dictionary_decode ds al aligned k load gather dict n idx m = Inr out" "0 < sint m"
  shows "decoded_from ds k load dict n idx m out"
proof -
  from assms(2,3) obtain d w rle where d: "dict = Some d" "idx = w # rle" "0 < sint n" "unat n * k \<le> length d"
    and l: "nat (sint m) \<le> length (carquet_rle_decode_all ds rle (uint w) (nat (sint m)))"
    and g: "gather (plain_words k load d (unat n)) n (carquet_rle_decode_all ds rle (uint w) (nat (sint m))) = (True, out)"
    by (auto simp: dictionary_decode_def Let_def loop_count_def not_le not_less
        split: option.splits list.splits if_splits prod.splits)
  have len: "length (plain_words k load d (unat n)) = unat n" by (simp add: plain_words_def)
  moreover have "sint n = int (unat n)" using nonneg_i32 [of n] d(3) by linarith
  ultimately have "(\<forall>i \<in> set (carquet_rle_decode_all ds rle (uint w) (nat (sint m))). unat i < unat n)"
    "out = map (\<lambda>i. plain_words k load d (unat n) ! unat i) (carquet_rle_decode_all ds rle (uint w) (nat (sint m)))"
    using assms(1) g unfolding gathers_def by (metis prod.inject)+
  then have "selects k load d n (carquet_rle_decode_all ds rle (uint w) (nat (sint m))) out"
    using d by (simp add: selects_def plain_words_def)
  then show ?thesis using d l unfolding decoded_from_def by blast
qed

text \<open>
  C35: a dictionary decoder never reads outside the dictionary page. Whenever it succeeds with a positive count, on
  whatever bytes, the page holds all announced entries, the index stream held at least as many indices as asked for, every
  index is below the number of entries, and the output is the entries they select; in every other case it
  reports an error.
\<close>

theorem dictionary_decode_in_bounds:
  assumes "simd_kernels t" "0 < sint m"
  shows "(carquet_dictionary_decode_int32 ds t al aligned dict n idx m = Inr o1 \<longrightarrow>
      decoded_from ds 4 carquet_read_i32_le dict n idx m o1) \<and>
    (carquet_dictionary_decode_float ds t al aligned dict n idx m = Inr o2 \<longrightarrow>
      decoded_from ds 4 carquet_read_f32_le dict n idx m o2) \<and>
    (carquet_dictionary_decode_int64 ds t al aligned dict n idx m = Inr o3 \<longrightarrow>
      decoded_from ds 8 carquet_read_i64_le dict n idx m o3) \<and>
    (carquet_dictionary_decode_double ds t al aligned dict n idx m = Inr o4 \<longrightarrow>
      decoded_from ds 8 carquet_read_f64_le dict n idx m o4)"
  using checked_gathers [OF assms(1)] assms(2)
  by (auto simp: carquet_dictionary_decode_int32_def carquet_dictionary_decode_float_def
      carquet_dictionary_decode_int64_def carquet_dictionary_decode_double_def intro: dictionary_decode_safe)

theorem dictionary_decode_in_bounds_witness:
  "decoded_from scalar_dispatch 4 carquet_read_i32_le (Some [7, 0, 0, 0, 9, 0, 0, 0]) 2 [1, 4, 1, 2, 0] 3 [9, 9, 7]"
proof -
  have d: "carquet_dictionary_decode_int32 scalar_dispatch scalar_simd generous True (Some [7, 0, 0, 0, 9, 0, 0, 0]) 2
      [1, 4, 1, 2, 0] 3 = Inr [9, 9, 7]" by code_simp
  have "0 < sint (3 :: i64)" by simp
  from dictionary_decode_in_bounds [OF scalar_table.simd_kernels_axioms this] d show ?thesis by blast
qed

section \<open>The capped encoder\<close>

text \<open>The builder without its budget.\<close>

definition uncapped :: "dict_builder \<Rightarrow> dict_builder" where
  "uncapped b = b\<lparr>db_max_dict_bytes := 0, db_abandoned := False\<rparr>"

lemma add_uncapped:
  "map_sum id uncapped (dict_builder_add al (uncapped b) v) = map_sum id uncapped (dict_builder_add al b v)"
proof -
  have r: "reserve_index al (uncapped b) = map_sum id uncapped (reserve_index al b)"
    by (simp add: reserve_index_def uncapped_def Let_def)
  have h: "dict_builder_rehash al (uncapped b0) k = map_sum id uncapped (dict_builder_rehash al b0 k)" for b0 k
    by (simp add: dict_builder_rehash_def uncapped_def)
  have a: "map_sum id uncapped (add_entry al (uncapped b1) v) = map_sum id uncapped (add_entry al b1 v)" for b1
    by (simp add: add_entry_def uncapped_def Let_def)
  have s: "db_buckets (uncapped b0) = db_buckets b0" "db_count (uncapped b0) = db_count b0" "db_indices (uncapped b0) = db_indices b0"
    "uncapped (uncapped b0) = uncapped b0"
    "uncapped (b0\<lparr>db_indices := x\<rparr>) = (uncapped b0)\<lparr>db_indices := x\<rparr>" for b0 x
    by (simp_all add: uncapped_def)
  show ?thesis
    unfolding dict_builder_add_def r
    by (auto simp: s h a split: sum.splits option.splits)
qed

lemma add_all_uncapped:
  "uncapped b = uncapped b' \<Longrightarrow>
   map_sum id uncapped (dict_add_all al vs b) = map_sum id uncapped (dict_add_all al vs b')"
proof (induction vs arbitrary: b b')
  case (Cons v vs)
  have e: "map_sum id uncapped (dict_builder_add al b v) = map_sum id uncapped (dict_builder_add al b' v)"
    using add_uncapped [of al b v] add_uncapped [of al b' v] Cons.prems by simp
  show ?case
  proof (cases "dict_builder_add al b v")
    case (Inl x)
    then show ?thesis using e by (cases "dict_builder_add al b' v") auto
  next
    case (Inr b1)
    then obtain b1' where "dict_builder_add al b' v = Inr b1'" "uncapped b1 = uncapped b1'"
      using e by (cases "dict_builder_add al b' v") auto
    then show ?thesis using Inr Cons.IH [of b1 b1'] by simp
  qed
qed simp

lemma finish_uncapped: "uncapped b = uncapped b' \<Longrightarrow> dict_finish al b n dout iout = dict_finish al b' n dout iout"
proof -
  have "dict_finish al (uncapped x) n dout iout = dict_finish al x n dout iout" for x
    by (simp add: dict_finish_def uncapped_def)
  then show "uncapped b = uncapped b' \<Longrightarrow> ?thesis" by metis
qed

text \<open>The encoder of the type of the values.\<close>

definition dictionary_encode_typed ::
    "allocator \<Rightarrow> plain_values \<Rightarrow> i64 \<Rightarrow> carquet_buffer \<Rightarrow> carquet_buffer \<Rightarrow> dict_result" where
  "dictionary_encode_typed al vals n dout iout =
     (case vals of
        PInt32 xs \<Rightarrow> carquet_dictionary_encode_int32 al xs n dout iout
      | PInt64 xs \<Rightarrow> carquet_dictionary_encode_int64 al xs n dout iout
      | PFloat xs \<Rightarrow> carquet_dictionary_encode_float al xs n dout iout
      | PDouble xs \<Rightarrow> carquet_dictionary_encode_double al xs n dout iout
      | PByteArray xs \<Rightarrow> carquet_dictionary_encode_byte_array al (map byte_array_of xs) n dout iout
      | _ \<Rightarrow> (dout, iout, CARQUET_ERROR_NOT_IMPLEMENTED))"

lemma ba_bytes_of: "length d < 2 ^ 31 \<Longrightarrow> ba_bytes (byte_array_of d) = d"
  by (simp add: ba_bytes_def byte_array_of_def small_i32)

lemma typed_values:
  assumes "capped_values vals = Some (k, var, vs)" "\<forall>v \<in> set vs. length v < 2 ^ 31"
  shows "dictionary_encode_typed al vals n dout iout = dictionary_encode al k var vs n dout iout"
  using assms by (cases vals) (auto simp: capped_values_def dictionary_encode_typed_def carquet_dictionary_encode_int32_def
      carquet_dictionary_encode_int64_def carquet_dictionary_encode_float_def carquet_dictionary_encode_double_def
      carquet_dictionary_encode_byte_array_def ba_bytes_of cong: map_cong)

text \<open>
  The capped encoder is the encoder of the type unless the dictionary is too large. With a budget other than 0, when the
  dictionary page of all values would exceed it, it gives up without touching its outputs, although it never looks at
  the values after the one that exceeded the budget; otherwise its result is that of the encoder without a budget.
\<close>

theorem dictionary_capped_equivalent:
  assumes "\<forall>n. alloc_grants al n" "capped_values vals = Some (k, var, vs)" "\<forall>v \<in> set vs. length v < 2 ^ 31"
    "vs \<noteq> []" "length vs < 2 ^ 31" "length (dict_payload var vs) < 2 ^ 64"
  shows "carquet_dictionary_encode_capped al vals (word_of_nat (length vs)) cap dout iout =
    (if cap \<noteq> 0 \<and> unat cap < length (dict_payload var vs) then ((dout, iout, CARQUET_OK), True)
     else (dictionary_encode_typed al vals (word_of_nat (length vs)) dout iout, False))"
proof -
  let ?n = "word_of_nat (length vs) :: i64"
  obtain b where b: "dict_builder_init al ?n k var = Inr b" "db_is_variable_length b = var"
    "dict_inv (b\<lparr>db_max_dict_bytes := cap\<rparr>) []" using dict_builder_init_inv [OF assms(1)] by metis
  let ?b = "b\<lparr>db_max_dict_bytes := cap\<rparr>"
  obtain b' where b': "dict_add_until al vs ?b = Inr b'"
    "db_abandoned b' \<longleftrightarrow> cap \<noteq> 0 \<and> unat cap < length (dict_payload var vs)"
    "\<not> db_abandoned b' \<Longrightarrow> dict_add_all al vs ?b = Inr b'"
    using dict_add_until_inv [OF assms(1) b(3), of vs] assms(5,6) b(2) by auto
  have pos: "\<not> sint ?n \<le> 0" "loop_count ?n = length vs"
    using loop_count_length [OF assms(5)] assms(4) by (auto simp: loop_count_def simp flip: length_greater_0_conv)
  have "dictionary_encode al k var vs ?n dout iout = dict_finish al b' ?n dout iout" if "\<not> db_abandoned b'"
  proof -
    note all = b'(3) [OF that]
    have "uncapped ?b = uncapped b" by (simp add: uncapped_def)
    from add_all_uncapped [OF this, of al vs] obtain b2 where "dict_add_all al vs b = Inr b2" "uncapped b2 = uncapped b'"
      using all by (cases "dict_add_all al vs b") auto
    then show ?thesis using b(1) pos finish_uncapped [of b2 b'] by (simp add: dictionary_encode_def)
  qed
  moreover have "carquet_dictionary_encode_capped al vals ?n cap dout iout =
      (if db_abandoned b' then ((dout, iout, CARQUET_OK), True) else (dict_finish al b' ?n dout iout, False))"
    unfolding carquet_dictionary_encode_capped_def using pos assms(2) b(1) b'(1) by simp
  ultimately show ?thesis unfolding typed_values [OF assms(2,3)] b'(2) [symmetric] by simp
qed

theorem dictionary_capped_equivalent_witness:
  "carquet_dictionary_encode_capped generous (PInt32 [7, 8, 7]) 3 7 carquet_buffer_init carquet_buffer_init =
    ((carquet_buffer_init, carquet_buffer_init, CARQUET_OK), True)"
proof -
  have "capped_values (PInt32 [7, 8, 7]) = Some (4, False, map carquet_write_i32_le [7, 8, 7])" by (simp add: capped_values_def)
  moreover have "length (dict_payload False (map carquet_write_i32_le [7, 8, 7])) = 8" by code_simp
  moreover have "\<forall>n. alloc_grants generous n" by (simp add: generous_def)
  ultimately show ?thesis
    using dictionary_capped_equivalent [of generous "PInt32 [7, 8, 7]" 4 False "map carquet_write_i32_le [7, 8, 7]" 7
        carquet_buffer_init carquet_buffer_init] by simp
qed

section \<open>Byte arrays\<close>

lemma length_byte_array_payload: "length (dict_payload True vs) \<le> 4 * length vs + length (concat vs)"
  by (induction vs rule: rev_induct) (simp_all add: dict_payload_snoc value_bytes_def, simp add: dict_payload_def)

text \<open>
  The pages written for byte arrays. The dictionary page is the PLAIN encoding of the distinct byte arrays, which the
  PLAIN decoder reads back, and the indices decoded from the index stream select from them the byte arrays given.
\<close>

theorem dictionary_byte_array_pages:
  assumes "unpack_kernels ds" "\<forall>n. alloc_grants al n" "vs \<noteq> []" "length vs < 2 ^ 31" "\<forall>v \<in> set vs. length v < 2 ^ 31"
    "buffer_wf dout" "buf_owns_data dout" "buffer_wf iout" "buf_owns_data iout"
    "length (buffer_contents dout) + 4 * length vs + length (concat vs) < 2 ^ 63"
    "length (buffer_contents iout) < 2 ^ 63"
  shows "\<exists>d i dbs w bs indices.
    carquet_dictionary_encode_byte_array al (map byte_array_of vs) (word_of_nat (length vs)) dout iout = (d, i, CARQUET_OK) \<and>
    buffer_contents d = buffer_contents dout @ dbs \<and> buffer_contents i = buffer_contents iout @ w # bs \<and>
    carquet_decode_plain_byte_array (Some dbs) True (word_of_nat (length (dict_of vs))) =
      Some (word_of_nat (length dbs), dict_of vs) \<and>
    carquet_rle_decode_all ds bs (uint w) (length vs) = indices \<and>
    (\<forall>i \<in> set indices. unat i < length (dict_of vs)) \<and> map (\<lambda>i. dict_of vs ! unat i) indices = vs"
proof -
  let ?D = "dict_of vs"
  have m: "map ba_bytes (map byte_array_of vs) = vs" using assms(5) by (simp add: ba_bytes_of cong: map_cong)
  have "value_bytes True = byte_array_bytes" by (simp add: fun_eq_iff value_bytes_def byte_array_bytes_def)
  then have pl: "dict_payload True vs = concat (map byte_array_bytes ?D)" by (simp add: dict_payload_def)
  have "dict_encoded ds True vs dout iout (dictionary_encode al 0 True vs (word_of_nat (length vs)) dout iout)"
    using length_byte_array_payload [of vs] assms(4,10,11)
    by (intro dictionary_encode_encodes [OF assms(1-4,6-9)]) simp_all
  moreover have "loop_count (word_of_nat (length ?D)) = length ?D"
    using length_dict_of [of vs] assms(4) by (intro loop_count_length) simp
  moreover have "\<not> sint (word_of_nat (length ?D) :: i64) < 0"
    using length_dict_of [of vs] assms(4) sint_of_nat_small [of "length ?D", where 'a = 64] by simp
  moreover have "byte_array_loop (length ?D) (dict_payload True vs) 0 = Some (length (dict_payload True vs), ?D)"
    using byte_array_loop_back [of ?D 0 "dict_payload True vs" "[]"] assms(5) by (simp add: pl)
  ultimately show ?thesis
    unfolding carquet_dictionary_encode_byte_array_def m dict_encoded_def carquet_decode_plain_byte_array_def by auto
qed

theorem dictionary_byte_array_pages_witness:
  "\<exists>d i dbs w bs indices.
    carquet_dictionary_encode_byte_array generous (map byte_array_of [[65], [66, 67], [65]]) (word_of_nat (length [[65], [66, 67], [65 :: u8]]))
      carquet_buffer_init carquet_buffer_init = (d, i, CARQUET_OK) \<and>
    buffer_contents d = buffer_contents carquet_buffer_init @ dbs \<and> buffer_contents i = buffer_contents carquet_buffer_init @ w # bs \<and>
    carquet_decode_plain_byte_array (Some dbs) True (word_of_nat (length (dict_of [[65], [66, 67], [65 :: u8]]))) =
      Some (word_of_nat (length dbs), dict_of [[65], [66, 67], [65]]) \<and>
    carquet_rle_decode_all scalar_dispatch bs (uint w) (length [[65], [66, 67], [65 :: u8]]) = indices \<and>
    map (\<lambda>i. dict_of [[65], [66, 67], [65]] ! unat i) indices = [[65], [66, 67], [65 :: u8]]"
proof -
  have i: "buf_owns_data carquet_buffer_init" "\<forall>n. alloc_grants generous n"
    by (simp_all add: carquet_buffer_init_def generous_def)
  have "\<forall>v \<in> set [[65], [66, 67], [65 :: u8]]. length v < 2 ^ 31" by simp
  from dictionary_byte_array_pages [OF scalar.unpack_kernels_axioms i(2) _ _ this buffer_wf_init i(1) buffer_wf_init i(1)]
  show ?thesis by fastforce
qed

section \<open>Lost failures\<close>

text \<open>
  C22: the encoders discard the status of the append that writes the dictionary page. Whenever values encode
  with status \<^verbatim>\<open>CARQUET_OK\<close>, they do so with the same index stream into a full dictionary output whose growth is
  refused, by the allocator or because it borrows its bytes; then no dictionary is written and the
  indices refer to nothing.
\<close>

theorem dictionary_loses_page:
  assumes "dictionary_encode al value_size var_len vs n dout0 iout = (d0, i, CARQUET_OK)" "stuck_buffer al dout"
  shows "dictionary_encode al value_size var_len vs n dout iout = (dout, i, CARQUET_OK)"
  using assms(1) stuck_append [OF assms(2)]
  by (auto simp: dictionary_encode_def dict_finish_def Let_def split: sum.splits prod.splits)

text \<open>
  The value 7 with room gives a page and one index. The same call with a borrowed full output gives the index only.
\<close>

definition borrowed :: carquet_buffer where
  "borrowed = carquet_buffer_init_wrap (Some (\<lambda>_. 0)) 2"

theorem dictionary_loses_page_witness:
  "\<exists>d i. carquet_dictionary_encode_int32 generous [7] 1 carquet_buffer_init carquet_buffer_init = (d, i, CARQUET_OK) \<and>
     buffer_contents d = [7, 0, 0, 0] \<and> buffer_contents i = [1, 2, 0] \<and>
     carquet_dictionary_encode_int32 generous [7] 1 borrowed carquet_buffer_init = (borrowed, i, CARQUET_OK)"
proof -
  have "(case carquet_dictionary_encode_int32 generous [7] 1 carquet_buffer_init carquet_buffer_init of
      (d, i, st) \<Rightarrow> st = CARQUET_OK \<and> buffer_contents d = [7, 0, 0, 0] \<and> buffer_contents i = [1, 2, 0])" by code_simp
  then obtain d i where e: "carquet_dictionary_encode_int32 generous [7] 1 carquet_buffer_init carquet_buffer_init = (d, i, CARQUET_OK)"
    "buffer_contents d = [7, 0, 0, 0]" "buffer_contents i = [1, 2, 0]" by (auto split: prod.splits)
  have "stuck_buffer generous borrowed"
    by (auto simp: stuck_buffer_def borrowed_def carquet_buffer_init_wrap_def ensure_capacity_def)
  from dictionary_loses_page [OF e(1) [unfolded carquet_dictionary_encode_int32_def] this] e show ?thesis
    by (auto simp: carquet_dictionary_encode_int32_def)
qed

end
