(* ===== verification/Xxhash.thy ===== *)
theory Xxhash
  imports Endian
begin

text \<open>
  \<^verbatim>\<open>util/xxhash.c\<close>: the 64-bit xxHash the Bloom filters key their values with. The
  bytes \<open>p .. end\<close> that remain to be read are a list; every loop of the function
  consumes a prefix of it. All arithmetic is modulo \<open>2 ^ 64\<close>.

  Besides the functional model the theory shows that the hash is injective on
  inputs of four and of eight bytes, the widths the integer and floating-point
  columns are hashed at: each step of the mixing is a bijection of the 64-bit
  words, with the inverses of the odd multipliers given explicitly.
\<close>

section \<open>Definitions\<close>

definition XXH_PRIME64_1 :: u64 where "XXH_PRIME64_1 = 0x9E3779B185EBCA87"
definition XXH_PRIME64_2 :: u64 where "XXH_PRIME64_2 = 0xC2B2AE3D27D4EB4F"
definition XXH_PRIME64_3 :: u64 where "XXH_PRIME64_3 = 0x165667B19E3779F9"
definition XXH_PRIME64_4 :: u64 where "XXH_PRIME64_4 = 0x85EBCA77C2B2AE63"
definition XXH_PRIME64_5 :: u64 where "XXH_PRIME64_5 = 0x27D4EB2F165667C5"

lemmas xxh_primes =
  XXH_PRIME64_1_def XXH_PRIME64_2_def XXH_PRIME64_3_def XXH_PRIME64_4_def XXH_PRIME64_5_def

definition xxh64_rotl :: "u64 \<Rightarrow> nat \<Rightarrow> u64" where
  "xxh64_rotl x r = push_bit r x OR drop_bit (64 - r) x"

definition xxh64_round :: "u64 \<Rightarrow> u64 \<Rightarrow> u64" where
  "xxh64_round acc inp = xxh64_rotl (acc + inp * XXH_PRIME64_2) 31 * XXH_PRIME64_1"

definition xxh64_merge_round :: "u64 \<Rightarrow> u64 \<Rightarrow> u64" where
  "xxh64_merge_round acc val =
     (acc XOR xxh64_round 0 val) * XXH_PRIME64_1 + XXH_PRIME64_4"

definition read64_le :: "bytes \<Rightarrow> u64" where
  "read64_le p =
     ucast (p ! 0) OR push_bit 8 (ucast (p ! 1)) OR
     push_bit 16 (ucast (p ! 2)) OR push_bit 24 (ucast (p ! 3)) OR
     push_bit 32 (ucast (p ! 4)) OR push_bit 40 (ucast (p ! 5)) OR
     push_bit 48 (ucast (p ! 6)) OR push_bit 56 (ucast (p ! 7))"

definition read32_le :: "bytes \<Rightarrow> u32" where
  "read32_le p =
     ucast (p ! 0) OR push_bit 8 (ucast (p ! 1)) OR
     push_bit 16 (ucast (p ! 2)) OR push_bit 24 (ucast (p ! 3))"

text \<open>The four accumulators of the 32-byte stripes.\<close>

type_synonym xxh_lanes = "u64 \<times> u64 \<times> u64 \<times> u64"

definition xxh64_stripe :: "xxh_lanes \<Rightarrow> bytes \<Rightarrow> xxh_lanes" where
  "xxh64_stripe v p =
     (case v of (v1, v2, v3, v4) \<Rightarrow>
        (xxh64_round v1 (read64_le p),
         xxh64_round v2 (read64_le (drop 8 p)),
         xxh64_round v3 (read64_le (drop 16 p)),
         xxh64_round v4 (read64_le (drop 24 p))))"

text \<open>\<^verbatim>\<open>do { ... } while (p <= limit)\<close> with \<^verbatim>\<open>limit = end - 32\<close>.\<close>

function xxh64_stripes :: "xxh_lanes \<Rightarrow> bytes \<Rightarrow> xxh_lanes \<times> bytes" where
  "xxh64_stripes v p =
     (let v' = xxh64_stripe v p; p' = drop 32 p in
      if 32 \<le> length p' then xxh64_stripes v' p' else (v', p'))"
  by pat_completeness auto
termination
  by (relation "measure (\<lambda>(v, p). length p)") auto

declare xxh64_stripes.simps [simp del]

definition xxh64_lanes_start :: "u64 \<Rightarrow> xxh_lanes" where
  "xxh64_lanes_start seed =
     (seed + XXH_PRIME64_1 + XXH_PRIME64_2, seed + XXH_PRIME64_2, seed, seed - XXH_PRIME64_1)"

definition xxh64_converge :: "xxh_lanes \<Rightarrow> u64" where
  "xxh64_converge v =
     (case v of (v1, v2, v3, v4) \<Rightarrow>
        let h = xxh64_rotl v1 1 + xxh64_rotl v2 7 + xxh64_rotl v3 12 + xxh64_rotl v4 18;
            h = xxh64_merge_round h v1;
            h = xxh64_merge_round h v2;
            h = xxh64_merge_round h v3 in
        xxh64_merge_round h v4)"

text \<open>The three tails: 8-byte chunks, at most one 4-byte chunk, single bytes.\<close>

definition xxh64_mix8 :: "u64 \<Rightarrow> u64 \<Rightarrow> u64" where
  "xxh64_mix8 h k =
     xxh64_rotl (h XOR xxh64_round 0 k) 27 * XXH_PRIME64_1 + XXH_PRIME64_4"

function xxh64_tail8 :: "u64 \<Rightarrow> bytes \<Rightarrow> u64 \<times> bytes" where
  "xxh64_tail8 h p =
     (if 8 \<le> length p then xxh64_tail8 (xxh64_mix8 h (read64_le p)) (drop 8 p) else (h, p))"
  by pat_completeness auto
termination
  by (relation "measure (\<lambda>(h, p). length p)") auto

declare xxh64_tail8.simps [simp del]

definition xxh64_mix4 :: "u64 \<Rightarrow> u32 \<Rightarrow> u64" where
  "xxh64_mix4 h k =
     xxh64_rotl (h XOR ucast k * XXH_PRIME64_1) 23 * XXH_PRIME64_2 + XXH_PRIME64_3"

definition xxh64_tail4 :: "u64 \<Rightarrow> bytes \<Rightarrow> u64 \<times> bytes" where
  "xxh64_tail4 h p =
     (if 4 \<le> length p then (xxh64_mix4 h (read32_le p), drop 4 p) else (h, p))"

fun xxh64_tail1 :: "u64 \<Rightarrow> bytes \<Rightarrow> u64" where
  "xxh64_tail1 h [] = h"
| "xxh64_tail1 h (b # p) =
     xxh64_tail1 (xxh64_rotl (h XOR ucast b * XXH_PRIME64_5) 11 * XXH_PRIME64_1) p"

definition xxh64_avalanche :: "u64 \<Rightarrow> u64" where
  "xxh64_avalanche h =
     (let h = h XOR drop_bit 33 h;
          h = h * XXH_PRIME64_2;
          h = h XOR drop_bit 29 h;
          h = h * XXH_PRIME64_3 in
      h XOR drop_bit 32 h)"

definition carquet_xxhash64 :: "bytes \<Rightarrow> u64 \<Rightarrow> u64" where
  "carquet_xxhash64 data seed =
     (let (h, p) =
        (if 32 \<le> length data
         then case xxh64_stripes (xxh64_lanes_start seed) data of (v, p) \<Rightarrow> (xxh64_converge v, p)
         else (seed + XXH_PRIME64_5, data));
        (h, p) = xxh64_tail8 (h + word_of_nat (length data)) p;
        (h, p) = xxh64_tail4 h p in
      xxh64_avalanche (xxh64_tail1 h p))"

section \<open>The loops in closed form\<close>

text \<open>The reference description cuts the input into consecutive chunks.\<close>

function chunks :: "nat \<Rightarrow> bytes \<Rightarrow> bytes list" where
  "chunks k p = (if 0 < k \<and> k \<le> length p then take k p # chunks k (drop k p) else [])"
  by pat_completeness auto
termination
  by (relation "measure (\<lambda>(k, p). length p)") auto

declare chunks.simps [simp del]

lemma chunk_lengths: "c \<in> set (chunks k p) \<Longrightarrow> length c = k"
proof (induction k p rule: chunks.induct)
  case (1 k p)
  then show ?case
    by (subst (asm) chunks.simps) (auto split: if_splits)
qed

lemma length_chunks: "0 < k \<Longrightarrow> length (chunks k p) = length p div k"
proof (induction k p rule: chunks.induct)
  case (1 k p)
  then show ?case
    by (subst chunks.simps) (auto simp: le_div_geq)
qed

lemma concat_chunks: "0 < k \<Longrightarrow> concat (chunks k p) = take (k * (length p div k)) p"
proof (induction k p rule: chunks.induct)
  case (1 k p)
  then show ?case
    by (subst chunks.simps) (auto simp: le_div_geq take_add)
qed

lemma nth_take_prefix: "i < n \<Longrightarrow> take n xs ! i = xs ! i"
  by (rule nth_take)

lemma read64_le_take: "8 \<le> n \<Longrightarrow> read64_le (take n p) = read64_le p"
  by (simp add: read64_le_def)

lemma read32_le_take: "4 \<le> n \<Longrightarrow> read32_le (take n p) = read32_le p"
  by (simp add: read32_le_def)

lemma xxh64_stripe_take: "xxh64_stripe v (take 32 p) = xxh64_stripe v p"
  by (simp add: xxh64_stripe_def read64_le_take drop_take split: prod.splits)

lemma xxh64_stripes_foldl:
  assumes "32 \<le> length p"
  shows "xxh64_stripes v p =
    (foldl xxh64_stripe v (chunks 32 p), drop (32 * (length p div 32)) p)"
  using assms
proof (induction v p rule: xxh64_stripes.induct)
  case (1 v p)
  have step: "chunks 32 p = take 32 p # chunks 32 (drop 32 p)"
    using 1(2) by (subst chunks.simps) simp
  have div_eq: "length p div 32 = Suc (length (drop 32 p) div 32)"
    using 1(2) by (simp add: le_div_geq)
  show ?case
  proof (cases "32 \<le> length (drop 32 p)")
    case True
    show ?thesis
      using 1(1) [OF refl refl True True] True
      by (subst xxh64_stripes.simps)
        (simp add: Let_def step xxh64_stripe_take div_eq add.commute)
  next
    case False
    have "chunks 32 (drop 32 p) = []" "length (drop 32 p) div 32 = 0"
      using False by (subst chunks.simps, simp, simp)
    then show ?thesis
      using False by (subst xxh64_stripes.simps)
        (simp add: Let_def step xxh64_stripe_take div_eq)
  qed
qed

lemma xxh64_tail8_foldl:
  "xxh64_tail8 h p =
    (foldl (\<lambda>h c. xxh64_mix8 h (read64_le c)) h (chunks 8 p), drop (8 * (length p div 8)) p)"
proof (induction h p rule: xxh64_tail8.induct)
  case (1 h p)
  then show ?case
    by (subst xxh64_tail8.simps, subst chunks.simps)
      (auto simp: read64_le_take le_div_geq add.commute)
qed

lemma xxh64_tail1_foldl:
  "xxh64_tail1 h p =
    foldl (\<lambda>h b. xxh64_rotl (h XOR ucast b * XXH_PRIME64_5) 11 * XXH_PRIME64_1) h p"
  by (induction h p rule: xxh64_tail1.induct) simp_all

text \<open>
  The hash of any input is the reference description of xxHash64 over its
  chunks: the 32-byte stripes folded into the four lanes (when there is one),
  then the whole 8-byte words that remain, then one 4-byte word if four bytes
  are left, then the last bytes, then the final mix. In particular every loop
  ends and no byte beyond the input is read.
\<close>

theorem xxhash64_reference:
  "carquet_xxhash64 data seed =
    (let stripes = chunks 32 data;
         rest = drop (32 * length stripes) data;
         wide = chunks 8 rest;
         rest8 = drop (8 * length wide) rest;
         half = chunks 4 rest8;
         rest4 = drop (4 * length half) rest8;
         h0 = (if stripes = [] then seed + XXH_PRIME64_5
               else xxh64_converge (foldl xxh64_stripe (xxh64_lanes_start seed) stripes));
         h1 = foldl (\<lambda>h c. xxh64_mix8 h (read64_le c)) (h0 + word_of_nat (length data)) wide;
         h2 = foldl (\<lambda>h c. xxh64_mix4 h (read32_le c)) h1 half;
         h3 = foldl (\<lambda>h b. xxh64_rotl (h XOR ucast b * XXH_PRIME64_5) 11 * XXH_PRIME64_1) h2 rest4
     in xxh64_avalanche h3)"
proof -
  have tail4: "xxh64_tail4 h p =
      (foldl (\<lambda>h c. xxh64_mix4 h (read32_le c)) h (chunks 4 p), drop (4 * length (chunks 4 p)) p)"
    if "length p < 8" for h p
  proof -
    have "chunks 4 (drop 4 p) = []"
      using that by (subst chunks.simps) auto
    then show ?thesis
      by (simp add: xxh64_tail4_def read32_le_take chunks.simps [of 4 p])
  qed
  have rest8: "length (drop (8 * (length q div 8)) q) < 8" for q :: bytes
    by (simp add: modulo_nat_def mult.commute flip: minus_mult_div_eq_mod)
  show ?thesis
  proof (cases "32 \<le> length data")
    case True
    then have "chunks 32 data \<noteq> []"
      by (subst chunks.simps) simp
    then show ?thesis
      using True
      by (simp add: carquet_xxhash64_def xxh64_stripes_foldl xxh64_tail8_foldl tail4 rest8
          xxh64_tail1_foldl length_chunks Let_def del: length_drop drop_drop)
  next
    case False
    then have "chunks 32 data = []"
      by (subst chunks.simps) simp
    then show ?thesis
      using False
      by (simp add: carquet_xxhash64_def xxh64_tail8_foldl tail4 rest8
          xxh64_tail1_foldl length_chunks Let_def del: length_drop drop_drop)
  qed
qed

section \<open>The mixing steps are bijections\<close>

lemma xxh_prime_inverses:
  "XXH_PRIME64_1 * 0x887493432badb37 = 1"
  "XXH_PRIME64_2 * 0xba79078168d4baf = 1"
  "XXH_PRIME64_3 * 0xe9e9f4c41d6df849 = 1"
  by (simp_all add: xxh_primes)

lemma mult_inverse_cancel:
  fixes p q x y :: u64
  assumes "p * q = 1" and "x * p = y * p"
  shows "x = y"
proof -
  have "x * p * q = y * p * q"
    using assms(2) by simp
  then show ?thesis
    using assms(1) by (simp add: mult.assoc)
qed

lemmas xxh_prime_cancel =
  xxh_prime_inverses [THEN mult_inverse_cancel]

lemma xxh64_rotl_bit:
  assumes "0 < r" "r < 64"
  shows "bit (xxh64_rotl x r) n \<longleftrightarrow> n < 64 \<and> bit x ((n + 64 - r) mod 64)"
proof (cases "r \<le> n")
  case True
  show ?thesis
  proof (cases "n < 64")
    case True': True
    have "n + 64 - r = (n - r) + 64"
      using True by simp
    then have "(n + 64 - r) mod 64 = (n - r) mod 64"
      by (simp only: mod_add_self2)
    also have "\<dots> = n - r"
      by (rule mod_less) (use True' in simp)
    finally have "(n + 64 - r) mod 64 = n - r" .
    moreover have "\<not> bit x (64 - r + n)"
      using True assms(2) bit_imp_le_length [of x "64 - r + n"] by force
    ultimately show ?thesis
      using True True' by (auto simp: xxh64_rotl_def bit_simps)
  next
    case False
    then show ?thesis
      using bit_imp_le_length [of "xxh64_rotl x r" n] by auto
  qed
next
  case False
  then have "(n + 64 - r) mod 64 = 64 - r + n"
    using assms by simp
  then show ?thesis
    using False assms by (simp add: xxh64_rotl_def bit_simps)
qed

lemma xxh64_rotl_inject:
  assumes "0 < r" "r < 64" and eq: "xxh64_rotl x r = xxh64_rotl y r"
  shows "x = y"
proof (rule bit_word_eqI)
  fix n assume n: "n < LENGTH(64)"
  have m: "((n + r) mod 64 + 64 - r) mod 64 = n"
  proof (cases "n + r < 64")
    case False
    then have "(n + r) mod 64 = n + r - 64"
      using n assms by (simp add: le_mod_geq)
    then show ?thesis
      using n False by simp
  qed (use n in simp)
  show "bit x n \<longleftrightarrow> bit y n"
    using arg_cong [OF eq, of "\<lambda>w. bit w ((n + r) mod 64)"]
    by (simp only: xxh64_rotl_bit [OF assms(1, 2)] m) simp
qed

lemma xor_shift_inverse:
  fixes x :: u64
  shows "let y = x XOR drop_bit 33 x in y XOR drop_bit 33 y = x"
    and "let y = x XOR drop_bit 32 x in y XOR drop_bit 32 y = x"
    and "let y = x XOR drop_bit 29 x in y XOR drop_bit 29 y XOR drop_bit 58 y = x"
  unfolding Let_def
  by (rule bit_word_eqI; auto simp: bit_simps dest: bit_imp_le_length)+

lemma xor_shift_inject:
  fixes x y :: u64
  shows "x XOR drop_bit 33 x = y XOR drop_bit 33 y \<Longrightarrow> x = y"
    and "x XOR drop_bit 32 x = y XOR drop_bit 32 y \<Longrightarrow> x = y"
    and "x XOR drop_bit 29 x = y XOR drop_bit 29 y \<Longrightarrow> x = y"
  using xor_shift_inverse [of x] xor_shift_inverse [of y] by (auto simp: Let_def)

lemma xor_left_cancel:
  fixes a x y :: "'a::len word"
  assumes "a XOR x = a XOR y"
  shows "x = y"
proof -
  have "a XOR (a XOR x) = a XOR (a XOR y)"
    using assms by simp
  then show ?thesis
    by (simp flip: xor.assoc)
qed

lemma xxh64_avalanche_inject:
  assumes "xxh64_avalanche x = xxh64_avalanche y"
  shows "x = y"
  using assms unfolding xxh64_avalanche_def Let_def
  by (blast dest: xor_shift_inject xxh_prime_cancel)

lemma xxh64_round_inject:
  assumes "xxh64_round a x = xxh64_round a y"
  shows "x = y"
proof -
  have "xxh64_rotl (a + x * XXH_PRIME64_2) 31 = xxh64_rotl (a + y * XXH_PRIME64_2) 31"
    using assms unfolding xxh64_round_def by (rule xxh_prime_cancel)
  then have "a + x * XXH_PRIME64_2 = a + y * XXH_PRIME64_2"
    by (rule xxh64_rotl_inject [rotated 2]) simp_all
  then have "x * XXH_PRIME64_2 = y * XXH_PRIME64_2"
    by simp
  then show ?thesis
    by (rule xxh_prime_cancel)
qed

lemma xxh64_mix8_inject:
  assumes "xxh64_mix8 h x = xxh64_mix8 h y"
  shows "x = y"
proof -
  have "xxh64_rotl (h XOR xxh64_round 0 x) 27 = xxh64_rotl (h XOR xxh64_round 0 y) 27"
    by (rule xxh_prime_cancel) (use assms in \<open>simp add: xxh64_mix8_def\<close>)
  then have "h XOR xxh64_round 0 x = h XOR xxh64_round 0 y"
    by (rule xxh64_rotl_inject [rotated 2]) simp_all
  then show ?thesis
    by (blast dest: xor_left_cancel xxh64_round_inject)
qed

lemma xxh64_mix4_inject:
  assumes "xxh64_mix4 h x = xxh64_mix4 h y"
  shows "x = y"
proof -
  have "xxh64_rotl (h XOR ucast x * XXH_PRIME64_1) 23 =
      xxh64_rotl (h XOR ucast y * XXH_PRIME64_1) 23"
    by (rule xxh_prime_cancel) (use assms in \<open>simp add: xxh64_mix4_def\<close>)
  then have "h XOR ucast x * XXH_PRIME64_1 = h XOR ucast y * XXH_PRIME64_1"
    by (rule xxh64_rotl_inject [rotated 2]) simp_all
  then have "(ucast x :: u64) = ucast y"
    by (blast dest: xor_left_cancel xxh_prime_cancel)
  then have "unat (ucast x :: u64) = unat (ucast y :: u64)"
    by simp
  then show ?thesis
    by (simp add: unat_ucast_up word_eq_iff_unsigned [where ?'a = nat])
qed

lemma read_le_endian:
  "read32_le p = carquet_read_u32_le p" "read64_le p = carquet_read_u64_le p"
  by (simp_all add: read32_le_def carquet_read_u32_le_def read64_le_def carquet_read_u64_le_def)

lemma xxhash64_4:
  assumes "length p = 4"
  shows "carquet_xxhash64 p seed =
    xxh64_avalanche (xxh64_mix4 (seed + XXH_PRIME64_5 + 4) (read32_le p))"
  using assms by (simp add: carquet_xxhash64_def xxh64_tail8.simps [of _ p] xxh64_tail4_def)

lemma xxhash64_8:
  assumes "length p = 8"
  shows "carquet_xxhash64 p seed =
    xxh64_avalanche (xxh64_mix8 (seed + XXH_PRIME64_5 + 8) (read64_le p))"
proof -
  have "xxh64_tail8 h p = (xxh64_mix8 h (read64_le p), [])" for h
    using assms by (simp add: xxh64_tail8.simps [of _ p] xxh64_tail8.simps [of _ "[]"])
  then show ?thesis
    using assms by (simp add: carquet_xxhash64_def xxh64_tail4_def)
qed

text \<open>
  C31: Two inputs of the same width, four or eight bytes, have the same 64-bit
  hash only when they are equal: the hash of the 32- and 64-bit column types
  never collides, so a wrong positive answer of a Bloom filter on such a column
  comes from the filter's bits and not from the hash.
\<close>

theorem xxhash64_injective:
  assumes "length a = length b" "length a = 4 \<or> length a = 8"
    and eq: "carquet_xxhash64 a seed = carquet_xxhash64 b seed"
  shows "a = b"
  using assms(2)
proof
  assume "length a = 4"
  then have len: "length a = 4" "length b = 4"
    using assms(1) by simp_all
  then have "carquet_read_u32_le a = carquet_read_u32_le b"
    using eq [unfolded xxhash64_4 [OF len(1)] xxhash64_4 [OF len(2)] read_le_endian]
    by (blast dest: xxh64_avalanche_inject xxh64_mix4_inject)
  then have "carquet_write_u32_le (carquet_read_u32_le a) = carquet_write_u32_le (carquet_read_u32_le b)"
    by simp
  then show ?thesis
    using len by (simp add: write_read_le)
next
  assume "length a = 8"
  then have len: "length a = 8" "length b = 8"
    using assms(1) by simp_all
  then have "carquet_read_u64_le a = carquet_read_u64_le b"
    using eq [unfolded xxhash64_8 [OF len(1)] xxhash64_8 [OF len(2)] read_le_endian]
    by (blast dest: xxh64_avalanche_inject xxh64_mix8_inject)
  then have "carquet_write_u64_le (carquet_read_u64_le a) = carquet_write_u64_le (carquet_read_u64_le b)"
    by simp
  then show ?thesis
    using len by (simp add: write_read_le)
qed

theorem xxhash64_injective_witness:
  "carquet_xxhash64 [1, 0, 0, 0] 0 \<noteq> carquet_xxhash64 [2, 0, 0, 0] 0"
  using xxhash64_injective [of "[1, 0, 0, 0]" "[2, 0, 0, 0]" 0] by auto

end
