(* ===== verification/Bloom_Filter.thy ===== *)
theory Bloom_Filter
  imports Xxhash Plain
begin

text \<open>
  \<^verbatim>\<open>metadata/bloom_filter.c\<close>: the split-block Bloom filter of a column chunk, and the
  part of \<^verbatim>\<open>writer/column_writer.c\<close> that configures it and feeds it the values of a
  chunk. The bit array is the memory the C structure points to, accessed as 32-bit
  words on a little-endian host; an access outside it is \<open>Invalid_Access\<close>.

  The abstraction of a filter is the set of bits that are on. Each operation is
  described on that set: creation gives the empty set, an insertion adds the eight
  marks of the hash, a query tests whether they are all there, a merge is the
  union. From this follow the exact answer of every filter to every query in
  terms of the hashes it has received, and the absence of false negatives.
\<close>

section \<open>Definitions\<close>

definition load_u32 :: "bytes \<Rightarrow> nat \<Rightarrow> u32 access" where
  "load_u32 mem off =
     (if off + 4 \<le> length mem then Done (le_load (take 4 (drop off mem))) else Invalid_Access)"

definition store_u32 :: "bytes \<Rightarrow> nat \<Rightarrow> u32 \<Rightarrow> bytes access" where
  "store_u32 mem off v =
     (if off + 4 \<le> length mem then Done (take off mem @ le_store 4 v @ drop (off + 4) mem)
      else Invalid_Access)"

subsection \<open>The filter\<close>

abbreviation (input) BLOOM_FILTER_BLOCK_SIZE :: u64 where "BLOOM_FILTER_BLOCK_SIZE \<equiv> 32"
abbreviation (input) sizeof_bloom_filter :: u64 where "sizeof_bloom_filter \<equiv> 32"

definition SALT :: "u32 list" where
  "SALT = [0x47b6137b, 0x44974d91, 0x8824ad5b, 0xa2b7289d,
           0x705495c7, 0x2df1424b, 0x9efc4947, 0x5c6bfb31]"

record carquet_bloom_filter =
  bf_data :: "bytes option"
  bf_num_bytes :: u64
  bf_num_blocks :: u64
  bf_owns_data :: bool

definition bloom_filter_block_index :: "u64 \<Rightarrow> u64 \<Rightarrow> u64" where
  "bloom_filter_block_index hash num_blocks = drop_bit 32 (drop_bit 32 hash * num_blocks)"

text \<open>The bit position of word \<open>i\<close>, computed by the bodies of both loops.\<close>

definition bloom_bit_pos :: "u64 \<Rightarrow> nat \<Rightarrow> nat" where
  "bloom_bit_pos hash i = unat (drop_bit 27 (SALT ! i * ucast hash))"

text \<open>The block is the eight words from the byte offset \<open>base\<close> on.\<close>

primrec block_insert_words :: "nat list \<Rightarrow> nat \<Rightarrow> u64 \<Rightarrow> bytes \<Rightarrow> bytes access" where
  "block_insert_words [] base hash mem = Done mem"
| "block_insert_words (i # is) base hash mem =
     and_then (load_u32 mem (base + 4 * i)) (\<lambda>w.
     and_then (store_u32 mem (base + 4 * i) (w OR push_bit (bloom_bit_pos hash i) 1))
       (block_insert_words is base hash))"

definition bloom_filter_block_insert :: "bytes \<Rightarrow> nat \<Rightarrow> u64 \<Rightarrow> bytes access" where
  "bloom_filter_block_insert mem base hash = block_insert_words [0..<8] base hash mem"

primrec block_check_words :: "nat list \<Rightarrow> nat \<Rightarrow> u64 \<Rightarrow> bytes \<Rightarrow> bool access" where
  "block_check_words [] base hash mem = Done True"
| "block_check_words (i # is) base hash mem =
     and_then (load_u32 mem (base + 4 * i)) (\<lambda>w.
       if w AND push_bit (bloom_bit_pos hash i) 1 = 0 then Done False
       else block_check_words is base hash mem)"

definition bloom_filter_block_check :: "bytes \<Rightarrow> nat \<Rightarrow> u64 \<Rightarrow> bool access" where
  "bloom_filter_block_check mem base hash = block_check_words [0..<8] base hash mem"

subsection \<open>Creation\<close>

text \<open>A NULL result is \<open>None\<close>; the allocator decides which requests it grants.\<close>

definition carquet_bloom_filter_create :: "allocator \<Rightarrow> u64 \<Rightarrow> carquet_bloom_filter option" where
  "carquet_bloom_filter_create al num_bytes =
     (let num_bytes = (if num_bytes < BLOOM_FILTER_BLOCK_SIZE then BLOOM_FILTER_BLOCK_SIZE else num_bytes);
          num_bytes = (num_bytes + BLOOM_FILTER_BLOCK_SIZE - 1) div BLOOM_FILTER_BLOCK_SIZE * BLOOM_FILTER_BLOCK_SIZE in
      if \<not> alloc_grants al sizeof_bloom_filter then None
      else if \<not> alloc_grants al num_bytes then None
      else Some \<lparr>bf_data = Some (replicate (unat num_bytes) 0), bf_num_bytes = num_bytes,
                 bf_num_blocks = num_bytes div BLOOM_FILTER_BLOCK_SIZE, bf_owns_data = True\<rparr>)"

text \<open>
  The size of a filter for \<open>ndv\<close> distinct values and a false-positive rate is
  computed in \<^verbatim>\<open>double\<close> arithmetic. The type of doubles and the operations the code
  uses on it, the library's \<^verbatim>\<open>log\<close> and the conversions among them, are parameters.
\<close>

record 'd double_ops =
  d_lit :: "string \<Rightarrow> 'd"
  d_le :: "'d \<Rightarrow> 'd \<Rightarrow> bool"
  d_lt :: "'d \<Rightarrow> 'd \<Rightarrow> bool"
  d_neg :: "'d \<Rightarrow> 'd"
  d_mul :: "'d \<Rightarrow> 'd \<Rightarrow> 'd"
  d_div :: "'d \<Rightarrow> 'd \<Rightarrow> 'd"
  d_log :: "'d \<Rightarrow> 'd"
  d_of_i64 :: "i64 \<Rightarrow> 'd"
  d_to_size :: "'d \<Rightarrow> u64"

definition carquet_bloom_filter_create_with_ndv ::
    "'d double_ops \<Rightarrow> allocator \<Rightarrow> i64 \<Rightarrow> 'd \<Rightarrow> carquet_bloom_filter option" where
  "carquet_bloom_filter_create_with_ndv ops al ndv fpp =
     (if sint ndv \<le> 0 \<or> d_le ops fpp (d_lit ops ''0.0'') \<or> d_le ops (d_lit ops ''1.0'') fpp then None
      else
        let ln2_squared = d_lit ops ''0.4804530139182014246671025263266649717305529515945455'';
            nbits = d_div ops (d_mul ops (d_neg ops (d_of_i64 ops ndv)) (d_log ops fpp)) ln2_squared;
            num_bytes = d_to_size ops (d_div ops nbits (d_lit ops ''8.0'')) + 1 in
        carquet_bloom_filter_create al num_bytes)"

definition carquet_bloom_filter_from_data ::
    "allocator \<Rightarrow> bytes option \<Rightarrow> u64 \<Rightarrow> carquet_bloom_filter option" where
  "carquet_bloom_filter_from_data al data n =
     (case data of
        None \<Rightarrow> None
      | Some d \<Rightarrow>
          if n < BLOOM_FILTER_BLOCK_SIZE then None
          else if n mod BLOOM_FILTER_BLOCK_SIZE \<noteq> 0 then None
          else if \<not> alloc_grants al sizeof_bloom_filter then None
          else if \<not> alloc_grants al n then None
          else Some \<lparr>bf_data = Some (take (unat n) d), bf_num_bytes = n,
                     bf_num_blocks = n div BLOOM_FILTER_BLOCK_SIZE, bf_owns_data = True\<rparr>)"

text \<open>The blocks that destroying a filter frees: the bit array if it is owned, and the structure.\<close>

definition carquet_bloom_filter_destroy :: "carquet_bloom_filter option \<Rightarrow> nat" where
  "carquet_bloom_filter_destroy flt =
     (case flt of
        None \<Rightarrow> 0
      | Some f \<Rightarrow> (if bf_owns_data f \<and> bf_data f \<noteq> None then 2 else 1))"

subsection \<open>Insertion\<close>

definition carquet_bloom_filter_insert_hash ::
    "carquet_bloom_filter option \<Rightarrow> u64 \<Rightarrow> carquet_bloom_filter option access" where
  "carquet_bloom_filter_insert_hash flt hash =
     (case flt of
        None \<Rightarrow> Done None
      | Some f \<Rightarrow>
          (case bf_data f of
             None \<Rightarrow> Done flt
           | Some mem \<Rightarrow>
               let block_idx = bloom_filter_block_index hash (bf_num_blocks f) in
               and_then (bloom_filter_block_insert mem (unat (block_idx * BLOOM_FILTER_BLOCK_SIZE)) hash)
                 (\<lambda>mem'. Done (Some (f\<lparr>bf_data := Some mem'\<rparr>)))))"

definition carquet_bloom_filter_insert_i32 ::
    "carquet_bloom_filter option \<Rightarrow> i32 \<Rightarrow> carquet_bloom_filter option access" where
  "carquet_bloom_filter_insert_i32 flt v =
     carquet_bloom_filter_insert_hash flt (carquet_xxhash64 (le_store 4 v) 0)"

definition carquet_bloom_filter_insert_i64 ::
    "carquet_bloom_filter option \<Rightarrow> i64 \<Rightarrow> carquet_bloom_filter option access" where
  "carquet_bloom_filter_insert_i64 flt v =
     carquet_bloom_filter_insert_hash flt (carquet_xxhash64 (le_store 8 v) 0)"

definition carquet_bloom_filter_insert_float ::
    "carquet_bloom_filter option \<Rightarrow> u32 \<Rightarrow> carquet_bloom_filter option access" where
  "carquet_bloom_filter_insert_float flt v =
     carquet_bloom_filter_insert_hash flt (carquet_xxhash64 (le_store 4 v) 0)"

definition carquet_bloom_filter_insert_double ::
    "carquet_bloom_filter option \<Rightarrow> u64 \<Rightarrow> carquet_bloom_filter option access" where
  "carquet_bloom_filter_insert_double flt v =
     carquet_bloom_filter_insert_hash flt (carquet_xxhash64 (le_store 8 v) 0)"

definition carquet_bloom_filter_insert_bytes ::
    "carquet_bloom_filter option \<Rightarrow> bytes \<Rightarrow> carquet_bloom_filter option access" where
  "carquet_bloom_filter_insert_bytes flt data =
     carquet_bloom_filter_insert_hash flt (carquet_xxhash64 data 0)"

subsection \<open>Queries\<close>

definition carquet_bloom_filter_check_hash ::
    "carquet_bloom_filter option \<Rightarrow> u64 \<Rightarrow> bool access" where
  "carquet_bloom_filter_check_hash flt hash =
     (case flt of
        None \<Rightarrow> Done True
      | Some f \<Rightarrow>
          (case bf_data f of
             None \<Rightarrow> Done True
           | Some mem \<Rightarrow>
               let block_idx = bloom_filter_block_index hash (bf_num_blocks f) in
               bloom_filter_block_check mem (unat (block_idx * BLOOM_FILTER_BLOCK_SIZE)) hash))"

definition carquet_bloom_filter_check_i32 :: "carquet_bloom_filter option \<Rightarrow> i32 \<Rightarrow> bool access" where
  "carquet_bloom_filter_check_i32 flt v =
     carquet_bloom_filter_check_hash flt (carquet_xxhash64 (le_store 4 v) 0)"

definition carquet_bloom_filter_check_i64 :: "carquet_bloom_filter option \<Rightarrow> i64 \<Rightarrow> bool access" where
  "carquet_bloom_filter_check_i64 flt v =
     carquet_bloom_filter_check_hash flt (carquet_xxhash64 (le_store 8 v) 0)"

definition carquet_bloom_filter_check_float :: "carquet_bloom_filter option \<Rightarrow> u32 \<Rightarrow> bool access" where
  "carquet_bloom_filter_check_float flt v =
     carquet_bloom_filter_check_hash flt (carquet_xxhash64 (le_store 4 v) 0)"

definition carquet_bloom_filter_check_double :: "carquet_bloom_filter option \<Rightarrow> u64 \<Rightarrow> bool access" where
  "carquet_bloom_filter_check_double flt v =
     carquet_bloom_filter_check_hash flt (carquet_xxhash64 (le_store 8 v) 0)"

definition carquet_bloom_filter_check_bytes :: "carquet_bloom_filter option \<Rightarrow> bytes \<Rightarrow> bool access" where
  "carquet_bloom_filter_check_bytes flt data =
     carquet_bloom_filter_check_hash flt (carquet_xxhash64 data 0)"

subsection \<open>Accessors, serialisation and merging\<close>

definition carquet_bloom_filter_data :: "carquet_bloom_filter option \<Rightarrow> bytes option" where
  "carquet_bloom_filter_data flt = (case flt of None \<Rightarrow> None | Some f \<Rightarrow> bf_data f)"

definition carquet_bloom_filter_size :: "carquet_bloom_filter \<Rightarrow> u64" where
  "carquet_bloom_filter_size f = bf_num_bytes f"

definition carquet_bloom_filter_num_blocks :: "carquet_bloom_filter option \<Rightarrow> u64" where
  "carquet_bloom_filter_num_blocks flt = (case flt of None \<Rightarrow> 0 | Some f \<Rightarrow> bf_num_blocks f)"

text \<open>
  The destination is the caller's memory (\<open>None\<close> for NULL) and \<open>out_len\<close> says whether
  \<^verbatim>\<open>bytes_written\<close> was given; a \<^verbatim>\<open>memcpy\<close> that leaves either array is out of bounds.
\<close>

definition carquet_bloom_filter_write ::
    "carquet_bloom_filter option \<Rightarrow> bytes option \<Rightarrow> u64 \<Rightarrow> bool \<Rightarrow> (bytes \<times> u64) outcome access" where
  "carquet_bloom_filter_write flt out output_capacity out_len =
     (case (flt, out) of
        (Some f, Some dst) \<Rightarrow>
          if \<not> out_len then Done (Inl CARQUET_ERROR_INVALID_ARGUMENT)
          else if output_capacity < bf_num_bytes f then Done (Inl CARQUET_ERROR_ENCODE)
          else (case bf_data f of
             None \<Rightarrow> Invalid_Access
           | Some mem \<Rightarrow>
               let n = unat (bf_num_bytes f) in
               if length mem < n \<or> length dst < n then Invalid_Access
               else Done (Inr (take n mem @ drop n dst, bf_num_bytes f)))
      | _ \<Rightarrow> Done (Inl CARQUET_ERROR_INVALID_ARGUMENT))"

definition carquet_bloom_filter_read ::
    "allocator \<Rightarrow> bytes option \<Rightarrow> u64 \<Rightarrow> carquet_bloom_filter outcome" where
  "carquet_bloom_filter_read al data data_size =
     (if data = None then Inl CARQUET_ERROR_INVALID_ARGUMENT
      else case carquet_bloom_filter_from_data al data data_size of
        None \<Rightarrow> Inl CARQUET_ERROR_OUT_OF_MEMORY
      | Some f \<Rightarrow> Inr f)"

primrec merge_bytes :: "nat list \<Rightarrow> bytes \<Rightarrow> bytes \<Rightarrow> bytes access" where
  "merge_bytes [] dest src = Done dest"
| "merge_bytes (i # is) dest src =
     (if i < length dest \<and> i < length src
      then merge_bytes is (dest[i := dest ! i OR src ! i]) src
      else Invalid_Access)"

definition carquet_bloom_filter_merge ::
    "carquet_bloom_filter option \<Rightarrow> carquet_bloom_filter option \<Rightarrow> carquet_bloom_filter outcome access" where
  "carquet_bloom_filter_merge dest src =
     (case (dest, src) of
        (Some d, Some s) \<Rightarrow>
          if bf_num_bytes d \<noteq> bf_num_bytes s then Done (Inl CARQUET_ERROR_INVALID_ARGUMENT)
          else (case (bf_data d, bf_data s) of
             (Some md, Some ms) \<Rightarrow>
               and_then (merge_bytes [0..<unat (bf_num_bytes d)] md ms)
                 (\<lambda>m. Done (Inr (d\<lparr>bf_data := Some m\<rparr>)))
           | _ \<Rightarrow> if bf_num_bytes d = 0 then Done (Inr d) else Invalid_Access)
      | _ \<Rightarrow> Done (Inl CARQUET_ERROR_INVALID_ARGUMENT))"

subsection \<open>The filter of a column writer\<close>

text \<open>
  The fields of \<^verbatim>\<open>carquet_column_writer_internal\<close> that the Bloom filter code reads and
  writes. Resetting the writer for the next row group recreates the filter.
\<close>

record 'd column_writer =
  cw_type :: carquet_physical_type
  cw_type_length :: i32
  cw_max_def_level :: i16
  cw_bloom_filter :: "carquet_bloom_filter option"
  cw_bloom_ndv :: i64
  cw_bloom_fpp :: 'd

definition usable_fpp :: "'d double_ops \<Rightarrow> 'd \<Rightarrow> 'd" where
  "usable_fpp ops fpp =
     (if d_lt ops (d_lit ops ''0.0'') fpp \<and> d_lt ops fpp (d_lit ops ''1.0'') then fpp else d_lit ops ''0.01'')"

definition column_writer_reset_bloom ::
    "'d double_ops \<Rightarrow> allocator \<Rightarrow> 'd column_writer \<Rightarrow> 'd column_writer" where
  "column_writer_reset_bloom ops al w =
     (let w1 = w\<lparr>cw_bloom_filter := None\<rparr> in
      if 0 < sint (cw_bloom_ndv w1)
      then w1\<lparr>cw_bloom_filter :=
             carquet_bloom_filter_create_with_ndv ops al (cw_bloom_ndv w1) (usable_fpp ops (cw_bloom_fpp w1))\<rparr>
      else w1)"

definition carquet_column_writer_enable_bloom_filter_fpp ::
    "'d double_ops \<Rightarrow> allocator \<Rightarrow> 'd column_writer \<Rightarrow> i64 \<Rightarrow> 'd \<Rightarrow> 'd column_writer" where
  "carquet_column_writer_enable_bloom_filter_fpp ops al w ndv fpp =
     (if cw_bloom_filter w \<noteq> None then w
      else
        let w1 = w\<lparr>cw_bloom_ndv := (if 0 < sint ndv then ndv else 100000),
                   cw_bloom_fpp := usable_fpp ops fpp\<rparr> in
        w1\<lparr>cw_bloom_filter :=
          carquet_bloom_filter_create_with_ndv ops al (cw_bloom_ndv w1) (cw_bloom_fpp w1)\<rparr>)"

definition carquet_column_writer_enable_bloom_filter ::
    "'d double_ops \<Rightarrow> allocator \<Rightarrow> 'd column_writer \<Rightarrow> i64 \<Rightarrow> 'd column_writer" where
  "carquet_column_writer_enable_bloom_filter ops al w ndv =
     carquet_column_writer_enable_bloom_filter_fpp ops al w ndv (d_lit ops ''0.01'')"

definition carquet_column_writer_configure_bloom_filter ::
    "'d double_ops \<Rightarrow> allocator \<Rightarrow> 'd column_writer \<Rightarrow> bool \<Rightarrow> i64 \<Rightarrow> 'd \<Rightarrow> 'd column_writer" where
  "carquet_column_writer_configure_bloom_filter ops al w enabled ndv fpp =
     (let w1 = w\<lparr>cw_bloom_filter := None\<rparr> in
      if \<not> enabled then w1\<lparr>cw_bloom_ndv := 0\<rparr>
      else
        let w2 = w1\<lparr>cw_bloom_ndv := (if 0 < sint ndv then ndv else 100000),
                    cw_bloom_fpp := usable_fpp ops fpp\<rparr> in
        w2\<lparr>cw_bloom_filter :=
          carquet_bloom_filter_create_with_ndv ops al (cw_bloom_ndv w2) (cw_bloom_fpp w2)\<rparr>)"

text \<open>
  The loops over \<^verbatim>\<open>v[0 .. num_non_null - 1]\<close>: reading past the values that the caller
  passed is out of bounds. A fixed-length value is a slice of the value bytes.
\<close>

primrec insert_each :: "('f \<Rightarrow> 'v \<Rightarrow> 'f access) \<Rightarrow> nat \<Rightarrow> 'v list \<Rightarrow> 'f \<Rightarrow> 'f access" where
  "insert_each ins 0 vs flt = Done flt"
| "insert_each ins (Suc n) vs flt =
     (case vs of
        [] \<Rightarrow> Invalid_Access
      | v # vs' \<Rightarrow> and_then (ins flt v) (insert_each ins n vs'))"

primrec insert_slices ::
    "nat \<Rightarrow> nat \<Rightarrow> bytes \<Rightarrow> carquet_bloom_filter option \<Rightarrow> carquet_bloom_filter option access" where
  "insert_slices k 0 vs flt = Done flt"
| "insert_slices k (Suc n) vs flt =
     (if length vs < k then Invalid_Access
      else and_then (carquet_bloom_filter_insert_bytes flt (take k vs)) (insert_slices k n (drop k vs)))"

definition bloom_filter_insert_chunk ::
    "carquet_simd_dispatch \<Rightarrow> 'd column_writer \<Rightarrow> plain_values \<Rightarrow> i64 \<Rightarrow> i16 list option \<Rightarrow>
     carquet_bloom_filter option access" where
  "bloom_filter_insert_chunk t w vals num_values def_levels =
     (if cw_bloom_filter w = None then Done None
      else
        let num_non_null =
          (case def_levels of
             Some lv \<Rightarrow>
               if 0 < sint (cw_max_def_level w)
               then count_non_nulls t (take (loop_count num_values) lv) (cw_max_def_level w)
               else loop_count num_values
           | None \<Rightarrow> loop_count num_values) in
        (case (cw_type w, vals) of
           (CARQUET_PHYSICAL_INT32, PInt32 v) \<Rightarrow>
             insert_each carquet_bloom_filter_insert_i32 num_non_null v (cw_bloom_filter w)
         | (CARQUET_PHYSICAL_INT64, PInt64 v) \<Rightarrow>
             insert_each carquet_bloom_filter_insert_i64 num_non_null v (cw_bloom_filter w)
         | (CARQUET_PHYSICAL_FLOAT, PFloat v) \<Rightarrow>
             insert_each carquet_bloom_filter_insert_float num_non_null v (cw_bloom_filter w)
         | (CARQUET_PHYSICAL_DOUBLE, PDouble v) \<Rightarrow>
             insert_each carquet_bloom_filter_insert_double num_non_null v (cw_bloom_filter w)
         | (CARQUET_PHYSICAL_BYTE_ARRAY, PByteArray v) \<Rightarrow>
             insert_each carquet_bloom_filter_insert_bytes num_non_null v (cw_bloom_filter w)
         | (CARQUET_PHYSICAL_FIXED_LEN_BYTE_ARRAY, PFixed v) \<Rightarrow>
             insert_slices (unat (cw_type_length w)) num_non_null v (cw_bloom_filter w)
         | _ \<Rightarrow> Done (cw_bloom_filter w)))"

section \<open>The set of bits that are on\<close>

definition bit_set :: "bytes \<Rightarrow> nat set" where
  "bit_set mem = {n. n < 8 * length mem \<and> bit (mem ! (n div 8)) (n mod 8)}"

text \<open>The marks of a hash in a filter of \<open>nb\<close> blocks: one bit in each of the eight words of its block.\<close>

definition marks :: "u64 \<Rightarrow> u64 \<Rightarrow> nat set" where
  "marks nb hash =
     (\<lambda>i. 256 * unat (bloom_filter_block_index hash nb) + 32 * i + bloom_bit_pos hash i) ` {0..<8}"

definition bloom_bits :: "carquet_bloom_filter \<Rightarrow> nat set" where
  "bloom_bits f = (case bf_data f of None \<Rightarrow> {} | Some mem \<Rightarrow> bit_set mem)"

definition bloom_wf :: "carquet_bloom_filter \<Rightarrow> bool" where
  "bloom_wf f \<longleftrightarrow>
     0 < unat (bf_num_blocks f) \<and> unat (bf_num_bytes f) = 32 * unat (bf_num_blocks f) \<and>
     (case bf_data f of None \<Rightarrow> False | Some mem \<Rightarrow> length mem = unat (bf_num_bytes f))"

lemma bit_set_replicate_zero [simp]: "bit_set (replicate n 0) = {}"
  by (auto simp: bit_set_def)

lemma load_u32_bit:
  assumes "off + 4 \<le> length mem"
  shows "\<exists>w. load_u32 mem off = Done w \<and> (\<forall>k < 32. bit w k \<longleftrightarrow> 8 * off + k \<in> bit_set mem)"
proof (intro exI conjI allI impI)
  show "load_u32 mem off = Done (le_load (take 4 (drop off mem)))"
    using assms by (simp add: load_u32_def)
  fix k :: nat assume "k < 32"
  moreover have "(8 * off + k) div 8 = off + k div 8" "(8 * off + k) mod 8 = k mod 8"
    by simp_all
  moreover have "k div 8 < 4"
    using calculation(1) by (simp add: div_less_iff_less_mult)
  ultimately show "bit (le_load (take 4 (drop off mem)) :: u32) k \<longleftrightarrow> 8 * off + k \<in> bit_set mem"
    using assms by (auto simp: bit_le_load_iff bit_set_def min_def)
qed

lemma store_u32_bits:
  assumes "off + 4 \<le> length mem"
  shows "\<exists>mem'. store_u32 mem off w = Done mem' \<and> length mem' = length mem \<and>
    bit_set mem' = {n \<in> bit_set mem. n < 8 * off \<or> 8 * off + 32 \<le> n} \<union> {8 * off + k | k. k < 32 \<and> bit w k}"
proof (intro exI conjI)
  let ?m = "take off mem @ le_store 4 w @ drop (off + 4) mem"
  show "store_u32 mem off w = Done ?m"
    using assms by (simp add: store_u32_def)
  show len: "length ?m = length mem"
    using assms by simp
  have below: "n \<in> bit_set ?m \<longleftrightarrow> n \<in> bit_set mem" if "n < 8 * off" for n
  proof -
    have "n div 8 < off"
      using that by (simp add: less_mult_imp_div_less mult.commute)
    then show ?thesis
      unfolding bit_set_def using assms by (auto simp: nth_append)
  qed
  have above: "n \<in> bit_set ?m \<longleftrightarrow> n \<in> bit_set mem" if "8 * off + 32 \<le> n" for n
  proof -
    have "off + 4 \<le> n div 8"
      using that by (simp add: div8_iff)
    then show ?thesis
      unfolding bit_set_def using assms len by (auto simp: nth_append)
  qed
  have within: "8 * off + k \<in> bit_set ?m \<longleftrightarrow> bit w k" if "k < 32" for k
  proof -
    have "(8 * off + k) div 8 = off + k div 8" "(8 * off + k) mod 8 = k mod 8" "k div 8 < 4"
      using that by (simp_all add: div_less_iff_less_mult)
    then show ?thesis
      using assms that unfolding bit_set_def
      by (auto simp: nth_append nth_le_store bit_simps)
  qed
  show "bit_set ?m = {n \<in> bit_set mem. n < 8 * off \<or> 8 * off + 32 \<le> n} \<union> {8 * off + k | k. k < 32 \<and> bit w k}"
  proof (rule set_eqI)
    fix n
    consider "n < 8 * off" | "8 * off + 32 \<le> n" | k where "n = 8 * off + k" "k < 32"
      by (metis le_add_diff_inverse nat_add_left_cancel_less not_le)
    then show "n \<in> bit_set ?m \<longleftrightarrow>
        n \<in> {n \<in> bit_set mem. n < 8 * off \<or> 8 * off + 32 \<le> n} \<union> {8 * off + k | k. k < 32 \<and> bit w k}"
      by cases (auto simp: below above within simp del: append_assoc)
  qed
qed

lemma unat_less_exp: "unat w < 2 ^ LENGTH('a)" for w :: "'a::len word"
  by (rule unsigned_less)

lemma bloom_bit_pos_less: "bloom_bit_pos hash i < 32"
  using unat_less_exp [of "SALT ! i * ucast hash :: u32"]
  by (simp add: bloom_bit_pos_def unat_drop_bit_word less_mult_imp_div_less)

text \<open>One word of an insertion and of a query, on the set of bits.\<close>

lemma mark_word:
  assumes "off + 4 \<le> length mem" "p < 32"
  shows "\<exists>w mem'. load_u32 mem off = Done w \<and> store_u32 mem off (w OR push_bit p 1) = Done mem' \<and>
    length mem' = length mem \<and> bit_set mem' = insert (8 * off + p) (bit_set mem)"
proof -
  obtain w where w: "load_u32 mem off = Done w" "\<And>k. k < 32 \<Longrightarrow> bit w k \<longleftrightarrow> 8 * off + k \<in> bit_set mem"
    using load_u32_bit [OF assms(1)] by blast
  obtain mem' where m: "store_u32 mem off (w OR push_bit p 1) = Done mem'" "length mem' = length mem"
      "bit_set mem' = {n \<in> bit_set mem. n < 8 * off \<or> 8 * off + 32 \<le> n} \<union>
        {8 * off + k | k. k < 32 \<and> bit (w OR push_bit p 1) k}"
    using store_u32_bits [OF assms(1)] by blast
  have "{8 * off + k | k. k < 32 \<and> bit (w OR push_bit p 1) k} =
      insert (8 * off + p) {n \<in> bit_set mem. \<not> (n < 8 * off \<or> 8 * off + 32 \<le> n)}" (is "?L = ?R")
  proof (rule set_eqI)
    fix n
    show "n \<in> ?L \<longleftrightarrow> n \<in> ?R"
    proof (cases "8 * off \<le> n \<and> n < 8 * off + 32")
      case True
      then obtain k where "n = 8 * off + k" "k < 32"
        by (metis le_add_diff_inverse nat_add_left_cancel_less)
      then show ?thesis
        using assms(2) w(2) [of k] by (auto simp: bit_simps)
    next
      case False
      then show ?thesis
        using assms(2) by auto
    qed
  qed
  with w m show ?thesis
    by auto
qed

lemma test_word:
  assumes "off + 4 \<le> length mem" "p < 32"
  shows "\<exists>w. load_u32 mem off = Done w \<and>
    (w AND push_bit p 1 = 0 \<longleftrightarrow> 8 * off + p \<notin> bit_set mem)"
proof -
  obtain w where w: "load_u32 mem off = Done w" "\<And>k. k < 32 \<Longrightarrow> bit w k \<longleftrightarrow> 8 * off + k \<in> bit_set mem"
    using load_u32_bit [OF assms(1)] by blast
  have "w AND push_bit p 1 = 0 \<longleftrightarrow> \<not> bit w p"
  proof
    assume "w AND push_bit p 1 = 0"
    then have "\<not> bit (w AND push_bit p 1) p"
      by simp
    then show "\<not> bit w p"
      using assms(2) by (simp add: bit_simps)
  next
    assume "\<not> bit w p"
    then show "w AND push_bit p 1 = 0"
      by (intro bit_word_eqI) (auto simp: bit_simps)
  qed
  with w assms(2) show ?thesis
    by auto
qed

lemma block_insert_words_spec:
  assumes "\<And>i. i \<in> set is \<Longrightarrow> base + 4 * i + 4 \<le> length mem"
  shows "\<exists>mem'. block_insert_words is base hash mem = Done mem' \<and> length mem' = length mem \<and>
    bit_set mem' = bit_set mem \<union> (\<lambda>i. 8 * base + 32 * i + bloom_bit_pos hash i) ` set is"
  using assms
proof (induction "is" arbitrary: mem)
  case (Cons i "is")
  have "base + 4 * i + 4 \<le> length mem"
    using Cons.prems by simp
  then obtain w m1 where m1: "load_u32 mem (base + 4 * i) = Done w"
      "store_u32 mem (base + 4 * i) (w OR push_bit (bloom_bit_pos hash i) 1) = Done m1"
      "length m1 = length mem"
      "bit_set m1 = insert (8 * (base + 4 * i) + bloom_bit_pos hash i) (bit_set mem)"
    using mark_word bloom_bit_pos_less by blast
  have "\<And>j. j \<in> set is \<Longrightarrow> base + 4 * j + 4 \<le> length m1"
    using Cons.prems m1(3) by simp
  from Cons.IH [OF this] m1 show ?case
    by (auto simp: algebra_simps)
qed simp

lemma block_check_words_spec:
  assumes "\<And>i. i \<in> set is \<Longrightarrow> base + 4 * i + 4 \<le> length mem"
  shows "block_check_words is base hash mem =
    Done ((\<lambda>i. 8 * base + 32 * i + bloom_bit_pos hash i) ` set is \<subseteq> bit_set mem)"
  using assms
proof (induction "is")
  case (Cons i "is")
  have "base + 4 * i + 4 \<le> length mem"
    using Cons.prems by simp
  then obtain w where "load_u32 mem (base + 4 * i) = Done w"
      "w AND push_bit (bloom_bit_pos hash i) 1 = 0 \<longleftrightarrow>
        8 * (base + 4 * i) + bloom_bit_pos hash i \<notin> bit_set mem"
    using test_word bloom_bit_pos_less by blast
  with Cons show ?case
    by (auto simp: algebra_simps)
qed simp

section \<open>Each operation on the set of bits\<close>

text \<open>
  The block index stays below the number of blocks, also when the 64-bit product
  wraps: then the count is above \<open>2 ^ 32\<close> and the shifted product below it.
\<close>

lemma bloom_block_index_less:
  assumes "0 < unat nb"
  shows "unat (bloom_filter_block_index hash nb) < unat nb"
proof (cases "unat nb \<le> 2 ^ 32")
  case True
  let ?t = "drop_bit 32 hash"
  have t: "unat ?t < 2 ^ 32"
    using unat_less_exp [of hash] by (simp add: unat_drop_bit_word less_mult_imp_div_less)
  then have "unat ?t * unat nb < 2 ^ 32 * 2 ^ 32"
    using True assms by (intro mult_less_le_imp_less) simp_all
  then have "unat (?t * nb) = unat ?t * unat nb"
    by (simp add: unat_word_ariths mod_less)
  moreover have "unat ?t * unat nb < unat nb * 2 ^ 32"
    using t assms by simp
  ultimately show ?thesis
    by (simp add: bloom_filter_block_index_def unat_drop_bit_word less_mult_imp_div_less)
next
  case False
  have "unat (bloom_filter_block_index hash nb) < 2 ^ 32"
    using unat_less_exp [of "drop_bit 32 hash * nb"]
    by (simp add: bloom_filter_block_index_def unat_drop_bit_word less_mult_imp_div_less)
  with False show ?thesis
    by linarith
qed

lemma bloom_wf_data:
  assumes "bloom_wf f"
  obtains mem where "bf_data f = Some mem" "length mem = 32 * unat (bf_num_blocks f)"
    "bloom_bits f = bit_set mem"
  using assms by (auto simp: bloom_wf_def bloom_bits_def split: option.splits)

lemma bloom_block_offset:
  assumes "bloom_wf f"
  shows "unat (bloom_filter_block_index hash (bf_num_blocks f) * 32) =
      32 * unat (bloom_filter_block_index hash (bf_num_blocks f))"
    and "32 * unat (bloom_filter_block_index hash (bf_num_blocks f)) + 32 \<le> 32 * unat (bf_num_blocks f)"
proof -
  let ?b = "bloom_filter_block_index hash (bf_num_blocks f)"
  have b: "unat ?b < unat (bf_num_blocks f)"
    using assms bloom_block_index_less by (simp add: bloom_wf_def)
  then show "32 * unat ?b + 32 \<le> 32 * unat (bf_num_blocks f)"
    by simp
  have "32 * unat (bf_num_blocks f) < 2 ^ 64"
    using assms unat_less_exp [of "bf_num_bytes f"] by (simp add: bloom_wf_def)
  with b have "unat ?b * 32 < 2 ^ 64"
    by simp
  then show "unat (?b * 32) = 32 * unat ?b"
    by (simp add: unat_word_ariths mod_less)
qed

lemma block_insert_bits:
  assumes "bloom_wf f" "bf_data f = Some mem"
  shows "\<exists>m. bloom_filter_block_insert mem (unat (bloom_filter_block_index hash (bf_num_blocks f) * 32)) hash = Done m \<and>
    length m = length mem \<and> bit_set m = bit_set mem \<union> marks (bf_num_blocks f) hash"
proof -
  let ?i = "unat (bloom_filter_block_index hash (bf_num_blocks f))"
  have len: "length mem = 32 * unat (bf_num_blocks f)"
    using assms by (simp add: bloom_wf_def)
  have bound: "32 * ?i + 4 * i + 4 \<le> length mem" if "i \<in> set [0..<8]" for i
    using bloom_block_offset(2) [OF assms(1), of hash] that unfolding len by auto
  have eq: "8 * (32 * ?i) + 32 * i + bloom_bit_pos hash i = 256 * ?i + 32 * i + bloom_bit_pos hash i" for i
    by simp
  show ?thesis
    unfolding bloom_filter_block_insert_def bloom_block_offset(1) [OF assms(1)] marks_def
    using block_insert_words_spec [of "[0..<8]" "32 * ?i" mem hash, unfolded eq, OF bound]
    by (simp only: set_upt)
qed

lemma block_check_bits:
  assumes "bloom_wf f" "bf_data f = Some mem"
  shows "bloom_filter_block_check mem (unat (bloom_filter_block_index hash (bf_num_blocks f) * 32)) hash =
    Done (marks (bf_num_blocks f) hash \<subseteq> bit_set mem)"
proof -
  let ?i = "unat (bloom_filter_block_index hash (bf_num_blocks f))"
  have len: "length mem = 32 * unat (bf_num_blocks f)"
    using assms by (simp add: bloom_wf_def)
  have bound: "32 * ?i + 4 * i + 4 \<le> length mem" if "i \<in> set [0..<8]" for i
    using bloom_block_offset(2) [OF assms(1), of hash] that unfolding len by auto
  have eq: "8 * (32 * ?i) + 32 * i + bloom_bit_pos hash i = 256 * ?i + 32 * i + bloom_bit_pos hash i" for i
    by simp
  show ?thesis
    unfolding bloom_filter_block_check_def bloom_block_offset(1) [OF assms(1)] marks_def
    using block_check_words_spec [of "[0..<8]" "32 * ?i" mem hash, unfolded eq, OF bound]
    by (simp only: set_upt)
qed

lemma insert_hash_bits:
  assumes "bloom_wf f"
  shows "\<exists>f'. carquet_bloom_filter_insert_hash (Some f) hash = Done (Some f') \<and> bloom_wf f' \<and>
    bf_num_blocks f' = bf_num_blocks f \<and> bf_num_bytes f' = bf_num_bytes f \<and>
    bloom_bits f' = bloom_bits f \<union> marks (bf_num_blocks f) hash"
proof -
  obtain mem where mem: "bf_data f = Some mem" "bloom_bits f = bit_set mem"
    using assms by (rule bloom_wf_data)
  from block_insert_bits [OF assms mem(1), of hash] obtain m where
      "bloom_filter_block_insert mem (unat (bloom_filter_block_index hash (bf_num_blocks f) * 32)) hash = Done m"
      "length m = length mem" "bit_set m = bit_set mem \<union> marks (bf_num_blocks f) hash"
    by blast
  then show ?thesis
    using mem assms
    by (simp add: carquet_bloom_filter_insert_hash_def Let_def bloom_wf_def bloom_bits_def)
qed

lemma check_hash_bits:
  assumes "bloom_wf f"
  shows "carquet_bloom_filter_check_hash (Some f) hash =
    Done (marks (bf_num_blocks f) hash \<subseteq> bloom_bits f)"
proof -
  obtain mem where mem: "bf_data f = Some mem" "bloom_bits f = bit_set mem"
    using assms by (rule bloom_wf_data)
  then show ?thesis
    by (simp add: carquet_bloom_filter_check_hash_def Let_def block_check_bits [OF assms mem(1)])
qed

lemma block_multiple:
  fixes n :: u64
  shows "unat (n div 32 * 32) = 32 * unat (n div 32)"
    and "unat (n div 32) = unat n div 32"
proof -
  have "unat (n div 32) = unat n div 32"
    by (simp add: unat_div)
  moreover have "unat n div 32 * 32 < 2 ^ 64"
    using unat_less_exp [of n] by (intro le_less_trans [OF div_times_less_eq_dividend]) simp
  ultimately show "unat (n div 32 * 32) = 32 * unat (n div 32)" "unat (n div 32) = unat n div 32"
    by (simp_all add: unat_word_ariths mod_less)
qed

lemma create_bits:
  assumes "carquet_bloom_filter_create al n = Some f" "unat n \<le> 2 ^ 64 - 32"
  shows "bloom_wf f" "bloom_bits f = {}" "unat n \<le> unat (bf_num_bytes f)"
proof -
  define m where "m = (if n < 32 then 32 else n :: u64)"
  define k where "k = (m + 32 - 1) div 32"
  have f: "f = \<lparr>bf_data = Some (replicate (unat (k * 32)) 0), bf_num_bytes = k * 32,
      bf_num_blocks = k * 32 div 32, bf_owns_data = True\<rparr>"
    using assms(1) unfolding k_def m_def
    by (simp add: carquet_bloom_filter_create_def Let_def split: if_splits)
  have m: "32 \<le> unat m" "unat n \<le> unat m" "unat m \<le> 2 ^ 64 - 32"
    using assms(2) by (auto simp: m_def word_less_nat_alt)
  have eq: "m + 32 - 1 = m + 31"
    by simp
  have add: "unat (m + 31) = unat m + 31"
    using m(3) by (simp add: unat_word_ariths mod_less)
  have k: "unat k = (unat m + 31) div 32" "unat (k * 32) = 32 * ((unat m + 31) div 32)"
    unfolding k_def eq block_multiple add by (rule refl)+
  then have blocks: "unat (k * 32 div 32) = (unat m + 31) div 32"
    by (simp add: block_multiple(2))
  show "bloom_wf f"
    using m(1) unfolding f bloom_wf_def by (simp add: blocks k(2))
  show "bloom_bits f = {}"
    by (simp add: f bloom_bits_def)
  have "unat m \<le> 32 * ((unat m + 31) div 32)"
    by linarith
  then show "unat n \<le> unat (bf_num_bytes f)"
    using m(2) unfolding f by (simp add: k(2))
qed

lemma from_data_bits:
  assumes "carquet_bloom_filter_from_data al (Some d) n = Some f" "unat n \<le> length d"
  shows "bloom_wf f" "bloom_bits f = bit_set (take (unat n) d)"
    "bf_num_bytes f = n" "bf_num_blocks f = n div 32"
proof -
  have n: "\<not> n < 32" "n mod 32 = 0" and
    f: "f = \<lparr>bf_data = Some (take (unat n) d), bf_num_bytes = n, bf_num_blocks = n div 32, bf_owns_data = True\<rparr>"
    using assms(1) by (simp_all add: carquet_bloom_filter_from_data_def split: if_splits)
  have "unat n mod 32 = 0"
    using arg_cong [OF n(2), of unat] by (simp add: unat_mod)
  moreover have "32 \<le> unat n"
    using n(1) by (simp add: word_less_nat_alt)
  ultimately show "bloom_wf f"
    using assms(2) unfolding f bloom_wf_def by (auto simp: block_multiple(2))
  show "bloom_bits f = bit_set (take (unat n) d)" "bf_num_bytes f = n" "bf_num_blocks f = n div 32"
    by (simp_all add: f bloom_bits_def)
qed

lemma bit_set_merge:
  assumes "length s = length d" "i < length d"
  shows "bit_set (d[i := d ! i OR s ! i]) = bit_set d \<union> {n \<in> bit_set s. n div 8 = i}"
  using assms by (auto simp: bit_set_def nth_list_update bit_simps less_mult_imp_div_less)

lemma merge_bytes_bits:
  assumes "length s = length d" "\<And>i. i \<in> set is \<Longrightarrow> i < length d"
  shows "\<exists>m. merge_bytes is d s = Done m \<and> length m = length d \<and>
    bit_set m = bit_set d \<union> {n \<in> bit_set s. n div 8 \<in> set is}"
  using assms
proof (induction "is" arbitrary: d)
  case (Cons i "is")
  have i: "i < length d" "i < length s"
    using Cons.prems by simp_all
  have "\<exists>m. merge_bytes is (d[i := d ! i OR s ! i]) s = Done m \<and> length m = length d \<and>
    bit_set m = bit_set (d[i := d ! i OR s ! i]) \<union> {n \<in> bit_set s. n div 8 \<in> set is}"
    using Cons.IH [of "d[i := d ! i OR s ! i]"] Cons.prems by simp
  then show ?case
    using i Cons.prems(1) by (auto simp: bit_set_merge)
qed simp

lemma merge_bits:
  assumes "bloom_wf f" "bloom_wf g" "bf_num_bytes f = bf_num_bytes g"
  shows "\<exists>h. carquet_bloom_filter_merge (Some f) (Some g) = Done (Inr h) \<and> bloom_wf h \<and>
    bf_num_blocks h = bf_num_blocks f \<and> bf_num_bytes h = bf_num_bytes f \<and>
    bloom_bits h = bloom_bits f \<union> bloom_bits g"
proof -
  obtain mf where mf: "bf_data f = Some mf" "bloom_bits f = bit_set mf"
    using assms(1) by (rule bloom_wf_data)
  obtain mg where mg: "bf_data g = Some mg" "bloom_bits g = bit_set mg"
    using assms(2) by (rule bloom_wf_data)
  have len: "length mf = unat (bf_num_bytes f)" "length mg = length mf"
    using assms mf mg by (simp_all add: bloom_wf_def)
  then obtain m where m: "merge_bytes [0..<unat (bf_num_bytes f)] mf mg = Done m" "length m = length mf"
      "bit_set m = bit_set mf \<union> {n \<in> bit_set mg. n div 8 \<in> set [0..<unat (bf_num_bytes f)]}"
    using merge_bytes_bits [of mg mf "[0..<unat (bf_num_bytes f)]"] by auto
  have "{n \<in> bit_set mg. n div 8 \<in> set [0..<unat (bf_num_bytes f)]} = bit_set mg"
    using len by (auto simp: bit_set_def less_mult_imp_div_less mult.commute)
  then show ?thesis
    using assms mf mg m
    by (simp add: carquet_bloom_filter_merge_def bloom_wf_def bloom_bits_def del: upt_rec_numeral)
qed

section \<open>The interface of a filter for keys of some type\<close>

text \<open>
  What the writers of a column rely on: inserting a key is in bounds, keeps the
  invariant and the block count and adds the key's footprint; a query compares the
  footprint with the bits.
\<close>

locale keyed_filter =
  fixes invar :: "'f \<Rightarrow> bool"
    and shape :: "'f \<Rightarrow> 'n"
    and on_bits :: "'f \<Rightarrow> nat set"
    and footprint :: "'n \<Rightarrow> 'k \<Rightarrow> nat set"
    and ins :: "'f \<Rightarrow> 'k \<Rightarrow> 'f access"
    and query :: "'f \<Rightarrow> 'k \<Rightarrow> bool access"
  assumes ins_bits: "invar f \<Longrightarrow>
      \<exists>f'. ins f k = Done f' \<and> invar f' \<and> shape f' = shape f \<and>
        on_bits f' = on_bits f \<union> footprint (shape f) k"
    and query_bits: "invar f \<Longrightarrow> query f k = Done (footprint (shape f) k \<subseteq> on_bits f)"
begin

lemma insert_each_bits:
  assumes "invar f" "n \<le> length ks"
  shows "\<exists>f'. insert_each ins n ks f = Done f' \<and> invar f' \<and> shape f' = shape f \<and>
    on_bits f' = on_bits f \<union> (\<Union>k \<in> set (take n ks). footprint (shape f) k)"
  using assms
proof (induction n arbitrary: f ks)
  case (Suc n)
  then obtain k ks' where ks: "ks = k # ks'" "n \<le> length ks'"
    by (cases ks) auto
  obtain g where g: "ins f k = Done g" "invar g" "shape g = shape f"
      "on_bits g = on_bits f \<union> footprint (shape f) k"
    using ins_bits [OF Suc.prems(1)] by blast
  from Suc.IH [OF g(2) ks(2)] g ks(1) show ?case
    by auto
qed simp

lemma insert_each_past_end:
  assumes "invar f" "length ks < n"
  shows "insert_each ins n ks f = Invalid_Access"
  using assms
proof (induction n arbitrary: f ks)
  case (Suc n)
  show ?case
  proof (cases ks)
    case (Cons k ks')
    obtain g where "ins f k = Done g" "invar g"
      using ins_bits [OF Suc.prems(1)] by blast
    then show ?thesis
      using Suc Cons by simp
  qed simp
qed simp

lemma query_inserted:
  assumes "invar f" "insert_each ins n ks f = Done f'" "k \<in> set (take n ks)"
  shows "query f' k = Done True"
proof -
  have "n \<le> length ks"
    using assms(2) insert_each_past_end [OF assms(1), of ks n] by force
  then show ?thesis
    using insert_each_bits [OF assms(1)] assms query_bits by fastforce
qed

end

definition held :: "carquet_bloom_filter option \<Rightarrow> bool" where
  "held flt = (case flt of None \<Rightarrow> False | Some f \<Rightarrow> bloom_wf f)"

definition held_blocks :: "carquet_bloom_filter option \<Rightarrow> u64" where
  "held_blocks flt = carquet_bloom_filter_num_blocks flt"

definition held_bits :: "carquet_bloom_filter option \<Rightarrow> nat set" where
  "held_bits flt = (case flt of None \<Rightarrow> {} | Some f \<Rightarrow> bloom_bits f)"

lemmas held_simps = held_def held_blocks_def held_bits_def carquet_bloom_filter_num_blocks_def

interpretation by_hash: keyed_filter held held_blocks held_bits marks
  carquet_bloom_filter_insert_hash carquet_bloom_filter_check_hash
proof
  fix flt hash assume held: "held flt"
  then obtain f where f: "flt = Some f" "bloom_wf f"
    by (auto simp: held_def split: option.splits)
  show "\<exists>f'. carquet_bloom_filter_insert_hash flt hash = Done f' \<and> held f' \<and>
      held_blocks f' = held_blocks flt \<and> held_bits f' = held_bits flt \<union> marks (held_blocks flt) hash"
    using insert_hash_bits [OF f(2), of hash] f(1) by (auto simp: held_simps)
  show "carquet_bloom_filter_check_hash flt hash = Done (marks (held_blocks flt) hash \<subseteq> held_bits flt)"
    using check_hash_bits [OF f(2), of hash] f(1) by (simp add: held_simps)
qed

text \<open>The footprint of the object representation of a value.\<close>

definition key_marks :: "u64 \<Rightarrow> bytes \<Rightarrow> nat set" where
  "key_marks nb key = marks nb (carquet_xxhash64 key 0)"

interpretation by_i32: keyed_filter held held_blocks held_bits "\<lambda>nb v. key_marks nb (le_store 4 v)"
  carquet_bloom_filter_insert_i32 carquet_bloom_filter_check_i32
  by unfold_locales (simp_all add: carquet_bloom_filter_insert_i32_def carquet_bloom_filter_check_i32_def
      key_marks_def by_hash.ins_bits by_hash.query_bits)

interpretation by_i64: keyed_filter held held_blocks held_bits "\<lambda>nb v. key_marks nb (le_store 8 v)"
  carquet_bloom_filter_insert_i64 carquet_bloom_filter_check_i64
  by unfold_locales (simp_all add: carquet_bloom_filter_insert_i64_def carquet_bloom_filter_check_i64_def
      key_marks_def by_hash.ins_bits by_hash.query_bits)

interpretation by_float: keyed_filter held held_blocks held_bits "\<lambda>nb v. key_marks nb (le_store 4 v)"
  carquet_bloom_filter_insert_float carquet_bloom_filter_check_float
  by unfold_locales (simp_all add: carquet_bloom_filter_insert_float_def carquet_bloom_filter_check_float_def
      key_marks_def by_hash.ins_bits by_hash.query_bits)

interpretation by_double: keyed_filter held held_blocks held_bits "\<lambda>nb v. key_marks nb (le_store 8 v)"
  carquet_bloom_filter_insert_double carquet_bloom_filter_check_double
  by unfold_locales (simp_all add: carquet_bloom_filter_insert_double_def carquet_bloom_filter_check_double_def
      key_marks_def by_hash.ins_bits by_hash.query_bits)

interpretation by_bytes: keyed_filter held held_blocks held_bits key_marks
  carquet_bloom_filter_insert_bytes carquet_bloom_filter_check_bytes
  by unfold_locales (simp_all add: carquet_bloom_filter_insert_bytes_def carquet_bloom_filter_check_bytes_def
      key_marks_def by_hash.ins_bits by_hash.query_bits)

section \<open>The answers of a filter\<close>

text \<open>
  \<open>bloom_history f S\<close>: the filter \<open>f\<close> came out of the operations of the component, and
  \<open>S\<close> is the set of hashes that went into it, directly, through a filter merged into
  it, or before it was written out and read back.
\<close>

inductive bloom_history :: "carquet_bloom_filter \<Rightarrow> u64 set \<Rightarrow> bool" where
  created: "carquet_bloom_filter_create al n = Some f \<Longrightarrow> unat n \<le> 2 ^ 64 - 32 \<Longrightarrow> bloom_history f {}"
| inserted: "bloom_history f S \<Longrightarrow> carquet_bloom_filter_insert_hash (Some f) h = Done (Some f') \<Longrightarrow>
    bloom_history f' (insert h S)"
| merged: "bloom_history f S \<Longrightarrow> bloom_history g T \<Longrightarrow>
    carquet_bloom_filter_merge (Some f) (Some g) = Done (Inr m) \<Longrightarrow> bloom_history m (S \<union> T)"
| reloaded: "bloom_history f S \<Longrightarrow>
    carquet_bloom_filter_write (Some f) (Some dst) cap True = Done (Inr (out, n)) \<Longrightarrow>
    carquet_bloom_filter_read al (Some out) n = Inr g \<Longrightarrow> bloom_history g S"

lemma write_read:
  assumes "bloom_wf f"
    and "carquet_bloom_filter_write (Some f) (Some dst) cap True = Done (Inr (out, n))"
    and "carquet_bloom_filter_read al (Some out) n = Inr g"
  shows "bloom_wf g" "bf_num_blocks g = bf_num_blocks f" "bf_num_bytes g = bf_num_bytes f"
    "bloom_bits g = bloom_bits f" "bf_data g = bf_data f"
proof -
  obtain mem where mem: "bf_data f = Some mem" "bloom_bits f = bit_set mem"
    using assms(1) by (rule bloom_wf_data)
  have len: "length mem = unat (bf_num_bytes f)"
    using assms(1) mem by (simp add: bloom_wf_def)
  have out: "n = bf_num_bytes f" "out = mem @ drop (length mem) dst"
    using assms(2) mem len by (auto simp: carquet_bloom_filter_write_def Let_def split: if_splits)
  have read: "carquet_bloom_filter_from_data al (Some out) n = Some g"
    using assms(3) by (simp add: carquet_bloom_filter_read_def split: option.splits)
  have le: "unat n \<le> length out"
    using out len by simp
  note g = from_data_bits [OF read le]
  have "unat (n div 32) = unat (bf_num_blocks f)"
    using assms(1) out(1) by (simp add: bloom_wf_def block_multiple(2))
  then have "n div 32 = bf_num_blocks f"
    by (simp add: word_eq_iff_unsigned [where ?'a = nat])
  then show "bloom_wf g" "bf_num_blocks g = bf_num_blocks f" "bf_num_bytes g = bf_num_bytes f"
      "bloom_bits g = bloom_bits f"
    using g mem out len by simp_all
  show "bf_data g = bf_data f"
    using read out len mem by (auto simp: carquet_bloom_filter_from_data_def split: if_splits)
qed

lemma bloom_history_bits:
  assumes "bloom_history f S"
  shows "bloom_wf f \<and> bloom_bits f = (\<Union>s \<in> S. marks (bf_num_blocks f) s)"
  using assms
proof induction
  case (created al n f)
  then show ?case
    using create_bits by simp
next
  case (inserted f S h f')
  then show ?case
    using insert_hash_bits [of f h] by auto
next
  case (merged f S g T m)
  have same: "bf_num_bytes f = bf_num_bytes g"
    using merged(3) by (auto simp: carquet_bloom_filter_merge_def split: if_splits)
  then have "bf_num_blocks f = bf_num_blocks g"
    using merged(4, 5) by (simp add: bloom_wf_def word_unat_eq_iff)
  then show ?case
    using merge_bits [of f g] merged same by auto
next
  case (reloaded f S dst cap out n al g)
  then show ?case
    using write_read [OF _ reloaded(2, 3)] by simp
qed

lemma insert_slices_each:
  assumes "0 < k" "n \<le> length v div k"
  shows "insert_slices k n v flt = insert_each carquet_bloom_filter_insert_bytes n (chunks k v) flt"
  using assms
proof (induction n arbitrary: v flt)
  case (Suc n)
  have k: "k \<le> length v"
    using Suc.prems div_less [of "length v" k] by (cases "k \<le> length v") auto
  then have n: "n \<le> length (drop k v) div k"
    using Suc.prems by (simp add: le_div_geq)
  have "insert_slices k n (drop k v) =
      insert_each carquet_bloom_filter_insert_bytes n (chunks k (drop k v))"
    using Suc.IH [OF Suc.prems(1) n] by (rule ext)
  then show ?case
    using k Suc.prems(1) by (subst chunks.simps) simp
qed simp

text \<open>The values of a chunk by their object representations.\<close>

definition column_keys :: "'d column_writer \<Rightarrow> plain_values \<Rightarrow> bytes list option" where
  "column_keys w vals =
     (case (cw_type w, vals) of
        (CARQUET_PHYSICAL_INT32, PInt32 v) \<Rightarrow> Some (map (le_store 4) v)
      | (CARQUET_PHYSICAL_INT64, PInt64 v) \<Rightarrow> Some (map (le_store 8) v)
      | (CARQUET_PHYSICAL_FLOAT, PFloat v) \<Rightarrow> Some (map (le_store 4) v)
      | (CARQUET_PHYSICAL_DOUBLE, PDouble v) \<Rightarrow> Some (map (le_store 8) v)
      | (CARQUET_PHYSICAL_BYTE_ARRAY, PByteArray v) \<Rightarrow> Some v
      | (CARQUET_PHYSICAL_FIXED_LEN_BYTE_ARRAY, PFixed v) \<Rightarrow>
          if 0 < unat (cw_type_length w) then Some (chunks (unat (cw_type_length w)) v) else None
      | _ \<Rightarrow> None)"

definition present_values :: "carquet_simd_dispatch \<Rightarrow> 'd column_writer \<Rightarrow> i64 \<Rightarrow> i16 list option \<Rightarrow> nat" where
  "present_values t w num_values def_levels =
     (case def_levels of
        Some lv \<Rightarrow>
          if 0 < sint (cw_max_def_level w)
          then count_non_nulls t (take (loop_count num_values) lv) (cw_max_def_level w)
          else loop_count num_values
      | None \<Rightarrow> loop_count num_values)"

lemma insert_each_keys:
  assumes rep: "\<And>flt v. ins flt v = carquet_bloom_filter_insert_bytes flt (rep v)"
  shows "insert_each ins n vs flt = insert_each carquet_bloom_filter_insert_bytes n (map rep vs) flt"
proof (induction n arbitrary: vs flt)
  case (Suc n)
  have "insert_each ins n ws = insert_each carquet_bloom_filter_insert_bytes n (map rep ws)" for ws
    using Suc by (rule ext)
  then show ?case
    by (cases vs) (simp_all add: rep [of flt])
qed simp

lemma insert_chunk_keys:
  assumes "cw_bloom_filter w = Some f" "column_keys w vals = Some ks"
    "present_values t w num_values def_levels \<le> length ks"
  shows "bloom_filter_insert_chunk t w vals num_values def_levels =
    insert_each carquet_bloom_filter_insert_bytes (present_values t w num_values def_levels) ks (Some f)"
proof -
  note reps = insert_each_keys [of carquet_bloom_filter_insert_i32 "le_store 4"]
    insert_each_keys [of carquet_bloom_filter_insert_i64 "le_store 8"]
    insert_each_keys [of carquet_bloom_filter_insert_float "le_store 4"]
    insert_each_keys [of carquet_bloom_filter_insert_double "le_store 8"]
  note defs = carquet_bloom_filter_insert_i32_def carquet_bloom_filter_insert_i64_def
    carquet_bloom_filter_insert_float_def carquet_bloom_filter_insert_double_def
    carquet_bloom_filter_insert_bytes_def
  show ?thesis
    using assms
    by (cases "cw_type w"; cases vals)
      (auto simp: bloom_filter_insert_chunk_def column_keys_def present_values_def [symmetric] Let_def
        reps defs insert_slices_each length_chunks split: if_splits)
qed

section \<open>Properties\<close>

text \<open>
  C9: Whatever sequence of creations, insertions, merges and write/read cycles a
  Bloom filter went through, a query on it stays inside the bit array and its answer
  is exactly determined by the hashes that went in: positive when each of the eight
  marks of the queried hash was set by some inserted hash, negative otherwise. In
  particular an inserted hash is always found.
\<close>

theorem bloom_answers_exact:
  assumes "bloom_history f S"
  shows "carquet_bloom_filter_check_hash (Some f) h =
      Done (marks (bf_num_blocks f) h \<subseteq> (\<Union>s \<in> S. marks (bf_num_blocks f) s)) \<and>
    (h \<in> S \<longrightarrow> carquet_bloom_filter_check_hash (Some f) h = Done True)"
proof -
  have f: "bloom_wf f" "bloom_bits f = (\<Union>s \<in> S. marks (bf_num_blocks f) s)"
    using bloom_history_bits [OF assms] by simp_all
  then show ?thesis
    using check_hash_bits [OF f(1), of h] by auto
qed

definition two_blocks :: carquet_bloom_filter where
  "two_blocks = \<lparr>bf_data = Some (replicate 64 0), bf_num_bytes = 64, bf_num_blocks = 2, bf_owns_data = True\<rparr>"

lemma two_blocks_created: "carquet_bloom_filter_create generous 50 = Some two_blocks"
  by (simp add: carquet_bloom_filter_create_def two_blocks_def generous_def)

theorem bloom_answers_exact_witness:
  "\<exists>f. carquet_bloom_filter_insert_hash (Some two_blocks) 0x123456789ABCDEF0 = Done (Some f) \<and>
     carquet_bloom_filter_check_hash (Some f) 0x123456789ABCDEF0 = Done True \<and>
     carquet_bloom_filter_check_hash (Some two_blocks) 0x123456789ABCDEF0 = Done False"
proof -
  have empty: "bloom_history two_blocks {}"
    by (rule created [OF two_blocks_created]) simp
  then have wf: "bloom_wf two_blocks"
    using bloom_history_bits by simp
  obtain f where f: "carquet_bloom_filter_insert_hash (Some two_blocks) 0x123456789ABCDEF0 = Done (Some f)"
    using insert_hash_bits [OF wf, of "0x123456789ABCDEF0"] by (elim exE conjE)
  have one: "bloom_history f {0x123456789ABCDEF0}"
    by (rule inserted [OF empty f])
  have "marks nb h \<noteq> {}" for nb h
    by (simp add: marks_def)
  then have "carquet_bloom_filter_check_hash (Some two_blocks) 0x123456789ABCDEF0 = Done False"
    using bloom_answers_exact [OF empty, of "0x123456789ABCDEF0"] by (simp only: UN_empty subset_empty simp_thms)
  moreover have "carquet_bloom_filter_check_hash (Some f) 0x123456789ABCDEF0 = Done True"
    by (rule bloom_answers_exact [OF one, THEN conjunct2, rule_format]) (rule singletonI)
  ultimately show ?thesis
    using f by (intro exI [of _ f] conjI)
qed

text \<open>
  C28: The filter's refinement of the abstract split-block filter: on a well-formed
  filter an insertion succeeds inside the array and adds exactly the eight marks of
  the hash, merging a filter of the same size succeeds and gives the union of the
  bits, and both keep the filter well-formed; filters of different sizes are refused
  and left alone.
\<close>

theorem bloom_refines_bit_sets:
  assumes "bloom_wf f" "bloom_wf g"
  shows "(\<exists>f'. carquet_bloom_filter_insert_hash (Some f) h = Done (Some f') \<and> bloom_wf f' \<and>
      bf_num_blocks f' = bf_num_blocks f \<and> bloom_bits f' = bloom_bits f \<union> marks (bf_num_blocks f) h) \<and>
    (if bf_num_bytes f = bf_num_bytes g
     then \<exists>m. carquet_bloom_filter_merge (Some f) (Some g) = Done (Inr m) \<and> bloom_wf m \<and>
        bf_num_blocks m = bf_num_blocks f \<and> bloom_bits m = bloom_bits f \<union> bloom_bits g
     else carquet_bloom_filter_merge (Some f) (Some g) = Done (Inl CARQUET_ERROR_INVALID_ARGUMENT))"
proof (rule conjI)
  show "\<exists>f'. carquet_bloom_filter_insert_hash (Some f) h = Done (Some f') \<and> bloom_wf f' \<and>
      bf_num_blocks f' = bf_num_blocks f \<and> bloom_bits f' = bloom_bits f \<union> marks (bf_num_blocks f) h"
    using insert_hash_bits [OF assms(1), of h] by auto
next
  show "if bf_num_bytes f = bf_num_bytes g
     then \<exists>m. carquet_bloom_filter_merge (Some f) (Some g) = Done (Inr m) \<and> bloom_wf m \<and>
        bf_num_blocks m = bf_num_blocks f \<and> bloom_bits m = bloom_bits f \<union> bloom_bits g
     else carquet_bloom_filter_merge (Some f) (Some g) = Done (Inl CARQUET_ERROR_INVALID_ARGUMENT)"
  proof (cases "bf_num_bytes f = bf_num_bytes g")
    case True
    then show ?thesis
      using merge_bits [OF assms True] by auto
  qed (simp add: carquet_bloom_filter_merge_def)
qed

lemma two_blocks_wf: "bloom_wf two_blocks"
  by (simp add: bloom_wf_def two_blocks_def)

theorem bloom_refines_bit_sets_witness:
  "\<exists>m. carquet_bloom_filter_merge (Some two_blocks) (Some two_blocks) = Done (Inr m) \<and> bloom_bits m = {}"
proof -
  have "bloom_bits two_blocks = {}"
    by (simp add: bloom_bits_def two_blocks_def)
  then show ?thesis
    using bloom_refines_bit_sets [OF two_blocks_wf two_blocks_wf, of 0] by auto
qed

text \<open>
  C29: Writing a chunk of values into the filter of its column leaves no false
  negative behind: when the chunk holds at least as many values as its definition
  levels say are present, every insertion stays in bounds, each present value is
  found afterwards by its representation, and whatever the filter found before it
  still finds.
\<close>

theorem bloom_chunk_no_false_negatives:
  assumes "cw_bloom_filter w = Some f" "bloom_wf f" "column_keys w vals = Some ks"
    and "present_values t w num_values def_levels \<le> length ks"
  shows "\<exists>f'. bloom_filter_insert_chunk t w vals num_values def_levels = Done (Some f') \<and> bloom_wf f' \<and>
    (\<forall>k \<in> set (take (present_values t w num_values def_levels) ks).
       carquet_bloom_filter_check_bytes (Some f') k = Done True) \<and>
    (\<forall>k. carquet_bloom_filter_check_bytes (Some f) k = Done True \<longrightarrow>
       carquet_bloom_filter_check_bytes (Some f') k = Done True)"
proof -
  let ?n = "present_values t w num_values def_levels"
  have held: "held (Some f)"
    using assms(2) by (simp add: held_def)
  obtain flt where flt: "insert_each carquet_bloom_filter_insert_bytes ?n ks (Some f) = Done flt"
      "held flt" "held_blocks flt = held_blocks (Some f)"
      "held_bits flt = held_bits (Some f) \<union> (\<Union>k \<in> set (take ?n ks). key_marks (held_blocks (Some f)) k)"
    using by_bytes.insert_each_bits [OF held assms(4)] by blast
  obtain f' where f': "flt = Some f'" "bloom_wf f'"
    using flt(2) by (auto simp: held_def split: option.splits)
  have "carquet_bloom_filter_check_bytes flt k = Done True" if "k \<in> set (take ?n ks)" for k
    using by_bytes.query_inserted [OF held flt(1) that] .
  moreover have "carquet_bloom_filter_check_bytes flt k = Done True"
    if "carquet_bloom_filter_check_bytes (Some f) k = Done True" for k
    using that by_bytes.query_bits [OF held, of k] by_bytes.query_bits [OF flt(2), of k] flt(3, 4) by auto
  ultimately show ?thesis
    using insert_chunk_keys [OF assms(1, 3, 4)] flt(1) f' by auto
qed

definition int32_writer :: "unit column_writer" where
  "int32_writer = \<lparr>cw_type = CARQUET_PHYSICAL_INT32, cw_type_length = 0, cw_max_def_level = 1,
     cw_bloom_filter = Some two_blocks, cw_bloom_ndv = 10, cw_bloom_fpp = ()\<rparr>"

theorem bloom_chunk_no_false_negatives_witness:
  "\<exists>f'. bloom_filter_insert_chunk scalar_simd int32_writer (PInt32 [7, 9]) 3 (Some [1, 0, 1]) = Done (Some f') \<and>
     carquet_bloom_filter_check_bytes (Some f') (le_store 4 (9 :: i32)) = Done True"
proof -
  have n: "present_values scalar_simd int32_writer 3 (Some [1, 0, 1]) = 2"
    by code_simp
  have keys: "column_keys int32_writer (PInt32 [7, 9]) = Some [le_store 4 (7 :: i32), le_store 4 (9 :: i32)]"
    by (simp add: column_keys_def int32_writer_def)
  have "cw_bloom_filter int32_writer = Some two_blocks"
    by (simp add: int32_writer_def)
  from bloom_chunk_no_false_negatives [OF this two_blocks_wf keys, of scalar_simd 3 "Some [1, 0, 1]"]
  show ?thesis
    unfolding n by auto
qed

text \<open>
  Rounding the requested size up to whole blocks wraps for the 31 largest sizes:
  such a request gives a filter with no block at all, and the first insertion into
  it writes outside its (empty) bit array.
\<close>

theorem bloom_create_wraps:
  assumes "2 ^ 64 - 32 < unat n" "alloc_grants al 32" "alloc_grants al 0"
  shows "\<exists>f. carquet_bloom_filter_create al n = Some f \<and> bf_num_blocks f = 0 \<and>
    carquet_bloom_filter_insert_hash (Some f) h = Invalid_Access"
proof -
  have n: "\<not> n < 32" and range: "unat n < 2 ^ 64"
    using assms(1) unat_less_exp [of n] by (simp_all add: word_less_nat_alt)
  have "unat (n + 31) = (unat n + 31) mod 2 ^ 64"
    by (simp add: unat_word_ariths)
  also have "\<dots> = unat n + 31 - 2 ^ 64"
    using assms(1) range by (simp add: le_mod_geq)
  finally have small: "unat (n + 31) < 32"
    using range by linarith
  have "unat ((n + 31) div 32) = 0"
    using small by (simp add: unat_div)
  then have "(n + 31) div 32 = 0"
    by (simp add: unat_eq_0)
  moreover have "n + 32 - 1 = n + 31"
    by simp
  ultimately have "(n + 32 - 1) div 32 * 32 = 0"
    by (simp only: mult_zero_left)
  then show ?thesis
    using n assms(2, 3)
    by (simp add: carquet_bloom_filter_create_def Let_def carquet_bloom_filter_insert_hash_def
        bloom_filter_block_insert_def load_u32_def upt_rec)
qed

theorem bloom_create_wraps_witness:
  "\<exists>f. carquet_bloom_filter_create generous (- 1) = Some f \<and> bf_num_blocks f = 0 \<and>
    carquet_bloom_filter_insert_hash (Some f) 7 = Invalid_Access"
  by (rule bloom_create_wraps) (simp_all add: generous_def unsigned_minus_1_eq_mask mask_eq_exp_minus_1)

end
