(* ===== verification/Encoder_State.thy ===== *)
theory Encoder_State
  imports Thrift_Wire
begin

text \<open>
  Writing and reading nested structs with the Thrift coders. \<open>enc_state\<close> follows an
  encoder through the writers: the field ids of the open structs and the bytes written
  so far. \<open>dec_state\<close> does the same for a decoder that reads without an error: the field ids and the
  bytes still to read. Each writer has one lemma that adds its bytes and each reader one
  that takes them off again, so that a struct is described by going through its code.
\<close>

section \<open>The encoder\<close>

text \<open>An encoder with \<open>ids\<close> the last field ids of the open structs, \<open>bs\<close> written since \<open>e0\<close>.\<close>

definition enc_state :: "allocator \<Rightarrow> thrift_encoder \<Rightarrow> thrift_encoder \<Rightarrow> i16 list \<Rightarrow> bytes \<Rightarrow> bool" where
  "enc_state al e0 e ids bs \<longleftrightarrow>
     enc_adds al e0 e bs \<and> enc_wf e \<and> enc_nesting_level e = length ids \<and>
     take (length ids) (enc_last_field_id e) = ids"

lemma enc_state_init:
  "enc_state al (thrift_encoder_init carquet_buffer_init) (thrift_encoder_init carquet_buffer_init) [] []"
  by (simp add: enc_state_def enc_adds_refl enc_wf_init) (simp add: thrift_encoder_init_def)

lemma enc_adds_wf: "enc_adds al e e' bs \<Longrightarrow> enc_wf e \<Longrightarrow> enc_wf e'"
  by (simp add: enc_adds_def)

lemma enc_state_i32:
  assumes "enc_state al e0 e ids bs"
  shows "enc_state al e0 (thrift_write_i32 al e v) ids (bs @ varint_bytes (carquet_zigzag_encode64 (scast v)))"
  using assms enc_adds_trans [OF _ write_int_adds(2)] enc_adds_wf [OF write_int_adds(2)]
  by (auto simp: enc_state_def)

lemma enc_state_begin:
  assumes "enc_state al e0 e ids bs" "length ids < 32"
  shows "enc_state al e0 (thrift_write_struct_begin e) (ids @ [0]) bs"
proof -
  have level: "enc_nesting_level e = length ids" and wf: "enc_wf e"
    using assms(1) by (simp_all add: enc_state_def)
  then have adds: "enc_adds al e (thrift_write_struct_begin e) []"
    using struct_begin_adds assms(2) by simp
  have "length (enc_last_field_id e) = 32"
    using wf by (simp add: enc_wf_def)
  then have "take (Suc (length ids)) ((enc_last_field_id e)[length ids := 0]) = ids @ [0]"
    using assms by (simp add: enc_state_def take_Suc_conv_app_nth)
  then show ?thesis
    using enc_adds_trans [OF _ adds] enc_adds_wf [OF adds wf] assms level
    by (auto simp: enc_state_def thrift_write_struct_begin_def)
qed

lemma enc_state_end:
  assumes "enc_state al e0 e (ids @ [l]) bs"
  shows "enc_state al e0 (thrift_write_struct_end al e) ids (bs @ [0])"
proof -
  have level: "enc_nesting_level e = Suc (length ids)" and wf: "enc_wf e"
    and ids: "take (Suc (length ids)) (enc_last_field_id e) = ids @ [l]"
    using assms by (simp_all add: enc_state_def)
  have "take (length ids) (enc_last_field_id e) = take (length ids) (take (Suc (length ids)) (enc_last_field_id e))"
    by (simp add: min_def)
  also have "\<dots> = ids"
    unfolding ids by simp
  finally have "take (length ids) (enc_last_field_id (thrift_write_struct_end al e)) = ids"
    by (simp add: thrift_write_struct_end_def thrift_write_field_stop_def Let_def)
  moreover have "enc_nesting_level (thrift_write_struct_end al e) = length ids"
    using level by (simp add: thrift_write_struct_end_def thrift_write_field_stop_def Let_def)
  ultimately show ?thesis
    using enc_adds_trans [OF _ struct_end_adds] enc_adds_wf [OF struct_end_adds wf] assms
    by (auto simp: enc_state_def)
qed

lemma enc_state_field:
  assumes "enc_state al e0 e (ids @ [l]) bs"
  shows "enc_state al e0 (thrift_write_field_header al e ty fid) (ids @ [fid]) (bs @ field_header_bytes l ty fid)"
proof -
  let ?e = "thrift_write_field_header al e ty fid"
  have level: "enc_nesting_level e = Suc (length ids)" and wf: "enc_wf e"
    and ids: "take (Suc (length ids)) (enc_last_field_id e) = ids @ [l]"
    using assms by (simp_all add: enc_state_def)
  have len: "length (enc_last_field_id e) = 32" "length ids < 32"
    using wf level by (simp_all add: enc_wf_def)
  have last: "enc_last_id e = l"
    using arg_cong [OF ids, of "\<lambda>xs. xs ! length ids"] level by (simp add: enc_last_id_def)
  have "enc_last_field_id ?e = (enc_last_field_id e)[length ids := fid]"
    using level by (simp add: thrift_write_field_header_def Let_def enc_set_last_id_def)
  moreover have "take (Suc (length ids)) ((enc_last_field_id e)[length ids := fid]) = ids @ [fid]"
    using arg_cong [OF ids, of "take (length ids)"] len
    by (simp add: take_Suc_conv_app_nth min_def)
  moreover have "enc_nesting_level ?e = Suc (length ids)"
    using level by (simp add: thrift_write_field_header_def Let_def enc_set_last_id_def)
  moreover have adds: "enc_adds al e ?e (field_header_bytes l ty fid)"
    using write_field_header_adds [of al e ty fid] last by simp
  ultimately show ?thesis
    using enc_adds_trans [OF _ adds] enc_adds_wf [OF adds wf] assms by (simp add: enc_state_def)
qed

lemma enc_state_i64:
  assumes "enc_state al e0 e ids bs"
  shows "enc_state al e0 (thrift_write_i64 al e v) ids (bs @ varint_bytes (carquet_zigzag_encode64 v))"
  using assms enc_adds_trans [OF _ write_int_adds(3)] enc_adds_wf [OF write_int_adds(3)]
  by (auto simp: enc_state_def)

lemma enc_state_bool:
  assumes "enc_state al e0 e ids bs"
  shows "enc_state al e0 (thrift_write_bool al e v) ids (bs @ [if v then 1 else 0])"
  using assms enc_adds_trans [OF _ write_byte_adds] enc_adds_wf [OF write_byte_adds]
  by (auto simp: enc_state_def thrift_write_bool_def)

lemma enc_state_binary:
  assumes "enc_state al e0 e ids bs" "length d < 2 ^ 31"
  shows "enc_state al e0 (thrift_write_binary al e (Some d) (word_of_nat (length d))) ids
    (bs @ varint_bytes (word_of_nat (length d) :: u64) @ d)"
  using assms enc_adds_trans [OF _ write_binary_adds [OF assms(2)]] enc_adds_wf [OF write_binary_adds [OF assms(2)]]
  by (auto simp: enc_state_def)

lemma enc_state_null:
  assumes "enc_state al e0 e ids bs"
  shows "enc_state al e0 (thrift_write_binary al e None 0) ids (bs @ [0])"
proof -
  have "varint_bytes (0 :: u64) = [0]"
    by (simp add: varint_bytes.simps)
  then have "enc_adds al e (thrift_write_binary al e None 0) [0]"
    using write_varint_adds [of al e 0] by (simp add: thrift_write_binary_def)
  from enc_adds_trans [OF _ this] enc_adds_wf [OF this] assms show ?thesis
    by (auto simp: enc_state_def)
qed

lemma list_begin_adds:
  assumes "n < 2 ^ 31"
  shows "enc_adds al e (thrift_write_list_begin al e et (word_of_nat n)) (list_header_bytes et n)"
proof -
  have s: "sint (word_of_nat n :: i32) = int n"
    using assms by (intro sint_of_nat_small) simp
  show ?thesis
  proof (cases "n < 15")
    case True
    have m: "(0x0F :: i32) = mask 4"
      by (simp add: mask_eq_exp_minus_1)
    have "(word_of_nat n :: i32) AND 0x0F = word_of_nat n"
      unfolding m using True by (intro and_mask_unat_self) (simp add: unat_of_nat)
    moreover have "(ucast (word_of_nat n :: i32) :: u8) = word_of_nat n"
      using True by (intro ucast_of_nat_small) simp_all
    ultimately show ?thesis
      using write_byte_adds True s by (simp add: thrift_write_list_begin_def list_header_bytes_def)
  next
    case False
    have "(scast (word_of_nat n :: i32) :: u64) = word_of_nat n"
      using assms by (intro scast_of_nat_small) simp
    then show ?thesis
      using enc_adds_trans [OF write_byte_adds write_varint_adds] False s
      by (simp add: thrift_write_list_begin_def list_header_bytes_def)
  qed
qed

lemma enc_state_list:
  assumes "enc_state al e0 e ids bs" "n < 2 ^ 31"
  shows "enc_state al e0 (thrift_write_list_begin al e et (word_of_nat n)) ids (bs @ list_header_bytes et n)"
proof -
  note adds = list_begin_adds [OF assms(2), of al e et]
  have "enc_nesting_level (thrift_write_list_begin al e et (word_of_nat n)) = enc_nesting_level e"
    "enc_last_field_id (thrift_write_list_begin al e et (word_of_nat n)) = enc_last_field_id e"
    by (simp_all add: thrift_write_list_begin_def)
  then show ?thesis
    using assms enc_adds_trans [OF _ adds] enc_adds_wf [OF adds] by (simp add: enc_state_def)
qed

text \<open>The buffer of an encoder that started empty, when nothing is refused.\<close>

lemma enc_state_contents:
  assumes "enc_state al (thrift_encoder_init carquet_buffer_init) e ids bs" "\<forall>n. alloc_grants al n" "length bs < 2 ^ 64"
  shows "buffer_contents (enc_buffer e) = bs"
proof -
  let ?e0 = "thrift_encoder_init carquet_buffer_init"
  have "enc_wf ?e0" "enc_output ?e0 = []"
    using enc_wf_init [OF buffer_wf_init] by (simp_all add: enc_output_def thrift_encoder_init_def)
  moreover have "enc_good ?e0"
    by (simp add: enc_good_def thrift_encoder_init_def carquet_buffer_init_def)
  ultimately show ?thesis
    using assms unfolding enc_state_def enc_adds_def enc_good_def by (auto simp: enc_output_def)
qed

section \<open>The decoder\<close>

definition dec_state :: "thrift_decoder \<Rightarrow> i16 list \<Rightarrow> bytes \<Rightarrow> bool" where
  "dec_state d ids r \<longleftrightarrow>
     dec_wf d \<and> dec_status d = CARQUET_OK \<and> \<not> dec_bool_pending d \<and> dec_nesting_level d = length ids \<and>
     take (length ids) (dec_last_field_id d) = ids \<and> dec_rest d = r"

lemma dec_state_init: "length bs < 2 ^ 63 \<Longrightarrow> dec_state (thrift_decoder_init bs) [] bs"
  by (simp add: dec_state_def dec_wf_init) (simp add: thrift_decoder_init_def thrift_decoder_init_reader_def)

text \<open>No scalar reader leaves a boolean pending.\<close>

lemma read_byte_raw_pending: "read_byte_raw d = (d', b) \<Longrightarrow> dec_bool_pending d' = dec_bool_pending d"
  by (auto simp: read_byte_raw_def dec_set_error_def split: if_splits sum.splits)

lemma varint_loop_pending: "varint_loop d shift acc = (d', v) \<Longrightarrow> dec_bool_pending d' = dec_bool_pending d"
proof (induction d shift acc rule: varint_loop.induct)
  case (1 d shift acc)
  obtain d1 b where r: "read_byte_raw d = (d1, b)" by fastforce
  show ?case
  proof (cases "shift < 64 \<and> has_bytes d 1 \<and> b AND 0x80 \<noteq> 0")
    case True
    then have "varint_loop d1 (shift + 7) (acc OR push_bit shift (ucast (b AND 0x7F))) = (d', v)"
      using "1.prems" varint_loop_byte [OF _ _ r, of shift acc] by auto
    then have "dec_bool_pending d' = dec_bool_pending d1"
      using True by (intro "1.IH" [OF _ _ r [symmetric] refl refl]) auto
    then show ?thesis
      using read_byte_raw_pending [OF r] by simp
  next
    case False
    then show ?thesis
      using "1.prems" r read_byte_raw_pending [OF r]
      by (auto simp: varint_loop.simps [of d] dec_set_error_def Let_def split: if_splits)
  qed
qed

lemma read_varint_pending: "thrift_read_varint d = (d', v) \<Longrightarrow> dec_bool_pending d' = dec_bool_pending d"
  unfolding thrift_read_varint_def by (rule varint_loop_pending)

text \<open>A reader that consumes \<open>bs\<close> and touches nothing else.\<close>

lemma dec_stateI:
  assumes "dec_state d ids (bs @ r)" "dec_wf d'" "dec_rest d' = r" "dec_status d' = dec_status d" "dec_frame d d'"
    "dec_bool_pending d' = dec_bool_pending d"
  shows "dec_state d' ids r"
  using assms by (simp add: dec_state_def dec_frame_def)

lemma dec_state_varint:
  assumes "dec_state d ids (varint_bytes (v :: u64) @ r)"
  obtains d' where "thrift_read_varint d = (d', v)" "dec_state d' ids r"
proof -
  obtain d' where d': "thrift_read_varint d = (d', v)" "dec_wf d'" "dec_rest d' = r" "dec_status d' = dec_status d"
    using read_varint_bytes [of d v r] assms by (auto simp: dec_state_def)
  show ?thesis
    by (rule that [OF d'(1) dec_stateI [OF assms d'(2-4) read_varint_frame [OF d'(1)] read_varint_pending [OF d'(1)]]])
qed

lemma dec_state_i64:
  assumes "dec_state d ids (varint_bytes (carquet_zigzag_encode64 v) @ r)"
  obtains d' where "thrift_read_i64 d = (d', v)" "dec_state d' ids r"
  by (rule dec_state_varint [OF assms])
    (auto intro: that simp: thrift_read_i64_def thrift_read_zigzag_def zigzag_decode_encode)

lemma dec_state_i32:
  assumes "dec_state d ids (varint_bytes (carquet_zigzag_encode64 (scast v)) @ r)"
  obtains d' where "thrift_read_i32 d = (d', v)" "dec_state d' ids r"
  by (rule dec_state_varint [OF assms])
    (auto intro: that simp: thrift_read_i32_def thrift_read_zigzag_def zigzag_decode_encode ucast_scast_up)

lemma dec_skip_pending: "dec_bool_pending (dec_skip d n) = dec_bool_pending d"
  by (simp add: dec_skip_def split: sum.split)

lemma read_binary_pending: "thrift_read_binary d = (d', x) \<Longrightarrow> dec_bool_pending d' = dec_bool_pending d"
  using read_varint_pending [of d]
  by (auto simp: thrift_read_binary_def Let_def dec_skip_pending dec_set_error_def split: if_splits prod.splits)

lemma dec_state_binary:
  assumes "dec_state d ids (varint_bytes (word_of_nat (length x) :: u64) @ x @ r)" "length x < 2 ^ 31"
  obtains d' where "thrift_read_binary d = (d', Some x, word_of_nat (length x))" "dec_state d' ids r"
proof -
  obtain d' where d': "thrift_read_binary d = (d', Some x, word_of_nat (length x))" "dec_wf d'" "dec_rest d' = r"
      "dec_status d' = dec_status d"
    using read_binary_bytes [of d x r] assms by (auto simp: dec_state_def)
  have "dec_state d ids ((varint_bytes (word_of_nat (length x) :: u64) @ x) @ r)"
    using assms(1) by simp
  from that [OF d'(1) dec_stateI [OF this d'(2-4) read_binary_frame [OF d'(1)] read_binary_pending [OF d'(1)]]]
  show ?thesis .
qed

lemma dec_state_byte:
  assumes "dec_state d ids (b # r)"
  obtains d' where "read_byte_raw d = (d', b)" "dec_state d' ids r"
proof -
  obtain rd where rd: "read_byte_raw d = (d\<lparr>dec_reader := rd\<rparr>, b)" "dec_wf (d\<lparr>dec_reader := rd\<rparr>)"
      "dec_rest (d\<lparr>dec_reader := rd\<rparr>) = r"
    using read_byte_raw_Cons [of d b r] assms by (auto simp: dec_state_def)
  have "dec_state (d\<lparr>dec_reader := rd\<rparr>) ids r"
    using assms rd(2, 3) by (simp add: dec_state_def)
  then show ?thesis
    by (rule that [OF rd(1)])
qed

lemma dec_state_bool:
  assumes "dec_state d ids ((if v then 1 else 0) # r)"
  obtains d' where "thrift_read_bool d = (d', v)" "dec_state d' ids r"
proof -
  have pending: "\<not> dec_bool_pending d"
    using assms by (simp add: dec_state_def)
  show ?thesis
    by (rule dec_state_byte [OF assms]) (use pending in \<open>auto intro: that simp: thrift_read_bool_def\<close>)
qed

lemma read_list_begin_pending:
  "thrift_read_list_begin d = (d', et, n) \<Longrightarrow> dec_bool_pending d' = dec_bool_pending d"
  by (auto simp: thrift_read_list_begin_def Let_def dec_set_error_def split: if_splits prod.splits
      dest!: read_byte_raw_pending read_varint_pending)

lemma dec_state_list:
  assumes "dec_state d ids (list_header_bytes et n @ r)" "n < 2 ^ 31" "n \<le> length r"
  obtains d' where "thrift_read_list_begin d = (d', et AND 0x0F, word_of_nat n)" "dec_state d' ids r"
proof -
  obtain d' where d': "thrift_read_list_begin d = (d', et AND 0x0F, word_of_nat n)" "dec_wf d'" "dec_rest d' = r"
      "dec_status d' = dec_status d"
    using read_list_begin_bytes [of d et n r] assms by (auto simp: dec_state_def)
  show ?thesis
    using read_list_begin_step_frame [OF d'(1)]
    by (intro that [OF d'(1) dec_stateI [OF assms(1) d'(2-4) _ read_list_begin_pending [OF d'(1)]]]) simp
qed

lemma dec_state_begin:
  assumes "dec_state d ids r" "length ids < THRIFT_MAX_NESTING"
  shows "dec_state (thrift_read_struct_begin d) (ids @ [0]) r"
  using assms by (auto simp: dec_state_def thrift_read_struct_begin_def dec_wf_def dec_rest_def take_Suc_conv_app_nth)

lemma dec_state_end:
  assumes "dec_state d (ids @ [l]) r"
  shows "dec_state (thrift_read_struct_end d) ids r"
proof -
  have "take (Suc (length ids)) (dec_last_field_id d) = ids @ [l]"
    using assms by (simp add: dec_state_def)
  then have "take (length ids) (dec_last_field_id d) = ids"
    by (metis butlast_snoc butlast_take diff_Suc_1 length_append_singleton length_take nat_le_linear take_all_iff min.absorb2)
  then show ?thesis
    using assms by (auto simp: dec_state_def thrift_read_struct_end_def dec_wf_def dec_rest_def)
qed

lemma read_i16_pending: "thrift_read_i16 d = (d', v) \<Longrightarrow> dec_bool_pending d' = dec_bool_pending d"
  using read_varint_pending [of d]
  by (auto simp: thrift_read_i16_def thrift_read_zigzag_def Let_def split: prod.splits)

lemma read_field_begin_pending:
  assumes "thrift_read_field_begin d = (d', Some (ty, fid))" "ty \<noteq> THRIFT_TYPE_TRUE" "ty \<noteq> THRIFT_TYPE_FALSE"
  shows "dec_bool_pending d' = dec_bool_pending d"
  using assms
  by (auto simp: thrift_read_field_begin_def Let_def dec_set_last_id_def split: if_splits prod.splits
      dest!: read_byte_raw_pending read_i16_pending)

lemma dec_state_field:
  assumes d: "dec_state d (ids @ [l]) (field_header_bytes l ty fid @ r)"
    and ty: "ty AND 0x0F = ty" "ty \<noteq> 0" "ty \<noteq> THRIFT_TYPE_TRUE" "ty \<noteq> THRIFT_TYPE_FALSE"
  obtains d' where "thrift_read_field_begin d = (d', Some (ty, fid))" "dec_state d' (ids @ [fid]) r"
proof -
  have w: "dec_wf d" "dec_status d = CARQUET_OK" "dec_nesting_level d = Suc (length ids)"
    and ids: "take (Suc (length ids)) (dec_last_field_id d) = ids @ [l]"
    using d by (simp_all add: dec_state_def)
  have len: "length ids < length (dec_last_field_id d)"
    using w by (simp add: dec_wf_def)
  have last: "dec_last_id d = l"
    using arg_cong [OF ids, of "\<lambda>xs. xs ! length ids"] w(3) by (simp add: dec_last_id_def)
  obtain e where e: "thrift_read_field_begin d = (dec_entered e ty fid, Some (ty, fid))" "dec_wf e" "dec_rest e = r"
      "dec_status e = CARQUET_OK" "dec_frame d e"
    using read_field_begin_bytes [OF w(1, 2) _ _ ty(1, 2), of fid r] w(3) d last by (auto simp: dec_state_def)
  have "dec_last_field_id (dec_entered e ty fid) = (dec_last_field_id d)[length ids := fid]"
    using e(5) w(3) ty(3, 4) by (simp add: dec_entered_def Let_def dec_set_last_id_def dec_frame_def)
  moreover have "take (Suc (length ids)) ((dec_last_field_id d)[length ids := fid]) = ids @ [fid]"
    using arg_cong [OF ids, of "take (length ids)"] len by (simp add: take_Suc_conv_app_nth min_def)
  moreover have "\<not> dec_bool_pending (dec_entered e ty fid)"
    using read_field_begin_pending [OF e(1) ty(3, 4)] d by (simp add: dec_state_def)
  ultimately have "dec_state (dec_entered e ty fid) (ids @ [fid]) r"
    using e w(3) by (simp add: dec_state_def dec_frame_def)
  then show ?thesis
    by (rule that [OF e(1)])
qed

lemma dec_state_stop:
  assumes "dec_state d ids (0 # r)"
  obtains d' where "thrift_read_field_begin d = (d', None)" "dec_state d' ids r"
proof -
  have status: "dec_status d = CARQUET_OK"
    using assms by (simp add: dec_state_def)
  show ?thesis
    by (rule dec_state_byte [OF assms]) (use status in \<open>auto intro: that simp: thrift_read_field_begin_def\<close>)
qed

end
