(* ===== verification/File_Access.thy ===== *)
theory File_Access
  imports Plain
begin

text \<open>
  What the writer and the reader of a file share: \<^verbatim>\<open>fwrite\<close> at the end of a file that
  is being written, with the position the writer keeps beside it, and the parts of
  \<^verbatim>\<open>reader/reader_internal.h\<close> and \<^verbatim>\<open>reader/file_reader.c\<close> with which the reader finds
  a column chunk and loads a region of the file, from a mapping or through the
  file handle. The last section puts the two together: a region that was
  written at a recorded position is the region the reader loads from it.
\<close>

section \<open>Definitions\<close>

subsection \<open>Writing\<close>

text \<open>
  The fields of the writer and of the per-column bookkeeping that the modelled code
  touches. \<open>fw_contents\<close> is what the file holds; \<^verbatim>\<open>fwrite\<close> is a parameter that says how
  many of the bytes it is given it writes after the present contents.
\<close>

type_synonym fwrite_fn = "bytes \<Rightarrow> bytes \<Rightarrow> nat"

record file_writer =
  fw_contents :: bytes
  fw_file_offset :: i64

record row_group_column_info =
  ci_has_bloom_filter_offset :: bool
  ci_bloom_filter_offset :: i64
  ci_has_bloom_filter_length :: bool
  ci_bloom_filter_length :: i32
  ci_has_column_index_offset :: bool
  ci_column_index_offset :: i64
  ci_has_column_index_length :: bool
  ci_column_index_length :: i32
  ci_has_offset_index_offset :: bool
  ci_offset_index_offset :: i64
  ci_has_offset_index_length :: bool
  ci_offset_index_length :: i32

definition fwrite :: "fwrite_fn \<Rightarrow> file_writer \<Rightarrow> bytes \<Rightarrow> file_writer \<times> nat" where
  "fwrite fw w bs =
     (let n = min (length bs) (fw (fw_contents w) bs) in
      (w\<lparr>fw_contents := fw_contents w @ take n bs\<rparr>, n))"

subsection \<open>The reader\<close>

datatype carquet_logical_type_id =
    CARQUET_LOGICAL_UNKNOWN
  | CARQUET_LOGICAL_STRING
  | CARQUET_LOGICAL_MAP
  | CARQUET_LOGICAL_LIST
  | CARQUET_LOGICAL_ENUM
  | CARQUET_LOGICAL_DECIMAL
  | CARQUET_LOGICAL_DATE
  | CARQUET_LOGICAL_TIME
  | CARQUET_LOGICAL_TIMESTAMP
  | CARQUET_LOGICAL_INTEGER
  | CARQUET_LOGICAL_NULL
  | CARQUET_LOGICAL_JSON
  | CARQUET_LOGICAL_BSON
  | CARQUET_LOGICAL_UUID
  | CARQUET_LOGICAL_FLOAT16
  | CARQUET_LOGICAL_VARIANT
  | CARQUET_LOGICAL_GEOMETRY
  | CARQUET_LOGICAL_GEOGRAPHY
  | CARQUET_LOGICAL_INTERVAL

text \<open>Of the parameters of a logical type only the signedness of an integer is used.\<close>

record carquet_logical_type =
  lt_id :: carquet_logical_type_id
  lt_is_signed :: bool

datatype carquet_converted_type =
    CARQUET_CONVERTED_NONE
  | CARQUET_CONVERTED_UTF8
  | CARQUET_CONVERTED_MAP
  | CARQUET_CONVERTED_MAP_KEY_VALUE
  | CARQUET_CONVERTED_LIST
  | CARQUET_CONVERTED_ENUM
  | CARQUET_CONVERTED_DECIMAL
  | CARQUET_CONVERTED_DATE
  | CARQUET_CONVERTED_TIME_MILLIS
  | CARQUET_CONVERTED_TIME_MICROS
  | CARQUET_CONVERTED_TIMESTAMP_MILLIS
  | CARQUET_CONVERTED_TIMESTAMP_MICROS
  | CARQUET_CONVERTED_UINT_8
  | CARQUET_CONVERTED_UINT_16
  | CARQUET_CONVERTED_UINT_32
  | CARQUET_CONVERTED_UINT_64
  | CARQUET_CONVERTED_INT_8
  | CARQUET_CONVERTED_INT_16
  | CARQUET_CONVERTED_INT_32
  | CARQUET_CONVERTED_INT_64
  | CARQUET_CONVERTED_JSON
  | CARQUET_CONVERTED_BSON
  | CARQUET_CONVERTED_INTERVAL

record parquet_schema_element =
  se_has_type :: bool
  se_type :: carquet_physical_type
  se_type_length :: i32
  se_has_converted_type :: bool
  se_converted_type :: carquet_converted_type
  se_has_logical_type :: bool
  se_logical_type :: carquet_logical_type

text \<open>\<open>schema_leaf_indices\<close> has one entry per leaf, the index of its element.\<close>

record carquet_schema =
  schema_elements :: "parquet_schema_element list"
  schema_leaf_indices :: "nat list"

text \<open>
  The fields of a column chunk and of its metadata, of a row group and of the
  reader that the modelled code reads. An open file is its contents, and a mapping is
  \<open>rd_file_size\<close> bytes long; \<^verbatim>\<open>fseek\<close> is a parameter.
\<close>

record column_chunk =
  cc_has_metadata :: bool
  cc_has_bloom_filter_offset :: bool
  cc_bloom_filter_offset :: i64
  cc_bloom_filter_length :: i32
  cc_has_column_index_offset :: bool
  cc_column_index_offset :: i64
  cc_has_column_index_length :: bool
  cc_column_index_length :: i32
  cc_has_offset_index_offset :: bool
  cc_offset_index_offset :: i64
  cc_has_offset_index_length :: bool
  cc_offset_index_length :: i32

record parquet_row_group =
  rg_num_rows :: i64
  rg_columns :: "column_chunk list"

record carquet_reader =
  rd_file_size :: u64
  rd_mmap_data :: "bytes option"
  rd_file :: "bytes option"
  rd_schema :: "carquet_schema option"
  rd_row_groups :: "parquet_row_group list"

definition reader_read_bytes ::
    "allocator \<Rightarrow> (i64 \<Rightarrow> bool) \<Rightarrow> carquet_reader \<Rightarrow> i64 \<Rightarrow> i32 \<Rightarrow> bytes outcome" where
  "reader_read_bytes al seeks rd offset n =
     (if sint n \<le> 0 then Inl CARQUET_ERROR_INVALID_ARGUMENT
      else if sint offset < 0 \<or> 2 ^ 63 - 1 - sint n < sint offset \<or>
        rd_file_size rd < offset \<or> rd_file_size rd - offset < scast n
      then Inl CARQUET_ERROR_FILE_READ
      else case rd_mmap_data rd of
        Some m \<Rightarrow> Inr (take (unat n) (drop (unat offset) m))
      | None \<Rightarrow>
          (case rd_file rd of
             None \<Rightarrow> Inl CARQUET_ERROR_INVALID_STATE
           | Some contents \<Rightarrow>
               if \<not> alloc_grants al (scast n) then Inl CARQUET_ERROR_OUT_OF_MEMORY
               else if \<not> seeks offset then Inl CARQUET_ERROR_FILE_SEEK
               else
                 let buf = take (unat n) (drop (unat offset) contents) in
                 if length buf \<noteq> unat n then Inl CARQUET_ERROR_FILE_READ else Inr buf))"

definition carquet_reader_num_row_groups :: "carquet_reader \<Rightarrow> i32" where
  "carquet_reader_num_row_groups rd = word_of_nat (length (rd_row_groups rd))"

definition carquet_reader_row_group_index_valid :: "carquet_reader \<Rightarrow> i32 \<Rightarrow> bool" where
  "carquet_reader_row_group_index_valid rd row_group_index \<longleftrightarrow>
     0 \<le> sint row_group_index \<and> sint row_group_index < int (length (rd_row_groups rd))"

definition reader_get_column_chunk :: "carquet_reader \<Rightarrow> i32 \<Rightarrow> i32 \<Rightarrow> column_chunk outcome" where
  "reader_get_column_chunk rd row_group_index column_index =
     (if \<not> carquet_reader_row_group_index_valid rd row_group_index
      then Inl CARQUET_ERROR_ROW_GROUP_NOT_FOUND
      else
        let rg = rg_columns (rd_row_groups rd ! unat row_group_index) in
        if sint column_index < 0 \<or> int (length rg) \<le> sint column_index
        then Inl CARQUET_ERROR_COLUMN_NOT_FOUND
        else Inr (rg ! unat column_index))"

section \<open>A region that was written is the region that is read\<close>

text \<open>A reader over the bytes \<open>bs\<close>, mapped or open.\<close>

definition reads_file :: "(i64 \<Rightarrow> bool) \<Rightarrow> carquet_reader \<Rightarrow> bytes \<Rightarrow> bool" where
  "reads_file seeks rd bs \<longleftrightarrow>
     (rd_mmap_data rd = Some bs \<or> rd_mmap_data rd = None \<and> rd_file rd = Some bs) \<and>
     unat (rd_file_size rd) = length bs \<and> (\<forall>off. seeks off)"

lemma read_region:
  assumes "reads_file seeks rd (pre @ region @ later)" "\<forall>k. alloc_grants al k"
    and "region \<noteq> []" "length region < 2 ^ 31" "length pre + 2 ^ 32 < 2 ^ 63"
  shows "reader_read_bytes al seeks rd (word_of_nat (length pre)) (word_of_nat (length region)) = Inr region"
proof -
  let ?off = "word_of_nat (length pre) :: i64" and ?len = "word_of_nat (length region) :: i32"
  have off: "unat ?off = length pre" "sint ?off = int (length pre)"
    using assms(5) sint_of_nat_small [where 'a = 64, of "length pre"] by (simp_all add: unat_of_nat)
  have len: "unat ?len = length region" "sint ?len = int (length region)"
    using assms(4) sint_of_nat_small [where 'a = 32, of "length region"] by (simp_all add: unat_of_nat)
  have len64: "unat (scast ?len :: u64) = length region"
    using assms(4) scast_of_nat_small [where 'a = 32 and 'b = 64, of "length region"] by (simp add: unat_of_nat)
  have whole: "unat (rd_file_size rd) = length pre + (length region + length later)"
    using assms(1) by (simp add: reads_file_def)
  then have "unat (rd_file_size rd - ?off) = length region + length later"
    using off(1) by (simp add: unat_sub word_le_nat_alt)
  then have sizes: "\<not> rd_file_size rd < ?off" "\<not> rd_file_size rd - ?off < scast ?len"
    using len64 whole off(1) by (simp_all add: word_less_nat_alt)
  have "0 < length region"
    using assms(3) by simp
  then have pos: "\<not> sint ?len \<le> 0" "\<not> sint ?off < 0"
    unfolding len(2) off(2) by linarith+
  have "int (length region) < 2147483648" "int (length pre) + 4294967296 < 9223372036854775808"
    using assms(4, 5) by simp_all
  then have last: "\<not> 2 ^ 63 - 1 - sint ?len < sint ?off"
    unfolding len(2) off(2) by simp
  show ?thesis
    using assms(1, 2) pos last sizes off(1) len(1) unfolding reads_file_def reader_read_bytes_def
    by (auto simp: Let_def)
qed

text \<open>A file that takes all it is given, and a column without any region.\<close>

definition all_taken :: fwrite_fn where
  "all_taken old bs = length bs"

definition no_regions :: row_group_column_info where
  "no_regions = \<lparr>ci_has_bloom_filter_offset = False, ci_bloom_filter_offset = 0,
     ci_has_bloom_filter_length = False, ci_bloom_filter_length = 0,
     ci_has_column_index_offset = False, ci_column_index_offset = 0,
     ci_has_column_index_length = False, ci_column_index_length = 0,
     ci_has_offset_index_offset = False, ci_offset_index_offset = 0,
     ci_has_offset_index_length = False, ci_offset_index_length = 0\<rparr>"

lemma fwrite_all:
  assumes "\<forall>old bs. length bs \<le> fw old bs"
  shows "fwrite fw w bs = (w\<lparr>fw_contents := fw_contents w @ bs\<rparr>, length bs)"
  using assms by (simp add: fwrite_def min_absorb1)

end
