(* ===== verification/Bloom_File.thy ===== *)
theory Bloom_File
  imports Bloom_Filter Encoder_State File_Access
begin

text \<open>
  A Bloom filter in a file: \<^verbatim>\<open>writer/file_writer.c\<close> puts a Thrift header in front of
  the bit array of each column's filter and records where the region is, and
  \<^verbatim>\<open>reader/file_reader.c\<close> finds it again with a small Thrift parser of its own. Both
  sides are modelled, the writer on the Thrift encoder of \<open>Thrift_Encode\<close>, and shown
  to fit together; the parser is also shown to be safe on arbitrary bytes.
\<close>

section \<open>Writing\<close>

text \<open>The header of one filter; the status of the encoder is not looked at.\<close>

definition bloom_header_encoder :: "allocator \<Rightarrow> u64 \<Rightarrow> thrift_encoder" where
  "bloom_header_encoder al bf_size =
     (let enc = thrift_encoder_init carquet_buffer_init;
          enc = thrift_write_struct_begin enc;
          enc = thrift_write_field_header al enc THRIFT_TYPE_I32 1;
          enc = thrift_write_i32 al enc (ucast bf_size);
          enc = thrift_write_field_header al enc THRIFT_TYPE_STRUCT 2;
          enc = thrift_write_struct_begin enc;
          enc = thrift_write_field_header al enc THRIFT_TYPE_STRUCT 1;
          enc = thrift_write_struct_begin enc;
          enc = thrift_write_struct_end al enc;
          enc = thrift_write_struct_end al enc;
          enc = thrift_write_field_header al enc THRIFT_TYPE_STRUCT 3;
          enc = thrift_write_struct_begin enc;
          enc = thrift_write_field_header al enc THRIFT_TYPE_STRUCT 1;
          enc = thrift_write_struct_begin enc;
          enc = thrift_write_struct_end al enc;
          enc = thrift_write_struct_end al enc;
          enc = thrift_write_field_header al enc THRIFT_TYPE_STRUCT 4;
          enc = thrift_write_struct_begin enc;
          enc = thrift_write_field_header al enc THRIFT_TYPE_STRUCT 1;
          enc = thrift_write_struct_begin enc;
          enc = thrift_write_struct_end al enc;
          enc = thrift_write_struct_end al enc in
      thrift_write_struct_end al enc)"

text \<open>One turn of the loop over the columns of the finished row group.\<close>

definition write_column_bloom ::
    "fwrite_fn \<Rightarrow> allocator \<Rightarrow> carquet_bloom_filter option \<Rightarrow> file_writer \<Rightarrow> row_group_column_info \<Rightarrow>
     file_writer \<times> row_group_column_info \<times> carquet_status" where
  "write_column_bloom fw al bf w chunk =
     (case bf of
        None \<Rightarrow> (w, chunk, CARQUET_OK)
      | Some f \<Rightarrow>
          (case carquet_bloom_filter_data bf of
             None \<Rightarrow> (w, chunk, CARQUET_OK)
           | Some raw \<Rightarrow>
               let bf_size = carquet_bloom_filter_size f in
               if bf_size = 0 then (w, chunk, CARQUET_OK)
               else
                 let header = buffer_contents (enc_buffer (bloom_header_encoder al bf_size));
                     chunk1 = chunk\<lparr>ci_has_bloom_filter_offset := True,
                       ci_bloom_filter_offset := fw_file_offset w,
                       ci_has_bloom_filter_length := True,
                       ci_bloom_filter_length := ucast (word_of_nat (length header) + bf_size)\<rparr>;
                     (w1, n1) = fwrite fw w header in
                 if n1 \<noteq> length header then (w1, chunk1, CARQUET_ERROR_FILE_WRITE)
                 else
                   let w2 = w1\<lparr>fw_file_offset := fw_file_offset w1 + word_of_nat (length header)\<rparr>;
                       (w3, n2) = fwrite fw w2 (take (unat bf_size) raw) in
                   if n2 \<noteq> unat bf_size then (w3, chunk1, CARQUET_ERROR_FILE_WRITE)
                   else (w3\<lparr>fw_file_offset := fw_file_offset w3 + bf_size\<rparr>, chunk1, CARQUET_OK)))"

fun write_bloom_filters ::
    "fwrite_fn \<Rightarrow> allocator \<Rightarrow> (carquet_bloom_filter option \<times> row_group_column_info) list \<Rightarrow> file_writer \<Rightarrow>
     file_writer \<times> row_group_column_info list \<times> carquet_status" where
  "write_bloom_filters fw al [] w = (w, [], CARQUET_OK)"
| "write_bloom_filters fw al ((bf, chunk) # cols) w =
     (case write_column_bloom fw al bf w chunk of
        (w1, chunk1, st) \<Rightarrow>
          if st \<noteq> CARQUET_OK then (w1, chunk1 # map snd cols, st)
          else case write_bloom_filters fw al cols w1 of (w2, chunks2, st2) \<Rightarrow> (w2, chunk1 # chunks2, st2))"

section \<open>Reading\<close>

subsection \<open>The header parser\<close>

text \<open>
  \<^verbatim>\<open>p\<close> is an index into the region. A read outside the region is an invalid access; it is
  the tests \<^verbatim>\<open>p < end\<close> that have to prevent it. A fixed-width field moves the index
  without a test, so it may end up beyond the region.
\<close>

definition read_at :: "bytes \<Rightarrow> nat \<Rightarrow> u8 access" where
  "read_at d p = (if p < length d then Done (d ! p) else Invalid_Access)"

function skip_cont :: "bytes \<Rightarrow> nat \<Rightarrow> nat access" where
  "skip_cont d p =
     (if p < length d
      then and_then (read_at d p) (\<lambda>b. if b AND 0x80 \<noteq> 0 then skip_cont d (Suc p) else Done p)
      else Done p)"
  by pat_completeness auto
termination
  by (relation "measure (\<lambda>(d, p). length d - p)") auto

declare skip_cont.simps [simp del]

definition skip_varint :: "bytes \<Rightarrow> nat \<Rightarrow> nat access" where
  "skip_varint d p = and_then (skip_cont d p) (\<lambda>q. Done (if q < length d then Suc q else q))"

function scan_varint :: "bytes \<Rightarrow> nat \<Rightarrow> u64 \<Rightarrow> nat \<Rightarrow> (u64 \<times> nat) access" where
  "scan_varint d p val shift =
     (if p < length d \<and> shift < 64
      then and_then (read_at d p) (\<lambda>b.
        let val' = val OR push_bit shift (ucast (b AND 0x7F)) in
        if b AND 0x80 = 0 then Done (val', Suc p) else scan_varint d (Suc p) val' (shift + 7))
      else Done (val, p))"
  by pat_completeness auto
termination
  by (relation "measure (\<lambda>(d, p, val, shift). length d - p)") auto

declare scan_varint.simps [simp del]

definition skip_binary :: "bytes \<Rightarrow> nat \<Rightarrow> nat access" where
  "skip_binary d p =
     and_then (scan_varint d p 0 0) (\<lambda>(len, q).
     Done (if word_of_nat (length d - q) < len then length d else q + unat len))"

text \<open>The wire types are compared as numbers, in the order of the code's tests.\<close>

definition skip_nested :: "bytes \<Rightarrow> nat \<Rightarrow> nat \<Rightarrow> nat access" where
  "skip_nested d st p =
     (if st = 5 then skip_varint d p
      else if st = 6 then skip_varint d p
      else if st = 8 then skip_binary d p
      else if st = 1 \<or> st = 2 then Done p
      else if st = 3 then Done (p + 1)
      else if st = 7 then Done (p + 8)
      else Done p)"

definition skip_other :: "bytes \<Rightarrow> nat \<Rightarrow> nat \<Rightarrow> nat access" where
  "skip_other d wire_type p =
     (if wire_type = 5 \<or> wire_type = 6 then skip_varint d p
      else if wire_type = 7 then Done (p + 8)
      else if wire_type = 3 then Done (p + 1)
      else if wire_type = 1 \<or> wire_type = 2 then Done p
      else if wire_type = 8 then skip_binary d p
      else Done p)"

text \<open>
  \<open>moves d k p a\<close>: the scan that started at \<open>p\<close> made valid accesses only and went forward, in a
  region of the address space at most \<open>k\<close> bytes past its end.
\<close>

definition moves :: "bytes \<Rightarrow> nat \<Rightarrow> nat \<Rightarrow> nat access \<Rightarrow> bool" where
  "moves d k p a \<longleftrightarrow> (\<exists>q. a = Done q \<and> p \<le> q \<and> (length d < 2 ^ 64 \<longrightarrow> q \<le> length d + k))"

lemma skip_cont_moves: "p \<le> length d \<Longrightarrow> \<exists>q. skip_cont d p = Done q \<and> p \<le> q \<and> q \<le> length d"
proof (induction d p rule: skip_cont.induct)
  case (1 d p)
  then show ?case
    by (subst skip_cont.simps) (fastforce simp: read_at_def)
qed

lemma skip_varint_moves: "p \<le> length d \<Longrightarrow> \<exists>q. skip_varint d p = Done q \<and> p \<le> q \<and> q \<le> length d"
  using skip_cont_moves [of p d] by (fastforce simp: skip_varint_def)

lemma scan_varint_moves:
  "p \<le> length d \<Longrightarrow> \<exists>v q. scan_varint d p val shift = Done (v, q) \<and> p \<le> q \<and> q \<le> length d"
proof (induction d p val shift rule: scan_varint.induct)
  case (1 d p val shift)
  then show ?case
    by (subst scan_varint.simps) (fastforce simp: read_at_def Let_def)
qed

text \<open>A length that does not fit is clamped to the end of the region.\<close>

lemma skip_binary_moves:
  assumes "p \<le> length d"
  shows "moves d 0 p (skip_binary d p)"
proof -
  obtain len q where s: "scan_varint d p 0 0 = Done (len, q)" "p \<le> q" "q \<le> length d"
    using scan_varint_moves [OF assms] by blast
  have "q + unat len \<le> length d" if "\<not> word_of_nat (length d - q) < len" "length d < 2 ^ 64"
  proof -
    have "unat (word_of_nat (length d - q) :: u64) = length d - q"
      using that(2) by (simp add: unat_of_nat take_bit_nat_eq_self del: of_nat_diff)
    then show ?thesis
      using that(1) s(3) by (simp only: word_less_nat_alt not_less)
  qed
  with s show ?thesis
    by (auto simp: skip_binary_def moves_def)
qed

lemma skip_field_moves:
  assumes "p \<le> length d"
  shows "moves d 8 p (skip_nested d ty p)" "moves d 8 p (skip_other d ty p)"
  using skip_varint_moves [OF assms] skip_binary_moves [OF assms] assms
  by (auto simp: skip_nested_def skip_other_def moves_def)

function nested_loop :: "bytes \<Rightarrow> nat \<Rightarrow> nat \<Rightarrow> nat access" where
  "nested_loop d p depth =
     (if p < length d \<and> 0 < depth
      then and_then (read_at d p) (\<lambda>sb.
        if sb = 0 then nested_loop d (Suc p) (depth - 1)
        else
          let st = unat (sb AND 0x0F); sd = unat (drop_bit 4 sb AND 0x0F) in
          and_then (if sd = 0 then skip_varint d (Suc p) else Done (Suc p)) (\<lambda>q.
          if st = 12 then nested_loop d q (depth + 1)
          else and_then (skip_nested d st q) (\<lambda>r. nested_loop d r depth)))
      else Done p)"
  by pat_completeness auto
termination
proof (relation "measure (\<lambda>(d, p, depth). length d - p)", goal_cases)
  case (3 d p depth sb st sd q)
  then show ?case
    using skip_varint_moves [of "Suc p" d] by (auto split: if_splits)
next
  case (4 d p depth sb st sd q r)
  then have "Suc p \<le> q" "q \<le> length d"
    using skip_varint_moves [of "Suc p" d] by (auto split: if_splits)
  then show ?case
    using 4 skip_field_moves(1) [of q d st] by (auto simp: moves_def)
qed auto

declare nested_loop.simps [simp del]

lemma nested_loop_moves:
  "(length d < 2 ^ 64 \<longrightarrow> p \<le> length d + 8) \<Longrightarrow> moves d 8 p (nested_loop d p depth)"
proof (induction d p depth rule: nested_loop.induct)
  case (1 d p depth)
  show ?case
  proof (cases "p < length d \<and> 0 < depth")
    case True
    then have read: "read_at d p = Done (d ! p)"
      by (simp add: read_at_def)
    let ?sb = "d ! p" and ?st = "unat (d ! p AND 0x0F)" and ?sd = "unat (drop_bit 4 (d ! p) AND 0x0F)"
    obtain q where q: "(if ?sd = 0 then skip_varint d (Suc p) else Done (Suc p)) = Done q" "Suc p \<le> q" "q \<le> length d"
      using True skip_varint_moves [of "Suc p" d] by (cases "?sd = 0") auto
    obtain r where r: "skip_nested d ?st q = Done r" "q \<le> r" "length d < 2 ^ 64 \<longrightarrow> r \<le> length d + 8"
      using skip_field_moves(1) [OF q(3), of ?st] by (auto simp: moves_def)
    note IH = "1.IH" [OF True read]
    have "moves d 8 (Suc p) (nested_loop d (Suc p) (depth - 1))" if "?sb = 0"
      using IH(1) [OF that] True by simp
    moreover have "moves d 8 q (nested_loop d q (depth + 1))" if "?sb \<noteq> 0" "?st = 12"
      using IH(2) [OF that(1) refl refl q(1) that(2)] q(3) by simp
    moreover have "moves d 8 r (nested_loop d r depth)" if "?sb \<noteq> 0" "?st \<noteq> 12"
      using IH(3) [OF that(1) refl refl q(1) that(2) r(1)] r(3) by simp
    ultimately show ?thesis
      using True read q r by (subst nested_loop.simps) (auto simp: Let_def moves_def)
  qed (use 1 in \<open>subst nested_loop.simps, auto simp: moves_def\<close>)
qed

function header_loop :: "bytes \<Rightarrow> nat \<Rightarrow> i32 \<Rightarrow> (nat \<times> i32) access" where
  "header_loop d p num_bytes =
     (if p < length d
      then and_then (read_at d p) (\<lambda>byte.
        if byte = 0 then Done (Suc p, num_bytes)
        else
          let wire_type = unat (byte AND 0x0F); delta = unat (drop_bit 4 byte AND 0x0F) in
          and_then (if delta = 0 \<and> Suc p < length d then skip_varint d (Suc p) else Done (Suc p)) (\<lambda>q.
          if wire_type = 5 \<and> num_bytes = 0
          then and_then (scan_varint d q 0 0) (\<lambda>(val, r).
            header_loop d r (ucast (drop_bit 1 val XOR - (val AND 1))))
          else if wire_type = 12 then and_then (nested_loop d q 1) (\<lambda>r. header_loop d r num_bytes)
          else and_then (skip_other d wire_type q) (\<lambda>r. header_loop d r num_bytes)))
      else Done (p, num_bytes))"
  by pat_completeness auto
termination
proof (relation "measure (\<lambda>(d, p, num_bytes). length d - p)", goal_cases)
  case (2 d p num_bytes byte wire_type delta q x val r)
  then have "Suc p \<le> q" "q \<le> length d"
    using skip_varint_moves [of "Suc p" d] by (auto split: if_splits)
  then show ?case
    using 2 scan_varint_moves [of q d 0 0] by auto
next
  case (3 d p num_bytes byte wire_type delta q r)
  then have "Suc p \<le> q" "q \<le> length d"
    using skip_varint_moves [of "Suc p" d] by (auto split: if_splits)
  then show ?case
    using 3 nested_loop_moves [of d q 1] by (auto simp: moves_def)
next
  case (4 d p num_bytes byte wire_type delta q r)
  then have "Suc p \<le> q" "q \<le> length d"
    using skip_varint_moves [of "Suc p" d] by (auto split: if_splits)
  then show ?case
    using 4 skip_field_moves(2) [of q d wire_type] by (auto simp: moves_def)
qed auto

declare header_loop.simps [simp del]

lemma header_loop_moves:
  "(length d < 2 ^ 64 \<longrightarrow> p \<le> length d + 8) \<Longrightarrow>
   \<exists>q n. header_loop d p num_bytes = Done (q, n) \<and> (length d < 2 ^ 64 \<longrightarrow> q \<le> length d + 8)"
proof (induction d p num_bytes rule: header_loop.induct)
  case (1 d p num_bytes)
  show ?case
  proof (cases "p < length d \<and> d ! p \<noteq> 0")
    case True
    then have read: "p < length d" "read_at d p = Done (d ! p)" "d ! p \<noteq> 0"
      by (simp_all add: read_at_def)
    let ?ty = "unat (d ! p AND 0x0F)" and ?delta = "unat (drop_bit 4 (d ! p) AND 0x0F)"
    obtain q where q: "(if ?delta = 0 \<and> Suc p < length d then skip_varint d (Suc p) else Done (Suc p)) = Done q"
        "q \<le> length d"
      using True skip_varint_moves [of "Suc p" d] by (cases "?delta = 0 \<and> Suc p < length d") auto
    note IH = "1.IH" [OF read refl refl q(1)]
    obtain v r where r: "scan_varint d q 0 0 = Done (v, r)" "r \<le> length d"
      using scan_varint_moves [OF q(2)] by blast
    obtain s where s: "nested_loop d q 1 = Done s" "length d < 2 ^ 64 \<longrightarrow> s \<le> length d + 8"
      using nested_loop_moves [of d q 1] q(2) by (auto simp: moves_def)
    obtain t where t: "skip_other d ?ty q = Done t" "length d < 2 ^ 64 \<longrightarrow> t \<le> length d + 8"
      using skip_field_moves(2) [OF q(2), of ?ty] by (auto simp: moves_def)
    show ?thesis
      using read q(1) r s t IH(1) [OF _ r(1) refl] IH(2) [OF _ _ s(1)] IH(3) [OF _ _ t(1)]
      by (subst header_loop.simps) (auto simp: Let_def)
  qed (use 1 in \<open>subst header_loop.simps, auto simp: read_at_def\<close>)
qed

subsection \<open>The reader\<close>

text \<open>
  A NULL result that sets an error is \<open>Inl\<close>, one that sets none (the column has no
  filter) is \<open>Inr None\<close>.
\<close>

definition bloom_from_region :: "allocator \<Rightarrow> bytes \<Rightarrow> carquet_bloom_filter outcome access" where
  "bloom_from_region al data =
     and_then (header_loop data 0 0) (\<lambda>(header_size, num_bytes).
     Done (if sint num_bytes \<le> 0 \<or> length data < header_size + unat num_bytes
           then Inl CARQUET_ERROR_INVALID_METADATA
           else carquet_bloom_filter_read al (Some (drop header_size data)) (ucast num_bytes)))"

definition carquet_reader_get_bloom_filter ::
    "allocator \<Rightarrow> (i64 \<Rightarrow> bool) \<Rightarrow> carquet_reader \<Rightarrow> i32 \<Rightarrow> i32 \<Rightarrow>
     carquet_bloom_filter option outcome access" where
  "carquet_reader_get_bloom_filter al seeks rd row_group_index column_index =
     (case reader_get_column_chunk rd row_group_index column_index of
        Inl e \<Rightarrow> Done (Inl e)
      | Inr chunk \<Rightarrow>
          if \<not> cc_has_metadata chunk then Done (Inl CARQUET_ERROR_INVALID_METADATA)
          else if \<not> cc_has_bloom_filter_offset chunk \<or> sint (cc_bloom_filter_length chunk) \<le> 0 then Done (Inr None)
          else (case reader_read_bytes al seeks rd (cc_bloom_filter_offset chunk) (cc_bloom_filter_length chunk) of
             Inl e \<Rightarrow> Done (Inl e)
           | Inr data \<Rightarrow>
               and_then (bloom_from_region al data) (\<lambda>r.
               Done (case r of Inl e \<Rightarrow> Inl e | Inr f \<Rightarrow> Inr (Some f)))))"

section \<open>The header in bytes\<close>

definition bloom_header_bytes :: "u64 \<Rightarrow> bytes" where
  "bloom_header_bytes bf_size =
     0x15 # varint_bytes (carquet_zigzag_encode64 (scast (ucast bf_size :: i32))) @
     [0x1C, 0x1C, 0, 0, 0x1C, 0x1C, 0, 0, 0x1C, 0x1C, 0, 0, 0]"

lemma field_header_next:
  "field_header_bytes 0 5 1 = [0x15]" "field_header_bytes 0 12 1 = [0x1C]"
  "field_header_bytes 1 12 2 = [0x1C]" "field_header_bytes 2 12 3 = [0x1C]"
  "field_header_bytes 3 12 4 = [0x1C]"
  by (simp_all add: field_header_bytes_def)

text \<open>A field that holds a struct whose only field is an empty struct.\<close>

lemma enc_state_union:
  assumes "enc_state al e0 e (ids @ [l]) bs" "length ids < 30"
  shows "enc_state al e0
    (thrift_write_struct_end al (thrift_write_struct_end al (thrift_write_struct_begin
      (thrift_write_field_header al (thrift_write_struct_begin
        (thrift_write_field_header al e 12 fid)) 12 1))))
    (ids @ [fid]) (bs @ field_header_bytes l 12 fid @ [0x1C, 0, 0])"
proof -
  note 1 = enc_state_field [OF assms(1), of 12 fid]
  have 2: "enc_state al e0 (thrift_write_struct_begin (thrift_write_field_header al e 12 fid))
      ((ids @ [fid]) @ [0]) (bs @ field_header_bytes l 12 fid)"
    by (rule enc_state_begin [OF 1]) (use assms(2) in simp)
  note 3 = enc_state_field [OF 2, of 12 1]
  have 4: "enc_state al e0 (thrift_write_struct_begin (thrift_write_field_header al
      (thrift_write_struct_begin (thrift_write_field_header al e 12 fid)) 12 1))
      (((ids @ [fid]) @ [1]) @ [0]) ((bs @ field_header_bytes l 12 fid) @ field_header_bytes 0 12 1)"
    by (rule enc_state_begin [OF 3]) (use assms(2) in simp)
  from enc_state_end [OF enc_state_end [OF 4]] show ?thesis
    by (simp add: field_header_next)
qed

lemma bloom_header_state:
  "enc_state al (thrift_encoder_init carquet_buffer_init) (bloom_header_encoder al n) [] (bloom_header_bytes n)"
proof -
  have 1: "enc_state al (thrift_encoder_init carquet_buffer_init)
      (thrift_write_struct_begin (thrift_encoder_init carquet_buffer_init)) ([] @ [0]) []"
    by (rule enc_state_begin [OF enc_state_init]) simp
  note 2 = enc_state_i32 [OF enc_state_field [OF 1, of 5 1], of "ucast n"]
  note union = enc_state_union [where ids = "[]", simplified]
  from enc_state_end [where ids = "[]", simplified,
      OF union [OF union [OF union [OF 2 [simplified], of 2], of 3], of 4]]
  show ?thesis
    by (simp add: bloom_header_encoder_def bloom_header_bytes_def field_header_next)
qed

lemma length_bloom_header: "length (bloom_header_bytes n) \<le> 24"
  using length_varint_bytes [of 10 "carquet_zigzag_encode64 (scast (ucast n :: i32))"]
    unat_less_exp [of "carquet_zigzag_encode64 (scast (ucast n :: i32))"]
  by (simp add: bloom_header_bytes_def)

lemma bloom_header_written:
  assumes "\<forall>k. alloc_grants al k"
  shows "buffer_contents (enc_buffer (bloom_header_encoder al n)) = bloom_header_bytes n"
proof -
  let ?e0 = "thrift_encoder_init carquet_buffer_init"
  have adds: "enc_adds al ?e0 (bloom_header_encoder al n) (bloom_header_bytes n)"
    using bloom_header_state by (simp add: enc_state_def)
  have e0: "enc_wf ?e0" "enc_good ?e0" "enc_output ?e0 = []"
    using enc_wf_init [OF buffer_wf_init]
    by (simp_all add: enc_good_def enc_output_def thrift_encoder_init_def
        carquet_buffer_init_def buffer_contents_def)
  have "length (bloom_header_bytes n) < 2 ^ 64"
    using length_bloom_header [of n] by simp
  then have "enc_status (bloom_header_encoder al n) = CARQUET_OK"
    using adds e0 assms by (simp add: enc_adds_def enc_good_def)
  then show ?thesis
    using adds e0 by (simp add: enc_adds_def enc_output_def)
qed

section \<open>Parsing the header\<close>

lemma scan_varint_varint_scan:
  assumes "varint_scan k shift val (drop p d) = Some (r, rest)" "shift + 7 * k = 70"
  shows "scan_varint d p val shift = Done (r, length d - length rest)"
  using assms
proof (induction k arbitrary: p shift val)
  case (Suc k)
  then have p: "p < length d"
    by (cases "p < length d") auto
  then have drop: "drop p d = d ! p # drop (Suc p) d"
    by (simp add: Cons_nth_drop_Suc)
  show ?case
    using Suc p by (subst scan_varint.simps) (auto simp: read_at_def drop Let_def split: if_splits)
qed simp

lemma nth_of_drop: "drop q d = b # r \<Longrightarrow> q < length d \<and> d ! q = b \<and> drop (Suc q) d = r"
  by (metis Cons_nth_drop_Suc drop_all list.distinct(1) list.inject not_le)

lemma header_loop_union:
  assumes "drop q d = 0x1C # 0x1C # 0 # 0 # r"
  shows "header_loop d q n = header_loop d (q + 4) n"
proof -
  have 1: "q < length d" "d ! q = 0x1C" "drop (Suc q) d = 0x1C # 0 # 0 # r"
    using nth_of_drop [OF assms] by simp_all
  have 2: "Suc q < length d" "d ! Suc q = 0x1C" "drop (Suc (Suc q)) d = 0 # 0 # r"
    using nth_of_drop [OF 1(3)] by simp_all
  have 3: "Suc (Suc q) < length d" "d ! Suc (Suc q) = 0" "drop (Suc (Suc (Suc q))) d = 0 # r"
    using nth_of_drop [OF 2(3)] by simp_all
  have 4: "Suc (Suc (Suc q)) < length d" "d ! Suc (Suc (Suc q)) = 0"
    using nth_of_drop [OF 3(3)] by simp_all
  have "nested_loop d (Suc q) 1 = Done (q + 4)"
    using 2 3 4 by (simp add: nested_loop.simps [of d "Suc q"] nested_loop.simps [of d "Suc (Suc q)"]
        nested_loop.simps [of d "Suc (Suc (Suc q))"] nested_loop.simps [of d "Suc (Suc (Suc (Suc q)))"] read_at_def)
  then show ?thesis
    using 1 by (subst header_loop.simps) (simp add: read_at_def)
qed

lemma header_loop_bytes:
  assumes "unat n < 2 ^ 31"
  shows "header_loop (bloom_header_bytes n @ raw) 0 0 = Done (length (bloom_header_bytes n), ucast n)"
proof -
  let ?z = "carquet_zigzag_encode64 (scast (ucast n :: i32))"
  let ?d = "bloom_header_bytes n @ raw"
  let ?tail = "[0x1C, 0x1C, 0, 0, 0x1C, 0x1C, 0, 0, 0x1C, 0x1C, 0, 0, 0] @ raw"
  let ?q = "Suc (length (varint_bytes ?z))"
  have "varint_scan 10 0 0 (varint_bytes ?z @ ?tail) = Some (?z, ?tail)"
    using unat_less_exp [of ?z] by (simp add: varint_scan_zero)
  then have scan: "scan_varint ?d 1 0 0 = Done (?z, ?q)"
    using scan_varint_varint_scan [of 10 0 0 1 ?d ?z ?tail] by (simp add: bloom_header_bytes_def)
  have dec: "drop_bit 1 ?z XOR - (?z AND 1) = scast (ucast n :: i32)"
    using zigzag_decode_encode(2) [of "scast (ucast n :: i32)"] by (simp only: carquet_zigzag_decode64_def)
  have "(scast (word_of_nat (unat n) :: i32) :: i64) = word_of_nat (unat n)"
    by (rule scast_of_nat_small) (use assms in simp)
  then have "(scast (ucast n :: i32) :: i64) = n"
    by simp
  then have step: "header_loop ?d 0 0 = header_loop ?d ?q (ucast n)"
    using scan dec by (subst header_loop.simps) (simp add: bloom_header_bytes_def read_at_def)
  have d0: "drop ?q ?d = ?tail"
    by (simp add: bloom_header_bytes_def)
  have d: "drop (?q + k) ?d = drop k ?tail" for k
    using arg_cong [OF d0, of "drop k"] by (simp only: drop_drop add.commute)
  have "header_loop ?d ?q (ucast n) = header_loop ?d (?q + 4) (ucast n)"
    by (rule header_loop_union) (use d0 in simp)
  also have "\<dots> = header_loop ?d (?q + 4 + 4) (ucast n)"
    by (rule header_loop_union) (unfold d, simp)
  also have "\<dots> = header_loop ?d (?q + 4 + 4 + 4) (ucast n)"
    by (rule header_loop_union) (unfold add.assoc d, simp)
  also have "\<dots> = Done (?q + 13, ucast n)"
  proof -
    have "drop (?q + 4 + 4 + 4) ?d = 0 # raw"
      by (unfold add.assoc d) simp
    from nth_of_drop [OF this] show ?thesis
      by (subst header_loop.simps) (simp add: read_at_def)
  qed
  finally show ?thesis
    using step by (simp add: bloom_header_bytes_def)
qed

section \<open>Properties\<close>

lemma sint_of_small:
  fixes v :: "'a::len word"
  assumes "unat v = n" "n < 2 ^ (LENGTH('a) - 1)"
  shows "sint v = int n"
proof -
  have "v = word_of_nat n"
    by (simp flip: assms(1))
  then show ?thesis
    using sint_of_nat_small [OF assms(2)] by simp
qed

text \<open>What one turn of the writer's loop appends when the device takes everything.\<close>

lemma write_column_bloom_appends:
  assumes "\<forall>k. alloc_grants al k" "\<forall>old bs. length bs \<le> fw old bs" "bloom_wf f" "bf_data f = Some mem"
  shows "write_column_bloom fw al (Some f) w chunk =
    (\<lparr>fw_contents = fw_contents w @ bloom_header_bytes (bf_num_bytes f) @ mem,
      fw_file_offset = fw_file_offset w + word_of_nat (length (bloom_header_bytes (bf_num_bytes f))) + bf_num_bytes f\<rparr>,
     chunk\<lparr>ci_has_bloom_filter_offset := True, ci_bloom_filter_offset := fw_file_offset w,
       ci_has_bloom_filter_length := True,
       ci_bloom_filter_length := ucast (word_of_nat (length (bloom_header_bytes (bf_num_bytes f))) + bf_num_bytes f)\<rparr>,
     CARQUET_OK)"
proof -
  have size: "bf_num_bytes f \<noteq> 0" "length mem = unat (bf_num_bytes f)"
    using assms(3, 4) by (auto simp: bloom_wf_def)
  note all = fwrite_all [OF assms(2)]
  show ?thesis
    using assms(1, 4) size
    by (simp add: write_column_bloom_def carquet_bloom_filter_data_def carquet_bloom_filter_size_def
        bloom_header_written all Let_def)
qed

lemma bloom_region_read:
  assumes "bloom_wf f" "bf_data f = Some mem" "unat (bf_num_bytes f) < 2 ^ 31" "\<forall>k. alloc_grants al k"
  shows "\<exists>g. bloom_from_region al (bloom_header_bytes (bf_num_bytes f) @ mem) = Done (Inr g) \<and>
    bf_data g = bf_data f \<and> bf_num_bytes g = bf_num_bytes f \<and> bf_num_blocks g = bf_num_blocks f"
proof -
  let ?n = "bf_num_bytes f"
  have wf: "unat ?n = 32 * unat (bf_num_blocks f)" "0 < unat (bf_num_blocks f)" "length mem = unat ?n"
    using assms(1, 2) by (simp_all add: bloom_wf_def)
  have small: "unat (ucast ?n :: i32) = unat ?n"
    by (rule unat_ucast_small) (use assms(3) in simp)
  then have "sint (ucast ?n :: i32) = int (unat ?n)"
    using assms(3) sint_of_nat_small [where 'a = 32, of "unat ?n"] by simp
  moreover have "0 < unat ?n"
    using wf by simp
  ultimately have "\<not> sint (ucast ?n :: i32) \<le> 0"
    by linarith
  then have loop: "bloom_from_region al (bloom_header_bytes ?n @ mem) =
      Done (carquet_bloom_filter_read al (Some mem) (ucast (ucast ?n :: i32)))"
    using wf(3) small by (simp add: bloom_from_region_def header_loop_bytes [OF assms(3)])
  have same: "(ucast (ucast ?n :: i32) :: u64) = ?n"
    using small by (simp add: word_eq_iff_unsigned [where ?'a = nat] unat_ucast_up)
  have "\<not> ?n < 32"
    using wf by (simp add: word_less_nat_alt)
  moreover have "?n mod 32 = 0"
    using wf by (simp add: word_eq_iff_unsigned [where ?'a = nat] unat_mod)
  moreover have "?n div 32 = bf_num_blocks f"
    using wf by (simp add: word_eq_iff_unsigned [where ?'a = nat] unat_div)
  ultimately show ?thesis
    unfolding loop same using assms(2, 4) wf(3)
    by (simp add: carquet_bloom_filter_read_def carquet_bloom_filter_from_data_def)
qed

text \<open>
  C10: A filter that the writer puts into the file is the filter the reader gets: if
  the column's metadata carries the offset and length the writer recorded, the file
  still holds the region and the allocations succeed, then reading the filter of the
  column, through the file or a mapping of it, gives the same bit array, so every query has the same answer, whatever else
  was written before and after the region.
\<close>

theorem bloom_file_roundtrip:
  assumes al: "\<forall>k. alloc_grants al k" and fw: "\<forall>old bs. length bs \<le> fw old bs"
    and f: "bloom_wf f" "unat (bf_num_bytes f) < 2 ^ 31 - 32"
    and w: "fw_file_offset w = word_of_nat (length (fw_contents w))" "length (fw_contents w) + 2 ^ 32 < 2 ^ 63"
    and run: "write_column_bloom fw al (Some f) w chunk = (w', chunk', st)"
    and rd: "reads_file seeks rd (fw_contents w' @ later)"
    and col: "reader_get_column_chunk rd r c = Inr col" "cc_has_metadata col"
      "cc_has_bloom_filter_offset col = ci_has_bloom_filter_offset chunk'"
      "cc_bloom_filter_offset col = ci_bloom_filter_offset chunk'"
      "cc_bloom_filter_length col = ci_bloom_filter_length chunk'"
  shows "st = CARQUET_OK \<and>
    (\<exists>g. carquet_reader_get_bloom_filter al seeks rd r c = Done (Inr (Some g)) \<and>
       bf_data g = bf_data f \<and> bf_num_blocks g = bf_num_blocks f \<and>
       (\<forall>h. carquet_bloom_filter_check_hash (Some g) h = carquet_bloom_filter_check_hash (Some f) h))"
proof -
  obtain mem where mem: "bf_data f = Some mem"
    using f(1) by (rule bloom_wf_data)
  let ?n = "bf_num_bytes f" and ?hd = "bloom_header_bytes (bf_num_bytes f)"
  let ?region = "?hd @ mem" and ?off = "word_of_nat (length (fw_contents w)) :: i64"
  let ?len = "ucast (word_of_nat (length ?hd) + ?n) :: i32"
  note out = run [unfolded write_column_bloom_appends [OF al fw f(1) mem]]
  have memlen: "length mem = unat ?n"
    using f(1) mem by (simp add: bloom_wf_def)
  have small: "length ?region < 2 ^ 31"
    using length_bloom_header [of ?n] memlen f(2) by simp
  have "word_of_nat (length ?hd) + ?n = word_of_nat (length ?region)"
    using memlen by simp
  moreover have "ucast (word_of_nat (length ?region) :: u64) = (word_of_nat (length ?region) :: i32)"
    using small by (intro ucast_of_nat_small) simp_all
  ultimately have len: "?len = word_of_nat (length ?region)"
    by metis
  have "\<not> sint ?len \<le> 0"
    unfolding len using small sint_of_nat_small [where 'a = 32, of "length ?region"]
    by (simp add: bloom_header_bytes_def)
  moreover have "reader_read_bytes al seeks rd ?off ?len = Inr ?region"
    unfolding len using rd out small w(2) by (intro read_region [OF _ al]) (auto simp: bloom_header_bytes_def)
  moreover have "st = CARQUET_OK" "ci_bloom_filter_offset chunk' = ?off" "ci_bloom_filter_length chunk' = ?len"
      "ci_has_bloom_filter_offset chunk'"
    using out w(1) by auto
  moreover obtain g where "bloom_from_region al ?region = Done (Inr g)" "bf_data g = bf_data f"
      "bf_num_blocks g = bf_num_blocks f"
    using bloom_region_read [OF f(1) mem _ al] f(2) by auto
  ultimately show ?thesis
    using col by (simp add: carquet_reader_get_bloom_filter_def carquet_bloom_filter_check_hash_def cong: option.case_cong)
qed

definition bloom_chunk :: "i64 \<Rightarrow> i32 \<Rightarrow> column_chunk" where
  "bloom_chunk offset n = \<lparr>cc_has_metadata = True, cc_has_bloom_filter_offset = True,
     cc_bloom_filter_offset = offset, cc_bloom_filter_length = n,
     cc_has_column_index_offset = False, cc_column_index_offset = 0,
     cc_has_column_index_length = False, cc_column_index_length = 0,
     cc_has_offset_index_offset = False, cc_offset_index_offset = 0,
     cc_has_offset_index_length = False, cc_offset_index_length = 0\<rparr>"

text \<open>The 64-byte filter after a four-byte magic: the region starts at 4 and is 80 bytes long.\<close>

lemma bloom_header_64: "bloom_header_bytes 64 = [0x15, 0x80, 1, 0x1C, 0x1C, 0, 0, 0x1C, 0x1C, 0, 0, 0x1C, 0x1C, 0, 0, 0]"
  by code_simp

theorem bloom_file_roundtrip_witness:
  "\<exists>w'. fst (write_column_bloom all_taken generous (Some two_blocks) \<lparr>fw_contents = [80, 65, 82, 49], fw_file_offset = 4\<rparr> no_regions) = w' \<and>
     (\<exists>g. carquet_reader_get_bloom_filter generous (\<lambda>_. True)
        \<lparr>rd_file_size = 86, rd_mmap_data = None, rd_file = Some (fw_contents w' @ [1, 2]), rd_schema = None,
         rd_row_groups = [\<lparr>rg_num_rows = 7, rg_columns = [bloom_chunk 4 80]\<rparr>]\<rparr> 0 0 = Done (Inr (Some g)) \<and>
        bf_data g = Some (replicate 64 0))"
proof -
  let ?w = "\<lparr>fw_contents = [80, 65, 82, 49], fw_file_offset = 4\<rparr> :: file_writer"
  have al: "\<forall>k. alloc_grants generous k" and fw: "\<forall>old bs. length bs \<le> all_taken old bs"
    by (simp_all add: generous_def all_taken_def)
  have data: "bf_data two_blocks = Some (replicate 64 0)" "bf_num_bytes two_blocks = 64"
    by (simp_all add: two_blocks_def)
  note run = write_column_bloom_appends [OF al fw two_blocks_wf data(1), of ?w no_regions,
      unfolded data(2) bloom_header_64]
  have w: "fw_file_offset ?w = word_of_nat (length (fw_contents ?w))" "length (fw_contents ?w) + 2 ^ 32 < 2 ^ 63"
    and n: "unat (bf_num_bytes two_blocks) < 2 ^ 31 - 32"
    by (simp_all add: two_blocks_def)
  show ?thesis
    using bloom_file_roundtrip [OF al fw two_blocks_wf n w run, where r = 0 and c = 0 and later = "[1, 2]" and
        seeks = "\<lambda>_. True" and col = "bloom_chunk 4 80" and
        rd = "\<lparr>rd_file_size = 86, rd_mmap_data = None,
          rd_file = Some ((fw_contents ?w @ [0x15, 0x80, 1, 0x1C, 0x1C, 0, 0, 0x1C, 0x1C, 0, 0, 0x1C, 0x1C, 0, 0, 0] @ replicate 64 0) @ [1, 2]),
          rd_schema = None, rd_row_groups = [\<lparr>rg_num_rows = 7, rg_columns = [bloom_chunk 4 80]\<rparr>]\<rparr>"] run data(1)
    by (auto simp: reader_get_column_chunk_def carquet_reader_row_group_index_valid_def no_regions_def
        bloom_chunk_def reads_file_def)
qed

text \<open>
  C30: The parser is safe on any region. Its loops end, every byte they look at lies in the region, and the
  position they end at is at most eight bytes past it. A header that promises more bytes than follow it,
  or no positive number of them, is refused as invalid metadata; otherwise the filter that comes out is
  well-formed and its bit array is the slice of the region that the header announces, so that queries on it stay
  in bounds.
\<close>

theorem bloom_region_safe:
  assumes "length data < 2 ^ 64"
  shows "\<exists>p n r. header_loop data 0 0 = Done (p, n) \<and> p \<le> length data + 8 \<and> bloom_from_region al data = Done r \<and>
    (if sint n \<le> 0 \<or> length data < p + unat n then r = Inl CARQUET_ERROR_INVALID_METADATA
     else case r of
         Inl e \<Rightarrow> e = CARQUET_ERROR_INVALID_METADATA \<or> e = CARQUET_ERROR_OUT_OF_MEMORY
       | Inr f \<Rightarrow> bloom_wf f \<and> unat (bf_num_bytes f) = unat n \<and> bf_data f = Some (take (unat n) (drop p data)))"
proof -
  obtain p n where h: "header_loop data 0 0 = Done (p, n)" "p \<le> length data + 8"
    using header_loop_moves [of data 0 0] assms by auto
  show ?thesis
  proof (cases "sint n \<le> 0 \<or> length data < p + unat n")
    case True
    then show ?thesis
      using h by (auto simp: bloom_from_region_def)
  next
    case False
    have n: "unat (ucast n :: u64) = unat n"
      by (simp add: unat_ucast_up)
    have run: "bloom_from_region al data = Done (carquet_bloom_filter_read al (Some (drop p data)) (ucast n))"
      using h False by (auto simp: bloom_from_region_def)
    have "bloom_wf f \<and> unat (bf_num_bytes f) = unat n \<and> bf_data f = Some (take (unat n) (drop p data))"
      if "carquet_bloom_filter_from_data al (Some (drop p data)) (ucast n) = Some f" for f
    proof -
      have "unat (ucast n :: u64) \<le> length (drop p data)"
        unfolding n using False by auto
      from from_data_bits(1, 3) [OF that this] that n show ?thesis
        by (auto simp: carquet_bloom_filter_from_data_def split: if_splits)
    qed
    then show ?thesis
      using False h run by (auto simp: carquet_bloom_filter_read_def split: option.splits)
  qed
qed

text \<open>A header that promises one byte too many.\<close>

theorem bloom_region_safe_witness:
  "bloom_from_region generous [0x15, 6, 0, 1, 2] = Done (Inl CARQUET_ERROR_INVALID_METADATA)"
proof -
  have "header_loop [0x15, 6, 0, 1, 2] 0 0 = Done (3, 3)"
    by code_simp
  then show ?thesis
    using bloom_region_safe [where al = generous and data = "[0x15, 6, 0, 1, 2]"] by simp
qed

end
