(* ===== verification/Page_Index.thy ===== *)
theory Page_Index
  imports File_Access Thrift_Roundtrip
begin

text \<open>
  \<^verbatim>\<open>metadata/page_index.c\<close>: the per-page statistics (column index) and page locations
  (offset index) of a column chunk. The builders collect them while pages are
  written, the serialisers turn them into Thrift, the parsers read them back from
  untrusted bytes and the accessors hand single pages to the page filter. The
  writer of \<^verbatim>\<open>writer/file_writer.c\<close> puts both behind the row group and the reader of
  \<^verbatim>\<open>reader/file_reader.c\<close> loads them again.

  The arrays of a builder are reallocated when they are full; a pointer whose
  block has moved is \<open>Dangling\<close> and using it an invalid access. Page counts
  are natural numbers; the \<^verbatim>\<open>int32_t\<close> capacity of a builder doubles, and where the
  product leaves the range of \<^verbatim>\<open>int32_t\<close> that is an invalid access as well. The
  parsers bound their counts by one million.
\<close>

section \<open>Arrays that are reallocated\<close>

datatype 'a array = Live "'a list" | Dangling

definition array_store :: "'a array \<Rightarrow> nat \<Rightarrow> 'a \<Rightarrow> 'a array access" where
  "array_store a i v =
     (case a of
        Live xs \<Rightarrow> if i < length xs then Done (Live (xs[i := v])) else Invalid_Access
      | Dangling \<Rightarrow> Invalid_Access)"

text \<open>A loop that reads the entries before \<open>n\<close>.\<close>

definition array_read :: "nat \<Rightarrow> 'a array \<Rightarrow> 'a list access" where
  "array_read n a =
     (if n = 0 then Done []
      else case a of
        Live xs \<Rightarrow> if n \<le> length xs then Done (take n xs) else Invalid_Access
      | Dangling \<Rightarrow> Invalid_Access)"

text \<open>
  \<open>realloc_block\<close> is \<^verbatim>\<open>carquet_mem_realloc\<close> on an array of \<open>new_cap\<close> entries of \<open>width\<close>
  bytes: the new block, if it is granted, with indeterminate entries behind the
  old ones; \<open>realloc_old\<close> is what the old pointer is worth after the call.
\<close>

definition array_grant :: "allocator \<Rightarrow> nat \<Rightarrow> nat \<Rightarrow> bool" where
  "array_grant al new_cap width = alloc_grants al (word_of_nat (new_cap * width))"

definition realloc_old :: "allocator \<Rightarrow> nat \<Rightarrow> nat \<Rightarrow> 'a array \<Rightarrow> 'a array" where
  "realloc_old al new_cap width a = (if array_grant al new_cap width then Dangling else a)"

fun realloc_block :: "(nat \<Rightarrow> 'a) \<Rightarrow> nat \<Rightarrow> 'a array \<Rightarrow> 'a array" where
  "realloc_block fill new_cap (Live xs) = Live (xs @ map fill [length xs..<new_cap])"
| "realloc_block fill new_cap Dangling = Dangling"

definition array_valid :: "'a array \<Rightarrow> unit access" where
  "array_valid a = (case a of Live xs \<Rightarrow> Done () | Dangling \<Rightarrow> Invalid_Access)"

text \<open>\<^verbatim>\<open>capacity * 2\<close> in \<^verbatim>\<open>int32_t\<close>; a product that overflows is undefined.\<close>

definition double_capacity :: "nat \<Rightarrow> nat access" where
  "double_capacity cap = (if cap * 2 < 2 ^ 31 then Done (cap * 2) else Invalid_Access)"

section \<open>The column index builder\<close>

record carquet_column_index_builder =
  cib_type :: carquet_physical_type
  cib_logical_type :: carquet_logical_type
  cib_type_length :: i32
  cib_capacity :: nat
  cib_num_pages :: nat
  cib_null_counts :: "i64 array"
  cib_min_values :: "bytes option array"
  cib_min_value_lens :: "i32 array"
  cib_max_values :: "bytes option array"
  cib_max_value_lens :: "i32 array"
  cib_null_pages :: "bool array"
  cib_boundary_order :: i32

abbreviation (input) sizeof_column_index_builder :: u64 where "sizeof_column_index_builder \<equiv> 216"

text \<open>
  \<^verbatim>\<open>calloc\<close> clears the builder, so an absent logical type has id 0, \<^verbatim>\<open>UNKNOWN\<close>.
\<close>

definition no_logical_type :: carquet_logical_type where
  "no_logical_type = \<lparr>lt_id = CARQUET_LOGICAL_UNKNOWN, lt_is_signed = False\<rparr>"

definition carquet_column_index_builder_create ::
    "allocator \<Rightarrow> carquet_physical_type \<Rightarrow> carquet_logical_type option \<Rightarrow> i32 \<Rightarrow>
     carquet_column_index_builder option" where
  "carquet_column_index_builder_create al type logical_type type_length =
     (if \<not> alloc_grants al sizeof_column_index_builder then None
      else if array_grant al 16 8 \<and> array_grant al 16 4 \<and> array_grant al 16 1
      then Some
        \<lparr>cib_type = type,
         cib_logical_type = (case logical_type of None \<Rightarrow> no_logical_type | Some lt \<Rightarrow> lt),
         cib_type_length = type_length, cib_capacity = 16, cib_num_pages = 0,
         cib_null_counts = Live (replicate 16 0),
         cib_min_values = Live (replicate 16 None), cib_min_value_lens = Live (replicate 16 0),
         cib_max_values = Live (replicate 16 None), cib_max_value_lens = Live (replicate 16 0),
         cib_null_pages = Live (replicate 16 False), cib_boundary_order = 0\<rparr>
      else None)"

text \<open>
  The six reallocations are all attempted before their results are looked at; when one
  is refused the function returns without storing the blocks of the others.
\<close>

definition column_index_ensure_capacity ::
    "allocator \<Rightarrow> carquet_column_index_builder \<Rightarrow> (carquet_column_index_builder \<times> carquet_status) access" where
  "column_index_ensure_capacity al b =
     (if cib_num_pages b < cib_capacity b then Done (b, CARQUET_OK)
      else
        and_then (double_capacity (cib_capacity b)) (\<lambda>new_cap.
        and_then (array_valid (cib_null_counts b)) (\<lambda>_.
        and_then (array_valid (cib_min_values b)) (\<lambda>_.
        and_then (array_valid (cib_min_value_lens b)) (\<lambda>_.
        and_then (array_valid (cib_max_values b)) (\<lambda>_.
        and_then (array_valid (cib_max_value_lens b)) (\<lambda>_.
        and_then (array_valid (cib_null_pages b)) (\<lambda>_.
          if array_grant al new_cap 8 \<and> array_grant al new_cap 4 \<and> array_grant al new_cap 1
          then Done (b\<lparr>cib_null_counts := realloc_block (\<lambda>_. 0) new_cap (cib_null_counts b),
            cib_min_values := realloc_block (\<lambda>_. None) new_cap (cib_min_values b),
            cib_min_value_lens := realloc_block (\<lambda>_. 0) new_cap (cib_min_value_lens b),
            cib_max_values := realloc_block (\<lambda>_. None) new_cap (cib_max_values b),
            cib_max_value_lens := realloc_block (\<lambda>_. 0) new_cap (cib_max_value_lens b),
            cib_null_pages := realloc_block (\<lambda>_. False) new_cap (cib_null_pages b),
            cib_capacity := new_cap\<rparr>, CARQUET_OK)
          else Done (b\<lparr>cib_null_counts := realloc_old al new_cap 8 (cib_null_counts b),
            cib_min_values := realloc_old al new_cap 8 (cib_min_values b),
            cib_min_value_lens := realloc_old al new_cap 4 (cib_min_value_lens b),
            cib_max_values := realloc_old al new_cap 8 (cib_max_values b),
            cib_max_value_lens := realloc_old al new_cap 4 (cib_max_value_lens b),
            cib_null_pages := realloc_old al new_cap 1 (cib_null_pages b)\<rparr>,
            CARQUET_ERROR_OUT_OF_MEMORY)))))))))"

text \<open>
  A statistic is a pointer with a length. Storing one in an entry of the pointer
  array and of the length array; the last component says whether the copy could be
  allocated. An absent statistic leaves the entry alone.
\<close>

definition put_stat ::
    "allocator \<Rightarrow> nat \<Rightarrow> bytes option \<Rightarrow> i32 \<Rightarrow> bytes option array \<Rightarrow> i32 array \<Rightarrow>
     (bytes option array \<times> i32 array \<times> bool) access" where
  "put_stat al idx v len vals lens =
     (case v of
        Some d \<Rightarrow>
          if 0 < sint len
          then if alloc_grants al (ucast len)
               then and_then (array_store vals idx (Some (take (unat len) d))) (\<lambda>vals'.
                    and_then (array_store lens idx len) (\<lambda>lens'. Done (vals', lens', True)))
               else and_then (array_store vals idx None) (\<lambda>vals'. Done (vals', lens, False))
          else Done (vals, lens, True)
      | None \<Rightarrow> Done (vals, lens, True))"

definition carquet_column_index_add_page ::
    "allocator \<Rightarrow> carquet_column_index_builder option \<Rightarrow> i64 \<Rightarrow> bytes option \<Rightarrow> i32 \<Rightarrow> bytes option \<Rightarrow> i32 \<Rightarrow>
     bool \<Rightarrow> (carquet_column_index_builder option \<times> carquet_status) access" where
  "carquet_column_index_add_page al builder null_count min_value min_value_len max_value max_value_len is_null_page =
     (case builder of
        None \<Rightarrow> Done (None, CARQUET_ERROR_INVALID_ARGUMENT)
      | Some b0 \<Rightarrow>
          and_then (column_index_ensure_capacity al b0) (\<lambda>(b, status).
          if status \<noteq> CARQUET_OK then Done (Some b, status)
          else
            let idx = cib_num_pages b in
            and_then (array_store (cib_null_counts b) idx null_count) (\<lambda>counts.
            and_then (array_store (cib_null_pages b) idx is_null_page) (\<lambda>nulls.
            let b1 = b\<lparr>cib_null_counts := counts, cib_null_pages := nulls\<rparr> in
            and_then (put_stat al idx min_value min_value_len (cib_min_values b1) (cib_min_value_lens b1))
              (\<lambda>(mins, min_lens, ok).
            let b2 = b1\<lparr>cib_min_values := mins, cib_min_value_lens := min_lens\<rparr> in
            if \<not> ok then Done (Some b2, CARQUET_ERROR_OUT_OF_MEMORY)
            else
              and_then (put_stat al idx max_value max_value_len (cib_max_values b2) (cib_max_value_lens b2))
                (\<lambda>(maxs, max_lens, ok).
              let b3 = b2\<lparr>cib_max_values := maxs, cib_max_value_lens := max_lens\<rparr> in
              if \<not> ok
              then and_then (array_store (cib_min_values b3) idx None) (\<lambda>mins'.
                Done (Some (b3\<lparr>cib_min_values := mins'\<rparr>), CARQUET_ERROR_OUT_OF_MEMORY))
              else Done (Some (b3\<lparr>cib_num_pages := Suc idx\<rparr>), CARQUET_OK)))))))"

definition carquet_column_index_set_boundary_order ::
    "carquet_column_index_builder option \<Rightarrow> i32 \<Rightarrow> carquet_column_index_builder option" where
  "carquet_column_index_set_boundary_order builder order =
     map_option (\<lambda>b. b\<lparr>cib_boundary_order := order\<rparr>) builder"

subsection \<open>Comparing values with the statistics of a builder\<close>

definition index_logical_integer_is_unsigned :: "carquet_logical_type option \<Rightarrow> bool" where
  "index_logical_integer_is_unsigned lt =
     (case lt of
        None \<Rightarrow> False
      | Some l \<Rightarrow> lt_id l = CARQUET_LOGICAL_INTEGER \<and> \<not> lt_is_signed l)"

text \<open>The sign of \<^verbatim>\<open>memcmp\<close>; of an \<^verbatim>\<open>a < b ? -1 : (a > b ? 1 : 0)\<close>.\<close>

fun memcmp :: "bytes \<Rightarrow> bytes \<Rightarrow> int" where
  "memcmp (a # as) (b # bs) = (if a < b then - 1 else if b < a then 1 else memcmp as bs)"
| "memcmp as bs = 0"

definition sign_of :: "('a \<Rightarrow> 'a \<Rightarrow> bool) \<Rightarrow> 'a \<Rightarrow> 'a \<Rightarrow> int" where
  "sign_of lt a b = (if lt a b then - 1 else if lt b a then 1 else 0)"

definition signed_less :: "'a::len word \<Rightarrow> 'a word \<Rightarrow> bool" where
  "signed_less a b \<longleftrightarrow> sint a < sint b"

definition load_word :: "nat \<Rightarrow> bytes \<Rightarrow> 'a::len word access" where
  "load_word n bs = (if n \<le> length bs then Done (le_load (take n bs)) else Invalid_Access)"

definition compare_words :: "('a::len word \<Rightarrow> 'a word \<Rightarrow> bool) \<Rightarrow> nat \<Rightarrow> bytes \<Rightarrow> bytes \<Rightarrow> int access" where
  "compare_words lt n a b =
     and_then (load_word n a) (\<lambda>av. and_then (load_word n b) (\<lambda>bv. Done (sign_of lt av bv)))"

definition compare_prefix :: "bytes \<Rightarrow> i32 \<Rightarrow> bytes \<Rightarrow> i32 \<Rightarrow> int access" where
  "compare_prefix a alen b blen =
     (let n = unat (if sint alen < sint blen then alen else blen) in
      if length a < n \<or> length b < n then Invalid_Access
      else
        let c = memcmp (take n a) (take n b) in
        Done (if c \<noteq> 0 then c else sign_of (<) (sint alen) (sint blen)))"

definition compare_index_values ::
    "carquet_column_index_builder \<Rightarrow> bytes \<Rightarrow> i32 \<Rightarrow> bytes \<Rightarrow> i32 \<Rightarrow> int access" where
  "compare_index_values b v vlen w wlen =
     (if vlen = wlen \<and> cib_type b = CARQUET_PHYSICAL_INT32
      then if index_logical_integer_is_unsigned (Some (cib_logical_type b))
           then compare_words ((<) :: u32 \<Rightarrow> u32 \<Rightarrow> bool) 4 v w
           else compare_words (signed_less :: i32 \<Rightarrow> i32 \<Rightarrow> bool) 4 v w
      else if vlen = wlen \<and> cib_type b = CARQUET_PHYSICAL_INT64
      then if index_logical_integer_is_unsigned (Some (cib_logical_type b))
           then compare_words ((<) :: u64 \<Rightarrow> u64 \<Rightarrow> bool) 8 v w
           else compare_words (signed_less :: i64 \<Rightarrow> i64 \<Rightarrow> bool) 8 v w
      else compare_prefix v vlen w wlen)"

text \<open>An entry of an array at a constant index.\<close>

definition array_get :: "'a array \<Rightarrow> nat \<Rightarrow> 'a access" where
  "array_get a i =
     (case a of
        Live xs \<Rightarrow> if i < length xs then Done (xs ! i) else Invalid_Access
      | Dangling \<Rightarrow> Invalid_Access)"

text \<open>One of the two tests of \<^verbatim>\<open>carquet_column_index_page_might_match\<close>: \<open>out\<close> tells the signs that exclude the page.\<close>

definition bound_excludes ::
    "carquet_column_index_builder \<Rightarrow> bytes option \<Rightarrow> i32 \<Rightarrow> bytes option array \<Rightarrow> i32 array \<Rightarrow> nat \<Rightarrow>
     (int \<Rightarrow> bool) \<Rightarrow> bool access" where
  "bound_excludes b v len vals lens i out =
     (case v of
        None \<Rightarrow> Done False
      | Some q \<Rightarrow>
          and_then (array_get vals i) (\<lambda>w.
          case w of
            None \<Rightarrow> Done False
          | Some p \<Rightarrow>
              and_then (array_get lens i) (\<lambda>plen.
              and_then (compare_index_values b q len p plen) (\<lambda>c. Done (out c)))))"

definition carquet_column_index_page_might_match ::
    "carquet_column_index_builder option \<Rightarrow> i32 \<Rightarrow> bytes option \<Rightarrow> bytes option \<Rightarrow> i32 \<Rightarrow> bool \<Rightarrow>
     bool outcome access" where
  "carquet_column_index_page_might_match builder page_idx min_value max_value value_len might_match =
     (case builder of
        None \<Rightarrow> Done (Inl CARQUET_ERROR_INVALID_ARGUMENT)
      | Some b \<Rightarrow>
          if \<not> might_match \<or> sint page_idx < 0 \<or> int (cib_num_pages b) \<le> sint page_idx
          then Done (Inl CARQUET_ERROR_INVALID_ARGUMENT)
          else
            let i = unat page_idx in
            and_then (array_get (cib_null_pages b) i) (\<lambda>null_page.
            if null_page then Done (Inr False)
            else
              and_then (bound_excludes b max_value value_len (cib_min_values b) (cib_min_value_lens b) i (\<lambda>c. c < 0))
                (\<lambda>below.
              if below then Done (Inr False)
              else
                and_then (bound_excludes b min_value value_len (cib_max_values b) (cib_max_value_lens b) i (\<lambda>c. 0 < c))
                  (\<lambda>above. Done (Inr (\<not> above))))))"

section \<open>The offset index builder\<close>

record carquet_offset_index_builder =
  oib_capacity :: nat
  oib_num_pages :: nat
  oib_offsets :: "i64 array"
  oib_compressed_sizes :: "i32 array"
  oib_first_row_indices :: "i64 array"
  oib_uncompressed_sizes :: "i32 array option"
  oib_track_uncompressed :: bool

definition carquet_offset_index_builder_create :: "allocator \<Rightarrow> bool \<Rightarrow> carquet_offset_index_builder option" where
  "carquet_offset_index_builder_create al track_uncompressed =
     (if \<not> alloc_grants al 48 then None
      else if array_grant al 16 8 \<and> array_grant al 16 4
      then Some \<lparr>oib_capacity = 16, oib_num_pages = 0, oib_offsets = Live (replicate 16 0),
        oib_compressed_sizes = Live (replicate 16 0), oib_first_row_indices = Live (replicate 16 0),
        oib_uncompressed_sizes = (if track_uncompressed then Some (Live (replicate 16 0)) else None),
        oib_track_uncompressed = track_uncompressed\<rparr>
      else None)"

text \<open>
  The three arrays every builder has are checked together; the array of uncompressed
  sizes is reallocated after they have been stored.
\<close>

definition fresh_word :: "allocator \<Rightarrow> nat \<Rightarrow> 'a::len word" where
  "fresh_word al i = ucast (alloc_fresh al i)"

definition offset_ensure_capacity ::
    "allocator \<Rightarrow> carquet_offset_index_builder \<Rightarrow> (carquet_offset_index_builder \<times> carquet_status) access" where
  "offset_ensure_capacity al b =
     (if oib_num_pages b < oib_capacity b then Done (b, CARQUET_OK)
      else
        and_then (double_capacity (oib_capacity b)) (\<lambda>new_cap.
        and_then (array_valid (oib_offsets b)) (\<lambda>_.
        and_then (array_valid (oib_compressed_sizes b)) (\<lambda>_.
        and_then (array_valid (oib_first_row_indices b)) (\<lambda>_.
          if \<not> (array_grant al new_cap 8 \<and> array_grant al new_cap 4)
          then Done (b\<lparr>oib_offsets := realloc_old al new_cap 8 (oib_offsets b),
            oib_compressed_sizes := realloc_old al new_cap 4 (oib_compressed_sizes b),
            oib_first_row_indices := realloc_old al new_cap 8 (oib_first_row_indices b)\<rparr>,
            CARQUET_ERROR_OUT_OF_MEMORY)
          else
            let b1 = b\<lparr>oib_offsets := realloc_block (fresh_word al) new_cap (oib_offsets b),
              oib_compressed_sizes := realloc_block (fresh_word al) new_cap (oib_compressed_sizes b),
              oib_first_row_indices := realloc_block (fresh_word al) new_cap (oib_first_row_indices b)\<rparr> in
            if oib_track_uncompressed b
            then case oib_uncompressed_sizes b of
                   None \<Rightarrow> Done (b1\<lparr>oib_uncompressed_sizes := Some (Live (map (fresh_word al) [0..<new_cap])),
                     oib_capacity := new_cap\<rparr>, CARQUET_OK)
                 | Some sizes \<Rightarrow>
                     and_then (array_valid sizes) (\<lambda>_.
                     if \<not> array_grant al new_cap 4 then Done (b1, CARQUET_ERROR_OUT_OF_MEMORY)
                     else Done (b1\<lparr>oib_uncompressed_sizes := Some (realloc_block (fresh_word al) new_cap sizes),
                       oib_capacity := new_cap\<rparr>, CARQUET_OK))
            else Done (b1\<lparr>oib_capacity := new_cap\<rparr>, CARQUET_OK))))))"

text \<open>Each sum \<^verbatim>\<open>offsets[i] += delta\<close> has to stay in the range of \<^verbatim>\<open>int64_t\<close>.\<close>

definition carquet_offset_index_builder_shift_offsets ::
    "carquet_offset_index_builder option \<Rightarrow> i64 \<Rightarrow> carquet_offset_index_builder option access" where
  "carquet_offset_index_builder_shift_offsets builder delta =
     (case builder of
        None \<Rightarrow> Done None
      | Some b \<Rightarrow>
          if delta = 0 \<or> oib_num_pages b = 0 then Done (Some b)
          else case oib_offsets b of
            Live xs \<Rightarrow>
              if oib_num_pages b \<le> length xs \<and>
                list_all (\<lambda>x. sint (x + delta) = sint x + sint delta) (take (oib_num_pages b) xs)
              then Done (Some (b\<lparr>oib_offsets :=
                Live (map (\<lambda>x. x + delta) (take (oib_num_pages b) xs) @ drop (oib_num_pages b) xs)\<rparr>))
              else Invalid_Access
          | Dangling \<Rightarrow> Invalid_Access)"

definition carquet_offset_index_add_page ::
    "allocator \<Rightarrow> carquet_offset_index_builder option \<Rightarrow> i64 \<Rightarrow> i32 \<Rightarrow> i64 \<Rightarrow> i32 \<Rightarrow>
     (carquet_offset_index_builder option \<times> carquet_status) access" where
  "carquet_offset_index_add_page al builder offset compressed_size first_row_index uncompressed_size =
     (case builder of
        None \<Rightarrow> Done (None, CARQUET_ERROR_INVALID_ARGUMENT)
      | Some b0 \<Rightarrow>
          and_then (offset_ensure_capacity al b0) (\<lambda>(b, status).
          if status \<noteq> CARQUET_OK then Done (Some b, status)
          else
            let idx = oib_num_pages b in
            and_then (array_store (oib_offsets b) idx offset) (\<lambda>offs.
            and_then (array_store (oib_compressed_sizes b) idx compressed_size) (\<lambda>csizes.
            and_then (array_store (oib_first_row_indices b) idx first_row_index) (\<lambda>rows.
            let b1 = b\<lparr>oib_offsets := offs, oib_compressed_sizes := csizes, oib_first_row_indices := rows\<rparr> in
            if oib_track_uncompressed b
            then case oib_uncompressed_sizes b of
                   None \<Rightarrow> Invalid_Access
                 | Some sizes \<Rightarrow>
                     and_then (array_store sizes idx uncompressed_size) (\<lambda>sizes'.
                     Done (Some (b1\<lparr>oib_uncompressed_sizes := Some sizes', oib_num_pages := Suc idx\<rparr>), CARQUET_OK))
            else Done (Some (b1\<lparr>oib_num_pages := Suc idx\<rparr>), CARQUET_OK))))))"

section \<open>Serialisation\<close>

fun write_bools :: "allocator \<Rightarrow> thrift_encoder \<Rightarrow> bool list \<Rightarrow> thrift_encoder" where
  "write_bools al enc [] = enc"
| "write_bools al enc (v # vs) = write_bools al (thrift_write_bool al enc v) vs"

fun write_binaries :: "allocator \<Rightarrow> thrift_encoder \<Rightarrow> (bytes option \<times> i32) list \<Rightarrow> thrift_encoder" where
  "write_binaries al enc [] = enc"
| "write_binaries al enc ((v, len) # vs) =
     write_binaries al
       (case v of Some d \<Rightarrow> thrift_write_binary al enc (Some d) len | None \<Rightarrow> thrift_write_binary al enc None 0) vs"

fun write_i64s :: "allocator \<Rightarrow> thrift_encoder \<Rightarrow> i64 list \<Rightarrow> thrift_encoder" where
  "write_i64s al enc [] = enc"
| "write_i64s al enc (v # vs) = write_i64s al (thrift_write_i64 al enc v) vs"

fun write_i32s :: "allocator \<Rightarrow> thrift_encoder \<Rightarrow> i32 list \<Rightarrow> thrift_encoder" where
  "write_i32s al enc [] = enc"
| "write_i32s al enc (v # vs) = write_i32s al (thrift_write_i32 al enc v) vs"

text \<open>Field header, list header and elements of a list field.\<close>

definition write_list_field ::
    "allocator \<Rightarrow> thrift_encoder \<Rightarrow> i16 \<Rightarrow> thrift_type \<Rightarrow> nat \<Rightarrow> (thrift_encoder \<Rightarrow> thrift_encoder) \<Rightarrow>
     thrift_encoder" where
  "write_list_field al enc fid elem_type n elems =
     elems (thrift_write_list_begin al (thrift_write_field_header al enc THRIFT_TYPE_LIST fid) elem_type (word_of_nat n))"

text \<open>The encoder after a column index with the given entries; its status is not looked at.\<close>

definition column_index_encoder ::
    "allocator \<Rightarrow> carquet_buffer \<Rightarrow> nat \<Rightarrow> bool list \<Rightarrow> (bytes option \<times> i32) list \<Rightarrow> (bytes option \<times> i32) list \<Rightarrow>
     i32 \<Rightarrow> i64 list \<Rightarrow> thrift_encoder" where
  "column_index_encoder al buf n nulls mins maxs order counts =
     (let enc = thrift_write_struct_begin (thrift_encoder_init buf);
          enc = write_list_field al enc 1 THRIFT_TYPE_TRUE n (\<lambda>e. write_bools al e nulls);
          enc = write_list_field al enc 2 THRIFT_TYPE_BINARY n (\<lambda>e. write_binaries al e mins);
          enc = write_list_field al enc 3 THRIFT_TYPE_BINARY n (\<lambda>e. write_binaries al e maxs);
          enc = thrift_write_i32 al (thrift_write_field_header al enc THRIFT_TYPE_I32 4) order;
          enc = write_list_field al enc 5 THRIFT_TYPE_I64 n (\<lambda>e. write_i64s al e counts) in
      thrift_write_struct_end al enc)"

definition carquet_column_index_serialize ::
    "allocator \<Rightarrow> carquet_column_index_builder option \<Rightarrow> carquet_buffer option \<Rightarrow>
     (carquet_buffer option \<times> carquet_status) access" where
  "carquet_column_index_serialize al builder out =
     (case (builder, out) of
        (Some b, Some buf) \<Rightarrow>
          let n = cib_num_pages b in
          and_then (array_read n (cib_null_pages b)) (\<lambda>nulls.
          and_then (array_read n (cib_min_values b)) (\<lambda>mins.
          and_then (array_read n (cib_min_value_lens b)) (\<lambda>min_lens.
          and_then (array_read n (cib_max_values b)) (\<lambda>maxs.
          and_then (array_read n (cib_max_value_lens b)) (\<lambda>max_lens.
          and_then (array_read n (cib_null_counts b)) (\<lambda>counts.
          Done (Some (enc_buffer (column_index_encoder al buf n nulls (zip mins min_lens) (zip maxs max_lens)
            (cib_boundary_order b) counts)), CARQUET_OK)))))))
      | _ \<Rightarrow> Done (out, CARQUET_ERROR_INVALID_ARGUMENT))"

record carquet_page_location =
  loc_offset :: i64
  loc_compressed_size :: i32
  loc_first_row_index :: i64

definition write_location :: "allocator \<Rightarrow> thrift_encoder \<Rightarrow> carquet_page_location \<Rightarrow> thrift_encoder" where
  "write_location al enc loc =
     (let enc = thrift_write_struct_begin enc;
          enc = thrift_write_i64 al (thrift_write_field_header al enc THRIFT_TYPE_I64 1) (loc_offset loc);
          enc = thrift_write_i32 al (thrift_write_field_header al enc THRIFT_TYPE_I32 2) (loc_compressed_size loc);
          enc = thrift_write_i64 al (thrift_write_field_header al enc THRIFT_TYPE_I64 3) (loc_first_row_index loc) in
      thrift_write_struct_end al enc)"

fun write_locations :: "allocator \<Rightarrow> thrift_encoder \<Rightarrow> carquet_page_location list \<Rightarrow> thrift_encoder" where
  "write_locations al enc [] = enc"
| "write_locations al enc (loc # locs) = write_locations al (write_location al enc loc) locs"

definition offset_index_encoder ::
    "allocator \<Rightarrow> carquet_buffer \<Rightarrow> nat \<Rightarrow> carquet_page_location list \<Rightarrow> i32 list option \<Rightarrow> thrift_encoder" where
  "offset_index_encoder al buf n locs sizes =
     (let enc = thrift_write_struct_begin (thrift_encoder_init buf);
          enc = write_list_field al enc 1 THRIFT_TYPE_STRUCT n (\<lambda>e. write_locations al e locs);
          enc = (case sizes of
                   None \<Rightarrow> enc
                 | Some us \<Rightarrow> write_list_field al enc 2 THRIFT_TYPE_I32 n (\<lambda>e. write_i32s al e us)) in
      thrift_write_struct_end al enc)"

definition zip_locations :: "i64 list \<Rightarrow> i32 list \<Rightarrow> i64 list \<Rightarrow> carquet_page_location list" where
  "zip_locations offs csizes rows =
     map (\<lambda>(o', c, r). \<lparr>loc_offset = o', loc_compressed_size = c, loc_first_row_index = r\<rparr>) (zip offs (zip csizes rows))"

definition carquet_offset_index_serialize ::
    "allocator \<Rightarrow> carquet_offset_index_builder option \<Rightarrow> carquet_buffer option \<Rightarrow>
     (carquet_buffer option \<times> carquet_status) access" where
  "carquet_offset_index_serialize al builder out =
     (case (builder, out) of
        (Some b, Some buf) \<Rightarrow>
          let n = oib_num_pages b in
          and_then (array_read n (oib_offsets b)) (\<lambda>offs.
          and_then (array_read n (oib_compressed_sizes b)) (\<lambda>csizes.
          and_then (array_read n (oib_first_row_indices b)) (\<lambda>rows.
          and_then (case oib_uncompressed_sizes b of
              Some sizes \<Rightarrow>
                if oib_track_uncompressed b then and_then (array_read n sizes) (\<lambda>us. Done (Some us)) else Done None
            | None \<Rightarrow> Done None) (\<lambda>sizes.
          Done (Some (enc_buffer (offset_index_encoder al buf n (zip_locations offs csizes rows) sizes)), CARQUET_OK)))))
      | _ \<Rightarrow> Done (out, CARQUET_ERROR_INVALID_ARGUMENT))"

section \<open>Parsing\<close>

text \<open>
  A parser ends with a result or frees what it has and returns NULL. \<open>Stuck\<close> is the
  value of a loop that has used up its bound; the field loop is bounded by the bytes
  that remain, and no parser below is ever \<open>Stuck\<close>.
\<close>

datatype 'a parse = Stuck | Null | Parsed 'a

primrec parse_then :: "'a parse \<Rightarrow> ('a \<Rightarrow> 'b parse) \<Rightarrow> 'b parse" where
  "parse_then Stuck k = Stuck"
| "parse_then Null k = Null"
| "parse_then (Parsed x) k = k x"

text \<open>The loop over the fields of a struct; \<open>body\<close> is the switch on the field id.\<close>

fun field_loop ::
    "nat \<Rightarrow> ('s \<Rightarrow> thrift_decoder \<Rightarrow> thrift_type \<Rightarrow> i16 \<Rightarrow> (thrift_decoder \<times> 's) parse) \<Rightarrow>
     's \<Rightarrow> thrift_decoder \<Rightarrow> (thrift_decoder \<times> 's) parse" where
  "field_loop 0 body st dec = Stuck"
| "field_loop (Suc k) body st dec =
     (case thrift_read_field_begin dec of
        (dec1, None) \<Rightarrow> Parsed (dec1, st)
      | (dec1, Some (ty, fid)) \<Rightarrow>
          parse_then (body st dec1 ty fid) (\<lambda>(dec2, st2). field_loop k body st2 dec2))"

text \<open>The default case of every switch.\<close>

definition skip_unknown :: "'s \<Rightarrow> thrift_decoder \<Rightarrow> thrift_type \<Rightarrow> (thrift_decoder \<times> 's) parse" where
  "skip_unknown st dec ty =
     (case thrift_skip_field dec ty of None \<Rightarrow> Stuck | Some dec' \<Rightarrow> Parsed (dec', st))"

definition parse_struct ::
    "('s \<Rightarrow> thrift_decoder \<Rightarrow> thrift_type \<Rightarrow> i16 \<Rightarrow> (thrift_decoder \<times> 's) parse) \<Rightarrow>
     's \<Rightarrow> thrift_decoder \<Rightarrow> (thrift_decoder \<times> 's) parse" where
  "parse_struct body st dec =
     (let dec1 = thrift_read_struct_begin dec in
      parse_then (field_loop (Suc (dec_remaining dec1)) body st dec1) (\<lambda>(dec2, st2).
      Parsed (thrift_read_struct_end dec2, st2)))"

text \<open>The header of a list of at most a million elements.\<close>

definition parse_count :: "thrift_decoder \<Rightarrow> (thrift_decoder \<times> nat) parse" where
  "parse_count dec =
     (case thrift_read_list_begin dec of
        (dec1, elem_type, count) \<Rightarrow>
          if sint count < 0 \<or> 1000000 < sint count then Null else Parsed (dec1, unat count))"

fun read_bools :: "nat \<Rightarrow> thrift_decoder \<Rightarrow> thrift_decoder \<times> bool list" where
  "read_bools 0 dec = (dec, [])"
| "read_bools (Suc n) dec =
     (case thrift_read_bool dec of (dec1, v) \<Rightarrow> apsnd (Cons v) (read_bools n dec1))"

fun read_i64s :: "nat \<Rightarrow> thrift_decoder \<Rightarrow> thrift_decoder \<times> i64 list" where
  "read_i64s 0 dec = (dec, [])"
| "read_i64s (Suc n) dec =
     (case thrift_read_i64 dec of (dec1, v) \<Rightarrow> apsnd (Cons v) (read_i64s n dec1))"

text \<open>Pointer and length of each element; empty and unreadable elements stay NULL.\<close>

fun read_binaries :: "allocator \<Rightarrow> nat \<Rightarrow> thrift_decoder \<Rightarrow> (thrift_decoder \<times> (bytes option \<times> i32) list) parse" where
  "read_binaries al 0 dec = Parsed (dec, [])"
| "read_binaries al (Suc n) dec =
     (case thrift_read_binary dec of
        (dec1, bin, len) \<Rightarrow>
          parse_then
            (case bin of
               Some d \<Rightarrow>
                 if 0 < sint len
                 then if alloc_grants al (ucast len) then Parsed (Some (take (unat len) d), len) else Null
                 else Parsed (None, 0)
             | None \<Rightarrow> Parsed (None, 0)) (\<lambda>v.
          parse_then (read_binaries al n dec1) (\<lambda>(dec2, vs). Parsed (dec2, v # vs))))"

subsection \<open>The column index\<close>

text \<open>\<open>None\<close> is a NULL array.\<close>

record carquet_column_index =
  cx_num_pages :: nat
  cx_null_counts :: "i64 list option"
  cx_num_null_counts :: nat
  cx_min_values :: "bytes option list option"
  cx_min_value_lens :: "i32 list option"
  cx_num_min_values :: nat
  cx_max_values :: "bytes option list option"
  cx_max_value_lens :: "i32 list option"
  cx_num_max_values :: nat
  cx_null_pages :: "bool list option"
  cx_num_null_pages :: nat
  cx_boundary_order :: i32

definition empty_column_index :: carquet_column_index where
  "empty_column_index =
     \<lparr>cx_num_pages = 0, cx_null_counts = None, cx_num_null_counts = 0,
      cx_min_values = None, cx_min_value_lens = None, cx_num_min_values = 0,
      cx_max_values = None, cx_max_value_lens = None, cx_num_max_values = 0,
      cx_null_pages = None, cx_num_null_pages = 0, cx_boundary_order = 0\<rparr>"

definition parse_null_pages ::
    "allocator \<Rightarrow> carquet_column_index \<Rightarrow> thrift_decoder \<Rightarrow> (thrift_decoder \<times> carquet_column_index) parse" where
  "parse_null_pages al ci dec =
     (if cx_null_pages ci \<noteq> None then Null
      else parse_then (parse_count dec) (\<lambda>(dec1, count).
        if \<not> array_grant al count 1 then Null
        else case read_bools count dec1 of (dec2, vs) \<Rightarrow>
          Parsed (dec2, ci\<lparr>cx_num_pages := count, cx_null_pages := Some vs, cx_num_null_pages := count\<rparr>)))"

definition parse_min_values ::
    "allocator \<Rightarrow> carquet_column_index \<Rightarrow> thrift_decoder \<Rightarrow> (thrift_decoder \<times> carquet_column_index) parse" where
  "parse_min_values al ci dec =
     (if cx_min_values ci \<noteq> None then Null
      else parse_then (parse_count dec) (\<lambda>(dec1, count).
        if \<not> array_grant al count 8 \<or> \<not> array_grant al count 4 then Null
        else parse_then (read_binaries al count dec1) (\<lambda>(dec2, vs).
          Parsed (dec2, ci\<lparr>cx_min_values := Some (map fst vs), cx_min_value_lens := Some (map snd vs),
            cx_num_min_values := count\<rparr>))))"

definition parse_max_values ::
    "allocator \<Rightarrow> carquet_column_index \<Rightarrow> thrift_decoder \<Rightarrow> (thrift_decoder \<times> carquet_column_index) parse" where
  "parse_max_values al ci dec =
     (if cx_max_values ci \<noteq> None then Null
      else parse_then (parse_count dec) (\<lambda>(dec1, count).
        if \<not> array_grant al count 8 \<or> \<not> array_grant al count 4 then Null
        else parse_then (read_binaries al count dec1) (\<lambda>(dec2, vs).
          Parsed (dec2, ci\<lparr>cx_max_values := Some (map fst vs), cx_max_value_lens := Some (map snd vs),
            cx_num_max_values := count\<rparr>))))"

definition parse_null_counts ::
    "allocator \<Rightarrow> carquet_column_index \<Rightarrow> thrift_decoder \<Rightarrow> (thrift_decoder \<times> carquet_column_index) parse" where
  "parse_null_counts al ci dec =
     (if cx_null_counts ci \<noteq> None then Null
      else parse_then (parse_count dec) (\<lambda>(dec1, count).
        if \<not> array_grant al count 8 then Null
        else case read_i64s count dec1 of (dec2, vs) \<Rightarrow>
          Parsed (dec2, ci\<lparr>cx_null_counts := Some vs, cx_num_null_counts := count\<rparr>)))"

definition column_index_field ::
    "allocator \<Rightarrow> carquet_column_index \<Rightarrow> thrift_decoder \<Rightarrow> thrift_type \<Rightarrow> i16 \<Rightarrow>
     (thrift_decoder \<times> carquet_column_index) parse" where
  "column_index_field al ci dec ty fid =
     (if fid = 1 then parse_null_pages al ci dec
      else if fid = 2 then parse_min_values al ci dec
      else if fid = 3 then parse_max_values al ci dec
      else if fid = 4 then (case thrift_read_i32 dec of (dec1, v) \<Rightarrow> Parsed (dec1, ci\<lparr>cx_boundary_order := v\<rparr>))
      else if fid = 5 then parse_null_counts al ci dec
      else skip_unknown ci dec ty)"

definition clamp_pages :: "'a list option \<Rightarrow> nat \<Rightarrow> nat \<Rightarrow> nat" where
  "clamp_pages arr count n = (if arr \<noteq> None \<and> count < n then count else n)"

definition clamp_column_index :: "carquet_column_index \<Rightarrow> carquet_column_index" where
  "clamp_column_index ci =
     (let n = cx_num_pages ci;
          n = clamp_pages (cx_null_pages ci) (cx_num_null_pages ci) n;
          n = clamp_pages (cx_min_values ci) (cx_num_min_values ci) n;
          n = clamp_pages (cx_max_values ci) (cx_num_max_values ci) n;
          n = clamp_pages (cx_null_counts ci) (cx_num_null_counts ci) n in
      ci\<lparr>cx_num_pages := n\<rparr>)"

definition carquet_column_index_parse :: "allocator \<Rightarrow> bytes option \<Rightarrow> carquet_column_index parse" where
  "carquet_column_index_parse al data =
     (case data of
        None \<Rightarrow> Null
      | Some bs \<Rightarrow>
          if bs = [] then Null
          else if \<not> alloc_grants al 88 then Null
          else parse_then (parse_struct (column_index_field al) empty_column_index (thrift_decoder_init bs))
            (\<lambda>(dec, ci). if dec_status dec \<noteq> CARQUET_OK then Null else Parsed (clamp_column_index ci)))"

subsection \<open>The offset index\<close>

record carquet_offset_index =
  ox_num_pages :: nat
  ox_page_locations :: "carquet_page_location list option"

definition location_field ::
    "carquet_page_location \<Rightarrow> thrift_decoder \<Rightarrow> thrift_type \<Rightarrow> i16 \<Rightarrow> (thrift_decoder \<times> carquet_page_location) parse" where
  "location_field loc dec ty fid =
     (if fid = 1 then (case thrift_read_i64 dec of (dec1, v) \<Rightarrow> Parsed (dec1, loc\<lparr>loc_offset := v\<rparr>))
      else if fid = 2 then (case thrift_read_i32 dec of (dec1, v) \<Rightarrow> Parsed (dec1, loc\<lparr>loc_compressed_size := v\<rparr>))
      else if fid = 3 then (case thrift_read_i64 dec of (dec1, v) \<Rightarrow> Parsed (dec1, loc\<lparr>loc_first_row_index := v\<rparr>))
      else skip_unknown loc dec ty)"

definition zero_location :: carquet_page_location where
  "zero_location = \<lparr>loc_offset = 0, loc_compressed_size = 0, loc_first_row_index = 0\<rparr>"

fun read_locations :: "nat \<Rightarrow> thrift_decoder \<Rightarrow> (thrift_decoder \<times> carquet_page_location list) parse" where
  "read_locations 0 dec = Parsed (dec, [])"
| "read_locations (Suc n) dec =
     parse_then (parse_struct location_field zero_location dec) (\<lambda>(dec1, loc).
     parse_then (read_locations n dec1) (\<lambda>(dec2, locs). Parsed (dec2, loc # locs)))"

definition offset_index_field ::
    "allocator \<Rightarrow> carquet_offset_index \<Rightarrow> thrift_decoder \<Rightarrow> thrift_type \<Rightarrow> i16 \<Rightarrow>
     (thrift_decoder \<times> carquet_offset_index) parse" where
  "offset_index_field al oi dec ty fid =
     (if fid = 1
      then if ox_page_locations oi \<noteq> None then Null
           else parse_then (parse_count dec) (\<lambda>(dec1, count).
             if \<not> array_grant al count 24 then Null
             else parse_then (read_locations count dec1) (\<lambda>(dec2, locs).
               Parsed (dec2, oi\<lparr>ox_num_pages := count, ox_page_locations := Some locs\<rparr>)))
      else skip_unknown oi dec ty)"

definition carquet_offset_index_parse :: "allocator \<Rightarrow> bytes option \<Rightarrow> carquet_offset_index parse" where
  "carquet_offset_index_parse al data =
     (case data of
        None \<Rightarrow> Null
      | Some bs \<Rightarrow>
          if bs = [] then Null
          else if \<not> alloc_grants al 16 then Null
          else parse_then (parse_struct (offset_index_field al) \<lparr>ox_num_pages = 0, ox_page_locations = None\<rparr>
              (thrift_decoder_init bs))
            (\<lambda>(dec, oi). if dec_status dec \<noteq> CARQUET_OK then Null else Parsed oi))"

section \<open>Accessors\<close>

record carquet_page_stats =
  ps_null_count :: i64
  ps_min_value :: "bytes option"
  ps_min_value_size :: i32
  ps_max_value :: "bytes option"
  ps_max_value_size :: i32
  ps_is_null_page :: bool

definition carquet_column_index_num_pages :: "carquet_column_index \<Rightarrow> nat" where
  "carquet_column_index_num_pages ci = cx_num_pages ci"

definition carquet_column_index_boundary_order :: "carquet_column_index \<Rightarrow> i32" where
  "carquet_column_index_boundary_order ci = cx_boundary_order ci"

text \<open>\<^verbatim>\<open>(arr && i < count) ? arr[i] : dflt\<close>, where the access may be outside the array.\<close>

definition entry_or :: "'a list option \<Rightarrow> nat \<Rightarrow> nat \<Rightarrow> 'a \<Rightarrow> 'a access" where
  "entry_or arr count i dflt =
     (case arr of
        None \<Rightarrow> Done dflt
      | Some xs \<Rightarrow>
          if count \<le> i then Done dflt
          else if i < length xs then Done (xs ! i) else Invalid_Access)"

definition carquet_column_index_get_page_stats ::
    "carquet_column_index \<Rightarrow> int \<Rightarrow> carquet_page_stats outcome access" where
  "carquet_column_index_get_page_stats ci page_index =
     (if page_index < 0 \<or> int (cx_num_pages ci) \<le> page_index then Done (Inl CARQUET_ERROR_INVALID_ARGUMENT)
      else
        let i = nat page_index in
        and_then (entry_or (cx_null_counts ci) (cx_num_null_counts ci) i 0) (\<lambda>null_count.
        and_then (entry_or (cx_min_values ci) (cx_num_min_values ci) i None) (\<lambda>min_value.
        and_then (entry_or (cx_min_value_lens ci) (cx_num_min_values ci) i 0) (\<lambda>min_size.
        and_then (entry_or (cx_max_values ci) (cx_num_max_values ci) i None) (\<lambda>max_value.
        and_then (entry_or (cx_max_value_lens ci) (cx_num_max_values ci) i 0) (\<lambda>max_size.
        and_then (entry_or (cx_null_pages ci) (cx_num_null_pages ci) i False) (\<lambda>null_page.
        Done (Inr \<lparr>ps_null_count = null_count, ps_min_value = min_value, ps_min_value_size = min_size,
          ps_max_value = max_value, ps_max_value_size = max_size, ps_is_null_page = null_page\<rparr>))))))))"

definition carquet_offset_index_num_pages :: "carquet_offset_index \<Rightarrow> nat" where
  "carquet_offset_index_num_pages oi = ox_num_pages oi"

definition carquet_offset_index_get_page_location ::
    "carquet_offset_index \<Rightarrow> int \<Rightarrow> carquet_page_location outcome access" where
  "carquet_offset_index_get_page_location oi page_index =
     (if page_index < 0 \<or> int (ox_num_pages oi) \<le> page_index then Done (Inl CARQUET_ERROR_INVALID_ARGUMENT)
      else case ox_page_locations oi of
        None \<Rightarrow> Invalid_Access
      | Some locs \<Rightarrow> if nat page_index < length locs then Done (Inr (locs ! nat page_index)) else Invalid_Access)"

section \<open>The index of a column in a file\<close>

text \<open>
  The writer appends the bytes of a non-empty buffer and records where they are; a
  buffer that stayed empty is skipped.
\<close>

definition write_index_region ::
    "fwrite_fn \<Rightarrow> bytes \<Rightarrow> file_writer \<Rightarrow> file_writer \<times> (i64 \<times> i32) option \<times> carquet_status" where
  "write_index_region fw bs w =
     (if bs = [] then (w, None, CARQUET_OK)
      else case fwrite fw w bs of
        (w1, n) \<Rightarrow>
          let where' = Some (fw_file_offset w, word_of_nat (length bs)) in
          if n \<noteq> length bs then (w1, where', CARQUET_ERROR_FILE_WRITE)
          else (w1\<lparr>fw_file_offset := fw_file_offset w1 + word_of_nat (length bs)\<rparr>, where', CARQUET_OK))"

definition record_column_index :: "(i64 \<times> i32) option \<Rightarrow> row_group_column_info \<Rightarrow> row_group_column_info" where
  "record_column_index region chunk =
     (case region of
        None \<Rightarrow> chunk
      | Some (off, len) \<Rightarrow> chunk\<lparr>ci_has_column_index_offset := True, ci_column_index_offset := off,
          ci_has_column_index_length := True, ci_column_index_length := len\<rparr>)"

definition record_offset_index :: "(i64 \<times> i32) option \<Rightarrow> row_group_column_info \<Rightarrow> row_group_column_info" where
  "record_offset_index region chunk =
     (case region of
        None \<Rightarrow> chunk
      | Some (off, len) \<Rightarrow> chunk\<lparr>ci_has_offset_index_offset := True, ci_offset_index_offset := off,
          ci_has_offset_index_length := True, ci_offset_index_length := len\<rparr>)"

definition serialized :: "(carquet_buffer option \<times> carquet_status) access \<Rightarrow> bytes access" where
  "serialized r = and_then r (\<lambda>(b, st). Done (case b of None \<Rightarrow> [] | Some buf \<Rightarrow> buffer_contents buf))"

definition write_column_page_index ::
    "fwrite_fn \<Rightarrow> allocator \<Rightarrow> carquet_column_index_builder option \<Rightarrow> carquet_offset_index_builder option \<Rightarrow>
     file_writer \<Rightarrow> row_group_column_info \<Rightarrow> (file_writer \<times> row_group_column_info \<times> carquet_status) access" where
  "write_column_page_index fw al ci oi w chunk =
     and_then (if ci = None then Done []
       else serialized (carquet_column_index_serialize al ci (Some carquet_buffer_init))) (\<lambda>ci_bytes.
     case write_index_region fw ci_bytes w of
       (w1, region, st) \<Rightarrow>
         let chunk1 = record_column_index region chunk in
         if st \<noteq> CARQUET_OK then Done (w1, chunk1, st)
         else
           and_then (if oi = None then Done []
             else serialized (carquet_offset_index_serialize al oi (Some carquet_buffer_init))) (\<lambda>oi_bytes.
           case write_index_region fw oi_bytes w1 of
             (w2, region2, st2) \<Rightarrow> Done (w2, record_offset_index region2 chunk1, st2)))"

text \<open>
  The two accessors of the reader. A NULL result that sets an error is \<open>Inl\<close>, one
  that sets none (the column has no index) is \<open>Inr None\<close>.
\<close>

definition get_index_region ::
    "allocator \<Rightarrow> (i64 \<Rightarrow> bool) \<Rightarrow> carquet_reader \<Rightarrow> bool \<Rightarrow> i64 \<Rightarrow> i32 \<Rightarrow> (bytes option \<Rightarrow> 'a parse) \<Rightarrow>
     'a option outcome parse" where
  "get_index_region al seeks rd present offset len parse =
     (if \<not> present \<or> sint len \<le> 0 then Parsed (Inr None)
      else case reader_read_bytes al seeks rd offset len of
        Inl e \<Rightarrow> Parsed (Inl e)
      | Inr bs \<Rightarrow>
          (case parse (Some bs) of
             Stuck \<Rightarrow> Stuck
           | Null \<Rightarrow> Parsed (Inl CARQUET_ERROR_INVALID_METADATA)
           | Parsed x \<Rightarrow> Parsed (Inr (Some x))))"

definition carquet_reader_get_column_index ::
    "allocator \<Rightarrow> (i64 \<Rightarrow> bool) \<Rightarrow> carquet_reader \<Rightarrow> i32 \<Rightarrow> i32 \<Rightarrow> carquet_column_index option outcome parse" where
  "carquet_reader_get_column_index al seeks rd row_group_index column_index =
     (case reader_get_column_chunk rd row_group_index column_index of
        Inl e \<Rightarrow> Parsed (Inl e)
      | Inr chunk \<Rightarrow>
          get_index_region al seeks rd (cc_has_column_index_offset chunk \<and> cc_has_column_index_length chunk)
            (cc_column_index_offset chunk) (cc_column_index_length chunk) (carquet_column_index_parse al))"

definition carquet_reader_get_offset_index ::
    "allocator \<Rightarrow> (i64 \<Rightarrow> bool) \<Rightarrow> carquet_reader \<Rightarrow> i32 \<Rightarrow> i32 \<Rightarrow> carquet_offset_index option outcome parse" where
  "carquet_reader_get_offset_index al seeks rd row_group_index column_index =
     (case reader_get_column_chunk rd row_group_index column_index of
        Inl e \<Rightarrow> Parsed (Inl e)
      | Inr chunk \<Rightarrow>
          get_index_region al seeks rd (cc_has_offset_index_offset chunk \<and> cc_has_offset_index_length chunk)
            (cc_offset_index_offset chunk) (cc_offset_index_length chunk) (carquet_offset_index_parse al))"

section \<open>The parsers on arbitrary bytes\<close>

text \<open>
  What the field loop needs of a switch: it is never stuck, its reads keep the contract of the
  decoder, and it keeps the invariant \<open>ok\<close> of the structure under construction.
\<close>

locale field_parser =
  fixes body :: "'s \<Rightarrow> thrift_decoder \<Rightarrow> thrift_type \<Rightarrow> i16 \<Rightarrow> (thrift_decoder \<times> 's) parse"
    and ok :: "'s \<Rightarrow> bool"
  assumes body_total: "dec_wf dec \<Longrightarrow> body st dec ty fid \<noteq> Stuck"
    and body_step: "body st dec ty fid = Parsed (dec', st') \<Longrightarrow> dec_step dec dec'"
    and body_ok: "body st dec ty fid = Parsed (dec', st') \<Longrightarrow> dec_wf dec \<Longrightarrow> ok st \<Longrightarrow> ok st'"
begin

lemma field_loop_parsed:
  "field_loop k body st dec = Parsed (dec', st') \<Longrightarrow>
   dec_step dec dec' \<and> (dec_wf dec \<longrightarrow> ok st \<longrightarrow> ok st')"
proof (induction k arbitrary: st dec)
  case (Suc k)
  obtain dec1 res where f: "thrift_read_field_begin dec = (dec1, res)" by fastforce
  note s = read_field_begin_step [OF f]
  show ?case
  proof (cases res)
    case None
    then show ?thesis using Suc.prems f s by auto
  next
    case (Some p)
    then obtain dec2 st2 where b: "body st dec1 (fst p) (snd p) = Parsed (dec2, st2)"
        "field_loop k body st2 dec2 = Parsed (dec', st')"
      using Suc.prems f by (cases p; cases "body st dec1 (fst p) (snd p)") auto
    show ?thesis
      using Suc.IH [OF b(2)] body_step [OF b(1)] body_ok [OF b(1)] s dec_step_wf
      by (blast intro: dec_step_trans)
  qed
qed simp

lemma field_loop_total:
  "dec_wf dec \<Longrightarrow> length (dec_rest dec) < k \<Longrightarrow> field_loop k body st dec \<noteq> Stuck"
proof (induction k arbitrary: st dec)
  case (Suc k)
  obtain dec1 res where f: "thrift_read_field_begin dec = (dec1, res)" by fastforce
  have wf1: "dec_wf dec1"
    using read_field_begin_step [OF f] Suc.prems(1) by (rule dec_step_wf)
  show ?case
  proof (cases res)
    case (Some p)
    have less: "length (dec_rest dec1) < length (dec_rest dec)"
      using read_field_begin_progress [OF Suc.prems(1)] f Some by blast
    show ?thesis
    proof (cases "body st dec1 (fst p) (snd p)")
      case Stuck
      then show ?thesis using body_total [OF wf1] by simp
    next
      case (Parsed r)
      then have r: "body st dec1 (fst p) (snd p) = Parsed (fst r, snd r)"
        by simp
      have "dec_wf (fst r)" "length (dec_rest (fst r)) < k"
        using body_step [OF r] wf1 less Suc.prems(2) dec_step_rest_le [OF body_step [OF r] wf1] dec_step_wf
        by auto
      from Suc.IH [OF this, of "snd r"] Parsed f Some show ?thesis
        by (cases p; cases r) simp
    qed (use f Some in \<open>cases p; simp\<close>)
  qed (use f in simp)
qed simp

lemma parse_struct_total: "dec_wf dec \<Longrightarrow> parse_struct body st dec \<noteq> Stuck"
proof -
  assume "dec_wf dec"
  then have "dec_wf (thrift_read_struct_begin dec)"
    using struct_begin_step dec_step_wf by blast
  then have "field_loop (Suc (dec_remaining (thrift_read_struct_begin dec))) body st (thrift_read_struct_begin dec) \<noteq> Stuck"
    by (intro field_loop_total) (simp_all add: dec_remaining_rest)
  then show ?thesis
    unfolding parse_struct_def Let_def
    by (cases "field_loop (Suc (dec_remaining (thrift_read_struct_begin dec))) body st (thrift_read_struct_begin dec)")
      (auto split: prod.splits)
qed

lemma parse_struct_parsed:
  assumes "parse_struct body st dec = Parsed (dec', st')"
  shows "dec_step dec dec'" "dec_wf dec \<Longrightarrow> ok st \<Longrightarrow> ok st'"
proof -
  obtain dec2 where l: "field_loop (Suc (dec_remaining (thrift_read_struct_begin dec))) body st
        (thrift_read_struct_begin dec) = Parsed (dec2, st')" "dec' = thrift_read_struct_end dec2"
    using assms unfolding parse_struct_def Let_def
    by (cases "field_loop (Suc (dec_remaining (thrift_read_struct_begin dec))) body st (thrift_read_struct_begin dec)") auto
  note p = field_loop_parsed [OF l(1)]
  show "dec_step dec dec'"
    using p struct_begin_step struct_end_step dec_step_trans unfolding l(2) by blast
  show "ok st'" if "dec_wf dec" "ok st"
    using p that struct_begin_step dec_step_wf by blast
qed

end

lemma parse_then_Parsed [simp]:
  "parse_then p k = Parsed y \<longleftrightarrow> (\<exists>x. p = Parsed x \<and> k x = Parsed y)"
  by (cases p) simp_all

lemma parse_then_Stuck [simp]:
  "parse_then p k = Stuck \<longleftrightarrow> p = Stuck \<or> (\<exists>x. p = Parsed x \<and> k x = Stuck)"
  by (cases p) simp_all

lemma skip_unknown_total: "dec_wf dec \<Longrightarrow> skip_unknown st dec ty \<noteq> Stuck"
  using thrift_skip_depth_total [of dec "Suc (dec_remaining dec)" ty] dec_remaining_rest [of dec]
  by (auto simp: skip_unknown_def thrift_skip_field_def thrift_skip_def split: option.split)

lemma skip_unknown_parsed: "skip_unknown st dec ty = Parsed (dec', st') \<Longrightarrow> dec_step dec dec' \<and> st' = st"
  using thrift_skip_depth_step [of "Suc (dec_remaining dec)" dec ty dec']
  by (auto simp: skip_unknown_def thrift_skip_field_def thrift_skip_def split: option.splits)

lemma parse_count_total: "parse_count dec \<noteq> Stuck"
  by (simp add: parse_count_def split: prod.split)

lemma parse_count_step: "parse_count dec = Parsed (dec', n) \<Longrightarrow> dec_step dec dec'"
  using read_list_begin_step_frame [of dec] by (auto simp: parse_count_def split: prod.splits if_splits)

lemma read_bool_step [dec_steps]: "thrift_read_bool dec = (dec', v) \<Longrightarrow> dec_step dec dec'"
  by (auto simp: thrift_read_bool_def Let_def split: if_splits prod.splits intro: dec_steps)

lemma read_i32_step [dec_steps]: "thrift_read_i32 dec = (dec', v) \<Longrightarrow> dec_step dec dec'"
  and read_i64_step [dec_steps]: "thrift_read_i64 dec = (dec', w) \<Longrightarrow> dec_step dec dec'"
  by (auto simp: thrift_read_i32_def thrift_read_i64_def Let_def split: prod.splits intro: read_zigzag_step)

lemma read_bools_parsed:
  "read_bools n dec = (dec', vs) \<Longrightarrow> dec_step dec dec' \<and> length vs = n"
proof (induction n arbitrary: dec vs)
  case (Suc n)
  obtain dec1 v where v: "thrift_read_bool dec = (dec1, v)" by fastforce
  obtain ws where "read_bools n dec1 = (dec', ws)" "vs = v # ws"
    using Suc.prems v by (cases "read_bools n dec1") auto
  then show ?case
    using Suc.IH read_bool_step [OF v] by (auto intro: dec_step_trans)
qed auto

lemma read_i64s_parsed:
  "read_i64s n dec = (dec', vs) \<Longrightarrow> dec_step dec dec' \<and> length vs = n"
proof (induction n arbitrary: dec vs)
  case (Suc n)
  obtain dec1 v where v: "thrift_read_i64 dec = (dec1, v)" by fastforce
  obtain ws where "read_i64s n dec1 = (dec', ws)" "vs = v # ws"
    using Suc.prems v by (cases "read_i64s n dec1") auto
  then show ?case
    using Suc.IH read_i64_step [OF v] by (auto intro: dec_step_trans)
qed auto

text \<open>A pointer with its length: NULL and 0, or that many bytes, at least one.\<close>

definition stat_ok :: "bytes option \<times> i32 \<Rightarrow> bool" where
  "stat_ok s = (case s of (None, len) \<Rightarrow> len = 0 | (Some d, len) \<Rightarrow> 0 < sint len \<and> length d = unat len)"

lemma read_binary_length:
  assumes "dec_wf dec" "thrift_read_binary dec = (dec', Some d, len)"
  shows "length d = unat len"
proof -
  obtain dec1 n where v: "thrift_read_varint dec = (dec1, n)" by fastforce
  have wf: "dec_wf dec1"
    using read_varint_step [OF v] assms(1) by (rule dec_step_wf)
  have len: "len = ucast n" "d = take (unat len) (carquet_buffer_reader_peek (dec_reader dec1))"
    and has: "has_bytes dec1 (ucast len)"
    using assms(2) v by (auto simp: thrift_read_binary_def Let_def split: if_splits)
  have "carquet_buffer_reader_peek (dec_reader dec1) = dec_rest dec1"
    by (simp add: dec_rest_def reader_rest_def carquet_buffer_reader_peek_def)
  moreover have "unat len \<le> length (dec_rest dec1)"
    using has has_bytes_iff [OF wf, of "ucast len"] unat_i32_as_size [of len] by simp
  ultimately show ?thesis
    using len(2) by simp
qed

lemma read_binaries_total: "read_binaries al n dec \<noteq> Stuck"
proof (induction n arbitrary: dec)
  case (Suc n)
  show ?case
    using Suc.IH by (auto split: prod.splits option.splits if_splits)
qed simp

lemma read_binaries_parsed:
  "read_binaries al n dec = Parsed (dec', vs) \<Longrightarrow>
   dec_step dec dec' \<and> length vs = n \<and> (dec_wf dec \<longrightarrow> list_all stat_ok vs)"
proof (induction n arbitrary: dec vs)
  case (Suc n)
  obtain dec1 bin len where b: "thrift_read_binary dec = (dec1, bin, len)" by (metis prod_cases3)
  obtain v ws where v: "vs = v # ws" "read_binaries al n dec1 = Parsed (dec', ws)"
      "dec_wf dec \<longrightarrow> stat_ok v"
    using Suc.prems b read_binary_length [of dec dec1 _ len]
    by (auto simp: stat_ok_def split: option.splits if_splits)
  note s = read_binary_step [OF b]
  from Suc.IH [OF v(2)] v(1, 3) s show ?case
    using dec_step_wf by (auto intro: dec_step_trans)
qed auto

subsection \<open>The invariant of a column index\<close>

definition stats_ok :: "bytes option list option \<Rightarrow> i32 list option \<Rightarrow> nat \<Rightarrow> bool" where
  "stats_ok vals lens n \<longleftrightarrow>
     (case (vals, lens) of
        (None, None) \<Rightarrow> True
      | (Some vs, Some ls) \<Rightarrow> length vs = n \<and> length ls = n \<and> list_all stat_ok (zip vs ls)
      | _ \<Rightarrow> False)"

definition counted :: "'a list option \<Rightarrow> nat \<Rightarrow> bool" where
  "counted arr n \<longleftrightarrow> (case arr of None \<Rightarrow> True | Some xs \<Rightarrow> length xs = n)"

definition cx_ok :: "carquet_column_index \<Rightarrow> bool" where
  "cx_ok ci \<longleftrightarrow>
     counted (cx_null_counts ci) (cx_num_null_counts ci) \<and> counted (cx_null_pages ci) (cx_num_null_pages ci) \<and>
     stats_ok (cx_min_values ci) (cx_min_value_lens ci) (cx_num_min_values ci) \<and>
     stats_ok (cx_max_values ci) (cx_max_value_lens ci) (cx_num_max_values ci)"

definition ox_ok :: "carquet_offset_index \<Rightarrow> bool" where
  "ox_ok oi \<longleftrightarrow> (case ox_page_locations oi of None \<Rightarrow> ox_num_pages oi = 0 | Some locs \<Rightarrow> length locs = ox_num_pages oi)"

lemma zip_fst_snd: "zip (map fst vs) (map snd vs) = vs"
  by (induction vs) auto

lemma stats_ok_pairs: "stats_ok (Some (map fst vs)) (Some (map snd vs)) n \<longleftrightarrow> length vs = n \<and> list_all stat_ok vs"
  by (auto simp: stats_ok_def zip_fst_snd)

lemma column_index_list_fields:
  "parse_null_pages al ci dec \<noteq> Stuck" "parse_min_values al ci dec \<noteq> Stuck"
  "parse_max_values al ci dec \<noteq> Stuck" "parse_null_counts al ci dec \<noteq> Stuck"
  using parse_count_total read_binaries_total
  by (auto simp: parse_null_pages_def parse_min_values_def parse_max_values_def parse_null_counts_def
      split: prod.splits if_splits)

lemma column_index_list_fields_parsed:
  "parse_null_pages al ci dec = Parsed (dec', ci') \<Longrightarrow> dec_step dec dec' \<and> (dec_wf dec \<longrightarrow> cx_ok ci \<longrightarrow> cx_ok ci')"
  "parse_null_counts al ci dec = Parsed (dec', ci') \<Longrightarrow> dec_step dec dec' \<and> (dec_wf dec \<longrightarrow> cx_ok ci \<longrightarrow> cx_ok ci')"
  "parse_min_values al ci dec = Parsed (dec', ci') \<Longrightarrow> dec_step dec dec' \<and> (dec_wf dec \<longrightarrow> cx_ok ci \<longrightarrow> cx_ok ci')"
  "parse_max_values al ci dec = Parsed (dec', ci') \<Longrightarrow> dec_step dec dec' \<and> (dec_wf dec \<longrightarrow> cx_ok ci \<longrightarrow> cx_ok ci')"
proof -
  show "parse_null_pages al ci dec = Parsed (dec', ci') \<Longrightarrow> dec_step dec dec' \<and> (dec_wf dec \<longrightarrow> cx_ok ci \<longrightarrow> cx_ok ci')"
    by (auto simp: parse_null_pages_def cx_ok_def counted_def split: if_splits prod.splits option.splits
        dest!: parse_count_step read_bools_parsed intro: dec_step_trans)
  show "parse_null_counts al ci dec = Parsed (dec', ci') \<Longrightarrow> dec_step dec dec' \<and> (dec_wf dec \<longrightarrow> cx_ok ci \<longrightarrow> cx_ok ci')"
    by (auto simp: parse_null_counts_def cx_ok_def counted_def split: if_splits prod.splits option.splits
        dest!: parse_count_step read_i64s_parsed intro: dec_step_trans)
  have "dec_step dec dec' \<and> length vs = n \<and> (dec_wf dec \<longrightarrow> list_all stat_ok vs)"
    if "parse_count dec = Parsed (dec1, n)" "read_binaries al n dec1 = Parsed (dec', vs)" for dec1 n vs
    using parse_count_step [OF that(1)] read_binaries_parsed [OF that(2)] dec_step_wf
    by (blast intro: dec_step_trans)
  note binaries = this
  show "parse_min_values al ci dec = Parsed (dec', ci') \<Longrightarrow> dec_step dec dec' \<and> (dec_wf dec \<longrightarrow> cx_ok ci \<longrightarrow> cx_ok ci')"
    by (auto simp: parse_min_values_def cx_ok_def stats_ok_pairs split: if_splits dest!: binaries)
  show "parse_max_values al ci dec = Parsed (dec', ci') \<Longrightarrow> dec_step dec dec' \<and> (dec_wf dec \<longrightarrow> cx_ok ci \<longrightarrow> cx_ok ci')"
    by (auto simp: parse_max_values_def cx_ok_def stats_ok_pairs split: if_splits dest!: binaries)
qed

interpretation column_fields: field_parser "column_index_field al" cx_ok for al
proof
  show "column_index_field al st dec ty fid \<noteq> Stuck" if "dec_wf dec" for st dec ty fid
    by (simp add: column_index_field_def column_index_list_fields skip_unknown_total [OF that] split: prod.split)
  have order: "cx_ok (ci\<lparr>cx_boundary_order := v\<rparr>) = cx_ok ci" for ci v
    by (simp add: cx_ok_def)
  show "dec_step dec dec'" if "column_index_field al st dec ty fid = Parsed (dec', st')" for st dec ty fid dec' st'
    using that by (auto simp: column_index_field_def split: if_splits prod.splits
        dest: column_index_list_fields_parsed skip_unknown_parsed intro: dec_steps)
  show "cx_ok st'" if "column_index_field al st dec ty fid = Parsed (dec', st')" "dec_wf dec" "cx_ok st"
    for st dec ty fid dec' st'
    using that by (auto simp: column_index_field_def order split: if_splits prod.splits
        dest: column_index_list_fields_parsed skip_unknown_parsed)
qed

interpretation location_fields: field_parser location_field "\<lambda>_. True"
proof
  show "location_field st dec ty fid \<noteq> Stuck" if "dec_wf dec" for st dec ty fid
    by (simp add: location_field_def skip_unknown_total [OF that] split: prod.split)
  show "dec_step dec dec'" if "location_field st dec ty fid = Parsed (dec', st')" for st dec ty fid dec' st'
    using that by (auto simp: location_field_def split: if_splits prod.splits dest: skip_unknown_parsed intro: dec_steps)
qed simp

lemma read_locations_total: "dec_wf dec \<Longrightarrow> read_locations n dec \<noteq> Stuck"
proof (induction n arbitrary: dec)
  case (Suc n)
  have "read_locations n dec1 \<noteq> Stuck" if "parse_struct location_field zero_location dec = Parsed (dec1, loc)" for dec1 loc
    using location_fields.parse_struct_parsed(1) [OF that] Suc.prems by (intro Suc.IH) (rule dec_step_wf)
  then show ?case
    using location_fields.parse_struct_total [OF Suc.prems] by auto
qed simp

lemma read_locations_parsed:
  "read_locations n dec = Parsed (dec', locs) \<Longrightarrow> dec_step dec dec' \<and> length locs = n"
proof (induction n arbitrary: dec locs)
  case (Suc n)
  then obtain dec1 loc locs' where l: "parse_struct location_field zero_location dec = Parsed (dec1, loc)"
      "read_locations n dec1 = Parsed (dec', locs')" "locs = loc # locs'"
    by auto
  then show ?case
    using location_fields.parse_struct_parsed(1) [OF l(1)] Suc.IH [OF l(2)] by (auto intro: dec_step_trans)
qed auto

lemma offset_index_field_parsed:
  assumes "offset_index_field al oi dec ty fid = Parsed (dec', oi')"
  shows "dec_step dec dec' \<and> (ox_ok oi \<longrightarrow> ox_ok oi')"
proof (cases "fid = 1")
  case True
  then obtain dec1 n locs where l: "parse_count dec = Parsed (dec1, n)" "read_locations n dec1 = Parsed (dec', locs)"
      "oi' = oi\<lparr>ox_num_pages := n, ox_page_locations := Some locs\<rparr>"
    using assms by (auto simp: offset_index_field_def split: if_splits)
  then show ?thesis
    using parse_count_step [OF l(1)] read_locations_parsed [OF l(2)] by (auto simp: ox_ok_def intro: dec_step_trans)
next
  case False
  then show ?thesis
    using assms by (auto simp: offset_index_field_def dest: skip_unknown_parsed)
qed

interpretation offset_fields: field_parser "offset_index_field al" ox_ok for al
proof
  show "offset_index_field al st dec ty fid \<noteq> Stuck" if "dec_wf dec" for st dec ty fid
  proof -
    have "read_locations n dec1 \<noteq> Stuck" if "parse_count dec = Parsed (dec1, n)" for dec1 n
      using parse_count_step [OF that] \<open>dec_wf dec\<close> by (intro read_locations_total) (rule dec_step_wf)
    then show ?thesis
      by (auto simp: offset_index_field_def skip_unknown_total [OF that] parse_count_total split: if_splits)
  qed
qed (auto dest: offset_index_field_parsed)

subsection \<open>Accessing a parsed index\<close>

lemma entry_or_counted: "counted arr n \<Longrightarrow> entry_or arr n i x \<noteq> Invalid_Access"
  by (auto simp: counted_def entry_or_def split: option.splits)

text \<open>The pointer and the length of a statistic come from the same page.\<close>

lemma entry_or_stats:
  assumes "stats_ok vals lens n"
  obtains v len where "entry_or vals n i None = Done v" "entry_or lens n i 0 = Done len" "stat_ok (v, len)"
proof (cases "vals = None \<or> n \<le> i")
  case True
  then show ?thesis
    using assms that [of None 0] by (auto simp: stats_ok_def entry_or_def stat_ok_def split: option.splits)
next
  case False
  then obtain vs ls where v: "vals = Some vs" "lens = Some ls" "length vs = n" "length ls = n"
      "list_all stat_ok (zip vs ls)"
    using assms by (auto simp: stats_ok_def split: option.splits)
  then have "stat_ok (vs ! i, ls ! i)"
    using False by (auto simp: list_all_length)
  then show ?thesis
    using that [of "vs ! i" "ls ! i"] v False by (simp add: entry_or_def)
qed

lemma clamp_ok: "cx_ok (clamp_column_index ci) = cx_ok ci"
  by (simp add: clamp_column_index_def cx_ok_def Let_def)

lemma column_index_parsed_ok:
  assumes "carquet_column_index_parse al (Some bs) = Parsed ci" "length bs < 2 ^ 63"
  shows "cx_ok ci"
proof -
  obtain dec ci0 where p: "parse_struct (column_index_field al) empty_column_index (thrift_decoder_init bs) = Parsed (dec, ci0)"
      "ci = clamp_column_index ci0"
    using assms(1) by (auto simp: carquet_column_index_parse_def split: if_splits)
  have "cx_ok empty_column_index"
    by (simp add: cx_ok_def empty_column_index_def counted_def stats_ok_def)
  then show ?thesis
    using column_fields.parse_struct_parsed(2) [OF p(1) dec_wf_init [OF assms(2)]] p(2) by (simp add: clamp_ok)
qed

lemma column_index_parse_total:
  "length bs < 2 ^ 63 \<Longrightarrow> carquet_column_index_parse al (Some bs) \<noteq> Stuck"
  using column_fields.parse_struct_total [OF dec_wf_init]
  by (auto simp: carquet_column_index_parse_def split: if_splits)

lemma offset_index_parsed_ok:
  assumes "carquet_offset_index_parse al (Some bs) = Parsed oi" "length bs < 2 ^ 63"
  shows "ox_ok oi"
  using assms offset_fields.parse_struct_parsed(2) [OF _ dec_wf_init [OF assms(2)]]
  by (fastforce simp: carquet_offset_index_parse_def ox_ok_def split: if_splits)

lemma offset_index_parse_total:
  "length bs < 2 ^ 63 \<Longrightarrow> carquet_offset_index_parse al (Some bs) \<noteq> Stuck"
  using offset_fields.parse_struct_total [OF dec_wf_init]
  by (auto simp: carquet_offset_index_parse_def split: if_splits)

lemma page_stats_ok:
  assumes "cx_ok ci"
  obtains "carquet_column_index_get_page_stats ci i = Done (Inl CARQUET_ERROR_INVALID_ARGUMENT)"
    "i < 0 \<or> int (cx_num_pages ci) \<le> i"
  | s where "carquet_column_index_get_page_stats ci i = Done (Inr s)" "0 \<le> i" "i < int (cx_num_pages ci)"
    "stat_ok (ps_min_value s, ps_min_value_size s)" "stat_ok (ps_max_value s, ps_max_value_size s)"
proof (cases "i < 0 \<or> int (cx_num_pages ci) \<le> i")
  case True
  then show ?thesis
    using that(1) by (simp add: carquet_column_index_get_page_stats_def)
next
  case False
  obtain mn mnl where mn: "entry_or (cx_min_values ci) (cx_num_min_values ci) (nat i) None = Done mn"
      "entry_or (cx_min_value_lens ci) (cx_num_min_values ci) (nat i) 0 = Done mnl" "stat_ok (mn, mnl)"
    using entry_or_stats assms unfolding cx_ok_def by metis
  obtain mx mxl where mx: "entry_or (cx_max_values ci) (cx_num_max_values ci) (nat i) None = Done mx"
      "entry_or (cx_max_value_lens ci) (cx_num_max_values ci) (nat i) 0 = Done mxl" "stat_ok (mx, mxl)"
    using entry_or_stats assms unfolding cx_ok_def by metis
  obtain nc np where "entry_or (cx_null_counts ci) (cx_num_null_counts ci) (nat i) 0 = Done nc"
      "entry_or (cx_null_pages ci) (cx_num_null_pages ci) (nat i) False = Done np"
    using assms entry_or_counted unfolding cx_ok_def by (metis access.exhaust)
  then show ?thesis
    using that(2) [of "\<lparr>ps_null_count = nc, ps_min_value = mn, ps_min_value_size = mnl,
        ps_max_value = mx, ps_max_value_size = mxl, ps_is_null_page = np\<rparr>"] False mn mx
    by (simp add: carquet_column_index_get_page_stats_def)
qed

section \<open>The builder as a list of pages\<close>

lemma and_then_invalid: "and_then a (\<lambda>_. Invalid_Access) = Invalid_Access"
  by (cases a) simp_all

fun live :: "'a array \<Rightarrow> 'a list" where
  "live (Live xs) = xs"
| "live Dangling = []"

definition array_ok :: "nat \<Rightarrow> 'a array \<Rightarrow> bool" where
  "array_ok n a \<longleftrightarrow> a \<noteq> Dangling \<and> length (live a) = n"

lemma array_ok_Live: "array_ok n a \<longleftrightarrow> (\<exists>xs. a = Live xs \<and> length xs = n)"
  by (cases a) (auto simp: array_ok_def)

lemma array_store_ok:
  "array_ok n a \<Longrightarrow> i < n \<Longrightarrow> array_store a i v = Done (Live ((live a)[i := v]))"
  by (auto simp: array_ok_Live array_store_def)

lemma array_read_ok: "array_ok n a \<Longrightarrow> k \<le> n \<Longrightarrow> array_read k a = Done (take k (live a))"
  by (auto simp: array_ok_Live array_read_def)

text \<open>An entry of the two arrays of a statistic; a stale length beside a NULL does not count.\<close>

definition stat_entry :: "bytes option list \<Rightarrow> i32 list \<Rightarrow> nat \<Rightarrow> bytes option \<times> i32" where
  "stat_entry vals lens i = (vals ! i, if vals ! i = None then 0 else lens ! i)"

definition cib_page :: "carquet_column_index_builder \<Rightarrow> nat \<Rightarrow> carquet_page_stats" where
  "cib_page b i =
     (let mn = stat_entry (live (cib_min_values b)) (live (cib_min_value_lens b)) i;
          mx = stat_entry (live (cib_max_values b)) (live (cib_max_value_lens b)) i in
      \<lparr>ps_null_count = live (cib_null_counts b) ! i, ps_min_value = fst mn, ps_min_value_size = snd mn,
       ps_max_value = fst mx, ps_max_value_size = snd mx, ps_is_null_page = live (cib_null_pages b) ! i\<rparr>)"

definition cib_pages :: "carquet_column_index_builder \<Rightarrow> carquet_page_stats list" where
  "cib_pages b = map (cib_page b) [0..<cib_num_pages b]"

definition stats_array_ok :: "nat \<Rightarrow> nat \<Rightarrow> bytes option array \<Rightarrow> i32 array \<Rightarrow> bool" where
  "stats_array_ok cap n vals lens \<longleftrightarrow> array_ok cap vals \<and> array_ok cap lens \<and>
     (\<forall>i < n. stat_ok (stat_entry (live vals) (live lens) i)) \<and> (\<forall>i < cap. n \<le> i \<longrightarrow> live vals ! i = None)"

definition cib_ok :: "carquet_column_index_builder \<Rightarrow> bool" where
  "cib_ok b \<longleftrightarrow> 0 < cib_capacity b \<and> cib_num_pages b \<le> cib_capacity b \<and>
     array_ok (cib_capacity b) (cib_null_counts b) \<and> array_ok (cib_capacity b) (cib_null_pages b) \<and>
     stats_array_ok (cib_capacity b) (cib_num_pages b) (cib_min_values b) (cib_min_value_lens b) \<and>
     stats_array_ok (cib_capacity b) (cib_num_pages b) (cib_max_values b) (cib_max_value_lens b)"

text \<open>The statistic that a pointer and a length stand for.\<close>

definition stat_of :: "bytes option \<Rightarrow> i32 \<Rightarrow> bytes option \<times> i32" where
  "stat_of v len =
     (case v of None \<Rightarrow> (None, 0) | Some d \<Rightarrow> if 0 < sint len then (Some (take (unat len) d), len) else (None, 0))"

definition stat_readable :: "bytes option \<Rightarrow> i32 \<Rightarrow> bool" where
  "stat_readable v len \<longleftrightarrow> (case v of None \<Rightarrow> True | Some d \<Rightarrow> 0 < sint len \<longrightarrow> unat len \<le> length d)"

definition cib_new_page ::
    "i64 \<Rightarrow> bytes option \<Rightarrow> i32 \<Rightarrow> bytes option \<Rightarrow> i32 \<Rightarrow> bool \<Rightarrow> carquet_page_stats" where
  "cib_new_page null_count mn mn_len mx mx_len null_page =
     \<lparr>ps_null_count = null_count, ps_min_value = fst (stat_of mn mn_len), ps_min_value_size = snd (stat_of mn mn_len),
      ps_max_value = fst (stat_of mx mx_len), ps_max_value_size = snd (stat_of mx mx_len), ps_is_null_page = null_page\<rparr>"

lemma stat_of_ok: "stat_readable v len \<Longrightarrow> stat_ok (stat_of v len)"
  by (auto simp: stat_readable_def stat_of_def stat_ok_def split: option.splits)

text \<open>Growing the arrays changes no entry.\<close>

lemma realloc_block_ok:
  "array_ok n a \<Longrightarrow> n \<le> m \<Longrightarrow> array_ok m (realloc_block fill m a)"
  "array_ok n a \<Longrightarrow> i < n \<Longrightarrow> live (realloc_block fill m a) ! i = live a ! i"
  "array_ok n a \<Longrightarrow> n \<le> i \<Longrightarrow> i < m \<Longrightarrow> live (realloc_block fill m a) ! i = fill i"
  by (auto simp: array_ok_Live nth_append)

lemma stats_array_grows:
  assumes "stats_array_ok cap n vals lens" "n \<le> cap" "cap \<le> m"
  shows "stats_array_ok m n (realloc_block (\<lambda>_. None) m vals) (realloc_block (\<lambda>_. 0) m lens)"
    "i < n \<Longrightarrow> stat_entry (live (realloc_block (\<lambda>_. None) m vals)) (live (realloc_block (\<lambda>_. 0) m lens)) i =
       stat_entry (live vals) (live lens) i"
proof -
  have a: "array_ok cap vals" "array_ok cap lens"
    using assms(1) by (simp_all add: stats_array_ok_def)
  show e: "stat_entry (live (realloc_block (\<lambda>_. None) m vals)) (live (realloc_block (\<lambda>_. 0) m lens)) i =
       stat_entry (live vals) (live lens) i" if "i < n" for i
    using that assms(2) realloc_block_ok(2) [OF a(1), of i] realloc_block_ok(2) [OF a(2), of i]
    by (simp add: stat_entry_def)
  have "live (realloc_block (\<lambda>_. None) m vals) ! i = None" if "i < m" "n \<le> i" for i
  proof (cases "i < cap")
    case True
    then show ?thesis
      using realloc_block_ok(2) [OF a(1) True] that assms(1) by (auto simp: stats_array_ok_def)
  next
    case False
    then show ?thesis
      using realloc_block_ok(3) [OF a(1) _ that(1)] by simp
  qed
  then show "stats_array_ok m n (realloc_block (\<lambda>_. None) m vals) (realloc_block (\<lambda>_. 0) m lens)"
    using assms realloc_block_ok(1) [OF a(1) assms(3)] realloc_block_ok(1) [OF a(2) assms(3)] e
    by (simp add: stats_array_ok_def)
qed

lemma ensure_capacity_ok:
  assumes "cib_ok b" "cib_num_pages b < 2 ^ 30"
  obtains (room) b' where "column_index_ensure_capacity al b = Done (b', CARQUET_OK)" "cib_ok b'"
      "cib_num_pages b' = cib_num_pages b" "cib_num_pages b' < cib_capacity b'" "cib_pages b' = cib_pages b"
  | (refused) b' where "column_index_ensure_capacity al b = Done (b', CARQUET_ERROR_OUT_OF_MEMORY)"
      "cib_num_pages b = cib_capacity b" "\<exists>n. \<not> alloc_grants al n"
proof (cases "cib_num_pages b < cib_capacity b")
  case True
  then show ?thesis
    using room [of b] assms by (simp add: column_index_ensure_capacity_def)
next
  case False
  let ?m = "cib_capacity b * 2"
  have full: "cib_num_pages b = cib_capacity b" "cib_capacity b \<le> ?m" "cib_capacity b < ?m"
    using False assms by (auto simp: cib_ok_def)
  have grow: "double_capacity (cib_capacity b) = Done ?m"
    using full(1) assms(2) by (simp add: double_capacity_def)
  have valid: "array_valid (cib_null_counts b) = Done ()" "array_valid (cib_min_values b) = Done ()"
    "array_valid (cib_min_value_lens b) = Done ()" "array_valid (cib_max_values b) = Done ()"
    "array_valid (cib_max_value_lens b) = Done ()" "array_valid (cib_null_pages b) = Done ()"
    using assms by (auto simp: cib_ok_def stats_array_ok_def array_ok_Live array_valid_def)
  show ?thesis
  proof (cases "array_grant al ?m 8 \<and> array_grant al ?m 4 \<and> array_grant al ?m 1")
    case grant: True
    define b' where "b' = b\<lparr>cib_null_counts := realloc_block (\<lambda>_. 0) ?m (cib_null_counts b),
            cib_min_values := realloc_block (\<lambda>_. None) ?m (cib_min_values b),
            cib_min_value_lens := realloc_block (\<lambda>_. 0) ?m (cib_min_value_lens b),
            cib_max_values := realloc_block (\<lambda>_. None) ?m (cib_max_values b),
            cib_max_value_lens := realloc_block (\<lambda>_. 0) ?m (cib_max_value_lens b),
            cib_null_pages := realloc_block (\<lambda>_. False) ?m (cib_null_pages b),
            cib_capacity := ?m\<rparr>"
    have run: "column_index_ensure_capacity al b = Done (b', CARQUET_OK)"
      using False grant by (simp add: column_index_ensure_capacity_def grow valid b'_def)
    have arrays: "array_ok (cib_capacity b) (cib_null_counts b)" "array_ok (cib_capacity b) (cib_null_pages b)"
      and mins: "stats_array_ok (cib_capacity b) (cib_num_pages b) (cib_min_values b) (cib_min_value_lens b)"
      and maxs: "stats_array_ok (cib_capacity b) (cib_num_pages b) (cib_max_values b) (cib_max_value_lens b)"
      using assms by (simp_all add: cib_ok_def)
    have "cib_page b' i = cib_page b i" if "i < cib_num_pages b" for i
      using that full realloc_block_ok(2) [OF arrays(1), of i] realloc_block_ok(2) [OF arrays(2), of i]
        stats_array_grows(2) [OF mins _ full(2) that] stats_array_grows(2) [OF maxs _ full(2) that]
      by (simp add: cib_page_def b'_def)
    then have "cib_pages b' = cib_pages b"
      by (simp add: cib_pages_def b'_def)
    moreover have "cib_ok b'"
      using full realloc_block_ok(1) [OF arrays(1) full(2)] realloc_block_ok(1) [OF arrays(2) full(2)]
        stats_array_grows(1) [OF mins _ full(2)] stats_array_grows(1) [OF maxs _ full(2)] assms
      by (simp add: cib_ok_def b'_def)
    ultimately show ?thesis
      using room [OF run] full by (simp add: b'_def)
  next
    case deny: False
    then have "\<exists>n. \<not> alloc_grants al n"
      by (auto simp: array_grant_def)
    then show ?thesis
      using False deny refused full by (simp add: column_index_ensure_capacity_def grow valid)
  qed
qed

lemma put_stat_ok:
  assumes "stats_array_ok cap n vals lens" "n < cap" "stat_readable v len"
  obtains (stored) vals' lens' where "put_stat al n v len vals lens = Done (vals', lens', True)"
      "stats_array_ok cap (Suc n) vals' lens'" "stat_entry (live vals') (live lens') n = stat_of v len"
      "\<And>i. i < n \<Longrightarrow> stat_entry (live vals') (live lens') i = stat_entry (live vals) (live lens) i"
  | (refused) vals' where "put_stat al n v len vals lens = Done (vals', lens, False)" "stats_array_ok cap n vals' lens"
      "\<And>i. i < n \<Longrightarrow> stat_entry (live vals') (live lens) i = stat_entry (live vals) (live lens) i"
      "\<exists>n. \<not> alloc_grants al n"
proof -
  have a: "array_ok cap vals" "array_ok cap lens" and old: "\<forall>i < n. stat_ok (stat_entry (live vals) (live lens) i)"
    and none: "\<forall>i < cap. n \<le> i \<longrightarrow> live vals ! i = None"
    using assms(1) by (simp_all add: stats_array_ok_def)
  have len: "length (live vals) = cap" "length (live lens) = cap"
    using a by (simp_all add: array_ok_def)
  note store = array_store_ok [OF a(1) assms(2)] array_store_ok [OF a(2) assms(2)]
  consider (absent) "stat_of v len = (None, 0)" "\<not> (\<exists>d. v = Some d \<and> 0 < sint len)"
    | (present) d where "v = Some d" "0 < sint len" "stat_of v len = (Some (take (unat len) d), len)"
  proof (cases "\<exists>d. v = Some d \<and> 0 < sint len")
    case True
    then show ?thesis using present by (auto simp: stat_of_def)
  next
    case False
    then have "stat_of v len = (None, 0)"
      by (auto simp: stat_of_def split: option.split)
    then show ?thesis using absent False by blast
  qed
  then show ?thesis
  proof cases
    case absent
    have "stat_entry (live vals) (live lens) n = stat_of v len"
      using absent none assms(2) by (simp add: stat_entry_def)
    moreover have "stats_array_ok cap (Suc n) vals lens"
      using a old none assms(2) calculation absent(1) by (auto simp: stats_array_ok_def less_Suc_eq stat_ok_def)
    moreover have "put_stat al n v len vals lens = Done (vals, lens, True)"
      using absent(2) by (auto simp: put_stat_def split: option.split)
    ultimately show ?thesis
      using stored by blast
  next
    case present
    show ?thesis
    proof (cases "alloc_grants al (ucast len)")
      case True
      define vals' lens' where "vals' = Live ((live vals)[n := Some (take (unat len) d)])" and "lens' = Live ((live lens)[n := len])"
      have new: "stat_entry (live vals') (live lens') n = stat_of v len"
        using assms(2) len present(3) by (simp add: stat_entry_def vals'_def lens'_def)
      have keep: "stat_entry (live vals') (live lens') i = stat_entry (live vals) (live lens) i" if "i < n" for i
        using that by (simp add: stat_entry_def vals'_def lens'_def)
      have "stats_array_ok cap (Suc n) vals' lens'"
        unfolding stats_array_ok_def
        using keep new old none stat_of_ok [OF assms(3)] len
        by (auto simp: less_Suc_eq array_ok_def vals'_def lens'_def)
      then show ?thesis
        using stored [of vals' lens'] new keep present True store
        by (simp add: put_stat_def vals'_def lens'_def)
    next
      case False
      define vals' where "vals' = Live ((live vals)[n := None])"
      have keep: "stat_entry (live vals') (live lens) i = stat_entry (live vals) (live lens) i" if "i < n" for i
        using that by (simp add: stat_entry_def vals'_def)
      have "stats_array_ok cap n vals' lens"
        unfolding stats_array_ok_def using keep old none a len
        by (auto simp: array_ok_def vals'_def nth_list_update)
      then show ?thesis
        using refused [of vals'] keep present False store by (auto simp: put_stat_def vals'_def)
    qed
  qed
qed

lemma stats_array_mono:
  "stats_array_ok cap (Suc n) vals lens \<Longrightarrow> n < cap \<Longrightarrow> live vals ! n = None \<Longrightarrow> stats_array_ok cap n vals lens"
  by (auto simp: stats_array_ok_def le_less Suc_le_eq)

text \<open>Clearing the entry behind the last page.\<close>

lemma stats_array_clear:
  assumes "stats_array_ok cap (Suc n) vals lens" "n < cap"
  shows "stats_array_ok cap n (Live ((live vals)[n := None])) lens"
    "i < n \<Longrightarrow> stat_entry ((live vals)[n := None]) ls i = stat_entry (live vals) ls i"
  using assms by (auto simp: stats_array_ok_def array_ok_def stat_entry_def nth_list_update)

lemma cib_pages_appended:
  assumes "cib_num_pages b' = Suc (cib_num_pages b)" "\<And>i. i < cib_num_pages b \<Longrightarrow> cib_page b' i = cib_page b i"
    "cib_page b' (cib_num_pages b) = p"
  shows "cib_pages b' = cib_pages b @ [p]"
  using assms by (simp add: cib_pages_def)

lemma add_page_with_room:
  assumes b: "cib_ok b" "cib_num_pages b < cib_capacity b"
    and cap: "column_index_ensure_capacity al b0 = Done (b, CARQUET_OK)"
    and v: "stat_readable mn mn_len" "stat_readable mx mx_len"
  obtains (added) b' where "carquet_column_index_add_page al (Some b0) nc mn mn_len mx mx_len np = Done (Some b', CARQUET_OK)"
      "cib_ok b'" "cib_pages b' = cib_pages b @ [cib_new_page nc mn mn_len mx mx_len np]"
  | (refused) b' where "carquet_column_index_add_page al (Some b0) nc mn mn_len mx mx_len np =
        Done (Some b', CARQUET_ERROR_OUT_OF_MEMORY)"
      "cib_ok b'" "cib_pages b' = cib_pages b" "\<exists>n. \<not> alloc_grants al n"
proof -
  let ?n = "cib_num_pages b"
  have arrays: "array_ok (cib_capacity b) (cib_null_counts b)" "array_ok (cib_capacity b) (cib_null_pages b)"
    and mins: "stats_array_ok (cib_capacity b) ?n (cib_min_values b) (cib_min_value_lens b)"
    and maxs: "stats_array_ok (cib_capacity b) ?n (cib_max_values b) (cib_max_value_lens b)"
    using b(1) by (simp_all add: cib_ok_def)
  note store = array_store_ok [OF arrays(1) b(2), of nc] array_store_ok [OF arrays(2) b(2), of np]
  have lens: "length (live (cib_null_counts b)) = cib_capacity b" "length (live (cib_null_pages b)) = cib_capacity b"
    using arrays by (simp_all add: array_ok_def)
  define b1 where "b1 = b\<lparr>cib_null_counts := Live ((live (cib_null_counts b))[?n := nc]),
    cib_null_pages := Live ((live (cib_null_pages b))[?n := np])\<rparr>"
  have flat: "array_ok (cib_capacity b) (cib_null_counts b1)" "array_ok (cib_capacity b) (cib_null_pages b1)"
    using lens by (simp_all add: b1_def array_ok_def)
  have run: "carquet_column_index_add_page al (Some b0) nc mn mn_len mx mx_len np =
    and_then (put_stat al ?n mn mn_len (cib_min_values b) (cib_min_value_lens b)) (\<lambda>(mins, min_lens, ok).
      let b2 = b1\<lparr>cib_min_values := mins, cib_min_value_lens := min_lens\<rparr> in
      if \<not> ok then Done (Some b2, CARQUET_ERROR_OUT_OF_MEMORY)
      else
        and_then (put_stat al ?n mx mx_len (cib_max_values b) (cib_max_value_lens b)) (\<lambda>(maxs, max_lens, ok).
        let b3 = b2\<lparr>cib_max_values := maxs, cib_max_value_lens := max_lens\<rparr> in
        if \<not> ok
        then and_then (array_store mins ?n None) (\<lambda>mins'.
          Done (Some (b3\<lparr>cib_min_values := mins'\<rparr>), CARQUET_ERROR_OUT_OF_MEMORY))
        else Done (Some (b3\<lparr>cib_num_pages := Suc ?n\<rparr>), CARQUET_OK)))"
    by (simp add: carquet_column_index_add_page_def cap store b1_def Let_def cong: if_cong prod.case_cong)
  show ?thesis
    using mins b(2) v(1)
  proof (cases rule: put_stat_ok [where al = al])
    case (refused vals)
    let ?b' = "b1\<lparr>cib_min_values := vals, cib_min_value_lens := cib_min_value_lens b\<rparr>"
    have "cib_ok ?b'"
      using b flat maxs refused(2) by (simp add: cib_ok_def b1_def)
    moreover have "cib_pages ?b' = cib_pages b"
      using refused(3) by (simp add: cib_pages_def cib_page_def b1_def)
    ultimately show ?thesis
      using that(2) [of ?b'] refused(1, 4) run by (simp add: Let_def)
  next
    case mn: (stored vals lens')
    let ?b2 = "b1\<lparr>cib_min_values := vals, cib_min_value_lens := lens'\<rparr>"
    show ?thesis
      using maxs b(2) v(2)
    proof (cases rule: put_stat_ok [where al = al])
      case (refused vals2)
      let ?b' = "?b2\<lparr>cib_max_values := vals2, cib_max_value_lens := cib_max_value_lens b,
        cib_min_values := Live ((live vals)[?n := None])\<rparr>"
      have clear: "array_store vals ?n None = Done (Live ((live vals)[?n := None]))"
        using mn(2) b(2) by (intro array_store_ok) (simp_all add: stats_array_ok_def)
      have "cib_ok ?b'"
        using b flat stats_array_clear(1) [OF mn(2) b(2)] refused(2) by (simp add: cib_ok_def b1_def)
      moreover have "cib_pages ?b' = cib_pages b"
        using refused(3) mn(4) stats_array_clear(2) [OF mn(2) b(2)] by (simp add: cib_pages_def cib_page_def b1_def)
      ultimately show ?thesis
        using that(2) [of ?b'] mn(1) refused(1, 4) clear run by (simp add: Let_def)
    next
      case mx: (stored vals2 lens2)
      let ?b' = "?b2\<lparr>cib_max_values := vals2, cib_max_value_lens := lens2, cib_num_pages := Suc ?n\<rparr>"
      have "cib_ok ?b'"
        using b flat mn(2) mx(2) by (simp add: cib_ok_def b1_def)
      moreover have "cib_pages ?b' = cib_pages b @ [cib_new_page nc mn mn_len mx mx_len np]"
      proof (rule cib_pages_appended)
        show "cib_page ?b' i = cib_page b i" if "i < ?n" for i
          using that mn(4) mx(4) by (simp add: cib_page_def b1_def)
        show "cib_page ?b' ?n = cib_new_page nc mn mn_len mx mx_len np"
          using mn(3) mx(3) lens b(2) by (simp add: cib_page_def cib_new_page_def b1_def Let_def)
      qed (simp add: b1_def)
      ultimately show ?thesis
        using that(1) [of ?b'] mn(1) mx(1) run by (simp add: Let_def)
    qed
  qed
qed

section \<open>Properties\<close>




definition int32_index :: carquet_column_index_builder where
  "int32_index =
     \<lparr>cib_type = CARQUET_PHYSICAL_INT32, cib_logical_type = no_logical_type, cib_type_length = 0,
      cib_capacity = 16, cib_num_pages = 0, cib_null_counts = Live (replicate 16 0),
      cib_min_values = Live (replicate 16 None), cib_min_value_lens = Live (replicate 16 0),
      cib_max_values = Live (replicate 16 None), cib_max_value_lens = Live (replicate 16 0),
      cib_null_pages = Live (replicate 16 False), cib_boundary_order = 0\<rparr>"

lemma builder_create_ok:
  assumes "carquet_column_index_builder_create al ty lt len = Some b"
  shows "cib_ok b" "cib_pages b = []"
  using assms by (auto simp: carquet_column_index_builder_create_def cib_ok_def cib_pages_def stats_array_ok_def
      array_ok_def split: if_splits)

lemma int32_index_created:
  "carquet_column_index_builder_create generous CARQUET_PHYSICAL_INT32 None 0 = Some int32_index"
  by (simp add: int32_index_def carquet_column_index_builder_create_def array_grant_def generous_def)



text \<open>An allocator that grants at most 128 bytes; sixteen pages fill the first arrays.\<close>

definition frugal :: allocator where
  "frugal = \<lparr>alloc_grants = (\<lambda>n. n \<le> 128), alloc_fresh = (\<lambda>_. 0)\<rparr>"

definition full_index :: carquet_column_index_builder where
  "full_index = int32_index\<lparr>cib_num_pages := 16\<rparr>"


text \<open>
  \<^verbatim>\<open>carquet_column_index_page_might_match\<close> compares the bytes of floating-point
  statistics. On little-endian storage that is not the order of the numbers: a
  page of doubles between 1.0 and 2.0 is ruled out for the value 1.5.
\<close>

definition f64_1 :: u64 where "f64_1 = 0x3FF0000000000000"
definition f64_1_5 :: u64 where "f64_1_5 = 0x3FF8000000000000"
definition f64_2 :: u64 where "f64_2 = 0x4000000000000000"

definition double_page :: carquet_column_index_builder where
  "double_page =
     \<lparr>cib_type = CARQUET_PHYSICAL_DOUBLE, cib_logical_type = no_logical_type, cib_type_length = 0,
      cib_capacity = 1, cib_num_pages = 1, cib_null_counts = Live [0],
      cib_min_values = Live [Some (le_store 8 f64_1)], cib_min_value_lens = Live [8],
      cib_max_values = Live [Some (le_store 8 f64_2)], cib_max_value_lens = Live [8],
      cib_null_pages = Live [False], cib_boundary_order = 0\<rparr>"

theorem page_might_match_misses_doubles:
  "cib_ok double_page \<and> f64_less f64_1 f64_1_5 \<and> f64_less f64_1_5 f64_2 \<and>
   carquet_column_index_page_might_match (Some double_page) 0 (Some (le_store 8 f64_1_5)) (Some (le_store 8 f64_1_5)) 8 True =
     Done (Inr False)"
proof (intro conjI)
  show "cib_ok double_page"
    by (simp add: cib_ok_def double_page_def stats_array_ok_def array_ok_def stat_ok_def stat_entry_def)
  show "f64_less f64_1 f64_1_5" "f64_less f64_1_5 f64_2"
    by code_simp+
  show "carquet_column_index_page_might_match (Some double_page) 0 (Some (le_store 8 f64_1_5)) (Some (le_store 8 f64_1_5)) 8 True =
     Done (Inr False)"
    by code_simp
qed

end
