(* ===== verification/Page_Index_Roundtrip.thy ===== *)
theory Page_Index_Roundtrip
  imports Page_Index Encoder_State
begin

text \<open>
  The two sides of the page index together: what the builders collected is what the
  accessors return after serialising and parsing, and after a detour through a file.
\<close>

section \<open>The elements of the lists\<close>

definition bool_bytes :: "bool list \<Rightarrow> bytes" where
  "bool_bytes vs = map (\<lambda>v. if v then 1 else 0) vs"

definition stat_bytes :: "bytes option \<times> i32 \<Rightarrow> bytes" where
  "stat_bytes s = (case fst s of None \<Rightarrow> [0] | Some d \<Rightarrow> varint_bytes (word_of_nat (length d) :: u64) @ d)"

definition i64_bytes :: "i64 list \<Rightarrow> bytes" where
  "i64_bytes vs = concat (map (\<lambda>v. varint_bytes (carquet_zigzag_encode64 v)) vs)"

definition i32_bytes :: "i32 list \<Rightarrow> bytes" where
  "i32_bytes vs = concat (map (\<lambda>v. varint_bytes (carquet_zigzag_encode64 (scast v))) vs)"

text \<open>A statistic in a builder may carry a stale length beside a NULL.\<close>

definition stat_clean :: "bytes option \<times> i32 \<Rightarrow> bytes option \<times> i32" where
  "stat_clean s = (fst s, if fst s = None then 0 else snd s)"

lemma positive_i32:
  fixes len :: i32
  assumes "0 < sint len"
  shows "unat len < 2 ^ 31"
proof -
  have bound: "sint len < 2 ^ 31"
    using sint_less [of len] by simp
  have "uint (word_of_int (sint len) :: i32) = sint len"
    unfolding uint_word_of_int_eq using assms bound by (intro take_bit_int_eq_self) simp_all
  then have "uint len = sint len"
    by simp
  then show ?thesis
    using bound by (simp add: unat_eq_nat_uint nat_less_iff)
qed

lemma stat_clean_some:
  assumes "stat_ok (stat_clean s)" "fst s = Some d"
  shows "snd s = word_of_nat (length d)" "length d < 2 ^ 31" "0 < sint (word_of_nat (length d) :: i32)"
proof -
  have s: "0 < sint (snd s)" "length d = unat (snd s)"
    using assms by (auto simp: stat_clean_def stat_ok_def)
  then show "snd s = word_of_nat (length d)" "length d < 2 ^ 31"
    using positive_i32 by simp_all
  with s(1) show "0 < sint (word_of_nat (length d) :: i32)"
    by simp
qed

lemma write_bools_state:
  "enc_state al e0 e ids bs \<Longrightarrow> enc_state al e0 (write_bools al e vs) ids (bs @ bool_bytes vs)"
proof (induction vs arbitrary: e bs)
  case (Cons v vs)
  from Cons.IH [OF enc_state_bool [OF Cons.prems, of v]] show ?case
    by (simp add: bool_bytes_def)
qed (simp add: bool_bytes_def)

lemma write_i64s_state:
  "enc_state al e0 e ids bs \<Longrightarrow> enc_state al e0 (write_i64s al e vs) ids (bs @ i64_bytes vs)"
proof (induction vs arbitrary: e bs)
  case (Cons v vs)
  from Cons.IH [OF enc_state_i64 [OF Cons.prems, of v]] show ?case
    by (simp add: i64_bytes_def)
qed (simp add: i64_bytes_def)

lemma write_i32s_state:
  "enc_state al e0 e ids bs \<Longrightarrow> enc_state al e0 (write_i32s al e vs) ids (bs @ i32_bytes vs)"
proof (induction vs arbitrary: e bs)
  case (Cons v vs)
  from Cons.IH [OF enc_state_i32 [OF Cons.prems, of v]] show ?case
    by (simp add: i32_bytes_def)
qed (simp add: i32_bytes_def)

lemma write_binaries_state:
  "enc_state al e0 e ids bs \<Longrightarrow> list_all (\<lambda>s. stat_ok (stat_clean s)) vs \<Longrightarrow>
   enc_state al e0 (write_binaries al e vs) ids (bs @ concat (map stat_bytes vs))"
proof (induction vs arbitrary: e bs)
  case (Cons s vs)
  obtain v len where s: "s = (v, len)" by fastforce
  have ok: "stat_ok (stat_clean s)" "list_all (\<lambda>s. stat_ok (stat_clean s)) vs"
    using Cons.prems(2) by simp_all
  show ?case
  proof (cases v)
    case None
    from Cons.IH [OF enc_state_null [OF Cons.prems(1)] ok(2)] show ?thesis
      by (simp add: s None stat_bytes_def)
  next
    case (Some d)
    have "len = word_of_nat (length d)" "length d < 2 ^ 31"
      using stat_clean_some [OF ok(1), of d] s Some by simp_all
    with Cons.IH [OF enc_state_binary [OF Cons.prems(1), of d] ok(2)] show ?thesis
      by (simp add: s Some stat_bytes_def)
  qed
qed simp

lemma read_bools_state:
  "dec_state d ids (bool_bytes vs @ r) \<Longrightarrow> \<exists>d'. read_bools (length vs) d = (d', vs) \<and> dec_state d' ids r"
proof (induction vs arbitrary: d)
  case (Cons v vs)
  have "dec_state d ids ((if v then 1 else 0) # bool_bytes vs @ r)"
    using Cons.prems by (simp add: bool_bytes_def)
  then obtain d1 where d1: "thrift_read_bool d = (d1, v)" "dec_state d1 ids (bool_bytes vs @ r)"
    by (rule dec_state_bool)
  from Cons.IH [OF d1(2)] d1(1) show ?case by auto
qed (simp add: bool_bytes_def)

lemma read_i64s_state:
  "dec_state d ids (i64_bytes vs @ r) \<Longrightarrow> \<exists>d'. read_i64s (length vs) d = (d', vs) \<and> dec_state d' ids r"
proof (induction vs arbitrary: d)
  case (Cons v vs)
  have "dec_state d ids (varint_bytes (carquet_zigzag_encode64 v) @ i64_bytes vs @ r)"
    using Cons.prems by (simp add: i64_bytes_def)
  then obtain d1 where d1: "thrift_read_i64 d = (d1, v)" "dec_state d1 ids (i64_bytes vs @ r)"
    by (rule dec_state_i64)
  from Cons.IH [OF d1(2)] d1(1) show ?case by auto
qed (simp add: i64_bytes_def)

lemma read_binaries_state:
  "dec_state d ids (concat (map stat_bytes vs) @ r) \<Longrightarrow> list_all (\<lambda>s. stat_ok (stat_clean s)) vs \<Longrightarrow>
   \<forall>n. alloc_grants al n \<Longrightarrow>
   \<exists>d'. read_binaries al (length vs) d = Parsed (d', map stat_clean vs) \<and> dec_state d' ids r"
proof (induction vs arbitrary: d)
  case (Cons s vs)
  have ok: "stat_ok (stat_clean s)" "list_all (\<lambda>s. stat_ok (stat_clean s)) vs"
    using Cons.prems(2) by simp_all
  let ?r = "concat (map stat_bytes vs) @ r"
  have z: "varint_bytes (0 :: u64) = [0]"
    by (simp add: varint_bytes.simps)
  define x where "x = (case fst s of None \<Rightarrow> [] | Some d \<Rightarrow> d)"
  have x: "length x < 2 ^ 31"
    using stat_clean_some [OF ok(1)] by (auto simp: x_def split: option.split)
  have "dec_state d ids (varint_bytes (word_of_nat (length x) :: u64) @ x @ ?r)"
    using Cons.prems(1) by (cases "fst s") (simp_all add: stat_bytes_def [of s] x_def z)
  then obtain d1 where d1: "thrift_read_binary d = (d1, Some x, word_of_nat (length x))" "dec_state d1 ids ?r"
    using x by (rule dec_state_binary)
  have "(if 0 < sint (word_of_nat (length x) :: i32)
      then if alloc_grants al (ucast (word_of_nat (length x) :: i32))
        then Parsed (Some (take (unat (word_of_nat (length x) :: i32)) x), word_of_nat (length x)) else Null
      else Parsed (None, 0)) = Parsed (stat_clean s)"
  proof (cases "fst s")
    case None
    then show ?thesis by (simp add: x_def stat_clean_def)
  next
    case (Some y)
    then show ?thesis
      using stat_clean_some [OF ok(1) Some] Cons.prems(3)
      by (simp add: x_def stat_clean_def unat_of_nat take_bit_nat_eq_self)
  qed
  moreover obtain d' where "read_binaries al (length vs) d1 = Parsed (d', map stat_clean vs)" "dec_state d' ids r"
    using Cons.IH [OF d1(2) ok(2) Cons.prems(3)] by blast
  ultimately show ?case
    using d1(1) by simp
qed simp

lemma length_elements:
  "length (bool_bytes vs) = length vs" "length ss \<le> length (concat (map stat_bytes ss))"
  "length ws \<le> length (i64_bytes ws)" "length us \<le> length (i32_bytes us)"
proof -
  have v: "1 \<le> length (varint_bytes (w :: u64))" for w
    by (cases "varint_bytes w") auto
  show "length (bool_bytes vs) = length vs"
    by (simp add: bool_bytes_def)
  show "length ss \<le> length (concat (map stat_bytes ss))"
  proof (induction ss)
    case (Cons s ss)
    have "1 \<le> length (stat_bytes s)"
      using v by (auto simp: stat_bytes_def split: option.split intro: trans_le_add1)
    with Cons show ?case by simp
  qed simp
  show "length ws \<le> length (i64_bytes ws)"
  proof (induction ws)
    case (Cons w ws)
    then show ?case
      using v [of "carquet_zigzag_encode64 w"] by (simp add: i64_bytes_def)
  qed simp
  show "length us \<le> length (i32_bytes us)"
  proof (induction us)
    case (Cons u us)
    then show ?case
      using v [of "carquet_zigzag_encode64 (scast u)"] by (simp add: i32_bytes_def)
  qed simp
qed

lemma parse_count_state:
  assumes "dec_state d ids (list_header_bytes et n @ r)" "n \<le> 1000000" "n \<le> length r"
  obtains d' where "parse_count d = Parsed (d', n)" "dec_state d' ids r"
proof -
  obtain d' where d': "thrift_read_list_begin d = (d', et AND 0x0F, word_of_nat n)" "dec_state d' ids r"
    by (rule dec_state_list [OF assms(1) _ assms(3)]) (use assms(2) in simp)
  have "sint (word_of_nat n :: i32) = int n" "unat (word_of_nat n :: i32) = n"
    using assms(2) sint_of_nat_small [where 'a = 32, of n] by (simp_all add: unat_of_nat take_bit_nat_eq_self)
  then show ?thesis
    using that [OF _ d'(2)] d'(1) assms(2) by (simp add: parse_count_def)
qed

section \<open>The field loop on a written struct\<close>

lemma field_loop_field:
  assumes "dec_state d (ids @ [l]) (field_header_bytes l ty fid @ r)"
    "ty AND 0x0F = ty" "ty \<noteq> 0" "ty \<noteq> THRIFT_TYPE_TRUE" "ty \<noteq> THRIFT_TYPE_FALSE"
    "\<And>d1. dec_state d1 (ids @ [fid]) r \<Longrightarrow> \<exists>d2. body st d1 ty fid = Parsed (d2, st2) \<and> dec_state d2 (ids @ [fid]) r2"
  obtains d2 where "dec_state d2 (ids @ [fid]) r2" "field_loop (Suc k) body st d = field_loop k body st2 d2"
proof -
  obtain d1 where d1: "thrift_read_field_begin d = (d1, Some (ty, fid))" "dec_state d1 (ids @ [fid]) r"
    by (rule dec_state_field [OF assms(1-5)])
  obtain d2 where "body st d1 ty fid = Parsed (d2, st2)" "dec_state d2 (ids @ [fid]) r2"
    using assms(6) [OF d1(2)] by blast
  with that [of d2] d1(1) show ?thesis by simp
qed

lemma field_loop_stop:
  assumes "dec_state d ids (0 # r)"
  obtains d' where "dec_state d' ids r" "field_loop (Suc k) body st d = Parsed (d', st)"
  by (rule dec_state_stop [OF assms]) (auto intro: that)

text \<open>
  A struct is parsed by its field loop, which has a step for every byte: \<open>k\<close> fields need
  at least \<open>k\<close> bytes, and the stop field one more.
\<close>

lemma parse_struct_state:
  assumes "dec_state d ids bs" "length ids < THRIFT_MAX_NESTING" "k \<le> length bs"
    "\<And>d1 j. dec_state d1 (ids @ [0]) bs \<Longrightarrow>
       \<exists>d2. field_loop (Suc (k + j)) body st d1 = Parsed (d2, st2) \<and> dec_state d2 (ids @ [l]) r"
  obtains d' where "parse_struct body st d = Parsed (d', st2)" "dec_state d' ids r"
proof -
  let ?d = "thrift_read_struct_begin d"
  have d: "dec_state ?d (ids @ [0]) bs"
    by (rule dec_state_begin [OF assms(1, 2)])
  then have "k \<le> dec_remaining ?d"
    using assms(3) by (simp add: dec_state_def dec_remaining_rest)
  then obtain j where "dec_remaining ?d = k + j"
    using le_Suc_ex by blast
  with assms(4) [OF d, of j] obtain d2
    where "field_loop (Suc (dec_remaining ?d)) body st ?d = Parsed (d2, st2)" "dec_state d2 (ids @ [l]) r"
    by auto
  then show ?thesis
    using that [of "thrift_read_struct_end d2"] dec_state_end by (simp add: parse_struct_def Let_def)
qed

section \<open>The column index\<close>

definition column_index_bytes ::
    "bool list \<Rightarrow> (bytes option \<times> i32) list \<Rightarrow> (bytes option \<times> i32) list \<Rightarrow> i32 \<Rightarrow> i64 list \<Rightarrow> bytes" where
  "column_index_bytes nulls mins maxs order counts =
     field_header_bytes 0 THRIFT_TYPE_LIST 1 @ list_header_bytes THRIFT_TYPE_TRUE (length nulls) @ bool_bytes nulls @
     field_header_bytes 1 THRIFT_TYPE_LIST 2 @ list_header_bytes THRIFT_TYPE_BINARY (length mins) @
       concat (map stat_bytes mins) @
     field_header_bytes 2 THRIFT_TYPE_LIST 3 @ list_header_bytes THRIFT_TYPE_BINARY (length maxs) @
       concat (map stat_bytes maxs) @
     field_header_bytes 3 THRIFT_TYPE_I32 4 @ varint_bytes (carquet_zigzag_encode64 (scast order)) @
     field_header_bytes 4 THRIFT_TYPE_LIST 5 @ list_header_bytes THRIFT_TYPE_I64 (length counts) @ i64_bytes counts @ [0]"

lemma enc_state_list_field:
  assumes "enc_state al e0 e (ids @ [l]) bs" "n < 2 ^ 31"
    "\<And>e1 bs1. enc_state al e0 e1 (ids @ [fid]) bs1 \<Longrightarrow> enc_state al e0 (elems e1) (ids @ [fid]) (bs1 @ xs)"
  shows "enc_state al e0 (write_list_field al e fid et n elems) (ids @ [fid])
    (bs @ field_header_bytes l THRIFT_TYPE_LIST fid @ list_header_bytes et n @ xs)"
  using assms(3) [OF enc_state_list [OF enc_state_field [OF assms(1), of THRIFT_TYPE_LIST fid] assms(2), of et]]
  by (simp add: write_list_field_def)

lemma enc_state_list_fields:
  assumes "enc_state al e0 e (ids @ [l]) bs"
  shows "length vs < 2 ^ 31 \<Longrightarrow> enc_state al e0 (write_list_field al e fid et (length vs) (\<lambda>e. write_bools al e vs)) (ids @ [fid])
      (bs @ field_header_bytes l THRIFT_TYPE_LIST fid @ list_header_bytes et (length vs) @ bool_bytes vs)"
    and "length ws < 2 ^ 31 \<Longrightarrow> enc_state al e0 (write_list_field al e fid et (length ws) (\<lambda>e. write_i64s al e ws)) (ids @ [fid])
      (bs @ field_header_bytes l THRIFT_TYPE_LIST fid @ list_header_bytes et (length ws) @ i64_bytes ws)"
    and "length us < 2 ^ 31 \<Longrightarrow> enc_state al e0 (write_list_field al e fid et (length us) (\<lambda>e. write_i32s al e us)) (ids @ [fid])
      (bs @ field_header_bytes l THRIFT_TYPE_LIST fid @ list_header_bytes et (length us) @ i32_bytes us)"
    and "length ss < 2 ^ 31 \<Longrightarrow> list_all (\<lambda>s. stat_ok (stat_clean s)) ss \<Longrightarrow>
      enc_state al e0 (write_list_field al e fid et (length ss) (\<lambda>e. write_binaries al e ss)) (ids @ [fid])
      (bs @ field_header_bytes l THRIFT_TYPE_LIST fid @ list_header_bytes et (length ss) @ concat (map stat_bytes ss))"
  using assms
  by (blast intro: enc_state_list_field write_bools_state write_i64s_state write_i32s_state write_binaries_state)+

lemma column_index_encoder_state:
  assumes "length nulls = n" "length mins = n" "length maxs = n" "length counts = n" "n < 2 ^ 31"
    and stats: "list_all (\<lambda>s. stat_ok (stat_clean s)) mins" "list_all (\<lambda>s. stat_ok (stat_clean s)) maxs"
  shows "enc_state al (thrift_encoder_init carquet_buffer_init)
    (column_index_encoder al carquet_buffer_init n nulls mins maxs order counts) []
    (column_index_bytes nulls mins maxs order counts)"
proof -
  let ?e0 = "thrift_encoder_init carquet_buffer_init"
  have n: "length nulls < 2 ^ 31" "length mins < 2 ^ 31" "length maxs < 2 ^ 31" "length counts < 2 ^ 31"
    using assms(1-5) by simp_all
  have e1: "enc_state al ?e0 (thrift_write_struct_begin ?e0) ([] @ [0]) []"
    using enc_state_begin [OF enc_state_init [of al]] by simp
  note e2 = enc_state_list_fields(1) [OF e1 n(1), of 1 THRIFT_TYPE_TRUE]
  note e3 = enc_state_list_fields(4) [OF e2 n(2) stats(1), of 2 THRIFT_TYPE_BINARY]
  note e4 = enc_state_list_fields(4) [OF e3 n(3) stats(2), of 3 THRIFT_TYPE_BINARY]
  note e5 = enc_state_i32 [OF enc_state_field [OF e4, of THRIFT_TYPE_I32 4], of order]
  note e6 = enc_state_list_fields(2) [OF e5 n(4), of 5 THRIFT_TYPE_I64]
  show ?thesis
    using enc_state_end [OF e6] assms(1-4)
    by (simp add: column_index_encoder_def Let_def column_index_bytes_def)
qed

lemma parse_null_pages_state:
  assumes "dec_state d ids (list_header_bytes et (length vs) @ bool_bytes vs @ r)" "length vs \<le> 1000000"
    "cx_null_pages ci = None" "\<forall>n. alloc_grants al n"
  shows "\<exists>d'. parse_null_pages al ci d = Parsed (d', ci\<lparr>cx_num_pages := length vs, cx_null_pages := Some vs,
    cx_num_null_pages := length vs\<rparr>) \<and> dec_state d' ids r"
proof -
  obtain d1 where d1: "parse_count d = Parsed (d1, length vs)" "dec_state d1 ids (bool_bytes vs @ r)"
    by (rule parse_count_state [OF assms(1, 2)]) (simp_all add: length_elements)
  then show ?thesis
    using read_bools_state [OF d1(2)] assms(3, 4) by (auto simp: parse_null_pages_def array_grant_def)
qed

lemma parse_stats_state:
  assumes "dec_state d ids (list_header_bytes et (length vs) @ concat (map stat_bytes vs) @ r)" "length vs \<le> 1000000"
    "list_all (\<lambda>s. stat_ok (stat_clean s)) vs" "\<forall>n. alloc_grants al n"
  shows "cx_min_values ci = None \<Longrightarrow>
      \<exists>d'. parse_min_values al ci d = Parsed (d', ci\<lparr>cx_min_values := Some (map fst (map stat_clean vs)),
        cx_min_value_lens := Some (map snd (map stat_clean vs)), cx_num_min_values := length vs\<rparr>) \<and> dec_state d' ids r"
    and "cx_max_values ci = None \<Longrightarrow>
      \<exists>d'. parse_max_values al ci d = Parsed (d', ci\<lparr>cx_max_values := Some (map fst (map stat_clean vs)),
        cx_max_value_lens := Some (map snd (map stat_clean vs)), cx_num_max_values := length vs\<rparr>) \<and> dec_state d' ids r"
proof -
  obtain d1 where d1: "parse_count d = Parsed (d1, length vs)" "dec_state d1 ids (concat (map stat_bytes vs) @ r)"
    by (rule parse_count_state [OF assms(1, 2)]) (use length_elements(2) [of vs] in simp_all)
  obtain d2 where d2: "read_binaries al (length vs) d1 = Parsed (d2, map stat_clean vs)" "dec_state d2 ids r"
    using read_binaries_state [OF d1(2) assms(3, 4)] by blast
  from d1(1) d2 show "cx_min_values ci = None \<Longrightarrow>
      \<exists>d'. parse_min_values al ci d = Parsed (d', ci\<lparr>cx_min_values := Some (map fst (map stat_clean vs)),
        cx_min_value_lens := Some (map snd (map stat_clean vs)), cx_num_min_values := length vs\<rparr>) \<and> dec_state d' ids r"
    using assms(4) by (simp add: parse_min_values_def array_grant_def)
  from d1(1) d2 show "cx_max_values ci = None \<Longrightarrow>
      \<exists>d'. parse_max_values al ci d = Parsed (d', ci\<lparr>cx_max_values := Some (map fst (map stat_clean vs)),
        cx_max_value_lens := Some (map snd (map stat_clean vs)), cx_num_max_values := length vs\<rparr>) \<and> dec_state d' ids r"
    using assms(4) by (simp add: parse_max_values_def array_grant_def)
qed

lemma parse_null_counts_state:
  assumes "dec_state d ids (list_header_bytes et (length vs) @ i64_bytes vs @ r)" "length vs \<le> 1000000"
    "cx_null_counts ci = None" "\<forall>n. alloc_grants al n"
  shows "\<exists>d'. parse_null_counts al ci d = Parsed (d', ci\<lparr>cx_null_counts := Some vs, cx_num_null_counts := length vs\<rparr>) \<and>
    dec_state d' ids r"
proof -
  obtain d1 where d1: "parse_count d = Parsed (d1, length vs)" "dec_state d1 ids (i64_bytes vs @ r)"
    by (rule parse_count_state [OF assms(1, 2)]) (use length_elements(3) [of vs] in simp_all)
  then show ?thesis
    using read_i64s_state [OF d1(2)] assms(3, 4) by (auto simp: parse_null_counts_def array_grant_def)
qed

text \<open>A varint has at most ten bytes, so the lists of a million pages fit in the address space.\<close>

lemma length_varint64: "0 < length (varint_bytes (v :: u64))" "length (varint_bytes (v :: u64)) \<le> 10"
proof -
  have "unat v < 2 ^ LENGTH(64)"
    by (rule unsigned_less)
  then show "0 < length (varint_bytes v)" "length (varint_bytes v) \<le> 10"
    using length_varint_bytes [of 10 v] by simp_all
qed

lemma length_header:
  "0 < length (field_header_bytes l ty fid)" "length (field_header_bytes l ty fid) \<le> 11"
  "0 < length (list_header_bytes et n)" "length (list_header_bytes et n) \<le> 11"
  using length_varint64(2) by (simp_all add: field_header_bytes_def list_header_bytes_def Let_def)

lemma length_concat_bound: "\<forall>x \<in> set xs. length (f x) \<le> k \<Longrightarrow> length (concat (map f xs)) \<le> length xs * k"
  by (induction xs) auto

lemma length_lists:
  "length (i64_bytes ws) \<le> length ws * 10" "length (i32_bytes us) \<le> length us * 10"
  "list_all (\<lambda>s. stat_ok (stat_clean s)) ss \<Longrightarrow> length (concat (map stat_bytes ss)) \<le> length ss * (10 + 2 ^ 31)"
proof -
  show "length (i64_bytes ws) \<le> length ws * 10" "length (i32_bytes us) \<le> length us * 10"
    unfolding i64_bytes_def i32_bytes_def by (rule length_concat_bound; simp add: length_varint64)+
  assume ss: "list_all (\<lambda>s. stat_ok (stat_clean s)) ss"
  have "length (stat_bytes s) \<le> 10 + 2 ^ 31" if "s \<in> set ss" for s
  proof (cases "fst s")
    case (Some d)
    have "stat_ok (stat_clean s)"
      using ss that by (simp add: list_all_iff)
    from stat_clean_some(2) [OF this Some] show ?thesis
      using length_varint64(2) [of "word_of_nat (length d)"] Some by (simp add: stat_bytes_def)
  qed (simp add: stat_bytes_def)
  then show "length (concat (map stat_bytes ss)) \<le> length ss * (10 + 2 ^ 31)"
    by (intro length_concat_bound) blast
qed

lemma length_column_index_bytes:
  assumes "length nulls = n" "length mins = n" "length maxs = n" "length counts = n" "n \<le> 1000000"
    and stats: "list_all (\<lambda>s. stat_ok (stat_clean s)) mins" "list_all (\<lambda>s. stat_ok (stat_clean s)) maxs"
  shows "5 \<le> length (column_index_bytes nulls mins maxs order counts)"
    and "length (column_index_bytes nulls mins maxs order counts) < 2 ^ 63"
proof -
  note h = length_header
  show "5 \<le> length (column_index_bytes nulls mins maxs order counts)"
    unfolding column_index_bytes_def length_append
    using h(1) [of 0 THRIFT_TYPE_LIST 1] h(1) [of 1 THRIFT_TYPE_LIST 2] h(1) [of 2 THRIFT_TYPE_LIST 3]
      h(1) [of 3 THRIFT_TYPE_I32 4] h(1) [of 4 THRIFT_TYPE_LIST 5]
    by linarith
  show "length (column_index_bytes nulls mins maxs order counts) < 2 ^ 63"
    unfolding column_index_bytes_def length_append
    using h(2) [of 0 THRIFT_TYPE_LIST 1] h(2) [of 1 THRIFT_TYPE_LIST 2] h(2) [of 2 THRIFT_TYPE_LIST 3]
      h(2) [of 3 THRIFT_TYPE_I32 4] h(2) [of 4 THRIFT_TYPE_LIST 5]
      h(4) [of THRIFT_TYPE_TRUE n] h(4) [of THRIFT_TYPE_BINARY n] h(4) [of THRIFT_TYPE_I64 n]
      length_lists(1) [of counts] length_lists(3) [OF stats(1)] length_lists(3) [OF stats(2)]
      length_varint64(2) [of "carquet_zigzag_encode64 (scast order)"] assms(1-5)
    by (simp add: length_elements)
qed

definition parsed_column_index ::
    "bool list \<Rightarrow> (bytes option \<times> i32) list \<Rightarrow> (bytes option \<times> i32) list \<Rightarrow> i32 \<Rightarrow> i64 list \<Rightarrow> carquet_column_index" where
  "parsed_column_index nulls mins maxs order counts =
     \<lparr>cx_num_pages = length nulls, cx_null_counts = Some counts, cx_num_null_counts = length counts,
      cx_min_values = Some (map fst (map stat_clean mins)), cx_min_value_lens = Some (map snd (map stat_clean mins)),
      cx_num_min_values = length mins,
      cx_max_values = Some (map fst (map stat_clean maxs)), cx_max_value_lens = Some (map snd (map stat_clean maxs)),
      cx_num_max_values = length maxs,
      cx_null_pages = Some nulls, cx_num_null_pages = length nulls, cx_boundary_order = order\<rparr>"

text \<open>The switch of the column index, one field after the other.\<close>

lemma column_field_steps:
  assumes al: "\<forall>n. alloc_grants al n"
  shows "dec_state d ([] @ [l]) (field_header_bytes l THRIFT_TYPE_LIST 1 @ list_header_bytes et (length nulls) @
      bool_bytes nulls @ r) \<Longrightarrow> length nulls \<le> 1000000 \<Longrightarrow> cx_null_pages ci = None \<Longrightarrow>
    \<exists>d'. dec_state d' ([] @ [1]) r \<and> field_loop (Suc k) (column_index_field al) ci d =
      field_loop k (column_index_field al) (ci\<lparr>cx_num_pages := length nulls, cx_null_pages := Some nulls,
        cx_num_null_pages := length nulls\<rparr>) d'"
    and "dec_state d ([] @ [l]) (field_header_bytes l THRIFT_TYPE_LIST 2 @ list_header_bytes et (length ss) @
      concat (map stat_bytes ss) @ r) \<Longrightarrow> length ss \<le> 1000000 \<Longrightarrow> list_all (\<lambda>s. stat_ok (stat_clean s)) ss \<Longrightarrow>
      cx_min_values ci = None \<Longrightarrow>
    \<exists>d'. dec_state d' ([] @ [2]) r \<and> field_loop (Suc k) (column_index_field al) ci d =
      field_loop k (column_index_field al) (ci\<lparr>cx_min_values := Some (map fst (map stat_clean ss)),
        cx_min_value_lens := Some (map snd (map stat_clean ss)), cx_num_min_values := length ss\<rparr>) d'"
    and "dec_state d ([] @ [l]) (field_header_bytes l THRIFT_TYPE_LIST 3 @ list_header_bytes et (length ss) @
      concat (map stat_bytes ss) @ r) \<Longrightarrow> length ss \<le> 1000000 \<Longrightarrow> list_all (\<lambda>s. stat_ok (stat_clean s)) ss \<Longrightarrow>
      cx_max_values ci = None \<Longrightarrow>
    \<exists>d'. dec_state d' ([] @ [3]) r \<and> field_loop (Suc k) (column_index_field al) ci d =
      field_loop k (column_index_field al) (ci\<lparr>cx_max_values := Some (map fst (map stat_clean ss)),
        cx_max_value_lens := Some (map snd (map stat_clean ss)), cx_num_max_values := length ss\<rparr>) d'"
    and "dec_state d ([] @ [l]) (field_header_bytes l THRIFT_TYPE_I32 4 @
      varint_bytes (carquet_zigzag_encode64 (scast order)) @ r) \<Longrightarrow>
    \<exists>d'. dec_state d' ([] @ [4]) r \<and> field_loop (Suc k) (column_index_field al) ci d =
      field_loop k (column_index_field al) (ci\<lparr>cx_boundary_order := order\<rparr>) d'"
    and "dec_state d ([] @ [l]) (field_header_bytes l THRIFT_TYPE_LIST 5 @ list_header_bytes et (length ws) @
      i64_bytes ws @ r) \<Longrightarrow> length ws \<le> 1000000 \<Longrightarrow> cx_null_counts ci = None \<Longrightarrow>
    \<exists>d'. dec_state d' ([] @ [5]) r \<and> field_loop (Suc k) (column_index_field al) ci d =
      field_loop k (column_index_field al) (ci\<lparr>cx_null_counts := Some ws, cx_num_null_counts := length ws\<rparr>) d'"
  subgoal
    by (erule field_loop_field [where body = "column_index_field al"])
      (use parse_null_pages_state [OF _ _ _ al] in \<open>auto simp: column_index_field_def\<close>)
  subgoal
    by (erule field_loop_field [where body = "column_index_field al"])
      (use parse_stats_state(1) [OF _ _ _ al] in \<open>auto simp: column_index_field_def\<close>)
  subgoal
    by (erule field_loop_field [where body = "column_index_field al"])
      (use parse_stats_state(2) [OF _ _ _ al] in \<open>auto simp: column_index_field_def\<close>)
  subgoal
    by (erule field_loop_field [where body = "column_index_field al"])
      (auto simp: column_index_field_def elim!: dec_state_i32)
  subgoal
    by (erule field_loop_field [where body = "column_index_field al"])
      (use parse_null_counts_state [OF _ _ _ al] in \<open>auto simp: column_index_field_def\<close>)
  done

lemma column_index_fields_state:
  assumes "length nulls = n" "length mins = n" "length maxs = n" "length counts = n" "n \<le> 1000000"
    and stats: "list_all (\<lambda>s. stat_ok (stat_clean s)) mins" "list_all (\<lambda>s. stat_ok (stat_clean s)) maxs"
    and al: "\<forall>n. alloc_grants al n"
    and d: "dec_state d ([] @ [0]) (column_index_bytes nulls mins maxs order counts)"
  shows "\<exists>d'. field_loop (Suc (5 + j)) (column_index_field al) empty_column_index d =
    Parsed (d', parsed_column_index nulls mins maxs order counts) \<and> dec_state d' ([] @ [5]) []"
proof -
  let ?loop = "\<lambda>k. field_loop k (column_index_field al)"
  have n: "length nulls \<le> 1000000" "length mins \<le> 1000000" "length maxs \<le> 1000000" "length counts \<le> 1000000"
    using assms(1-5) by simp_all
  have k: "5 + j = Suc (Suc (Suc (Suc (Suc j))))"
    by simp
  note step = column_field_steps [OF al]
  let ?c0 = "empty_column_index"
  let ?c1 = "?c0\<lparr>cx_num_pages := length nulls, cx_null_pages := Some nulls, cx_num_null_pages := length nulls\<rparr>"
  let ?c2 = "?c1\<lparr>cx_min_values := Some (map fst (map stat_clean mins)),
    cx_min_value_lens := Some (map snd (map stat_clean mins)), cx_num_min_values := length mins\<rparr>"
  let ?c3 = "?c2\<lparr>cx_max_values := Some (map fst (map stat_clean maxs)),
    cx_max_value_lens := Some (map snd (map stat_clean maxs)), cx_num_max_values := length maxs\<rparr>"
  let ?c4 = "?c3\<lparr>cx_boundary_order := order\<rparr>"
  let ?c5 = "?c4\<lparr>cx_null_counts := Some counts, cx_num_null_counts := length counts\<rparr>"
  have none: "cx_null_pages ?c0 = None" "cx_min_values ?c1 = None" "cx_max_values ?c2 = None" "cx_null_counts ?c4 = None"
    by (simp_all add: empty_column_index_def)
  let ?r5 = "field_header_bytes 4 THRIFT_TYPE_LIST 5 @ list_header_bytes THRIFT_TYPE_I64 (length counts) @ i64_bytes counts @ [0]"
  let ?r4 = "field_header_bytes 3 THRIFT_TYPE_I32 4 @ varint_bytes (carquet_zigzag_encode64 (scast order)) @ ?r5"
  let ?r3 = "field_header_bytes 2 THRIFT_TYPE_LIST 3 @ list_header_bytes THRIFT_TYPE_BINARY (length maxs) @
    concat (map stat_bytes maxs) @ ?r4"
  let ?r2 = "field_header_bytes 1 THRIFT_TYPE_LIST 2 @ list_header_bytes THRIFT_TYPE_BINARY (length mins) @
    concat (map stat_bytes mins) @ ?r3"
  obtain d1 where d1: "?loop (Suc (5 + j)) ?c0 d = ?loop (5 + j) ?c1 d1" "dec_state d1 ([] @ [1]) ?r2"
    using step(1) [OF d [unfolded column_index_bytes_def] n(1) none(1)] by blast
  obtain d2 where d2: "?loop (5 + j) ?c1 d1 = ?loop (Suc (Suc (Suc (Suc j)))) ?c2 d2" "dec_state d2 ([] @ [2]) ?r3"
    unfolding k using step(2) [OF d1(2) n(2) stats(1) none(2)] by blast
  obtain d3 where d3: "?loop (Suc (Suc (Suc (Suc j)))) ?c2 d2 = ?loop (Suc (Suc (Suc j))) ?c3 d3" "dec_state d3 ([] @ [3]) ?r4"
    using step(3) [OF d2(2) n(3) stats(2) none(3)] by blast
  obtain d4 where d4: "?loop (Suc (Suc (Suc j))) ?c3 d3 = ?loop (Suc (Suc j)) ?c4 d4" "dec_state d4 ([] @ [4]) ?r5"
    using step(4) [OF d3(2)] by blast
  obtain d5 where d5: "?loop (Suc (Suc j)) ?c4 d4 = ?loop (Suc j) ?c5 d5" "dec_state d5 ([] @ [5]) [0]"
    using step(5) [OF d4(2) n(4) none(4)] by blast
  obtain d6 where "?loop (Suc j) ?c5 d5 = Parsed (d6, ?c5)" "dec_state d6 ([] @ [5]) []"
    using field_loop_stop [OF d5(2)] by metis
  then show ?thesis
    using d1(1) d2(1) d3(1) d4(1) d5(1) by (simp add: parsed_column_index_def empty_column_index_def)
qed

lemma column_index_parse_state:
  assumes "length nulls = n" "length mins = n" "length maxs = n" "length counts = n" "n \<le> 1000000"
    and stats: "list_all (\<lambda>s. stat_ok (stat_clean s)) mins" "list_all (\<lambda>s. stat_ok (stat_clean s)) maxs"
    and al: "\<forall>n. alloc_grants al n"
  shows "carquet_column_index_parse al (Some (column_index_bytes nulls mins maxs order counts)) =
    Parsed (parsed_column_index nulls mins maxs order counts)"
proof -
  let ?bs = "column_index_bytes nulls mins maxs order counts"
  note len = length_column_index_bytes [OF assms(1-7), of order]
  obtain d' where d': "parse_struct (column_index_field al) empty_column_index (thrift_decoder_init ?bs) =
      Parsed (d', parsed_column_index nulls mins maxs order counts)" "dec_state d' [] []"
    by (rule parse_struct_state [OF dec_state_init [OF len(2)] _ len(1) column_index_fields_state [OF assms]]) simp_all
  have "?bs \<noteq> []"
    using len(1) by auto
  moreover have "clamp_column_index (parsed_column_index nulls mins maxs order counts) =
      parsed_column_index nulls mins maxs order counts"
    using assms(1-4) by (simp add: clamp_column_index_def clamp_pages_def parsed_column_index_def)
  ultimately show ?thesis
    using d' al by (simp add: carquet_column_index_parse_def dec_state_def)
qed

definition cib_stats :: "nat \<Rightarrow> bytes option array \<Rightarrow> i32 array \<Rightarrow> (bytes option \<times> i32) list" where
  "cib_stats n vals lens = zip (take n (live vals)) (take n (live lens))"

lemma cib_stats_ok:
  assumes "stats_array_ok cap n vals lens" "n \<le> cap"
  shows "length (cib_stats n vals lens) = n" "list_all (\<lambda>s. stat_ok (stat_clean s)) (cib_stats n vals lens)"
    and "i < n \<Longrightarrow> stat_clean (cib_stats n vals lens ! i) = stat_entry (live vals) (live lens) i"
proof -
  have len: "length (live vals) = cap" "length (live lens) = cap"
    using assms(1) by (simp_all add: stats_array_ok_def array_ok_def)
  show l: "length (cib_stats n vals lens) = n"
    using len assms(2) by (simp add: cib_stats_def)
  have nth: "stat_clean (cib_stats n vals lens ! i) = stat_entry (live vals) (live lens) i" if "i < n" for i
    using that len assms(2) by (simp add: cib_stats_def stat_clean_def stat_entry_def)
  then show "i < n \<Longrightarrow> stat_clean (cib_stats n vals lens ! i) = stat_entry (live vals) (live lens) i" .
  show "list_all (\<lambda>s. stat_ok (stat_clean s)) (cib_stats n vals lens)"
    using assms(1) nth l by (simp add: list_all_length stats_array_ok_def)
qed

definition cib_bytes :: "carquet_column_index_builder \<Rightarrow> bytes" where
  "cib_bytes b =
     (let n = cib_num_pages b in
      column_index_bytes (take n (live (cib_null_pages b))) (cib_stats n (cib_min_values b) (cib_min_value_lens b))
        (cib_stats n (cib_max_values b) (cib_max_value_lens b)) (cib_boundary_order b) (take n (live (cib_null_counts b))))"

lemma cib_facts:
  assumes "cib_ok b"
  shows "length (take (cib_num_pages b) (live (cib_null_pages b))) = cib_num_pages b"
    "length (cib_stats (cib_num_pages b) (cib_min_values b) (cib_min_value_lens b)) = cib_num_pages b"
    "length (cib_stats (cib_num_pages b) (cib_max_values b) (cib_max_value_lens b)) = cib_num_pages b"
    "length (take (cib_num_pages b) (live (cib_null_counts b))) = cib_num_pages b"
    and "list_all (\<lambda>s. stat_ok (stat_clean s)) (cib_stats (cib_num_pages b) (cib_min_values b) (cib_min_value_lens b))"
    "list_all (\<lambda>s. stat_ok (stat_clean s)) (cib_stats (cib_num_pages b) (cib_max_values b) (cib_max_value_lens b))"
  using assms cib_stats_ok(1, 2) unfolding cib_ok_def array_ok_def by auto

lemma column_index_serialize_bytes:
  assumes "cib_ok b" "cib_num_pages b \<le> 1000000" "\<forall>n. alloc_grants al n"
  shows "\<exists>buf. carquet_column_index_serialize al (Some b) (Some carquet_buffer_init) = Done (Some buf, CARQUET_OK) \<and>
    buffer_contents buf = cib_bytes b"
proof -
  let ?n = "cib_num_pages b"
  note f = cib_facts [OF assms(1)]
  have n: "?n < 2 ^ 31"
    using assms(2) by simp
  have "length (cib_bytes b) < 2 ^ 64"
    using length_column_index_bytes(2) [OF f(1-4) assms(2) f(5, 6), of "cib_boundary_order b"]
    by (simp add: cib_bytes_def Let_def)
  then have "buffer_contents (enc_buffer (column_index_encoder al carquet_buffer_init ?n
      (take ?n (live (cib_null_pages b))) (cib_stats ?n (cib_min_values b) (cib_min_value_lens b))
      (cib_stats ?n (cib_max_values b) (cib_max_value_lens b)) (cib_boundary_order b)
      (take ?n (live (cib_null_counts b))))) = cib_bytes b"
    unfolding cib_bytes_def Let_def
    by (rule enc_state_contents [OF column_index_encoder_state [OF f(1-4) n f(5, 6)] assms(3)])
  moreover have "array_read ?n (cib_null_pages b) = Done (take ?n (live (cib_null_pages b)))"
    "array_read ?n (cib_min_values b) = Done (take ?n (live (cib_min_values b)))"
    "array_read ?n (cib_min_value_lens b) = Done (take ?n (live (cib_min_value_lens b)))"
    "array_read ?n (cib_max_values b) = Done (take ?n (live (cib_max_values b)))"
    "array_read ?n (cib_max_value_lens b) = Done (take ?n (live (cib_max_value_lens b)))"
    "array_read ?n (cib_null_counts b) = Done (take ?n (live (cib_null_counts b)))"
    using assms(1) by (auto simp: cib_ok_def stats_array_ok_def intro!: array_read_ok)
  ultimately show ?thesis
    by (simp add: carquet_column_index_serialize_def cib_stats_def Let_def)
qed

text \<open>What the accessors return for the bytes of a builder.\<close>

definition shows_pages :: "carquet_column_index \<Rightarrow> carquet_column_index_builder \<Rightarrow> bool" where
  "shows_pages ci b \<longleftrightarrow>
     carquet_column_index_num_pages ci = cib_num_pages b \<and>
     carquet_column_index_boundary_order ci = cib_boundary_order b \<and>
     (\<forall>i < cib_num_pages b. carquet_column_index_get_page_stats ci (int i) = Done (Inr (cib_pages b ! i)))"

lemma column_index_parse_bytes:
  assumes "cib_ok b" "cib_num_pages b \<le> 1000000" "\<forall>n. alloc_grants al n"
  shows "\<exists>ci. carquet_column_index_parse al (Some (cib_bytes b)) = Parsed ci \<and> shows_pages ci b"
proof -
  let ?n = "cib_num_pages b"
  note f = cib_facts [OF assms(1)]
  have s: "stats_array_ok (cib_capacity b) ?n (cib_min_values b) (cib_min_value_lens b)"
    "stats_array_ok (cib_capacity b) ?n (cib_max_values b) (cib_max_value_lens b)" "?n \<le> cib_capacity b"
    using assms(1) by (simp_all add: cib_ok_def)
  note nth = cib_stats_ok(3) [OF s(1, 3)] cib_stats_ok(3) [OF s(2, 3)]
  define ci where "ci = parsed_column_index (take ?n (live (cib_null_pages b)))
    (cib_stats ?n (cib_min_values b) (cib_min_value_lens b)) (cib_stats ?n (cib_max_values b) (cib_max_value_lens b))
    (cib_boundary_order b) (take ?n (live (cib_null_counts b)))"
  have "carquet_column_index_parse al (Some (cib_bytes b)) = Parsed ci"
    using column_index_parse_state [OF f(1-4) assms(2) f(5, 6) assms(3)] by (simp add: cib_bytes_def Let_def ci_def)
  moreover have "shows_pages ci b"
    using f(1-4) nth
    by (simp add: shows_pages_def ci_def parsed_column_index_def carquet_column_index_num_pages_def
        carquet_column_index_boundary_order_def carquet_column_index_get_page_stats_def entry_or_def cib_pages_def
        cib_page_def Let_def del: length_take)
  ultimately show ?thesis by blast
qed

section \<open>The offset index\<close>

definition location_bytes :: "carquet_page_location \<Rightarrow> bytes" where
  "location_bytes loc =
     field_header_bytes 0 THRIFT_TYPE_I64 1 @ varint_bytes (carquet_zigzag_encode64 (loc_offset loc)) @
     field_header_bytes 1 THRIFT_TYPE_I32 2 @ varint_bytes (carquet_zigzag_encode64 (scast (loc_compressed_size loc))) @
     field_header_bytes 2 THRIFT_TYPE_I64 3 @ varint_bytes (carquet_zigzag_encode64 (loc_first_row_index loc)) @ [0]"

lemma length_location_bytes: "3 \<le> length (location_bytes loc)" "length (location_bytes loc) \<le> 64"
proof -
  note h = length_header
  show "3 \<le> length (location_bytes loc)"
    unfolding location_bytes_def length_append
    using h(1) [of 0 THRIFT_TYPE_I64 1] h(1) [of 1 THRIFT_TYPE_I32 2] h(1) [of 2 THRIFT_TYPE_I64 3] by linarith
  show "length (location_bytes loc) \<le> 64"
    unfolding location_bytes_def length_append
    using h(2) [of 0 THRIFT_TYPE_I64 1] h(2) [of 1 THRIFT_TYPE_I32 2] h(2) [of 2 THRIFT_TYPE_I64 3]
      length_varint64(2) [of "carquet_zigzag_encode64 (loc_offset loc)"]
      length_varint64(2) [of "carquet_zigzag_encode64 (scast (loc_compressed_size loc))"]
      length_varint64(2) [of "carquet_zigzag_encode64 (loc_first_row_index loc)"] by simp
qed

lemma write_location_state:
  assumes "enc_state al e0 e ids bs" "length ids < 32"
  shows "enc_state al e0 (write_location al e loc) ids (bs @ location_bytes loc)"
proof -
  note e1 = enc_state_begin [OF assms]
  note e2 = enc_state_i64 [OF enc_state_field [OF e1, of THRIFT_TYPE_I64 1], of "loc_offset loc"]
  note e3 = enc_state_i32 [OF enc_state_field [OF e2, of THRIFT_TYPE_I32 2], of "loc_compressed_size loc"]
  note e4 = enc_state_i64 [OF enc_state_field [OF e3, of THRIFT_TYPE_I64 3], of "loc_first_row_index loc"]
  from enc_state_end [OF e4] show ?thesis
    by (simp add: write_location_def Let_def location_bytes_def)
qed

lemma write_locations_state:
  "enc_state al e0 e ids bs \<Longrightarrow> length ids < 32 \<Longrightarrow>
   enc_state al e0 (write_locations al e locs) ids (bs @ concat (map location_bytes locs))"
proof (induction locs arbitrary: e bs)
  case (Cons loc locs)
  from Cons.IH [OF write_location_state [OF Cons.prems] Cons.prems(2)] show ?case by simp
qed simp

text \<open>The switch of a page location, one field after the other.\<close>

lemma location_field_steps:
  shows "dec_state d (ids @ [l]) (field_header_bytes l THRIFT_TYPE_I64 1 @ varint_bytes (carquet_zigzag_encode64 v) @ r) \<Longrightarrow>
    \<exists>d'. dec_state d' (ids @ [1]) r \<and>
      field_loop (Suc k) location_field loc d = field_loop k location_field (loc\<lparr>loc_offset := v\<rparr>) d'"
    and "dec_state d (ids @ [l]) (field_header_bytes l THRIFT_TYPE_I32 2 @
      varint_bytes (carquet_zigzag_encode64 (scast u)) @ r) \<Longrightarrow>
    \<exists>d'. dec_state d' (ids @ [2]) r \<and>
      field_loop (Suc k) location_field loc d = field_loop k location_field (loc\<lparr>loc_compressed_size := u\<rparr>) d'"
    and "dec_state d (ids @ [l]) (field_header_bytes l THRIFT_TYPE_I64 3 @ varint_bytes (carquet_zigzag_encode64 v) @ r) \<Longrightarrow>
    \<exists>d'. dec_state d' (ids @ [3]) r \<and>
      field_loop (Suc k) location_field loc d = field_loop k location_field (loc\<lparr>loc_first_row_index := v\<rparr>) d'"
  subgoal
    by (erule field_loop_field [where body = location_field]) (auto simp: location_field_def elim!: dec_state_i64)
  subgoal
    by (erule field_loop_field [where body = location_field]) (auto simp: location_field_def elim!: dec_state_i32)
  subgoal
    by (erule field_loop_field [where body = location_field]) (auto simp: location_field_def elim!: dec_state_i64)
  done

lemma location_fields_state:
  assumes d: "dec_state d (ids @ [0]) (location_bytes loc @ r)"
  shows "\<exists>d'. field_loop (Suc (3 + j)) location_field zero_location d = Parsed (d', loc) \<and> dec_state d' (ids @ [3]) r"
proof -
  let ?loop = "\<lambda>k. field_loop k location_field" and ?l0 = zero_location
  let ?l1 = "?l0\<lparr>loc_offset := loc_offset loc\<rparr>"
  let ?l2 = "?l1\<lparr>loc_compressed_size := loc_compressed_size loc\<rparr>"
  let ?l3 = "?l2\<lparr>loc_first_row_index := loc_first_row_index loc\<rparr>"
  have k: "3 + j = Suc (Suc (Suc j))"
    by simp
  note step = location_field_steps
  have d0: "dec_state d (ids @ [0]) (
      field_header_bytes 0 THRIFT_TYPE_I64 1 @ varint_bytes (carquet_zigzag_encode64 (loc_offset loc)) @
      field_header_bytes 1 THRIFT_TYPE_I32 2 @ varint_bytes (carquet_zigzag_encode64 (scast (loc_compressed_size loc))) @
      field_header_bytes 2 THRIFT_TYPE_I64 3 @ varint_bytes (carquet_zigzag_encode64 (loc_first_row_index loc)) @ 0 # r)"
    using d by (simp add: location_bytes_def)
  obtain d1 where d1: "?loop (Suc (3 + j)) ?l0 d = ?loop (3 + j) ?l1 d1" "dec_state d1 (ids @ [1]) (
      field_header_bytes 1 THRIFT_TYPE_I32 2 @ varint_bytes (carquet_zigzag_encode64 (scast (loc_compressed_size loc))) @
      field_header_bytes 2 THRIFT_TYPE_I64 3 @ varint_bytes (carquet_zigzag_encode64 (loc_first_row_index loc)) @ 0 # r)"
    using step(1) [OF d0] by blast
  obtain d2 where d2: "?loop (3 + j) ?l1 d1 = ?loop (Suc (Suc j)) ?l2 d2" "dec_state d2 (ids @ [2]) (
      field_header_bytes 2 THRIFT_TYPE_I64 3 @ varint_bytes (carquet_zigzag_encode64 (loc_first_row_index loc)) @ 0 # r)"
    unfolding k using step(2) [OF d1(2)] by blast
  obtain d3 where d3: "?loop (Suc (Suc j)) ?l2 d2 = ?loop (Suc j) ?l3 d3" "dec_state d3 (ids @ [3]) (0 # r)"
    using step(3) [OF d2(2)] by blast
  obtain d4 where d4: "?loop (Suc j) ?l3 d3 = Parsed (d4, ?l3)" "dec_state d4 (ids @ [3]) r"
    using field_loop_stop [OF d3(2)] by metis
  have "?l3 = loc"
    by (simp add: zero_location_def)
  with d4 show ?thesis
    unfolding d1(1) d2(1) d3(1) by metis
qed

lemma read_locations_state:
  "dec_state d ids (concat (map location_bytes locs) @ r) \<Longrightarrow> length ids < THRIFT_MAX_NESTING \<Longrightarrow>
   \<exists>d'. read_locations (length locs) d = Parsed (d', locs) \<and> dec_state d' ids r"
proof (induction locs arbitrary: d)
  case (Cons loc locs)
  have "dec_state d ids (location_bytes loc @ concat (map location_bytes locs) @ r)"
    using Cons.prems(1) by simp
  moreover have "3 \<le> length (location_bytes loc @ concat (map location_bytes locs) @ r)"
    unfolding length_append using length_location_bytes(1) [of loc] by linarith
  ultimately obtain d1 where d1: "parse_struct location_field zero_location d = Parsed (d1, loc)"
      "dec_state d1 ids (concat (map location_bytes locs) @ r)"
    using location_fields_state by (rule parse_struct_state [OF _ Cons.prems(2)])
  from Cons.IH [OF d1(2) Cons.prems(2)] d1(1) show ?case by auto
qed simp

text \<open>The list of uncompressed sizes is no field the parser knows; it is skipped.\<close>

lemma skip_i32s_state:
  "dec_state d ids (i32_bytes us @ r) \<Longrightarrow>
   \<exists>d'. skip_elems (length us) (\<lambda>e. thrift_skip_depth (Suc n) e THRIFT_TYPE_I32) d = Some d' \<and> dec_state d' ids r"
proof (induction us arbitrary: d)
  case (Cons u us)
  have "dec_state d ids (varint_bytes (carquet_zigzag_encode64 (scast u)) @ i32_bytes us @ r)"
    using Cons.prems by (simp add: i32_bytes_def)
  then obtain d1 where d1: "thrift_read_varint d = (d1, carquet_zigzag_encode64 (scast u))" "dec_state d1 ids (i32_bytes us @ r)"
    by (rule dec_state_varint)
  have "dec_status d = CARQUET_OK"
    using Cons.prems by (simp add: dec_state_def)
  with Cons.IH [OF d1(2)] d1(1) show ?case by simp
qed (simp add: i32_bytes_def)

lemma skip_sizes_state:
  assumes "dec_state d ids (list_header_bytes THRIFT_TYPE_I32 (length us) @ i32_bytes us @ r)" "length us < 2 ^ 31"
  shows "\<exists>d'. skip_unknown st d THRIFT_TYPE_LIST = Parsed (d', st) \<and> dec_state d' ids r"
proof -
  obtain d1 where d1: "thrift_read_list_begin d = (d1, THRIFT_TYPE_I32 AND 0x0F, word_of_nat (length us))"
      "dec_state d1 ids (i32_bytes us @ r)"
    using length_elements(4) [of us] by (rule_tac dec_state_list [OF assms]) simp_all
  have rest: "dec_status d = CARQUET_OK" "dec_remaining d = length (list_header_bytes THRIFT_TYPE_I32 (length us) @ i32_bytes us @ r)"
    using assms(1) by (simp_all add: dec_state_def dec_remaining_rest)
  have "0 < dec_remaining d"
    unfolding rest(2) length_append using length_header(3) [of THRIFT_TYPE_I32 "length us"] by linarith
  then obtain m where m: "dec_remaining d = Suc m"
    by (auto simp: gr0_conv_Suc)
  have "unat (word_of_nat (length us) :: i32) = length us"
    using assms(2) by (simp add: unat_of_nat)
  with skip_i32s_state [OF d1(2), of m] d1(1) rest(1) m show ?thesis
    by (auto simp: skip_unknown_def thrift_skip_field_def thrift_skip_def)
qed

definition offset_index_bytes :: "carquet_page_location list \<Rightarrow> i32 list option \<Rightarrow> bytes" where
  "offset_index_bytes locs sizes =
     field_header_bytes 0 THRIFT_TYPE_LIST 1 @ list_header_bytes THRIFT_TYPE_STRUCT (length locs) @
       concat (map location_bytes locs) @
     (case sizes of
        None \<Rightarrow> []
      | Some us \<Rightarrow> field_header_bytes 1 THRIFT_TYPE_LIST 2 @ list_header_bytes THRIFT_TYPE_I32 (length us) @ i32_bytes us) @
     [0]"

lemma offset_index_encoder_state:
  assumes "length locs = n" "\<forall>us. sizes = Some us \<longrightarrow> length us = n" "n < 2 ^ 31"
  shows "enc_state al (thrift_encoder_init carquet_buffer_init) (offset_index_encoder al carquet_buffer_init n locs sizes) []
    (offset_index_bytes locs sizes)"
proof -
  let ?e0 = "thrift_encoder_init carquet_buffer_init"
  have e1: "enc_state al ?e0 (thrift_write_struct_begin ?e0) ([] @ [0]) []"
    using enc_state_begin [OF enc_state_init [of al]] by simp
  have e2: "enc_state al ?e0 (write_list_field al (thrift_write_struct_begin ?e0) 1 THRIFT_TYPE_STRUCT n
      (\<lambda>e. write_locations al e locs)) ([] @ [1])
      ([] @ field_header_bytes 0 THRIFT_TYPE_LIST 1 @ list_header_bytes THRIFT_TYPE_STRUCT n @ concat (map location_bytes locs))"
    by (rule enc_state_list_field [OF e1 assms(3)]) (simp add: write_locations_state)
  show ?thesis
  proof (cases sizes)
    case None
    then show ?thesis
      using enc_state_end [OF e2] assms(1) by (simp add: offset_index_encoder_def Let_def offset_index_bytes_def)
  next
    case (Some us)
    have "length us < 2 ^ 31" "length us = n"
      using assms(2, 3) Some by auto
    with enc_state_end [OF enc_state_list_fields(3) [OF e2, of us 2 THRIFT_TYPE_I32]] Some assms(1) show ?thesis
      by (simp add: offset_index_encoder_def Let_def offset_index_bytes_def)
  qed
qed

lemma length_offset_index_bytes:
  assumes "length locs = n" "\<forall>us. sizes = Some us \<longrightarrow> length us = n" "n \<le> 1000000"
  shows "(if sizes = None then 1 else 2) \<le> length (offset_index_bytes locs sizes)"
    and "length (offset_index_bytes locs sizes) < 2 ^ 31"
proof -
  note h = length_header
  show "(if sizes = None then 1 else 2) \<le> length (offset_index_bytes locs sizes)"
    using h(1) [of 0 THRIFT_TYPE_LIST 1] by (auto simp: offset_index_bytes_def Suc_le_eq)
  have "length (concat (map location_bytes locs)) \<le> length locs * 64"
    by (rule length_concat_bound) (simp add: length_location_bytes)
  moreover have "length (i32_bytes (the sizes)) \<le> 10000000" if "sizes \<noteq> None"
    using length_lists(2) [of "the sizes"] that assms(2, 3) by auto
  ultimately show "length (offset_index_bytes locs sizes) < 2 ^ 31"
    unfolding offset_index_bytes_def length_append
    using h(2) [of 0 THRIFT_TYPE_LIST 1] h(2) [of 1 THRIFT_TYPE_LIST 2] assms
      h(4) [of THRIFT_TYPE_STRUCT n] h(4) [of THRIFT_TYPE_I32 n]
    by (auto split: option.split)
qed

lemma length_locations: "length locs \<le> length (concat (map location_bytes locs))"
proof (induction locs)
  case (Cons loc locs)
  then show ?case
    using length_location_bytes(1) [of loc] by simp
qed simp

lemma offset_locations_state:
  assumes "length locs \<le> 1000000" "\<forall>n. alloc_grants al n"
    and "dec_state d ([] @ [1]) (list_header_bytes et (length locs) @ concat (map location_bytes locs) @ r)"
  shows "\<exists>d'. offset_index_field al \<lparr>ox_num_pages = 0, ox_page_locations = None\<rparr> d ty 1 =
      Parsed (d', \<lparr>ox_num_pages = length locs, ox_page_locations = Some locs\<rparr>) \<and> dec_state d' ([] @ [1]) r"
proof -
  have "length locs \<le> length (concat (map location_bytes locs) @ r)"
    unfolding length_append using length_locations [of locs] by linarith
  then obtain d1 where d1: "parse_count d = Parsed (d1, length locs)" "dec_state d1 ([] @ [1]) (concat (map location_bytes locs) @ r)"
    by (rule parse_count_state [OF assms(3, 1)])
  then show ?thesis
    using read_locations_state [OF d1(2)] assms(2) by (auto simp: offset_index_field_def array_grant_def)
qed

lemma offset_index_fields_state:
  assumes "length locs \<le> 1000000" "\<forall>us. sizes = Some us \<longrightarrow> length us = length locs" "\<forall>n. alloc_grants al n"
    and d: "dec_state d ([] @ [0]) (offset_index_bytes locs sizes)"
  shows "\<exists>d'. field_loop (Suc ((if sizes = None then 1 else 2) + j)) (offset_index_field al)
      \<lparr>ox_num_pages = 0, ox_page_locations = None\<rparr> d =
    Parsed (d', \<lparr>ox_num_pages = length locs, ox_page_locations = Some locs\<rparr>) \<and>
    dec_state d' ([] @ [if sizes = None then 1 else 2]) []"
proof -
  let ?loop = "\<lambda>k. field_loop k (offset_index_field al)"
  let ?o0 = "\<lparr>ox_num_pages = 0, ox_page_locations = None\<rparr>"
  let ?o1 = "\<lparr>ox_num_pages = length locs, ox_page_locations = Some locs\<rparr>"
  let ?k = "(if sizes = None then 1 else 2) + j"
  let ?tl = "(case sizes of None \<Rightarrow> []
      | Some us \<Rightarrow> field_header_bytes 1 THRIFT_TYPE_LIST 2 @ list_header_bytes THRIFT_TYPE_I32 (length us) @ i32_bytes us) @ [0]"
  obtain d1 where d1: "dec_state d1 ([] @ [1]) ?tl" "?loop (Suc ?k) ?o0 d = ?loop ?k ?o1 d1"
    by (rule field_loop_field [where body = "offset_index_field al",
          OF d [unfolded offset_index_bytes_def] _ _ _ _ offset_locations_state [OF assms(1, 3)]]) simp_all
  show ?thesis
  proof (cases sizes)
    case None
    then have "dec_state d1 ([] @ [1]) [0]"
      using d1(1) by simp
    then obtain d2 where "dec_state d2 ([] @ [1]) []" "?loop (Suc j) ?o1 d1 = Parsed (d2, ?o1)"
      by (rule field_loop_stop)
    then show ?thesis
      unfolding d1(2) using None by auto
  next
    case (Some us)
    have "length us < 2 ^ 31"
      using assms(1, 2) Some by auto
    then have skip: "\<exists>d2. offset_index_field al ?o1 d' THRIFT_TYPE_LIST 2 = Parsed (d2, ?o1) \<and> dec_state d2 ([] @ [2]) [0]"
      if "dec_state d' ([] @ [2]) (list_header_bytes THRIFT_TYPE_I32 (length us) @ i32_bytes us @ [0])" for d'
      using skip_sizes_state [OF that] by (simp add: offset_index_field_def)
    have "dec_state d1 ([] @ [1]) (field_header_bytes 1 THRIFT_TYPE_LIST 2 @
        list_header_bytes THRIFT_TYPE_I32 (length us) @ i32_bytes us @ [0])"
      using d1(1) Some by simp
    from field_loop_field [where body = "offset_index_field al" and k = "Suc j", OF this _ _ _ _ skip]
    obtain d2 where d2: "dec_state d2 ([] @ [2]) [0]" "?loop (Suc (Suc j)) ?o1 d1 = ?loop (Suc j) ?o1 d2"
      by auto
    obtain d3 where "dec_state d3 ([] @ [2]) []" "?loop (Suc j) ?o1 d2 = Parsed (d3, ?o1)"
      by (rule field_loop_stop [OF d2(1)])
    then show ?thesis
      unfolding d1(2) using Some d2(2) by auto
  qed
qed

lemma offset_index_parse_state:
  assumes "length locs \<le> 1000000" "\<forall>us. sizes = Some us \<longrightarrow> length us = length locs" "\<forall>n. alloc_grants al n"
  shows "carquet_offset_index_parse al (Some (offset_index_bytes locs sizes)) =
    Parsed \<lparr>ox_num_pages = length locs, ox_page_locations = Some locs\<rparr>"
proof -
  let ?bs = "offset_index_bytes locs sizes"
  note len = length_offset_index_bytes [OF refl assms(2, 1)]
  have small: "length ?bs < 2 ^ 63"
    using len(2) by simp
  obtain d' where d': "parse_struct (offset_index_field al) \<lparr>ox_num_pages = 0, ox_page_locations = None\<rparr>
      (thrift_decoder_init ?bs) = Parsed (d', \<lparr>ox_num_pages = length locs, ox_page_locations = Some locs\<rparr>)"
      "dec_state d' [] []"
    by (rule parse_struct_state [OF dec_state_init [OF small] _ len(1) offset_index_fields_state [OF assms]]) simp_all
  have "?bs \<noteq> []"
    using len(1) by (auto split: if_splits)
  then show ?thesis
    using d' assms(3) by (simp add: carquet_offset_index_parse_def dec_state_def)
qed

text \<open>The pages an offset index builder stands for.\<close>

definition oib_ok :: "carquet_offset_index_builder \<Rightarrow> bool" where
  "oib_ok b \<longleftrightarrow> 0 < oib_capacity b \<and> oib_num_pages b \<le> oib_capacity b \<and>
     array_ok (oib_capacity b) (oib_offsets b) \<and> array_ok (oib_capacity b) (oib_compressed_sizes b) \<and>
     array_ok (oib_capacity b) (oib_first_row_indices b) \<and>
     (if oib_track_uncompressed b
      then \<exists>sizes. oib_uncompressed_sizes b = Some sizes \<and> array_ok (oib_capacity b) sizes
      else oib_uncompressed_sizes b = None)"

definition oib_locations :: "carquet_offset_index_builder \<Rightarrow> carquet_page_location list" where
  "oib_locations b =
     map (\<lambda>i. \<lparr>loc_offset = live (oib_offsets b) ! i, loc_compressed_size = live (oib_compressed_sizes b) ! i,
        loc_first_row_index = live (oib_first_row_indices b) ! i\<rparr>) [0..<oib_num_pages b]"

definition oib_sizes :: "carquet_offset_index_builder \<Rightarrow> i32 list option" where
  "oib_sizes b = map_option (\<lambda>a. take (oib_num_pages b) (live a)) (oib_uncompressed_sizes b)"

definition oib_bytes :: "carquet_offset_index_builder \<Rightarrow> bytes" where
  "oib_bytes b = offset_index_bytes (oib_locations b) (oib_sizes b)"

lemma oib_facts:
  assumes "oib_ok b"
  shows "length (oib_locations b) = oib_num_pages b"
    "\<forall>us. oib_sizes b = Some us \<longrightarrow> length us = length (oib_locations b)"
  using assms by (auto simp: oib_ok_def oib_locations_def oib_sizes_def array_ok_def split: if_splits)

lemma offset_index_serialize_bytes:
  assumes "oib_ok b" "oib_num_pages b \<le> 1000000" "\<forall>n. alloc_grants al n"
  shows "\<exists>buf. carquet_offset_index_serialize al (Some b) (Some carquet_buffer_init) = Done (Some buf, CARQUET_OK) \<and>
    buffer_contents buf = oib_bytes b"
proof -
  let ?n = "oib_num_pages b"
  note f = oib_facts [OF assms(1)]
  have n: "?n < 2 ^ 31"
    using assms(2) by simp
  have sizes: "\<forall>us. oib_sizes b = Some us \<longrightarrow> length us = ?n"
    using f by simp
  have "length (oib_bytes b) < 2 ^ 64"
    using length_offset_index_bytes(2) [OF f(1) sizes assms(2)] by (simp add: oib_bytes_def)
  then have out: "buffer_contents (enc_buffer (offset_index_encoder al carquet_buffer_init ?n (oib_locations b) (oib_sizes b))) =
      oib_bytes b"
    unfolding oib_bytes_def by (rule enc_state_contents [OF offset_index_encoder_state [OF f(1) sizes n] assms(3)])
  have reads: "array_read ?n (oib_offsets b) = Done (take ?n (live (oib_offsets b)))"
    "array_read ?n (oib_compressed_sizes b) = Done (take ?n (live (oib_compressed_sizes b)))"
    "array_read ?n (oib_first_row_indices b) = Done (take ?n (live (oib_first_row_indices b)))"
    using assms(1) by (auto simp: oib_ok_def intro!: array_read_ok)
  have lens: "?n \<le> length (live (oib_offsets b))" "?n \<le> length (live (oib_compressed_sizes b))"
    "?n \<le> length (live (oib_first_row_indices b))"
    using assms(1) by (simp_all add: oib_ok_def array_ok_def)
  have locs: "zip_locations (take ?n (live (oib_offsets b))) (take ?n (live (oib_compressed_sizes b)))
      (take ?n (live (oib_first_row_indices b))) = oib_locations b"
    using lens by (intro nth_equalityI) (simp_all add: zip_locations_def oib_locations_def)
  have "(case oib_uncompressed_sizes b of
      Some sizes \<Rightarrow> if oib_track_uncompressed b then and_then (array_read ?n sizes) (\<lambda>us. Done (Some us)) else Done None
    | None \<Rightarrow> Done None) = Done (oib_sizes b)"
    using assms(1) by (auto simp: oib_ok_def oib_sizes_def array_read_ok split: if_splits)
  then show ?thesis
    using out reads locs by (simp add: carquet_offset_index_serialize_def Let_def)
qed

definition shows_locations :: "carquet_offset_index \<Rightarrow> carquet_offset_index_builder \<Rightarrow> bool" where
  "shows_locations oi b \<longleftrightarrow>
     carquet_offset_index_num_pages oi = oib_num_pages b \<and>
     (\<forall>i < oib_num_pages b. carquet_offset_index_get_page_location oi (int i) = Done (Inr (oib_locations b ! i)))"

lemma offset_index_parse_bytes:
  assumes "oib_ok b" "oib_num_pages b \<le> 1000000" "\<forall>n. alloc_grants al n"
  shows "\<exists>oi. carquet_offset_index_parse al (Some (oib_bytes b)) = Parsed oi \<and> shows_locations oi b"
  using offset_index_parse_state [OF _ oib_facts(2) [OF assms(1)] assms(3)] oib_facts(1) [OF assms(1)] assms(2)
  by (auto simp: oib_bytes_def shows_locations_def carquet_offset_index_num_pages_def
      carquet_offset_index_get_page_location_def)

section \<open>Through a file\<close>

lemma write_index_region_appends:
  assumes "\<forall>old bs. length bs \<le> fw old bs" "bs \<noteq> []"
  shows "write_index_region fw bs w =
    (\<lparr>fw_contents = fw_contents w @ bs, fw_file_offset = fw_file_offset w + word_of_nat (length bs)\<rparr>,
     Some (fw_file_offset w, word_of_nat (length bs)), CARQUET_OK)"
  using assms(2) by (simp add: write_index_region_def fwrite_all [OF assms(1)] Let_def)

lemma index_bytes_not_Nil: "cib_bytes b \<noteq> []" "oib_bytes ob \<noteq> []"
  using length_header(1) by (auto simp: cib_bytes_def column_index_bytes_def oib_bytes_def offset_index_bytes_def Let_def)

lemma write_column_page_index_appends:
  assumes al: "\<forall>n. alloc_grants al n" and fw: "\<forall>old bs. length bs \<le> fw old bs"
    and b: "cib_ok b" "cib_num_pages b \<le> 1000000" and ob: "oib_ok ob" "oib_num_pages ob \<le> 1000000"
  shows "write_column_page_index fw al (Some b) (Some ob) w chunk =
    (let mid = fw_file_offset w + word_of_nat (length (cib_bytes b)) in
     Done (\<lparr>fw_contents = fw_contents w @ cib_bytes b @ oib_bytes ob,
         fw_file_offset = mid + word_of_nat (length (oib_bytes ob))\<rparr>,
       record_offset_index (Some (mid, word_of_nat (length (oib_bytes ob))))
         (record_column_index (Some (fw_file_offset w, word_of_nat (length (cib_bytes b)))) chunk), CARQUET_OK))"
proof -
  have "serialized (carquet_column_index_serialize al (Some b) (Some carquet_buffer_init)) = Done (cib_bytes b)"
    "serialized (carquet_offset_index_serialize al (Some ob) (Some carquet_buffer_init)) = Done (oib_bytes ob)"
    using column_index_serialize_bytes [OF b al] offset_index_serialize_bytes [OF ob al] by (auto simp: serialized_def)
  then show ?thesis
    by (simp add: write_column_page_index_def write_index_region_appends [OF fw] index_bytes_not_Nil Let_def)
qed

lemma get_index_region_reads:
  assumes "reads_file seeks rd (pre @ region @ later)" "\<forall>k. alloc_grants al k"
    and "region \<noteq> []" "length region < 2 ^ 31" "length pre + 2 ^ 32 < 2 ^ 63" "parse (Some region) = Parsed x"
  shows "get_index_region al seeks rd True (word_of_nat (length pre)) (word_of_nat (length region)) parse =
    Parsed (Inr (Some x))"
proof -
  have "sint (word_of_nat (length region) :: i32) = int (length region)" "0 < length region"
    using assms(3, 4) sint_of_nat_small [where 'a = 32, of "length region"] by simp_all
  then have "\<not> sint (word_of_nat (length region) :: i32) \<le> 0"
    by linarith
  then show ?thesis
    using read_region [OF assms(1-5)] assms(6) by (simp add: get_index_region_def)
qed

text \<open>The column metadata that a reader finds says what the writer recorded.\<close>

definition has_index_regions :: "column_chunk \<Rightarrow> row_group_column_info \<Rightarrow> bool" where
  "has_index_regions col chunk \<longleftrightarrow>
     cc_has_column_index_offset col = ci_has_column_index_offset chunk \<and>
     cc_column_index_offset col = ci_column_index_offset chunk \<and>
     cc_has_column_index_length col = ci_has_column_index_length chunk \<and>
     cc_column_index_length col = ci_column_index_length chunk \<and>
     cc_has_offset_index_offset col = ci_has_offset_index_offset chunk \<and>
     cc_offset_index_offset col = ci_offset_index_offset chunk \<and>
     cc_has_offset_index_length col = ci_has_offset_index_length chunk \<and>
     cc_offset_index_length col = ci_offset_index_length chunk"

section \<open>Properties\<close>

text \<open>
  Serialising a column index of at most a million pages and parsing the bytes gives
  the index back: the number of pages, the boundary order, and for every page the null
  count, the minimum and maximum with their sizes and the null-page flag.
\<close>

theorem column_index_roundtrip:
  assumes "cib_ok b" "cib_num_pages b \<le> 1000000" "\<forall>n. alloc_grants al n"
  shows "\<exists>buf ci. carquet_column_index_serialize al (Some b) (Some carquet_buffer_init) = Done (Some buf, CARQUET_OK) \<and>
    carquet_column_index_parse al (Some (buffer_contents buf)) = Parsed ci \<and>
    carquet_column_index_num_pages ci = cib_num_pages b \<and>
    carquet_column_index_boundary_order ci = cib_boundary_order b \<and>
    (\<forall>i < cib_num_pages b. carquet_column_index_get_page_stats ci (int i) = Done (Inr (cib_pages b ! i)))"
  using column_index_serialize_bytes [OF assms] column_index_parse_bytes [OF assms]
  by (fastforce simp: shows_pages_def)

theorem column_index_roundtrip_witness:
  "\<exists>buf ci. carquet_column_index_serialize generous (Some double_page) (Some carquet_buffer_init) = Done (Some buf, CARQUET_OK) \<and>
    carquet_column_index_parse generous (Some (buffer_contents buf)) = Parsed ci \<and>
    carquet_column_index_get_page_stats ci 0 =
      Done (Inr \<lparr>ps_null_count = 0, ps_min_value = Some (le_store 8 f64_1), ps_min_value_size = 8,
        ps_max_value = Some (le_store 8 f64_2), ps_max_value_size = 8, ps_is_null_page = False\<rparr>)"
proof -
  have "cib_ok double_page"
    by (simp add: cib_ok_def double_page_def stats_array_ok_def array_ok_def stat_ok_def stat_entry_def)
  moreover have "cib_num_pages double_page = 1" "cib_pages double_page =
      [\<lparr>ps_null_count = 0, ps_min_value = Some (le_store 8 f64_1), ps_min_value_size = 8,
        ps_max_value = Some (le_store 8 f64_2), ps_max_value_size = 8, ps_is_null_page = False\<rparr>]"
    by (simp_all add: double_page_def cib_pages_def cib_page_def stat_entry_def)
  ultimately show ?thesis
    using column_index_roundtrip [of double_page generous] by (auto simp: generous_def)
qed

text \<open>
  C11: A page index goes through a file. When the writer has appended the column index and the
  offset index of a column and a reader of the file finds their places in the column
  metadata, the reader's accessors return both indexes with every page as the builders
  collected it, whether the file is mapped or read through a handle. The optional
  list of uncompressed sizes is skipped by the parser and disturbs nothing.
\<close>

theorem page_index_file_roundtrip:
  assumes al: "\<forall>n. alloc_grants al n" and fw: "\<forall>old bs. length bs \<le> fw old bs"
    and b: "cib_ok b" "cib_num_pages b \<le> 1000000" and ob: "oib_ok ob" "oib_num_pages ob \<le> 1000000"
    and size: "length (cib_bytes b) < 2 ^ 31"
    and w: "fw_file_offset w = word_of_nat (length (fw_contents w))" "length (fw_contents w) + 2 ^ 33 < 2 ^ 63"
    and run: "write_column_page_index fw al (Some b) (Some ob) w chunk = Done (w', chunk', st)"
    and rd: "reads_file seeks rd (fw_contents w' @ later)"
    and col: "reader_get_column_chunk rd r c = Inr col" "has_index_regions col chunk'"
  shows "st = CARQUET_OK \<and>
    (\<exists>ci. carquet_reader_get_column_index al seeks rd r c = Parsed (Inr (Some ci)) \<and> shows_pages ci b) \<and>
    (\<exists>oi. carquet_reader_get_offset_index al seeks rd r c = Parsed (Inr (Some oi)) \<and> shows_locations oi ob)"
proof -
  note out = run [unfolded write_column_page_index_appends [OF al fw b ob] Let_def]
  have whole: "reads_file seeks rd (fw_contents w @ cib_bytes b @ oib_bytes ob @ later)"
    "reads_file seeks rd ((fw_contents w @ cib_bytes b) @ oib_bytes ob @ later)"
    using rd out by auto
  have small: "length (oib_bytes ob) < 2 ^ 31"
    using length_offset_index_bytes(2) [OF refl oib_facts(2)] oib_facts(1) ob by (simp add: oib_bytes_def)
  obtain ci where ci: "carquet_column_index_parse al (Some (cib_bytes b)) = Parsed ci" "shows_pages ci b"
    using column_index_parse_bytes [OF b al] by blast
  obtain oi where oi: "carquet_offset_index_parse al (Some (oib_bytes ob)) = Parsed oi" "shows_locations oi ob"
    using offset_index_parse_bytes [OF ob al] by blast
  have "carquet_reader_get_column_index al seeks rd r c = Parsed (Inr (Some ci))"
    using get_index_region_reads [where parse = "carquet_column_index_parse al", OF whole(1) al index_bytes_not_Nil(1) size _ ci(1)] out w col
    by (auto simp: carquet_reader_get_column_index_def has_index_regions_def record_column_index_def record_offset_index_def)
  moreover have "carquet_reader_get_offset_index al seeks rd r c = Parsed (Inr (Some oi))"
    using get_index_region_reads [where parse = "carquet_offset_index_parse al", OF whole(2) al index_bytes_not_Nil(2) small _ oi(1)] out w col size
    by (auto simp: carquet_reader_get_offset_index_def has_index_regions_def record_column_index_def record_offset_index_def)
  ultimately show ?thesis
    using out ci(2) oi(2) by auto
qed

definition one_location :: carquet_offset_index_builder where
  "one_location = \<lparr>oib_capacity = 1, oib_num_pages = 1, oib_offsets = Live [4], oib_compressed_sizes = Live [50],
     oib_first_row_indices = Live [0], oib_uncompressed_sizes = Some (Live [64]), oib_track_uncompressed = True\<rparr>"

text \<open>One page of doubles in a file after a four-byte magic: 31 bytes at 4 and 14 at 35.\<close>

definition indexed_chunk :: column_chunk where
  "indexed_chunk = \<lparr>cc_has_metadata = True, cc_has_bloom_filter_offset = False,
     cc_bloom_filter_offset = 0, cc_bloom_filter_length = 0,
     cc_has_column_index_offset = True, cc_column_index_offset = 4,
     cc_has_column_index_length = True, cc_column_index_length = 31,
     cc_has_offset_index_offset = True, cc_offset_index_offset = 35,
     cc_has_offset_index_length = True, cc_offset_index_length = 14\<rparr>"

definition indexed_file :: "bytes \<Rightarrow> carquet_reader" where
  "indexed_file bs = \<lparr>rd_file_size = 51, rd_mmap_data = None, rd_file = Some (bs @ [1, 2]), rd_schema = None,
     rd_row_groups = [\<lparr>rg_num_rows = 7, rg_columns = [indexed_chunk]\<rparr>]\<rparr>"

lemma index_sizes: "length (cib_bytes double_page) = 31" "length (oib_bytes one_location) = 14"
  by code_simp+

theorem page_index_file_roundtrip_witness:
  "\<exists>w' chunk'. write_column_page_index all_taken generous (Some double_page) (Some one_location)
      \<lparr>fw_contents = [80, 65, 82, 49], fw_file_offset = 4\<rparr> no_regions = Done (w', chunk', CARQUET_OK) \<and>
    (\<exists>ci. carquet_reader_get_column_index generous (\<lambda>_. True) (indexed_file (fw_contents w')) 0 0 = Parsed (Inr (Some ci)) \<and>
       shows_pages ci double_page) \<and>
    (\<exists>oi. carquet_reader_get_offset_index generous (\<lambda>_. True) (indexed_file (fw_contents w')) 0 0 = Parsed (Inr (Some oi)) \<and>
       shows_locations oi one_location)"
proof -
  let ?w = "\<lparr>fw_contents = [80, 65, 82, 49], fw_file_offset = 4\<rparr> :: file_writer"
  have al: "\<forall>k. alloc_grants generous k" and fw: "\<forall>old bs. length bs \<le> all_taken old bs"
    by (simp_all add: generous_def all_taken_def)
  have b: "cib_ok double_page" "cib_num_pages double_page \<le> 1000000"
    by (simp_all add: cib_ok_def double_page_def stats_array_ok_def array_ok_def stat_ok_def stat_entry_def)
  have ob: "oib_ok one_location" "oib_num_pages one_location \<le> 1000000"
    by (simp_all add: oib_ok_def one_location_def array_ok_def)
  have w: "fw_file_offset ?w = word_of_nat (length (fw_contents ?w))" "length (fw_contents ?w) + 2 ^ 33 < 2 ^ 63"
    and size: "length (cib_bytes double_page) < 2 ^ 31"
    by (simp_all add: index_sizes)
  note run = write_column_page_index_appends [OF al fw b ob, of ?w no_regions, unfolded Let_def index_sizes]
  let ?bs = "fw_contents ?w @ cib_bytes double_page @ oib_bytes one_location"
  show ?thesis
    using page_index_file_roundtrip [OF al fw b ob size w run, where r = 0 and c = 0 and later = "[1, 2]" and
        seeks = "\<lambda>_. True" and col = indexed_chunk and rd = "indexed_file ?bs"] run
    by (auto simp: reader_get_column_chunk_def carquet_reader_row_group_index_valid_def no_regions_def indexed_file_def
        indexed_chunk_def reads_file_def has_index_regions_def record_column_index_def record_offset_index_def index_sizes)
qed

end
