(* ===== verification/Spec2Isabelle.thy ===== *)
theory Spec2Isabelle
  imports Thrift_Roundtrip Rle_Levels Snappy_Encode Delta_Strings Dictionary Bloom_File Page_Index_Roundtrip
begin

text \<open>
  qio reads and writes Parquet files from R. Its R entry points (\<^verbatim>\<open>src/qio.c\<close>, \<^verbatim>\<open>src/qio_file.c\<close>)
  drive a bundled Parquet library, carquet (\<^verbatim>\<open>src/carquet\<close>): the file writer turns columns into pages,
  pages into encoded and compressed bytes and the metadata into Thrift; the reader goes the other way
  and has to survive any bytes it is given. This development models, in layers, the code that turns values into
  file bytes and back.

  \<^bold>\<open>Shared vocabulary.\<close> \<open>Prelude\<close> names the C integers as words and holds the facts on words, bytes and lists
  that the components share. \<open>Status\<close> is \<^verbatim>\<open>carquet/error.h\<close>: the status codes, the result type \<open>outcome\<close> (an error
  is the left summand), the allocator as a parameter, so that every allocation failure is a branch, and the type
  \<open>access\<close> of code that reads or writes memory: an access outside an array, a use of a freed block and a signed
  overflow are the value \<open>Invalid_Access\<close>, so that a theorem that excludes it speaks about every access on the way,
  also on the paths that end in an error.

  \<^bold>\<open>Bytes.\<close> \<open>Endian\<close> is \<^verbatim>\<open>core/endian.h\<close>: loads, stores, varints, zigzag, each with its inverse. \<open>Buffer\<close> is
  \<^verbatim>\<open>core/buffer.c\<close>: the growable buffer with 64-bit sizes that wrap, and the read cursor. Two locales state
  what the clients rely on, \<open>byte_sink\<close> (an append adds exactly its bytes or leaves the contents alone) and
  \<open>byte_source\<close>; the buffer and the cursor are their interpretations.

  \<^bold>\<open>Thrift metadata.\<close> \<open>Thrift_Encode\<close> and \<open>Thrift_Decode\<close> are \<^verbatim>\<open>thrift/thrift_encode.c\<close> and
  \<^verbatim>\<open>thrift/thrift_decode.c\<close>, writer by writer and reader by reader, with the sticky status and the stack of field
  ids. \<open>Thrift_Wire\<close> proves each reader against the bytes of its writer, \<open>Thrift_Roundtrip\<close> lifts that to
  whole structs, and \<open>Thrift_Skip\<close> shows that skipping an unknown value terminates on every input, stays
  inside it and consumes exactly one well-formed value whose structs nest at most 32 deep (and shows the one shape,
  containers of booleans, where it does not). \<open>Encoder_State\<close> states what a writer call adds to the output and to the
  stack of field ids, one lemma per writer, for the structs that are written call by call.

  \<^bold>\<open>Bit packing and RLE.\<close> \<open>Bitpack\<close> is \<^verbatim>\<open>core/bitpack.c\<close>; the SIMD unpackers are a parameter under the locale
  \<open>unpack_kernels\<close>, interpreted on the empty tables of the scalar build. \<open>Rle_Decode\<close>, \<open>Rle_Encode\<close> and \<open>Rle_Levels\<close>
  are \<^verbatim>\<open>encoding/rle.c\<close>. The format is an abstract function from bytes to values; the batched decoder, the
  level decoder and the bitmap decoder are each proved equal to it, and the encoder to produce streams that denote the
  values put.

  \<^bold>\<open>Kernels.\<close> \<open>Kernels\<close> is the scalar part of \<^verbatim>\<open>simd/dispatch.c\<close>: prefix sums, gathers, stream splitting, match
  copies, minimum and maximum. The locale \<open>simd_kernels\<close> is the contract of the dispatch table; for the
  unpacking of booleans it asks no more than 2\<open>^34\<close> values, because the scalar code keeps the byte index in an \<^verbatim>\<open>int\<close>.

  \<^bold>\<open>Encodings.\<close> \<open>Byte_Stream_Split\<close>, \<open>Plain\<close>, \<open>Delta\<close>, \<open>Delta_Length\<close>, \<open>Delta_Strings\<close> and \<open>Dictionary\<close> are the files of
  the same names under \<^verbatim>\<open>encoding/\<close>. Each has its round trip; \<open>Plain\<close> shows that accepted byte arrays re-encode to the
  bytes consumed; \<open>Delta\<close> has the invariant of the decoder state, over every state its loop reaches on arbitrary
  input, and what output capacity the encoder needs; \<open>Delta_Strings\<close> models the work buffer in which strings are rebuilt
  and shows that on any input every copy stays inside it, whether the page is accepted or refused, up to the one signed
  sum that a crafted page can overflow. \<open>Dictionary\<close> models the builder with its chained hash table; the locale
  \<open>index_table\<close> is what a table promises to the builder, and the chained table is its interpretation, through
  insertions and rehashes.

  \<^bold>\<open>Compression.\<close> \<open>Snappy_Decode\<close> and \<open>Snappy_Encode\<close> are \<^verbatim>\<open>compression/snappy.c\<close>, with the output array and the wide
  overlapping stores as they are. The decompressor is proved to accept every stream of the
  format whose output fits and to write that output and nothing else, and to refuse any other stream that does not
  contain the bytes FC FF FF FF FF (a literal of 2\<open>^32\<close> bytes, whose length wraps to 0 in the code); the compressor, with its hash table, its
  accelerating search and its three ways to store a copy, to produce a stream within the advertised bound that denotes
  the source.

  \<^bold>\<open>Bloom filters.\<close> \<open>Xxhash\<close> is \<^verbatim>\<open>util/xxhash.c\<close>, against a reference by chunks. \<open>Bloom_Filter\<close> is
  \<^verbatim>\<open>metadata/bloom_filter.c\<close> with the operations of \<^verbatim>\<open>writer/column_writer.c\<close> on the filter of a column; memory
  accesses are checked, so that an access outside the bit array is a value of the model. The locale \<open>keyed_filter\<close> is
  the contract of an insertion with its query, interpreted for the hashes and the five typed entry points.
  \<open>Bloom_File\<close> is the part of \<^verbatim>\<open>writer/file_writer.c\<close> that writes the filters behind a row group and the part of
  \<^verbatim>\<open>reader/file_reader.c\<close> that finds and parses them, every byte of the header through a checked read.

  \<^bold>\<open>Page index.\<close> \<open>File_Access\<close> holds the file as the writer extends it and the reader sees it, the column and row group
  metadata and the lookups of \<^verbatim>\<open>reader/file_reader.c\<close> that the two kinds of region share. \<open>Page_Index\<close> is
  \<^verbatim>\<open>metadata/page_index.c\<close>: the builders with their growing arrays (an array that \<^verbatim>\<open>realloc\<close> released is \<open>Dangling\<close>),
  the serialisers, the parsers and the accessors, with the code of the file writer and reader that stores and loads
  the regions. The locale \<open>field_parser\<close> is the contract of a function that handles one Thrift field inside the
  field loop (it ends, stays inside the input, keeps an invariant of what was parsed); the column index, page location
  and offset index parsers are its interpretations. A builder refines the list of its pages, the parsers are safe on
  any bytes, and \<open>Page_Index_Roundtrip\<close> takes both indexes through serialisation, a file and the reader.

  \<^bold>\<open>State.\<close> A C struct is a record with the fields of the struct, a pointer with a length is a list, an index into an
  array a natural number; \<^verbatim>\<open>size_t\<close> and counts are words where the code's sums can wrap (\<open>Buffer\<close>, \<open>Plain\<close>,
  \<open>Byte_Stream_Split\<close>) and natural numbers where the code has already bounded them by the input.

  \<^bold>\<open>Termination and fuel.\<close> Loops over a count are structural; the others have a measure. \<open>thrift_skip\<close> runs on fuel:
  structs are refused below the nesting limit of 32, but lists, sets and maps nest as deep as the input allows, so the
  recursion depth is bounded only by the input, and the fuel is one more than the bytes that remain. That this
  suffices is part of its termination theorem; the depth of the C stack is outside the model. The field loops of the
  page index parsers take their fuel from the remaining bytes in the same way, and that they never run out (\<open>Stuck\<close>) is
  part of the safety theorem.

  \<^bold>\<open>Not modelled.\<close> The vector kernels of \<^verbatim>\<open>simd/arm\<close> and \<^verbatim>\<open>simd/x86\<close> (intrinsics; parameters of the model under the two
  kernel locales), the third-party codecs zstd, lz4 and zlib and their wrappers, the R glue of \<^verbatim>\<open>src/qio*.c\<close> (the R
  API), file and thread handling (\<^verbatim>\<open>reader/mmap_reader.c\<close>, \<^verbatim>\<open>reader/worker_pool.c\<close>), the page and
  column readers and writers, the page filter over the page index (\<^verbatim>\<open>reader/page_filter.c\<close>), the Thrift structs of
  \<^verbatim>\<open>parquet_types.c\<close>, schema and statistics, the bit-stream objects of \<^verbatim>\<open>core/bitpack.h\<close>, and the functions that only
  free memory.
\<close>

end
